(* ===== verification/Prelude.thy ===== *)
theory Prelude
  imports Main "HOL-Library.Word" "HOL-Library.Monad_Syntax"
begin

text \<open>
  Shared vocabulary of the development: the kernel's error codes, the way an
  assertion or a panic of the C code is represented, machine-width arithmetic
  on natural numbers, and the generic lemmas the component theories use.

  Conventions used everywhere:
  \<^item> a C function that can hit \<open>assert\<close> or \<open>panic\<close> returns an \<open>option\<close>;
    \<open>None\<close> means that the kernel stopped there. The loops over linked lists that
    are \<open>partial_function\<close>s also yield \<open>None\<close> when they do not end, so a theorem
    that gives a result \<open>Some\<close> covers termination and the absence of panics;
  \<^item> a C return code is an \<open>int\<close>, \<open>0\<close> for success and \<open>- E_X\<close> for an error;
  \<^item> an unsigned machine integer is a \<open>nat\<close> with the wrap-around written out
    (\<open>u32\<close>, \<open>u64\<close>), or a word where the code relies on bits or on signed wrap-around.
\<close>

named_theorems kdefs \<open>definitions that component proofs unfold\<close>
named_theorems kspec \<open>behaviour of single operations\<close>

section \<open>Assertions\<close>

definition kassert :: "bool \<Rightarrow> unit option" where
  "kassert b = (if b then Some () else None)"

lemma kassert_simps [simp]:
  "kassert True = Some ()"
  "kassert False = None"
  by (simp_all add: kassert_def)

lemma kassert_eq_Some [simp]: "kassert b = Some u \<longleftrightarrow> b"
  by (simp add: kassert_def)

lemma kassert_eq_None [simp]: "kassert b = None \<longleftrightarrow> \<not> b"
  by (simp add: kassert_def)

lemma bind_kassert_eq_Some [simp]:
  "Option.bind (kassert b) f = Some r \<longleftrightarrow> b \<and> f () = Some r"
  by (cases b) auto

section \<open>Machine-width arithmetic on natural numbers\<close>

definition u32 :: "nat \<Rightarrow> nat" where
  "u32 n = n mod 2 ^ 32"

definition u64 :: "nat \<Rightarrow> nat" where
  "u64 n = n mod 2 ^ 64"

lemma u32_id [simp]: "n < 2 ^ 32 \<Longrightarrow> u32 n = n"
  by (simp add: u32_def)

lemma u64_id [simp]: "n < 2 ^ 64 \<Longrightarrow> u64 n = n"
  by (simp add: u64_def)

lemma u32_less: "u32 n < 2 ^ 32"
  by (simp add: u32_def)

lemma u32_dec: "0 < n \<Longrightarrow> n < 2 ^ 32 \<Longrightarrow> u32 (n + 2 ^ 32 - 1) = n - 1"
proof -
  assume "0 < n" "n < 2 ^ 32"
  then have "n + 2 ^ 32 - 1 = (n - 1) + 2 ^ 32" "n - 1 < 2 ^ 32" by simp_all
  then show ?thesis unfolding u32_def by (metis mod_add_self2 mod_less)
qed

lemma u64_less: "u64 n < 2 ^ 64"
  by (simp add: u64_def)

lemma u64_sub: "b \<le> a \<Longrightarrow> a < 2 ^ 64 \<Longrightarrow> u64 (a + 2 ^ 64 - b) = a - b"
proof -
  assume "b \<le> a" "a < 2 ^ 64"
  then have "a + 2 ^ 64 - b = (a - b) + 2 ^ 64" "a - b < 2 ^ 64" by simp_all
  then show ?thesis unfolding u64_def by (metis mod_add_self2 mod_less)
qed

text \<open>Signed 64-bit arithmetic (\<open>off_t\<close>, \<open>long\<close>) wraps around.\<close>

definition s64 :: "int \<Rightarrow> int" where
  "s64 x = (x + 2 ^ 63) mod 2 ^ 64 - 2 ^ 63"

lemma s64_range: "- (2 ^ 63) \<le> x \<Longrightarrow> x < 2 ^ 63 \<Longrightarrow> s64 x = x"
  unfolding s64_def by (subst mod_pos_pos_trivial) auto

lemma s64_id: "0 \<le> x \<Longrightarrow> x < 2 ^ 63 \<Longrightarrow> s64 x = x"
  by (rule s64_range) auto

text \<open>\<open>ROUNDDOWN\<close>, \<open>ROUNDUP\<close> and \<open>ROUNDUP_DIV\<close> of libs/defs.h, on \<open>size_t\<close> values.\<close>

definition ROUNDDOWN :: "nat \<Rightarrow> nat \<Rightarrow> nat" where
  "ROUNDDOWN a n = a - a mod n"

definition ROUNDUP :: "nat \<Rightarrow> nat \<Rightarrow> nat" where
  "ROUNDUP a n = ROUNDDOWN (u64 (a + n - 1)) n"

definition ROUNDUP_DIV :: "nat \<Rightarrow> nat \<Rightarrow> nat" where
  "ROUNDUP_DIV a n = u64 (a + n - 1) div n"

lemma ROUNDDOWN_le: "ROUNDDOWN a n \<le> a"
  by (simp add: ROUNDDOWN_def)

lemma ROUNDDOWN_dvd: "n dvd ROUNDDOWN a n"
  by (simp add: ROUNDDOWN_def dvd_minus_mod)

lemma ROUNDDOWN_mult_div: "ROUNDDOWN a n = n * (a div n)"
  by (simp add: ROUNDDOWN_def minus_mod_eq_mult_div)

lemma ROUNDDOWN_less_add: "0 < n \<Longrightarrow> a < ROUNDDOWN a n + n"
  using mod_less_divisor [of n a] mod_less_eq_dividend [of a n]
  unfolding ROUNDDOWN_def by linarith

section \<open>Error codes (libs/error.h)\<close>

definition E_UNSPECIFIED :: int where "E_UNSPECIFIED = 1"
definition E_BAD_PROC :: int where "E_BAD_PROC = 2"
definition E_INVAL :: int where "E_INVAL = 3"
definition E_NO_MEM :: int where "E_NO_MEM = 4"
definition E_NO_FREE_PROC :: int where "E_NO_FREE_PROC = 5"
definition E_FAULT :: int where "E_FAULT = 6"
definition E_SWAP_FAULT :: int where "E_SWAP_FAULT = 7"
definition E_INVAL_ELF :: int where "E_INVAL_ELF = 8"
definition E_KILLED :: int where "E_KILLED = 9"
definition E_PANIC :: int where "E_PANIC = 10"
definition E_TIMEOUT :: int where "E_TIMEOUT = 11"
definition E_TOO_BIG :: int where "E_TOO_BIG = 12"
definition E_NO_DEV :: int where "E_NO_DEV = 13"
definition E_NA_DEV :: int where "E_NA_DEV = 14"
definition E_BUSY :: int where "E_BUSY = 15"
definition E_NOENT :: int where "E_NOENT = 16"
definition E_ISDIR :: int where "E_ISDIR = 17"
definition E_NOTDIR :: int where "E_NOTDIR = 18"
definition E_XDEV :: int where "E_XDEV = 19"
definition E_UNIMP :: int where "E_UNIMP = 20"
definition E_SEEK :: int where "E_SEEK = 21"
definition E_MAX_OPEN :: int where "E_MAX_OPEN = 22"
definition E_EXISTS :: int where "E_EXISTS = 23"
definition E_NOTEMPTY :: int where "E_NOTEMPTY = 24"

lemmas error_codes =
  E_UNSPECIFIED_def E_BAD_PROC_def E_INVAL_def E_NO_MEM_def E_NO_FREE_PROC_def
  E_FAULT_def E_SWAP_FAULT_def E_INVAL_ELF_def E_KILLED_def E_PANIC_def
  E_TIMEOUT_def E_TOO_BIG_def E_NO_DEV_def E_NA_DEV_def E_BUSY_def E_NOENT_def
  E_ISDIR_def E_NOTDIR_def E_XDEV_def E_UNIMP_def E_SEEK_def E_MAX_OPEN_def
  E_EXISTS_def E_NOTEMPTY_def

section \<open>Lists and options\<close>

lemma bind_eq_SomeE:
  assumes "Option.bind m f = Some r"
  obtains x where "m = Some x" "f x = Some r"
  using assms by (cases m) auto

lemma bind_weak_cong: "m = m' \<Longrightarrow> Option.bind m f = Option.bind m' f"
  by simp

lemma ivl_disjoint:
  assumes "{a..<a + n} \<inter> {b..<b + m} = {}" "0 < n" "0 < (m::nat)"
  shows "b + m \<le> a \<or> a + n \<le> b"
proof (rule ccontr)
  assume "\<not> (b + m \<le> a \<or> a + n \<le> b)"
  then have "max a b \<in> {a..<a + n} \<inter> {b..<b + m}" using assms by auto
  with assms(1) show False by simp
qed

lemma in_set_tl: "x \<in> set (tl xs) \<Longrightarrow> x \<in> set xs"
  by (cases xs) auto

lemma distinct_split_unique:
  assumes "distinct (xs @ a # ys)" "xs @ a # ys = us @ a # vs"
  shows "xs = us \<and> ys = vs"
proof -
  have "a \<notin> set xs" "a \<notin> set ys" using assms(1) by simp_all
  with assms(2) show ?thesis using append_Cons_eq_iff [of a xs ys us vs] by simp
qed

lemma remove1_middle [simp]:
  "a \<notin> set xs \<Longrightarrow> remove1 a (xs @ a # ys) = xs @ ys"
  by (simp add: remove1_append)

lemma length_remove1_Suc: "a \<in> set xs \<Longrightarrow> length xs = Suc (length (remove1 a xs))"
  by (induction xs) auto

lemma find_SomeD: "List.find P xs = Some x \<Longrightarrow> x \<in> set xs \<and> P x"
  by (induction xs) (auto split: if_splits)

end
