(* ===== verification/Link_List.thy ===== *)
theory Link_List
  imports Prelude
begin

text \<open>
  The circular doubly linked lists of lab8/libs/list.h, at the level of
  pointers: a store holds the two links of every node, and every operation is
  the sequence of assignments of the C code. The predicate \<open>dlist h r xs\<close>
  says that the store links the list head \<open>r\<close> and the nodes \<open>xs\<close> into one
  ring; each operation is shown to do on \<open>xs\<close> what its comment promises, so
  the component theories may speak of lists instead of links.
\<close>

section \<open>The store and the operations\<close>

record 'a list_entry =
  l_prev :: "'a \<Rightarrow> 'a"
  l_next :: "'a \<Rightarrow> 'a"

definition set_prev :: "'a \<Rightarrow> 'a \<Rightarrow> 'a list_entry \<Rightarrow> 'a list_entry" where
  "set_prev p v h = h\<lparr>l_prev := (l_prev h)(p := v)\<rparr>"

definition set_next :: "'a \<Rightarrow> 'a \<Rightarrow> 'a list_entry \<Rightarrow> 'a list_entry" where
  "set_next p v h = h\<lparr>l_next := (l_next h)(p := v)\<rparr>"

definition list_init :: "'a \<Rightarrow> 'a list_entry \<Rightarrow> 'a list_entry" where
  "list_init elm h = set_prev elm elm (set_next elm elm h)"

definition list_add_raw :: "'a \<Rightarrow> 'a \<Rightarrow> 'a \<Rightarrow> 'a list_entry \<Rightarrow> 'a list_entry" where
  "list_add_raw elm prv nxt h =
     (let h = set_prev nxt elm h;
          h = set_next prv elm h;
          h = set_next elm nxt h
      in set_prev elm prv h)"

definition list_del_raw :: "'a \<Rightarrow> 'a \<Rightarrow> 'a list_entry \<Rightarrow> 'a list_entry" where
  "list_del_raw prv nxt h = set_prev nxt prv (set_next prv nxt h)"

definition list_add_after :: "'a \<Rightarrow> 'a \<Rightarrow> 'a list_entry \<Rightarrow> 'a list_entry" where
  "list_add_after listelm elm h = list_add_raw elm listelm (l_next h listelm) h"

definition list_add :: "'a \<Rightarrow> 'a \<Rightarrow> 'a list_entry \<Rightarrow> 'a list_entry" where
  "list_add listelm elm h = list_add_after listelm elm h"

definition list_add_before :: "'a \<Rightarrow> 'a \<Rightarrow> 'a list_entry \<Rightarrow> 'a list_entry" where
  "list_add_before listelm elm h = list_add_raw elm (l_prev h listelm) listelm h"

definition list_del :: "'a \<Rightarrow> 'a list_entry \<Rightarrow> 'a list_entry" where
  "list_del listelm h = list_del_raw (l_prev h listelm) (l_next h listelm) h"

definition list_del_init :: "'a \<Rightarrow> 'a list_entry \<Rightarrow> 'a list_entry" where
  "list_del_init listelm h = list_init listelm (list_del listelm h)"

definition list_empty :: "'a \<Rightarrow> 'a list_entry \<Rightarrow> bool" where
  "list_empty lst h \<longleftrightarrow> l_next h lst = lst"

definition list_next :: "'a \<Rightarrow> 'a list_entry \<Rightarrow> 'a" where
  "list_next listelm h = l_next h listelm"

definition list_prev :: "'a \<Rightarrow> 'a list_entry \<Rightarrow> 'a" where
  "list_prev listelm h = l_prev h listelm"

text \<open>
  The loop every client uses to walk a list,
  \<open>while ((le = list_next(le)) != list)\<close>; the fuel bounds the number of
  nodes visited and \<open>dlist_walk\<close> below says when it is enough.
\<close>

fun list_walk :: "nat \<Rightarrow> 'a \<Rightarrow> 'a \<Rightarrow> 'a list_entry \<Rightarrow> 'a list option" where
  "list_walk 0 lst le h = None"
| "list_walk (Suc n) lst le h =
     (let le' = list_next le h in
      if le' = lst then Some [] else map_option (Cons le') (list_walk n lst le' h))"

section \<open>Rings\<close>

fun chain :: "'a list_entry \<Rightarrow> 'a list \<Rightarrow> bool" where
  "chain h (a # b # ys) \<longleftrightarrow> l_next h a = b \<and> l_prev h b = a \<and> chain h (b # ys)"
| "chain h _ \<longleftrightarrow> True"

definition dlist :: "'a list_entry \<Rightarrow> 'a \<Rightarrow> 'a list \<Rightarrow> bool" where
  "dlist h r xs \<longleftrightarrow> distinct (r # xs) \<and> chain h (r # xs @ [r])"

lemmas list_defs [kdefs] =
  list_init_def list_add_raw_def list_del_raw_def list_add_after_def list_add_def
  list_add_before_def list_del_def list_del_init_def list_empty_def list_next_def
  list_prev_def

lemma set_links [simp]:
  "l_prev (set_prev p v h) = (l_prev h)(p := v)"
  "l_next (set_prev p v h) = l_next h"
  "l_next (set_next p v h) = (l_next h)(p := v)"
  "l_prev (set_next p v h) = l_prev h"
  by (simp_all add: set_prev_def set_next_def)

lemma list_add_raw_links [simp]:
  "l_next (list_add_raw e p n h) = ((l_next h)(p := e))(e := n)"
  "l_prev (list_add_raw e p n h) = ((l_prev h)(n := e))(e := p)"
  by (simp_all add: list_add_raw_def Let_def)

lemma list_del_raw_links [simp]:
  "l_next (list_del_raw p n h) = (l_next h)(p := n)"
  "l_prev (list_del_raw p n h) = (l_prev h)(n := p)"
  by (simp_all add: list_del_raw_def)

lemma list_init_links [simp]:
  "l_next (list_init e h) = (l_next h)(e := e)"
  "l_prev (list_init e h) = (l_prev h)(e := e)"
  by (simp_all add: list_init_def)

lemma chain_Cons:
  "ys \<noteq> [] \<Longrightarrow> chain h (a # ys) \<longleftrightarrow> l_next h a = hd ys \<and> l_prev h (hd ys) = a \<and> chain h ys"
  by (cases ys) auto

lemma chain_append:
  "xs \<noteq> [] \<Longrightarrow> ys \<noteq> [] \<Longrightarrow>
   chain h (xs @ ys) \<longleftrightarrow>
     chain h xs \<and> l_next h (last xs) = hd ys \<and> l_prev h (hd ys) = last xs \<and> chain h ys"
proof (induction xs)
  case (Cons a xs)
  then show ?case by (cases "xs = []") (auto simp: chain_Cons)
qed simp

text \<open>A store that agrees on the inner links of a chain keeps the chain.\<close>

lemma chain_cong:
  assumes "\<And>x. x \<in> set (butlast ys) \<Longrightarrow> l_next h' x = l_next h x"
    and "\<And>x. x \<in> set (tl ys) \<Longrightarrow> l_prev h' x = l_prev h x"
  shows "chain h' ys \<longleftrightarrow> chain h ys"
  using assms
proof (induction ys)
  case (Cons a ys)
  show ?case
  proof (cases ys)
    case (Cons b zs)
    then have "chain h' ys \<longleftrightarrow> chain h ys"
      using Cons.prems by (intro Cons.IH) auto
    with Cons Cons.prems show ?thesis by auto
  qed simp
qed simp

lemma dlist_split:
  "dlist h r (xs @ ys) \<longleftrightarrow>
     distinct (r # xs @ ys) \<and> chain h (r # xs) \<and> chain h (ys @ [r]) \<and>
     l_next h (last (r # xs)) = hd (ys @ [r]) \<and> l_prev h (hd (ys @ [r])) = last (r # xs)"
  using chain_append [of "r # xs" "ys @ [r]" h] by (auto simp: dlist_def)

lemma dlist_frame:
  assumes "dlist h r xs"
    and "\<And>x. x \<in> set (r # xs) \<Longrightarrow> l_next h' x = l_next h x \<and> l_prev h' x = l_prev h x"
  shows "dlist h' r xs"
proof -
  have "chain h' (r # xs @ [r]) \<longleftrightarrow> chain h (r # xs @ [r])"
    using assms(2) by (intro chain_cong) (auto simp: butlast_append)
  with assms(1) show ?thesis by (simp add: dlist_def)
qed

section \<open>What the operations do to a ring\<close>

lemma dlist_distinct: "dlist h r xs \<Longrightarrow> distinct (r # xs)"
  by (simp add: dlist_def)

lemma dlist_init: "dlist (list_init e h) e []"
  by (simp add: dlist_def)

lemma dlist_next: "dlist h r xs \<Longrightarrow> list_next r h = (case xs of [] \<Rightarrow> r | x # _ \<Rightarrow> x)"
  by (auto simp: dlist_def list_next_def split: list.split)

lemma dlist_prev: "dlist h r xs \<Longrightarrow> list_prev r h = (if xs = [] then r else last xs)"
  using dlist_split [of h r xs "[]"] by (auto simp: list_prev_def)

lemma dlist_empty: "dlist h r xs \<Longrightarrow> list_empty r h \<longleftrightarrow> xs = []"
  by (cases xs) (auto simp: dlist_def list_empty_def)

lemma dlist_member_links:
  assumes "dlist h r (xs @ a # ys)"
  shows "list_prev a h = last (r # xs)" and "list_next a h = hd (ys @ [r])"
proof -
  show "list_prev a h = last (r # xs)"
    using dlist_split [of h r xs "a # ys"] assms by (simp add: list_prev_def)
  show "list_next a h = hd (ys @ [r])"
    using dlist_split [of h r "xs @ [a]" ys] assms by (simp add: list_next_def)
qed

lemma dlist_member_not_empty: "dlist h r (xs @ a # ys) \<Longrightarrow> \<not> list_empty a h"
  using dlist_member_links(2) [of h r xs a ys]
  by (cases ys) (auto simp: list_empty_def list_next_def dlist_def)

lemma dlist_add_raw:
  assumes d: "dlist h r (xs @ ys)" and e: "e \<notin> set (r # xs @ ys)"
    and p: "p = last (r # xs)" and n: "n = hd (ys @ [r])"
  shows "dlist (list_add_raw e p n h) r (xs @ e # ys)"
proof -
  let ?h = "list_add_raw e p n h"
  have dist: "distinct (r # xs @ ys)" and c: "chain h (r # xs)" "chain h (ys @ [r])"
    using d by (simp_all add: dlist_split)
  have dx: "distinct (r # xs)" using dist by auto
  have pb: "p \<notin> set (butlast (r # xs))"
    using dx p by (metis append_butlast_last_id distinct_append list.distinct(1)
        disjoint_iff list.set_intros(1))
  have pm: "p \<in> set (r # xs)" and nm: "n \<in> set (ys @ [r])"
    using p n by (metis last_in_set list.distinct(1), cases ys, auto)
  have nt: "n \<notin> set (tl (ys @ [r]))"
    using dist n by (cases ys) auto
  have "chain ?h (r # xs)"
    using c(1) pb nm dist e
    by (subst chain_cong [where h = h]) (auto split: if_splits dest: in_set_butlastD)
  moreover have "chain ?h (ys @ [r])"
    using c(2) pm nt dist e by (subst chain_cong [where h = h]) (auto dest: in_set_tl)
  moreover have "p \<noteq> e" "n \<noteq> e" using pm nm e by auto
  ultimately show ?thesis
    using dist e p n dlist_split [of ?h r xs "e # ys"] by (auto simp: chain_Cons)
qed

lemma dlist_add_after:
  assumes "dlist h r (xs @ ys)" "e \<notin> set (r # xs @ ys)" "p = last (r # xs)"
  shows "dlist (list_add_after p e h) r (xs @ e # ys)"
  using dlist_add_raw [OF assms refl] assms(1,3)
  by (simp add: list_add_after_def dlist_split)

lemma dlist_add_before:
  assumes "dlist h r (xs @ ys)" "e \<notin> set (r # xs @ ys)" "n = hd (ys @ [r])"
  shows "dlist (list_add_before n e h) r (xs @ e # ys)"
  using dlist_add_raw [OF assms(1,2) refl assms(3)] assms(1,3)
  by (simp add: list_add_before_def dlist_split)

text \<open>The two uses the kernel makes of them: push at the front, append at the back.\<close>

lemma dlist_push: "dlist h r xs \<Longrightarrow> e \<notin> set (r # xs) \<Longrightarrow> dlist (list_add r e h) r (e # xs)"
  using dlist_add_after [of h r "[]" xs e r] by (simp add: list_add_def)

lemma dlist_append: "dlist h r xs \<Longrightarrow> e \<notin> set (r # xs) \<Longrightarrow> dlist (list_add_before r e h) r (xs @ [e])"
  using dlist_add_before [of h r xs "[]" e r] by simp

lemma dlist_del:
  assumes d: "dlist h r (xs @ e # ys)"
  shows "dlist (list_del e h) r (xs @ ys)"
proof -
  define p n where "p = last (r # xs)" and "n = hd (ys @ [r])"
  let ?h = "list_del_raw p n h"
  have dist: "distinct (r # xs @ e # ys)" and c: "chain h (r # xs)" "chain h (ys @ [r])"
    using d dlist_split [of h r xs "e # ys"] by (auto simp: chain_Cons)
  have dx: "distinct (r # xs)" using dist by auto
  have pb: "p \<notin> set (butlast (r # xs))"
    using dx p_def by (metis append_butlast_last_id distinct_append list.distinct(1)
        disjoint_iff list.set_intros(1))
  have pm: "p \<in> set (r # xs)" and nm: "n \<in> set (ys @ [r])"
    using p_def n_def by (metis last_in_set list.distinct(1), cases ys, auto)
  have nt: "n \<notin> set (tl (ys @ [r]))"
    using dist n_def by (cases ys) auto
  have "chain ?h (r # xs)"
    using c(1) pb nm dist
    by (subst chain_cong [where h = h]) (auto split: if_splits dest: in_set_butlastD)
  moreover have "chain ?h (ys @ [r])"
    using c(2) pm nt dist by (subst chain_cong [where h = h]) (auto dest: in_set_tl)
  ultimately have "dlist ?h r (xs @ ys)"
    using dist dlist_split [of ?h r xs ys] by (auto simp: p_def n_def)
  moreover have "list_del e h = ?h"
    using dlist_member_links [OF d] by (simp add: list_del_def p_def n_def list_prev_def list_next_def)
  ultimately show ?thesis by simp
qed

lemma dlist_del_init:
  assumes d: "dlist h r (xs @ e # ys)"
  shows "dlist (list_del_init e h) r (xs @ ys)" and "dlist (list_del_init e h) e []"
proof -
  have "e \<notin> set (r # xs @ ys)" using d by (auto simp: dlist_def)
  then show "dlist (list_del_init e h) r (xs @ ys)"
    using dlist_del [OF d] by (auto intro!: dlist_frame [where h = "list_del e h"] simp: list_del_init_def)
  show "dlist (list_del_init e h) e []"
    by (simp add: list_del_init_def dlist_init)
qed

lemma dlist_walk_suffix:
  assumes "dlist h r (xs @ ys)"
  shows "list_walk (Suc (length ys + k)) r (last (r # xs)) h = Some ys"
  using assms
proof (induction ys arbitrary: xs)
  case Nil
  then have "list_next (last (r # xs)) h = r"
    using dlist_split [of h r xs "[]"] by (simp add: list_next_def)
  then show ?case by simp
next
  case (Cons y ys)
  from Cons.prems have "list_next (last (r # xs)) h = y" "y \<noteq> r"
    using dlist_split [of h r xs "y # ys"] by (auto simp: list_next_def)
  moreover have "list_walk (Suc (length ys + k)) r y h = Some ys"
    using Cons.IH [of "xs @ [y]"] Cons.prems by simp
  ultimately show ?case by simp
qed

lemma dlist_walk: "dlist h r xs \<Longrightarrow> length xs < n \<Longrightarrow> list_walk n r r h = Some xs"
  using dlist_walk_suffix [of h r "[]" xs "n - Suc (length xs)"] by simp

section \<open>The interface the kernel's queues rely on\<close>

text \<open>
  The scheduler's run list and the wait queues use a ring as a queue: append
  before the head, take the entry after the head, unlink it. The locale states
  what they rely on; its lemmas hold for every provider of these laws.
\<close>

locale ring_queue =
  fixes ring :: "'h \<Rightarrow> 'n \<Rightarrow> 'n list \<Rightarrow> bool"
    and init :: "'n \<Rightarrow> 'h \<Rightarrow> 'h"
    and enq :: "'n \<Rightarrow> 'n \<Rightarrow> 'h \<Rightarrow> 'h"
    and front :: "'n \<Rightarrow> 'h \<Rightarrow> 'n"
    and unlink :: "'n \<Rightarrow> 'h \<Rightarrow> 'h"
  assumes ring_distinct: "ring h r xs \<Longrightarrow> distinct (r # xs)"
    and ring_init: "ring (init r h) r []"
    and ring_enq: "ring h r xs \<Longrightarrow> e \<notin> set (r # xs) \<Longrightarrow> ring (enq r e h) r (xs @ [e])"
    and ring_front: "ring h r xs \<Longrightarrow> front r h = (case xs of [] \<Rightarrow> r | x # _ \<Rightarrow> x)"
    and ring_unlink: "ring h r (xs @ e # ys) \<Longrightarrow> ring (unlink e h) r (xs @ ys)"
begin

lemma ring_enq_all:
  "ring h r xs \<Longrightarrow> distinct (r # xs @ es) \<Longrightarrow> ring (fold (enq r) es h) r (xs @ es)"
proof (induction es arbitrary: h xs)
  case (Cons e es)
  then have "ring (enq r e h) r (xs @ [e])" by (intro ring_enq) auto
  then show ?case using Cons.IH [of "enq r e h" "xs @ [e]"] Cons.prems by simp
qed simp

lemma ring_unlink_front:
  "ring h r (x # xs) \<Longrightarrow> front r h = x \<and> ring (unlink (front r h) h) r xs"
  using ring_front [of h r "x # xs"] ring_unlink [of h r "[]" x xs] by simp

lemma fifo_order:
  assumes "ring h r []" "distinct (r # e # es)"
  shows "front r (fold (enq r) (e # es) h) = e"
    and "ring (unlink e (fold (enq r) (e # es) h)) r es"
  using ring_enq_all [OF assms(1), of "e # es"] assms(2) ring_unlink_front by force+

end

interpretation kring: ring_queue dlist list_init list_add_before list_next list_del_init
  by unfold_locales
    (blast intro: dlist_distinct dlist_init dlist_append dlist_next dlist_del_init(1))+

end
