(* ===== verification/Page_Alloc.thy ===== *)
theory Page_Alloc
  imports Link_List
begin

text \<open>
  The physical page allocators: first fit of lab8/kern/mm/default_pmm.c and
  best fit of lab2/kern/mm/best_fit_pmm.c. A page pointer is an index into the
  array of page descriptors, so pointer arithmetic is arithmetic on indices.
  The free list is the linked list of the code, kept in the pointer store of
  \<open>Link_List\<close>: the loops below walk and change that store exactly as the C
  loops do, including what happens when a loop goes on after an insertion.
\<close>

section \<open>Page descriptors and the free area\<close>

datatype link = FreeList | PageLink nat

record Page =
  pg_ref :: int
  pg_reserved :: bool
  pg_property :: bool
  property :: nat

record pmm_state =
  pages :: "nat \<Rightarrow> Page"
  links :: "link list_entry"
  nr_free :: nat

definition upd_page :: "nat \<Rightarrow> (Page \<Rightarrow> Page) \<Rightarrow> pmm_state \<Rightarrow> pmm_state" where
  "upd_page i f s = s\<lparr>pages := (pages s)(i := f (pages s i))\<rparr>"

definition set_property :: "nat \<Rightarrow> nat \<Rightarrow> pmm_state \<Rightarrow> pmm_state" where
  "set_property i n = upd_page i (\<lambda>p. p\<lparr>property := u32 n\<rparr>)"

definition SetPageProperty :: "nat \<Rightarrow> pmm_state \<Rightarrow> pmm_state" where
  "SetPageProperty i = upd_page i (\<lambda>p. p\<lparr>pg_property := True\<rparr>)"

definition ClearPageProperty :: "nat \<Rightarrow> pmm_state \<Rightarrow> pmm_state" where
  "ClearPageProperty i = upd_page i (\<lambda>p. p\<lparr>pg_property := False\<rparr>)"

definition upd_links :: "(link list_entry \<Rightarrow> link list_entry) \<Rightarrow> pmm_state \<Rightarrow> pmm_state" where
  "upd_links f s = s\<lparr>links := f (links s)\<rparr>"

definition default_init :: "pmm_state \<Rightarrow> pmm_state" where
  "default_init s = (upd_links (list_init FreeList) s)\<lparr>nr_free := 0\<rparr>"

text \<open>The loop of \<open>init_memmap\<close> that claims the reserved pages.\<close>

fun memmap_loop :: "nat \<Rightarrow> nat \<Rightarrow> (nat \<Rightarrow> Page) \<Rightarrow> (nat \<Rightarrow> Page) option" where
  "memmap_loop p 0 P = Some P"
| "memmap_loop p (Suc k) P = do {
     kassert (pg_reserved (P p));
     memmap_loop (Suc p) k
       (P(p := (P p)\<lparr>pg_reserved := False, pg_property := False, property := 0, pg_ref := 0\<rparr>)) }"

text \<open>The loop of \<open>free_pages\<close> that checks and resets the pages given back.\<close>

fun free_loop :: "nat \<Rightarrow> nat \<Rightarrow> (nat \<Rightarrow> Page) \<Rightarrow> (nat \<Rightarrow> Page) option" where
  "free_loop p 0 P = Some P"
| "free_loop p (Suc k) P = do {
     kassert (\<not> pg_reserved (P p) \<and> \<not> pg_property (P p));
     free_loop (Suc p) k
       (P(p := (P p)\<lparr>pg_reserved := False, pg_property := False, pg_ref := 0\<rparr>)) }"

text \<open>
  The insertion loop shared by \<open>init_memmap\<close> and \<open>free_pages\<close>. It stops after
  inserting in front of a higher block, but not after appending behind the last
  one: the next iteration then looks at the block just appended.
\<close>

partial_function (option) insert_loop :: "nat \<Rightarrow> link \<Rightarrow> link list_entry \<Rightarrow> link list_entry option" where
  "insert_loop base le h =
     (case list_next le h of
        FreeList \<Rightarrow> Some h
      | PageLink page \<Rightarrow>
          if base < page
          then Some (list_add_before (PageLink page) (PageLink base) h)
          else if list_next (PageLink page) h = FreeList
          then insert_loop base (PageLink page) (list_add (PageLink page) (PageLink base) h)
          else insert_loop base (PageLink page) h)"

definition free_list_insert :: "nat \<Rightarrow> pmm_state \<Rightarrow> pmm_state option" where
  "free_list_insert base s =
     (if list_empty FreeList (links s)
      then Some (upd_links (list_add FreeList (PageLink base)) s)
      else map_option (\<lambda>h. s\<lparr>links := h\<rparr>) (insert_loop base FreeList (links s)))"

definition default_init_memmap :: "nat \<Rightarrow> nat \<Rightarrow> pmm_state \<Rightarrow> pmm_state option" where
  "default_init_memmap base n s = do {
     kassert (n > 0);
     P \<leftarrow> memmap_loop base n (pages s);
     let s = SetPageProperty base (set_property base n (s\<lparr>pages := P\<rparr>));
     free_list_insert base (s\<lparr>nr_free := u32 (nr_free s + n)\<rparr>) }"

section \<open>Allocation\<close>

text \<open>First fit: the first block in list order that is large enough.\<close>

partial_function (option) first_fit_loop ::
    "nat \<Rightarrow> link \<Rightarrow> pmm_state \<Rightarrow> nat option option" where
  "first_fit_loop n le s =
     (case list_next le (links s) of
        FreeList \<Rightarrow> Some None
      | PageLink p \<Rightarrow>
          if property (pages s p) \<ge> n then Some (Some p)
          else first_fit_loop n (PageLink p) s)"

text \<open>Best fit: the smallest such block, the first one among equals.\<close>

partial_function (option) best_fit_loop ::
    "nat \<Rightarrow> link \<Rightarrow> nat option \<Rightarrow> nat \<Rightarrow> pmm_state \<Rightarrow> nat option option" where
  "best_fit_loop n le page min_size s =
     (case list_next le (links s) of
        FreeList \<Rightarrow> Some page
      | PageLink p \<Rightarrow>
          if property (pages s p) \<ge> n \<and> property (pages s p) < min_size
          then best_fit_loop n (PageLink p) (Some p) (property (pages s p)) s
          else best_fit_loop n (PageLink p) page min_size s)"

text \<open>Taking \<open>n\<close> pages off the front of the chosen block.\<close>

definition take_block :: "nat \<Rightarrow> nat \<Rightarrow> pmm_state \<Rightarrow> pmm_state" where
  "take_block page n s =
     (let prev = list_prev (PageLink page) (links s);
          s = upd_links (list_del (PageLink page)) s;
          s = (if property (pages s page) > n
               then let p = page + n;
                        s = set_property p (property (pages s page) - n) s;
                        s = SetPageProperty p s
                    in upd_links (list_add prev (PageLink p)) s
               else s);
          s = s\<lparr>nr_free := u32 (nr_free s + 2 ^ 32 - n)\<rparr>
      in ClearPageProperty page s)"

definition default_alloc_pages :: "nat \<Rightarrow> pmm_state \<Rightarrow> (nat option \<times> pmm_state) option" where
  "default_alloc_pages n s = do {
     kassert (n > 0);
     if n > nr_free s then Some (None, s)
     else do {
       page \<leftarrow> first_fit_loop n FreeList s;
       (case page of
          None \<Rightarrow> Some (None, s)
        | Some p \<Rightarrow> Some (Some p, take_block p n s)) } }"

definition best_fit_alloc_pages :: "nat \<Rightarrow> pmm_state \<Rightarrow> (nat option \<times> pmm_state) option" where
  "best_fit_alloc_pages n s = do {
     kassert (n > 0);
     if n > nr_free s then Some (None, s)
     else do {
       page \<leftarrow> best_fit_loop n FreeList None (u32 (nr_free s + 1)) s;
       (case page of
          None \<Rightarrow> Some (None, s)
        | Some p \<Rightarrow> Some (Some p, take_block p n s)) } }"

section \<open>Freeing and coalescing\<close>

definition merge_prev :: "nat \<Rightarrow> pmm_state \<Rightarrow> nat \<times> pmm_state" where
  "merge_prev base s =
     (case list_prev (PageLink base) (links s) of
        FreeList \<Rightarrow> (base, s)
      | PageLink p \<Rightarrow>
          if p + property (pages s p) = base
          then (p, upd_links (list_del (PageLink base))
                     (ClearPageProperty base
                       (set_property p (property (pages s p) + property (pages s base)) s)))
          else (base, s))"

definition merge_next :: "nat \<Rightarrow> pmm_state \<Rightarrow> pmm_state" where
  "merge_next base s =
     (case list_next (PageLink base) (links s) of
        FreeList \<Rightarrow> s
      | PageLink p \<Rightarrow>
          if base + property (pages s base) = p
          then upd_links (list_del (PageLink p))
                 (ClearPageProperty p
                   (set_property base (property (pages s base) + property (pages s p)) s))
          else s)"

definition default_free_pages :: "nat \<Rightarrow> nat \<Rightarrow> pmm_state \<Rightarrow> pmm_state option" where
  "default_free_pages base n s = do {
     kassert (n > 0);
     P \<leftarrow> free_loop base n (pages s);
     let s = SetPageProperty base (set_property base n (s\<lparr>pages := P\<rparr>));
     s \<leftarrow> free_list_insert base (s\<lparr>nr_free := u32 (nr_free s + n)\<rparr>);
     (let (base, s) = merge_prev base s in Some (merge_next base s)) }"

definition default_nr_free_pages :: "pmm_state \<Rightarrow> nat" where
  "default_nr_free_pages s = nr_free s"

text \<open>
  In lab2/kern/mm/best_fit_pmm.c everything but the search loop is the same
  code as the first-fit manager's.
\<close>

definition best_fit_init :: "pmm_state \<Rightarrow> pmm_state" where
  "best_fit_init s = (upd_links (list_init FreeList) s)\<lparr>nr_free := 0\<rparr>"

definition best_fit_init_memmap :: "nat \<Rightarrow> nat \<Rightarrow> pmm_state \<Rightarrow> pmm_state option" where
  "best_fit_init_memmap base n s = do {
     kassert (n > 0);
     P \<leftarrow> memmap_loop base n (pages s);
     let s = SetPageProperty base (set_property base n (s\<lparr>pages := P\<rparr>));
     free_list_insert base (s\<lparr>nr_free := u32 (nr_free s + n)\<rparr>) }"

definition best_fit_free_pages :: "nat \<Rightarrow> nat \<Rightarrow> pmm_state \<Rightarrow> pmm_state option" where
  "best_fit_free_pages base n s = do {
     kassert (n > 0);
     P \<leftarrow> free_loop base n (pages s);
     let s = SetPageProperty base (set_property base n (s\<lparr>pages := P\<rparr>));
     s \<leftarrow> free_list_insert base (s\<lparr>nr_free := u32 (nr_free s + n)\<rparr>);
     (let (base, s) = merge_prev base s in Some (merge_next base s)) }"

section \<open>Free blocks\<close>

text \<open>
  The abstract state of the allocator: the free blocks as (first page, size)
  pairs in address order, with a gap of at least one page between neighbours,
  that is, completely coalesced.
\<close>

fun blocks_ok :: "nat \<Rightarrow> (nat \<times> nat) list \<Rightarrow> bool" where
  "blocks_ok lo [] \<longleftrightarrow> True"
| "blocks_ok lo ((b, n) # bs) \<longleftrightarrow>
     lo \<le> b \<and> 0 < n \<and> Suc (b + n) < 2 ^ 32 \<and> blocks_ok (Suc (b + n)) bs"

definition block_pages :: "(nat \<times> nat) list \<Rightarrow> nat set" where
  "block_pages bs = (\<Union>(b, n)\<in>set bs. {b..<b + n})"

definition pmm_inv :: "pmm_state \<Rightarrow> (nat \<times> nat) list \<Rightarrow> bool" where
  "pmm_inv s bs \<longleftrightarrow>
     dlist (links s) FreeList (map (PageLink \<circ> fst) bs) \<and>
     blocks_ok 0 bs \<and>
     (\<forall>(b, n)\<in>set bs. property (pages s b) = n) \<and>
     (\<forall>i. pg_property (pages s i) \<longleftrightarrow> i \<in> fst ` set bs) \<and>
     (\<forall>i\<in>block_pages bs. \<not> pg_reserved (pages s i)) \<and>
     nr_free s = sum_list (map snd bs)"

lemma block_pages_simps [simp]:
  "block_pages [] = {}"
  "block_pages ((b, n) # bs) = {b..<b + n} \<union> block_pages bs"
  "block_pages (xs @ ys) = block_pages xs \<union> block_pages ys"
  by (auto simp: block_pages_def)

lemma blocks_ok_mono: "blocks_ok lo bs \<Longrightarrow> lo' \<le> lo \<Longrightarrow> blocks_ok lo' bs"
  by (cases bs) auto

lemma blocks_ok_lower: "blocks_ok lo bs \<Longrightarrow> (b, n) \<in> set bs \<Longrightarrow> lo \<le> b \<and> 0 < n \<and> Suc (b + n) < 2 ^ 32"
proof (induction lo bs rule: blocks_ok.induct)
  case (2 lo b n bs)
  then show ?case by auto
qed simp

lemma blocks_ok_append:
  "blocks_ok lo (xs @ ys) \<longleftrightarrow>
     blocks_ok lo xs \<and> blocks_ok (if xs = [] then lo else Suc (fst (last xs) + snd (last xs))) ys"
proof (induction xs arbitrary: lo)
  case (Cons x xs)
  then show ?case by (cases x) auto
qed simp

lemma blocks_ok_distinct: "blocks_ok lo bs \<Longrightarrow> distinct (map fst bs)"
proof (induction lo bs rule: blocks_ok.induct)
  case (2 lo b n bs)
  then have "\<forall>x\<in>set bs. b < fst x" using blocks_ok_lower [of "Suc (b + n)" bs] by fastforce
  with 2 show ?case by auto
qed simp

lemma blocks_ok_sum: "blocks_ok lo bs \<Longrightarrow> bs \<noteq> [] \<Longrightarrow> Suc (lo + sum_list (map snd bs)) < 2 ^ 32"
proof (induction lo bs rule: blocks_ok.induct)
  case (2 lo b n bs)
  then show ?case by (cases "bs = []") auto
qed simp

lemma blocks_ok_sum': "blocks_ok 0 bs \<Longrightarrow> Suc (sum_list (map snd bs)) < 2 ^ 32"
  using blocks_ok_sum [of 0 bs] by (cases "bs = []") auto

lemma block_pages_lower: "blocks_ok lo bs \<Longrightarrow> i \<in> block_pages bs \<Longrightarrow> lo \<le> i \<and> i < 2 ^ 32"
proof -
  assume ok: "blocks_ok lo bs" and "i \<in> block_pages bs"
  then obtain b n where bn: "(b, n) \<in> set bs" "b \<le> i" "i < b + n"
    by (auto simp: block_pages_def)
  have "lo \<le> b \<and> 0 < n \<and> Suc (b + n) < 2 ^ 32" by (rule blocks_ok_lower [OF ok bn(1)])
  with bn show ?thesis by linarith
qed

lemma blocks_ok_size_le_sum:
  "(b, n) \<in> set bs \<Longrightarrow> n \<le> sum_list (map snd (bs :: (nat \<times> nat) list))"
  by (induction bs) auto


section \<open>The list loops\<close>

text \<open>
  Each loop is started at the list head; the lemmas follow it from any node,
  with \<open>zs\<close> the nodes already passed.
\<close>

lemma dlist_suffix_next:
  "dlist h r (zs @ y # ys) \<Longrightarrow> list_next (last (r # zs)) h = y"
  using dlist_split [of h r zs "y # ys"] by (simp add: list_next_def)

lemma dlist_last_next:
  "dlist h r zs \<Longrightarrow> list_next (last (r # zs)) h = r"
  using dlist_split [of h r zs "[]"] by (simp add: list_next_def)

lemma last_PageLink: "last (FreeList # map PageLink (zs @ [x])) = PageLink x"
  by simp

lemma insert_loop_suffix:
  assumes "dlist h FreeList (map PageLink (zs @ xs @ y # ys))"
    and "\<forall>x\<in>set xs. x \<le> base" and "base < y"
  shows "insert_loop base (last (FreeList # map PageLink zs)) h =
           Some (list_add_before (PageLink y) (PageLink base) h)"
  using assms
proof (induction xs arbitrary: zs)
  case Nil
  then have "list_next (last (FreeList # map PageLink zs)) h = PageLink y"
    using dlist_suffix_next [of h FreeList "map PageLink zs" "PageLink y"] by simp
  with Nil show ?case by (subst insert_loop.simps) simp
next
  case (Cons x xs)
  have nx: "list_next (last (FreeList # map PageLink zs)) h = PageLink x"
    using Cons.prems(1) dlist_suffix_next [of h FreeList "map PageLink zs" "PageLink x"] by simp
  have "list_next (PageLink x) h = hd (map PageLink (xs @ y # ys) @ [FreeList])"
    using Cons.prems(1) dlist_member_links(2) [of h FreeList "map PageLink zs" "PageLink x"] by simp
  then have nn: "list_next (PageLink x) h \<noteq> FreeList" by (cases xs) auto
  have "insert_loop base (PageLink x) h = Some (list_add_before (PageLink y) (PageLink base) h)"
    using Cons.IH [of "zs @ [x]"] Cons.prems by simp
  with nx nn Cons.prems(2) show ?case by (subst insert_loop.simps) auto
qed

lemma insert_loop_before:
  assumes "dlist h FreeList (map PageLink (xs @ y # ys))"
    and "\<forall>x\<in>set xs. x \<le> base" and "base < y"
  shows "insert_loop base FreeList h = Some (list_add_before (PageLink y) (PageLink base) h)"
  using insert_loop_suffix [of h "[]" xs y ys base] assms by simp

lemma first_fit_loop_suffix:
  assumes "dlist (links s) FreeList (map PageLink (zs @ ys))"
  shows "first_fit_loop n (last (FreeList # map PageLink zs)) s =
           Some (find (\<lambda>p. n \<le> property (pages s p)) ys)"
  using assms
proof (induction ys arbitrary: zs)
  case Nil
  then have "list_next (last (FreeList # map PageLink zs)) (links s) = FreeList"
    using dlist_last_next [of "links s" FreeList "map PageLink zs"] by simp
  then show ?case by (subst first_fit_loop.simps) simp
next
  case (Cons y ys)
  have nx: "list_next (last (FreeList # map PageLink zs)) (links s) = PageLink y"
    using Cons.prems dlist_suffix_next [of "links s" FreeList "map PageLink zs" "PageLink y"] by simp
  have "first_fit_loop n (PageLink y) s = Some (find (\<lambda>p. n \<le> property (pages s p)) ys)"
    using Cons.IH [of "zs @ [y]"] Cons.prems by simp
  with nx show ?case by (subst first_fit_loop.simps) simp
qed

text \<open>What the best-fit search computes: a left-to-right strict minimum.\<close>

fun best_of :: "(nat \<Rightarrow> nat) \<Rightarrow> nat \<Rightarrow> nat option \<Rightarrow> nat \<Rightarrow> nat list \<Rightarrow> nat option" where
  "best_of f n page m [] = page"
| "best_of f n page m (p # ps) =
     (if n \<le> f p \<and> f p < m then best_of f n (Some p) (f p) ps else best_of f n page m ps)"

lemma best_fit_loop_suffix:
  assumes "dlist (links s) FreeList (map PageLink (zs @ ys))"
  shows "best_fit_loop n (last (FreeList # map PageLink zs)) page m s =
           Some (best_of (\<lambda>p. property (pages s p)) n page m ys)"
  using assms
proof (induction ys arbitrary: zs page m)
  case Nil
  then have "list_next (last (FreeList # map PageLink zs)) (links s) = FreeList"
    using dlist_last_next [of "links s" FreeList "map PageLink zs"] by simp
  then show ?case by (subst best_fit_loop.simps) simp
next
  case (Cons y ys)
  have nx: "list_next (last (FreeList # map PageLink zs)) (links s) = PageLink y"
    using Cons.prems dlist_suffix_next [of "links s" FreeList "map PageLink zs" "PageLink y"] by simp
  have "best_fit_loop n (PageLink y) page m s =
          Some (best_of (\<lambda>p. property (pages s p)) n page m ys)" for page m
    using Cons.IH [of "zs @ [y]"] Cons.prems by simp
  with nx show ?case by (subst best_fit_loop.simps) simp
qed

lemma best_of_spec:
  "best_of f n None m ps = Some p \<Longrightarrow>
     p \<in> set ps \<and> n \<le> f p \<and> f p < m \<and> (\<forall>q\<in>set ps. n \<le> f q \<longrightarrow> f p \<le> f q)"
  "best_of f n (Some p0) m ps = Some p \<Longrightarrow> f p0 = m \<Longrightarrow>
     (p = p0 \<or> p \<in> set ps \<and> n \<le> f p \<and> f p < m) \<and> f p \<le> m \<and>
     (\<forall>q\<in>set ps. n \<le> f q \<longrightarrow> f p \<le> f q)"
proof (induction ps arbitrary: m p0)
  case (Cons q ps)
  {
    case 1
    show ?case
    proof (cases "n \<le> f q \<and> f q < m")
      case True
      with 1 have "best_of f n (Some q) (f q) ps = Some p" by simp
      from Cons.IH(2) [OF this refl] True show ?thesis by auto
    next
      case False
      with 1 have "best_of f n None m ps = Some p" by simp
      from Cons.IH(1) [OF this] False show ?thesis by auto
    qed
  next
    case 2
    show ?case
    proof (cases "n \<le> f q \<and> f q < m")
      case True
      with 2 have "best_of f n (Some q) (f q) ps = Some p" by simp
      from Cons.IH(2) [OF this refl] True 2 show ?thesis by auto
    next
      case False
      with 2 have "best_of f n (Some p0) m ps = Some p" by simp
      from Cons.IH(2) [OF this] False 2 show ?thesis by auto
    qed
  }
qed auto

lemma best_of_Some_not_None: "best_of f n (Some p0) m ps \<noteq> None"
  by (induction ps arbitrary: p0 m) auto

lemma best_of_None:
  "best_of f n None m ps = None \<longleftrightarrow> (\<forall>q\<in>set ps. \<not> (n \<le> f q \<and> f q < m))"
  by (induction ps) (auto simp: best_of_Some_not_None)

section \<open>Allocation keeps the invariant\<close>

lemmas page_upd_defs [kdefs] =
  upd_page_def set_property_def SetPageProperty_def ClearPageProperty_def upd_links_def

lemma pmm_upd_simps [simp]:
  "links (upd_page i f s) = links s"
  "nr_free (upd_page i f s) = nr_free s"
  "pages (upd_page i f s) = (pages s)(i := f (pages s i))"
  "pages (upd_links g s) = pages s"
  "nr_free (upd_links g s) = nr_free s"
  "links (upd_links g s) = g (links s)"
  by (simp_all add: upd_page_def upd_links_def)

lemma heads_dlist:
  "map (PageLink \<circ> fst) bs = map PageLink (map fst bs)"
  by simp

lemma pmm_inv_property: "pmm_inv s bs \<Longrightarrow> (b, n) \<in> set bs \<Longrightarrow> property (pages s b) = n"
  by (force simp: pmm_inv_def)

lemma take_block_links:
  assumes d: "dlist (links s) FreeList (map (PageLink \<circ> fst) (xs @ (b, m) # ys))"
    and prb: "property (pages s b) = m" and n: "0 < n" "n \<le> m"
    and fresh: "b + n \<notin> fst ` set (xs @ ys)"
  shows "dlist (links (take_block b n s)) FreeList
           (map (PageLink \<circ> fst) (xs @ (if n < m then [(b + n, m - n)] else []) @ ys))"
proof -
  let ?X = "map (PageLink \<circ> fst) xs" and ?Y = "map (PageLink \<circ> fst) ys"
  have d': "dlist (links s) FreeList (?X @ PageLink b # ?Y)" using d by simp
  have del: "dlist (list_del (PageLink b) (links s)) FreeList (?X @ ?Y)"
    using d' by (rule dlist_del)
  show ?thesis
  proof (cases "n < m")
    case True
    have "PageLink (b + n) \<notin> set (FreeList # ?X @ ?Y)" using fresh by auto
    then have "dlist (list_add (last (FreeList # ?X)) (PageLink (b + n))
                 (list_del (PageLink b) (links s))) FreeList (?X @ PageLink (b + n) # ?Y)"
      using dlist_add_after [OF del _ refl] by (simp add: list_add_def)
    moreover have "list_prev (PageLink b) (links s) = last (FreeList # ?X)"
      using dlist_member_links(1) [OF d'] .
    ultimately show ?thesis
      using True prb
      by (simp add: take_block_def Let_def SetPageProperty_def set_property_def ClearPageProperty_def)
  next
    case False
    with del n prb show ?thesis
      by (simp add: take_block_def Let_def ClearPageProperty_def)
  qed
qed

lemma take_block_pages:
  assumes "property (pages s b) = m" "0 < n" "n \<le> m" "m < 2 ^ 32"
  shows "pages (take_block b n s) i =
    (if i = b then (pages s b)\<lparr>pg_property := False\<rparr>
     else if i = b + n \<and> n < m then (pages s i)\<lparr>property := m - n, pg_property := True\<rparr>
     else pages s i)"
  using assms
  by (auto simp: take_block_def Let_def SetPageProperty_def set_property_def ClearPageProperty_def)

lemma take_block_nr_free:
  "n \<le> nr_free s \<Longrightarrow> nr_free s < 2 ^ 32 \<Longrightarrow> nr_free (take_block b n s) = nr_free s - n"
  by (auto simp: take_block_def Let_def SetPageProperty_def set_property_def ClearPageProperty_def
      u32_def mod_if)

lemma take_block_inv:
  assumes inv: "pmm_inv s bs" and bs: "bs = xs @ (b, m) # ys" and n: "0 < n" "n \<le> m"
  shows "pmm_inv (take_block b n s) (xs @ (if n < m then [(b + n, m - n)] else []) @ ys)"
    (is "pmm_inv ?s ?bs")
proof -
  have ok: "blocks_ok 0 bs" and prb: "property (pages s b) = m"
    using inv bs by (auto simp: pmm_inv_def)
  have okx: "blocks_ok 0 xs" and okb: "blocks_ok (if xs = [] then 0 else Suc (fst (last xs) + snd (last xs))) ((b, m) # ys)"
    using ok bs by (simp_all add: blocks_ok_append)
  have oky: "blocks_ok (Suc (b + m)) ys" and bm: "Suc (b + m) < 2 ^ 32" using okb by simp_all
  have lowx: "\<forall>x\<in>set xs. fst x + snd x < b"
  proof
    fix x assume "x \<in> set xs"
    then obtain us vs where "xs = us @ x # vs" by (meson split_list)
    with ok bs have "blocks_ok (Suc (fst x + snd x)) (vs @ (b, m) # ys)"
      by (cases x) (auto simp: blocks_ok_append)
    then have "Suc (fst x + snd x) \<le> b" using blocks_ok_lower by fastforce
    then show "fst x + snd x < b" by simp
  qed
  have highy: "\<forall>y\<in>set ys. b + m < fst y"
    using blocks_ok_lower [OF oky] by fastforce
  have fresh: "b + n \<notin> fst ` set (xs @ ys)"
    using lowx highy n by fastforce
  have dist: "distinct (map fst bs)" using blocks_ok_distinct [OF ok] .
  have pg: "pages ?s i =
    (if i = b then (pages s b)\<lparr>pg_property := False\<rparr>
     else if i = b + n \<and> n < m then (pages s i)\<lparr>property := m - n, pg_property := True\<rparr>
     else pages s i)" for i
    using take_block_pages [OF prb n] bm by simp
  have "dlist (links ?s) FreeList (map (PageLink \<circ> fst) ?bs)"
    using take_block_links [of s xs b m ys n] inv bs n prb fresh by (simp add: pmm_inv_def)
  moreover have "blocks_ok 0 ?bs"
    using okx okb oky n by (auto simp: blocks_ok_append intro: blocks_ok_mono)
  moreover have "\<forall>(c, k)\<in>set ?bs. property (pages ?s c) = k"
  proof -
    have "property (pages ?s c) = k" if "(c, k) \<in> set (xs @ ys)" for c k
    proof -
      have "c \<noteq> b" using that dist bs by force
      moreover have "c \<noteq> b + n" using that fresh by force
      moreover have "property (pages s c) = k" using pmm_inv_property [OF inv] that bs by simp
      ultimately show ?thesis by (simp add: pg)
    qed
    moreover have "n < m \<Longrightarrow> property (pages ?s (b + n)) = m - n" using n by (simp add: pg)
    ultimately show ?thesis by auto
  qed
  moreover have "pg_property (pages ?s i) \<longleftrightarrow> i \<in> fst ` set ?bs" for i
    using inv bs dist n by (auto simp: pmm_inv_def pg)
  moreover have "\<forall>i\<in>block_pages ?bs. \<not> pg_reserved (pages ?s i)"
    using inv bs n by (auto simp: pmm_inv_def pg)
  moreover have "nr_free ?s = sum_list (map snd ?bs)"
  proof -
    have "nr_free s = sum_list (map snd bs)" using inv by (simp add: pmm_inv_def)
    moreover have "nr_free s < 2 ^ 32" using calculation blocks_ok_sum' [OF ok] by simp
    ultimately show ?thesis using take_block_nr_free [of n s b] bs n by simp
  qed
  ultimately show ?thesis by (simp add: pmm_inv_def)
qed

lemma block_split_pages:
  assumes "blocks_ok 0 (xs @ (b, m) # ys)" "0 < n" "n \<le> m"
  shows "block_pages (xs @ (if n < m then [(b + n, m - n)] else []) @ ys) =
         block_pages (xs @ (b, m) # ys) - {b..<b + n}"
proof -
  have "blocks_ok (Suc (b + m)) ys" using assms(1) by (simp add: blocks_ok_append)
  then have y: "\<forall>i\<in>block_pages ys. b + m < i" using block_pages_lower by fastforce
  have x: "\<forall>i\<in>block_pages xs. i < b"
  proof
    fix i assume "i \<in> block_pages xs"
    then obtain c k us vs where ck: "xs = us @ (c, k) # vs" "c \<le> i" "i < c + k"
      by (auto simp: block_pages_def) (meson split_list)
    with assms(1) have "blocks_ok (Suc (c + k)) (vs @ (b, m) # ys)"
      by (auto simp: blocks_ok_append)
    then have "Suc (c + k) \<le> b" using blocks_ok_lower by fastforce
    with ck show "i < b" by simp
  qed
  have "i \<in> block_pages (xs @ (if n < m then [(b + n, m - n)] else []) @ ys) \<longleftrightarrow>
        i \<in> block_pages (xs @ (b, m) # ys) - {b..<b + n}" for i
    using assms(2,3) x y by (cases "n < m") force+
  then show ?thesis by blast
qed

lemma find_heads:
  "(\<And>b m. (b, m) \<in> set bs \<Longrightarrow> f b = m) \<Longrightarrow>
   find (\<lambda>p. n \<le> f p) (map fst bs) = map_option fst (find (\<lambda>x. n \<le> snd x) bs)"
proof (induction bs)
  case (Cons x bs)
  have "f (fst x) = snd x" using Cons.prems [of "fst x" "snd x"] by simp
  moreover have "find (\<lambda>p. n \<le> f p) (map fst bs) = map_option fst (find (\<lambda>x. n \<le> snd x) bs)"
    using Cons.prems by (intro Cons.IH) simp
  ultimately show ?case by simp
qed simp

lemma first_fit_loop_inv:
  assumes "pmm_inv s bs"
  shows "first_fit_loop n FreeList s = Some (map_option fst (find (\<lambda>x. n \<le> snd x) bs))"
proof -
  have "first_fit_loop n FreeList s = Some (find (\<lambda>p. n \<le> property (pages s p)) (map fst bs))"
    using first_fit_loop_suffix [of s "[]" "map fst bs" n] assms by (simp add: pmm_inv_def)
  moreover have "find (\<lambda>p. n \<le> property (pages s p)) (map fst bs) =
      map_option fst (find (\<lambda>x. n \<le> snd x) bs)"
    using pmm_inv_property [OF assms] by (rule find_heads)
  ultimately show ?thesis by simp
qed

lemma find_split:
  "find P xs = Some x \<Longrightarrow> \<exists>us vs. xs = us @ x # vs \<and> P x \<and> (\<forall>u\<in>set us. \<not> P u)"
proof (induction xs)
  case (Cons a xs)
  show ?case
  proof (cases "P a")
    case True
    with Cons.prems show ?thesis by (intro exI [of _ "[]"] exI [of _ xs]) auto
  next
    case False
    with Cons obtain us vs where "xs = us @ x # vs" "P x" "\<forall>u\<in>set us. \<not> P u" by auto
    with False show ?thesis by (intro exI [of _ "a # us"] exI [of _ vs]) auto
  qed
qed simp

lemma default_alloc_success:
  assumes inv: "pmm_inv s bs" and n: "0 < n"
    and bs: "bs = xs @ (b, m) # ys" and fit: "n \<le> m" "\<forall>x\<in>set xs. snd x < n"
  shows "default_alloc_pages n s = Some (Some b, take_block b n s)"
proof -
  have "find (\<lambda>x. n \<le> snd x) bs = Some (b, m)"
    using bs fit by (induction xs arbitrary: bs) auto
  moreover have "n \<le> nr_free s"
    using inv bs fit by (simp add: pmm_inv_def)
  ultimately show ?thesis
    using first_fit_loop_inv [OF inv] n by (simp add: default_alloc_pages_def)
qed

lemma default_alloc_fail:
  assumes inv: "pmm_inv s bs" and n: "0 < n" and nofit: "\<forall>x\<in>set bs. snd x < n"
  shows "default_alloc_pages n s = Some (None, s)"
proof -
  have "find (\<lambda>x. n \<le> snd x) bs = None"
    using nofit by (auto simp: find_None_iff)
  then show ?thesis
    using first_fit_loop_inv [OF inv] n by (simp add: default_alloc_pages_def)
qed

lemma best_fit_loop_inv:
  assumes "pmm_inv s bs"
  shows "best_fit_loop n FreeList None k s =
           Some (best_of (\<lambda>p. property (pages s p)) n None k (map fst bs))"
  using best_fit_loop_suffix [of s "[]" "map fst bs" n None k] assms by (simp add: pmm_inv_def)

text \<open>Every block is smaller than the bound \<open>nr_free + 1\<close> the search starts with.\<close>

lemma best_fit_bound:
  assumes inv: "pmm_inv s bs" and "(b, m) \<in> set bs"
  shows "m < u32 (nr_free s + 1)"
proof -
  have "m \<le> nr_free s"
    using assms blocks_ok_size_le_sum [of b m bs] by (simp add: pmm_inv_def)
  moreover have "nr_free s + 1 < 2 ^ 32"
    using inv blocks_ok_sum' [of bs] by (auto simp: pmm_inv_def)
  ultimately show ?thesis by simp
qed

lemma best_fit_alloc_success:
  assumes inv: "pmm_inv s bs" and n: "0 < n" and fit: "\<exists>x\<in>set bs. n \<le> snd x"
  shows "\<exists>xs b m ys. bs = xs @ (b, m) # ys \<and> n \<le> m \<and>
           (\<forall>x\<in>set bs. n \<le> snd x \<longrightarrow> m \<le> snd x) \<and>
           best_fit_alloc_pages n s = Some (Some b, take_block b n s)"
proof -
  let ?f = "\<lambda>p. property (pages s p)"
  let ?k = "u32 (nr_free s + 1)"
  obtain c k where ck: "(c, k) \<in> set bs" "n \<le> k" using fit by auto
  have "?f c = k" "k < ?k" using pmm_inv_property [OF inv ck(1)] best_fit_bound [OF inv ck(1)] by auto
  then have "best_of ?f n None ?k (map fst bs) \<noteq> None"
    using ck by (subst best_of_None) force
  then obtain b where b: "best_of ?f n None ?k (map fst bs) = Some b" by auto
  from best_of_spec(1) [OF b] obtain m where m: "(b, m) \<in> set bs" "n \<le> ?f b"
    and best: "\<forall>q\<in>fst ` set bs. n \<le> ?f q \<longrightarrow> ?f b \<le> ?f q" by auto
  have fb: "?f b = m" using pmm_inv_property [OF inv m(1)] .
  have "\<forall>x\<in>set bs. n \<le> snd x \<longrightarrow> m \<le> snd x"
    using best fb pmm_inv_property [OF inv] by force
  moreover have "n \<le> nr_free s"
    using inv ck blocks_ok_size_le_sum [of c k bs] by (simp add: pmm_inv_def)
  moreover obtain xs ys where "bs = xs @ (b, m) # ys" using m(1) by (meson split_list)
  ultimately show ?thesis
    using best_fit_loop_inv [OF inv, of n ?k] b n m(2) fb
    by (intro exI [of _ xs] exI [of _ b] exI [of _ m] exI [of _ ys])
      (simp add: best_fit_alloc_pages_def)
qed

lemma best_fit_alloc_fail:
  assumes inv: "pmm_inv s bs" and n: "0 < n" and nofit: "\<forall>x\<in>set bs. snd x < n"
  shows "best_fit_alloc_pages n s = Some (None, s)"
proof -
  have "best_of (\<lambda>p. property (pages s p)) n None (u32 (nr_free s + 1)) (map fst bs) = None"
    using nofit pmm_inv_property [OF inv] by (subst best_of_None) force
  then show ?thesis
    using best_fit_loop_inv [OF inv] n by (simp add: best_fit_alloc_pages_def)
qed

section \<open>Freeing keeps the invariant when a higher block is free\<close>

definition pmm_links :: "pmm_state \<Rightarrow> (nat \<times> nat) list \<Rightarrow> bool" where
  "pmm_links s bs \<longleftrightarrow>
     dlist (links s) FreeList (map (PageLink \<circ> fst) bs) \<and>
     (\<forall>(b, n)\<in>set bs. property (pages s b) = n) \<and>
     (\<forall>i. pg_property (pages s i) \<longleftrightarrow> i \<in> fst ` set bs) \<and>
     nr_free s = sum_list (map snd bs)"

lemma pmm_inv_iff:
  "pmm_inv s bs \<longleftrightarrow> pmm_links s bs \<and> blocks_ok 0 bs \<and>
     (\<forall>i\<in>block_pages bs. \<not> pg_reserved (pages s i))"
  by (auto simp: pmm_inv_def pmm_links_def)

lemma pmm_links_dist: "pmm_links s bs \<Longrightarrow> distinct (map fst bs)"
  by (auto simp: pmm_links_def dlist_def distinct_map inj_on_def)

lemma pmm_links_property: "pmm_links s bs \<Longrightarrow> (b, n) \<in> set bs \<Longrightarrow> property (pages s b) = n"
  by (force simp: pmm_links_def)

lemma free_loop_spec:
  "\<forall>i\<in>{p..<p + k}. \<not> pg_reserved (P i) \<and> \<not> pg_property (P i) \<Longrightarrow>
   free_loop p k P = Some (\<lambda>i. if p \<le> i \<and> i < p + k
     then (P i)\<lparr>pg_reserved := False, pg_property := False, pg_ref := 0\<rparr> else P i)"
  by (induction p k P rule: free_loop.induct) (auto simp: fun_eq_iff)

lemma memmap_loop_spec:
  "\<forall>i\<in>{p..<p + k}. pg_reserved (P i) \<Longrightarrow>
   memmap_loop p k P = Some (\<lambda>i. if p \<le> i \<and> i < p + k
     then (P i)\<lparr>pg_reserved := False, pg_property := False, property := 0, pg_ref := 0\<rparr> else P i)"
  by (induction p k P rule: memmap_loop.induct) (auto simp: fun_eq_iff)

lemma dlist_insert_between:
  assumes "dlist h FreeList (map (PageLink \<circ> fst) (xs @ (b', m') # ys))"
    and "\<forall>x\<in>set xs. fst x \<le> base" and "base < b'"
    and "base \<notin> fst ` set (xs @ (b', m') # ys)"
  shows "insert_loop base FreeList h = Some (list_add_before (PageLink b') (PageLink base) h)"
    and "dlist (list_add_before (PageLink b') (PageLink base) h) FreeList
           (map (PageLink \<circ> fst) (xs @ (base, n) # (b', m') # ys))"
proof -
  show "insert_loop base FreeList h = Some (list_add_before (PageLink b') (PageLink base) h)"
    using insert_loop_before [of h "map fst xs" b' "map fst ys" base] assms by simp
  show "dlist (list_add_before (PageLink b') (PageLink base) h) FreeList
           (map (PageLink \<circ> fst) (xs @ (base, n) # (b', m') # ys))"
  proof -
    have "PageLink base \<notin> set (FreeList # map (PageLink \<circ> fst) xs @ map (PageLink \<circ> fst) ((b', m') # ys))"
      using assms(4) by (simp add: image_iff)
    moreover have "dlist h FreeList (map (PageLink \<circ> fst) xs @ map (PageLink \<circ> fst) ((b', m') # ys))"
      using assms(1) by simp
    ultimately have "dlist (list_add_before (PageLink b') (PageLink base) h) FreeList
        (map (PageLink \<circ> fst) xs @ PageLink base # map (PageLink \<circ> fst) ((b', m') # ys))"
      by (intro dlist_add_before) simp_all
    then show ?thesis by simp
  qed
qed

lemma free_list_insert_spec:
  assumes d: "dlist (links s) FreeList (map (PageLink \<circ> fst) (xs @ ys))"
    and x: "\<forall>x\<in>set xs. fst x \<le> base" and y: "\<forall>y\<in>set ys. base < fst y"
    and nt: "ys \<noteq> [] \<or> xs = []" and fresh: "base \<notin> fst ` set (xs @ ys)"
  shows "\<exists>h. free_list_insert base s = Some (s\<lparr>links := h\<rparr>) \<and>
             dlist h FreeList (map (PageLink \<circ> fst) (xs @ (base, n) # ys))"
proof (cases ys)
  case Nil
  with nt d have d0: "dlist (links s) FreeList []" "xs = []" by auto
  then have "dlist (list_add FreeList (PageLink base) (links s)) FreeList [PageLink base]"
    using dlist_push [of "links s" FreeList "[]" "PageLink base"] by simp
  with Nil d0 dlist_empty [OF d0(1)] show ?thesis
    by (intro exI [of _ "list_add FreeList (PageLink base) (links s)"])
      (simp add: free_list_insert_def upd_links_def)
next
  case (Cons y' ys')
  obtain b' m' where b': "y' = (b', m')" by (cases y')
  have "\<not> list_empty FreeList (links s)" using dlist_empty [OF d] Cons by simp
  then show ?thesis
    using dlist_insert_between(1) [of "links s" xs b' m' ys' base]
      dlist_insert_between(2) [of "links s" xs b' m' ys' base n] assms Cons b'
    by (intro exI [of _ "list_add_before (PageLink b') (PageLink base) (links s)"])
      (simp add: free_list_insert_def)
qed

text \<open>Both merges absorb a block into the one in front of it.\<close>

definition absorb :: "nat \<Rightarrow> nat \<Rightarrow> pmm_state \<Rightarrow> pmm_state" where
  "absorb p q s = upd_links (list_del (PageLink q)) (ClearPageProperty q
     (set_property p (property (pages s p) + property (pages s q)) s))"

lemma absorb_reserved: "pg_reserved (pages (absorb p q s) i) = pg_reserved (pages s i)"
  by (simp add: absorb_def ClearPageProperty_def set_property_def)

lemma absorb_spec:
  assumes pl: "pmm_links s (us @ (p, m) # (q, k) # vs)" and fit: "m + k < 2 ^ 32"
  shows "pmm_links (absorb p q s) (us @ (p, m + k) # vs)"
proof -
  let ?s = "absorb p q s" and ?bs = "us @ (p, m + k) # vs"
  have d: "dlist (links s) FreeList
      (map (PageLink \<circ> fst) (us @ [(p, m)]) @ PageLink q # map (PageLink \<circ> fst) vs)"
    using pl by (simp add: pmm_links_def)
  have pp: "property (pages s p) = m" "property (pages s q) = k"
    using pmm_links_property [OF pl] by simp_all
  have dist: "distinct (map fst (us @ (p, m) # (q, k) # vs))" using pmm_links_dist [OF pl] .
  have pg: "pages ?s i = (if i = q then (pages s q)\<lparr>pg_property := False\<rparr>
      else if i = p then (pages s p)\<lparr>property := m + k\<rparr> else pages s i)" for i
    using dist pp fit by (auto simp: absorb_def ClearPageProperty_def set_property_def)
  have "dlist (links ?s) FreeList (map (PageLink \<circ> fst) ?bs)"
    using dlist_del [OF d] by (simp add: absorb_def ClearPageProperty_def set_property_def)
  moreover have "property (pages ?s c) = j" if "(c, j) \<in> set ?bs" for c j
  proof (cases "(c, j) \<in> set us \<union> set vs")
    case True
    moreover have "p \<notin> fst ` (set us \<union> set vs)" "q \<notin> fst ` (set us \<union> set vs)"
      using dist by auto
    ultimately have "c \<noteq> p" "c \<noteq> q" by (metis fst_conv image_eqI)+
    then show ?thesis using True pmm_links_property [OF pl, of c j] by (auto simp: pg)
  next
    case False
    with that dist show ?thesis by (auto simp: pg)
  qed
  moreover have "pg_property (pages ?s i) \<longleftrightarrow> i \<in> fst ` set ?bs" for i
    using pl dist by (auto simp: pmm_links_def pg)
  moreover have "nr_free ?s = sum_list (map snd ?bs)"
    using pl by (simp add: pmm_links_def absorb_def ClearPageProperty_def set_property_def)
  ultimately show ?thesis unfolding pmm_links_def by blast
qed

lemma merge_prev_spec:
  assumes pl: "pmm_links s (xs @ (b, n) # ys)"
  obtains (keep) "merge_prev b s = (b, s)" "xs = [] \<or> fst (last xs) + snd (last xs) \<noteq> b"
  | (merge) us p m where "xs = us @ [(p, m)]" "p + m = b" "merge_prev b s = (p, absorb p b s)"
proof -
  have "dlist (links s) FreeList (map (PageLink \<circ> fst) xs @ PageLink b # map (PageLink \<circ> fst) ys)"
    using pl by (simp add: pmm_links_def)
  then have prv: "list_prev (PageLink b) (links s) = last (FreeList # map (PageLink \<circ> fst) xs)"
    by (rule dlist_member_links(1))
  show thesis
  proof (cases xs rule: rev_cases)
    case Nil
    with prv show thesis by (intro keep) (simp_all add: merge_prev_def)
  next
    case (snoc us x)
    obtain p m where x: "x = (p, m)" by (cases x)
    then have "property (pages s p) = m" using pmm_links_property [OF pl] snoc by simp
    with prv snoc x show thesis
      by (cases "p + m = b") (auto intro: keep merge simp: merge_prev_def absorb_def)
  qed
qed

lemma merge_next_spec:
  assumes pl: "pmm_links s (xs @ (b, n) # ys)"
  obtains (keep) "merge_next b s = s" "ys = [] \<or> fst (hd ys) \<noteq> b + n"
  | (merge) k vs where "ys = (b + n, k) # vs" "merge_next b s = absorb b (b + n) s"
proof -
  have "dlist (links s) FreeList (map (PageLink \<circ> fst) xs @ PageLink b # map (PageLink \<circ> fst) ys)"
    using pl by (simp add: pmm_links_def)
  then have nxt: "list_next (PageLink b) (links s) = hd (map (PageLink \<circ> fst) ys @ [FreeList])"
    by (rule dlist_member_links(2))
  have pb: "property (pages s b) = n" using pmm_links_property [OF pl] by simp
  show thesis
  proof (cases ys)
    case Nil
    with nxt show thesis by (intro keep) (simp_all add: merge_next_def)
  next
    case (Cons y vs)
    obtain q k where y: "y = (q, k)" by (cases y)
    with nxt Cons pb show thesis
      by (cases "b + n = q") (auto intro: keep merge simp: merge_next_def absorb_def)
  qed
qed

lemma blocks_ok_raise: "blocks_ok lo ys \<Longrightarrow> ys = [] \<or> lo' \<le> fst (hd ys) \<Longrightarrow> blocks_ok lo' ys"
  by (cases ys) auto

lemma blocks_sum_below:
  "blocks_ok lo xs \<Longrightarrow> \<forall>x\<in>set xs. fst x + snd x \<le> base \<Longrightarrow> xs \<noteq> [] \<Longrightarrow>
   lo + sum_list (map snd xs) \<le> base"
proof (induction lo xs rule: blocks_ok.induct)
  case (2 lo b n bs)
  then show ?case by (cases "bs = []") auto
qed simp

lemma blocks_sum_insert:
  assumes ok: "blocks_ok 0 (xs @ ys)" and below: "\<forall>x\<in>set xs. fst x + snd x \<le> base"
    and above: "\<forall>y\<in>set ys. base + n \<le> fst y" and n: "Suc (base + n) < 2 ^ 32"
  shows "sum_list (map snd (xs @ ys)) + n < 2 ^ 32"
proof -
  have okx: "blocks_ok 0 xs" and "blocks_ok 0 ys"
    using ok by (auto simp: blocks_ok_append intro: blocks_ok_mono split: if_splits)
  then have "blocks_ok (base + n) ys" using above by (cases ys) auto
  then have "base + n + sum_list (map snd ys) < 2 ^ 32"
    using blocks_ok_sum [of "base + n" ys] n by (cases "ys = []") auto
  moreover have "sum_list (map snd xs) \<le> base"
    using blocks_sum_below [OF okx below] by (cases "xs = []") auto
  ultimately show ?thesis by simp
qed

lemma blocks_split_at:
  "blocks_ok lo bs \<Longrightarrow> 0 < n \<Longrightarrow> {base..<base + n} \<inter> block_pages bs = {} \<Longrightarrow>
   \<exists>xs ys. bs = xs @ ys \<and> (\<forall>x\<in>set xs. fst x + snd x \<le> base) \<and> (\<forall>y\<in>set ys. base + n \<le> fst y)"
proof (induction lo bs rule: blocks_ok.induct)
  case (2 lo b m bs)
  have m: "0 < m" using 2 by simp
  have "{base..<base + n} \<inter> ({b..<b + m} \<union> block_pages bs) = {}" using 2(4) by simp
  then have dj: "{base..<base + n} \<inter> {b..<b + m} = {}"
    and dj': "{base..<base + n} \<inter> block_pages bs = {}" by blast+
  from ivl_disjoint [OF dj 2(3) m] show ?case
  proof
    assume "b + m \<le> base"
    moreover obtain xs ys where "bs = xs @ ys" "\<forall>x\<in>set xs. fst x + snd x \<le> base"
        "\<forall>y\<in>set ys. base + n \<le> fst y"
      using 2(1) [OF _ 2(3) dj'] 2(2) by auto
    ultimately show ?thesis by (intro exI [of _ "(b, m) # xs"] exI [of _ ys]) auto
  next
    assume "base + n \<le> b"
    moreover have "\<forall>y\<in>set bs. b \<le> fst y"
      using blocks_ok_lower [of "Suc (b + m)" bs] 2 by fastforce
    ultimately show ?thesis by (intro exI [of _ "[]"] exI [of _ "(b, m) # bs"]) auto
  qed
qed simp

lemma merge_next_inv:
  assumes pl: "pmm_links s (xs @ (b, n) # ys)" and okx: "blocks_ok 0 xs"
    and gap: "xs = [] \<or> fst (last xs) + snd (last xs) < b" and n: "0 < n" "Suc (b + n) < 2 ^ 32"
    and oky: "blocks_ok 0 ys" and above: "\<forall>y\<in>set ys. b + n \<le> fst y"
    and nres: "\<forall>i\<in>block_pages (xs @ (b, n) # ys). \<not> pg_reserved (pages s i)"
  shows "\<exists>bs'. pmm_inv (merge_next b s) bs' \<and> block_pages bs' = block_pages (xs @ (b, n) # ys)"
  using pl
proof (cases rule: merge_next_spec)
  case keep
  have "ys = [] \<or> Suc (b + n) \<le> fst (hd ys)"
    using above keep(2) by (cases ys) auto
  then have "blocks_ok 0 (xs @ (b, n) # ys)"
    using okx gap n blocks_ok_raise [OF oky] by (auto simp: blocks_ok_append)
  with keep pl nres show ?thesis
    by (intro exI [of _ "xs @ (b, n) # ys"]) (auto simp: pmm_inv_iff)
next
  case (merge k vs)
  have k: "0 < k" "Suc (b + n + k) < 2 ^ 32" "blocks_ok (Suc (b + n + k)) vs"
    using oky merge by auto
  then have "blocks_ok 0 (xs @ (b, n + k) # vs)"
    using okx gap by (auto simp: blocks_ok_append add.assoc)
  moreover have "pmm_links (merge_next b s) (xs @ (b, n + k) # vs)"
    using absorb_spec [of s xs b n "b + n" k vs] pl merge k by simp
  moreover have "block_pages (xs @ (b, n + k) # vs) = block_pages (xs @ (b, n) # ys)"
    using merge by auto
  ultimately show ?thesis
    using nres merge by (intro exI [of _ "xs @ (b, n + k) # vs"]) (simp add: pmm_inv_iff absorb_reserved)
qed

lemma merge_both_inv:
  assumes pl: "pmm_links s (xs @ (b, n) # ys)" and okx: "blocks_ok 0 xs" and oky: "blocks_ok 0 ys"
    and below: "\<forall>x\<in>set xs. fst x + snd x \<le> b" and n: "0 < n" "Suc (b + n) < 2 ^ 32"
    and above: "\<forall>y\<in>set ys. b + n \<le> fst y"
    and nres: "\<forall>i\<in>block_pages (xs @ (b, n) # ys). \<not> pg_reserved (pages s i)"
  shows "\<exists>bs'. pmm_inv (case merge_prev b s of (b', s') \<Rightarrow> merge_next b' s') bs' \<and>
               block_pages bs' = block_pages (xs @ (b, n) # ys)"
  using pl
proof (cases rule: merge_prev_spec)
  case keep
  then have "xs = [] \<or> fst (last xs) + snd (last xs) < b"
    using below by (metis last_in_set le_neq_implies_less)
  with keep show ?thesis using merge_next_inv [of s xs b n ys] assms by simp
next
  case (merge us p m)
  have ok: "blocks_ok 0 us" "us = [] \<or> fst (last us) + snd (last us) < p" "0 < m"
    using okx merge by (auto simp: blocks_ok_append split: if_splits)
  have eq: "block_pages (us @ (p, m + n) # ys) = block_pages (xs @ (b, n) # ys)"
    using merge by auto
  have "pmm_links (absorb p b s) (us @ (p, m + n) # ys)"
    using absorb_spec [of s us p m b n ys] pl merge n by simp
  moreover have "p + (m + n) = b + n" using merge by simp
  ultimately have "\<exists>bs'. pmm_inv (merge_next p (absorb p b s)) bs' \<and>
                        block_pages bs' = block_pages (us @ (p, m + n) # ys)"
    using merge_next_inv [of "absorb p b s" us p "m + n" ys] ok oky above nres n eq
    by (simp only: absorb_reserved)
  with merge eq show ?thesis by simp
qed

lemma pmm_links_insert:
  assumes pl: "pmm_links s (xs @ ys)" and fresh: "base \<notin> fst ` set (xs @ ys)"
    and "\<forall>x\<in>set xs. fst x \<le> base" "\<forall>y\<in>set ys. base < fst y" "ys \<noteq> [] \<or> xs = []"
    and n: "sum_list (map snd (xs @ ys)) + n < 2 ^ 32"
    and P: "\<And>i. \<not> pg_property (pages s i) \<Longrightarrow> \<not> pg_property (P i)"
      "\<And>i. pg_property (pages s i) \<Longrightarrow> P i = pages s i"
  shows "\<exists>s'. free_list_insert base ((SetPageProperty base (set_property base n (s\<lparr>pages := P\<rparr>)))
               \<lparr>nr_free := u32 (nr_free s + n)\<rparr>) = Some s' \<and>
             pmm_links s' (xs @ (base, n) # ys) \<and>
             (\<forall>i. pg_reserved (pages s' i) = pg_reserved (P i))"
proof -
  let ?s = "(SetPageProperty base (set_property base n (s\<lparr>pages := P\<rparr>)))\<lparr>nr_free := u32 (nr_free s + n)\<rparr>"
  have "dlist (links ?s) FreeList (map (PageLink \<circ> fst) (xs @ ys))"
    using pl by (simp add: pmm_links_def SetPageProperty_def set_property_def)
  from free_list_insert_spec [OF this assms(3,4,5) fresh, of n]
  obtain h where h: "free_list_insert base ?s = Some (?s\<lparr>links := h\<rparr>)"
      "dlist h FreeList (map (PageLink \<circ> fst) (xs @ (base, n) # ys))" by blast
  define s' where "s' = ?s\<lparr>links := h\<rparr>"
  have pg: "pages s' i = (if i = base then (P base)\<lparr>property := n, pg_property := True\<rparr> else P i)" for i
    using n by (simp add: s'_def SetPageProperty_def set_property_def)
  have heads: "pg_property (pages s i) \<longleftrightarrow> i \<in> fst ` set (xs @ ys)" for i
    using pl by (simp add: pmm_links_def)
  have "property (pages s' c) = k" if "(c, k) \<in> set (xs @ (base, n) # ys)" for c k
  proof (cases "(c, k) \<in> set (xs @ ys)")
    case True
    then have "c \<noteq> base" "pg_property (pages s c)" using fresh heads by (metis fst_conv image_eqI)+
    with True P(2) pmm_links_property [OF pl True] show ?thesis by (simp add: pg)
  qed (use that in \<open>auto simp: pg\<close>)
  moreover have "pg_property (pages s' i) \<longleftrightarrow> i \<in> fst ` set (xs @ (base, n) # ys)" for i
  proof (cases "i = base")
    case False
    then have "pages s' i = P i" by (simp add: pg)
    moreover have "pg_property (P i) \<longleftrightarrow> pg_property (pages s i)"
      using P [of i] by (cases "pg_property (pages s i)") auto
    ultimately show ?thesis using heads [of i] False by auto
  qed (simp add: pg)
  moreover have "nr_free s' = sum_list (map snd (xs @ (base, n) # ys))"
    using pl n by (simp add: s'_def pmm_links_def)
  moreover have "dlist (links s') FreeList (map (PageLink \<circ> fst) (xs @ (base, n) # ys))"
    using h(2) by (simp add: s'_def)
  ultimately have "pmm_links s' (xs @ (base, n) # ys)"
    unfolding pmm_links_def by blast
  moreover have "pg_reserved (pages s' i) = pg_reserved (P i)" for i by (simp add: pg)
  ultimately show ?thesis using h(1) s'_def by blast
qed

lemma default_free_pages_inv:
  assumes inv: "pmm_inv s bs" and n: "0 < n" "Suc (base + n) < 2 ^ 32"
    and used: "{base..<base + n} \<inter> block_pages bs = {}"
    and nres: "\<forall>i\<in>{base..<base + n}. \<not> pg_reserved (pages s i)"
    and high: "bs = [] \<or> (\<exists>x\<in>set bs. base < fst x)"
  shows "\<exists>s' bs'. default_free_pages base n s = Some s' \<and> pmm_inv s' bs' \<and>
               block_pages bs' = block_pages bs \<union> {base..<base + n}"
proof -
  define P where "P = (\<lambda>i. if base \<le> i \<and> i < base + n
     then (pages s i)\<lparr>pg_reserved := False, pg_property := False, pg_ref := 0\<rparr> else pages s i)"
  have ok: "blocks_ok 0 bs" and pl: "pmm_links s bs" using inv by (auto simp: pmm_inv_iff)
  obtain xs ys where bs: "bs = xs @ ys" and below: "\<forall>x\<in>set xs. fst x + snd x \<le> base"
      and above: "\<forall>y\<in>set ys. base + n \<le> fst y"
    using blocks_split_at [OF ok n(1) used] by blast
  have pos: "\<forall>x\<in>set bs. 0 < snd x" using blocks_ok_lower [OF ok] by fastforce
  have free: "\<not> pg_property (pages s i)" if "i \<in> {base..<base + n}" for i
  proof
    assume "pg_property (pages s i)"
    then obtain k where "(i, k) \<in> set bs" using pl by (auto simp: pmm_links_def)
    with pos have "i \<in> block_pages bs" by (force simp: block_pages_def)
    with used that show False by auto
  qed
  have "free_loop base n (pages s) = Some P"
    unfolding P_def using free_loop_spec [of base n "pages s"] nres free by blast
  moreover have "\<exists>s'. free_list_insert base ((SetPageProperty base (set_property base n (s\<lparr>pages := P\<rparr>)))
               \<lparr>nr_free := u32 (nr_free s + n)\<rparr>) = Some s' \<and>
             pmm_links s' (xs @ (base, n) # ys) \<and>
             (\<forall>i. pg_reserved (pages s' i) = pg_reserved (P i))"
  proof (rule pmm_links_insert)
    show "pmm_links s (xs @ ys)" using pl bs by simp
    show "base \<notin> fst ` set (xs @ ys)"
      using free [of base] n pl bs by (auto simp: pmm_links_def)
    show "\<forall>x\<in>set xs. fst x \<le> base" "\<forall>y\<in>set ys. base < fst y" using below above n by fastforce+
    show "ys \<noteq> [] \<or> xs = []" using high below bs by fastforce
    show "sum_list (map snd (xs @ ys)) + n < 2 ^ 32"
      using blocks_sum_insert [of xs ys base n] ok bs below above n by simp
    show "\<not> pg_property (pages s i) \<Longrightarrow> \<not> pg_property (P i)" for i by (simp add: P_def)
    show "pg_property (pages s i) \<Longrightarrow> P i = pages s i" for i using free by (auto simp: P_def)
  qed
  then obtain s1 where s1: "free_list_insert base ((SetPageProperty base (set_property base n (s\<lparr>pages := P\<rparr>)))
               \<lparr>nr_free := u32 (nr_free s + n)\<rparr>) = Some s1" "pmm_links s1 (xs @ (base, n) # ys)"
             "\<forall>i. pg_reserved (pages s1 i) = pg_reserved (P i)" by blast
  ultimately have "default_free_pages base n s =
      Some (case merge_prev base s1 of (b', s') \<Rightarrow> merge_next b' s')"
    using n by (simp add: default_free_pages_def Let_def SetPageProperty_def set_property_def split: prod.splits)
  moreover have "\<exists>bs'. pmm_inv (case merge_prev base s1 of (b', s') \<Rightarrow> merge_next b' s') bs' \<and>
               block_pages bs' = block_pages (xs @ (base, n) # ys)"
  proof (rule merge_both_inv [OF s1(2)])
    show "blocks_ok 0 xs" "blocks_ok 0 ys" using ok bs by (auto simp: blocks_ok_append intro: blocks_ok_mono)
    show "\<forall>i\<in>block_pages (xs @ (base, n) # ys). \<not> pg_reserved (pages s1 i)"
      using inv bs nres s1(3) by (auto simp: pmm_inv_def P_def)
  qed (use below above n in auto)
  ultimately show ?thesis using bs by (auto simp: Un_ac)
qed

section \<open>Uniqueness of the block representation\<close>

lemma blocks_ok_head:
  assumes "blocks_ok lo ((b, n) # bs)"
  shows "b \<in> block_pages ((b, n) # bs)" "\<forall>i\<in>block_pages ((b, n) # bs). b \<le> i"
    "b + n \<notin> block_pages ((b, n) # bs)"
  using assms block_pages_lower [of "Suc (b + n)" bs] by fastforce+

lemma blocks_ok_unique:
  "blocks_ok lo bs \<Longrightarrow> blocks_ok lo' cs \<Longrightarrow> block_pages bs = block_pages cs \<Longrightarrow> bs = cs"
proof (induction bs arbitrary: lo lo' cs)
  case Nil
  then show ?case by (cases cs) fastforce+
next
  case (Cons x bs)
  obtain b n where x: "x = (b, n)" by (cases x)
  note hx = blocks_ok_head [OF Cons.prems(1) [unfolded x]]
  obtain c m cs' where cs: "cs = (c, m) # cs'"
    using hx(1) Cons.prems(3) x by (cases cs) auto
  note hc = blocks_ok_head [OF Cons.prems(2) [unfolded cs]]
  have eq: "block_pages ((b, n) # bs) = block_pages ((c, m) # cs')" using Cons.prems(3) x cs by simp
  have bc: "b = c" using hx(1,2) hc(1,2) eq by (metis le_antisym)
  have nm: "n = m"
  proof (rule ccontr)
    assume "n \<noteq> m"
    then consider "n < m" | "m < n" by linarith
    then show False
    proof cases
      case 1
      then have "b + n \<in> block_pages ((c, m) # cs')" using bc by auto
      with hx(3) show False unfolding eq by blast
    next
      case 2
      then have "c + m \<in> block_pages ((b, n) # bs)" using bc by auto
      with hc(3) show False unfolding eq by blast
    qed
  qed
  have okb: "blocks_ok (Suc (b + n)) bs" and okc: "blocks_ok (Suc (c + m)) cs'"
    using Cons.prems x cs by auto
  have "block_pages bs = block_pages ((b, n) # bs) - {b..<b + n}"
    using block_pages_lower [OF okb] by fastforce
  moreover have "block_pages cs' = block_pages ((c, m) # cs') - {c..<c + m}"
    using block_pages_lower [OF okc] by fastforce
  ultimately have "block_pages bs = block_pages cs'" using eq bc nm by simp
  then show ?case using Cons.IH [OF okb okc] x cs bc nm by simp
qed

section \<open>The contract of a page allocator\<close>

text \<open>A run of requests with the ranges it obtains, whatever the allocator.\<close>

fun alloc_all :: "(nat \<Rightarrow> 's \<Rightarrow> (nat option \<times> 's) option) \<Rightarrow> nat list \<Rightarrow> 's \<Rightarrow> (nat \<times> nat) list" where
  "alloc_all alloc [] s = []"
| "alloc_all alloc (n # ns) s = (case alloc n s of
      None \<Rightarrow> []
    | Some (None, s') \<Rightarrow> alloc_all alloc ns s'
    | Some (Some b, s') \<Rightarrow> (b, n) # alloc_all alloc ns s')"

fun ranges_disjoint :: "(nat \<times> nat) list \<Rightarrow> bool" where
  "ranges_disjoint [] \<longleftrightarrow> True"
| "ranges_disjoint ((b, n) # rs) \<longleftrightarrow> {b..<b + n} \<inter> block_pages rs = {} \<and> ranges_disjoint rs"

text \<open>
  What the memory manager's clients rely on, for any strategy: allocation fails
  only when no block is large enough and then changes nothing, an allocated
  range was free and is taken out, and freeing gives a range back. \<open>fits\<close> is
  the side condition on the range given back under which freeing is correct.
\<close>

locale page_allocator =
  fixes inv :: "'s \<Rightarrow> (nat \<times> nat) list \<Rightarrow> bool"
    and usable :: "'s \<Rightarrow> nat \<Rightarrow> bool"
    and fits :: "nat \<Rightarrow> (nat \<times> nat) list \<Rightarrow> bool"
    and alloc :: "nat \<Rightarrow> 's \<Rightarrow> (nat option \<times> 's) option"
    and free :: "nat \<Rightarrow> nat \<Rightarrow> 's \<Rightarrow> 's option"
  assumes inv_blocks: "inv s bs \<Longrightarrow> blocks_ok 0 bs"
    and inv_usable: "inv s bs \<Longrightarrow> i \<in> block_pages bs \<Longrightarrow> usable s i"
    and alloc_none: "inv s bs \<Longrightarrow> 0 < n \<Longrightarrow> \<forall>x\<in>set bs. snd x < n \<Longrightarrow> alloc n s = Some (None, s)"
    and alloc_some: "inv s bs \<Longrightarrow> 0 < n \<Longrightarrow> \<exists>x\<in>set bs. n \<le> snd x \<Longrightarrow>
      \<exists>b s' bs'. alloc n s = Some (Some b, s') \<and> inv s' bs' \<and> {b..<b + n} \<subseteq> block_pages bs \<and>
        block_pages bs' = block_pages bs - {b..<b + n} \<and> (\<forall>i. usable s' i = usable s i)"
    and free_some: "inv s bs \<Longrightarrow> 0 < n \<Longrightarrow> Suc (b + n) < 2 ^ 32 \<Longrightarrow>
      {b..<b + n} \<inter> block_pages bs = {} \<Longrightarrow> \<forall>i\<in>{b..<b + n}. usable s i \<Longrightarrow> fits b bs \<Longrightarrow>
      \<exists>s' bs'. free b n s = Some s' \<and> inv s' bs' \<and> block_pages bs' = block_pages bs \<union> {b..<b + n}"
begin

text \<open>Whatever allocation returns, the free pages afterwards are known.\<close>

lemma alloc_result:
  assumes "inv s bs" "0 < n" "alloc n s = Some (r, s')"
  shows "\<exists>bs'. inv s' bs' \<and> block_pages bs' = block_pages bs - (case r of None \<Rightarrow> {} | Some b \<Rightarrow> {b..<b + n}) \<and>
           (case r of None \<Rightarrow> \<forall>x\<in>set bs. snd x < n | Some b \<Rightarrow> {b..<b + n} \<subseteq> block_pages bs) \<and>
           (\<forall>i. usable s' i = usable s i)"
proof (cases "\<exists>x\<in>set bs. n \<le> snd x")
  case True
  from alloc_some [OF assms(1,2) this] assms(3) show ?thesis by fastforce
next
  case False
  then have "\<forall>x\<in>set bs. snd x < n" by auto
  with alloc_none [OF assms(1,2)] assms show ?thesis by auto
qed

lemma alloc_returns: "inv s bs \<Longrightarrow> 0 < n \<Longrightarrow> \<exists>r s'. alloc n s = Some (r, s')"
  using alloc_some [of s bs n] alloc_none [of s bs n] by (meson leI)

lemma free_after_alloc:
  assumes inv: "inv s bs" and n: "0 < n" and al: "alloc n s = Some (Some b, s')"
    and fit: "\<And>bs'. block_pages bs' = block_pages bs - {b..<b + n} \<Longrightarrow> blocks_ok 0 bs' \<Longrightarrow> fits b bs'"
    and top: "Suc (b + n) < 2 ^ 32"
  shows "\<exists>s''. free b n s' = Some s'' \<and> inv s'' bs"
proof -
  obtain bs' where bs': "inv s' bs'" "block_pages bs' = block_pages bs - {b..<b + n}"
      "{b..<b + n} \<subseteq> block_pages bs" "\<forall>i. usable s' i = usable s i"
    using alloc_result [OF inv n al] by auto
  have "{b..<b + n} \<inter> block_pages bs' = {}" using bs'(2) by blast
  moreover have "\<forall>i\<in>{b..<b + n}. usable s' i" using bs'(3,4) inv_usable [OF inv] by blast
  ultimately obtain s'' cs where cs: "free b n s' = Some s''" "inv s'' cs"
      "block_pages cs = block_pages bs' \<union> {b..<b + n}"
    using free_some [OF bs'(1) n top] fit [OF bs'(2) inv_blocks [OF bs'(1)]] by blast
  have "block_pages cs = block_pages bs" using cs(3) bs'(2,3) by blast
  then have "cs = bs" using blocks_ok_unique inv_blocks cs(2) inv by blast
  with cs show ?thesis by blast
qed

text \<open>The ranges a run of requests hands out were free and never overlap.\<close>

lemma alloc_all_free:
  "inv s bs \<Longrightarrow> \<forall>n\<in>set ns. 0 < n \<Longrightarrow> block_pages (alloc_all alloc ns s) \<subseteq> block_pages bs"
proof (induction ns arbitrary: s bs)
  case (Cons n ns)
  then obtain r s' where al: "alloc n s = Some (r, s')" using alloc_returns [of s bs n] by auto
  from alloc_result [OF Cons.prems(1) _ al] Cons.prems(2) obtain bs' where
    "inv s' bs'" "block_pages bs' \<subseteq> block_pages bs"
    "case r of None \<Rightarrow> True | Some b \<Rightarrow> {b..<b + n} \<subseteq> block_pages bs" by (cases r) auto
  moreover have "block_pages (alloc_all alloc ns s') \<subseteq> block_pages bs'"
    using Cons.IH Cons.prems(2) calculation(1) by simp
  ultimately show ?case using al by (cases r) auto
qed simp

lemma alloc_all_disjoint:
  "inv s bs \<Longrightarrow> \<forall>n\<in>set ns. 0 < n \<Longrightarrow> ranges_disjoint (alloc_all alloc ns s)"
proof (induction ns arbitrary: s bs)
  case (Cons n ns)
  then obtain r s' where al: "alloc n s = Some (r, s')" using alloc_returns [of s bs n] by auto
  from alloc_result [OF Cons.prems(1) _ al] Cons.prems(2) obtain bs' where
    bs': "inv s' bs'" "block_pages bs' = block_pages bs - (case r of None \<Rightarrow> {} | Some b \<Rightarrow> {b..<b + n})"
    by auto
  have "ranges_disjoint (alloc_all alloc ns s')" using Cons.IH Cons.prems(2) bs'(1) by simp
  moreover have "block_pages (alloc_all alloc ns s') \<subseteq> block_pages bs'"
    using alloc_all_free [OF bs'(1)] Cons.prems(2) by simp
  ultimately show ?case using al bs'(2) by (cases r) auto
qed simp

end

text \<open>
  Both managers meet the contract. Freeing is correct when the free list is
  empty or some free block lies above the range given back.
\<close>

definition higher_free :: "nat \<Rightarrow> (nat \<times> nat) list \<Rightarrow> bool" where
  "higher_free b bs \<longleftrightarrow> bs = [] \<or> (\<exists>x\<in>set bs. b < fst x)"

definition page_usable :: "pmm_state \<Rightarrow> nat \<Rightarrow> bool" where
  "page_usable s i \<longleftrightarrow> \<not> pg_reserved (pages s i)"

lemma take_block_usable: "page_usable (take_block b n s) i = page_usable s i"
  by (simp add: page_usable_def take_block_def Let_def kdefs)

lemma take_block_result:
  assumes inv: "pmm_inv s bs" and bs: "bs = xs @ (b, m) # ys" and n: "0 < n" "n \<le> m"
  shows "\<exists>bs'. pmm_inv (take_block b n s) bs' \<and> {b..<b + n} \<subseteq> block_pages bs \<and>
           block_pages bs' = block_pages bs - {b..<b + n} \<and>
           (\<forall>i. page_usable (take_block b n s) i = page_usable s i)"
proof -
  have "blocks_ok 0 (xs @ (b, m) # ys)" using inv bs by (simp add: pmm_inv_def)
  then have "block_pages (xs @ (if n < m then [(b + n, m - n)] else []) @ ys) = block_pages bs - {b..<b + n}"
    using block_split_pages [of xs b m ys n] n bs by simp
  moreover have "{b..<b + n} \<subseteq> block_pages bs" using bs n by auto
  ultimately show ?thesis
    using take_block_inv [OF inv bs n] take_block_usable by blast
qed

lemma first_fitting_block:
  "\<exists>x\<in>set bs. n \<le> snd x \<Longrightarrow>
   \<exists>xs b m ys. bs = xs @ (b, m) # ys \<and> n \<le> m \<and> (\<forall>x\<in>set xs. snd x < (n::nat))"
proof -
  assume "\<exists>x\<in>set bs. n \<le> snd x"
  then have "find (\<lambda>x. n \<le> snd x) bs \<noteq> None" unfolding find_None_iff by blast
  then obtain x where "find (\<lambda>x. n \<le> snd x) bs = Some x" by blast
  from find_split [OF this] show ?thesis by (metis not_le prod.collapse)
qed

lemma pmm_inv_blocks: "pmm_inv s bs \<Longrightarrow> blocks_ok 0 bs"
  by (simp add: pmm_inv_def)

lemma pmm_inv_usable: "pmm_inv s bs \<Longrightarrow> i \<in> block_pages bs \<Longrightarrow> page_usable s i"
  by (simp add: pmm_inv_def page_usable_def)

interpretation ff: page_allocator pmm_inv page_usable higher_free default_alloc_pages default_free_pages
proof
  fix s bs n
  assume inv: "pmm_inv s bs" and n: "0 < (n::nat)" and "\<exists>x\<in>set bs. n \<le> snd x"
  then obtain xs b m ys where "bs = xs @ (b, m) # ys" "n \<le> m" "\<forall>x\<in>set xs. snd x < n"
    using first_fitting_block by blast
  with default_alloc_success [OF inv n] take_block_result [OF inv _ n, of xs b m ys] show
    "\<exists>b s' bs'. default_alloc_pages n s = Some (Some b, s') \<and> pmm_inv s' bs' \<and>
      {b..<b + n} \<subseteq> block_pages bs \<and> block_pages bs' = block_pages bs - {b..<b + n} \<and>
      (\<forall>i. page_usable s' i = page_usable s i)" by blast
next
  fix s bs n b
  assume "pmm_inv s bs" "0 < (n::nat)" "Suc (b + n) < 2 ^ 32" "{b..<b + n} \<inter> block_pages bs = {}"
    "\<forall>i\<in>{b..<b + n}. page_usable s i" "higher_free b bs"
  then show "\<exists>s' bs'. default_free_pages b n s = Some s' \<and> pmm_inv s' bs' \<and>
      block_pages bs' = block_pages bs \<union> {b..<b + n}"
    using default_free_pages_inv unfolding higher_free_def page_usable_def by blast
qed (simp_all add: pmm_inv_blocks pmm_inv_usable default_alloc_fail)

lemma best_fit_free_eq: "best_fit_free_pages = default_free_pages"
  by (intro ext) (simp add: best_fit_free_pages_def default_free_pages_def)

interpretation bf: page_allocator pmm_inv page_usable higher_free best_fit_alloc_pages best_fit_free_pages
proof
  fix s bs n
  assume inv: "pmm_inv s bs" and n: "0 < (n::nat)" and "\<exists>x\<in>set bs. n \<le> snd x"
  then obtain xs b m ys where "bs = xs @ (b, m) # ys" "n \<le> m"
      "best_fit_alloc_pages n s = Some (Some b, take_block b n s)"
    using best_fit_alloc_success by blast
  with take_block_result [OF inv _ n, of xs b m ys] show
    "\<exists>b s' bs'. best_fit_alloc_pages n s = Some (Some b, s') \<and> pmm_inv s' bs' \<and>
      {b..<b + n} \<subseteq> block_pages bs \<and> block_pages bs' = block_pages bs - {b..<b + n} \<and>
      (\<forall>i. page_usable s' i = page_usable s i)" by blast
qed (auto simp only: best_fit_free_eq best_fit_alloc_fail ff.inv_blocks ff.inv_usable intro!: ff.free_some)

section \<open>Correctness\<close>

lemma default_init_memmap_blocks:
  assumes "0 < n" "Suc (base + n) < 2 ^ 32" "\<forall>i\<in>{base..<base + n}. pg_reserved (pages s i)"
    "\<forall>i. \<not> pg_property (pages s i)"
  shows "\<exists>s'. default_init_memmap base n (default_init s) = Some s' \<and> pmm_inv s' [(base, n)]"
proof -
  define P where "P = (\<lambda>i. if base \<le> i \<and> i < base + n
     then (pages s i)\<lparr>pg_reserved := False, pg_property := False, property := 0, pg_ref := 0\<rparr> else pages s i)"
  let ?s = "default_init s"
  have pl: "pmm_links ?s ([] @ [])"
    using assms(4) dlist_init by (simp add: pmm_links_def default_init_def kdefs)
  have "\<exists>s'. free_list_insert base ((SetPageProperty base (set_property base n (?s\<lparr>pages := P\<rparr>)))
               \<lparr>nr_free := u32 (nr_free ?s + n)\<rparr>) = Some s' \<and>
             pmm_links s' ([] @ (base, n) # []) \<and>
             (\<forall>i. pg_reserved (pages s' i) = pg_reserved (P i))"
    using assms by (intro pmm_links_insert [OF pl]) (auto simp: P_def default_init_def kdefs)
  moreover have "memmap_loop base n (pages s) = Some P"
    unfolding P_def using memmap_loop_spec [of base n "pages s"] assms(3) by blast
  ultimately show ?thesis
    using assms(1,2) by (auto simp: default_init_memmap_def default_init_def pmm_inv_iff P_def kdefs)
qed

text \<open>A machine whose descriptors are all reserved, as \<open>page_init\<close> leaves them.\<close>

definition reserved_pages :: pmm_state where
  "reserved_pages = \<lparr>pages = (\<lambda>_. \<lparr>pg_ref = 0, pg_reserved = True, pg_property = False, property = 0\<rparr>),
     links = list_init FreeList \<lparr>l_prev = (\<lambda>x. x), l_next = (\<lambda>x. x)\<rparr>, nr_free = 0\<rparr>"

definition ten_pages :: pmm_state where
  "ten_pages = the (default_init_memmap 0 10 (default_init reserved_pages))"

lemma ten_pages_inv: "pmm_inv ten_pages [(0, 10)]"
  using default_init_memmap_blocks [of 10 0 reserved_pages]
  by (auto simp: ten_pages_def reserved_pages_def)

lemma pmm_inv_nr_free_bound: "pmm_inv s bs \<Longrightarrow> nr_free s < 2 ^ 32"
  using blocks_ok_sum' [of bs] by (simp add: pmm_inv_def)

lemma pmm_inv_block_le: "pmm_inv s (xs @ (b, m) # ys) \<Longrightarrow> m \<le> nr_free s"
  by (simp add: pmm_inv_def)

text \<open>C1. First fit: for a well-formed free list, \<open>default_alloc_pages\<close> returns NULL
  and changes nothing exactly when no free block has \<open>n\<close> pages; otherwise it
  returns the first page of the first block in address order that is large
  enough, that block loses its first \<open>n\<close> pages (or disappears), all other blocks
  stay, \<open>nr_free\<close> drops by \<open>n\<close> and the state is well-formed again.\<close>

theorem default_alloc_pages_first_fit:
  assumes "pmm_inv s bs" and "0 < n"
  shows "((\<forall>x\<in>set bs. snd x < n) \<and> default_alloc_pages n s = Some (None, s)) \<or>
         (\<exists>xs b m ys s'. bs = xs @ (b, m) # ys \<and> (\<forall>x\<in>set xs. snd x < n) \<and> n \<le> m \<and>
            default_alloc_pages n s = Some (Some b, s') \<and>
            pmm_inv s' (xs @ (if n < m then [(b + n, m - n)] else []) @ ys) \<and>
            nr_free s' = nr_free s - n)"
proof (cases "\<exists>x\<in>set bs. n \<le> snd x")
  case True
  then obtain xs b m ys where bs: "bs = xs @ (b, m) # ys" "n \<le> m" "\<forall>x\<in>set xs. snd x < n"
    using first_fitting_block by blast
  have "nr_free (take_block b n s) = nr_free s - n"
    using take_block_nr_free [of n s b] pmm_inv_nr_free_bound [OF assms(1)]
      pmm_inv_block_le [of s xs b m ys] assms(1) bs by simp
  with bs default_alloc_success [OF assms bs] take_block_inv [OF assms(1) bs(1) assms(2) bs(2)]
  show ?thesis by blast
next
  case False
  then have "\<forall>x\<in>set bs. snd x < n" by auto
  with default_alloc_fail [OF assms] show ?thesis by blast
qed

theorem default_alloc_pages_first_fit_witness:
  "((\<forall>x\<in>set [(0, 10)]. snd x < 3) \<and> default_alloc_pages 3 ten_pages = Some (None, ten_pages)) \<or>
   (\<exists>xs b m ys s'. [(0, 10)] = xs @ (b, m) # ys \<and> (\<forall>x\<in>set xs. snd x < 3) \<and> 3 \<le> m \<and>
      default_alloc_pages 3 ten_pages = Some (Some b, s') \<and>
      pmm_inv s' (xs @ (if 3 < m then [(b + 3, m - 3)] else []) @ ys) \<and>
      nr_free s' = nr_free ten_pages - 3)"
  using default_alloc_pages_first_fit [OF ten_pages_inv, of 3] by simp

text \<open>C38. Best fit: \<open>best_fit_alloc_pages\<close> fails exactly when no block is large
  enough; otherwise it takes the pages from a block that is large enough and no
  larger than any other such block, and leaves a well-formed state without them.\<close>

theorem best_fit_alloc_pages_best_fit:
  assumes "pmm_inv s bs" and "0 < n"
  shows "((\<forall>x\<in>set bs. snd x < n) \<and> best_fit_alloc_pages n s = Some (None, s)) \<or>
         (\<exists>xs b m ys s'. bs = xs @ (b, m) # ys \<and> n \<le> m \<and>
            (\<forall>x\<in>set bs. n \<le> snd x \<longrightarrow> m \<le> snd x) \<and>
            best_fit_alloc_pages n s = Some (Some b, s') \<and>
            pmm_inv s' (xs @ (if n < m then [(b + n, m - n)] else []) @ ys))"
proof (cases "\<exists>x\<in>set bs. n \<le> snd x")
  case True
  from best_fit_alloc_success [OF assms this] take_block_inv [OF assms(1) _ assms(2)]
  show ?thesis by blast
next
  case False
  then have "\<forall>x\<in>set bs. snd x < n" by auto
  with best_fit_alloc_fail [OF assms] show ?thesis by blast
qed

theorem best_fit_alloc_pages_best_fit_witness:
  "((\<forall>x\<in>set [(0, 10)]. snd x < 3) \<and> best_fit_alloc_pages 3 ten_pages = Some (None, ten_pages)) \<or>
   (\<exists>xs b m ys s'. [(0, 10)] = xs @ (b, m) # ys \<and> 3 \<le> m \<and>
      (\<forall>x\<in>set [(0, 10)]. 3 \<le> snd x \<longrightarrow> m \<le> snd x) \<and>
      best_fit_alloc_pages 3 ten_pages = Some (Some b, s') \<and>
      pmm_inv s' (xs @ (if 3 < m then [(b + 3, m - 3)] else []) @ ys))"
  using best_fit_alloc_pages_best_fit [OF ten_pages_inv, of 3] by simp

text \<open>C5. Freeing: giving back an allocated range keeps the free list sorted, fully
  coalesced and consistent with the page flags, and adds exactly those pages, as
  long as the list is empty or holds a block above the range.\<close>

theorem default_free_pages_coalesces:
  assumes "pmm_inv s bs" and "0 < n" "Suc (base + n) < 2 ^ 32"
    and "{base..<base + n} \<inter> block_pages bs = {}"
    and "\<forall>i\<in>{base..<base + n}. page_usable s i" and "higher_free base bs"
  shows "\<exists>s' bs'. default_free_pages base n s = Some s' \<and> pmm_inv s' bs' \<and>
           block_pages bs' = block_pages bs \<union> {base..<base + n}"
  using assms by (rule ff.free_some)

lemma ten_pages_alloc: "default_alloc_pages 3 ten_pages = Some (Some 0, take_block 0 3 ten_pages)"
  using default_alloc_success [OF ten_pages_inv, of 3 "[]" 0 10 "[]"] by simp

lemma ten_pages_taken: "pmm_inv (take_block 0 3 ten_pages) [(3, 7)]"
  using take_block_inv [OF ten_pages_inv, of "[]" 0 10 "[]" 3] by simp

theorem default_free_pages_coalesces_witness:
  "\<exists>s' bs'. default_free_pages 0 3 (take_block 0 3 ten_pages) = Some s' \<and> pmm_inv s' bs' \<and>
     block_pages bs' = block_pages [(3, 7)] \<union> {0..<0 + 3}"
proof (rule default_free_pages_coalesces [OF ten_pages_taken])
  show "\<forall>i\<in>{0..<0 + 3}. page_usable (take_block 0 3 ten_pages) i"
    using pmm_inv_usable [OF ten_pages_inv] by (simp add: take_block_usable)
qed (auto simp: higher_free_def)

text \<open>C33. Any run of first-fit requests hands out ranges that were free at the start
  and are pairwise disjoint.\<close>

theorem default_allocs_disjoint:
  assumes "pmm_inv s bs" and "\<forall>n\<in>set ns. 0 < n"
  shows "ranges_disjoint (alloc_all default_alloc_pages ns s) \<and>
         block_pages (alloc_all default_alloc_pages ns s) \<subseteq> block_pages bs"
  using ff.alloc_all_disjoint [OF assms] ff.alloc_all_free [OF assms] by blast

theorem default_allocs_disjoint_witness:
  "ranges_disjoint (alloc_all default_alloc_pages [3, 2, 4] ten_pages) \<and>
   block_pages (alloc_all default_alloc_pages [3, 2, 4] ten_pages) \<subseteq> block_pages [(0, 10)]"
  using default_allocs_disjoint [OF ten_pages_inv, of "[3, 2, 4]"] by simp

text \<open>Round trip: freeing the range just allocated restores the free list, when
  a block above the range is left (or none at all).\<close>

theorem default_alloc_free_roundtrip:
  assumes "pmm_inv s bs" and "0 < n" and "default_alloc_pages n s = Some (Some b, s')"
    and "Suc (b + n) < 2 ^ 32"
    and "block_pages bs = {b..<b + n} \<or> (\<exists>i\<in>block_pages bs. b + n \<le> i)"
  shows "\<exists>s''. default_free_pages b n s' = Some s'' \<and> pmm_inv s'' bs"
proof (rule ff.free_after_alloc [OF assms(1-3) _ assms(4)])
  fix bs' assume bp: "block_pages bs' = block_pages bs - {b..<b + n}" and ok: "blocks_ok 0 bs'"
  show "higher_free b bs'"
  proof (cases "bs' = []")
    case False
    then obtain c k where ck: "hd bs' = (c, k)" "(c, k) \<in> set bs'" by (metis hd_in_set surj_pair)
    then have c: "c \<in> block_pages bs'" using blocks_ok_lower [OF ok] by (force simp: block_pages_def)
    then have "block_pages bs \<noteq> {b..<b + n}" using bp by blast
    then obtain i where "i \<in> block_pages bs" "b + n \<le> i" using assms(5) by blast
    then have "i \<in> block_pages bs'" "b + n \<le> i" unfolding bp by simp_all
    then obtain d l where d: "(d, l) \<in> set bs'" "d \<le> i" "i < d + l" by (auto simp: block_pages_def)
    have "b < d"
    proof (rule ccontr)
      assume "\<not> b < d"
      then have "b \<in> {d..<d + l}" using d \<open>b + n \<le> i\<close> by simp
      then have "b \<in> block_pages bs'" using d(1) unfolding block_pages_def by blast
      then show False unfolding bp using assms(2) by simp
    qed
    with d(1) show ?thesis unfolding higher_free_def by force
  qed (simp add: higher_free_def)
qed

theorem default_alloc_free_roundtrip_witness:
  "\<exists>s''. default_free_pages 0 3 (take_block 0 3 ten_pages) = Some s'' \<and> pmm_inv s'' [(0, 10)]"
proof (rule default_alloc_free_roundtrip [OF ten_pages_inv _ ten_pages_alloc])
  show "block_pages [(0, 10)] = {0..<0 + 3} \<or> (\<exists>i\<in>block_pages [(0, 10)]. 0 + 3 \<le> i)"
    by (rule disjI2, rule bexI [of _ 5]) auto
qed simp_all

text \<open>Evaluation of the operations on concrete states.\<close>

lemmas loops_num =
  memmap_loop.simps(2) [of _ "pred_numeral k" for k, folded numeral_eq_Suc]
  free_loop.simps(2) [of _ "pred_numeral k" for k, folded numeral_eq_Suc]

lemmas pmm_eval =
  default_init_memmap_def default_alloc_pages_def default_free_pages_def default_init_def
  reserved_pages_def kdefs free_list_insert_def u32_def Let_def
  merge_prev_def merge_next_def take_block_def loops_num insert_loop.simps first_fit_loop.simps

text \<open>The side condition on freeing is needed. When the range given back lies above
  every free block, the insertion loop appends it, does not stop, and appends it a second
  time behind itself. On six pages, all allocated, freeing page 0 and then pages 2-3
  leaves page 2 as its own predecessor, so the next allocation of two pages cannot
  unlink it; after pages 4-5 are freed, a further allocation returns pages 2-3 again
  although nothing has freed them.\<close>

theorem default_free_pages_double_allocation:
  "map_option (\<lambda>(a, b, s). (a, b))
     (do {
       s \<leftarrow> default_init_memmap 0 6 (default_init reserved_pages);
       (r, s) \<leftarrow> default_alloc_pages 6 s;
       s \<leftarrow> default_free_pages 0 1 s;
       s \<leftarrow> default_free_pages 2 2 s;
       (a, s) \<leftarrow> default_alloc_pages 2 s;
       s \<leftarrow> default_free_pages 4 2 s;
       (b, s) \<leftarrow> default_alloc_pages 2 s;
       Some (a, b, s) }) = Some (Some 2, Some 2)"
  by (simp add: pmm_eval cong: bind_weak_cong)

end
