(* ===== verification/Buddy.thy ===== *)
theory Buddy
  imports Page_Alloc
begin

text \<open>
  The buddy allocator of lab 2 (\<open>src/lab2/kern/mm/buddy_pmm.c\<close>): free lists per order, the order of each page,
  allocation by splitting and release by merging. A page is its index in \<open>pages\<close>; \<open>free_area s o\<close> is
  \<open>free_area[o].free_list\<close> from its head and \<open>area_free s o\<close> its \<open>nr_free\<close>. A failed assertion, an
  access outside of \<open>buddy_order\<close> and a loop that does not end give \<open>None\<close>.

  Blocks are pairs of an index and an order. \<open>region k s F A\<close> says that the free blocks \<open>F\<close> and the
  allocated blocks \<open>A\<close> tile the \<open>2 ^ k\<close> managed pages, that the lists, counts, flags and orders
  describe them, and that no two free buddies are apart. During an operation one block is \<open>held\<close>: splitting and
  merging are steps of that relation.
\<close>

unbundle bit_operations_syntax

section \<open>State and helpers\<close>

definition BUDDY_MAX_ORDER :: nat where "BUDDY_MAX_ORDER = 15"
definition MAX_BUDDY_PAGES :: nat where "MAX_BUDDY_PAGES = 2 ^ BUDDY_MAX_ORDER"

record buddy =
  bpages :: "nat \<Rightarrow> Page"
  free_area :: "nat \<Rightarrow> nat list"
  area_free :: "nat \<Rightarrow> nat"
  buddy_order :: "nat \<Rightarrow> nat"
  buddy_base :: nat

definition upd_bpage :: "nat \<Rightarrow> (Page \<Rightarrow> Page) \<Rightarrow> buddy \<Rightarrow> buddy" where
  "upd_bpage p f s = s\<lparr>bpages := (bpages s)(p := f (bpages s p))\<rparr>"

definition is_power_of_2 :: "64 word \<Rightarrow> bool" where
  "is_power_of_2 n \<longleftrightarrow> n AND (n - 1) = 0"

text \<open>Doubling a \<open>size_t\<close> may give 0, after which the loops run forever.\<close>

partial_function (option) round_up_power_of_2_loop :: "nat \<Rightarrow> nat \<Rightarrow> nat option" where
  "round_up_power_of_2_loop n ret = (if ret < n then round_up_power_of_2_loop n (u64 (2 * ret)) else Some ret)"

definition round_up_power_of_2 :: "nat \<Rightarrow> nat option" where
  "round_up_power_of_2 n = round_up_power_of_2_loop n 1"

partial_function (option) get_order_loop :: "nat \<Rightarrow> nat \<Rightarrow> nat \<Rightarrow> nat option" where
  "get_order_loop n order sz = (if sz < n then get_order_loop n (order + 1) (u64 (2 * sz)) else Some order)"

definition get_order :: "nat \<Rightarrow> nat option" where
  "get_order n = get_order_loop n 0 1"

definition buddy_nr_free_pages :: "buddy \<Rightarrow> nat" where
  "buddy_nr_free_pages s = (\<Sum>i\<leftarrow>[0..<BUDDY_MAX_ORDER + 1]. area_free s i)"

text \<open>The loops that write \<open>buddy_order[first + i] = o\<close> for \<open>i < cnt\<close>; outside of the array is undefined behaviour.\<close>

definition set_orders :: "nat \<Rightarrow> nat \<Rightarrow> nat \<Rightarrow> buddy \<Rightarrow> buddy option" where
  "set_orders first cnt o' s = do {
     kassert (first + cnt \<le> MAX_BUDDY_PAGES);
     Some (s\<lparr>buddy_order := (\<lambda>i. if first \<le> i \<and> i < first + cnt then o' else buddy_order s i)\<rparr>) }"

definition area_add :: "nat \<Rightarrow> nat \<Rightarrow> buddy \<Rightarrow> buddy" where
  "area_add o' p s = s\<lparr>free_area := (free_area s)(o' := p # free_area s o'), area_free := (area_free s)(o' := u32 (area_free s o' + 2 ^ o'))\<rparr>"

definition area_del :: "nat \<Rightarrow> nat \<Rightarrow> buddy \<Rightarrow> buddy" where
  "area_del o' p s = s\<lparr>free_area := (free_area s)(o' := remove1 p (free_area s o')), area_free := (area_free s)(o' := u32 (area_free s o' + 2 ^ 32 - 2 ^ o'))\<rparr>"

section \<open>Initialisation\<close>

definition buddy_init :: "buddy \<Rightarrow> buddy" where
  "buddy_init s = s\<lparr>free_area := (\<lambda>_. []), area_free := (\<lambda>_. 0), buddy_order := (\<lambda>_. 0)\<rparr>"

fun buddy_memmap_loop :: "nat \<Rightarrow> nat \<Rightarrow> (nat \<Rightarrow> Page) \<Rightarrow> (nat \<Rightarrow> Page) option" where
  "buddy_memmap_loop p 0 P = Some P"
| "buddy_memmap_loop p (Suc k) P = do {
     kassert (pg_reserved (P p));
     buddy_memmap_loop (Suc p) k (P(p := (P p)\<lparr>pg_reserved := False, pg_property := True, pg_ref := 0\<rparr>)) }"

text \<open>The largest order, from \<open>o'\<close> downwards, whose blocks have at most \<open>n\<close> pages; order 0 if there is none.\<close>

fun max_order :: "nat \<Rightarrow> nat \<Rightarrow> nat" where
  "max_order n 0 = 0"
| "max_order n (Suc k) = (if 2 ^ Suc k \<le> n then Suc k else max_order n k)"

definition buddy_init_memmap :: "nat \<Rightarrow> nat \<Rightarrow> buddy \<Rightarrow> buddy option" where
  "buddy_init_memmap base n s = do {
     kassert (n > 0);
     P \<leftarrow> buddy_memmap_loop base n (bpages s);
     let k = max_order n BUDDY_MAX_ORDER;
     let s = upd_bpage base (\<lambda>p. p\<lparr>property := 2 ^ k\<rparr>) (s\<lparr>buddy_base := base, bpages := P\<rparr>);
     s \<leftarrow> set_orders 0 (2 ^ k) k s;
     Some (area_add k base s) }"

section \<open>Allocation\<close>

fun split_loop :: "nat \<Rightarrow> nat \<Rightarrow> nat \<Rightarrow> buddy \<Rightarrow> buddy option" where
  "split_loop page req 0 s = Some s"
| "split_loop page req (Suc c) s =
     (if Suc c > req
      then do {
        let b = page + 2 ^ c;
        let s = upd_bpage b (\<lambda>p. p\<lparr>property := 2 ^ c, pg_property := True\<rparr>) s;
        s \<leftarrow> set_orders (page - buddy_base s + 2 ^ c) (2 ^ c) c s;
        split_loop page req c (area_add c b s) }
      else Some s)"

definition buddy_alloc_pages :: "nat \<Rightarrow> buddy \<Rightarrow> (nat option \<times> buddy) option" where
  "buddy_alloc_pages n s = do {
     kassert (n > 0);
     if n > MAX_BUDDY_PAGES then Some (None, s)
     else do {
       r \<leftarrow> get_order n;
       case List.find (\<lambda>c. free_area s c \<noteq> []) [r..<BUDDY_MAX_ORDER + 1] of
         None \<Rightarrow> Some (None, s)
       | Some c \<Rightarrow> do {
           let page = hd (free_area s c);
           s \<leftarrow> split_loop page r c (area_del c page s);
           Some (Some page, upd_bpage page (\<lambda>p. p\<lparr>pg_property := False, property := u32 n\<rparr>) s) } } }"

section \<open>Release\<close>

text \<open>The merging loop for the block at index \<open>i\<close>; the first argument is the number of orders left above it.\<close>

fun merge_loop :: "nat \<Rightarrow> nat \<Rightarrow> nat \<Rightarrow> buddy \<Rightarrow> (nat \<times> nat \<times> buddy) option" where
  "merge_loop 0 o' i s = Some (o', i, s)"
| "merge_loop (Suc k) o' i s =
     (let b = i XOR 2 ^ o' in
      if pg_property (bpages s (buddy_base s + b)) \<and> buddy_order s b = o'
      then do {
        let s = area_del o' (buddy_base s + b) s;
        let i = (if i > b then b else i);
        let s = upd_bpage (buddy_base s + i) (\<lambda>p. p\<lparr>property := 2 ^ (o' + 1)\<rparr>) s;
        s \<leftarrow> set_orders i (2 ^ (o' + 1)) (o' + 1) s;
        merge_loop k (o' + 1) i s }
      else Some (o', i, s))"

definition buddy_free_pages :: "nat \<Rightarrow> nat \<Rightarrow> buddy \<Rightarrow> buddy option" where
  "buddy_free_pages base n s = do {
     kassert (n > 0);
     let i = base - buddy_base s;
     o' \<leftarrow> get_order n;
     let s = upd_bpage base (\<lambda>p. p\<lparr>pg_property := True, property := 2 ^ o'\<rparr>) s;
     s \<leftarrow> set_orders i (2 ^ o') o' s;
     (o', i, s) \<leftarrow> merge_loop (BUDDY_MAX_ORDER - o') o' i s;
     Some (area_add o' (buddy_base s + i) s) }"


section \<open>Aligned blocks\<close>

text \<open>A block is its first index and its order.\<close>

type_synonym block = "nat \<times> nat"

definition brange :: "block \<Rightarrow> nat set" where
  "brange b = {fst b..<fst b + 2 ^ snd b}"

definition aligned :: "block \<Rightarrow> bool" where
  "aligned b \<longleftrightarrow> 2 ^ snd b dvd fst b"

definition disjoint_blocks :: "block set \<Rightarrow> bool" where
  "disjoint_blocks B \<longleftrightarrow> (\<forall>a\<in>B. \<forall>b\<in>B. a \<noteq> b \<longrightarrow> brange a \<inter> brange b = {})"

definition tiling :: "nat \<Rightarrow> block set \<Rightarrow> bool" where
  "tiling k B \<longleftrightarrow> (\<forall>b\<in>B. aligned b) \<and> disjoint_blocks B \<and> \<Union> (brange ` B) = {..<2 ^ k}"

lemma aligned_range: "aligned (i, p) \<Longrightarrow> x \<in> brange (i, p) \<longleftrightarrow> x div 2 ^ p = i div 2 ^ p"
proof -
  assume "aligned (i, p)"
  then obtain q where q: "i = 2 ^ p * q" by (auto simp: aligned_def dvd_def)
  have "x \<in> brange (i, p) \<longleftrightarrow> 2 ^ p * q \<le> x \<and> x < 2 ^ p * Suc q" by (auto simp: brange_def q)
  also have "\<dots> \<longleftrightarrow> x div 2 ^ p = q"
  proof
    assume "2 ^ p * q \<le> x \<and> x < 2 ^ p * Suc q"
    then show "x div 2 ^ p = q" by (metis div_nat_eqI mult.commute)
  next
    assume d: "x div 2 ^ p = q"
    have "x mod 2 ^ p < 2 ^ p" "x = 2 ^ p * q + x mod 2 ^ p" using d by auto
    moreover have "2 ^ p * Suc q = 2 ^ p * q + 2 ^ p" by simp
    ultimately show "2 ^ p * q \<le> x \<and> x < 2 ^ p * Suc q" by linarith
  qed
  finally show ?thesis by (simp add: q)
qed

lemma brange_self [simp]: "i \<in> brange (i, p)"
  by (simp add: brange_def)

lemma aligned_nested:
  assumes "aligned (i, p)" "aligned (j, r)" "p \<le> r" "brange (i, p) \<inter> brange (j, r) \<noteq> {}"
  shows "brange (i, p) \<subseteq> brange (j, r)"
proof
  fix y assume y: "y \<in> brange (i, p)"
  obtain x where x: "x \<in> brange (i, p)" "x \<in> brange (j, r)" using assms(4) by blast
  have e: "y div 2 ^ p = x div 2 ^ p" using x(1) y aligned_range [OF assms(1)] by simp
  have d: "z div 2 ^ r = z div 2 ^ p div 2 ^ (r - p)" for z :: nat
    using assms(3) by (simp add: div_mult2_eq [symmetric] power_add [symmetric])
  show "y \<in> brange (j, r)" using x(2) e d aligned_range [OF assms(2)] by metis
qed

lemma aligned_start:
  assumes "aligned (i, p)" "aligned (j, r)" "r \<le> p" "i \<in> brange (j, r)"
  shows "i = j"
proof -
  have "brange (j, r) \<subseteq> brange (i, p)" using aligned_nested [OF assms(2,1,3)] assms(4) brange_self [of i p] by blast
  then have "i \<le> j" using brange_self [of j r] by (auto simp: brange_def)
  then show ?thesis using assms(4) by (auto simp: brange_def)
qed

lemma brange_card: "card (brange (i, p)) = 2 ^ p"
  by (simp add: brange_def)

lemma brange_inj: "brange (i, p) = brange (j, r) \<Longrightarrow> i = j \<and> p = r"
proof -
  assume e: "brange (i, p) = brange (j, r)"
  then have "(2 :: nat) ^ p = 2 ^ r" using brange_card by metis
  then have "p = r" by simp
  moreover have "i \<in> brange (j, r)" "j \<in> brange (i, p)" using e brange_self by blast+
  then have "i = j" by (simp add: brange_def)
  ultimately show ?thesis by simp
qed

text \<open>Replacing some blocks of a tiling by others that cover the same.\<close>

lemma tiling_replace:
  assumes t: "tiling k B" "R \<subseteq> B" and u: "\<Union> (brange ` N) = \<Union> (brange ` R)" and n: "disjoint_blocks N" "\<forall>b\<in>N. aligned b"
  shows "tiling k (B - R \<union> N)"
proof -
  have d: "disjoint_blocks B" using t(1) by (simp add: tiling_def)
  have sep: "brange a \<inter> brange b = {}" if "a \<in> B - R" "b \<in> N" for a b
  proof -
    have "brange a \<inter> brange r = {}" if "r \<in> R" for r
      using d \<open>a \<in> B - R\<close> that t(2) unfolding disjoint_blocks_def by (metis DiffD1 DiffD2 subsetD)
    then have "brange a \<inter> \<Union> (brange ` R) = {}" by auto
    then have "brange a \<inter> \<Union> (brange ` N) = {}" by (simp only: u)
    then show ?thesis using that(2) by auto
  qed
  have "disjoint_blocks (B - R \<union> N)"
    unfolding disjoint_blocks_def
  proof (intro ballI impI)
    fix a b assume m: "a \<in> B - R \<union> N" "b \<in> B - R \<union> N" "a \<noteq> b"
    consider "a \<in> B - R" "b \<in> B - R" | "a \<in> B - R" "b \<in> N" | "a \<in> N" "b \<in> B - R" | "a \<in> N" "b \<in> N" using m by blast
    then show "brange a \<inter> brange b = {}"
    proof cases
      case 1 then show ?thesis using d m(3) by (simp add: disjoint_blocks_def)
    next
      case 2 then show ?thesis by (rule sep)
    next
      case 3 then show ?thesis using sep [OF 3(2,1)] by (simp add: Int_commute)
    next
      case 4 then show ?thesis using n(1) m(3) by (simp add: disjoint_blocks_def)
    qed
  qed
  moreover have "\<Union> (brange ` (B - R \<union> N)) = {..<2 ^ k}"
  proof -
    have "\<Union> (brange ` (B - R \<union> N)) = \<Union> (brange ` (B - R)) \<union> \<Union> (brange ` R)" by (simp only: image_Un Union_Un_distrib u)
    also have "\<dots> = \<Union> (brange ` (B - R \<union> R))" by (simp only: image_Un Union_Un_distrib)
    also have "B - R \<union> R = B" using t(2) by blast
    finally show ?thesis using t(1) by (simp add: tiling_def)
  qed
  ultimately show ?thesis using t(1) n(2) by (auto simp: tiling_def)
qed

text \<open>Two halves.\<close>

lemma half_blocks:
  "brange (i, Suc c) = brange (i, c) \<union> brange (i + 2 ^ c, c)" "brange (i, c) \<inter> brange (i + 2 ^ c, c) = {}"
  by (auto simp: brange_def)

lemma tiling_split:
  assumes "tiling k B" "(i, Suc c) \<in> B"
  shows "tiling k (B - {(i, Suc c)} \<union> {(i, c), (i + 2 ^ c, c)})"
proof (rule tiling_replace [OF assms(1)])
  have "aligned (i, Suc c)" using assms by (auto simp: tiling_def)
  then have "2 ^ c dvd i" by (auto simp: aligned_def intro: dvd_mult_right dvd_trans [of "2 ^ c" "2 * 2 ^ c"])
  then show "\<forall>b\<in>{(i, c), (i + 2 ^ c, c)}. aligned b" by (simp add: aligned_def)
qed (use assms half_blocks [of i c] in \<open>auto simp: disjoint_blocks_def\<close>)

lemma brange_upto: "brange (i, p) \<subseteq> {..<m} \<Longrightarrow> i + 2 ^ p \<le> m"
proof -
  assume s: "brange (i, p) \<subseteq> {..<m}"
  have z: "(0 :: nat) < 2 ^ p" by simp
  then have "i + 2 ^ p - 1 \<in> brange (i, p)" unfolding brange_def fst_conv snd_conv by (simp only: atLeastLessThan_iff) linarith
  then have "i + 2 ^ p - 1 < m" using s by blast
  then show ?thesis using z by linarith
qed

lemma tiling_bound: "tiling k B \<Longrightarrow> (i, p) \<in> B \<Longrightarrow> i + 2 ^ p \<le> 2 ^ k \<and> p \<le> k \<and> aligned (i, p)"
proof -
  assume t: "tiling k B" "(i, p) \<in> B"
  then have s: "brange (i, p) \<subseteq> {..<2 ^ k}" unfolding tiling_def by blast
  have b: "i + 2 ^ p \<le> 2 ^ k" using s by (rule brange_upto)
  then have "(2 :: nat) ^ p \<le> 2 ^ k" by linarith
  then have "p \<le> k" by simp
  then show ?thesis using b t by (auto simp: tiling_def)
qed

lemma tiling_unique: "tiling k B \<Longrightarrow> a \<in> B \<Longrightarrow> b \<in> B \<Longrightarrow> x \<in> brange a \<Longrightarrow> x \<in> brange b \<Longrightarrow> a = b"
  unfolding tiling_def disjoint_blocks_def by blast

lemma tiling_cover: "tiling k B \<Longrightarrow> x < 2 ^ k \<Longrightarrow> \<exists>b\<in>B. x \<in> brange b"
  unfolding tiling_def by auto

text \<open>The buddy of a block.\<close>

lemma unset_bit_nat: "bit (i :: nat) p \<Longrightarrow> unset_bit p i = i - 2 ^ p"
proof -
  assume b: "bit i p"
  have "i = set_bit p (unset_bit p i)" using b by (intro bit_eqI) (auto simp: bit_simps)
  also have "\<dots> = unset_bit p i + 2 ^ p" by (simp add: set_bit_eq bit_simps)
  finally show ?thesis by linarith
qed

lemma buddy_idx:
  assumes "aligned (i, p)"
  shows "i XOR 2 ^ p = (if even (i div 2 ^ p) then i + 2 ^ p else i - 2 ^ p)" "\<not> even (i div 2 ^ p) \<Longrightarrow> 2 ^ p \<le> i"
proof -
  have "i XOR 2 ^ p = flip_bit p i" by (simp add: flip_bit_eq_xor push_bit_of_1)
  also have "\<dots> = (if bit i p then unset_bit p i else set_bit p i)" by (simp add: flip_bit_eq_if)
  also have "\<dots> = (if even (i div 2 ^ p) then i + 2 ^ p else i - 2 ^ p)" by (simp add: set_bit_eq unset_bit_nat bit_iff_odd)
  finally show "i XOR 2 ^ p = (if even (i div 2 ^ p) then i + 2 ^ p else i - 2 ^ p)" .
  assume "\<not> even (i div 2 ^ p)"
  then have "i div 2 ^ p > 0" by (cases "i div 2 ^ p") auto
  then show "2 ^ p \<le> i" by (simp add: div_greater_zero_iff)
qed

definition parent_idx :: "nat \<Rightarrow> nat \<Rightarrow> nat" where
  "parent_idx i p = min i (i XOR 2 ^ p)"

lemma buddy_pair:
  assumes a: "aligned (i, p)"
  shows "aligned (i XOR 2 ^ p, p)" "aligned (parent_idx i p, Suc p)"
    "brange (parent_idx i p, Suc p) = brange (i, p) \<union> brange (i XOR 2 ^ p, p)" "brange (i, p) \<inter> brange (i XOR 2 ^ p, p) = {}"
    "(i XOR 2 ^ p) XOR 2 ^ p = i" "parent_idx (i XOR 2 ^ p) p = parent_idx i p" "i XOR 2 ^ p \<noteq> i"
proof -
  obtain q where q: "i = 2 ^ p * q" using a by (auto simp: aligned_def dvd_def)
  have d: "i div 2 ^ p = q" by (simp add: q)
  note b = buddy_idx [OF a, unfolded d]
  show a': "aligned (i XOR 2 ^ p, p)" using a b by (auto simp: aligned_def)
  show x: "(i XOR 2 ^ p) XOR 2 ^ p = i" by (simp add: ac_simps)
  show "parent_idx (i XOR 2 ^ p) p = parent_idx i p" by (simp add: parent_idx_def x min.commute)
  have z: "(0 :: nat) < 2 ^ p" by simp
  show "i XOR 2 ^ p \<noteq> i"
  proof (cases "even q")
    case True then have "i XOR 2 ^ p = i + 2 ^ p" using b by simp
    then show ?thesis using z by linarith
  next
    case False then have "i XOR 2 ^ p = i - 2 ^ p" "2 ^ p \<le> i" using b by simp_all
    then show ?thesis using z by linarith
  qed
  show "aligned (parent_idx i p, Suc p)"
  proof (cases "even q")
    case True
    then have "parent_idx i p = i" using b by (simp add: parent_idx_def)
    moreover have "2 ^ Suc p dvd i" using True by (auto simp: q)
    ultimately show ?thesis by (simp add: aligned_def)
  next
    case False
    then obtain r where r: "q = Suc (2 * r)" by (auto elim: oddE)
    have "parent_idx i p = i - 2 ^ p" using b False by (simp add: parent_idx_def)
    also have "\<dots> = 2 ^ Suc p * r" by (simp add: q r algebra_simps)
    finally show ?thesis by (simp add: aligned_def)
  qed
  show "brange (parent_idx i p, Suc p) = brange (i, p) \<union> brange (i XOR 2 ^ p, p)" "brange (i, p) \<inter> brange (i XOR 2 ^ p, p) = {}"
    using b half_blocks [of i p] half_blocks [of "i - 2 ^ p" p] by (cases "even q"; auto simp: parent_idx_def brange_def)+
qed

lemma tiling_merge:
  assumes t: "tiling k B" "(i, p) \<in> B" "(i XOR 2 ^ p, p) \<in> B"
  shows "tiling k (B - {(i, p), (i XOR 2 ^ p, p)} \<union> {(parent_idx i p, Suc p)})"
proof (rule tiling_replace [OF t(1)])
  have a: "aligned (i, p)" using t by (auto simp: tiling_def)
  show "\<Union> (brange ` {(parent_idx i p, Suc p)}) = \<Union> (brange ` {(i, p), (i XOR 2 ^ p, p)})" using buddy_pair(3) [OF a] by simp
  show "\<forall>b\<in>{(parent_idx i p, Suc p)}. aligned b" using buddy_pair(2) [OF a] by simp
qed (use t in \<open>auto simp: disjoint_blocks_def\<close>)

text \<open>The buddy of a block of a tiling is a block of the tiling, or the start of a smaller one.\<close>

lemma buddy_bound:
  assumes t: "tiling k B" "(i, p) \<in> B" "p < k"
  shows "(i XOR 2 ^ p) + 2 ^ p \<le> 2 ^ k"
proof -
  note b = tiling_bound [OF t(1,2)]
  have "aligned (0, k)" by (simp add: aligned_def)
  moreover have "brange (parent_idx i p, Suc p) \<inter> brange (0, k) \<noteq> {}"
  proof -
    have "i \<in> brange (parent_idx i p, Suc p)" using buddy_pair(3) [of i p] b by simp
    moreover have "0 < (2 :: nat) ^ p" by simp
    then have "i < 2 ^ k" using b by linarith
    then have "i \<in> brange (0, k)" unfolding brange_def by simp
    ultimately show ?thesis by blast
  qed
  ultimately have "brange (parent_idx i p, Suc p) \<subseteq> brange (0, k)"
    using aligned_nested [of "parent_idx i p" "Suc p" 0 k] buddy_pair(2) [of i p] b t(3) by simp
  moreover have "brange (0, k) = {..<2 ^ k}" by (auto simp: brange_def)
  ultimately have "brange (i XOR 2 ^ p, p) \<subseteq> {..<2 ^ k}" using buddy_pair(3) [of i p] b by simp
  then show ?thesis by (rule brange_upto)
qed

lemma buddy_block:
  assumes t: "tiling k B" "(i, p) \<in> B" "p < k"
  shows "\<exists>r\<le>p. (i XOR 2 ^ p, r) \<in> B"
proof -
  let ?b = "i XOR 2 ^ p"
  have a: "aligned (i, p)" using t by (auto simp: tiling_def)
  have "0 < (2 :: nat) ^ p" by simp
  then have "?b < 2 ^ k" using buddy_bound [OF t] by linarith
  then obtain j r where j: "(j, r) \<in> B" "?b \<in> brange (j, r)" using tiling_cover [OF t(1), of ?b] by (metis surj_pair)
  have aj: "aligned (j, r)" using tiling_bound [OF t(1) j(1)] by simp
  show ?thesis
  proof (cases "r \<le> p")
    case True
    then have "?b = j" using aligned_start [OF buddy_pair(1) [OF a] aj True j(2)] by simp
    then show ?thesis using j(1) True by blast
  next
    case False
    have "brange (parent_idx i p, Suc p) \<inter> brange (j, r) \<noteq> {}" using j(2) buddy_pair(3) [OF a] brange_self [of ?b p] by blast
    then have "brange (parent_idx i p, Suc p) \<subseteq> brange (j, r)" using aligned_nested [OF buddy_pair(2) [OF a] aj] False by simp
    then have "i \<in> brange (j, r)" using buddy_pair(3) [OF a] brange_self [of i p] by blast
    then have "(j, r) = (i, p)" using tiling_unique [OF t(1) j(1) t(2)] by simp
    then show ?thesis using False by simp
  qed
qed


section \<open>Orders of requests\<close>

lemma get_order_loop_pow: "n \<le> 2 ^ 63 \<Longrightarrow> (\<forall>j<k. 2 ^ j < n) \<Longrightarrow> k \<le> 63 \<Longrightarrow> \<exists>r\<le>63. get_order_loop n k (2 ^ k) = Some r \<and> n \<le> 2 ^ r \<and> (\<forall>j<r. 2 ^ j < n)"
proof (induction "63 - k" arbitrary: k)
  case 0
  then have "k = 63" by simp
  then have "get_order_loop n k (2 ^ k) = Some k" using 0 by (subst get_order_loop.simps) simp
  then show ?case using 0 \<open>k = 63\<close> by auto
next
  case (Suc d)
  show ?case
  proof (cases "2 ^ k < n")
    case False
    then have "get_order_loop n k (2 ^ k) = Some k" by (subst get_order_loop.simps) simp
    then show ?thesis using Suc.prems False by auto
  next
    case True
    have "(2 :: nat) ^ Suc k \<le> 2 ^ 63" using Suc.hyps(2) by (intro power_increasing) auto
    then have "u64 (2 * 2 ^ k) = 2 ^ Suc k" by (simp add: u64_def)
    then have "get_order_loop n k (2 ^ k) = get_order_loop n (Suc k) (2 ^ Suc k)"
      using True by (subst get_order_loop.simps) simp
    moreover have "\<forall>j<Suc k. 2 ^ j < n" using True Suc.prems(2) by (simp add: less_Suc_eq)
    ultimately show ?thesis using Suc.hyps(1) [of "Suc k"] Suc.hyps(2) Suc.prems(1) by simp
  qed
qed

text \<open>\<open>get_order\<close> returns the least order whose blocks hold the request.\<close>

lemma get_order_least: "n \<le> 2 ^ 63 \<Longrightarrow> \<exists>r\<le>63. get_order n = Some r \<and> n \<le> 2 ^ r \<and> (\<forall>j<r. 2 ^ j < n)"
  using get_order_loop_pow [of n 0] by (simp add: get_order_def)

lemma get_order_small: "n \<le> MAX_BUDDY_PAGES \<Longrightarrow> \<exists>r\<le>15. get_order n = Some r \<and> n \<le> 2 ^ r \<and> (\<forall>j<r. 2 ^ j < n)"
proof -
  assume n: "n \<le> MAX_BUDDY_PAGES"
  then have n': "n \<le> 2 ^ 15" by (simp add: MAX_BUDDY_PAGES_def BUDDY_MAX_ORDER_def)
  then have "n \<le> 2 ^ 63" by simp
  then obtain r where r: "get_order n = Some r" "n \<le> 2 ^ r" "\<forall>j<r. 2 ^ j < n" using get_order_least by blast
  have "r \<le> 15" using r(3) n' by (metis not_le_imp_less linorder_not_less)
  then show ?thesis using r by blast
qed

section \<open>The invariant\<close>

text \<open>
  \<open>F\<close> is the set of free blocks and \<open>A\<close> the set of allocated ones, by index from \<open>buddy_base\<close>; the managed
  region has \<open>2 ^ k\<close> pages.
\<close>

definition free_rep :: "buddy \<Rightarrow> block set \<Rightarrow> bool" where
  "free_rep s F \<longleftrightarrow>
     (\<forall>p. distinct (free_area s p) \<and> set (free_area s p) = (\<lambda>i. buddy_base s + i) ` {i. (i, p) \<in> F} \<and>
          area_free s p = 2 ^ p * length (free_area s p)) \<and>
     (\<forall>i p. (i, p) \<in> F \<longrightarrow> pg_property (bpages s (buddy_base s + i)) \<and> property (bpages s (buddy_base s + i)) = 2 ^ p \<and>
          (\<forall>x\<in>brange (i, p). buddy_order s x = p))"

definition alloc_rep :: "buddy \<Rightarrow> block set \<Rightarrow> bool" where
  "alloc_rep s A \<longleftrightarrow> (\<forall>i p. (i, p) \<in> A \<longrightarrow> \<not> pg_property (bpages s (buddy_base s + i)))"

definition merged :: "nat \<Rightarrow> block set \<Rightarrow> bool" where
  "merged k F \<longleftrightarrow> (\<forall>i p. (i, p) \<in> F \<longrightarrow> p < k \<longrightarrow> (i XOR 2 ^ p, p) \<notin> F)"

text \<open>The merging loop also tests the page after the region, when the whole region has become one block.\<close>

definition end_guard :: "nat \<Rightarrow> buddy \<Rightarrow> bool" where
  "end_guard k s \<longleftrightarrow> k \<le> 15 \<and> \<not> (k < 15 \<and> pg_property (bpages s (buddy_base s + 2 ^ k)) \<and> buddy_order s (2 ^ k) = k)"

definition region :: "nat \<Rightarrow> buddy \<Rightarrow> block set \<Rightarrow> block set \<Rightarrow> bool" where
  "region k s F A \<longleftrightarrow> tiling k (F \<union> A) \<and> F \<inter> A = {} \<and> free_rep s F \<and> alloc_rep s A \<and> merged k F \<and> end_guard k s"

text \<open>Between two steps of an operation one block is in neither of the two sets.\<close>

definition held :: "nat \<Rightarrow> buddy \<Rightarrow> block set \<Rightarrow> block set \<Rightarrow> block \<Rightarrow> bool" where
  "held k s F A h \<longleftrightarrow> tiling k (insert h (F \<union> A)) \<and> F \<inter> A = {} \<and> h \<notin> F \<union> A \<and> free_rep s F \<and> alloc_rep s A \<and> merged k F \<and> end_guard k s"

lemma merged_diff: "merged k F \<Longrightarrow> merged k (F - X)"
  by (simp add: merged_def)

lemma merged_insert:
  assumes "merged k F" "(i XOR 2 ^ p, p) \<notin> F \<or> p = k" "p \<le> k" "aligned (i, p)"
  shows "merged k (insert (i, p) F)"
  unfolding merged_def
proof (intro allI impI)
  fix j q assume j: "(j, q) \<in> insert (i, p) F" "q < k"
  note inv = buddy_pair(5,7) [OF assms(4)]
  show "(j XOR 2 ^ q, q) \<notin> insert (i, p) F"
  proof (cases "(j, q) = (i, p)")
    case True then show ?thesis using assms(2) inv(2) j(2) by simp
  next
    case False
    then have "(j, q) \<in> F" using j by blast
    moreover have "(j XOR 2 ^ q, q) \<noteq> (i, p)"
    proof
      assume e: "(j XOR 2 ^ q, q) = (i, p)"
      then have "i XOR 2 ^ p = (j XOR 2 ^ q) XOR 2 ^ q" by auto
      also have "\<dots> = j" by (simp add: ac_simps)
      finally show False using assms(2) \<open>(j, q) \<in> F\<close> e j(2) by simp
    qed
    ultimately show ?thesis using assms(1) j(2) by (simp add: merged_def)
  qed
qed

text \<open>Counts fit in 32 bits: blocks of one order are disjoint.\<close>

lemma tiling_count:
  assumes t: "tiling k B" and s: "S \<subseteq> B"
  shows "finite S" "(\<Sum>b\<in>S. 2 ^ snd b) = card (\<Union> (brange ` S))" "(\<Sum>b\<in>S. 2 ^ snd b) \<le> (2 :: nat) ^ k"
proof -
  have i: "inj_on brange S" by (rule inj_onI) (metis brange_inj surj_pair)
  have sub: "\<Union> (brange ` S) \<subseteq> {..<2 ^ k}" using t s by (auto simp: tiling_def)
  then have "brange ` S \<subseteq> Pow {..<2 ^ k}" by auto
  then have "finite (brange ` S)" by (rule finite_subset) simp
  then show f: "finite S" using i by (rule finite_imageD)
  have "card (\<Union> (brange ` S)) = (\<Sum>b\<in>S. card (brange b))"
  proof (rule card_UN_disjoint [OF f])
    show "\<forall>b\<in>S. finite (brange b)" by (simp add: brange_def)
    show "\<forall>a\<in>S. \<forall>b\<in>S. a \<noteq> b \<longrightarrow> brange a \<inter> brange b = {}"
      using t s unfolding tiling_def disjoint_blocks_def by (meson subsetD)
  qed
  then show e: "(\<Sum>b\<in>S. 2 ^ snd b) = card (\<Union> (brange ` S))" by (simp add: brange_def)
  show "(\<Sum>b\<in>S. 2 ^ snd b) \<le> (2 :: nat) ^ k" using card_mono [OF _ sub] by (simp add: e)
qed

lemma free_rep_length:
  assumes "free_rep s F"
  shows "length (free_area s p) = card {i. (i, p) \<in> F}"
proof -
  have "length (free_area s p) = card ((\<lambda>i. buddy_base s + i) ` {i. (i, p) \<in> F})"
    using assms by (metis distinct_card free_rep_def)
  also have "\<dots> = card {i. (i, p) \<in> F}" by (rule card_image) (simp add: inj_on_def)
  finally show ?thesis .
qed

lemma order_sum: "(\<Sum>b\<in>(\<lambda>i. (i, p)) ` X. 2 ^ snd b) = (2 :: nat) ^ p * card X"
  by (subst sum.reindex) (auto simp: inj_on_def)

lemma free_rep_bound:
  assumes "tiling k B" "F \<subseteq> B" "free_rep s F"
  shows "area_free s p \<le> 2 ^ k"
proof -
  have "(\<lambda>i. (i, p)) ` {i. (i, p) \<in> F} \<subseteq> B" using assms(2) by auto
  from tiling_count(3) [OF assms(1) this] show ?thesis
    using assms(3) free_rep_length [OF assms(3)] by (simp add: order_sum free_rep_def)
qed


section \<open>Steps\<close>

lemma upd_bpage_simps [simp]:
  "free_area (upd_bpage p f s) = free_area s" "area_free (upd_bpage p f s) = area_free s"
  "buddy_order (upd_bpage p f s) = buddy_order s" "buddy_base (upd_bpage p f s) = buddy_base s"
  "bpages (upd_bpage p f s) = (bpages s)(p := f (bpages s p))"
  by (simp_all add: upd_bpage_def)

lemma area_add_simps [simp]:
  "bpages (area_add p x s) = bpages s" "buddy_order (area_add p x s) = buddy_order s" "buddy_base (area_add p x s) = buddy_base s"
  by (simp_all add: area_add_def)

lemma area_del_simps [simp]:
  "bpages (area_del p x s) = bpages s" "buddy_order (area_del p x s) = buddy_order s" "buddy_base (area_del p x s) = buddy_base s"
  by (simp_all add: area_del_def)

lemma area_counts:
  assumes "k \<le> 15" "tiling k B" "insert (i, p) F \<subseteq> B" "(i, p) \<notin> F"
  shows "2 ^ p * card {j. (j, p) \<in> F} + 2 ^ p \<le> (2 :: nat) ^ 15"
proof -
  have "(\<lambda>j. (j, p)) ` insert i {j. (j, p) \<in> F} \<subseteq> B" using assms(3) by auto
  note c = tiling_count [OF assms(2) this]
  have "finite (insert i {j. (j, p) \<in> F})" using finite_imageD [OF c(1)] by (simp add: inj_on_def)
  then have "card (insert i {j. (j, p) \<in> F}) = Suc (card {j. (j, p) \<in> F})" using assms(4) by simp
  then have "2 ^ p * Suc (card {j. (j, p) \<in> F}) \<le> (2 :: nat) ^ k" using c(3) by (simp only: order_sum)
  also have "\<dots> \<le> 2 ^ 15" using assms(1) by (intro power_increasing) auto
  finally show ?thesis by simp
qed

lemma free_rep_add:
  assumes f: "free_rep s F" and b: "k \<le> 15" "tiling k B" "insert (i, p) F \<subseteq> B" "(i, p) \<notin> F"
    and h: "pg_property (bpages s (buddy_base s + i))" "property (bpages s (buddy_base s + i)) = 2 ^ p" "\<forall>x\<in>brange (i, p). buddy_order s x = p"
  shows "free_rep (area_add p (buddy_base s + i) s) (insert (i, p) F)"
proof -
  let ?s = "area_add p (buddy_base s + i) s"
  have l: "u32 (area_free s p + 2 ^ p) = area_free s p + 2 ^ p"
  proof (rule u32_id)
    have "area_free s p = 2 ^ p * card {j. (j, p) \<in> F}" using f free_rep_length [OF f, of p] by (simp add: free_rep_def)
    then show "area_free s p + 2 ^ p < 2 ^ 32" using area_counts [OF b] by simp
  qed
  have "distinct (free_area ?s q) \<and> set (free_area ?s q) = (\<lambda>j. buddy_base ?s + j) ` {j. (j, q) \<in> insert (i, p) F} \<and> area_free ?s q = 2 ^ q * length (free_area ?s q)" for q
  proof (cases "q = p")
    case False
    then show ?thesis using f by (simp add: free_rep_def area_add_def)
  next
    case True
    have "set (free_area s p) = (\<lambda>j. buddy_base s + j) ` {j. (j, p) \<in> F}" "distinct (free_area s p)" "area_free s p = 2 ^ p * length (free_area s p)"
      using f by (simp_all add: free_rep_def)
    then show ?thesis using True b(4) l by (auto simp: area_add_def)
  qed
  then show ?thesis using f h by (auto simp: free_rep_def)
qed

lemma free_rep_del:
  assumes f: "free_rep s F" and b: "k \<le> 15" "tiling k B" "F \<subseteq> B" "(i, p) \<in> F"
  shows "free_rep (area_del p (buddy_base s + i) s) (F - {(i, p)})"
proof -
  let ?s = "area_del p (buddy_base s + i) s"
  have n: "area_free s p = 2 ^ p * length (free_area s p)" "set (free_area s p) = (\<lambda>j. buddy_base s + j) ` {j. (j, p) \<in> F}" "distinct (free_area s p)"
    using f by (simp_all add: free_rep_def)
  have m: "buddy_base s + i \<in> set (free_area s p)" using b(4) n(2) by simp
  then obtain l where l: "length (free_area s p) = Suc l" by (cases "free_area s p") auto
  have "area_free s p \<le> 2 ^ 15" using free_rep_bound [OF b(2,3) f, of p] power_increasing [OF b(1), of "2 :: nat"] by simp
  then have u: "u32 (area_free s p + 2 ^ 32 - 2 ^ p) = 2 ^ p * l"
    using n(1) by (simp add: l u32_def)
  have "distinct (free_area ?s q) \<and> set (free_area ?s q) = (\<lambda>j. buddy_base ?s + j) ` {j. (j, q) \<in> F - {(i, p)}} \<and> area_free ?s q = 2 ^ q * length (free_area ?s q)" for q
  proof (cases "q = p")
    case False
    then show ?thesis using f by (simp add: free_rep_def area_del_def)
  next
    case True
    then show ?thesis using n m u l by (auto simp: area_del_def length_remove1 set_remove1_eq)
  qed
  then show ?thesis using f by (auto simp: free_rep_def)
qed

text \<open>Writing outside of the free blocks.\<close>

lemma free_rep_upd_bpage:
  "free_rep s F \<Longrightarrow> (\<And>p. (i, p) \<notin> F) \<Longrightarrow> free_rep (upd_bpage (buddy_base s + i) f s) F"
  unfolding free_rep_def by (auto split: if_splits)

lemma set_orders_ok: "first + cnt \<le> 2 ^ 15 \<Longrightarrow>
    set_orders first cnt p s = Some (s\<lparr>buddy_order := (\<lambda>i. if first \<le> i \<and> i < first + cnt then p else buddy_order s i)\<rparr>)"
  by (simp add: set_orders_def MAX_BUDDY_PAGES_def BUDDY_MAX_ORDER_def)

definition orders_set :: "block \<Rightarrow> buddy \<Rightarrow> buddy" where
  "orders_set b s = s\<lparr>buddy_order := (\<lambda>x. if x \<in> brange b then snd b else buddy_order s x)\<rparr>"

lemma orders_set_simps [simp]:
  "free_area (orders_set b s) = free_area s" "area_free (orders_set b s) = area_free s" "bpages (orders_set b s) = bpages s"
  "buddy_base (orders_set b s) = buddy_base s" "buddy_order (orders_set b s) x = (if x \<in> brange b then snd b else buddy_order s x)"
  by (simp_all add: orders_set_def)

lemma set_orders_block: "i + 2 ^ p \<le> 2 ^ 15 \<Longrightarrow> set_orders i (2 ^ p) p s = Some (orders_set (i, p) s)"
  by (simp add: set_orders_ok orders_set_def brange_def cong: if_cong)

lemma free_rep_orders:
  "free_rep s F \<Longrightarrow> (\<And>f. f \<in> F \<Longrightarrow> brange b \<inter> brange f = {}) \<Longrightarrow> free_rep (orders_set b s) F"
  unfolding free_rep_def by (auto simp: disjoint_iff)


lemma held_bounds:
  assumes "held k s F A (i, p)"
  shows "i + 2 ^ p \<le> 2 ^ k" "p \<le> k" "aligned (i, p)" "k \<le> 15" "i + 2 ^ p \<le> 2 ^ 15"
proof -
  have t: "tiling k (insert (i, p) (F \<union> A))" "k \<le> 15" using assms by (simp_all add: held_def end_guard_def)
  show b: "i + 2 ^ p \<le> 2 ^ k" "p \<le> k" "aligned (i, p)" using tiling_bound [OF t(1)] by auto
  show "k \<le> 15" by (rule t(2))
  show "i + 2 ^ p \<le> 2 ^ 15" using b(1) power_increasing [OF t(2), of "2 :: nat"] by simp
qed

lemma held_sep:
  assumes "held k s F A h" "b \<in> F \<union> A"
  shows "brange h \<inter> brange b = {}"
  using assms unfolding held_def tiling_def disjoint_blocks_def by (metis insertCI)

lemma held_start:
  assumes "held k s F A h" "x \<in> brange h"
  shows "(x, q) \<notin> F \<union> A"
  using held_sep [OF assms(1), of "(x, q)"] assms(2) brange_self [of x q] by blast

text \<open>Writing to the pages and the orders of the block that is held.\<close>

lemma held_upd:
  assumes "held k s F A h" "i \<in> brange h" "i < 2 ^ k"
  shows "held k (upd_bpage (buddy_base s + i) f s) F A h"
proof -
  have n: "(i, q) \<notin> F" "(i, q) \<notin> A" for q using held_start [OF assms(1,2)] by blast+
  have "free_rep (upd_bpage (buddy_base s + i) f s) F" using assms(1) n(1) by (intro free_rep_upd_bpage) (simp_all add: held_def)
  moreover have "alloc_rep (upd_bpage (buddy_base s + i) f s) A" using assms(1) n(2) by (auto simp: held_def alloc_rep_def)
  moreover have "end_guard k (upd_bpage (buddy_base s + i) f s)" using assms(1,3) by (auto simp: held_def end_guard_def)
  ultimately show ?thesis using assms(1) by (simp add: held_def)
qed

lemma held_orders:
  assumes "held k s F A h" "brange b \<subseteq> brange h" "brange h \<subseteq> {..<2 ^ k}"
  shows "held k (orders_set b s) F A h"
proof -
  have "free_rep (orders_set b s) F"
  proof (rule free_rep_orders)
    show "brange b \<inter> brange f = {}" if "f \<in> F" for f using held_sep [OF assms(1), of f] that assms(2) by blast
  qed (use assms(1) in \<open>simp add: held_def\<close>)
  moreover have "alloc_rep (orders_set b s) A" using assms(1) by (simp add: held_def alloc_rep_def)
  moreover have "2 ^ k \<notin> brange b" using assms(2,3) by auto
  then have "end_guard k (orders_set b s)" using assms(1) by (simp add: held_def end_guard_def)
  ultimately show ?thesis using assms(1) by (simp add: held_def)
qed

lemma held_range: "held k s F A h \<Longrightarrow> brange h \<subseteq> {..<2 ^ k}"
  unfolding held_def tiling_def by blast

lemma brange_zero_less: "x \<in> brange h \<Longrightarrow> brange h \<subseteq> {..<m} \<Longrightarrow> x < m"
  by blast

text \<open>Taking a block from a free list, and putting the held block there.\<close>

lemma held_take:
  assumes r: "region k s F A" and b: "b = (i, p)" "b \<in> F"
  shows "held k (area_del p (buddy_base s + i) s) (F - {b}) A b"
proof -
  let ?s = "area_del p (buddy_base s + i) s"
  have t: "tiling k (F \<union> A)" "F \<inter> A = {}" "free_rep s F" "k \<le> 15" using r by (simp_all add: region_def end_guard_def)
  have "free_rep ?s (F - {b})" using free_rep_del [OF t(3,4,1)] b by simp
  moreover have "insert b (F - {b} \<union> A) = F \<union> A" using b(2) by blast
  moreover have "b \<notin> A" using b(2) t(2) by blast
  moreover have "merged k (F - {b})" using r by (simp add: region_def merged_diff)
  ultimately show ?thesis using r t unfolding held_def by (auto simp: region_def alloc_rep_def end_guard_def)
qed

lemma held_put:
  assumes h: "held k s F A (i, p)" and b: "(i XOR 2 ^ p, p) \<notin> F \<or> p = k"
    and m: "pg_property (bpages s (buddy_base s + i))" "property (bpages s (buddy_base s + i)) = 2 ^ p" "\<forall>x\<in>brange (i, p). buddy_order s x = p"
  shows "region k (area_add p (buddy_base s + i) s) (insert (i, p) F) A"
proof -
  let ?s = "area_add p (buddy_base s + i) s"
  note hb = held_bounds [OF h]
  have t: "tiling k (insert (i, p) (F \<union> A))" "free_rep s F" "(i, p) \<notin> F" using h by (simp_all add: held_def)
  have "insert (i, p) F \<subseteq> insert (i, p) (F \<union> A)" by blast
  then have "free_rep ?s (insert (i, p) F)" using free_rep_add [OF t(2) hb(4) t(1) _ t(3) m] by blast
  moreover have "merged k (insert (i, p) F)" using h b hb by (intro merged_insert) (simp_all add: held_def)
  ultimately show ?thesis using h unfolding region_def by (auto simp: held_def alloc_rep_def end_guard_def)
qed

text \<open>Giving the held block to the caller, and taking it back.\<close>

lemma held_give:
  assumes h: "held k s F A (i, p)" and f: "\<not> pg_property (f (bpages s (buddy_base s + i)))"
  shows "region k (upd_bpage (buddy_base s + i) f s) F (insert (i, p) A)"
proof -
  have "i < 2 ^ k" using held_range [OF h] brange_self [of i p] by blast
  then have h': "held k (upd_bpage (buddy_base s + i) f s) F A (i, p)" by (intro held_upd [OF h]) simp_all
  moreover have "alloc_rep (upd_bpage (buddy_base s + i) f s) (insert (i, p) A)"
    using h' f by (auto simp: held_def alloc_rep_def)
  ultimately show ?thesis unfolding region_def by (auto simp: held_def)
qed

lemma region_hold:
  assumes r: "region k s F A" and a: "(i, p) \<in> A"
  shows "held k s F (A - {(i, p)}) (i, p)"
proof -
  have "insert (i, p) (F \<union> (A - {(i, p)})) = F \<union> A" using a by blast
  then show ?thesis using r a unfolding held_def by (auto simp: region_def alloc_rep_def)
qed


section \<open>Allocation\<close>

lemma held_split:
  assumes h: "held k s F A (i, Suc c)"
    and m: "pg_property (bpages s (buddy_base s + (i + 2 ^ c)))" "property (bpages s (buddy_base s + (i + 2 ^ c))) = 2 ^ c"
      "\<forall>x\<in>brange (i + 2 ^ c, c). buddy_order s x = c"
  shows "held k (area_add c (buddy_base s + (i + 2 ^ c)) s) (insert (i + 2 ^ c, c) F) A (i, c)"
proof -
  let ?h = "(i, Suc c)" and ?l = "(i, c)" and ?r = "(i + 2 ^ c, c)"
  let ?s = "area_add c (buddy_base s + (i + 2 ^ c)) s"
  note hb = held_bounds [OF h]
  have t: "tiling k (insert ?h (F \<union> A))" "free_rep s F" "?h \<notin> F \<union> A" using h by (simp_all add: held_def)
  have n: "?l \<notin> F \<union> A" "?r \<notin> F \<union> A" by (rule held_start [OF h], simp add: brange_def)+
  have e: "insert ?h (F \<union> A) - {?h} \<union> {?l, ?r} = insert ?l (insert ?r F \<union> A)" using t(3) by auto
  have t': "tiling k (insert ?l (insert ?r F \<union> A))" using tiling_split [OF t(1), of i c] by (simp only: e insertI1)
  have z: "(0 :: nat) < 2 ^ c" by simp
  then have d: "?l \<noteq> ?r" by simp
  have al: "aligned ?r" "aligned ?l" using t' by (simp_all add: tiling_def)
  have fr: "free_rep ?s (insert ?r F)"
    by (rule free_rep_add [OF t(2) hb(4) t' _ _ m]) (use n in auto)
  have "even (i div 2 ^ c)" using hb(3) by (auto simp: aligned_def dvd_def mult.assoc)
  then have "i XOR 2 ^ c = i + 2 ^ c" using buddy_idx(1) [OF al(2)] by simp
  then have "(i + 2 ^ c) XOR 2 ^ c = i" using buddy_pair(5) [OF al(2)] by simp
  then have "merged k (insert ?r F)" using h n hb al by (intro merged_insert) (simp_all add: held_def)
  then show ?thesis using h t' fr n d unfolding held_def by (auto simp: alloc_rep_def end_guard_def)
qed

lemma split_loop_ok:
  assumes "held k s F A (i, c)" "r \<le> c"
  shows "\<exists>s' F'. split_loop (buddy_base s + i) r c s = Some s' \<and> held k s' F' A (i, r) \<and> buddy_base s' = buddy_base s"
  using assms
proof (induction c arbitrary: s F)
  case 0
  then show ?case by auto
next
  case (Suc c)
  show ?case
  proof (cases "Suc c > r")
    case False
    then have "r = Suc c" using Suc.prems(2) by simp
    then show ?thesis using Suc.prems(1) by auto
  next
    case True
    let ?b = "i + 2 ^ c" and ?f = "\<lambda>p :: Page. p\<lparr>property := 2 ^ c, pg_property := True\<rparr>"
    let ?s1 = "upd_bpage (buddy_base s + ?b) ?f s"
    let ?s2 = "orders_set (?b, c) ?s1"
    let ?s3 = "area_add c (buddy_base s + ?b) ?s2"
    note hr = held_range [OF Suc.prems(1)]
    have "?b \<in> brange (i, Suc c)" using half_blocks(1) [of i c] by simp
    then have h1: "held k ?s1 F A (i, Suc c)" using hr by (intro held_upd [OF Suc.prems(1)]) blast+
    have h2: "held k ?s2 F A (i, Suc c)" using half_blocks(1) [of i c] hr by (intro held_orders [OF h1]) simp_all
    have h3: "held k ?s3 (insert (?b, c) F) A (i, c)" using held_split [OF h2] by (simp add: ac_simps)
    have o: "set_orders ?b (2 ^ c) c ?s1 = Some ?s2" using held_bounds(5) [OF Suc.prems(1)] by (intro set_orders_block) simp
    have "\<exists>s' F'. split_loop (buddy_base ?s3 + i) r c ?s3 = Some s' \<and> held k s' F' A (i, r) \<and> buddy_base s' = buddy_base ?s3"
      using True by (intro Suc.IH [OF h3]) simp
    then show ?thesis using True o by (simp add: ac_simps Let_def)
  qed
qed

lemma region_lists:
  assumes "region k s F A"
  shows "p \<in> set (free_area s c) \<longleftrightarrow> (\<exists>i. p = buddy_base s + i \<and> (i, c) \<in> F)" "free_area s c \<noteq> [] \<longleftrightarrow> (\<exists>i. (i, c) \<in> F)"
proof -
  have f: "set (free_area s c) = (\<lambda>i. buddy_base s + i) ` {i. (i, c) \<in> F}" using assms by (simp add: region_def free_rep_def)
  then show "p \<in> set (free_area s c) \<longleftrightarrow> (\<exists>i. p = buddy_base s + i \<and> (i, c) \<in> F)" by auto
  have "free_area s c \<noteq> [] \<longleftrightarrow> set (free_area s c) \<noteq> {}" by simp
  then show "free_area s c \<noteq> [] \<longleftrightarrow> (\<exists>i. (i, c) \<in> F)" using f by auto
qed

lemma region_bounds: "region k s F A \<Longrightarrow> (i, p) \<in> F \<union> A \<Longrightarrow> i + 2 ^ p \<le> 2 ^ k \<and> p \<le> k \<and> k \<le> 15 \<and> aligned (i, p)"
  using tiling_bound [of k "F \<union> A" i p] by (simp add: region_def end_guard_def)

text \<open>The outcome of an allocation: a block of the least order that holds the request, or no free block is large enough.\<close>

lemma buddy_alloc_outcome:
  assumes r: "region k s F A" and n: "0 < n"
  shows "(buddy_alloc_pages n s = Some (None, s) \<and> (\<forall>i p. (i, p) \<in> F \<longrightarrow> 2 ^ p < n)) \<or>
    (\<exists>i q s' F'. buddy_alloc_pages n s = Some (Some (buddy_base s + i), s') \<and> get_order n = Some q \<and> (i, q) \<notin> A \<and>
       region k s' F' (insert (i, q) A) \<and> buddy_base s' = buddy_base s)"
proof (cases "n > MAX_BUDDY_PAGES")
  case True
  have "2 ^ p < n" if "(i, p) \<in> F" for i p
  proof -
    have "p \<le> 15" using region_bounds [OF r, of i p] that by simp
    then have "(2 :: nat) ^ p \<le> 2 ^ 15" by (intro power_increasing) simp_all
    then show ?thesis using True by (simp add: MAX_BUDDY_PAGES_def BUDDY_MAX_ORDER_def)
  qed
  then show ?thesis using True n by (auto simp: buddy_alloc_pages_def)
next
  case False
  then obtain q where q: "q \<le> 15" "get_order n = Some q" "n \<le> 2 ^ q" "\<forall>j<q. 2 ^ j < n" using get_order_small by (metis not_le_imp_less)
  show ?thesis
  proof (cases "List.find (\<lambda>c. free_area s c \<noteq> []) [q..<BUDDY_MAX_ORDER + 1]")
    case None
    have "2 ^ p < n" if m: "(i, p) \<in> F" for i p
    proof -
      have "free_area s p \<noteq> []" "p \<le> 15" using region_lists(2) [OF r, of p] region_bounds [OF r, of i p] m by auto
      moreover have "p \<notin> set [q..<16] \<or> free_area s p = []" using None unfolding find_None_iff by (auto simp: BUDDY_MAX_ORDER_def)
      ultimately have "p < q" by auto
      then show ?thesis using q(4) by simp
    qed
    then show ?thesis using False None n q(2) by (simp add: buddy_alloc_pages_def)
  next
    case (Some c)
    have c: "free_area s c \<noteq> []" "c \<in> set [q..<BUDDY_MAX_ORDER + 1]"
      using find_SomeD [OF Some] by simp_all
    then have qc: "q \<le> c" by auto
    have "hd (free_area s c) \<in> set (free_area s c)" using c(1) by simp
    then obtain i where i: "hd (free_area s c) = buddy_base s + i" "(i, c) \<in> F" using region_lists(1) [OF r] by blast
    let ?s = "area_del c (buddy_base s + i) s"
    have h: "held k ?s (F - {(i, c)}) A (i, c)" by (rule held_take [OF r refl i(2)])
    obtain s' F' where s': "split_loop (buddy_base s + i) q c ?s = Some s'" "held k s' F' A (i, q)" "buddy_base s' = buddy_base s"
      using split_loop_ok [OF h qc] by auto
    let ?s' = "upd_bpage (buddy_base s + i) (\<lambda>p. p\<lparr>pg_property := False, property := u32 n\<rparr>) s'"
    have "region k ?s' F' (insert (i, q) A)" using held_give [OF s'(2), of "\<lambda>p. p\<lparr>pg_property := False, property := u32 n\<rparr>"] s'(3) by simp
    moreover have "buddy_alloc_pages n s = Some (Some (buddy_base s + i), ?s')"
      using False n q(2) Some s'(1) i(1) by (simp add: buddy_alloc_pages_def Let_def)
    moreover have "(i, q) \<notin> A" using s'(2) by (simp add: held_def)
    ultimately show ?thesis using q(2) s'(3) by (metis upd_bpage_simps(4))
  qed
qed


section \<open>Release\<close>

text \<open>The test of the merging loop holds exactly when the buddy is a free block of the same order.\<close>

lemma merge_test:
  assumes h: "held k s F A (i, p)" and p: "p < 15"
  shows "pg_property (bpages s (buddy_base s + (i XOR 2 ^ p))) \<and> buddy_order s (i XOR 2 ^ p) = p \<longleftrightarrow> p < k \<and> (i XOR 2 ^ p, p) \<in> F"
proof (cases "p < k")
  case True
  let ?b = "i XOR 2 ^ p"
  note hb = held_bounds [OF h]
  have t: "tiling k (insert (i, p) (F \<union> A))" and fr: "free_rep s F" and ar: "alloc_rep s A" using h by (simp_all add: held_def)
  obtain r where r: "r \<le> p" "(?b, r) \<in> insert (i, p) (F \<union> A)" using buddy_block [OF t insertI1 True] by blast
  have "?b \<noteq> i" by (rule buddy_pair(7) [OF hb(3)])
  then have r': "(?b, r) \<in> F \<union> A" using r(2) by blast
  have u: "q = r" if "(?b, q) \<in> F \<union> A" for q
    using tiling_unique [OF t, of "(?b, q)" "(?b, r)" ?b] that r' by simp
  show ?thesis
  proof (cases "(?b, r) \<in> F")
    case f: True
    then have "pg_property (bpages s (buddy_base s + ?b))" "buddy_order s ?b = r" using fr by (auto simp: free_rep_def)
    moreover have "r = p \<longleftrightarrow> (?b, p) \<in> F" using u [of p] f by blast
    ultimately show ?thesis using True by simp
  next
    case f: False
    then have "\<not> pg_property (bpages s (buddy_base s + ?b))" using ar r' by (auto simp: alloc_rep_def)
    then show ?thesis using u f by auto
  qed
next
  case False
  note hb = held_bounds [OF h]
  then have e: "p = k" "i = 0" using False by simp_all
  then have "i XOR 2 ^ p = 2 ^ k" by simp
  then show ?thesis using h p e by (auto simp: held_def end_guard_def)
qed

definition ready :: "buddy \<Rightarrow> block \<Rightarrow> bool" where
  "ready s h \<longleftrightarrow> pg_property (bpages s (buddy_base s + fst h)) \<and> property (bpages s (buddy_base s + fst h)) = 2 ^ snd h \<and> (\<forall>x\<in>brange h. buddy_order s x = snd h)"

lemma held_merge:
  assumes h: "held k s F A (i, p)" and b: "(i XOR 2 ^ p, p) \<in> F"
  shows "held k (area_del p (buddy_base s + (i XOR 2 ^ p)) s) (F - {(i XOR 2 ^ p, p)}) A (parent_idx i p, Suc p)"
proof -
  let ?b = "i XOR 2 ^ p" and ?P = "(parent_idx i p, Suc p)"
  note hb = held_bounds [OF h] and bp = buddy_pair [OF held_bounds(3) [OF h]]
  have t: "tiling k (insert (i, p) (F \<union> A))" "free_rep s F" "(i, p) \<notin> F \<union> A" "F \<inter> A = {}" using h by (simp_all add: held_def)
  have s: "F \<subseteq> insert (i, p) (F \<union> A)" by blast
  have ba: "(?b, p) \<notin> A" using b t(4) by blast
  have P: "?P \<notin> F \<union> A"
  proof
    assume "?P \<in> F \<union> A"
    from held_sep [OF h this] have "brange (i, p) \<inter> (brange (i, p) \<union> brange (?b, p)) = {}" by (simp only: bp(3))
    then show False using brange_self [of i p] by blast
  qed
  have "insert (i, p) (F \<union> A) - {(i, p), (?b, p)} \<union> {?P} = insert ?P ((F - {(?b, p)}) \<union> A)" using t(3) ba by auto
  then have "tiling k (insert ?P ((F - {(?b, p)}) \<union> A))" using tiling_merge [OF t(1), of i p] b by simp
  moreover have "free_rep (area_del p (buddy_base s + ?b) s) (F - {(?b, p)})" by (rule free_rep_del [OF t(2) hb(4) t(1) s b])
  ultimately show ?thesis using h P unfolding held_def by (auto simp: alloc_rep_def end_guard_def merged_diff)
qed

lemma merge_loop_ok:
  assumes "held k s F A (i, p)" "ready s (i, p)" "p + d = 15"
  shows "\<exists>p' i' s' F'. merge_loop d p i s = Some (p', i', s') \<and> held k s' F' A (i', p') \<and> ready s' (i', p') \<and>
    ((i' XOR 2 ^ p', p') \<notin> F' \<or> p' = k) \<and> buddy_base s' = buddy_base s"
  using assms
proof (induction d arbitrary: s F i p)
  case 0
  then have "p = k" using held_bounds [OF 0(1)] by simp
  then show ?case using 0 by auto
next
  case (Suc d)
  let ?b = "i XOR 2 ^ p"
  note test = merge_test [OF Suc.prems(1)]
  show ?case
  proof (cases "p < k \<and> (?b, p) \<in> F")
    case False
    then have "merge_loop (Suc d) p i s = Some (p, i, s)" using test Suc.prems(3) by auto
    then show ?thesis using False Suc.prems held_bounds(2) [OF Suc.prems(1)] by fastforce
  next
    case True
    let ?i = "parent_idx i p" and ?f = "\<lambda>x :: Page. x\<lparr>property := 2 ^ Suc p\<rparr>"
    let ?s1 = "area_del p (buddy_base s + ?b) s"
    let ?s2 = "upd_bpage (buddy_base s + ?i) ?f ?s1"
    let ?s3 = "orders_set (?i, Suc p) ?s2"
    have h1: "held k ?s1 (F - {(?b, p)}) A (?i, Suc p)" using held_merge [OF Suc.prems(1)] True by blast
    note hr = held_range [OF h1] and hb = held_bounds [OF h1]
    have h2: "held k ?s2 (F - {(?b, p)}) A (?i, Suc p)"
      using held_upd [OF h1 brange_self, of ?f] brange_zero_less [OF brange_self hr] by simp
    have h3: "held k ?s3 (F - {(?b, p)}) A (?i, Suc p)" by (rule held_orders [OF h2 order_refl hr])
    have "free_rep s F" using Suc.prems(1) by (simp add: held_def)
    then have "pg_property (bpages s (buddy_base s + ?b))" "pg_property (bpages s (buddy_base s + i))"
      using True Suc.prems(2) by (auto simp: free_rep_def ready_def)
    then have "pg_property (bpages s (buddy_base s + ?i))" by (simp add: parent_idx_def min_def)
    then have rd: "ready ?s3 (?i, Suc p)" by (simp add: ready_def)
    have o: "set_orders ?i (2 ^ Suc p) (Suc p) ?s2 = Some ?s3" using hb(5) by (intro set_orders_block) simp
    have m: "(if i > ?b then ?b else i) = ?i" by (simp add: parent_idx_def min_def)
    have "merge_loop (Suc d) p i s = merge_loop d (Suc p) ?i ?s3"
      using True test Suc.prems(3) o by (simp add: Let_def m)
    then show ?thesis using Suc.IH [OF h3 rd] Suc.prems(3) by simp
  qed
qed

lemma buddy_free_region:
  assumes r: "region k s F A" and a: "(i, p) \<in> A" and n: "0 < n" "get_order n = Some p"
  shows "\<exists>s' F'. buddy_free_pages (buddy_base s + i) n s = Some s' \<and> region k s' F' (A - {(i, p)}) \<and> buddy_base s' = buddy_base s"
proof -
  let ?f = "\<lambda>x :: Page. x\<lparr>pg_property := True, property := 2 ^ p\<rparr>"
  let ?s1 = "upd_bpage (buddy_base s + i) ?f s"
  let ?s2 = "orders_set (i, p) ?s1"
  have h: "held k s F (A - {(i, p)}) (i, p)" by (rule region_hold [OF r a])
  note hr = held_range [OF h] and hb = held_bounds [OF h]
  have h1: "held k ?s1 F (A - {(i, p)}) (i, p)" by (rule held_upd [OF h brange_self brange_zero_less [OF brange_self hr]])
  have h2: "held k ?s2 F (A - {(i, p)}) (i, p)" by (rule held_orders [OF h1 order_refl hr])
  have "ready ?s2 (i, p)" by (simp add: ready_def)
  moreover have "p + (BUDDY_MAX_ORDER - p) = 15" using hb by (simp add: BUDDY_MAX_ORDER_def)
  ultimately obtain p' i' s' F' where m: "merge_loop (BUDDY_MAX_ORDER - p) p i ?s2 = Some (p', i', s')" "held k s' F' (A - {(i, p)}) (i', p')"
      "ready s' (i', p')" "(i' XOR 2 ^ p', p') \<notin> F' \<or> p' = k" "buddy_base s' = buddy_base s"
    using merge_loop_ok [OF h2] by fastforce
  have o: "set_orders i (2 ^ p) p ?s1 = Some ?s2" using hb(5) by (rule set_orders_block)
  have "region k (area_add p' (buddy_base s' + i') s') (insert (i', p') F') (A - {(i, p)})"
    using held_put [OF m(2,4)] m(3) by (simp add: ready_def)
  moreover have "buddy_free_pages (buddy_base s + i) n s = Some (area_add p' (buddy_base s' + i') s')"
    using n o m(1) by (simp add: buddy_free_pages_def)
  ultimately show ?thesis using m(5) by (metis area_add_simps(3))
qed


section \<open>Coalescing is complete\<close>

text \<open>Every aligned run of free pages lies within one free block.\<close>

lemma merged_run:
  assumes t: "tiling k B" and f: "F \<subseteq> B" "merged k F"
    and x: "aligned (i, p)" "p \<le> k" "brange (i, p) \<subseteq> \<Union> (brange ` F)"
  shows "\<exists>b\<in>F. brange (i, p) \<subseteq> brange b"
  using x
proof (induction p arbitrary: i)
  case 0
  then show ?case by (auto simp: brange_def)
next
  case (Suc p)
  have al: "aligned (i, p)" "even (i div 2 ^ p)" using Suc.prems(1) by (auto simp: aligned_def dvd_def mult.assoc)
  have b: "i XOR 2 ^ p = i + 2 ^ p" using buddy_idx(1) [OF al(1)] al(2) by simp
  then have al': "aligned (i + 2 ^ p, p)" using buddy_pair(1) [OF al(1)] by simp
  note hf = half_blocks(1) [of i p]
  obtain u where u: "u \<in> F" "brange (i, p) \<subseteq> brange u" using Suc.IH [OF al(1)] Suc.prems(2,3) hf by auto
  obtain v where v: "v \<in> F" "brange (i + 2 ^ p, p) \<subseteq> brange v" using Suc.IH [OF al'] Suc.prems(2,3) hf by auto
  have grow: "brange (i, Suc p) \<subseteq> brange w \<or> (brange w = brange (j, p) \<and> w = (j, p))"
    if w: "w \<in> F" "brange (j, p) \<subseteq> brange w" and j: "aligned (j, p)" "brange (j, p) \<subseteq> brange (i, Suc p)" for w j
  proof -
    obtain a q where e: "w = (a, q)" by (cases w)
    have "aligned (a, q)" using t f(1) w(1) e by (auto simp: tiling_def)
    show ?thesis
    proof (cases "Suc p \<le> q")
      case True
      then show ?thesis using aligned_nested [OF Suc.prems(1) \<open>aligned (a, q)\<close> True] w(2) j(2) e brange_self [of j p] by blast
    next
      case False
      then have "q \<le> p" by simp
      have "brange (a, q) \<inter> brange (j, p) \<noteq> {}" using w(2) e brange_self [of j p] by blast
      then have "brange (a, q) \<subseteq> brange (j, p)" by (rule aligned_nested [OF \<open>aligned (a, q)\<close> j(1) \<open>q \<le> p\<close>])
      then have "brange w = brange (j, p)" using w(2) e by blast
      then show ?thesis using brange_inj [of a q j p] e by simp
    qed
  qed
  have "brange (i, p) \<subseteq> brange (i, Suc p)" "brange (i + 2 ^ p, p) \<subseteq> brange (i, Suc p)" using hf by auto
  then consider "brange (i, Suc p) \<subseteq> brange u" | "brange (i, Suc p) \<subseteq> brange v" | "u = (i, p)" "v = (i + 2 ^ p, p)"
    using grow [OF u al(1)] grow [OF v al'] by blast
  then show ?case
  proof cases
    case 3
    then have "(i, p) \<in> F" "(i XOR 2 ^ p, p) \<in> F" "p < k" using u v b Suc.prems(2) by auto
    then show ?thesis using f(2) by (auto simp: merged_def)
  qed (use u v in blast)+
qed

lemma region_free_pages:
  assumes "region k s F A"
  shows "\<Union> (brange ` F) = {..<2 ^ k} - \<Union> (brange ` A)"
proof -
  have t: "tiling k (F \<union> A)" "F \<inter> A = {}" using assms by (simp_all add: region_def)
  then have "\<Union> (brange ` F) \<union> \<Union> (brange ` A) = {..<2 ^ k}" unfolding tiling_def by (simp add: image_Un)
  moreover have "\<Union> (brange ` F) \<inter> \<Union> (brange ` A) = {}"
  proof -
    have "brange a \<inter> brange b = {}" if "a \<in> F" "b \<in> A" for a b
      using t that unfolding tiling_def disjoint_blocks_def by (metis UnI1 UnI2 disjoint_iff)
    then show ?thesis by (auto simp: disjoint_iff)
  qed
  ultimately show ?thesis by blast
qed

text \<open>The free blocks are determined by the allocated ones.\<close>

lemma region_subset:
  assumes r: "region k s F A" "region k s' F' A"
  shows "F \<subseteq> F'"
proof
  fix b assume b: "b \<in> F"
  have run: "\<exists>c\<in>G. brange a \<subseteq> brange c" if "region k u G A" "region k u' H A" "a \<in> H" for u u' G H a
  proof (cases a)
    case (Pair i p)
    have "tiling k (G \<union> A)" "merged k G" using that(1) by (simp_all add: region_def)
    moreover have "aligned (i, p)" "p \<le> k" using region_bounds [OF that(2), of i p] that(3) Pair by simp_all
    moreover have "brange (i, p) \<subseteq> \<Union> (brange ` G)" using region_free_pages [OF that(1)] region_free_pages [OF that(2)] that(3) Pair by blast
    ultimately show ?thesis using merged_run [of k "G \<union> A" G i p] Pair by simp
  qed
  obtain c where c: "c \<in> F'" "brange b \<subseteq> brange c" using run [OF r(2,1) b] by blast
  obtain d where d: "d \<in> F" "brange c \<subseteq> brange d" using run [OF r(1,2) c(1)] by blast
  have "fst b \<in> brange b" by (simp add: brange_def)
  then have "b = d" using tiling_unique [of k "F \<union> A" b d "fst b"] r(1) b c(2) d by (auto simp: region_def)
  then have "brange b = brange c" using c(2) d(2) by blast
  then have "b = c" by (metis brange_inj surj_pair)
  then show "b \<in> F'" using c(1) by simp
qed

lemma region_empty:
  assumes "region k s F {}"
  shows "F = {(0, k)}"
proof -
  have t: "tiling k F" "merged k F" using assms by (simp_all add: region_def)
  have "aligned (0, k)" by (simp add: aligned_def)
  moreover have "brange (0, k) \<subseteq> \<Union> (brange ` F)" using t(1) by (auto simp: tiling_def brange_def)
  ultimately obtain b where b: "b \<in> F" "brange (0, k) \<subseteq> brange b" using merged_run [OF t(1) order_refl t(2)] by blast
  have w: "brange (0, k) = {..<2 ^ k}" by (auto simp: brange_def)
  then have "brange b = brange (0, k)" using b t(1) by (auto simp: tiling_def)
  then have "b = (0, k)" by (metis brange_inj surj_pair)
  moreover have "c = b" if "c \<in> F" for c
  proof -
    have "fst c \<in> brange c" by (simp add: brange_def)
    moreover have "brange c \<subseteq> {..<2 ^ k}" using t(1) that by (auto simp: tiling_def)
    ultimately have "fst c \<in> brange b" using b(2) w by blast
    then show ?thesis using tiling_unique [OF t(1) that b(1)] \<open>fst c \<in> brange c\<close> by blast
  qed
  ultimately show ?thesis using b(1) by blast
qed

section \<open>Counting\<close>

lemma sum_list_upt: "(\<Sum>i\<leftarrow>[0..<n]. f i) = (\<Sum>i<n. f i :: nat)"
  by (simp add: interv_sum_list_conv_sum_set_nat lessThan_atLeast0)

lemma region_count:
  assumes r: "region k s F A"
  shows "buddy_nr_free_pages s + (\<Sum>b\<in>A. 2 ^ snd b) = 2 ^ k"
proof -
  have t: "tiling k (F \<union> A)" "free_rep s F" "F \<inter> A = {}" using r by (simp_all add: region_def)
  have fin: "finite F" "finite A" using tiling_count(1) [OF t(1) order_refl] by simp_all
  have o: "snd b \<in> {..<16}" if "b \<in> F" for b using region_bounds [OF r, of "fst b" "snd b"] that by auto
  have "area_free s p = (\<Sum>b\<in>{b \<in> F. snd b = p}. 2 ^ snd b)" for p
  proof -
    have "{b \<in> F. snd b = p} = (\<lambda>i. (i, p)) ` {i. (i, p) \<in> F}" by force
    then show ?thesis using t(2) free_rep_length [OF t(2), of p] by (simp add: order_sum free_rep_def)
  qed
  then have "buddy_nr_free_pages s = (\<Sum>p<16. \<Sum>b\<in>{b \<in> F. snd b = p}. 2 ^ snd b)"
    unfolding buddy_nr_free_pages_def sum_list_upt BUDDY_MAX_ORDER_def by simp
  also have "\<dots> = (\<Sum>b\<in>F. 2 ^ snd b)" by (rule sum.group) (use fin o in auto)
  finally have "buddy_nr_free_pages s + (\<Sum>b\<in>A. 2 ^ snd b) = (\<Sum>b\<in>F \<union> A. 2 ^ snd b)" using fin t(3) by (simp add: sum.union_disjoint)
  also have "\<dots> = card (\<Union> (brange ` (F \<union> A)))" by (rule tiling_count(2) [OF t(1) order_refl])
  also have "\<dots> = 2 ^ k" using t(1) unfolding tiling_def by simp
  finally show ?thesis .
qed

section \<open>Initialisation\<close>

lemma buddy_memmap_loop_ok:
  "(\<forall>i<n. pg_reserved (P (p + i))) \<Longrightarrow> \<exists>P'. buddy_memmap_loop p n P = Some P' \<and> (\<forall>i<n. pg_property (P' (p + i)) \<and> pg_ref (P' (p + i)) = 0) \<and> (\<forall>q. q < p \<or> p + n \<le> q \<longrightarrow> P' q = P q)"
proof (induction n arbitrary: p P)
  case 0
  then show ?case by simp
next
  case (Suc n)
  let ?P = "P(p := (P p)\<lparr>pg_reserved := False, pg_property := True, pg_ref := 0\<rparr>)"
  have "pg_reserved (?P (Suc p + i))" if "i < n" for i using Suc.prems [rule_format, of "Suc i"] that by simp
  then obtain P' where P': "buddy_memmap_loop (Suc p) n ?P = Some P'" "\<forall>i<n. pg_property (P' (Suc p + i)) \<and> pg_ref (P' (Suc p + i)) = 0"
      "\<forall>q. q < Suc p \<or> Suc p + n \<le> q \<longrightarrow> P' q = ?P q" using Suc.IH [of ?P "Suc p"] by blast
  have "pg_reserved (P p)" using Suc.prems [rule_format, of 0] by simp
  then have "buddy_memmap_loop p (Suc n) P = Some P'" using P'(1) by simp
  moreover have "pg_property (P' (p + i)) \<and> pg_ref (P' (p + i)) = 0" if "i < Suc n" for i
    using P'(2,3) that by (cases i) simp_all
  moreover have "P' q = P q" if "q < p \<or> p + Suc n \<le> q" for q using P'(3) that by auto
  ultimately show ?case by blast
qed

lemma max_order_le: "0 < n \<Longrightarrow> max_order n m \<le> m \<and> 2 ^ max_order n m \<le> n \<and> (max_order n m < m \<longrightarrow> n < 2 ^ Suc (max_order n m))"
proof (induction m)
  case 0
  then show ?case by simp
next
  case (Suc m)
  show ?case
  proof (cases "2 ^ Suc m \<le> n")
    case False
    then show ?thesis using Suc by (cases "max_order n m = m") auto
  qed simp
qed

lemma tiling_single: "tiling k {(0, k)}"
  by (auto simp: tiling_def aligned_def disjoint_blocks_def brange_def)


lemma buddy_init_memmap_region:
  assumes n: "2 \<le> n" "\<forall>i<n. pg_reserved (bpages s (base + i))"
  shows "\<exists>s'. buddy_init_memmap base n (buddy_init s) = Some s' \<and> region (max_order n 15) s' {(0, max_order n 15)} {} \<and> buddy_base s' = base"
proof -
  let ?k = "max_order n 15" and ?s0 = "buddy_init s"
  obtain P where P: "buddy_memmap_loop base n (bpages s) = Some P" "\<forall>i<n. pg_property (P (base + i)) \<and> pg_ref (P (base + i)) = 0"
    using buddy_memmap_loop_ok [OF n(2)] by blast
  have k: "?k \<le> 15" "2 ^ ?k \<le> n" "?k < 15 \<longrightarrow> n < 2 ^ Suc ?k" using max_order_le [of n 15] n(1) by auto
  then have k0: "?k \<noteq> 0" using n(1) by (cases ?k) auto
  let ?s1 = "upd_bpage base (\<lambda>p. p\<lparr>property := 2 ^ ?k\<rparr>) (?s0\<lparr>buddy_base := base, bpages := P\<rparr>)"
  let ?s2 = "orders_set (0, ?k) ?s1"
  have k2: "(2 :: nat) ^ ?k \<le> 2 ^ 15" using k(1) by (intro power_increasing) simp_all
  have o: "set_orders 0 (2 ^ ?k) ?k ?s1 = Some ?s2" using k2 by (intro set_orders_block) simp
  have fr: "free_rep ?s2 {}" by (simp add: free_rep_def buddy_init_def)
  have P0: "pg_property (P base)" using P(2) [rule_format, of 0] n(1) by simp
  have h: "held ?k ?s2 {} {} (0, ?k)"
    using fr k(1) k0 by (simp add: held_def tiling_single alloc_rep_def merged_def end_guard_def brange_def buddy_init_def)
  have r: "region ?k (area_add ?k (buddy_base ?s2 + 0) ?s2) {(0, ?k)} {}"
    by (rule held_put [OF h]) (simp_all add: P0)
  have e: "buddy_init_memmap base n ?s0 = Some (area_add ?k base ?s2)"
    using n(1) P(1) o by (simp add: buddy_init_memmap_def BUDDY_MAX_ORDER_def buddy_init_def Let_def)
  show ?thesis by (intro exI conjI, rule e) (use r in simp_all)
qed

definition fresh_buddy :: buddy where
  "fresh_buddy = \<lparr>bpages = (\<lambda>_. \<lparr>pg_ref = 0, pg_reserved = True, pg_property = False, property = 0\<rparr>), free_area = (\<lambda>_. []), area_free = (\<lambda>_. 0), buddy_order = (\<lambda>_. 0), buddy_base = 0\<rparr>"

definition example_buddy :: buddy where
  "example_buddy = the (buddy_init_memmap 3 8 (buddy_init fresh_buddy))"

lemma max_order_8: "max_order 8 15 = 3"
  by code_simp

lemma example_buddy_region: "region 3 example_buddy {(0, 3)} {} \<and> buddy_base example_buddy = 3"
  using buddy_init_memmap_region [of 8 fresh_buddy 3] unfolding max_order_8 by (auto simp: fresh_buddy_def example_buddy_def)

lemma get_order_3: "get_order 3 = Some 2"
proof -
  obtain r where r: "get_order 3 = Some r" "3 \<le> (2 :: nat) ^ r" "\<forall>j<r. (2 :: nat) ^ j < 3" using get_order_least [of 3] by auto
  have "\<not> 2 < r" using r(3) [rule_format, of 2] by auto
  then have "r = 0 \<or> r = 1 \<or> r = 2" by auto
  then show ?thesis using r(1,2) by auto
qed

section \<open>Properties\<close>

lemma region_no_run:
  assumes r: "region k s F A" and f: "\<forall>i p. (i, p) \<in> F \<longrightarrow> 2 ^ p < (n :: nat)" and q: "aligned (i, q)" "n \<le> 2 ^ q"
  shows "\<not> brange (i, q) \<subseteq> {..<2 ^ k} - \<Union> (brange ` A)"
proof
  assume s: "brange (i, q) \<subseteq> {..<2 ^ k} - \<Union> (brange ` A)"
  then have "i + 2 ^ q \<le> 2 ^ k" by (intro brange_upto) blast
  then have "(2 :: nat) ^ q \<le> 2 ^ k" by linarith
  then have "q \<le> k" by simp
  moreover have "tiling k (F \<union> A)" "merged k F" using r by (simp_all add: region_def)
  moreover have "brange (i, q) \<subseteq> \<Union> (brange ` F)" using s by (simp only: region_free_pages [OF r])
  ultimately obtain b where b: "b \<in> F" "brange (i, q) \<subseteq> brange b" using merged_run [of k "F \<union> A" F i q] q(1) by blast
  have "card (brange (i, q)) \<le> card (brange b)" using b(2) by (intro card_mono) (simp_all add: brange_def)
  then have "2 ^ q \<le> (2 :: nat) ^ snd b" by (simp add: brange_def)
  moreover have "2 ^ snd b < n" using f b(1) by (metis surj_pair snd_conv)
  ultimately show False using q(2) by linarith
qed

lemma region_insert:
  assumes "region k s' F' (insert (i, q) A)" "(i, q) \<notin> A"
  shows "aligned (i, q) \<and> brange (i, q) \<subseteq> {..<2 ^ k} - \<Union> (brange ` A)"
proof -
  have t: "tiling k (F' \<union> insert (i, q) A)" using assms by (simp add: region_def)
  have "brange (i, q) \<inter> brange b = {}" if "b \<in> A" for b
    using t that assms(2) unfolding tiling_def disjoint_blocks_def by (metis UnI2 insertCI)
  moreover have "aligned (i, q) \<and> brange (i, q) \<subseteq> {..<2 ^ k}" using t unfolding tiling_def by blast
  ultimately show ?thesis by auto
qed

lemma region_finite: "region k s F A \<Longrightarrow> finite A"
  using tiling_count(1) [of k "F \<union> A" A] by (simp add: region_def)

lemma region_count_insert:
  assumes "region k s F A" "region k s' F' (insert b A)" "b \<notin> A"
  shows "buddy_nr_free_pages s = buddy_nr_free_pages s' + 2 ^ snd b"
proof -
  have "(\<Sum>c\<in>insert b A. 2 ^ snd c) = 2 ^ snd b + (\<Sum>c\<in>A. 2 ^ snd c :: nat)" using region_finite [OF assms(1)] assms(3) by simp
  then show ?thesis using region_count [OF assms(1)] region_count [OF assms(2)] by linarith
qed

lemma buddy_alloc_order: "buddy_alloc_pages n s = Some (Some p, s') \<Longrightarrow> get_order n = Some q \<Longrightarrow> n \<le> 2 ^ q \<and> (\<forall>j<q. 2 ^ j < n)"
  using get_order_small [of n] by (auto simp: buddy_alloc_pages_def split: if_splits option.splits)

text \<open>C21. An allocation of \<open>n\<close> pages returns an aligned block of free pages whose order is the least that holds \<open>n\<close>, and the
  free lists, counts, orders and flags describe the region with that block allocated; it fails, changing nothing, only
  when no aligned block of free pages is large enough.
\<close>

theorem buddy_alloc_correct:
  assumes "region k s F A" "0 < n"
  shows "(\<exists>i q s' F'. buddy_alloc_pages n s = Some (Some (buddy_base s + i), s') \<and> n \<le> 2 ^ q \<and> (\<forall>j<q. 2 ^ j < n) \<and>
      aligned (i, q) \<and> brange (i, q) \<subseteq> {..<2 ^ k} - \<Union> (brange ` A) \<and> region k s' F' (insert (i, q) A) \<and>
      buddy_nr_free_pages s = buddy_nr_free_pages s' + 2 ^ q) \<or>
    (buddy_alloc_pages n s = Some (None, s) \<and>
      (\<forall>i q. aligned (i, q) \<and> n \<le> 2 ^ q \<longrightarrow> \<not> brange (i, q) \<subseteq> {..<2 ^ k} - \<Union> (brange ` A)))"
  using buddy_alloc_outcome [OF assms]
proof (elim disjE exE conjE)
  assume a: "buddy_alloc_pages n s = Some (None, s)" "\<forall>i p. (i, p) \<in> F \<longrightarrow> 2 ^ p < n"
  have "\<not> brange (i, q) \<subseteq> {..<2 ^ k} - \<Union> (brange ` A)" if q: "aligned (i, q)" "n \<le> 2 ^ q" for i q
    using region_no_run [OF assms(1) a(2) q] .
  then show ?thesis using a(1) by blast
next
  fix i q s' F'
  assume a: "buddy_alloc_pages n s = Some (Some (buddy_base s + i), s')" "get_order n = Some q" "(i, q) \<notin> A" "region k s' F' (insert (i, q) A)"
  then have "n \<le> 2 ^ q \<and> (\<forall>j<q. 2 ^ j < n)" using buddy_alloc_order by metis
  then show ?thesis using a region_insert [OF a(4,3)] region_count_insert [OF assms(1) a(4,3)] by (metis snd_conv)
qed

theorem buddy_alloc_correct_witness:
  "\<exists>i q s' F'. buddy_alloc_pages 3 example_buddy = Some (Some (3 + i), s') \<and> 3 \<le> (2 :: nat) ^ q \<and> (\<forall>j<q. (2 :: nat) ^ j < 3) \<and> region 3 s' F' {(i, q)}"
proof -
  have "aligned (0, 2) \<and> 3 \<le> (2 :: nat) ^ 2 \<and> brange (0, 2) \<subseteq> {..<2 ^ 3} - \<Union> (brange ` {})" by (auto simp: aligned_def brange_def)
  then show ?thesis using buddy_alloc_correct [of 3 example_buddy "{(0, 3)}" "{}" 3] example_buddy_region by auto
qed

text \<open>C22. Releasing an allocated block never fails: the merging loop joins it with its free buddies, and the free lists, counts,
  orders and flags describe the region without that block, with no two free buddies left apart.
\<close>

theorem buddy_free_correct:
  assumes "region k s F A" "(i, p) \<in> A" "0 < n" "get_order n = Some p"
  shows "\<exists>s' F'. buddy_free_pages (buddy_base s + i) n s = Some s' \<and> region k s' F' (A - {(i, p)}) \<and>
    buddy_nr_free_pages s' = buddy_nr_free_pages s + 2 ^ p"
proof -
  obtain s' F' where s': "buddy_free_pages (buddy_base s + i) n s = Some s'" "region k s' F' (A - {(i, p)})"
    using buddy_free_region [OF assms] by blast
  have "insert (i, p) (A - {(i, p)}) = A" using assms(2) by blast
  then have "buddy_nr_free_pages s' = buddy_nr_free_pages s + 2 ^ snd (i, p)" using region_count_insert [OF s'(2), of s F "(i, p)"] assms(1) by simp
  then show ?thesis using s' by auto
qed

lemma example_alloc:
  "\<exists>i s F. buddy_alloc_pages 3 example_buddy = Some (Some (3 + i), s) \<and> region 3 s F {(i, 2)} \<and> buddy_base s = 3"
  using buddy_alloc_outcome [of 3 example_buddy "{(0, 3)}" "{}" 3] example_buddy_region get_order_3 by fastforce

theorem buddy_free_correct_witness:
  "\<exists>i s F s' F'. region 3 s F {(i, 2)} \<and> buddy_free_pages (3 + i) 3 s = Some s' \<and> region 3 s' F' {}"
proof -
  obtain i s F where s: "region 3 s F {(i, 2)}" "buddy_base s = 3" using example_alloc by blast
  then show ?thesis using buddy_free_correct [OF s(1), of i 2 3] get_order_3 by auto
qed

text \<open>C23. Allocating and releasing the block again restores the set of free blocks, whatever the splits and merges between;
  and once nothing is allocated, the free blocks are the single block of the initialisation.
\<close>

theorem buddy_alloc_free_restores:
  assumes "region k s F A" "0 < n" "buddy_alloc_pages n s = Some (Some p, s1)"
  shows "\<exists>s2. buddy_free_pages p n s1 = Some s2 \<and> region k s2 F A \<and> buddy_nr_free_pages s2 = buddy_nr_free_pages s \<and> (A = {} \<longrightarrow> F = {(0, k)})"
proof -
  obtain i q F1 where a: "p = buddy_base s + i" "get_order n = Some q" "(i, q) \<notin> A" "region k s1 F1 (insert (i, q) A)" "buddy_base s1 = buddy_base s"
    using buddy_alloc_outcome [OF assms(1,2)] assms(3) by auto
  obtain s2 F2 where s2: "buddy_free_pages (buddy_base s1 + i) n s1 = Some s2" "region k s2 F2 (insert (i, q) A - {(i, q)})"
    using buddy_free_region [OF a(4) insertI1 assms(2) a(2)] by blast
  have r: "region k s2 F2 A" using s2(2) a(3) by simp
  then have "F2 = F" using region_subset [OF r assms(1)] region_subset [OF assms(1) r] by simp
  moreover have "buddy_nr_free_pages s2 = buddy_nr_free_pages s" using region_count [OF r] region_count [OF assms(1)] by linarith
  moreover have "A = {} \<longrightarrow> F = {(0, k)}" using region_empty assms(1) by blast
  ultimately show ?thesis using r s2(1) a(1,5) by auto
qed

theorem buddy_alloc_free_restores_witness:
  "\<exists>p s1 s2. buddy_alloc_pages 3 example_buddy = Some (Some p, s1) \<and> buddy_free_pages p 3 s1 = Some s2 \<and> region 3 s2 {(0, 3)} {}"
proof -
  obtain i s F where s: "buddy_alloc_pages 3 example_buddy = Some (Some (3 + i), s)" using example_alloc by blast
  then show ?thesis using buddy_alloc_free_restores [of 3 example_buddy "{(0, 3)}" "{}" 3 "3 + i" s] example_buddy_region by auto
qed

text \<open>Initialising a region of \<open>n\<close> reserved pages gives one free block, of the largest power of two up to
  \<open>2 ^ 15\<close> pages that fits; the remaining pages are never available.
\<close>

theorem buddy_init_correct:
  assumes "2 \<le> n" "\<forall>i<n. pg_reserved (bpages s (base + i))"
  shows "\<exists>s' k. buddy_init_memmap base n (buddy_init s) = Some s' \<and> region k s' {(0, k)} {} \<and> buddy_base s' = base \<and>
    2 ^ k \<le> n \<and> (k = 15 \<or> n < 2 ^ Suc k) \<and> buddy_nr_free_pages s' = 2 ^ k"
proof -
  let ?k = "max_order n 15"
  obtain s' where s': "buddy_init_memmap base n (buddy_init s) = Some s'" "region ?k s' {(0, ?k)} {}" "buddy_base s' = base"
    using buddy_init_memmap_region [OF assms] by blast
  have "0 < n" using assms(1) by simp
  then have "2 ^ ?k \<le> n" "?k = 15 \<or> n < 2 ^ Suc ?k" using max_order_le [of n 15] by auto
  moreover have "buddy_nr_free_pages s' = 2 ^ ?k" using region_count [OF s'(2)] by simp
  ultimately show ?thesis using s' by blast
qed

theorem buddy_init_correct_witness:
  "\<exists>s' k. buddy_init_memmap 3 8 (buddy_init fresh_buddy) = Some s' \<and> region k s' {(0, k)} {} \<and> 2 ^ k \<le> (8 :: nat) \<and> (k = 15 \<or> 8 < (2 :: nat) ^ Suc k)"
  using buddy_init_correct [of 8 fresh_buddy 3] by (auto simp: fresh_buddy_def)

end
