(* ===== verification/Vma.thy ===== *)
theory Vma
  imports Prelude
begin

text \<open>
  Virtual memory areas, lab8/kern/mm/vmm.c: the areas of an address space, their
  look-up with the one-element cache, insertion with the overlap assertions,
  \<open>mm_map\<close>, and the checks and copies between user and kernel memory.

  The fields of an area never change after \<open>vma_create\<close>, so the address-ordered
  linked list is the list of its areas and the cache pointer is the area it
  points to. Whether \<open>kmalloc\<close> returns memory is an argument of the operations
  that call it.
\<close>

unbundle bit_operations_syntax

section \<open>Data\<close>

record vma_struct =
  vm_start :: nat
  vm_end :: nat
  vm_flags :: "32 word"

record mm_struct =
  mmap_list :: "vma_struct list"
  mmap_cache :: "vma_struct option"
  pgdir :: "nat option"
  map_count :: int
  mm_count :: int

definition VM_READ :: "32 word" where "VM_READ = 1"
definition VM_WRITE :: "32 word" where "VM_WRITE = 2"
definition VM_EXEC :: "32 word" where "VM_EXEC = 4"
definition VM_STACK :: "32 word" where "VM_STACK = 8"

definition PGSIZE :: nat where "PGSIZE = 4096"
definition USERBASE :: nat where "USERBASE = 0x00200000"
definition USERTOP :: nat where "USERTOP = 0x80000000"
definition KERNBASE :: nat where "KERNBASE = 0xFFFFFFFFC0200000"
definition KMEMSIZE :: nat where "KMEMSIZE = 0x7E00000"
definition KERNTOP :: nat where "KERNTOP = KERNBASE + KMEMSIZE"

definition USER_ACCESS :: "nat \<Rightarrow> nat \<Rightarrow> bool" where
  "USER_ACCESS a b \<longleftrightarrow> USERBASE \<le> a \<and> a < b \<and> b \<le> USERTOP"

definition KERN_ACCESS :: "nat \<Rightarrow> nat \<Rightarrow> bool" where
  "KERN_ACCESS a b \<longleftrightarrow> KERNBASE \<le> a \<and> a < b \<and> b \<le> KERNTOP"

section \<open>Operations\<close>

definition mm_create :: "bool \<Rightarrow> mm_struct option" where
  "mm_create kmalloc_ok =
     (if kmalloc_ok
      then Some \<lparr>mmap_list = [], mmap_cache = None, pgdir = None, map_count = 0, mm_count = 0\<rparr>
      else None)"

definition vma_create :: "bool \<Rightarrow> nat \<Rightarrow> nat \<Rightarrow> 32 word \<Rightarrow> vma_struct option" where
  "vma_create kmalloc_ok st en fl =
     (if kmalloc_ok then Some \<lparr>vm_start = st, vm_end = en, vm_flags = fl\<rparr> else None)"

definition covers :: "vma_struct \<Rightarrow> nat \<Rightarrow> bool" where
  "covers v addr \<longleftrightarrow> vm_start v \<le> addr \<and> addr < vm_end v"

fun find_vma_loop :: "vma_struct list \<Rightarrow> nat \<Rightarrow> vma_struct option" where
  "find_vma_loop [] addr = None"
| "find_vma_loop (v # vs) addr =
     (if vm_start v \<le> addr \<and> addr < vm_end v then Some v else find_vma_loop vs addr)"

definition find_vma :: "mm_struct \<Rightarrow> nat \<Rightarrow> vma_struct option \<times> mm_struct" where
  "find_vma mm addr =
     (let hit = (case mmap_cache mm of None \<Rightarrow> False | Some v \<Rightarrow> vm_start v \<le> addr \<and> vm_end v > addr);
          vma = (if hit then mmap_cache mm else find_vma_loop (mmap_list mm) addr)
      in (vma, if vma \<noteq> None then mm\<lparr>mmap_cache := vma\<rparr> else mm))"

definition check_vma_overlap :: "vma_struct \<Rightarrow> vma_struct \<Rightarrow> unit option" where
  "check_vma_overlap prv nxt = do {
     kassert (vm_start prv < vm_end prv);
     kassert (vm_end prv \<le> vm_start nxt);
     kassert (vm_start nxt < vm_end nxt) }"

text \<open>The search for the insertion point: the areas passed (ending in \<open>le_prev\<close>) and the rest.\<close>

fun insert_point :: "vma_struct list \<Rightarrow> vma_struct list \<Rightarrow> nat \<Rightarrow> vma_struct list \<times> vma_struct list" where
  "insert_point ps [] st = (ps, [])"
| "insert_point ps (v # vs) st =
     (if vm_start v > st then (ps, v # vs) else insert_point (ps @ [v]) vs st)"

definition insert_vma_struct :: "mm_struct \<Rightarrow> vma_struct \<Rightarrow> mm_struct option" where
  "insert_vma_struct mm vma = do {
     kassert (vm_start vma < vm_end vma);
     let (ps, ns) = insert_point [] (mmap_list mm) (vm_start vma);
     (if ps \<noteq> [] then check_vma_overlap (last ps) vma else Some ());
     (if ns \<noteq> [] then check_vma_overlap vma (hd ns) else Some ());
     Some (mm\<lparr>mmap_list := ps @ vma # ns, map_count := map_count mm + 1\<rparr>) }"

text \<open>\<open>mm_destroy\<close> unlinks and frees the areas one by one; the result lists them in that order.\<close>

fun destroy_loop :: "vma_struct list \<Rightarrow> vma_struct list \<Rightarrow> vma_struct list" where
  "destroy_loop [] freed = freed"
| "destroy_loop (v # vs) freed = destroy_loop vs (freed @ [v])"

definition mm_destroy :: "mm_struct \<Rightarrow> vma_struct list option" where
  "mm_destroy mm = do {
     kassert (mm_count mm = 0);
     Some (destroy_loop (mmap_list mm) []) }"

definition mm_map :: "bool \<Rightarrow> mm_struct \<Rightarrow> nat \<Rightarrow> nat \<Rightarrow> 32 word \<Rightarrow> (int \<times> mm_struct) option" where
  "mm_map kmalloc_ok mm addr len flags =
     (let st = ROUNDDOWN addr PGSIZE; en = ROUNDUP (u64 (addr + len)) PGSIZE
      in if \<not> USER_ACCESS st en then Some (- E_INVAL, mm)
         else case find_vma mm st of (vma, mm) \<Rightarrow>
           (if (case vma of None \<Rightarrow> False | Some v \<Rightarrow> en > vm_start v) then Some (- E_INVAL, mm)
            else case vma_create kmalloc_ok st en flags of
                None \<Rightarrow> Some (- E_NO_MEM, mm)
              | Some v \<Rightarrow> do {
                  mm \<leftarrow> insert_vma_struct mm v;
                  Some (0, mm) }))"

section \<open>User memory\<close>

text \<open>
  The loop of \<open>user_mem_check\<close>. Each round moves to the end of an area that
  contains the current address, so the number of areas left to look at bounds it.
\<close>

function user_mem_loop :: "mm_struct \<Rightarrow> nat \<Rightarrow> nat \<Rightarrow> bool \<Rightarrow> bool \<times> mm_struct" where
  "user_mem_loop mm st en wr =
     (if st < en
      then case find_vma mm st of
          (None, mm) \<Rightarrow> (False, mm)
        | (Some v, mm) \<Rightarrow>
            if st < vm_start v then (False, mm)
            else if vm_flags v AND (if wr then VM_WRITE else VM_READ) = 0 then (False, mm)
            else if wr \<and> vm_flags v AND VM_STACK \<noteq> 0 \<and> st < u64 (vm_start v + PGSIZE) then (False, mm)
            else user_mem_loop mm (vm_end v) en wr
      else (True, mm))"
  by pat_completeness auto

lemma find_vma_loop_covers: "find_vma_loop vs addr = Some v \<Longrightarrow> v \<in> set vs \<and> covers v addr"
  by (induction vs) (auto simp: covers_def split: if_splits)

lemma find_vma_covers: "find_vma mm addr = (Some v, mm') \<Longrightarrow> covers v addr"
  by (auto simp: find_vma_def Let_def covers_def split: option.splits if_splits
      dest: find_vma_loop_covers)

termination user_mem_loop
proof (relation "measure (\<lambda>(mm, st, en, w). en - st)", goal_cases)
  case (2 mm st en wr x y v)
  then have "covers v st" using find_vma_covers by (metis prod.collapse)
  with 2 show ?case by (simp add: covers_def)
qed simp

declare user_mem_loop.simps [simp del]

definition user_mem_check :: "mm_struct option \<Rightarrow> nat \<Rightarrow> nat \<Rightarrow> bool \<Rightarrow> bool \<times> mm_struct option" where
  "user_mem_check mm addr len wr =
     (case mm of
        None \<Rightarrow> (KERN_ACCESS addr (u64 (addr + len)), None)
      | Some mm \<Rightarrow>
          if \<not> USER_ACCESS addr (u64 (addr + len)) then (False, Some mm)
          else apsnd Some (user_mem_loop mm addr (u64 (addr + len)) wr))"

type_synonym memory = "nat \<Rightarrow> 8 word"

definition memcpy_mem :: "nat \<Rightarrow> nat \<Rightarrow> nat \<Rightarrow> memory \<Rightarrow> memory" where
  "memcpy_mem dst src n m = (\<lambda>a. if dst \<le> a \<and> a < dst + n then m (src + (a - dst)) else m a)"

definition copy_from_user ::
    "mm_struct option \<Rightarrow> nat \<Rightarrow> nat \<Rightarrow> nat \<Rightarrow> bool \<Rightarrow> memory \<Rightarrow> bool \<times> mm_struct option \<times> memory" where
  "copy_from_user mm dst src len writable m =
     (case user_mem_check mm src len writable of
        (False, mm) \<Rightarrow> (False, mm, m)
      | (True, mm) \<Rightarrow> (True, mm, memcpy_mem dst src len m))"

definition copy_to_user ::
    "mm_struct option \<Rightarrow> nat \<Rightarrow> nat \<Rightarrow> nat \<Rightarrow> memory \<Rightarrow> bool \<times> mm_struct option \<times> memory" where
  "copy_to_user mm dst src len m =
     (case user_mem_check mm dst len True of
        (False, mm) \<Rightarrow> (False, mm, m)
      | (True, mm) \<Rightarrow> (True, mm, memcpy_mem dst src len m))"

fun strnlen_mem :: "memory \<Rightarrow> nat \<Rightarrow> nat \<Rightarrow> nat" where
  "strnlen_mem m s 0 = 0"
| "strnlen_mem m s (Suc n) = (if m s = 0 then 0 else Suc (strnlen_mem m (Suc s) n))"

function copy_string_loop ::
    "mm_struct option \<Rightarrow> nat \<Rightarrow> nat \<Rightarrow> nat \<Rightarrow> nat \<Rightarrow> memory \<Rightarrow> bool \<times> mm_struct option \<times> memory" where
  "copy_string_loop mm dst src maxn part m =
     (let part = (if part > maxn then maxn else part)
      in case user_mem_check mm src part False of
          (False, mm) \<Rightarrow> (False, mm, m)
        | (True, mm) \<Rightarrow>
            let alen = strnlen_mem m src part
            in if alen < part then (True, mm, memcpy_mem dst src (alen + 1) m)
               else if part = maxn then (False, mm, m)
               else copy_string_loop mm (dst + part) (src + part) (maxn - part) PGSIZE
                      (memcpy_mem dst src part m))"
  by pat_completeness auto

lemma user_mem_check_nonempty: "user_mem_check mm addr len w = (True, mm') \<Longrightarrow> 0 < len"
proof (rule ccontr)
  assume "user_mem_check mm addr len w = (True, mm')" "\<not> 0 < len"
  moreover have "u64 addr \<le> addr" by (simp add: u64_def)
  ultimately show False
    by (auto simp: user_mem_check_def KERN_ACCESS_def USER_ACCESS_def split: option.splits if_splits)
qed

termination copy_string_loop
proof (relation "measure (\<lambda>(mm, dst, src, maxn, part, m). maxn)", goal_cases)
  case (2 mm dst src maxn part m p x mm1 alen)
  then have "0 < p" using user_mem_check_nonempty by (metis (full_types) prod.collapse)
  with 2 show ?case by (auto split: if_splits)
qed simp

declare copy_string_loop.simps [simp del]

definition copy_string ::
    "mm_struct option \<Rightarrow> nat \<Rightarrow> nat \<Rightarrow> nat \<Rightarrow> memory \<Rightarrow> bool \<times> mm_struct option \<times> memory" where
  "copy_string mm dst src maxn m =
     copy_string_loop mm dst src maxn (u64 (ROUNDDOWN (u64 (src + PGSIZE)) PGSIZE + 2 ^ 64 - src)) m"

section \<open>Invariant of an address space\<close>

text \<open>
  The areas are non-empty, below \<open>USERTOP\<close>, in address order and disjoint; the cache
  points to one of them; \<open>map_count\<close> counts them.
\<close>

fun vmas_ok :: "nat \<Rightarrow> vma_struct list \<Rightarrow> bool" where
  "vmas_ok lo [] \<longleftrightarrow> True"
| "vmas_ok lo (v # vs) \<longleftrightarrow>
     lo \<le> vm_start v \<and> vm_start v < vm_end v \<and> vm_end v \<le> USERTOP \<and> vmas_ok (vm_end v) vs"

definition mm_inv :: "mm_struct \<Rightarrow> bool" where
  "mm_inv mm \<longleftrightarrow> vmas_ok 0 (mmap_list mm) \<and>
     (case mmap_cache mm of None \<Rightarrow> True | Some v \<Rightarrow> v \<in> set (mmap_list mm)) \<and>
     map_count mm = int (length (mmap_list mm))"

definition overlap :: "vma_struct \<Rightarrow> vma_struct \<Rightarrow> bool" where
  "overlap v w \<longleftrightarrow> vm_start v < vm_end w \<and> vm_start w < vm_end v"

lemma vmas_ok_mono: "vmas_ok lo vs \<Longrightarrow> lo' \<le> lo \<Longrightarrow> vmas_ok lo' vs"
  by (cases vs) auto

lemma vmas_ok_mem:
  "vmas_ok lo vs \<Longrightarrow> v \<in> set vs \<Longrightarrow> lo \<le> vm_start v \<and> vm_start v < vm_end v \<and> vm_end v \<le> USERTOP"
  by (induction lo vs rule: vmas_ok.induct) force+

lemma vmas_ok_append:
  "vmas_ok lo (xs @ ys) \<longleftrightarrow> vmas_ok lo xs \<and> vmas_ok (if xs = [] then lo else vm_end (last xs)) ys"
  by (induction xs arbitrary: lo) auto

lemma vmas_ok_last: "vmas_ok lo xs \<Longrightarrow> x \<in> set xs \<Longrightarrow> vm_end x \<le> vm_end (last xs)"
proof (induction lo xs rule: vmas_ok.induct)
  case (2 lo v vs)
  show ?case
  proof (cases "vs = []")
    case False
    then have "last vs \<in> set vs" by simp
    then have "vm_end v \<le> vm_end (last vs)" using vmas_ok_mem [of "vm_end v" vs] 2 by fastforce
    with 2 False show ?thesis by auto
  qed (use 2 in auto)
qed simp

lemma find_vma_loop_unique:
  "vmas_ok lo vs \<Longrightarrow> v \<in> set vs \<Longrightarrow> covers v a \<Longrightarrow> find_vma_loop vs a = Some v"
proof (induction lo vs rule: vmas_ok.induct)
  case (2 lo w vs)
  show ?case
  proof (cases "v = w")
    case False
    then have "vm_end w \<le> vm_start v" using 2 vmas_ok_mem [of "vm_end w" vs v] by auto
    with 2 False show ?thesis by (auto simp: covers_def)
  qed (use 2 in \<open>auto simp: covers_def\<close>)
qed simp

lemma find_vma_loop_None: "find_vma_loop vs a = None \<longleftrightarrow> (\<forall>v\<in>set vs. \<not> covers v a)"
  by (induction vs) (auto simp: covers_def)

lemma find_vma_mm:
  assumes "mm_inv mm" "find_vma mm a = (r, mm')"
  shows "r = find_vma_loop (mmap_list mm) a" "mm_inv mm'" "mmap_list mm' = mmap_list mm"
    "map_count mm' = map_count mm"
proof -
  have ok: "vmas_ok 0 (mmap_list mm)" using assms(1) by (simp add: mm_inv_def)
  show r: "r = find_vma_loop (mmap_list mm) a"
  proof (cases "mmap_cache mm")
    case (Some v)
    then have "covers v a \<Longrightarrow> find_vma_loop (mmap_list mm) a = Some v"
      using find_vma_loop_unique [OF ok] assms(1) by (simp add: mm_inv_def)
    with Some assms(2) show ?thesis by (auto simp: find_vma_def Let_def covers_def split: if_splits)
  qed (use assms(2) in \<open>auto simp: find_vma_def Let_def\<close>)
  have mm': "mm' = (if r \<noteq> None then mm\<lparr>mmap_cache := r\<rparr> else mm)"
    using assms(2) unfolding find_vma_def Let_def prod.inject by meson
  then show "mmap_list mm' = mmap_list mm" "map_count mm' = map_count mm" by auto
  show "mm_inv mm'"
    using assms(1) mm' r by (auto simp: mm_inv_def dest: find_vma_loop_covers)
qed

lemma insert_point_split:
  "insert_point ps vs st = (ps @ takeWhile (\<lambda>v. vm_start v \<le> st) vs, dropWhile (\<lambda>v. vm_start v \<le> st) vs)"
  by (induction vs arbitrary: ps) auto

lemma sorted_split:
  assumes "vmas_ok lo vs"
  shows "\<forall>w\<in>set (takeWhile (\<lambda>v. vm_start v \<le> st) vs). vm_start w \<le> st"
    "\<forall>w\<in>set (dropWhile (\<lambda>v. vm_start v \<le> st) vs). st < vm_start w"
proof -
  show "\<forall>w\<in>set (takeWhile (\<lambda>v. vm_start v \<le> st) vs). vm_start w \<le> st" by (auto dest: set_takeWhileD)
  show "\<forall>w\<in>set (dropWhile (\<lambda>v. vm_start v \<le> st) vs). st < vm_start w"
    using assms
  proof (induction lo vs rule: vmas_ok.induct)
    case (2 lo v vs)
    have "vm_start v < vm_start w" if "w \<in> set vs" for w
      using vmas_ok_mem [of "vm_end v" vs w] 2 that by simp
    with 2 show ?case by (auto simp: not_le intro: less_trans)
  qed simp
qed

lemma vmas_ok_insert:
  assumes ok: "vmas_ok lo (xs @ ys)" and st: "lo \<le> vm_start v" "vm_start v < vm_end v" "vm_end v \<le> USERTOP"
  shows "(xs = [] \<or> vm_end (last xs) \<le> vm_start v) \<and> (ys = [] \<or> vm_end v \<le> vm_start (hd ys)) \<longleftrightarrow>
         vmas_ok lo (xs @ v # ys)"
  using assms by (cases ys) (auto simp: vmas_ok_append)

lemma insert_vma_struct_eq:
  assumes inv: "mm_inv mm" and top: "vm_end v \<le> USERTOP" and ne: "vm_start v < vm_end v"
  shows "\<exists>xs ys. mmap_list mm = xs @ ys \<and> (\<forall>w\<in>set xs. vm_start w \<le> vm_start v) \<and>
           (\<forall>w\<in>set ys. vm_start v < vm_start w) \<and>
           insert_vma_struct mm v =
             (if vmas_ok 0 (xs @ v # ys)
              then Some (mm\<lparr>mmap_list := xs @ v # ys, map_count := map_count mm + 1\<rparr>) else None)"
proof -
  let ?xs = "takeWhile (\<lambda>w. vm_start w \<le> vm_start v) (mmap_list mm)"
  let ?ys = "dropWhile (\<lambda>w. vm_start w \<le> vm_start v) (mmap_list mm)"
  have ok: "vmas_ok 0 (?xs @ ?ys)" using inv by (simp add: mm_inv_def)
  then have ok': "vmas_ok 0 (mmap_list mm)" by simp
  have "?xs \<noteq> [] \<Longrightarrow> vm_start (last ?xs) < vm_end (last ?xs)"
    "?ys \<noteq> [] \<Longrightarrow> vm_start (hd ?ys) < vm_end (hd ?ys)"
    using vmas_ok_mem [OF ok] by (metis Un_iff last_in_set hd_in_set set_append)+
  then have "insert_vma_struct mm v =
      (if vmas_ok 0 (?xs @ v # ?ys)
       then Some (mm\<lparr>mmap_list := ?xs @ v # ?ys, map_count := map_count mm + 1\<rparr>) else None)"
    using vmas_ok_insert [OF ok, of v] ne top
    by (auto simp: insert_vma_struct_def insert_point_split check_vma_overlap_def)
  with sorted_split [OF ok', of "vm_start v"] show ?thesis
    by (intro exI [of _ ?xs] exI [of _ ?ys]) auto
qed

section \<open>Access checks\<close>

text \<open>What \<open>user_mem_check\<close> promises about every single byte of the range.\<close>

definition user_ok :: "vma_struct list \<Rightarrow> bool \<Rightarrow> nat \<Rightarrow> bool" where
  "user_ok vs wr a \<longleftrightarrow> (\<exists>v\<in>set vs. covers v a \<and>
     vm_flags v AND (if wr then VM_WRITE else VM_READ) \<noteq> 0 \<and>
     (wr \<and> vm_flags v AND VM_STACK \<noteq> 0 \<longrightarrow> vm_start v + PGSIZE \<le> a))"

lemma user_ok_at:
  assumes "vmas_ok 0 vs" "v \<in> set vs" "covers v a"
  shows "user_ok vs wr a \<longleftrightarrow> vm_flags v AND (if wr then VM_WRITE else VM_READ) \<noteq> 0 \<and>
     (wr \<and> vm_flags v AND VM_STACK \<noteq> 0 \<longrightarrow> vm_start v + PGSIZE \<le> a)"
proof -
  have "w = v" if "w \<in> set vs" "covers w a" for w
    using find_vma_loop_unique [OF assms(1) that] find_vma_loop_unique [OF assms] by simp
  with assms(2,3) show ?thesis unfolding user_ok_def by blast
qed

lemma vm_start_page: "vmas_ok 0 vs \<Longrightarrow> v \<in> set vs \<Longrightarrow> u64 (vm_start v + PGSIZE) = vm_start v + PGSIZE"
  using vmas_ok_mem [of 0 vs v] by (auto simp: USERTOP_def PGSIZE_def)

lemma user_mem_loop_step:
  assumes ok: "vmas_ok 0 (mmap_list mm)" and v: "v \<in> set (mmap_list mm)" "covers v st"
    and f: "find_vma mm st = (Some v, mm1)" and "st < en"
  shows "user_mem_loop mm st en wr =
           (if user_ok (mmap_list mm) wr st then user_mem_loop mm1 (vm_end v) en wr else (False, mm1))"
  using assms(5) f v(2) vm_start_page [OF ok v(1)] user_ok_at [OF ok v]
  by (subst user_mem_loop.simps) (auto simp: covers_def)

lemma user_mem_loop_miss:
  "find_vma mm st = (None, mm1) \<Longrightarrow> st < en \<Longrightarrow> user_mem_loop mm st en wr = (False, mm1)"
  by (subst user_mem_loop.simps) simp

lemma user_mem_loop_done: "\<not> st < en \<Longrightarrow> user_mem_loop mm st en wr = (True, mm)"
  by (subst user_mem_loop.simps) simp

lemma user_mem_loop_spec:
  "mm_inv mm \<Longrightarrow> user_mem_loop mm st en wr = (b, mm') \<Longrightarrow>
   (b \<longleftrightarrow> (\<forall>a\<in>{st..<en}. user_ok (mmap_list mm) wr a)) \<and> mm_inv mm' \<and> mmap_list mm' = mmap_list mm"
proof (induction "en - st" arbitrary: mm st rule: less_induct)
  case less
  have ok: "vmas_ok 0 (mmap_list mm)" using less(2) by (simp add: mm_inv_def)
  obtain r mm1 where f: "find_vma mm st = (r, mm1)" by fastforce
  note fv = find_vma_mm [OF less(2) f]
  consider (fin) "\<not> st < en" | (miss) "st < en" "r = None" | (hit) v where "st < en" "r = Some v"
    by (cases r) auto
  then show ?case
  proof cases
    case fin
    with less(2,3) user_mem_loop_done [of st en mm wr] show ?thesis by auto
  next
    case miss
    then have "\<not> user_ok (mmap_list mm) wr st"
      using fv(1) by (auto simp: user_ok_def find_vma_loop_None)
    with miss less(3) f fv user_mem_loop_miss [of mm st mm1 en wr] show ?thesis by auto
  next
    case (hit v)
    then have v: "v \<in> set (mmap_list mm)" "covers v st" using fv(1) find_vma_loop_covers by metis+
    note step = user_mem_loop_step [OF ok v f [unfolded hit(2)] hit(1), of wr]
    show ?thesis
    proof (cases "user_ok (mmap_list mm) wr st")
      case False
      with step less(3) hit(1) fv show ?thesis by auto
    next
      case True
      have lt: "en - vm_end v < en - st" using hit(1) v(2) by (auto simp: covers_def)
      from True step less(3) have "user_mem_loop mm1 (vm_end v) en wr = (b, mm')" by simp
      then have rec: "(b \<longleftrightarrow> (\<forall>a\<in>{vm_end v..<en}. user_ok (mmap_list mm) wr a)) \<and>
          mm_inv mm' \<and> mmap_list mm' = mmap_list mm"
        using less(1) [OF lt fv(2)] fv(3) by simp
      have "user_ok (mmap_list mm) wr a" if a: "st \<le> a" "a < vm_end v" for a
      proof -
        have "covers v a" using a v(2) by (simp add: covers_def)
        from user_ok_at [OF ok v(1) this, of wr] user_ok_at [OF ok v, of wr] True a(1)
        show ?thesis by (metis order_trans)
      qed
      then have "(\<forall>a\<in>{st..<en}. user_ok (mmap_list mm) wr a) \<longleftrightarrow>
          (\<forall>a\<in>{vm_end v..<en}. user_ok (mmap_list mm) wr a)"
        using v(2) unfolding covers_def ball_simps by (auto simp: not_less)
      with rec show ?thesis by simp
    qed
  qed
qed

lemma user_mem_check_mm:
  assumes "mm_inv mm" "addr + len < 2 ^ 64" "user_mem_check (Some mm) addr len wr = (b, r)"
  obtains mm' where "r = Some mm'" "mm_inv mm'" "mmap_list mm' = mmap_list mm"
    "b \<longleftrightarrow> USER_ACCESS addr (addr + len) \<and> (\<forall>a\<in>{addr..<addr + len}. user_ok (mmap_list mm) wr a)"
proof (cases "USER_ACCESS addr (addr + len)")
  case True
  obtain c mm' where l: "user_mem_loop mm addr (addr + len) wr = (c, mm')" by fastforce
  with user_mem_loop_spec [OF assms(1) l] True assms(2,3) show thesis
    by (intro that [of mm']) (auto simp: user_mem_check_def)
next
  case False
  with assms show thesis by (intro that [of mm]) (auto simp: user_mem_check_def)
qed

section \<open>Copying strings from user space\<close>

lemma strnlen_mem_le: "strnlen_mem m s n \<le> n"
  by (induction m s n rule: strnlen_mem.induct) auto

lemma strnlen_mem_nonzero: "i < strnlen_mem m s n \<Longrightarrow> m (s + i) \<noteq> 0"
proof (induction m s n arbitrary: i rule: strnlen_mem.induct)
  case (2 m s n)
  then show ?case by (cases i) (auto split: if_splits)
qed simp

lemma strnlen_mem_zero: "strnlen_mem m s n < n \<Longrightarrow> m (s + strnlen_mem m s n) = 0"
  by (induction m s n rule: strnlen_mem.induct) (auto split: if_splits)

text \<open>\<open>copied m m' dst src n\<close>: exactly the \<open>n\<close> bytes at \<open>dst\<close> have become those at \<open>src\<close>.\<close>

definition copied :: "memory \<Rightarrow> memory \<Rightarrow> nat \<Rightarrow> nat \<Rightarrow> nat \<Rightarrow> bool" where
  "copied m m' dst src n \<longleftrightarrow>
     (\<forall>i<n. m' (dst + i) = m (src + i)) \<and> (\<forall>a. a \<notin> {dst..<dst + n} \<longrightarrow> m' a = m a)"

lemma copied_memcpy: "copied m (memcpy_mem dst src n m) dst src n"
  by (simp add: copied_def memcpy_mem_def)

lemma copied_0 [simp]: "copied m m' dst src 0 \<longleftrightarrow> m' = m"
  by (auto simp: copied_def)

lemma copied_trans:
  assumes "copied m m1 dst src k" "copied m1 m2 (dst + k) (src + k) n"
    "{dst..<dst + k} \<inter> {src + k..<src + k + n} = {}"
  shows "copied m m2 dst src (k + n)"
  unfolding copied_def
proof (intro conjI allI impI)
  fix i assume i: "i < k + n"
  show "m2 (dst + i) = m (src + i)"
  proof (cases "i < k")
    case True
    then show ?thesis using assms(1,2) by (simp add: copied_def)
  next
    case False
    then obtain j where j: "i = k + j" "j < n" using i by (metis add_less_cancel_left le_Suc_ex not_less)
    then have "src + k + j \<notin> {dst..<dst + k}" using assms(3) by fastforce
    then show ?thesis using assms(1,2) j by (auto simp: copied_def add.assoc)
  qed
qed (use assms in \<open>auto simp: copied_def\<close>)

text \<open>
  What a call promises: on success a NUL lies within the first \<open>maxn\<close> bytes, the
  bytes up to it are readable and exactly they were copied; otherwise only a
  prefix of the destination was written and either some byte in reach is not
  readable or there is no NUL among them.
\<close>

definition string_copied ::
    "vma_struct list \<Rightarrow> nat \<Rightarrow> nat \<Rightarrow> nat \<Rightarrow> memory \<Rightarrow> bool \<Rightarrow> memory \<Rightarrow> bool" where
  "string_copied vs dst src maxn m b m' \<longleftrightarrow>
     (if b then \<exists>n<maxn. (\<forall>i\<le>n. user_ok vs False (src + i)) \<and>
               (\<forall>i<n. m (src + i) \<noteq> 0) \<and> m (src + n) = 0 \<and> copied m m' dst src (n + 1)
      else (\<exists>n\<le>maxn. copied m m' dst src n) \<and>
           (\<not> USER_ACCESS src (src + maxn) \<or> (\<exists>i<maxn. \<not> user_ok vs False (src + i)) \<or>
            (\<forall>i<maxn. m (src + i) \<noteq> 0)))"

lemma all_less_add:
  "(\<forall>i<p. P i) \<Longrightarrow> (\<forall>j<n. P (p + j)) \<Longrightarrow> \<forall>i<p + (n::nat). P i"
  by (metis add_less_cancel_left le_Suc_ex not_less)

lemma disjoint_chunk:
  fixes n :: nat
  assumes "{dst..<dst + maxn} \<inter> {src..<src + maxn} = {}" "p + n \<le> (maxn::nat)"
  shows "{dst..<dst + p} \<inter> {src + p..<src + p + n} = {}" "{dst + p..<dst + p + n} \<inter> {src + p..<src + p + n} = {}"
proof -
  have "{dst..<dst + p} \<subseteq> {dst..<dst + maxn}" "{dst + p..<dst + p + n} \<subseteq> {dst..<dst + maxn}"
    "{src + p..<src + p + n} \<subseteq> {src..<src + maxn}" using assms(2) by auto
  then show "{dst..<dst + p} \<inter> {src + p..<src + p + n} = {}"
    "{dst + p..<dst + p + n} \<inter> {src + p..<src + p + n} = {}" using assms(1) by blast+
qed

lemma string_copied_step:
  assumes cp: "copied m m1 dst src p" and nz: "\<forall>i<p. m (src + i) \<noteq> 0"
    and ok: "\<forall>i<p. user_ok vs False (src + i)" and p: "0 < p" "p < maxn"
    and dj: "{dst..<dst + maxn} \<inter> {src..<src + maxn} = {}"
    and rest: "string_copied vs (dst + p) (src + p) (maxn - p) m1 b m'"
  shows "string_copied vs dst src maxn m b m'"
proof -
  have "src + p + i \<notin> {dst..<dst + p}" if "i < maxn - p" for i
    using disjoint_chunk(1) [OF dj, of p "maxn - p"] p that by fastforce
  then have src_eq: "m1 (src + p + i) = m (src + p + i)" if "i < maxn - p" for i
    using cp that by (simp add: copied_def)
  show ?thesis
  proof (cases b)
    case True
    with rest obtain n where n: "n < maxn - p" "\<forall>i<Suc n. user_ok vs False (src + p + i)"
        "\<forall>i<n. m1 (src + p + i) \<noteq> 0" "m1 (src + p + n) = 0" "copied m1 m' (dst + p) (src + p) (n + 1)"
      by (auto simp: string_copied_def less_Suc_eq_le)
    have "\<forall>i<p + Suc n. user_ok vs False (src + i)"
      using all_less_add [of p "\<lambda>i. user_ok vs False (src + i)" "Suc n"] ok n(2) by (simp add: add.assoc)
    moreover have "\<forall>i<p + n. m (src + i) \<noteq> 0"
      using all_less_add [of p "\<lambda>i. m (src + i) \<noteq> 0" n] nz n(1,3) src_eq by (simp add: add.assoc)
    moreover have "copied m m' dst src (p + n + 1)"
      using copied_trans [OF cp n(5)] disjoint_chunk(1) [OF dj, of p "n + 1"] n(1) by (simp add: add.assoc)
    moreover have "m (src + (p + n)) = 0" using n(1,4) src_eq [of n] by (simp add: add.assoc)
    ultimately show ?thesis using True n(1)
      unfolding string_copied_def by (auto simp: less_Suc_eq_le intro!: exI [of _ "p + n"])
  next
    case False
    with rest obtain n where n: "n \<le> maxn - p" "copied m1 m' (dst + p) (src + p) n"
      and why: "\<not> USER_ACCESS (src + p) (src + p + (maxn - p)) \<or>
         (\<exists>i<maxn - p. \<not> user_ok vs False (src + p + i)) \<or> (\<forall>i<maxn - p. m1 (src + p + i) \<noteq> 0)"
      by (auto simp: string_copied_def)
    have "copied m m' dst src (p + n)"
      using copied_trans [OF cp n(2)] disjoint_chunk(1) [OF dj, of p n] n(1) p by simp
    moreover have "\<not> USER_ACCESS src (src + maxn) \<or> (\<exists>i<maxn. \<not> user_ok vs False (src + i)) \<or>
        (\<forall>i<maxn. m (src + i) \<noteq> 0)"
      using why
    proof (elim disjE)
      assume "\<exists>i<maxn - p. \<not> user_ok vs False (src + p + i)"
      then show ?thesis by (metis add.assoc add.commute less_diff_conv)
    next
      assume "\<forall>i<maxn - p. m1 (src + p + i) \<noteq> 0"
      then have "\<forall>i<p + (maxn - p). m (src + i) \<noteq> 0"
        using all_less_add [of p "\<lambda>i. m (src + i) \<noteq> 0" "maxn - p"] nz src_eq by (simp add: add.assoc)
      then show ?thesis using p by simp
    qed (use p in \<open>auto simp: USER_ACCESS_def\<close>)
    moreover have "p + n \<le> maxn" using n(1) p by simp
    ultimately show ?thesis using False unfolding string_copied_def by auto
  qed
qed

lemma copy_string_loop_spec:
  "mm_inv mm \<Longrightarrow> src + maxn < 2 ^ 64 \<Longrightarrow> 0 < part \<Longrightarrow> {dst..<dst + maxn} \<inter> {src..<src + maxn} = {} \<Longrightarrow>
   copy_string_loop (Some mm) dst src maxn part m = (b, r, m') \<Longrightarrow>
   (\<exists>mm'. r = Some mm' \<and> mm_inv mm' \<and> mmap_list mm' = mmap_list mm) \<and>
   string_copied (mmap_list mm) dst src maxn m b m'"
proof (induction maxn arbitrary: mm dst src part m rule: less_induct)
  case (less maxn)
  define p where "p = (if part > maxn then maxn else part)"
  have p: "p \<le> maxn" by (simp add: p_def)
  obtain c q where c: "user_mem_check (Some mm) src p False = (c, q)" by fastforce
  have "src + p < 2 ^ 64" using less(3) p by simp
  from user_mem_check_mm [OF less(2) this c] obtain mm1 where
    mm1: "q = Some mm1" "mm_inv mm1" "mmap_list mm1 = mmap_list mm"
    and cc: "c \<longleftrightarrow> USER_ACCESS src (src + p) \<and> (\<forall>a\<in>{src..<src + p}. user_ok (mmap_list mm) False a)"
    by blast
  define alen where "alen = strnlen_mem m src p"
  have step: "copy_string_loop (Some mm) dst src maxn part m =
      (if \<not> c then (False, q, m)
       else if alen < p then (True, q, memcpy_mem dst src (alen + 1) m)
       else if p = maxn then (False, q, m)
       else copy_string_loop q (dst + p) (src + p) (maxn - p) PGSIZE (memcpy_mem dst src p m))"
    using c by (subst copy_string_loop.simps) (cases c, simp_all add: p_def [symmetric] alen_def Let_def)
  consider (bad) "\<not> c" | (nul) "c" "alen < p" | (full) "c" "alen = p" "p = maxn"
    | (more) "c" "alen = p" "p < maxn" "0 < p"
    using strnlen_mem_le [of m src p] p user_mem_check_nonempty [of "Some mm" src p False q] c
    unfolding alen_def [symmetric] by (cases c) (auto simp: le_less)
  then show ?case
  proof cases
    case bad
    have "\<exists>i<maxn. \<not> user_ok (mmap_list mm) False (src + i)" if "USER_ACCESS src (src + maxn)"
    proof -
      have "USER_ACCESS src (src + p)" using that p less(4) by (auto simp: USER_ACCESS_def p_def)
      with bad cc obtain a where "a \<in> {src..<src + p}" "\<not> user_ok (mmap_list mm) False a" by blast
      with p have "a - src < maxn \<and> \<not> user_ok (mmap_list mm) False (src + (a - src))" by auto
      then show ?thesis by blast
    qed
    with bad step less(6) mm1 show ?thesis by (auto simp: string_copied_def intro!: exI [of _ 0])
  next
    case nul
    have "\<forall>i\<le>alen. user_ok (mmap_list mm) False (src + i)" using nul cc by auto
    with nul step less(6) mm1 p copied_memcpy [of m dst src "alen + 1"] strnlen_mem_zero [of m src p]
      strnlen_mem_nonzero [of _ m src p]
    show ?thesis by (auto simp: string_copied_def alen_def intro!: exI [of _ alen])
  next
    case full
    then have "\<forall>i<maxn. m (src + i) \<noteq> 0" using strnlen_mem_nonzero [of _ m src p] by (simp add: alen_def)
    with full step less(6) mm1 show ?thesis by (auto simp: string_copied_def intro!: exI [of _ 0])
  next
    case more
    have rec: "copy_string_loop (Some mm1) (dst + p) (src + p) (maxn - p) PGSIZE (memcpy_mem dst src p m) = (b, r, m')"
      using more step less(6) mm1(1) by simp
    have "maxn - p < maxn" "src + p + (maxn - p) < 2 ^ 64" "0 < PGSIZE"
      using more p less(3) by (auto simp: PGSIZE_def)
    note ih = less(1) [OF this(1) mm1(2) this(2,3) disjoint_chunk(2) [OF less(5)] rec, unfolded mm1(3)]
    have "\<forall>i<p. m (src + i) \<noteq> 0" using strnlen_mem_nonzero [of _ m src p] more(2) by (simp add: alen_def)
    moreover have "\<forall>i<p. user_ok (mmap_list mm) False (src + i)" using cc more(1) by simp
    ultimately show ?thesis
      using ih p string_copied_step [OF copied_memcpy _ _ more(4,3) less(5)] by simp
  qed
qed

section \<open>Correctness\<close>

lemma overlap_ordered:
  assumes "vmas_ok lo (xs @ v # ys)" "w \<in> set (xs @ ys)"
  shows "\<not> overlap v w"
proof -
  have "vm_end w \<le> vm_start v" if "w \<in> set xs"
    using assms(1) that vmas_ok_last [of lo xs w] by (auto simp: vmas_ok_append split: if_splits)
  moreover have "vm_end v \<le> vm_start w" if "w \<in> set ys"
    using assms(1) that vmas_ok_mem [of "vm_end v" ys w] by (simp add: vmas_ok_append)
  ultimately show ?thesis using assms(2) by (auto simp: overlap_def)
qed

lemma no_overlap_ok:
  assumes ok: "vmas_ok 0 (xs @ ys)" and v: "vm_start v < vm_end v" "vm_end v \<le> USERTOP"
    and xs: "\<forall>w\<in>set xs. vm_start w \<le> vm_start v" and ys: "\<forall>w\<in>set ys. vm_start v < vm_start w"
    and no: "\<forall>w\<in>set (xs @ ys). \<not> overlap v w"
  shows "vmas_ok 0 (xs @ v # ys)"
proof -
  have "xs = [] \<or> vm_end (last xs) \<le> vm_start v"
  proof (cases "xs = []")
    case False
    then have "last xs \<in> set xs" by simp
    with xs no have "vm_start (last xs) \<le> vm_start v" "\<not> overlap v (last xs)" by auto
    with v(1) show ?thesis by (auto simp: overlap_def)
  qed simp
  moreover have "ys = [] \<or> vm_end v \<le> vm_start (hd ys)"
  proof (cases "ys = []")
    case False
    then have h: "hd ys \<in> set ys" by simp
    have "vm_start (hd ys) < vm_end (hd ys)" using vmas_ok_mem [OF ok] h by auto
    moreover have "vm_start v < vm_start (hd ys)" "\<not> overlap v (hd ys)" using ys no h by auto
    ultimately show ?thesis by (auto simp: overlap_def)
  qed simp
  ultimately show ?thesis using vmas_ok_insert [OF ok, of v] v by simp
qed

lemma insert_vma_struct_cases:
  assumes inv: "mm_inv mm" and top: "vm_end v \<le> USERTOP"
  shows "if vm_start v < vm_end v \<and> (\<forall>w\<in>set (mmap_list mm). \<not> overlap v w)
         then \<exists>xs ys mm'. mmap_list mm = xs @ ys \<and> insert_vma_struct mm v = Some mm' \<and>
                mmap_list mm' = xs @ v # ys \<and> mm_inv mm'
         else insert_vma_struct mm v = None"
proof (cases "vm_start v < vm_end v")
  case True
  obtain xs ys where e: "mmap_list mm = xs @ ys" "\<forall>w\<in>set xs. vm_start w \<le> vm_start v"
      "\<forall>w\<in>set ys. vm_start v < vm_start w"
      "insert_vma_struct mm v = (if vmas_ok 0 (xs @ v # ys)
         then Some (mm\<lparr>mmap_list := xs @ v # ys, map_count := map_count mm + 1\<rparr>) else None)"
    using insert_vma_struct_eq [OF inv top True] by blast
  have "vmas_ok 0 (xs @ v # ys) \<longleftrightarrow> (\<forall>w\<in>set (mmap_list mm). \<not> overlap v w)"
    using overlap_ordered [of 0 xs v ys] no_overlap_ok [OF _ True top e(2,3)] e(1) inv
    by (auto simp: mm_inv_def)
  moreover have "mm_inv (mm\<lparr>mmap_list := xs @ v # ys, map_count := map_count mm + 1\<rparr>)"
    if "vmas_ok 0 (xs @ v # ys)"
    using inv that e(1) by (auto simp: mm_inv_def split: option.splits)
  ultimately show ?thesis using e True by auto
qed (simp add: insert_vma_struct_def)

definition demo_mm :: mm_struct where
  "demo_mm = \<lparr>mmap_list = [\<lparr>vm_start = 0x200000, vm_end = 0x202000, vm_flags = 3\<rparr>,
                             \<lparr>vm_start = 0x400000, vm_end = 0x404000, vm_flags = 11\<rparr>],
     mmap_cache = None, pgdir = None, map_count = 2, mm_count = 1\<rparr>"

lemma demo_mm_inv: "mm_inv demo_mm"
  by (simp add: demo_mm_def mm_inv_def USERTOP_def)

text \<open>\<open>find_vma\<close> with its cache agrees with a search of all areas: it returns the one
  area that contains the address, or NULL exactly when there is none, and it changes
  nothing but the cache.\<close>

theorem find_vma_exact:
  assumes "mm_inv mm" and "find_vma mm addr = (r, mm')"
  shows "(case r of None \<Rightarrow> \<forall>v\<in>set (mmap_list mm). \<not> covers v addr
          | Some v \<Rightarrow> {w \<in> set (mmap_list mm). covers w addr} = {v}) \<and>
         mm_inv mm' \<and> mm' = mm\<lparr>mmap_cache := mmap_cache mm'\<rparr>"
proof -
  note f = find_vma_mm [OF assms]
  have ok: "vmas_ok 0 (mmap_list mm)" using assms(1) by (simp add: mm_inv_def)
  have "{w \<in> set (mmap_list mm). covers w addr} = {v}" if "r = Some v" for v
  proof -
    have "v \<in> set (mmap_list mm)" "covers v addr" using f(1) that find_vma_loop_covers by metis+
    moreover have "w = v" if "w \<in> set (mmap_list mm)" "covers w addr" for w
      using find_vma_loop_unique [OF ok that] f(1) \<open>r = Some v\<close> by simp
    ultimately show ?thesis by blast
  qed
  moreover have "mm' = mm\<lparr>mmap_cache := mmap_cache mm'\<rparr>"
    using assms(2) by (auto simp: find_vma_def Let_def)
  ultimately show ?thesis using f(1,2) find_vma_loop_None [of "mmap_list mm" addr] by (cases r) auto
qed

theorem find_vma_exact_witness:
  "(case fst (find_vma demo_mm 0x400123) of
      None \<Rightarrow> \<forall>v\<in>set (mmap_list demo_mm). \<not> covers v 0x400123
    | Some v \<Rightarrow> {w \<in> set (mmap_list demo_mm). covers w 0x400123} = {v}) \<and>
   mm_inv (snd (find_vma demo_mm 0x400123)) \<and>
   snd (find_vma demo_mm 0x400123) = demo_mm\<lparr>mmap_cache := mmap_cache (snd (find_vma demo_mm 0x400123))\<rparr>"
  by (rule find_vma_exact [OF demo_mm_inv prod.collapse [symmetric]])

text \<open>\<open>insert_vma_struct\<close> panics exactly when the new area is empty or overlaps an
  existing one; otherwise the area is added at its place in the address order, nothing
  else changes, and the address space stays well-formed.\<close>

theorem insert_vma_struct_correct:
  assumes "mm_inv mm" and "vm_end v \<le> USERTOP"
  shows "if vm_start v < vm_end v \<and> (\<forall>w\<in>set (mmap_list mm). \<not> overlap v w)
         then \<exists>xs ys mm'. mmap_list mm = xs @ ys \<and> insert_vma_struct mm v = Some mm' \<and>
                mmap_list mm' = xs @ v # ys \<and> mm_inv mm'
         else insert_vma_struct mm v = None"
  using insert_vma_struct_cases [OF assms] .

theorem insert_vma_struct_correct_witness:
  "\<exists>xs ys mm'. mmap_list demo_mm = xs @ ys \<and>
     insert_vma_struct demo_mm \<lparr>vm_start = 0x300000, vm_end = 0x301000, vm_flags = 1\<rparr> = Some mm' \<and>
     mmap_list mm' = xs @ \<lparr>vm_start = 0x300000, vm_end = 0x301000, vm_flags = 1\<rparr> # ys \<and> mm_inv mm'"
  using insert_vma_struct_correct [OF demo_mm_inv, of "\<lparr>vm_start = 0x300000, vm_end = 0x301000, vm_flags = 1\<rparr>"]
  by (simp add: demo_mm_def overlap_def USERTOP_def)

text \<open>\<open>mm_map\<close>, all outcomes: \<open>-E_INVAL\<close> when the page-rounded range is not in user
  space or an area contains its first byte, \<open>-E_NO_MEM\<close> when \<open>kmalloc\<close> fails, a kernel
  panic when the range overlaps an area that starts later in it, and otherwise the new
  area is in a well-formed address space.\<close>

theorem mm_map_outcome:
  assumes "mm_inv mm" and "a = ROUNDDOWN addr PGSIZE" and "b = ROUNDUP (u64 (addr + len)) PGSIZE"
    and "v = \<lparr>vm_start = a, vm_end = b, vm_flags = flags\<rparr>"
  shows "if \<not> USER_ACCESS a b \<or> (\<exists>w\<in>set (mmap_list mm). covers w a)
         then \<exists>mm'. mm_map ok mm addr len flags = Some (- E_INVAL, mm') \<and> mmap_list mm' = mmap_list mm
         else if \<not> ok then \<exists>mm'. mm_map ok mm addr len flags = Some (- E_NO_MEM, mm') \<and> mmap_list mm' = mmap_list mm
         else if \<exists>w\<in>set (mmap_list mm). overlap v w then mm_map ok mm addr len flags = None
         else \<exists>xs ys mm'. mm_map ok mm addr len flags = Some (0, mm') \<and> mmap_list mm = xs @ ys \<and>
                mmap_list mm' = xs @ v # ys \<and> mm_inv mm'"
proof (cases "USER_ACCESS a b")
  case True
  obtain r mm1 where f: "find_vma mm a = (r, mm1)" by fastforce
  note fv = find_vma_mm [OF assms(1) f]
  have hit: "r = None \<longleftrightarrow> \<not> (\<exists>w\<in>set (mmap_list mm). covers w a)"
    using fv(1) find_vma_loop_None by simp
  have late: "b > vm_start w" if "r = Some w" for w
    using find_vma_covers f that True by (fastforce simp: covers_def USER_ACCESS_def)
  have "vm_end v \<le> USERTOP" "vm_start v < vm_end v" using True assms(4) by (auto simp: USER_ACCESS_def)
  then have ins: "if \<forall>w\<in>set (mmap_list mm). \<not> overlap v w
         then \<exists>xs ys mm'. mmap_list mm = xs @ ys \<and> insert_vma_struct mm1 v = Some mm' \<and>
                mmap_list mm' = xs @ v # ys \<and> mm_inv mm'
         else insert_vma_struct mm1 v = None"
    using insert_vma_struct_cases [OF fv(2), of v] unfolding fv(3) by simp
  have eq: "mm_map ok mm addr len flags =
      (if r \<noteq> None then Some (- E_INVAL, mm1) else if \<not> ok then Some (- E_NO_MEM, mm1)
       else map_option (Pair 0) (insert_vma_struct mm1 v))"
    using True f late assms(2,3,4)
    by (cases r) (auto simp: mm_map_def Let_def vma_create_def map_option_case Option.bind_eq_Some_conv
        split: option.split)
  show ?thesis
  proof (cases "r = None \<and> ok")
    case True
    with eq ins hit \<open>USER_ACCESS a b\<close> show ?thesis by (auto split: if_splits)
  qed (use eq hit \<open>USER_ACCESS a b\<close> fv(3) in auto)
qed (use assms in \<open>auto simp: mm_map_def Let_def\<close>)

theorem mm_map_outcome_witness:
  "\<exists>xs ys mm'. mm_map True demo_mm 0x300010 0x20 VM_READ = Some (0, mm') \<and> mmap_list demo_mm = xs @ ys \<and>
     mmap_list mm' = xs @ \<lparr>vm_start = 0x300000, vm_end = 0x301000, vm_flags = VM_READ\<rparr> # ys \<and> mm_inv mm'"
  using mm_map_outcome [OF demo_mm_inv, of "0x300000" "0x300010" "0x301000" "0x20" _ VM_READ True]
  by (simp add: demo_mm_def overlap_def covers_def USER_ACCESS_def USERTOP_def USERBASE_def
      ROUNDDOWN_def ROUNDUP_def PGSIZE_def u64_def)

text \<open>C7. \<open>user_mem_check\<close> accepts a range of an address space exactly when it is a
  non-empty range of user space in which every byte lies in an area with the wanted
  permission, and, for writing, not in the lowest page of a stack area.\<close>

theorem user_mem_check_exact:
  assumes "mm_inv mm" and "addr + len < 2 ^ 64"
  shows "fst (user_mem_check (Some mm) addr len wr) \<longleftrightarrow>
           USER_ACCESS addr (addr + len) \<and> (\<forall>a\<in>{addr..<addr + len}. user_ok (mmap_list mm) wr a)"
  by (rule user_mem_check_mm [OF assms prod.collapse [symmetric], of wr])

theorem user_mem_check_exact_witness:
  "fst (user_mem_check (Some demo_mm) 0x200ff0 0x20 True) \<longleftrightarrow>
     USER_ACCESS 0x200ff0 (0x200ff0 + 0x20) \<and>
     (\<forall>a\<in>{0x200ff0..<0x200ff0 + 0x20}. user_ok (mmap_list demo_mm) True a)"
  by (rule user_mem_check_exact [OF demo_mm_inv]) simp

text \<open>\<open>copy_string\<close> terminates; it returns true exactly with a copied,
  NUL-terminated string of readable bytes shorter than \<open>maxn\<close>, and when it returns false
  although all \<open>maxn\<close> bytes are readable then none of them is NUL. Memory outside the
  destination never changes.\<close>

theorem copy_string_correct:
  assumes "mm_inv mm" and "src + PGSIZE + maxn < 2 ^ 64"
    and "{dst..<dst + maxn} \<inter> {src..<src + maxn} = {}"
    and "copy_string (Some mm) dst src maxn m = (b, r, m')"
  shows "string_copied (mmap_list mm) dst src maxn m b m' \<and>
         (\<exists>mm'. r = Some mm' \<and> mm_inv mm' \<and> mmap_list mm' = mmap_list mm)"
proof -
  have "u64 (src + PGSIZE) = src + PGSIZE" using assms(2) by simp
  moreover have "src < ROUNDDOWN (src + PGSIZE) PGSIZE"
    using ROUNDDOWN_less_add [of PGSIZE "src + PGSIZE"] by (simp add: PGSIZE_def)
  moreover have "ROUNDDOWN (src + PGSIZE) PGSIZE < 2 ^ 64"
    using ROUNDDOWN_le [of "src + PGSIZE" PGSIZE] assms(2) by linarith
  ultimately have part: "0 < u64 (ROUNDDOWN (u64 (src + PGSIZE)) PGSIZE + 2 ^ 64 - src)"
    using u64_sub [of src "ROUNDDOWN (src + PGSIZE) PGSIZE"] by simp
  have "src + maxn < 2 ^ 64" using assms(2) by simp
  from copy_string_loop_spec [OF assms(1) this part assms(3)] assms(4) show ?thesis
    unfolding copy_string_def by blast
qed

theorem copy_string_correct_witness:
  "string_copied (mmap_list demo_mm) 0 0x200000 4 (\<lambda>a. if a = 0x200002 then 0 else 65)
     (fst (copy_string (Some demo_mm) 0 0x200000 4 (\<lambda>a. if a = 0x200002 then 0 else 65)))
     (snd (snd (copy_string (Some demo_mm) 0 0x200000 4 (\<lambda>a. if a = 0x200002 then 0 else 65))))"
proof -
  let ?m = "\<lambda>a. if a = 0x200002 then 0 else 65"
  obtain b r m' where c: "copy_string (Some demo_mm) 0 0x200000 4 ?m = (b, r, m')" by (metis surj_pair)
  show ?thesis
    using copy_string_correct [OF demo_mm_inv _ _ c] unfolding c by (simp add: PGSIZE_def)
qed

end
