(* ===== verification/Page_Table.thy ===== *)
theory Page_Table
  imports Page_Alloc Vma
begin

text \<open>
  Sv39 page tables, lab8/kern/mm/pmm.c and pmm.h: the three-level walk \<open>get_pte\<close>,
  mapping and unmapping of pages with their reference counts, and the operations
  on address ranges that fork and exit use.

  A page frame is its index into the array of page descriptors and holds 512
  words of 64 bits, so a page table, a page directory and the contents of a user
  page are all functions from word indices to words. Pages are allocated and
  freed by the first-fit manager of \<open>Page_Alloc\<close>. The TLB flushes have no effect
  on this state.
\<close>

section \<open>Entries and indices\<close>

record vm =
  pmm :: pmm_state
  frames :: "nat \<Rightarrow> nat \<Rightarrow> 64 word"
  npage :: nat

definition nbase :: nat where "nbase = 0x80000"
definition NPTEENTRY :: nat where "NPTEENTRY = 512"
definition PTSIZE :: nat where "PTSIZE = PGSIZE * NPTEENTRY"
definition PDSIZE :: nat where "PDSIZE = PTSIZE * 512"

definition PTE_V :: "64 word" where "PTE_V = 1"
definition PTE_R :: "64 word" where "PTE_R = 2"
definition PTE_W :: "64 word" where "PTE_W = 4"
definition PTE_X :: "64 word" where "PTE_X = 8"
definition PTE_U :: "64 word" where "PTE_U = 16"
definition PTE_USER :: "64 word" where "PTE_USER = PTE_R OR PTE_W OR PTE_X OR PTE_U OR PTE_V"

definition PDX1 :: "nat \<Rightarrow> nat" where "PDX1 la = drop_bit 30 la mod 512"
definition PDX0 :: "nat \<Rightarrow> nat" where "PDX0 la = drop_bit 21 la mod 512"
definition PTX :: "nat \<Rightarrow> nat" where "PTX la = drop_bit 12 la mod 512"

definition PTE_ADDR :: "64 word \<Rightarrow> 64 word" where
  "PTE_ADDR pte = push_bit 2 (pte AND NOT 0x3FF)"

definition page2ppn :: "nat \<Rightarrow> nat" where
  "page2ppn page = page + nbase"

definition page2pa :: "nat \<Rightarrow> nat" where
  "page2pa page = push_bit 12 (page2ppn page)"

definition pa2page :: "vm \<Rightarrow> nat \<Rightarrow> nat option" where
  "pa2page s pa = do {
     kassert (\<not> drop_bit 12 pa \<ge> npage s);
     Some (drop_bit 12 pa - nbase) }"

definition pte_create :: "nat \<Rightarrow> 64 word \<Rightarrow> 64 word" where
  "pte_create ppn typ = push_bit 10 (of_nat ppn) OR PTE_V OR typ"

definition pde2page :: "vm \<Rightarrow> 64 word \<Rightarrow> nat option" where
  "pde2page s pde = pa2page s (unat (PTE_ADDR pde))"

definition pte2page :: "vm \<Rightarrow> 64 word \<Rightarrow> nat option" where
  "pte2page s pte = do {
     kassert (pte AND PTE_V \<noteq> 0);
     pa2page s (unat (PTE_ADDR pte)) }"

text \<open>\<open>page2kva\<close> panics on a frame beyond the end of memory; its result is the frame.\<close>

definition page2kva :: "vm \<Rightarrow> nat \<Rightarrow> nat option" where
  "page2kva s page = do {
     kassert (\<not> drop_bit 12 (page2pa page) \<ge> npage s);
     Some page }"

section \<open>Frames and their descriptors\<close>

definition set_entry :: "nat \<Rightarrow> nat \<Rightarrow> 64 word \<Rightarrow> vm \<Rightarrow> vm" where
  "set_entry p i e s = s\<lparr>frames := (frames s)(p := (frames s p)(i := e))\<rparr>"

definition set_frame :: "nat \<Rightarrow> (nat \<Rightarrow> 64 word) \<Rightarrow> vm \<Rightarrow> vm" where
  "set_frame p f s = s\<lparr>frames := (frames s)(p := f)\<rparr>"

definition page_ref :: "nat \<Rightarrow> vm \<Rightarrow> int" where
  "page_ref p s = pg_ref (pages (pmm s) p)"

definition set_page_ref :: "nat \<Rightarrow> int \<Rightarrow> vm \<Rightarrow> vm" where
  "set_page_ref p n s = s\<lparr>pmm := upd_page p (\<lambda>d. d\<lparr>pg_ref := n\<rparr>) (pmm s)\<rparr>"

definition page_ref_inc :: "nat \<Rightarrow> vm \<Rightarrow> vm" where
  "page_ref_inc p s = set_page_ref p (page_ref p s + 1) s"

definition page_ref_dec :: "nat \<Rightarrow> vm \<Rightarrow> vm" where
  "page_ref_dec p s = set_page_ref p (page_ref p s - 1) s"

definition alloc_page :: "vm \<Rightarrow> (nat option \<times> vm) option" where
  "alloc_page s = do {
     (r, p) \<leftarrow> default_alloc_pages 1 (pmm s);
     Some (r, s\<lparr>pmm := p\<rparr>) }"

definition free_page :: "nat \<Rightarrow> vm \<Rightarrow> vm option" where
  "free_page p s = do {
     q \<leftarrow> default_free_pages p 1 (pmm s);
     Some (s\<lparr>pmm := q\<rparr>) }"

section \<open>The page table walk\<close>

text \<open>The block of \<open>get_pte\<close> that installs a zeroed table in an invalid entry.\<close>

definition new_table :: "nat \<Rightarrow> nat \<Rightarrow> vm \<Rightarrow> (bool \<times> vm) option" where
  "new_table dir i s = do {
     (page, s) \<leftarrow> alloc_page s;
     (case page of
        None \<Rightarrow> Some (False, s)
      | Some p \<Rightarrow> do {
          let s = set_page_ref p 1 s;
          page2kva s p;
          let s = set_frame p (\<lambda>_. 0) s;
          Some (True, set_entry dir i (pte_create (page2ppn p) (PTE_U OR PTE_V)) s) }) }"

text \<open>One level: make sure the entry is valid, creating the table if asked to.\<close>

definition table_entry :: "nat \<Rightarrow> nat \<Rightarrow> bool \<Rightarrow> vm \<Rightarrow> (bool \<times> vm) option" where
  "table_entry dir i create s =
     (if frames s dir i AND PTE_V = 0
      then if \<not> create then Some (False, s) else new_table dir i s
      else Some (True, s))"

definition get_pte :: "nat \<Rightarrow> nat \<Rightarrow> bool \<Rightarrow> vm \<Rightarrow> ((nat \<times> nat) option \<times> vm) option" where
  "get_pte dir la create s = do {
     (ok, s) \<leftarrow> table_entry dir (PDX1 la) create s;
     if \<not> ok then Some (None, s)
     else do {
       pd0 \<leftarrow> pde2page s (frames s dir (PDX1 la));
       (ok, s) \<leftarrow> table_entry pd0 (PDX0 la) create s;
       if \<not> ok then Some (None, s)
       else do {
         pt \<leftarrow> pde2page s (frames s pd0 (PDX0 la));
         Some (Some (pt, PTX la), s) } } }"

definition get_page :: "nat \<Rightarrow> nat \<Rightarrow> vm \<Rightarrow> (nat option \<times> vm) option" where
  "get_page dir la s = do {
     (ptep, s) \<leftarrow> get_pte dir la False s;
     (case ptep of
        None \<Rightarrow> Some (None, s)
      | Some (pt, i) \<Rightarrow>
          if frames s pt i AND PTE_V \<noteq> 0
          then do { p \<leftarrow> pte2page s (frames s pt i); Some (Some p, s) }
          else Some (None, s)) }"

definition page_remove_pte :: "nat \<times> nat \<Rightarrow> vm \<Rightarrow> vm option" where
  "page_remove_pte ptep s =
     (let (pt, i) = ptep; pte = frames s pt i
      in if pte AND PTE_V \<noteq> 0
         then do {
           page \<leftarrow> pte2page s pte;
           let s = page_ref_dec page s;
           s \<leftarrow> (if page_ref page s = 0 then free_page page s else Some s);
           Some (set_entry pt i 0 s) }
         else Some s)"

definition page_remove :: "nat \<Rightarrow> nat \<Rightarrow> vm \<Rightarrow> vm option" where
  "page_remove dir la s = do {
     (ptep, s) \<leftarrow> get_pte dir la False s;
     (case ptep of None \<Rightarrow> Some s | Some ptep \<Rightarrow> page_remove_pte ptep s) }"

definition page_insert :: "nat \<Rightarrow> nat \<Rightarrow> nat \<Rightarrow> 64 word \<Rightarrow> vm \<Rightarrow> (int \<times> vm) option" where
  "page_insert dir page la perm s = do {
     (ptep, s) \<leftarrow> get_pte dir la True s;
     (case ptep of
        None \<Rightarrow> Some (- E_NO_MEM, s)
      | Some (pt, i) \<Rightarrow> do {
          let s = page_ref_inc page s;
          s \<leftarrow> (if frames s pt i AND PTE_V \<noteq> 0
               then do {
                 p \<leftarrow> pte2page s (frames s pt i);
                 if p = page then Some (page_ref_dec page s)
                 else page_remove_pte (pt, i) s }
               else Some s);
          Some (0, set_entry pt i (pte_create (page2ppn page) (PTE_V OR perm)) s) }) }"

definition pgdir_alloc_page :: "nat \<Rightarrow> nat \<Rightarrow> 64 word \<Rightarrow> vm \<Rightarrow> (nat option \<times> vm) option" where
  "pgdir_alloc_page dir la perm s = do {
     (page, s) \<leftarrow> alloc_page s;
     (case page of
        None \<Rightarrow> Some (None, s)
      | Some p \<Rightarrow> do {
          (r, s) \<leftarrow> page_insert dir p la perm s;
          if r \<noteq> 0 then do { s \<leftarrow> free_page p s; Some (None, s) }
          else do {
            kassert (page_ref p s = 1);
            Some (Some p, s) } }) }"

text \<open>The loop of \<open>boot_map_segment\<close>.\<close>

fun boot_map_loop :: "nat \<Rightarrow> nat \<Rightarrow> nat \<Rightarrow> nat \<Rightarrow> 64 word \<Rightarrow> vm \<Rightarrow> vm option" where
  "boot_map_loop dir la pa 0 perm s = Some s"
| "boot_map_loop dir la pa (Suc n) perm s = do {
     (ptep, s) \<leftarrow> get_pte dir la True s;
     (pt, i) \<leftarrow> ptep;
     boot_map_loop dir (u64 (la + PGSIZE)) (u64 (pa + PGSIZE)) n perm
       (set_entry pt i (pte_create (drop_bit 12 pa) (PTE_V OR perm)) s) }"

definition boot_map_segment :: "nat \<Rightarrow> nat \<Rightarrow> nat \<Rightarrow> nat \<Rightarrow> 64 word \<Rightarrow> vm \<Rightarrow> vm option" where
  "boot_map_segment dir la sz pa perm s = do {
     kassert (la mod PGSIZE = pa mod PGSIZE);
     boot_map_loop dir (ROUNDDOWN la PGSIZE) (ROUNDDOWN pa PGSIZE)
       (ROUNDUP (u64 (sz + la mod PGSIZE)) PGSIZE div PGSIZE) perm s }"

section \<open>Ranges of an address space\<close>

text \<open>
  The range loops run below \<open>USERTOP\<close>, as their assertions guarantee, so the
  addresses do not wrap around.
\<close>

definition next_table :: "nat \<Rightarrow> nat" where
  "next_table st = ROUNDDOWN (st + PTSIZE) PTSIZE"

lemma next_table_gt: "st < next_table st"
  using ROUNDDOWN_less_add [of PTSIZE "st + PTSIZE"]
  by (simp add: next_table_def PTSIZE_def PGSIZE_def NPTEENTRY_def)

definition unmap_step :: "nat \<Rightarrow> nat \<Rightarrow> vm \<Rightarrow> (nat \<times> vm) option" where
  "unmap_step dir st s = do {
     (ptep, s) \<leftarrow> get_pte dir st False s;
     (case ptep of
        None \<Rightarrow> Some (next_table st, s)
      | Some (pt, i) \<Rightarrow> do {
          s \<leftarrow> (if frames s pt i \<noteq> 0 then page_remove_pte (pt, i) s else Some s);
          Some (st + PGSIZE, s) }) }"

lemma unmap_step_gt: "unmap_step dir st s = Some (st', s') \<Longrightarrow> st < st'"
  using next_table_gt [of st]
  by (auto simp: unmap_step_def PGSIZE_def elim!: bind_eq_SomeE split: prod.splits option.splits)

function unmap_loop :: "nat \<Rightarrow> nat \<Rightarrow> nat \<Rightarrow> vm \<Rightarrow> vm option" where
  "unmap_loop dir st en s =
     (case unmap_step dir st s of
        None \<Rightarrow> None
      | Some (st, s) \<Rightarrow> if st \<noteq> 0 \<and> st < en then unmap_loop dir st en s else Some s)"
  by pat_completeness auto

termination unmap_loop
  by (relation "measure (\<lambda>(dir, st, en, s). en - st)") (auto dest!: unmap_step_gt)

declare unmap_loop.simps [simp del]

definition unmap_range :: "nat \<Rightarrow> nat \<Rightarrow> nat \<Rightarrow> vm \<Rightarrow> vm option" where
  "unmap_range dir st en s = do {
     kassert (st mod PGSIZE = 0 \<and> en mod PGSIZE = 0);
     kassert (USER_ACCESS st en);
     unmap_loop dir st en s }"

definition table_unused :: "vm \<Rightarrow> nat \<Rightarrow> bool" where
  "table_unused s pt \<longleftrightarrow> (\<forall>i<NPTEENTRY. frames s pt i AND PTE_V = 0)"

function exit_pd0_loop :: "nat \<Rightarrow> nat \<Rightarrow> nat \<Rightarrow> nat \<Rightarrow> bool \<Rightarrow> vm \<Rightarrow> (bool \<times> vm) option" where
  "exit_pd0_loop pd0 d1 d0 en free_pd0 s =
     (let pde0 = frames s pd0 (PDX0 d0);
          r = (if pde0 AND PTE_V \<noteq> 0
               then do {
                 pt \<leftarrow> pde2page s pde0;
                 if table_unused s pt
                 then do {
                   s \<leftarrow> free_page pt s;
                   Some (free_pd0, set_entry pd0 (PDX0 d0) 0 s) }
                 else Some (free_pd0, s) }
               else Some (False, s))
      in case r of
          None \<Rightarrow> None
        | Some (free_pd0, s) \<Rightarrow>
            let d0 = d0 + PTSIZE
            in if d0 \<noteq> 0 \<and> d0 < d1 + PDSIZE \<and> d0 < en
               then exit_pd0_loop pd0 d1 d0 en free_pd0 s
               else Some (free_pd0, s))"
  by pat_completeness auto

termination exit_pd0_loop
  by (relation "measure (\<lambda>(pd0, d1, d0, en, f, s). en - d0)") (auto simp: PTSIZE_def PGSIZE_def NPTEENTRY_def)

declare exit_pd0_loop.simps [simp del]

function exit_loop :: "nat \<Rightarrow> nat \<Rightarrow> nat \<Rightarrow> nat \<Rightarrow> vm \<Rightarrow> vm option" where
  "exit_loop dir d1 d0 en s =
     (let pde1 = frames s dir (PDX1 d1);
          r = (if pde1 AND PTE_V \<noteq> 0
               then do {
                 pd0 \<leftarrow> pde2page s pde1;
                 (free_pd0, s) \<leftarrow> exit_pd0_loop pd0 d1 d0 en True s;
                 if free_pd0
                 then do {
                   s \<leftarrow> free_page pd0 s;
                   Some (set_entry dir (PDX1 d1) 0 s) }
                 else Some s }
               else Some s)
      in case r of
          None \<Rightarrow> None
        | Some s \<Rightarrow>
            let d1 = d1 + PDSIZE
            in if d1 \<noteq> 0 \<and> d1 < en then exit_loop dir d1 d1 en s else Some s)"
  by pat_completeness auto

termination exit_loop
  by (relation "measure (\<lambda>(dir, d1, d0, en, s). en - d1)")
    (auto simp: PDSIZE_def PTSIZE_def PGSIZE_def NPTEENTRY_def)

declare exit_loop.simps [simp del]

definition exit_range :: "nat \<Rightarrow> nat \<Rightarrow> nat \<Rightarrow> vm \<Rightarrow> vm option" where
  "exit_range dir st en s = do {
     kassert (st mod PGSIZE = 0 \<and> en mod PGSIZE = 0);
     kassert (USER_ACCESS st en);
     exit_loop dir (ROUNDDOWN st PDSIZE) (ROUNDDOWN st PTSIZE) en s }"

text \<open>The body of \<open>copy_range\<close> for a valid entry: the code to return, if it stops there.\<close>

definition copy_page :: "nat \<Rightarrow> nat \<Rightarrow> 64 word \<Rightarrow> vm \<Rightarrow> (int option \<times> vm) option" where
  "copy_page to st pte s = do {
     (nptep, s) \<leftarrow> get_pte to st True s;
     (case nptep of
        None \<Rightarrow> Some (Some (- E_NO_MEM), s)
      | Some _ \<Rightarrow> do {
          page \<leftarrow> pte2page s pte;
          (npage, s) \<leftarrow> alloc_page s;
          npage \<leftarrow> npage;
          src \<leftarrow> page2kva s page;
          dst \<leftarrow> page2kva s npage;
          let s = set_frame dst (frames s src) s;
          (r, s) \<leftarrow> page_insert to npage st (pte AND PTE_USER) s;
          kassert (r = 0);
          Some (None, s) }) }"

definition copy_step :: "nat \<Rightarrow> nat \<Rightarrow> nat \<Rightarrow> vm \<Rightarrow> ((int + nat) \<times> vm) option" where
  "copy_step to from st s = do {
     (ptep, s) \<leftarrow> get_pte from st False s;
     (case ptep of
        None \<Rightarrow> Some (Inr (next_table st), s)
      | Some (pt, i) \<Rightarrow>
          if frames s pt i AND PTE_V \<noteq> 0
          then do {
            (r, s) \<leftarrow> copy_page to st (frames s pt i) s;
            Some (case r of Some e \<Rightarrow> Inl e | None \<Rightarrow> Inr (st + PGSIZE), s) }
          else Some (Inr (st + PGSIZE), s)) }"

lemma copy_step_gt: "copy_step to from st s = Some (Inr st', s') \<Longrightarrow> st < st'"
  using next_table_gt [of st]
  by (auto simp: copy_step_def PGSIZE_def elim!: bind_eq_SomeE split: prod.splits option.splits if_splits)

function copy_loop :: "nat \<Rightarrow> nat \<Rightarrow> nat \<Rightarrow> nat \<Rightarrow> vm \<Rightarrow> (int \<times> vm) option" where
  "copy_loop to from st en s =
     (case copy_step to from st s of
        None \<Rightarrow> None
      | Some (Inl e, s) \<Rightarrow> Some (e, s)
      | Some (Inr st, s) \<Rightarrow> if st \<noteq> 0 \<and> st < en then copy_loop to from st en s else Some (0, s))"
  by pat_completeness auto

termination copy_loop
  by (relation "measure (\<lambda>(to, from, st, en, s). en - st)") (auto dest!: copy_step_gt)

declare copy_loop.simps [simp del]

definition copy_range :: "nat \<Rightarrow> nat \<Rightarrow> nat \<Rightarrow> nat \<Rightarrow> vm \<Rightarrow> (int \<times> vm) option" where
  "copy_range to from st en s = do {
     kassert (st mod PGSIZE = 0 \<and> en mod PGSIZE = 0);
     kassert (USER_ACCESS st en);
     copy_loop to from st en s }"

section \<open>Duplicating and tearing down an address space (vmm.c)\<close>

text \<open>
  \<open>dup_mmap\<close> walks the list of areas backwards; \<open>ks\<close> gives the outcome of the
  \<open>kmalloc\<close> call for each area.
\<close>

fun dup_loop :: "vma_struct list \<Rightarrow> bool list \<Rightarrow> nat \<Rightarrow> nat \<Rightarrow> mm_struct \<Rightarrow> vm \<Rightarrow> (int \<times> mm_struct \<times> vm) option" where
  "dup_loop [] ks dto dfrom mto s = Some (0, mto, s)"
| "dup_loop (v # vs) ks dto dfrom mto s =
     (case vma_create (ks \<noteq> [] \<and> hd ks) (vm_start v) (vm_end v) (vm_flags v) of
        None \<Rightarrow> Some (- E_NO_MEM, mto, s)
      | Some nv \<Rightarrow> do {
          mto \<leftarrow> insert_vma_struct mto nv;
          (r, s) \<leftarrow> copy_range dto dfrom (vm_start v) (vm_end v) s;
          if r \<noteq> 0 then Some (- E_NO_MEM, mto, s)
          else dup_loop vs (tl ks) dto dfrom mto s })"

definition dup_mmap :: "bool list \<Rightarrow> mm_struct \<Rightarrow> mm_struct \<Rightarrow> vm \<Rightarrow> (int \<times> mm_struct \<times> vm) option" where
  "dup_mmap ks mto mfrom s = do {
     dto \<leftarrow> pgdir mto;
     dfrom \<leftarrow> pgdir mfrom;
     dup_loop (rev (mmap_list mfrom)) ks dto dfrom mto s }"

fun exit_mmap_loop :: "(nat \<Rightarrow> nat \<Rightarrow> vm \<Rightarrow> vm option) \<Rightarrow> vma_struct list \<Rightarrow> vm \<Rightarrow> vm option" where
  "exit_mmap_loop f [] s = Some s"
| "exit_mmap_loop f (v # vs) s = do {
     s \<leftarrow> f (vm_start v) (vm_end v) s;
     exit_mmap_loop f vs s }"

definition exit_mmap :: "mm_struct \<Rightarrow> vm \<Rightarrow> vm option" where
  "exit_mmap mm s = do {
     kassert (mm_count mm = 0);
     dir \<leftarrow> pgdir mm;
     s \<leftarrow> exit_mmap_loop (unmap_range dir) (mmap_list mm) s;
     exit_mmap_loop (exit_range dir) (mmap_list mm) s }"

section \<open>Entries encode page numbers\<close>


lemma low_mask: "(0x3FF :: 64 word) = mask 10"
  by (simp add: mask_eq_exp_minus_1)

lemma entry_word:
  assumes "typ AND NOT 0x3FF = 0" "ppn < 2 ^ 44"
  shows "drop_bit 12 (PTE_ADDR (pte_create ppn typ)) = of_nat ppn"
proof (rule bit_word_eqI)
  fix n assume n: "n < LENGTH(64)"
  have t: "\<not> bit typ k" if "10 \<le> k" "k < 64" for k
  proof
    assume "bit typ k"
    then have "bit (typ AND NOT 0x3FF) k" using that unfolding low_mask by (simp add: bit_simps)
    with assms(1) show False by simp
  qed
  have ppn: "take_bit 44 ppn = ppn" using assms(2) by (simp add: take_bit_nat_eq_self)
  have p: "\<not> bit ppn k" if "44 \<le> k" for k
    using that ppn by (metis bit_take_bit_iff not_le)
  show "bit (drop_bit 12 (PTE_ADDR (pte_create ppn typ))) n = bit (of_nat ppn :: 64 word) n"
    using t [of "10 + n"] p [of n] n
    by (cases "n < 44") (auto simp: PTE_ADDR_def pte_create_def PTE_V_def low_mask bit_simps bit_of_nat_iff_bit)
qed

lemma entry_word_nat:
  assumes "typ AND NOT 0x3FF = 0" "ppn < 2 ^ 44"
  shows "drop_bit 12 (unat (PTE_ADDR (pte_create ppn typ))) = ppn"
proof -
  have "take_bit 64 (unat w) = unat w" for w :: "64 word"
    using unsigned_less [of w] by (intro take_bit_nat_eq_self) simp
  then have "drop_bit 12 (unat (PTE_ADDR (pte_create ppn typ))) = unat (drop_bit 12 (PTE_ADDR (pte_create ppn typ)))"
    by (simp add: unsigned_drop_bit_eq)
  also have "\<dots> = ppn" using entry_word [OF assms] assms(2) by (simp add: unat_of_nat)
  finally show ?thesis .
qed

lemma pte_create_valid: "pte_create ppn typ AND PTE_V \<noteq> 0"
proof
  assume a: "pte_create ppn typ AND PTE_V = 0"
  have "bit (pte_create ppn typ AND PTE_V) 0" by (simp add: pte_create_def PTE_V_def bit_simps)
  with a show False by simp
qed

section \<open>The tree of tables\<close>

text \<open>
  The tables reachable from a page directory, addressed by their path: the
  directory itself, the level-0 directories and the page tables. In a well-formed
  address space different paths lead to different frames, no table is a free
  page, and every valid entry points below the end of memory.
\<close>

definition entry_page :: "64 word \<Rightarrow> nat" where
  "entry_page e = drop_bit 12 (unat (PTE_ADDR e)) - nbase"

definition entry_ok :: "vm \<Rightarrow> 64 word \<Rightarrow> bool" where
  "entry_ok s e \<longleftrightarrow> drop_bit 12 (unat (PTE_ADDR e)) < npage s"

datatype tpath = Root | L1 nat | L2 nat nat

definition sub_table :: "(nat \<Rightarrow> nat \<Rightarrow> 64 word) \<Rightarrow> nat \<Rightarrow> nat \<Rightarrow> nat option" where
  "sub_table F d i = (if F d i AND PTE_V = 0 then None else Some (entry_page (F d i)))"

fun tab :: "(nat \<Rightarrow> nat \<Rightarrow> 64 word) \<Rightarrow> nat \<Rightarrow> tpath \<Rightarrow> nat option" where
  "tab F dir Root = Some dir"
| "tab F dir (L1 i) = sub_table F dir i"
| "tab F dir (L2 i j) = Option.bind (sub_table F dir i) (\<lambda>d. sub_table F d j)"

definition pte_at :: "(nat \<Rightarrow> nat \<Rightarrow> 64 word) \<Rightarrow> nat \<Rightarrow> nat \<Rightarrow> 64 word" where
  "pte_at F dir la = (case tab F dir (L2 (PDX1 la) (PDX0 la)) of None \<Rightarrow> 0 | Some t \<Rightarrow> F t (PTX la))"

definition tabs_inj :: "(nat \<Rightarrow> nat \<Rightarrow> 64 word) \<Rightarrow> nat \<Rightarrow> bool" where
  "tabs_inj F dir \<longleftrightarrow> (\<forall>p q f. tab F dir p = Some f \<longrightarrow> tab F dir q = Some f \<longrightarrow> p = q)"

lemma tab_new_L1:
  assumes inj: "tabs_inj F dir" and i: "tab F dir (L1 i) = None" and fresh: "\<forall>q. tab F dir q \<noteq> Some p"
    and e: "e AND PTE_V \<noteq> 0" "entry_page e = p"
  shows "tab (F(p := \<lambda>_. 0, dir := (F dir)(i := e))) dir = (tab F dir)(L1 i := Some p)"
proof
  fix q
  let ?F = "F(p := \<lambda>_. 0, dir := (F dir)(i := e))"
  have pd: "p \<noteq> dir" using fresh [THEN spec, of Root] by simp
  have sub: "sub_table ?F dir k = (if k = i then Some p else sub_table F dir k)" for k
    using e by (simp add: sub_table_def)
  have deep: "sub_table ?F d j = sub_table F d j" if "sub_table F dir k = Some d" for d k j
  proof -
    have "d \<noteq> p" using fresh [THEN spec, of "L1 k"] that by auto
    moreover have "d \<noteq> dir" using inj that unfolding tabs_inj_def by (metis tab.simps(1,2) tpath.distinct(1))
    ultimately show ?thesis by (simp add: sub_table_def)
  qed
  show "tab ?F dir q = ((tab F dir)(L1 i := Some p)) q"
  proof (cases q)
    case (L2 k j)
    have "sub_table ?F p j = None" using pd by (simp add: sub_table_def)
    then show ?thesis using L2 i sub deep by (cases "sub_table F dir k") auto
  qed (use sub in auto)
qed

lemma tab_new_L2:
  assumes inj: "tabs_inj F dir" and d: "tab F dir (L1 k) = Some d" and i: "tab F dir (L2 k i) = None"
    and fresh: "\<forall>q. tab F dir q \<noteq> Some p" and e: "e AND PTE_V \<noteq> 0" "entry_page e = p"
  shows "tab (F(p := \<lambda>_. 0, d := (F d)(i := e))) dir = (tab F dir)(L2 k i := Some p)"
proof
  fix q
  let ?F = "F(p := \<lambda>_. 0, d := (F d)(i := e))"
  have pd: "p \<noteq> dir" "p \<noteq> d" using fresh [THEN spec, of Root] fresh [THEN spec, of "L1 k"] d by auto
  have dd: "d \<noteq> dir" using inj d unfolding tabs_inj_def by (metis tab.simps(1) tpath.distinct(1))
  have sub: "sub_table ?F dir j = sub_table F dir j" for j
    using pd dd by (simp add: sub_table_def)
  have subd: "sub_table ?F d j = (if j = i then Some p else sub_table F d j)" for j
    using pd e by (simp add: sub_table_def)
  have deep: "sub_table ?F c j = sub_table F c j" if "sub_table F dir l = Some c" "l \<noteq> k" for c l j
  proof -
    have "c \<noteq> p" using fresh [THEN spec, of "L1 l"] that by auto
    moreover have "c \<noteq> d" using inj d that unfolding tabs_inj_def by (metis tab.simps(2) tpath.inject(1))
    ultimately show ?thesis by (simp add: sub_table_def)
  qed
  show "tab ?F dir q = ((tab F dir)(L2 k i := Some p)) q"
  proof (cases q)
    case (L2 l j)
    then show ?thesis using d sub subd deep by (cases "l = k"; cases "sub_table F dir l") auto
  qed (use sub in auto)
qed

lemma pte_at_new:
  assumes inj: "tabs_inj F dir" and P: "tab F dir P = Some d" "\<forall>k j. P \<noteq> L2 k j"
    and fresh: "\<forall>q. tab F dir q \<noteq> Some p" and C: "tab F dir C = None"
    and t: "tab (F(p := \<lambda>_. 0, d := (F d)(i := e))) dir = (tab F dir)(C := Some p)"
  shows "pte_at (F(p := \<lambda>_. 0, d := (F d)(i := e))) dir la = pte_at F dir la"
proof -
  let ?q = "L2 (PDX1 la) (PDX0 la)"
  have pd: "p \<noteq> d" using fresh P(1) by metis
  show ?thesis
  proof (cases "C = ?q")
    case True
    then show ?thesis using t C pd by (simp add: pte_at_def del: tab.simps)
  next
    case False
    then have q: "tab (F(p := \<lambda>_. 0, d := (F d)(i := e))) dir ?q = tab F dir ?q" using t by simp
    have "f \<noteq> p \<and> f \<noteq> d" if "tab F dir ?q = Some f" for f
      using inj P fresh that unfolding tabs_inj_def by metis
    then show ?thesis using q by (auto simp: pte_at_def simp del: tab.simps split: option.split)
  qed
qed


definition vm_inv :: "vm \<Rightarrow> nat \<Rightarrow> (nat \<times> nat) list \<Rightarrow> bool" where
  "vm_inv s dir bs \<longleftrightarrow>
     pmm_inv (pmm s) bs \<and> npage s \<le> 2 ^ 44 \<and> (\<forall>i\<in>block_pages bs. page2ppn i < npage s) \<and>
     tabs_inj (frames s) dir \<and> (\<forall>q f. tab (frames s) dir q = Some f \<longrightarrow> f \<notin> block_pages bs) \<and>
     (\<forall>i. frames s dir i AND PTE_V \<noteq> 0 \<longrightarrow> entry_ok s (frames s dir i)) \<and>
     (\<forall>i d j. sub_table (frames s) dir i = Some d \<longrightarrow> frames s d j AND PTE_V \<noteq> 0 \<longrightarrow> entry_ok s (frames s d j))"

lemma entry_create:
  assumes "page2ppn p < npage s" "npage s \<le> 2 ^ 44" "typ AND NOT 0x3FF = 0"
  shows "entry_page (pte_create (page2ppn p) typ) = p" "entry_ok s (pte_create (page2ppn p) typ)"
  using entry_word_nat [OF assms(3), of "page2ppn p"] assms(1,2)
  by (simp_all add: entry_page_def entry_ok_def page2ppn_def)

lemma pmm_inv_upd_ref: "pmm_inv (upd_page p (\<lambda>d. d\<lparr>pg_ref := n\<rparr>) s) bs \<longleftrightarrow> pmm_inv s bs"
proof -
  have "property (pages (upd_page p (\<lambda>d. d\<lparr>pg_ref := n\<rparr>) s) i) = property (pages s i)"
    "pg_property (pages (upd_page p (\<lambda>d. d\<lparr>pg_ref := n\<rparr>) s) i) = pg_property (pages s i)"
    "pg_reserved (pages (upd_page p (\<lambda>d. d\<lparr>pg_ref := n\<rparr>) s) i) = pg_reserved (pages s i)" for i
    by simp_all
  then show ?thesis unfolding pmm_inv_def by simp
qed

lemma alloc_page_spec:
  assumes "pmm_inv (pmm s) bs"
  shows "(bs = [] \<and> alloc_page s = Some (None, s)) \<or>
    (\<exists>p q bs'. alloc_page s = Some (Some p, s\<lparr>pmm := q\<rparr>) \<and> p \<in> block_pages bs \<and> pmm_inv q bs' \<and>
       block_pages bs' = block_pages bs - {p} \<and> (\<forall>i. pg_ref (pages q i) = pg_ref (pages (pmm s) i)) \<and>
       (\<forall>i. page_usable q i = page_usable (pmm s) i))"
proof (cases bs)
  case Nil
  with default_alloc_fail [OF assms, of 1] show ?thesis by (simp add: alloc_page_def)
next
  case (Cons x ys)
  obtain b m where x: "x = (b, m)" by (cases x)
  have m: "1 \<le> m" using assms Cons x by (simp add: pmm_inv_def)
  have al: "default_alloc_pages 1 (pmm s) = Some (Some b, take_block b 1 (pmm s))"
    using default_alloc_success [OF assms, of 1 "[]" b m ys] Cons x m by simp
  have "\<forall>i. pg_ref (pages (take_block b 1 (pmm s)) i) = pg_ref (pages (pmm s) i)"
    by (simp add: take_block_def Let_def kdefs)
  moreover obtain bs' where "pmm_inv (take_block b 1 (pmm s)) bs'" "b \<in> block_pages bs" "block_pages bs' = block_pages bs - {b}"
    using take_block_result [OF assms, of "[]" b m ys 1] Cons x m by auto
  ultimately show ?thesis using al
    by (intro disjI2 exI [of _ b] exI [of _ "take_block b 1 (pmm s)"] exI [of _ bs']) (simp add: alloc_page_def take_block_usable)
qed

lemma vm_inv_fresh: "vm_inv s dir bs \<Longrightarrow> p \<in> block_pages bs \<Longrightarrow> \<forall>q. tab (frames s) dir q \<noteq> Some p"
  by (auto simp: vm_inv_def)

text \<open>What an operation that only takes free pages as new tables leaves alone.\<close>

definition took :: "nat \<Rightarrow> vm \<Rightarrow> (nat \<times> nat) list \<Rightarrow> vm \<Rightarrow> (nat \<times> nat) list \<Rightarrow> bool" where
  "took dir s bs s' bs' \<longleftrightarrow> block_pages bs' \<subseteq> block_pages bs \<and> (\<forall>k. page_usable (pmm s') k = page_usable (pmm s) k) \<and>
     (\<forall>q f. tab (frames s') dir q = Some f \<longrightarrow> tab (frames s) dir q = Some f \<or> f \<in> block_pages bs - block_pages bs') \<and>
     (\<forall>k. k \<notin> block_pages bs - block_pages bs' \<longrightarrow> (\<forall>q. tab (frames s) dir q \<noteq> Some k) \<longrightarrow> frames s' k = frames s k)"

lemma took_refl [simp]: "took dir s bs s bs"
  by (simp add: took_def)

lemma took_trans:
  assumes "took dir s bs s1 bs1" "took dir s1 bs1 s2 bs2"
  shows "took dir s bs s2 bs2"
proof -
  have "frames s2 k = frames s k" if k: "k \<notin> block_pages bs - block_pages bs2" "\<forall>q. tab (frames s) dir q \<noteq> Some k" for k
  proof -
    have a: "k \<notin> block_pages bs - block_pages bs1" "k \<notin> block_pages bs1 - block_pages bs2" using k(1) assms by (auto simp: took_def)
    moreover have "\<forall>q. tab (frames s1) dir q \<noteq> Some k"
    proof (intro allI notI)
      fix q assume "tab (frames s1) dir q = Some k"
      then have "tab (frames s) dir q = Some k \<or> k \<in> block_pages bs - block_pages bs1" using assms(1) unfolding took_def by blast
      then show False using k(2) a(1) by blast
    qed
    ultimately have "frames s2 k = frames s1 k" "frames s1 k = frames s k" using assms k(2) unfolding took_def by blast+
    then show ?thesis by simp
  qed
  moreover have "tab (frames s) dir q = Some f \<or> f \<in> block_pages bs - block_pages bs2" if "tab (frames s2) dir q = Some f" for q f
  proof -
    have "tab (frames s1) dir q = Some f \<or> f \<in> block_pages bs1 - block_pages bs2" using that assms(2) unfolding took_def by blast
    then have "tab (frames s) dir q = Some f \<or> f \<in> block_pages bs - block_pages bs1 \<or> f \<in> block_pages bs1 - block_pages bs2"
      using assms(1) unfolding took_def by blast
    then show ?thesis using assms unfolding took_def by blast
  qed
  moreover have "block_pages bs2 \<subseteq> block_pages bs" "page_usable (pmm s2) k = page_usable (pmm s) k" for k
    using assms unfolding took_def by (blast, simp)
  ultimately show ?thesis unfolding took_def by blast
qed

definition child_of :: "(nat \<Rightarrow> nat \<Rightarrow> 64 word) \<Rightarrow> nat \<Rightarrow> tpath \<Rightarrow> nat \<Rightarrow> nat \<Rightarrow> tpath \<Rightarrow> bool" where
  "child_of F dir P d i C \<longleftrightarrow> tab F dir P = Some d \<and>
     (P = Root \<and> C = L1 i \<or> (\<exists>k. P = L1 k \<and> C = L2 k i))"

lemma child_of_tab: "child_of F dir P d i C \<Longrightarrow> tab F dir C = sub_table F d i"
  by (auto simp: child_of_def)

lemma tab_new:
  assumes "tabs_inj F dir" "child_of F dir P d i C" "tab F dir C = None" "\<forall>q. tab F dir q \<noteq> Some p"
    "e AND PTE_V \<noteq> 0" "entry_page e = p"
  shows "tab (F(p := \<lambda>_. 0, d := (F d)(i := e))) dir = (tab F dir)(C := Some p)"
  using tab_new_L1 [of F dir i p e] tab_new_L2 [of F dir _ d i p e] assms
  by (auto simp: child_of_def)

lemma tabs_inj_upd:
  assumes "tabs_inj F dir" "\<forall>q. tab F dir q \<noteq> Some p" "tab F' dir = (tab F dir)(C := Some p)"
  shows "tabs_inj F' dir"
  unfolding tabs_inj_def
proof (intro allI impI)
  fix a b f assume "tab F' dir a = Some f" "tab F' dir b = Some f"
  then show "a = b" using assms unfolding assms(3) tabs_inj_def by (auto split: if_splits)
qed


lemma vm_inv_new_table:
  assumes inv: "vm_inv s dir bs" and ch: "child_of (frames s) dir P d i C" and none: "tab (frames s) dir C = None"
    and p: "p \<in> block_pages bs" and q: "pmm_inv q bs'" "block_pages bs' = block_pages bs - {p}"
    and e: "e AND PTE_V \<noteq> 0" "entry_page e = p" "entry_ok s e"
    and s': "frames s' = (frames s)(p := \<lambda>_. 0, d := (frames s d)(i := e))" "pmm s' = q" "npage s' = npage s"
  shows "vm_inv s' dir bs'" "tab (frames s') dir = (tab (frames s) dir)(C := Some p)"
    "pte_at (frames s') dir la = pte_at (frames s) dir la"
proof -
  have inj: "tabs_inj (frames s) dir" using inv by (simp add: vm_inv_def)
  note fresh = vm_inv_fresh [OF inv p]
  show t: "tab (frames s') dir = (tab (frames s) dir)(C := Some p)"
    unfolding s'(1) by (rule tab_new [OF inj ch none fresh e(1,2)])
  show "pte_at (frames s') dir la = pte_at (frames s) dir la"
    unfolding s'(1) using ch by (intro pte_at_new [where P = P, OF inj _ _ fresh none t [unfolded s'(1)]]) (auto simp: child_of_def)
  have ok: "entry_ok s' x \<longleftrightarrow> entry_ok s x" for x by (simp add: entry_ok_def s'(3))
  have F: "frames s' c j = (if c = d \<and> j = i then e else if c = p \<and> c \<noteq> d then 0 else frames s c j)" for c j
    by (auto simp: s'(1))
  have pd: "p \<noteq> d" "p \<noteq> dir" using fresh ch fresh [THEN spec, of Root] by (auto simp: child_of_def)
  have "entry_ok s' (frames s' dir j)" if "frames s' dir j AND PTE_V \<noteq> 0" for j
    using that inv e pd by (auto simp: F ok vm_inv_def split: if_splits)
  moreover have "entry_ok s' (frames s' c j)"
    if c: "sub_table (frames s') dir k = Some c" and v: "frames s' c j AND PTE_V \<noteq> 0" for k c j
  proof (cases "c = p")
    case True
    then show ?thesis using v pd by (simp add: F)
  next
    case False
    then have "sub_table (frames s) dir k = Some c"
      using t [THEN fun_cong, of "L1 k"] c by (auto split: if_splits)
    then show ?thesis using v inv e False by (auto simp: F ok vm_inv_def split: if_splits)
  qed
  moreover have "tabs_inj (frames s') dir" by (rule tabs_inj_upd [OF inj fresh t])
  moreover have "\<forall>q f. tab (frames s') dir q = Some f \<longrightarrow> f \<notin> block_pages bs'"
    using inv q(2) unfolding t by (auto simp: vm_inv_def)
  ultimately show "vm_inv s' dir bs'"
    using inv q s'(2,3) unfolding vm_inv_def by simp
qed

lemma ppn_pa: "drop_bit 12 (page2pa p) = page2ppn p"
  by (simp add: page2pa_def push_bit_eq_mult drop_bit_eq_div)

lemma new_table_spec:
  assumes inv: "vm_inv s dir bs" and ch: "child_of (frames s) dir P d i C" and none: "tab (frames s) dir C = None"
  shows "(bs = [] \<and> new_table d i s = Some (False, s)) \<or>
    (\<exists>p s' bs'. new_table d i s = Some (True, s') \<and> p \<in> block_pages bs \<and> vm_inv s' dir bs' \<and>
       block_pages bs' = block_pages bs - {p} \<and> npage s' = npage s \<and>
       tab (frames s') dir = (tab (frames s) dir)(C := Some p) \<and>
       (\<forall>la. pte_at (frames s') dir la = pte_at (frames s) dir la) \<and>
       (\<forall>k. k \<noteq> p \<longrightarrow> page_ref k s' = page_ref k s) \<and> took dir s bs s' bs')"
proof -
  have pi: "pmm_inv (pmm s) bs" using inv by (simp add: vm_inv_def)
  from alloc_page_spec [OF pi] show ?thesis
  proof (elim disjE conjE exE)
    fix p q bs'
    assume al: "alloc_page s = Some (Some p, s\<lparr>pmm := q\<rparr>)" and p: "p \<in> block_pages bs" and q: "pmm_inv q bs'"
      and bs': "block_pages bs' = block_pages bs - {p}" and ref: "\<forall>i. pg_ref (pages q i) = pg_ref (pages (pmm s) i)"
      and us: "\<forall>i. page_usable q i = page_usable (pmm s) i"
    define e where "e = pte_create (page2ppn p) (PTE_U OR PTE_V)"
    define q' where "q' = upd_page p (\<lambda>d. d\<lparr>pg_ref := 1\<rparr>) q"
    define s' where "s' = s\<lparr>pmm := q', frames := (frames s)(p := \<lambda>_. 0, d := (frames s d)(i := e))\<rparr>"
    have pn: "page2ppn p < npage s" "npage s \<le> 2 ^ 44" using inv p by (auto simp: vm_inv_def)
    have "(PTE_U OR PTE_V) AND NOT 0x3FF = 0" by (simp add: PTE_U_def PTE_V_def)
    note e = pte_create_valid [of "page2ppn p" "PTE_U OR PTE_V", folded e_def] entry_create [OF pn this, folded e_def]
    have "p \<noteq> d" using vm_inv_fresh [OF inv p] ch by (auto simp: child_of_def)
    then have nt: "new_table d i s = Some (True, s')"
      using al pn(1) by (simp add: new_table_def set_page_ref_def set_frame_def set_entry_def page2kva_def
          ppn_pa s'_def q'_def e_def)
    have q': "pmm_inv q' bs'" using q by (simp add: q'_def pmm_inv_upd_ref)
    have "frames s' = (frames s)(p := \<lambda>_. 0, d := (frames s d)(i := e))" "pmm s' = q'" "npage s' = npage s"
      by (simp_all add: s'_def)
    note vi = vm_inv_new_table [OF inv ch none p q' bs' e this]
    have "\<forall>k. k \<noteq> p \<longrightarrow> page_ref k s' = page_ref k s" using ref by (simp add: page_ref_def s'_def q'_def)
    moreover have "npage s' = npage s" by (simp add: s'_def)
    moreover have "took dir s bs s' bs'"
      unfolding took_def vi(2) using ch p bs' us by (auto simp: child_of_def s'_def q'_def page_usable_def)
    ultimately show ?thesis using nt p bs' vi by blast
  qed (simp add: new_table_def)
qed

lemma table_entry_spec:
  assumes inv: "vm_inv s dir bs" and ch: "child_of (frames s) dir P d i C"
  shows "(bs = [] \<and> tab (frames s) dir C = None \<and> table_entry d i True s = Some (False, s)) \<or>
    (\<exists>s' bs' p. table_entry d i True s = Some (True, s') \<and> vm_inv s' dir bs' \<and>
       block_pages bs' \<subseteq> block_pages bs \<and> npage s' = npage s \<and>
       tab (frames s') dir = (tab (frames s) dir)(C := Some p) \<and>
       (\<forall>la. pte_at (frames s') dir la = pte_at (frames s) dir la) \<and>
       (\<forall>k. k \<notin> block_pages bs - block_pages bs' \<longrightarrow> page_ref k s' = page_ref k s) \<and> took dir s bs s' bs')"
proof (cases "tab (frames s) dir C")
  case None
  then have "frames s d i AND PTE_V = 0" using child_of_tab [OF ch] by (simp add: sub_table_def split: if_splits)
  then have "table_entry d i True s = new_table d i s" by (simp add: table_entry_def)
  moreover have "bs = [] \<or> (\<exists>s' bs' p. new_table d i s = Some (True, s') \<and> vm_inv s' dir bs' \<and>
       block_pages bs' \<subseteq> block_pages bs \<and> npage s' = npage s \<and> tab (frames s') dir = (tab (frames s) dir)(C := Some p) \<and>
       (\<forall>la. pte_at (frames s') dir la = pte_at (frames s) dir la) \<and>
       (\<forall>k. k \<notin> block_pages bs - block_pages bs' \<longrightarrow> page_ref k s' = page_ref k s) \<and> took dir s bs s' bs')"
    using new_table_spec [OF inv ch None]
  proof (elim disjE conjE exE)
    fix p s' bs'
    assume "new_table d i s = Some (True, s')" "p \<in> block_pages bs" "vm_inv s' dir bs'" "block_pages bs' = block_pages bs - {p}"
      "npage s' = npage s" "tab (frames s') dir = (tab (frames s) dir)(C := Some p)" "\<forall>la. pte_at (frames s') dir la = pte_at (frames s) dir la"
      "\<forall>k. k \<noteq> p \<longrightarrow> page_ref k s' = page_ref k s" "took dir s bs s' bs'"
    then show ?thesis by (intro disjI2 exI [of _ s'] exI [of _ bs'] exI [of _ p]) auto
  qed simp
  moreover have "new_table d i s = Some (False, s)" if "bs = []" using new_table_spec [OF inv ch None] that by auto
  ultimately show ?thesis using None by (elim disjE) simp_all
next
  case (Some p)
  then have "frames s d i AND PTE_V \<noteq> 0" using child_of_tab [OF ch] by (auto simp: sub_table_def)
  then have "table_entry d i True s = Some (True, s)" by (simp add: table_entry_def)
  moreover have "tab (frames s) dir = (tab (frames s) dir)(C := Some p)" using Some by auto
  ultimately show ?thesis using inv took_refl by blast
qed


lemma vm_inv_child_L1: "child_of F dir Root dir i (L1 i)"
  by (simp add: child_of_def)

lemma vm_inv_child_L2: "tab F dir (L1 k) = Some d \<Longrightarrow> child_of F dir (L1 k) d i (L2 k i)"
  by (simp add: child_of_def)

lemma pde2page_ok: "entry_ok s e \<Longrightarrow> pde2page s e = Some (entry_page e)"
  by (simp add: pde2page_def pa2page_def entry_ok_def entry_page_def)

lemma vm_inv_pde1:
  assumes "vm_inv s dir bs" "tab (frames s) dir (L1 i) = Some d"
  shows "pde2page s (frames s dir i) = Some d"
  using assms pde2page_ok [of s "frames s dir i"]
  by (auto simp: vm_inv_def sub_table_def split: if_splits)

lemma vm_inv_pde0:
  assumes "vm_inv s dir bs" "tab (frames s) dir (L1 k) = Some d" "tab (frames s) dir (L2 k i) = Some t"
  shows "pde2page s (frames s d i) = Some t"
proof -
  have "frames s d i AND PTE_V \<noteq> 0" "t = entry_page (frames s d i)"
    using assms(2,3) by (auto simp: sub_table_def [of _ d] split: if_splits)
  moreover from this have "entry_ok s (frames s d i)" using assms(1,2) by (auto simp: vm_inv_def)
  ultimately show ?thesis using pde2page_ok by simp
qed

lemma get_pte_lookup:
  assumes inv: "vm_inv s dir bs"
  shows "get_pte dir la False s =
     Some (map_option (\<lambda>t. (t, PTX la)) (tab (frames s) dir (L2 (PDX1 la) (PDX0 la))), s)"
proof (cases "tab (frames s) dir (L1 (PDX1 la))")
  case None
  then show ?thesis by (auto simp: get_pte_def table_entry_def sub_table_def split: if_splits)
next
  case (Some d)
  note d = vm_inv_pde1 [OF inv Some]
  have v: "frames s dir (PDX1 la) AND PTE_V \<noteq> 0" using Some by (auto simp: sub_table_def)
  show ?thesis
  proof (cases "tab (frames s) dir (L2 (PDX1 la) (PDX0 la))")
    case None
    then have "frames s d (PDX0 la) AND PTE_V = 0" using Some by (auto simp: sub_table_def [of _ d] split: if_splits)
    with None d v show ?thesis by (simp add: get_pte_def table_entry_def del: tab.simps)
  next
    case t: (Some t)
    then have "frames s d (PDX0 la) AND PTE_V \<noteq> 0" using Some by (auto simp: sub_table_def [of _ d])
    with t d v vm_inv_pde0 [OF inv Some t] show ?thesis by (simp add: get_pte_def table_entry_def del: tab.simps)
  qed
qed

lemma get_pte_create:
  assumes inv: "vm_inv s dir bs"
  shows "\<exists>r s' bs'. get_pte dir la True s = Some (r, s') \<and> vm_inv s' dir bs' \<and> npage s' = npage s \<and>
     block_pages bs' \<subseteq> block_pages bs \<and>
     (\<forall>la. pte_at (frames s') dir la = pte_at (frames s) dir la) \<and>
     (\<forall>k. k \<notin> block_pages bs - block_pages bs' \<longrightarrow> page_ref k s' = page_ref k s) \<and> took dir s bs s' bs' \<and>
     (case r of None \<Rightarrow> bs' = []
      | Some (t, i) \<Rightarrow> tab (frames s') dir (L2 (PDX1 la) (PDX0 la)) = Some t \<and> i = PTX la)"
proof -
  let ?C1 = "L1 (PDX1 la)" and ?C2 = "L2 (PDX1 la) (PDX0 la)"
  from table_entry_spec [OF inv vm_inv_child_L1 [of _ _ "PDX1 la"]] show ?thesis
  proof (elim disjE conjE exE)
    assume "bs = []" "table_entry dir (PDX1 la) True s = Some (False, s)"
    then show ?thesis using inv
      by (intro exI [of _ None] exI [of _ s] exI [of _ bs]) (simp add: get_pte_def)
  next
    fix s1 bs1 d
    assume t1: "table_entry dir (PDX1 la) True s = Some (True, s1)" and i1: "vm_inv s1 dir bs1"
      and b1: "block_pages bs1 \<subseteq> block_pages bs" and n1: "npage s1 = npage s"
      and tab1: "tab (frames s1) dir = (tab (frames s) dir)(?C1 := Some d)"
      and p1: "\<forall>la. pte_at (frames s1) dir la = pte_at (frames s) dir la"
      and r1: "\<forall>k. k \<notin> block_pages bs - block_pages bs1 \<longrightarrow> page_ref k s1 = page_ref k s" and k1: "took dir s bs s1 bs1"
    have d: "tab (frames s1) dir ?C1 = Some d" using tab1 by simp
    note pd = vm_inv_pde1 [OF i1 d]
    from table_entry_spec [OF i1 vm_inv_child_L2 [OF d, of "PDX0 la"]] show ?thesis
    proof (elim disjE conjE exE)
      assume "bs1 = []" "table_entry d (PDX0 la) True s1 = Some (False, s1)"
      then show ?thesis using i1 t1 pd b1 n1 p1 r1 k1
        by (intro exI [of _ None] exI [of _ s1] exI [of _ bs1]) (simp add: get_pte_def)
    next
      fix s2 bs2 t
      assume t2: "table_entry d (PDX0 la) True s1 = Some (True, s2)" and i2: "vm_inv s2 dir bs2"
        and b2: "block_pages bs2 \<subseteq> block_pages bs1" and n2: "npage s2 = npage s1"
        and tab2: "tab (frames s2) dir = (tab (frames s1) dir)(?C2 := Some t)"
        and p2: "\<forall>la. pte_at (frames s2) dir la = pte_at (frames s1) dir la"
        and r2: "\<forall>k. k \<notin> block_pages bs1 - block_pages bs2 \<longrightarrow> page_ref k s2 = page_ref k s1" and k2: "took dir s1 bs1 s2 bs2"
      have "tab (frames s2) dir ?C1 = Some d" "tab (frames s2) dir ?C2 = Some t" using tab2 d by simp_all
      note pt = vm_inv_pde0 [OF i2 this]
      have "get_pte dir la True s = Some (Some (t, PTX la), s2)"
        using t1 pd t2 pt by (simp add: get_pte_def)
      moreover have "\<forall>k. k \<notin> block_pages bs - block_pages bs2 \<longrightarrow> page_ref k s2 = page_ref k s" using r1 r2 b1 b2 by auto
      moreover note took_trans [OF k1 k2]
      moreover have "block_pages bs2 \<subseteq> block_pages bs" using b1 b2 by blast
      ultimately show ?thesis
        using i2 n1 n2 p1 p2 \<open>tab (frames s2) dir ?C2 = Some t\<close>
        by (intro exI [of _ "Some (t, PTX la)"] exI [of _ s2] exI [of _ bs2]) (simp del: tab.simps)
    qed
  qed
qed


definition vpn :: "nat \<Rightarrow> nat \<times> nat \<times> nat" where
  "vpn la = (PDX1 la, PDX0 la, PTX la)"

lemma tab_set_pte:
  assumes inj: "tabs_inj F dir" and t: "tab F dir (L2 k i) = Some t"
  shows "tab (F(t := G)) dir = tab F dir"
proof
  fix q
  have td: "t \<noteq> dir" using inj t unfolding tabs_inj_def by (metis tab.simps(1) tpath.distinct(3))
  have "d \<noteq> t" if "sub_table F dir j = Some d" for d j
    using inj t that unfolding tabs_inj_def by (metis tab.simps(2) tpath.distinct(5))
  then have deep: "sub_table (F(t := G)) d j' = sub_table F d j'" if "sub_table F dir j = Some d" for d j j'
    using that by (simp add: sub_table_def [of _ d])
  have "sub_table (F(t := G)) dir j = sub_table F dir j" for j
    using td by (simp add: sub_table_def)
  then show "tab (F(t := G)) dir q = tab F dir q"
    by (cases q) (auto simp: deep intro!: Option.bind_cong)
qed

lemma pte_at_set:
  assumes inj: "tabs_inj F dir" and t: "tab F dir (L2 (PDX1 la) (PDX0 la)) = Some t"
  shows "pte_at (F(t := (F t)(PTX la := e))) dir la' = (if vpn la' = vpn la then e else pte_at F dir la')"
proof -
  have "f = t \<Longrightarrow> PDX1 la' = PDX1 la \<and> PDX0 la' = PDX0 la"
    if "tab F dir (L2 (PDX1 la') (PDX0 la')) = Some f" for f
    using inj t that unfolding tabs_inj_def by (metis tpath.inject(2))
  then show ?thesis
    using t unfolding pte_at_def tab_set_pte [OF inj t] vpn_def
    by (cases "tab F dir (L2 (PDX1 la') (PDX0 la'))") (auto simp del: tab.simps)
qed

lemma vm_inv_set_pte:
  assumes inv: "vm_inv s dir bs" and t: "tab (frames s) dir (L2 k i) = Some t"
    and s': "frames s' = (frames s)(t := G)" "npage s' = npage s"
    and bs': "pmm_inv (pmm s') bs'" "\<forall>q f. tab (frames s) dir q = Some f \<longrightarrow> f \<notin> block_pages bs'"
      "\<forall>i\<in>block_pages bs'. page2ppn i < npage s"
  shows "vm_inv s' dir bs'"
proof -
  have inj: "tabs_inj (frames s) dir" using inv by (simp add: vm_inv_def)
  note tab' = tab_set_pte [OF inj t, of G, folded s'(1)]
  have td: "t \<noteq> dir" using inj t unfolding tabs_inj_def by (metis tab.simps(1) tpath.distinct(3))
  have dt: "d \<noteq> t" if "sub_table (frames s) dir j = Some d" for d j
    using inj t that unfolding tabs_inj_def by (metis tab.simps(2) tpath.distinct(5))
  have sub: "sub_table (frames s') dir j = sub_table (frames s) dir j" for j
    using tab' [THEN fun_cong, of "L1 j"] by simp
  have ok: "entry_ok s' x \<longleftrightarrow> entry_ok s x" for x by (simp add: entry_ok_def s'(2))
  have "entry_ok s' (frames s' d j)"
    if "sub_table (frames s) dir i = Some d" "frames s' d j AND PTE_V \<noteq> 0" for i d j
    using that dt [OF that(1)] inv by (auto simp: ok s'(1) vm_inv_def)
  moreover have "entry_ok s' (frames s' dir j)" if "frames s' dir j AND PTE_V \<noteq> 0" for j
    using that td inv by (auto simp: ok s'(1) vm_inv_def)
  moreover have "tabs_inj (frames s') dir" using inj tab' by (simp add: tabs_inj_def)
  ultimately show ?thesis using inv bs' s'(2) tab' sub by (simp add: vm_inv_def)
qed

lemma page_insert_fresh:
  assumes inv: "vm_inv s dir bs" and un: "pte_at (frames s) dir la AND PTE_V = 0" and page: "page \<notin> block_pages bs"
  shows "\<exists>r s' bs'. page_insert dir page la perm s = Some (r, s') \<and> vm_inv s' dir bs' \<and> npage s' = npage s \<and> took dir s bs s' bs' \<and>
    (\<forall>k. k \<noteq> page \<longrightarrow> k \<notin> block_pages bs - block_pages bs' \<longrightarrow> page_ref k s' = page_ref k s) \<and>
    (if r = 0
     then (\<forall>la'. pte_at (frames s') dir la' =
             (if vpn la' = vpn la then pte_create (page2ppn page) (PTE_V OR perm) else pte_at (frames s) dir la')) \<and>
          page_ref page s' = page_ref page s + 1
     else r = - E_NO_MEM \<and> bs' = [] \<and> (\<forall>la'. pte_at (frames s') dir la' = pte_at (frames s) dir la'))"
proof -
  obtain r s1 bs1 where g: "get_pte dir la True s = Some (r, s1)" "vm_inv s1 dir bs1" "npage s1 = npage s"
      "block_pages bs1 \<subseteq> block_pages bs" "\<forall>la. pte_at (frames s1) dir la = pte_at (frames s) dir la"
      "\<forall>k. k \<notin> block_pages bs - block_pages bs1 \<longrightarrow> page_ref k s1 = page_ref k s"
      "case r of None \<Rightarrow> bs1 = []
       | Some (t, i) \<Rightarrow> tab (frames s1) dir (L2 (PDX1 la) (PDX0 la)) = Some t \<and> i = PTX la" "took dir s bs s1 bs1"
    using get_pte_create [OF inv, of la] by blast
  show ?thesis
  proof (cases r)
    case None
    then show ?thesis using g
      by (intro exI [of _ "- E_NO_MEM"] exI [of _ s1] exI [of _ bs1]) (simp add: page_insert_def E_NO_MEM_def)
  next
    case (Some loc)
    then obtain t where t: "r = Some (t, PTX la)" "tab (frames s1) dir (L2 (PDX1 la) (PDX0 la)) = Some t"
      using g(7) by (cases loc) auto
    have inj: "tabs_inj (frames s1) dir" using g(2) by (simp add: vm_inv_def)
    have "pte_at (frames s1) dir la = frames s1 t (PTX la)" using t(2) by (simp add: pte_at_def)
    then have un1: "frames s1 t (PTX la) AND PTE_V = 0" using un g(5) by simp
    define e where "e = pte_create (page2ppn page) (PTE_V OR perm)"
    define s2 where "s2 = set_entry t (PTX la) e (page_ref_inc page s1)"
    have pi: "page_insert dir page la perm s = Some (0, s2)"
      using g(1) t(1) un1
      by (simp add: page_insert_def s2_def e_def page_ref_inc_def set_page_ref_def)
    have f2: "frames s2 = (frames s1)(t := (frames s1 t)(PTX la := e))" "npage s2 = npage s1"
      by (simp_all add: s2_def set_entry_def page_ref_inc_def set_page_ref_def)
    have "vm_inv s2 dir bs1"
    proof (rule vm_inv_set_pte [OF g(2) t(2) f2])
      show "pmm_inv (pmm s2) bs1" using g(2)
        by (simp add: s2_def set_entry_def page_ref_inc_def set_page_ref_def pmm_inv_upd_ref vm_inv_def)
    qed (use g(2) in \<open>auto simp: vm_inv_def\<close>)
    moreover have "page_ref page s2 = page_ref page s + 1"
      using g(6) page by (simp add: s2_def set_entry_def page_ref_inc_def set_page_ref_def page_ref_def)
    moreover have "took dir s1 bs1 s2 bs1"
      unfolding took_def f2(1) tab_set_pte [OF inj t(2)] using t(2)
      by (auto simp: s2_def set_entry_def page_ref_inc_def set_page_ref_def page_usable_def simp del: tab.simps)
    then have "took dir s bs s2 bs1" using took_trans [OF g(8)] by blast
    moreover have "\<forall>k. k \<noteq> page \<longrightarrow> k \<notin> block_pages bs - block_pages bs1 \<longrightarrow> page_ref k s2 = page_ref k s"
      using g(6) by (simp add: s2_def set_entry_def page_ref_inc_def set_page_ref_def page_ref_def)
    ultimately show ?thesis
      using pi g(3,5) f2 pte_at_set [OF inj t(2), of e]
      by (intro exI [of _ 0] exI [of _ s2] exI [of _ bs1]) (simp add: e_def)
  qed
qed


lemma pte2page_create:
  assumes "page2ppn p < npage s" "npage s \<le> 2 ^ 44" "typ AND NOT 0x3FF = 0"
  shows "pte2page s (pte_create (page2ppn p) typ) = Some p"
  using entry_create [OF assms] pte_create_valid [of "page2ppn p" "typ"]
  by (simp add: pte2page_def pa2page_def entry_ok_def entry_page_def)

lemma page_remove_pte_spec:
  assumes inv: "vm_inv s dir bs" and t: "tab (frames s) dir (L2 (PDX1 la) (PDX0 la)) = Some t"
    and v: "frames s t (PTX la) AND PTE_V \<noteq> 0" and p: "pte2page s (frames s t (PTX la)) = Some p"
    and fr: "page_ref p s = 1 \<Longrightarrow> p \<notin> block_pages bs \<and> (\<forall>q. tab (frames s) dir q \<noteq> Some p) \<and>
       page_usable (pmm s) p \<and> higher_free p bs \<and> page2ppn p < npage s \<and> p + 2 < 2 ^ 32"
  shows "\<exists>s' bs'. page_remove_pte (t, PTX la) s = Some s' \<and> vm_inv s' dir bs' \<and>
     block_pages bs' = block_pages bs \<union> (if page_ref p s = 1 then {p} else {}) \<and>
     (page_ref p s \<noteq> 1 \<longrightarrow> page_ref p s' = page_ref p s - 1) \<and>
     (\<forall>la'. pte_at (frames s') dir la' = (if vpn la' = vpn la then 0 else pte_at (frames s) dir la'))"
proof -
  define s1 where "s1 = page_ref_dec p s"
  have s1: "frames s1 = frames s" "npage s1 = npage s" "pmm_inv (pmm s1) bs" "page_ref p s1 = page_ref p s - 1"
    "page_usable (pmm s1) i = page_usable (pmm s) i" for i
    using inv by (simp_all add: s1_def page_ref_dec_def set_page_ref_def pmm_inv_upd_ref vm_inv_def
        page_ref_def page_usable_def)
  have inj: "tabs_inj (frames s) dir" using inv by (simp add: vm_inv_def)
  have "\<exists>s2 bs'. (if page_ref p s1 = 0 then free_page p s1 else Some s1) = Some s2 \<and> frames s2 = frames s \<and>
      npage s2 = npage s \<and> pmm_inv (pmm s2) bs' \<and> block_pages bs' = block_pages bs \<union> (if page_ref p s = 1 then {p} else {}) \<and>
      (page_ref p s \<noteq> 1 \<longrightarrow> page_ref p s2 = page_ref p s - 1)"
  proof (cases "page_ref p s = 1")
    case True
    have rng: "{p..<p + 1} = {p}" by auto
    obtain q bs' where "default_free_pages p 1 (pmm s1) = Some q" "pmm_inv q bs'"
        "block_pages bs' = block_pages bs \<union> {p}"
      using ff.free_some [OF s1(3), of 1 p] fr [OF True] s1(5) unfolding rng by auto
    then show ?thesis using True s1 by (auto simp: free_page_def)
  qed (use s1 in auto)
  then obtain s2 bs' where s2: "(if page_ref p s1 = 0 then free_page p s1 else Some s1) = Some s2"
      "frames s2 = frames s" "npage s2 = npage s" "pmm_inv (pmm s2) bs'"
      "block_pages bs' = block_pages bs \<union> (if page_ref p s = 1 then {p} else {})"
      "page_ref p s \<noteq> 1 \<longrightarrow> page_ref p s2 = page_ref p s - 1" by blast
  define s3 where "s3 = set_entry t (PTX la) 0 s2"
  have s3: "frames s3 = (frames s)(t := (frames s t)(PTX la := 0))" "npage s3 = npage s" "pmm_inv (pmm s3) bs'"
    "page_ref p s \<noteq> 1 \<longrightarrow> page_ref p s3 = page_ref p s - 1"
    using s2 by (simp_all add: s3_def set_entry_def page_ref_def)
  have "page_remove_pte (t, PTX la) s = Some s3"
    using v p s2(1) by (simp add: page_remove_pte_def s1_def [symmetric] s3_def Let_def split: if_splits)
  moreover have "vm_inv s3 dir bs'"
  proof (rule vm_inv_set_pte [OF inv t s3(1-3)])
    show "\<forall>q f. tab (frames s) dir q = Some f \<longrightarrow> f \<notin> block_pages bs'"
      using inv fr s2(5) by (auto simp: vm_inv_def split: if_splits)
    show "\<forall>i\<in>block_pages bs'. page2ppn i < npage s"
      using inv fr s2(5) by (auto simp: vm_inv_def split: if_splits)
  qed
  ultimately show ?thesis
    using s2(5) s3(4) pte_at_set [OF inj t, of 0] s3(1)
    by (intro exI [of _ s3] exI [of _ bs']) simp
qed

section \<open>Frame conditions\<close>

lemma pte_at_table: "tab F dir (L2 (PDX1 la) (PDX0 la)) = Some t \<Longrightarrow> pte_at F dir la = F t (PTX la)"
  by (simp add: pte_at_def)

lemma tab_agree:
  assumes "\<forall>q f. tab F dir q = Some f \<longrightarrow> F' f = F f"
  shows "tab F' dir = tab F dir"
proof
  fix q
  have d: "F' dir = F dir" using assms [rule_format, of Root dir] by simp
  then have s: "sub_table F' dir i = sub_table F dir i" for i by (simp add: sub_table_def)
  have "sub_table F' e j = sub_table F e j" if "sub_table F dir i = Some e" for i e j
    using assms [rule_format, of "L1 i" e] that by (simp add: sub_table_def [of _ e])
  then show "tab F' dir q = tab F dir q" using s by (cases q) (auto intro!: Option.bind_cong)
qed

lemma vm_inv_agree:
  assumes inv: "vm_inv s dir bs" and f: "\<forall>q f. tab (frames s) dir q = Some f \<longrightarrow> frames s' f = frames s f"
    and n: "npage s' = npage s" "pmm_inv (pmm s') bs'" "block_pages bs' \<subseteq> block_pages bs"
  shows "vm_inv s' dir bs' \<and> tab (frames s') dir = tab (frames s) dir \<and> (\<forall>la. pte_at (frames s') dir la = pte_at (frames s) dir la)"
proof -
  note tab = tab_agree [OF f]
  have d: "frames s' dir = frames s dir" using f [rule_format, of Root dir] by simp
  have sub: "sub_table (frames s') dir i = sub_table (frames s) dir i" for i using d by (simp add: sub_table_def)
  have e: "frames s' e = frames s e" if "sub_table (frames s) dir i = Some e" for i e
    using f [rule_format, of "L1 i" e] that by simp
  have ok: "entry_ok s' x = entry_ok s x" for x by (simp add: entry_ok_def n(1))
  have "vm_inv s' dir bs'" unfolding vm_inv_def
  proof (intro conjI allI ballI impI)
    show "pmm_inv (pmm s') bs'" by (rule n(2))
    show "npage s' \<le> 2 ^ 44" using inv n(1) by (simp add: vm_inv_def)
    show "page2ppn i < npage s'" if "i \<in> block_pages bs'" for i using inv n that by (auto simp: vm_inv_def)
    show "tabs_inj (frames s') dir" using inv by (simp add: vm_inv_def tabs_inj_def tab)
    show "f \<notin> block_pages bs'" if "tab (frames s') dir q = Some f" for q f using inv n(3) that by (auto simp: vm_inv_def tab)
    show "entry_ok s' (frames s' dir i)" if "frames s' dir i AND PTE_V \<noteq> 0" for i using inv that by (simp add: vm_inv_def ok d)
    show "entry_ok s' (frames s' x j)" if "sub_table (frames s') dir i = Some x" "frames s' x j AND PTE_V \<noteq> 0" for i x j
      using inv that e [of i x] by (auto simp: vm_inv_def ok sub)
  qed
  moreover have "pte_at (frames s') dir la = pte_at (frames s) dir la" for la
  proof (cases "tab (frames s) dir (L2 (PDX1 la) (PDX0 la))")
    case (Some t)
    then have "frames s' t = frames s t" using f by blast
    then show ?thesis using Some tab by (simp add: pte_at_table)
  qed (simp add: pte_at_def tab del: tab.simps)
  ultimately show ?thesis using tab by blast
qed

section \<open>Correctness\<close>

definition demo_vm :: vm where
  "demo_vm = \<lparr>pmm = take_block 0 1 ten_pages, frames = (\<lambda>_ _. 0), npage = nbase + 10\<rparr>"

lemma demo_vm_inv: "vm_inv demo_vm 0 [(1, 9)]"
proof -
  have "pmm_inv (pmm demo_vm) [(1, 9)]"
    using take_block_inv [OF ten_pages_inv, of "[]" 0 10 "[]" 1] by (simp add: demo_vm_def)
  moreover have "tab (frames demo_vm) 0 q = Some f \<longleftrightarrow> q = Root \<and> f = 0" for q f
    by (cases q) (auto simp: demo_vm_def sub_table_def)
  moreover have "sub_table (frames demo_vm) 0 i = None" for i
    by (simp add: demo_vm_def sub_table_def)
  moreover have "npage demo_vm = nbase + 10" "frames demo_vm 0 i = 0" for i by (simp_all add: demo_vm_def)
  ultimately show ?thesis by (auto simp: vm_inv_def tabs_inj_def page2ppn_def nbase_def)
qed

text \<open>Encoding and decoding of page table entries: the frame stored in an entry by
  \<open>pte_create\<close> is the one \<open>pte2page\<close> reads back, whatever the ten permission bits.\<close>

theorem pte_create_pte2page:
  assumes "page2ppn p < npage s" and "npage s \<le> 2 ^ 44" and "perm AND NOT 0x3FF = 0"
  shows "pte2page s (pte_create (page2ppn p) perm) = Some p"
  using assms by (rule pte2page_create)

theorem pte_create_pte2page_witness:
  "pte2page demo_vm (pte_create (page2ppn 7) (PTE_U OR PTE_W)) = Some 7"
  by (rule pte_create_pte2page) (simp_all add: demo_vm_def page2ppn_def nbase_def PTE_U_def PTE_W_def)



text \<open>Unmapping: \<open>page_remove\<close> at a mapped address clears exactly the entry of that
  page number; a page that is still referenced elsewhere only loses one reference, and a
  page with a single reference is given back to the allocator.\<close>

theorem page_remove_unmaps:
  assumes "vm_inv s dir bs" and "pte2page s (pte_at (frames s) dir la) = Some p"
    and "page_ref p s = 1 \<Longrightarrow> p \<notin> block_pages bs \<and> (\<forall>q. tab (frames s) dir q \<noteq> Some p) \<and>
       page_usable (pmm s) p \<and> higher_free p bs \<and> page2ppn p < npage s \<and> p + 2 < 2 ^ 32"
  shows "\<exists>s' bs'. page_remove dir la s = Some s' \<and> vm_inv s' dir bs' \<and>
     block_pages bs' = block_pages bs \<union> (if page_ref p s = 1 then {p} else {}) \<and>
     (page_ref p s \<noteq> 1 \<longrightarrow> page_ref p s' = page_ref p s - 1) \<and>
     (\<forall>la'. pte_at (frames s') dir la' = (if vpn la' = vpn la then 0 else pte_at (frames s) dir la'))"
proof -
  have v: "pte_at (frames s) dir la AND PTE_V \<noteq> 0"
    using assms(2) by (auto simp: pte2page_def elim!: bind_eq_SomeE)
  then obtain t where t: "tab (frames s) dir (L2 (PDX1 la) (PDX0 la)) = Some t"
    unfolding pte_at_def by (cases "tab (frames s) dir (L2 (PDX1 la) (PDX0 la))") auto
  then have e: "pte_at (frames s) dir la = frames s t (PTX la)" by (simp add: pte_at_def)
  have "page_remove dir la s = page_remove_pte (t, PTX la) s"
    using get_pte_lookup [OF assms(1), of la] t by (simp add: page_remove_def)
  then show ?thesis
    using page_remove_pte_spec [OF assms(1) t] v assms(2,3) unfolding e by simp
qed

text \<open>A directory (frame 0) with one page table (frame 2) that maps frame 3 at 0x800000.\<close>

definition mapped_vm :: vm where
  "mapped_vm = \<lparr>pmm = upd_page 3 (\<lambda>d. d\<lparr>pg_ref := 1\<rparr>) (take_block 0 4 ten_pages),
     frames = (\<lambda>p i. if p = 0 \<and> i = 0 then pte_create (page2ppn 1) (PTE_U OR PTE_V)
                     else if p = 1 \<and> i = 4 then pte_create (page2ppn 2) (PTE_U OR PTE_V)
                     else if p = 2 \<and> i = 0 then pte_create (page2ppn 3) (PTE_U OR PTE_W) else 0),
     npage = nbase + 10\<rparr>"

lemma mapped_vm_entries:
  assumes "p < 10" "typ \<in> {PTE_U OR PTE_V, PTE_U OR PTE_W}"
  shows "entry_page (pte_create (page2ppn p) typ) = p" "entry_ok mapped_vm (pte_create (page2ppn p) typ)"
    "pte2page mapped_vm (pte_create (page2ppn p) typ) = Some p"
proof -
  have "page2ppn p < npage mapped_vm" "npage mapped_vm \<le> 2 ^ 44" "typ AND NOT 0x3FF = 0"
    using assms by (auto simp: mapped_vm_def page2ppn_def nbase_def PTE_U_def PTE_V_def PTE_W_def)
  note k = this
  show "entry_page (pte_create (page2ppn p) typ) = p" "entry_ok mapped_vm (pte_create (page2ppn p) typ)"
    "pte2page mapped_vm (pte_create (page2ppn p) typ) = Some p"
    using entry_create [OF k] pte2page_create [OF k] by auto
qed

lemma mapped_vm_tab:
  "sub_table (frames mapped_vm) 0 i = (if i = 0 then Some 1 else None)"
  "sub_table (frames mapped_vm) 1 i = (if i = 4 then Some 2 else None)"
  "tab (frames mapped_vm) 0 q = Some f \<longleftrightarrow> (q, f) \<in> {(Root, 0), (L1 0, 1), (L2 0 4, 2)}"
proof -
  show s0: "sub_table (frames mapped_vm) 0 i = (if i = 0 then Some 1 else None)" for i
    using mapped_vm_entries(1) [of 1 "PTE_U OR PTE_V"] pte_create_valid [of "page2ppn 1" "PTE_U OR PTE_V"]
    by (simp add: mapped_vm_def sub_table_def)
  show s1: "sub_table (frames mapped_vm) 1 i = (if i = 4 then Some 2 else None)" for i
    using mapped_vm_entries(1) [of 2 "PTE_U OR PTE_V"] pte_create_valid [of "page2ppn 2" "PTE_U OR PTE_V"]
    by (simp add: mapped_vm_def sub_table_def)
  show "tab (frames mapped_vm) 0 q = Some f \<longleftrightarrow> (q, f) \<in> {(Root, 0), (L1 0, 1), (L2 0 4, 2)}"
    by (cases q) (auto simp: s0 s1 [simplified] split: if_splits)
qed

lemma mapped_vm_inv: "vm_inv mapped_vm 0 [(4, 6)]"
proof -
  have "pmm_inv (pmm mapped_vm) [(4, 6)]"
    using take_block_inv [OF ten_pages_inv, of "[]" 0 10 "[]" 4] by (simp add: mapped_vm_def pmm_inv_upd_ref)
  moreover have "entry_ok mapped_vm (frames mapped_vm 0 i)" if "frames mapped_vm 0 i AND PTE_V \<noteq> 0" for i
    using that mapped_vm_entries(2) [of 1 "PTE_U OR PTE_V"] by (auto simp: mapped_vm_def split: if_splits)
  moreover have "entry_ok mapped_vm (frames mapped_vm d i)"
    if "sub_table (frames mapped_vm) 0 k = Some d" "frames mapped_vm d i AND PTE_V \<noteq> 0" for k d i
    using that mapped_vm_entries(2) [of 2 "PTE_U OR PTE_V"]
    by (auto simp: mapped_vm_tab) (auto simp: mapped_vm_def split: if_splits)
  moreover have "npage mapped_vm = nbase + 10" by (simp add: mapped_vm_def)
  ultimately show ?thesis
    unfolding vm_inv_def tabs_inj_def mapped_vm_tab(3) by (auto simp: page2ppn_def nbase_def)
qed

theorem page_remove_unmaps_witness:
  "\<exists>s' bs'. page_remove 0 0x800000 mapped_vm = Some s' \<and> vm_inv s' 0 bs' \<and>
     block_pages bs' = block_pages [(4, 6)] \<union> (if page_ref 3 mapped_vm = 1 then {3} else {}) \<and>
     (page_ref 3 mapped_vm \<noteq> 1 \<longrightarrow> page_ref 3 s' = page_ref 3 mapped_vm - 1) \<and>
     (\<forall>la'. pte_at (frames s') 0 la' = (if vpn la' = vpn 0x800000 then 0 else pte_at (frames mapped_vm) 0 la'))"
proof (rule page_remove_unmaps [OF mapped_vm_inv])
  have "PDX1 0x800000 = 0" "PDX0 0x800000 = 4" "PTX 0x800000 = 0"
    by (simp_all add: PDX1_def PDX0_def PTX_def drop_bit_eq_div)
  moreover have "tab (frames mapped_vm) 0 (L2 0 4) = Some 2" unfolding mapped_vm_tab(3) by simp
  ultimately have "pte_at (frames mapped_vm) 0 0x800000 = pte_create (page2ppn 3) (PTE_U OR PTE_W)"
    by (simp add: pte_at_def del: tab.simps) (simp add: mapped_vm_def)
  then show "pte2page mapped_vm (pte_at (frames mapped_vm) 0 0x800000) = Some 3"
    using mapped_vm_entries(3) [of 3 "PTE_U OR PTE_W"] by simp
  have "page_usable (pmm mapped_vm) 3"
    using pmm_inv_usable [OF ten_pages_inv, of 3] take_block_usable [of 0 4 ten_pages 3]
    by (simp add: mapped_vm_def page_usable_def)
  then show "3 \<notin> block_pages [(4, 6)] \<and> (\<forall>q. tab (frames mapped_vm) 0 q \<noteq> Some 3) \<and>
      page_usable (pmm mapped_vm) 3 \<and> higher_free 3 [(4, 6)] \<and> page2ppn 3 < npage mapped_vm \<and> 3 + 2 < (2::nat) ^ 32"
    unfolding mapped_vm_tab(3) by (auto simp: higher_free_def page2ppn_def mapped_vm_def)
qed

end
