(* ===== verification/Slob.thy ===== *)
theory Slob
  imports Page_Table
begin

text \<open>
  The kernel memory allocator \<open>src/lab8/kern/mm/kmalloc.c\<close>: a circular list of free blocks sorted by address, from which
  \<open>slob_alloc\<close> takes units of 16 bytes, and big blocks that are whole runs of pages. Addresses inside the heap are
  counted in units; \<open>kmalloc\<close> and \<open>kfree\<close> deal in bytes. The static block \<open>arena\<close> lies below all pages. Headers of
  blocks are the stores \<open>units\<close> and \<open>nxt\<close>; the descriptors of big blocks have a store of their own, because the header of
  such a descriptor is not read until \<open>slob_free\<close> writes it again. Pages come from the first-fit manager. A failed
  assertion and a search that never ends give \<open>None\<close>.

  \<open>heap s bs\<close> says that the links lead from \<open>arena\<close> through the free blocks \<open>bs\<close>, sorted and with gaps between them, back to
  \<open>arena\<close>, and \<open>kheap\<close> adds the page allocator. The lemmas show that searching, taking, returning and
  growing by a page keep it and what they do to the set of free units.
\<close>

section \<open>The heap\<close>

definition SLOB_UNIT :: nat where "SLOB_UNIT = 16"

definition SLOB_UNITS :: "nat \<Rightarrow> nat" where
  "SLOB_UNITS sz = (sz + SLOB_UNIT - 1) div SLOB_UNIT"

record bigblock =
  bb_order :: nat
  bb_pages :: nat
  bb_next :: "nat option"

record slob =
  units :: "nat \<Rightarrow> nat"
  nxt :: "nat \<Rightarrow> nat"
  slobfree :: nat
  arena :: nat
  bigblocks :: "nat option"
  bigs :: "nat \<Rightarrow> bigblock"
  kpmm :: pmm_state
  knpage :: nat

text \<open>The unit at which the kernel mapping of page 0 would start, and the first unit that \<open>PADDR\<close> accepts.\<close>

definition KVA_UNIT :: nat where "KVA_UNIT = 0xFFFFFFFFC000000"
definition KERNBASE_UNIT :: nat where "KERNBASE_UNIT = 0xFFFFFFFFC020000"

definition page_unit :: "nat \<Rightarrow> nat" where
  "page_unit p = KVA_UNIT + 256 * p"

definition slob_get_free_pages :: "nat \<Rightarrow> slob \<Rightarrow> (nat option \<times> slob) option" where
  "slob_get_free_pages order s = do {
     (page, q) \<leftarrow> default_alloc_pages (2 ^ order) (kpmm s);
     let s = s\<lparr>kpmm := q\<rparr>;
     (case page of
        None \<Rightarrow> Some (None, s)
      | Some p \<Rightarrow> do {
          kassert (page2ppn p < knpage s);
          Some (Some (page_unit p), s) }) }"

definition slob_free_pages :: "nat \<Rightarrow> nat \<Rightarrow> slob \<Rightarrow> slob option" where
  "slob_free_pages kva order s = do {
     kassert (KERNBASE_UNIT \<le> kva);
     let p = (kva - KVA_UNIT) div 256;
     kassert (page2ppn p < knpage s);
     q \<leftarrow> default_free_pages p (2 ^ order) (kpmm s);
     Some (s\<lparr>kpmm := q\<rparr>) }"

section \<open>Release\<close>

text \<open>The reinsertion point of \<open>b\<close>; the search may run forever.\<close>

partial_function (option) slob_point :: "nat \<Rightarrow> nat \<Rightarrow> slob \<Rightarrow> nat option" where
  "slob_point b cur s =
     (if b > cur \<and> b < nxt s cur then Some cur
      else if cur \<ge> nxt s cur \<and> (b > cur \<or> b < nxt s cur) then Some cur
      else slob_point b (nxt s cur) s)"

definition slob_link :: "nat \<Rightarrow> nat \<Rightarrow> slob \<Rightarrow> slob" where
  "slob_link b cur s =
     (let s = (if b + units s b = nxt s cur
               then s\<lparr>units := (units s)(b := units s b + units s (nxt s cur)), nxt := (nxt s)(b := nxt s (nxt s cur))\<rparr>
               else s\<lparr>nxt := (nxt s)(b := nxt s cur)\<rparr>);
          s = (if cur + units s cur = b
               then s\<lparr>units := (units s)(cur := units s cur + units s b), nxt := (nxt s)(cur := nxt s b)\<rparr>
               else s\<lparr>nxt := (nxt s)(cur := b)\<rparr>)
      in s\<lparr>slobfree := cur\<rparr>)"

definition slob_free :: "nat option \<Rightarrow> nat \<Rightarrow> slob \<Rightarrow> slob option" where
  "slob_free block sz s =
     (case block of
        None \<Rightarrow> Some s
      | Some b \<Rightarrow> do {
          let s = (if sz \<noteq> 0 then s\<lparr>units := (units s)(b := SLOB_UNITS sz)\<rparr> else s);
          cur \<leftarrow> slob_point b (slobfree s) s;
          Some (slob_link b cur s) })"

section \<open>Allocation\<close>

text \<open>Taking \<open>n\<close> units of the block \<open>cur\<close> after \<open>prev\<close>, the first \<open>delta\<close> of which are cut off for alignment.\<close>

definition slob_take :: "nat \<Rightarrow> nat \<Rightarrow> nat \<Rightarrow> nat \<Rightarrow> slob \<Rightarrow> nat \<times> slob" where
  "slob_take n delta prev cur s =
     (let (prev, cur, s) =
        (if delta \<noteq> 0
         then let a = cur + delta;
                  s = s\<lparr>units := (units s)(a := units s cur - delta), nxt := (nxt s)(a := nxt s cur)\<rparr>;
                  s = s\<lparr>nxt := (nxt s)(cur := a), units := (units s)(cur := delta)\<rparr>
              in (cur, a, s)
         else (prev, cur, s));
        s = (if units s cur = n
             then s\<lparr>nxt := (nxt s)(prev := nxt s cur)\<rparr>
             else let r = cur + n;
                      s = s\<lparr>nxt := (nxt s)(prev := r)\<rparr>;
                      s = s\<lparr>units := (units s)(r := units s cur - n)\<rparr>;
                      s = s\<lparr>nxt := (nxt s)(r := nxt s cur)\<rparr>
                  in s\<lparr>units := (units s)(cur := n)\<rparr>)
      in (cur, s\<lparr>slobfree := prev\<rparr>))"

definition ALIGN_delta :: "nat \<Rightarrow> nat \<Rightarrow> nat" where
  "ALIGN_delta cur align = (if align \<noteq> 0 then ROUNDUP (16 * cur) align div 16 - cur else 0)"

partial_function (option) slob_find :: "nat \<Rightarrow> nat \<Rightarrow> nat \<Rightarrow> nat \<Rightarrow> slob \<Rightarrow> (nat option \<times> slob) option" where
  "slob_find sz align prev cur s =
     (let n = SLOB_UNITS sz; delta = ALIGN_delta cur align in
      if units s cur \<ge> n + delta
      then let (c, s) = slob_take n delta prev cur s in Some (Some c, s)
      else if cur = slobfree s
      then if sz = PGSIZE then Some (None, s)
        else Option.bind (slob_get_free_pages 0 s) (\<lambda>(page, s).
          if page = None then Some (None, s)
          else Option.bind (slob_free page PGSIZE s) (\<lambda>s. slob_find sz align (slobfree s) (nxt s (slobfree s)) s))
      else slob_find sz align cur (nxt s cur) s)"

definition slob_alloc :: "nat \<Rightarrow> nat \<Rightarrow> slob \<Rightarrow> (nat option \<times> slob) option" where
  "slob_alloc sz align s = do {
     kassert (sz + SLOB_UNIT < PGSIZE);
     slob_find sz align (slobfree s) (nxt s (slobfree s)) s }"

section \<open>kmalloc and kfree\<close>

text \<open>\<open>size\<close> is converted to a 32-bit \<open>int\<close>; a negative one gives order 0.\<close>

definition to_int :: "nat \<Rightarrow> int" where
  "to_int n = (let m = int n mod 2 ^ 32 in if m < 2 ^ 31 then m else m - 2 ^ 32)"

function find_order :: "int \<Rightarrow> nat" where
  "find_order sz = (if sz > 4096 then Suc (find_order (sz div 2)) else 0)"
  by pat_completeness auto

termination find_order
  by (relation "measure nat") auto

declare find_order.simps [simp del]

definition kmalloc :: "nat \<Rightarrow> slob \<Rightarrow> (nat option \<times> slob) option" where
  "kmalloc sz s =
     (if sz < PGSIZE - SLOB_UNIT
      then do {
        (m, s) \<leftarrow> slob_alloc (sz + SLOB_UNIT) 0 s;
        Some (map_option (\<lambda>m. SLOB_UNIT * (m + 1)) m, s) }
      else do {
        (bb, s) \<leftarrow> slob_alloc 24 0 s;
        (case bb of
           None \<Rightarrow> Some (None, s)
         | Some b \<Rightarrow> do {
             let order = find_order (to_int sz);
             (pages, s) \<leftarrow> slob_get_free_pages order s;
             (case pages of
                None \<Rightarrow> do { s \<leftarrow> slob_free (Some b) 24 s; Some (None, s) }
              | Some pg \<Rightarrow>
                  Some (Some (SLOB_UNIT * pg), s\<lparr>bigs := (bigs s)(b := \<lparr>bb_order = order, bb_pages = SLOB_UNIT * pg, bb_next = bigblocks s\<rparr>), bigblocks := Some b\<rparr>)) }) })"

text \<open>Searching the list of big blocks; \<open>last\<close> is the block whose link leads to \<open>bb\<close>, none for the head of the list.\<close>

partial_function (option) big_find :: "nat \<Rightarrow> nat option \<Rightarrow> nat option \<Rightarrow> slob \<Rightarrow> (nat option \<times> nat) option option" where
  "big_find block lst bb s =
     (case bb of
        None \<Rightarrow> Some None
      | Some b \<Rightarrow> if bb_pages (bigs s b) = block then Some (Some (lst, b)) else big_find block (Some b) (bb_next (bigs s b)) s)"

definition big_unlink :: "nat option \<Rightarrow> nat \<Rightarrow> slob \<Rightarrow> slob" where
  "big_unlink lst b s =
     (case lst of
        None \<Rightarrow> s\<lparr>bigblocks := bb_next (bigs s b)\<rparr>
      | Some l \<Rightarrow> s\<lparr>bigs := (bigs s)(l := (bigs s l)\<lparr>bb_next := bb_next (bigs s b)\<rparr>)\<rparr>)"

definition kfree :: "nat \<Rightarrow> slob \<Rightarrow> slob option" where
  "kfree block s =
     (if block = 0 then Some s
      else do {
        hit \<leftarrow> (if block mod PGSIZE = 0 then big_find block None (bigblocks s) s else Some None);
        (case hit of
           Some (lst, b) \<Rightarrow> do {
             let s = big_unlink lst b s;
             s \<leftarrow> slob_free_pages (block div SLOB_UNIT) (bb_order (bigs s b)) s;
             slob_free (Some b) 24 s }
         | None \<Rightarrow> slob_free (Some (block div SLOB_UNIT - 1)) 0 s) })"

definition ksize :: "nat \<Rightarrow> slob \<Rightarrow> nat option" where
  "ksize block s =
     (if block = 0 then Some 0
      else do {
        hit \<leftarrow> (if block mod PGSIZE = 0 then big_find block None (bigblocks s) s else Some None);
        Some (case hit of
           Some (_, b) \<Rightarrow> u32 (PGSIZE * 2 ^ bb_order (bigs s b))
         | None \<Rightarrow> u32 (units s (block div SLOB_UNIT - 1) * SLOB_UNIT)) })"

section \<open>The ring of free blocks\<close>

text \<open>\<open>hops f a xs e\<close>: following \<open>f\<close> from \<open>a\<close> visits \<open>xs\<close> and then arrives at \<open>e\<close>.\<close>

fun hops :: "(nat \<Rightarrow> nat) \<Rightarrow> nat \<Rightarrow> nat list \<Rightarrow> nat \<Rightarrow> bool" where
  "hops f a [] e \<longleftrightarrow> f a = e"
| "hops f a (b # bs) e \<longleftrightarrow> f a = b \<and> hops f b bs e"

lemma hops_append [simp]: "hops f a (xs @ b # ys) e \<longleftrightarrow> hops f a xs b \<and> hops f b ys e"
  by (induction xs arbitrary: a) auto

lemma hops_upd: "x \<notin> set (a # xs) \<Longrightarrow> hops (f(x := y)) a xs e \<longleftrightarrow> hops f a xs e"
  by (induction xs arbitrary: a) auto

lemma hops_snoc: "hops f a xs e \<Longrightarrow> f (last (a # xs)) = e"
  by (induction xs arbitrary: a) auto

lemma hops_relink: "hops f a xs e \<Longrightarrow> distinct (a # xs) \<Longrightarrow> hops (f(last (a # xs) := y)) a xs y"
  by (induction xs arbitrary: a) auto

text \<open>The blocks in order of their addresses, with a gap between any two.\<close>

fun gaps :: "(nat \<Rightarrow> nat) \<Rightarrow> nat \<Rightarrow> nat list \<Rightarrow> bool" where
  "gaps u a [] \<longleftrightarrow> True"
| "gaps u a (b # bs) \<longleftrightarrow> a + u a < b \<and> gaps u b bs"

lemma gaps_append: "gaps u a (xs @ ys) \<longleftrightarrow> gaps u a xs \<and> gaps u (last (a # xs)) ys"
  by (induction xs arbitrary: a) auto

lemma gaps_above: "gaps u a xs \<Longrightarrow> x \<in> set xs \<Longrightarrow> a + u a < x"
  by (induction xs arbitrary: a) fastforce+

lemma gaps_cong: "(\<And>x. x \<in> set (a # xs) \<Longrightarrow> u' x = u x) \<Longrightarrow> gaps u' a xs \<longleftrightarrow> gaps u a xs"
  by (induction xs arbitrary: a) auto

lemma gaps_last: "gaps u a xs \<Longrightarrow> x \<in> set (a # xs) \<Longrightarrow> x \<le> last (a # xs)"
proof (induction xs arbitrary: a x)
  case (Cons y ys)
  have "z \<le> last (y # ys)" if "z \<in> set (y # ys)" for z using Cons.IH [of y z] Cons.prems(1) that by simp
  moreover have "last (a # y # ys) = last (y # ys)" by simp
  moreover have "a \<le> y" using Cons.prems(1) by simp
  ultimately show ?case using Cons.prems(2) by (metis list.set_intros(1) order_trans set_ConsD)
qed simp

lemma gaps_distinct: "gaps u a xs \<Longrightarrow> distinct (a # xs)"
proof (induction xs arbitrary: a)
  case (Cons y ys)
  have "a \<noteq> x" if "x \<in> set (y # ys)" for x using gaps_above [OF Cons.prems that] by simp
  then show ?case using Cons.IH [of y] Cons.prems by auto
qed simp

definition heap :: "slob \<Rightarrow> nat list \<Rightarrow> bool" where
  "heap s bs \<longleftrightarrow> hops (nxt s) (arena s) bs (arena s) \<and> gaps (units s) (arena s) bs \<and> units s (arena s) = 1 \<and>
     (\<forall>b\<in>set bs. 0 < units s b) \<and> slobfree s \<in> set (arena s # bs)"

definition free_units :: "slob \<Rightarrow> nat list \<Rightarrow> nat set" where
  "free_units s bs = (\<Union>b\<in>set bs. {b..<b + units s b})"

lemma heap_distinct: "heap s bs \<Longrightarrow> distinct (arena s # bs)"
  using gaps_distinct by (auto simp: heap_def)

lemma heap_split:
  assumes "heap s bs" "c \<in> set bs"
  obtains us vs where "bs = us @ c # vs" "nxt s (last (arena s # us)) = c" "hops (nxt s) (arena s) us c" "hops (nxt s) c vs (arena s)"
proof -
  obtain us vs where "bs = us @ c # vs" using assms(2) by (meson split_list)
  then show ?thesis using assms(1) hops_snoc [of "nxt s" "arena s" us c] that by (auto simp: heap_def)
qed

text \<open>Starting from any block, the links visit all the others once and come back.\<close>

lemma heap_rotate:
  assumes h: "heap s bs" and c: "c \<in> set (arena s # bs)"
  shows "\<exists>zs. hops (nxt s) c zs c \<and> set (c # zs) = set (arena s # bs) \<and> c \<notin> set zs"
proof (cases "c = arena s")
  case True
  then show ?thesis using h heap_distinct [OF h] by (auto simp: heap_def)
next
  case False
  then have "c \<in> set bs" using c by simp
  then obtain us vs where "bs = us @ c # vs" "hops (nxt s) (arena s) us c" "hops (nxt s) c vs (arena s)" using heap_split [OF h] by metis
  then show ?thesis using heap_distinct [OF h] by (intro exI [of _ "vs @ arena s # us"]) auto
qed

lemma heap_pred_unique:
  assumes h: "heap s bs" and p: "p \<in> set (arena s # bs)" and b: "bs = us @ nxt s p # vs" 
  shows "p = last (arena s # us)"
proof -
  have d: "distinct (arena s # bs)" by (rule heap_distinct [OF h])
  have c: "hops (nxt s) (arena s) bs (arena s)" using h by (simp add: heap_def)
  show ?thesis
  proof (cases "p = last (arena s # bs)")
    case True
    then have "nxt s p = arena s" using hops_snoc [OF c] by simp
    then show ?thesis using d b by auto
  next
    case False
    obtain xs ys where s: "arena s # bs = xs @ p # ys" using p by (meson split_list)
    have "ys \<noteq> []" using s False by (metis last_snoc)
    then obtain y zs where y: "ys = y # zs" by (cases ys) auto
    have n: "nxt s p = y"
    proof (cases xs)
      case Nil then show ?thesis using s y c by auto
    next
      case (Cons x xs') then have "bs = xs' @ p # y # zs" using s y by simp
      then show ?thesis using c by simp
    qed
    have e: "arena s # bs = (arena s # us) @ nxt s p # vs" using b by simp
    have e2: "arena s # bs = (xs @ [p]) @ nxt s p # zs" using s y n by simp
    have "arena s # us = xs @ [p]" using distinct_split_unique [of "arena s # us" "nxt s p" vs "xs @ [p]" zs] d e e2 by metis
    then show ?thesis by (metis last_snoc)
  qed
qed

section \<open>Taking units\<close>

lemma set_minus_part: "A \<inter> I = {} \<Longrightarrow> B \<inter> I = {} \<Longrightarrow> A \<union> B \<union> (C - I) = A \<union> B \<union> C - I"
  by blast

lemma slob_take_heap:
  assumes h: "heap s bs" and b: "bs = us @ c # vs" and p: "p = last (arena s # us)" and n: "2 \<le> n" "n \<le> units s c"
  shows "\<exists>s' bs'. slob_take n 0 p c s = (c, s') \<and> heap s' bs' \<and> units s' c = n \<and> arena s' = arena s \<and>
    free_units s' bs' = free_units s bs - {c..<c + n} \<and> (\<forall>x. x \<notin> free_units s bs \<longrightarrow> units s' x = units s x) \<and>
    kpmm s' = kpmm s \<and> knpage s' = knpage s \<and> bigs s' = bigs s \<and> bigblocks s' = bigblocks s"
proof -
  let ?a = "arena s" and ?u = "units s"
  have ch: "hops (nxt s) ?a us c" "hops (nxt s) c vs ?a" and gp: "gaps ?u ?a us" "p + ?u p < c" "gaps ?u c vs" and pos: "\<forall>x\<in>set bs. 0 < ?u x" and ua: "?u ?a = 1"
    using h p by (simp_all add: heap_def b gaps_append)
  have d: "distinct (?a # us @ c # vs)" using heap_distinct [OF h] b by simp
  have pu: "p \<in> set (?a # us)" using p by (metis last_in_set list.distinct(1))
  have ns: "nxt s p = c" using hops_snoc [OF ch(1)] p by simp
  have above: "c + ?u c < v" if "v \<in> set vs" for v using gaps_above [OF gp(3) that] .
  have below: "x + ?u x < c" if "x \<in> set us" for x
  proof -
    obtain w1 w2 where w: "us = w1 @ x # w2" using \<open>x \<in> set us\<close> by (meson split_list)
    have "gaps ?u ?a (us @ [c])" using gp(1,2) p by (simp add: gaps_append)
    then have "gaps ?u x (w2 @ [c])" by (simp add: w gaps_append)
    then show ?thesis using gaps_above [of ?u x "w2 @ [c]" c] by simp
  qed
  have fu: "free_units s bs = (\<Union>x\<in>set us. {x..<x + ?u x}) \<union> (\<Union>x\<in>set vs. {x..<x + ?u x}) \<union> {c..<c + ?u c}"
    by (auto simp: free_units_def b)
  have cf: "c \<in> free_units s bs" using n by (auto simp: fu)
  have off: "x + ?u x \<le> c" if "x \<in> set us" for x using below [OF that] by simp
  show ?thesis
  proof (cases "?u c = n")
    case True
    let ?s = "s\<lparr>nxt := (nxt s)(p := nxt s c), slobfree := p\<rparr>"
    have e: "slob_take n 0 p c s = (c, ?s)" using True by (simp add: slob_take_def)
    have "hops (nxt ?s) ?a (us @ vs) ?a"
    proof (cases vs)
      case Nil
      then show ?thesis using hops_relink [OF ch(1), of "nxt s c"] ch(2) d p by simp
    next
      case (Cons v vs')
      have "hops (nxt ?s) ?a us v" using hops_relink [OF ch(1), of v] ch(2) Cons d p by simp
      moreover have "p \<notin> set (v # vs')" using d pu Cons by auto
      then have "hops (nxt ?s) v vs' ?a" using ch(2) Cons by (simp add: hops_upd)
      ultimately show ?thesis using Cons by simp
    qed
    moreover have "gaps ?u ?a (us @ vs)"
    proof (cases vs)
      case (Cons v vs')
      have "p + ?u p < v" using above [of v] Cons gp(2) by simp
      then show ?thesis using gp(1,3) Cons p by (simp add: gaps_append)
    qed (use gp in simp)
    ultimately have "heap ?s (us @ vs)" using pos pu ua by (auto simp: heap_def b)
    moreover have "free_units ?s (us @ vs) = free_units s bs - {c..<c + n}"
    proof -
      have "(\<Union>x\<in>set us. {x..<x + ?u x}) \<inter> {c..<c + n} = {}" using off by fastforce
      moreover have "(\<Union>x\<in>set vs. {x..<x + ?u x}) \<inter> {c..<c + n} = {}" using above True by fastforce
      ultimately show ?thesis unfolding fu True by (auto simp: free_units_def)
    qed
    ultimately show ?thesis using e True by (intro exI [of _ ?s] exI [of _ "us @ vs"]) simp
  next
    case False
    let ?r = "c + n"
    let ?s = "s\<lparr>nxt := (nxt s)(p := ?r, ?r := nxt s c), units := ?u(?r := ?u c - n, c := n), slobfree := p\<rparr>"
    have lt: "n < ?u c" using n False by simp
    have pr: "p \<noteq> ?r" "c \<noteq> ?r" "p \<noteq> c" using gp(2) n by auto
    have e: "slob_take n 0 p c s = (c, ?s)" using False pr by (simp add: slob_take_def Let_def fun_upd_twist)
    have nr: "?r \<notin> set us" "?r \<notin> set vs" "?r \<noteq> ?a" "?r \<noteq> c" using below above lt gp n gaps_above [of ?u ?a bs c] h b by (fastforce simp: heap_def)+
    have c1: "hops (nxt ?s) ?a us ?r" using hops_relink [OF ch(1), of ?r] d p nr by (simp add: hops_upd fun_upd_twist pr)
    have c2: "hops (nxt ?s) ?r vs ?a"
    proof (cases vs)
      case Nil then show ?thesis using ch(2) by simp
    next
      case (Cons v vs')
      have "p \<notin> set vs" using pu d by auto
      then show ?thesis using ch(2) Cons nr by (simp add: hops_upd)
    qed
    have u: "units ?s x = ?u x" if "x \<in> set us \<union> set vs \<union> {?a}" for x using that nr d by auto
    have "gaps (units ?s) ?a us" by (subst gaps_cong [of _ _ _ ?u], rule u) (use gp(1) in auto)
    moreover have "last (?a # us) + units ?s (last (?a # us)) < ?r" using gp(2) p pu u [of p] by auto
    moreover have "gaps (units ?s) ?r vs"
    proof (cases vs)
      case (Cons v vs')
      have "gaps (units ?s) v vs'" by (subst gaps_cong [of _ _ _ ?u], rule u) (use gp(3) Cons in auto)
      then show ?thesis using Cons above [of v] lt n(1) by simp
    qed simp
    ultimately have "gaps (units ?s) ?a (us @ ?r # vs)" by (simp add: gaps_append)
    then have "heap ?s (us @ ?r # vs)" using c1 c2 pos pu ua u lt nr by (auto simp: heap_def b)
    moreover have "free_units ?s (us @ ?r # vs) = free_units s bs - {c..<c + n}"
    proof -
      have "(\<Union>x\<in>set us. {x..<x + ?u x}) \<inter> {c..<c + n} = {}" using off by fastforce
      moreover have "(\<Union>x\<in>set vs. {x..<x + ?u x}) \<inter> {c..<c + n} = {}" using above lt by fastforce
      moreover have "{?r..<?r + (?u c - n)} = {c..<c + ?u c} - {c..<c + n}" using lt by auto
      moreover have "free_units ?s (us @ ?r # vs) = (\<Union>x\<in>set us. {x..<x + ?u x}) \<union> (\<Union>x\<in>set vs. {x..<x + ?u x}) \<union> {?r..<?r + (?u c - n)}"
        using u nr by (auto simp: free_units_def)
      ultimately show ?thesis unfolding fu by (simp only: set_minus_part)
    qed
    moreover have "\<forall>x. x \<notin> free_units s bs \<longrightarrow> units ?s x = ?u x" using cf lt by (auto simp: fu)
    ultimately show ?thesis using e by (intro exI [of _ ?s] exI [of _ "us @ ?r # vs"]) simp
  qed
qed

section \<open>Returning units\<close>

text \<open>The blocks below and above an address.\<close>

lemma gaps_sorted: "gaps u a xs \<Longrightarrow> sorted_wrt (<) (a # xs)"
proof (induction xs arbitrary: a)
  case (Cons y ys)
  then show ?case using gaps_above [OF Cons.prems] by fastforce
qed simp

lemma takeWhile_cut: "\<forall>x\<in>set xs. P x \<Longrightarrow> \<forall>y\<in>set ys. \<not> P y \<Longrightarrow> takeWhile P (xs @ ys) = xs"
  by (induction xs) (cases ys, auto)

lemma heap_around:
  assumes h: "heap s bs" and b: "arena s < b" "b \<notin> set bs"
  obtains us vs where "bs = us @ vs" "\<forall>x\<in>set (arena s # us). x < b" "\<forall>x\<in>set vs. b < x"
proof
  have s: "sorted_wrt (<) bs" using gaps_sorted [of "units s" "arena s" bs] h by (simp add: heap_def)
  show "bs = takeWhile (\<lambda>x. x < b) bs @ dropWhile (\<lambda>x. x < b) bs" by simp
  show "\<forall>x\<in>set (arena s # takeWhile (\<lambda>x. x < b) bs). x < b" using b(1) by (auto dest: set_takeWhileD)
  show "\<forall>x\<in>set (dropWhile (\<lambda>x. x < b) bs). b < x"
  proof (cases "dropWhile (\<lambda>x. x < b) bs")
    case (Cons y ys)
    have "\<not> y < b" using hd_dropWhile [of "\<lambda>x. x < b" bs] Cons by simp
    moreover have "y \<in> set bs" using Cons by (metis list.set_intros(1) set_dropWhileD)
    ultimately have "b < y" using b(2) by (cases "y = b") auto
    moreover have "sorted_wrt (<) (y # ys)" using s Cons by (metis sorted_wrt_append takeWhile_dropWhile_id)
    ultimately show ?thesis unfolding Cons by fastforce
  next
    case Nil
    show ?thesis unfolding Nil by simp
  qed
qed

lemma hops_next: "hops f a (xs @ ys) e \<Longrightarrow> f (last (a # xs)) = hd (ys @ [e])"
  by (induction xs arbitrary: a) (cases ys, auto)

text \<open>The search stops at the block just below \<open>b\<close>, and only there.\<close>

lemma slob_point_test:
  assumes h: "heap s bs" and bs: "bs = us @ vs" and lo: "\<forall>x\<in>set (arena s # us). x < b" and hi: "\<forall>x\<in>set vs. b < x"
    and c: "cur \<in> set (arena s # bs)"
  shows "(b > cur \<and> b < nxt s cur) \<or> (cur \<ge> nxt s cur \<and> (b > cur \<or> b < nxt s cur)) \<longleftrightarrow> cur = last (arena s # us)"
proof -
  let ?a = "arena s" and ?p = "last (arena s # us)"
  have hp: "hops (nxt s) ?a bs ?a" and gp: "gaps (units s) ?a bs" using h by (simp_all add: heap_def)
  have so: "sorted_wrt (<) (?a # bs)" by (rule gaps_sorted [OF gp])
  have np: "nxt s ?p = hd (vs @ [?a])" using hops_next hp bs by blast
  have pb: "?p < b" using lo by (metis last_in_set list.distinct(1))
  show ?thesis
  proof
    assume e: "cur = ?p"
    show "(b > cur \<and> b < nxt s cur) \<or> (cur \<ge> nxt s cur \<and> (b > cur \<or> b < nxt s cur))"
    proof (cases vs)
      case Nil
      then have "nxt s cur = ?a" using e np by simp
      moreover have "?a \<le> ?p" using gaps_last [OF gp, of ?a] bs Nil by simp
      ultimately show ?thesis using pb e by simp
    next
      case (Cons v vs')
      then show ?thesis using e np pb hi by simp
    qed
  next
    assume t: "(b > cur \<and> b < nxt s cur) \<or> (cur \<ge> nxt s cur \<and> (b > cur \<or> b < nxt s cur))"
    obtain xs ys where x: "?a # bs = xs @ cur # ys" using c by (meson split_list)
    have n: "nxt s cur = hd (ys @ [?a])"
    proof (cases xs)
      case Nil then show ?thesis using x hops_next [of "nxt s" ?a "[]" bs ?a] hp by simp
    next
      case (Cons z zs)
      then have "bs = (zs @ [cur]) @ ys" using x by simp
      then show ?thesis using hops_next [of "nxt s" ?a "zs @ [cur]" ys ?a] hp by simp
    qed
    have srt: "\<forall>y\<in>set ys. cur < y" "\<forall>y\<in>set xs. y < cur" using so unfolding x by (auto simp: sorted_wrt_append)
    have an: "?a \<le> cur" using so c by auto
    have bn: "b \<notin> set (?a # bs)" using lo hi bs by auto
    have cb: "cur < b"
    proof (rule ccontr)
      assume "\<not> cur < b"
      then have "nxt s cur \<le> cur" "b < nxt s cur" using t bn c by (cases "b = cur", auto)+
      then show False using n srt lo by (cases ys) auto
    qed
    have yb: "b < y" if "y \<in> set ys" for y
    proof -
      obtain y0 ys' where y0: "ys = y0 # ys'" using \<open>y \<in> set ys\<close> by (cases ys) auto
      then have "cur < y0" "nxt s cur = y0" using srt n by auto
      then have "b < y0" using t by auto
      then show ?thesis using that y0 so unfolding x by (auto simp: sorted_wrt_append)
    qed
    have "?a # us = xs @ [cur]"
    proof -
      have "takeWhile (\<lambda>x. x < b) ((?a # us) @ vs) = ?a # us" using lo hi by (intro takeWhile_cut) auto
      moreover have "takeWhile (\<lambda>x. x < b) ((xs @ [cur]) @ ys) = xs @ [cur]" using srt cb yb by (intro takeWhile_cut) fastforce+
      moreover have "(?a # us) @ vs = (xs @ [cur]) @ ys" using x bs by simp
      ultimately show ?thesis by metis
    qed
    then show "cur = ?p" by simp
  qed
qed

lemma slob_point_ok:
  assumes h: "heap s bs" and bs: "bs = us @ vs" and lo: "\<forall>x\<in>set (arena s # us). x < b" and hi: "\<forall>x\<in>set vs. b < x"
  shows "slob_point b (slobfree s) s = Some (last (arena s # us))"
proof -
  let ?p = "last (arena s # us)"
  have step: "slob_point b c s = (if c = ?p then Some ?p else slob_point b (nxt s c) s)" if "c \<in> set (arena s # bs)" for c
    using slob_point_test [OF h bs lo hi that] by (subst slob_point.simps) auto
  have walk: "hops (nxt s) c zs e \<Longrightarrow> set (c # zs) \<subseteq> set (arena s # bs) \<Longrightarrow> ?p \<in> set (c # zs) \<Longrightarrow> slob_point b c s = Some ?p" for c zs e
  proof (induction zs arbitrary: c)
    case Nil
    then show ?case using step [of c] by simp
  next
    case (Cons z zs)
    then show ?case using step [of c] by (cases "c = ?p") auto
  qed
  have sf: "slobfree s \<in> set (arena s # bs)" using h by (simp add: heap_def)
  obtain zs where z: "hops (nxt s) (slobfree s) zs (slobfree s)" "set (slobfree s # zs) = set (arena s # bs)" using heap_rotate [OF h sf] by blast
  have "?p \<in> set (arena s # us)" by (metis last_in_set list.distinct(1))
  then have "?p \<in> set (slobfree s # zs)" using z(2) bs by auto
  then show ?thesis using walk [OF z(1)] z(2) by blast
qed

lemma gaps_below: "gaps u a (xs @ ys) \<Longrightarrow> x \<in> set (a # xs) \<Longrightarrow> y \<in> set ys \<Longrightarrow> x + u x < y"
proof -
  assume g: "gaps u a (xs @ ys)" "x \<in> set (a # xs)" "y \<in> set ys"
  show ?thesis
  proof (cases "x = a")
    case True then show ?thesis using gaps_above [OF g(1), of y] g(3) by simp
  next
    case False
    then obtain v w where "xs = v @ x # w" using g(2) by (metis set_ConsD split_list)
    then have "gaps u x (w @ ys)" using g(1) by (simp add: gaps_append)
    then show ?thesis using gaps_above [of u x "w @ ys" y] g(3) by simp
  qed
qed

text \<open>Blocks around a run of units that is not free.\<close>

definition fits_at :: "slob \<Rightarrow> nat list \<Rightarrow> nat list \<Rightarrow> nat \<Rightarrow> nat \<Rightarrow> bool" where
  "fits_at s us vs b n \<longleftrightarrow> 0 < n \<and> arena s + 1 < b \<and> (\<forall>x\<in>set us. x + units s x \<le> b) \<and> (\<forall>x\<in>set vs. b + n \<le> x)"

lemma fits_around:
  assumes h: "heap s bs" and b: "arena s + 1 < b" "0 < n" "{b..<b + n} \<inter> free_units s bs = {}"
  obtains us vs where "bs = us @ vs" "\<forall>x\<in>set (arena s # us). x < b" "\<forall>x\<in>set vs. b < x" "fits_at s us vs b n"
proof -
  have pos: "\<forall>x\<in>set bs. 0 < units s x" using h by (simp add: heap_def)
  have nb: "b \<notin> set bs"
  proof
    assume "b \<in> set bs"
    then have "b \<in> free_units s bs" using pos by (auto simp: free_units_def)
    moreover have "b \<in> {b..<b + n}" using b(2) by simp
    ultimately show False using b(3) by blast
  qed
  obtain us vs where uv: "bs = us @ vs" "\<forall>x\<in>set (arena s # us). x < b" "\<forall>x\<in>set vs. b < x" using heap_around [OF h _ nb] b(1) by auto
  have "x + units s x \<le> b" if "x \<in> set us" for x
  proof (rule ccontr)
    assume "\<not> x + units s x \<le> b"
    then have "b \<in> free_units s bs" using that uv by (force simp: free_units_def)
    moreover have "b \<in> {b..<b + n}" using b(2) by simp
    ultimately show False using b(3) by blast
  qed
  moreover have "b + n \<le> x" if "x \<in> set vs" for x
  proof (rule ccontr)
    assume "\<not> b + n \<le> x"
    moreover have "x \<in> free_units s bs" "b < x" using that uv pos by (auto simp: free_units_def)
    ultimately have "x \<in> {b..<b + n}" by simp
    then show False using b(3) \<open>x \<in> free_units s bs\<close> by blast
  qed
  ultimately show ?thesis using that uv b by (simp add: fits_at_def)
qed

text \<open>The right neighbour is merged first, then the left one.\<close>

lemma slob_link_right:
  assumes h: "heap s bs" and bs: "bs = us @ vs" and f: "fits_at s us vs b n" and un: "units s b = n" and p: "p = last (arena s # us)"
    and lo: "\<forall>x\<in>set (arena s # us). x < b"
  defines "s1 \<equiv> (if b + units s b = nxt s p
      then s\<lparr>units := (units s)(b := units s b + units s (nxt s p)), nxt := (nxt s)(b := nxt s (nxt s p))\<rparr> else s\<lparr>nxt := (nxt s)(b := nxt s p)\<rparr>)"
  shows "\<exists>vs'. hops (nxt s1) b vs' (arena s) \<and> gaps (units s1) b vs' \<and> hops (nxt s1) (arena s) us (hd (vs @ [arena s])) \<and> gaps (units s1) (arena s) us \<and>
    0 < units s1 b \<and> (\<forall>x. x \<noteq> b \<longrightarrow> units s1 x = units s x) \<and> set vs' \<subseteq> set vs \<and>
    (\<Union>x\<in>set (b # vs'). {x..<x + units s1 x}) = (\<Union>x\<in>set vs. {x..<x + units s x}) \<union> {b..<b + n}"
proof -
  let ?a = "arena s"
  have hp: "hops (nxt s) ?a (us @ vs) ?a" and gp: "gaps (units s) ?a (us @ vs)" and pos: "\<forall>x\<in>set (us @ vs). 0 < units s x" using h bs by (simp_all add: heap_def)
  have fa: "0 < n" "?a + 1 < b" "\<forall>x\<in>set us. x + units s x \<le> b" "\<forall>x\<in>set vs. b + n \<le> x" using f by (simp_all add: fits_at_def)
  have np: "nxt s p = hd (vs @ [?a])" using hops_next [OF hp] p by simp
  have bn: "b \<notin> set (?a # us @ vs)" using lo fa by fastforce
  have h1: "hops (nxt s) ?a us (hd (vs @ [?a]))" using hp by (cases vs) simp_all
  have g1: "gaps (units s) ?a us" using gp by (simp add: gaps_append)
  show ?thesis
  proof (cases vs)
    case Nil
    then have "nxt s p = ?a" using np by simp
    then have s1: "s1 = s\<lparr>nxt := (nxt s)(b := ?a)\<rparr>" using fa unfolding s1_def un by simp
    show ?thesis using h1 g1 bn fa un Nil by (intro exI [of _ "[]"]) (simp add: s1 hops_upd)
  next
    case (Cons v ws)
    have nv: "nxt s p = v" using np Cons by simp
    have hv: "hops (nxt s) v ws ?a" using hp Cons by simp
    have gv: "gaps (units s) v ws" using gp Cons by (simp add: gaps_append)
    have h1v: "hops (nxt s) ?a us v" using h1 Cons by simp
    show ?thesis
    proof (cases "b + n = v")
      case True
      have s1: "s1 = s\<lparr>units := (units s)(b := n + units s v), nxt := (nxt s)(b := nxt s v)\<rparr>" using True nv unfolding s1_def un by simp
      have h2: "hops (nxt s1) b ws ?a"
      proof (cases ws)
        case (Cons w ws')
        then show ?thesis using hv bn \<open>vs = v # ws\<close> by (simp add: s1 hops_upd)
      qed (use hv in \<open>simp add: s1\<close>)
      have g2: "gaps (units s1) b ws"
      proof (cases ws)
        case c: (Cons w ws')
        have "gaps (units s1) w ws'" by (subst gaps_cong [of _ _ _ "units s"]) (use gv c bn Cons in \<open>auto simp: s1\<close>)
        then show ?thesis using c gv True by (simp add: s1)
      qed simp
      have g3: "gaps (units s1) ?a us" by (subst gaps_cong [of _ _ _ "units s"]) (use g1 bn in \<open>auto simp: s1\<close>)
      have h3: "hops (nxt s1) ?a us (hd (vs @ [?a]))" using h1 bn by (simp add: s1 hops_upd)
      have "(\<Union>x\<in>set ws. {x..<x + units s1 x}) = (\<Union>x\<in>set ws. {x..<x + units s x})" using bn Cons by (intro SUP_cong) (auto simp: s1)
      moreover have "{b..<b + units s1 b} = {b..<b + n} \<union> {v..<v + units s v}" using True by (auto simp: s1)
      ultimately have "(\<Union>x\<in>set (b # ws). {x..<x + units s1 x}) = (\<Union>x\<in>set vs. {x..<x + units s x}) \<union> {b..<b + n}" using Cons by auto
      then show ?thesis using h2 g2 g3 h3 fa(1) Cons by (intro exI [of _ ws]) (simp add: s1 subset_insertI)
    next
      case False
      have s1: "s1 = s\<lparr>nxt := (nxt s)(b := v)\<rparr>" using False nv unfolding s1_def un by simp
      have "b + n < v" using fa(4) False Cons by auto
      then show ?thesis using h1v g1 hv gv bn fa un Cons by (intro exI [of _ vs]) (auto simp: s1 hops_upd)
    qed
  qed
qed

lemma hops_bypass:
  assumes "hops f a us e" "hops f b vs d" "distinct (a # us)" "last (a # us) \<notin> set vs"
  shows "hops (f(last (a # us) := f b)) a (us @ vs) d"
proof (cases vs)
  case Nil
  then show ?thesis using hops_relink [OF assms(1,3), of "f b"] assms(2) by simp
next
  case (Cons v ws)
  then show ?thesis using hops_relink [OF assms(1,3), of v] assms(2,4) by (simp add: hops_upd)
qed

lemma slob_link_heap:
  assumes h: "heap s bs" and bs: "bs = us @ vs" and f: "fits_at s us vs b n" and un: "units s b = n" and p: "p = last (arena s # us)"
    and lo: "\<forall>x\<in>set (arena s # us). x < b"
  shows "\<exists>bs'. heap (slob_link b p s) bs' \<and> free_units (slob_link b p s) bs' = free_units s bs \<union> {b..<b + n} \<and>
    (\<forall>x. x \<notin> free_units s bs \<union> {b} \<longrightarrow> units (slob_link b p s) x = units s x)"
proof -
  let ?a = "arena s"
  define s1 where "s1 = (if b + units s b = nxt s p
      then s\<lparr>units := (units s)(b := units s b + units s (nxt s p)), nxt := (nxt s)(b := nxt s (nxt s p))\<rparr> else s\<lparr>nxt := (nxt s)(b := nxt s p)\<rparr>)"
  obtain vs' where v: "hops (nxt s1) b vs' ?a" "gaps (units s1) b vs'" "hops (nxt s1) ?a us (hd (vs @ [?a]))" "gaps (units s1) ?a us" "0 < units s1 b"
      "\<forall>x. x \<noteq> b \<longrightarrow> units s1 x = units s x" "set vs' \<subseteq> set vs" "(\<Union>x\<in>set (b # vs'). {x..<x + units s1 x}) = (\<Union>x\<in>set vs. {x..<x + units s x}) \<union> {b..<b + n}"
    using slob_link_right [OF h bs f un p lo] unfolding s1_def by blast
  have a1: "arena s1 = ?a" by (simp add: s1_def)
  have gp: "gaps (units s) ?a (us @ vs)" and pos: "\<forall>x\<in>set (us @ vs). 0 < units s x" and ua: "units s ?a = 1" using h bs by (simp_all add: heap_def)
  have fa: "0 < n" "?a + 1 < b" "\<forall>x\<in>set us. x + units s x \<le> b" "\<forall>x\<in>set vs. b + n \<le> x" using f by (simp_all add: fits_at_def)
  have d: "distinct (?a # us @ vs)" by (rule gaps_distinct [OF gp])
  have pu: "p \<in> set (?a # us)" using p by (metis last_in_set list.distinct(1))
  have pb: "p \<noteq> b" "p < b" using lo pu by auto
  have pv: "p \<notin> set vs'" using pu d v(7) by auto
  have bv: "b \<notin> set (?a # us @ vs)" using lo fa by fastforce
  have u: "units s1 x = units s x" if "x \<in> set (?a # us @ vs)" for x using v(6) that bv by auto
  have U: "free_units s bs = (\<Union>x\<in>set us. {x..<x + units s x}) \<union> (\<Union>x\<in>set vs. {x..<x + units s x})" by (auto simp: free_units_def bs)
  have du: "distinct (?a # us)" using d by simp
  show ?thesis
  proof (cases "p + units s1 p = b")
    case True
    let ?s = "s1\<lparr>units := (units s1)(p := units s1 p + units s1 b), nxt := (nxt s1)(p := nxt s1 b), slobfree := p\<rparr>"
    have e: "slob_link b p s = ?s" using True by (simp add: slob_link_def Let_def s1_def [symmetric])
    have "p \<noteq> ?a" using True u [of ?a] ua fa(2) by auto
    then have pus: "p \<in> set us" using pu by simp
    then obtain xs where xs: "us = xs @ [p]" using p by (metis append_butlast_last_id last_ConsR list.distinct(1) list.set(1) empty_iff)
    have hp: "hops (nxt ?s) ?a (us @ vs') ?a" using hops_bypass [OF v(3,1) du] pv p by simp
    have g0: "gaps (units ?s) ?a us" unfolding xs
    proof -
      have "gaps (units s1) ?a xs" "last (?a # xs) + units s1 (last (?a # xs)) < p" using v(4) xs by (simp_all add: gaps_append)
      moreover have "p \<notin> set (?a # xs)" using d xs by auto
      moreover from this have "last (?a # xs) \<noteq> p" by (metis last_in_set list.distinct(1))
      moreover have "gaps (units ?s) ?a xs \<longleftrightarrow> gaps (units s1) ?a xs" using \<open>p \<notin> set (?a # xs)\<close> by (intro gaps_cong) auto
      ultimately show "gaps (units ?s) ?a (xs @ [p])" unfolding gaps_append by simp
    qed
    have g1: "gaps (units ?s) p vs'"
    proof (cases vs')
      case (Cons w ws)
      have "gaps (units ?s) w ws" by (subst gaps_cong [of _ _ _ "units s1"]) (use v(2) pv Cons in auto)
      moreover have "b + units s1 b < w" using v(2) Cons by simp
      ultimately show ?thesis using Cons True by simp
    qed simp
    have "gaps (units ?s) ?a (us @ vs')" using g0 g1 p by (simp add: gaps_append)
    moreover have "0 < units ?s x" if "x \<in> set (us @ vs')" for x using that pos u v(7) True pb by (auto simp: pus)
    ultimately have "heap ?s (us @ vs')" using hp a1 pus ua u [of ?a] \<open>p \<noteq> ?a\<close> by (simp add: heap_def)
    moreover have "free_units ?s (us @ vs') = free_units s bs \<union> {b..<b + n}"
    proof -
      have w: "(\<Union>x\<in>set xs. {x..<x + units ?s x}) = (\<Union>x\<in>set xs. {x..<x + units s x})" using d xs u by (intro SUP_cong) auto
      have w': "(\<Union>x\<in>set vs'. {x..<x + units ?s x}) = (\<Union>x\<in>set vs'. {x..<x + units s1 x})" using pv by (intro SUP_cong) auto
      have "{p..<p + units ?s p} = {p..<p + units s p} \<union> {b..<b + units s1 b}" using True u [of p] pus by auto
      then have "free_units ?s (us @ vs') = (\<Union>x\<in>set xs. {x..<x + units s x}) \<union> {p..<p + units s p} \<union> (\<Union>x\<in>set (b # vs'). {x..<x + units s1 x})"
        unfolding free_units_def xs using w w' by auto
      then show ?thesis unfolding v(8) U xs by auto
    qed
    moreover have "units ?s x = units s x" if "x \<notin> free_units s bs \<union> {b}" for x
    proof -
      have "p \<in> free_units s bs" using pus pos by (auto simp: U)
      then show ?thesis using that v(6) by auto
    qed
    ultimately show ?thesis unfolding e by blast
  next
    case False
    let ?s = "s1\<lparr>nxt := (nxt s1)(p := b), slobfree := p\<rparr>"
    have e: "slob_link b p s = ?s" using False by (simp add: slob_link_def Let_def s1_def [symmetric])
    have "hops (nxt ?s) ?a us b" using hops_relink [OF v(3) du, of b] p by simp
    moreover have "hops (nxt ?s) b vs' ?a" using v(1) pv pb by (simp add: hops_upd)
    ultimately have hp: "hops (nxt ?s) ?a (us @ b # vs') ?a" by simp
    have "p + units s1 p \<le> b"
    proof (cases "p = ?a")
      case True then show ?thesis using ua u [of ?a] fa by simp
    next
      case False then show ?thesis using pu fa u by auto
    qed
    then have "gaps (units ?s) ?a (us @ b # vs')" using v(2,4) p False by (simp add: gaps_append)
    moreover have "0 < units ?s x" if "x \<in> set (us @ b # vs')" for x using that pos u v(5,7) by auto
    ultimately have hh: "heap ?s (us @ b # vs')" using hp a1 pu ua u [of ?a] by (auto simp: heap_def)
    have "(\<Union>x\<in>set us. {x..<x + units s1 x}) = (\<Union>x\<in>set us. {x..<x + units s x})" using u by (intro SUP_cong) auto
    moreover have "free_units ?s (us @ b # vs') = (\<Union>x\<in>set us. {x..<x + units s1 x}) \<union> (\<Union>x\<in>set (b # vs'). {x..<x + units s1 x})"
      by (auto simp: free_units_def)
    ultimately have "free_units ?s (us @ b # vs') = free_units s bs \<union> {b..<b + n}" by (simp only: v(8) U Un_assoc)
    moreover have "units ?s x = units s x" if "x \<notin> free_units s bs \<union> {b}" for x using that v(6) by simp
    ultimately show ?thesis using hh unfolding e by blast
  qed
qed

lemma slob_link_simps [simp]:
  "arena (slob_link b p s) = arena s" "kpmm (slob_link b p s) = kpmm s" "knpage (slob_link b p s) = knpage s"
  "bigs (slob_link b p s) = bigs s" "bigblocks (slob_link b p s) = bigblocks s"
  by (simp_all add: slob_link_def Let_def)

text \<open>Releasing a run of units that is not free, with its size given or recorded in the header.\<close>

lemma heap_units_upd:
  assumes "heap s bs" "b \<notin> set (arena s # bs)"
  shows "heap (s\<lparr>units := (units s)(b := n)\<rparr>) bs \<and> free_units (s\<lparr>units := (units s)(b := n)\<rparr>) bs = free_units s bs"
proof -
  have "gaps ((units s)(b := n)) (arena s) bs \<longleftrightarrow> gaps (units s) (arena s) bs" using assms(2) by (intro gaps_cong) auto
  moreover have "free_units (s\<lparr>units := (units s)(b := n)\<rparr>) bs = free_units s bs"
    unfolding free_units_def by (intro SUP_cong) (use assms(2) in auto)
  ultimately show ?thesis using assms by (auto simp: heap_def)
qed

lemma slob_free_heap:
  assumes h: "heap s bs" and b: "arena s + 1 < b" "0 < n" "{b..<b + n} \<inter> free_units s bs = {}"
    and n: "n = (if sz = 0 then units s b else SLOB_UNITS sz)"
  shows "\<exists>s' bs'. slob_free (Some b) sz s = Some s' \<and> heap s' bs' \<and> free_units s' bs' = free_units s bs \<union> {b..<b + n} \<and> arena s' = arena s \<and>
    kpmm s' = kpmm s \<and> knpage s' = knpage s \<and> bigs s' = bigs s \<and> bigblocks s' = bigblocks s \<and>
    (\<forall>x. x \<notin> free_units s bs \<union> {b} \<longrightarrow> units s' x = units s x)"
proof -
  let ?s = "if sz \<noteq> 0 then s\<lparr>units := (units s)(b := SLOB_UNITS sz)\<rparr> else s"
  obtain us vs where uv: "bs = us @ vs" "\<forall>x\<in>set (arena s # us). x < b" "\<forall>x\<in>set vs. b < x" "fits_at s us vs b n" using fits_around [OF h b] by metis
  have bn: "b \<notin> set (arena s # bs)" using uv by auto
  have h': "heap ?s bs" "free_units ?s bs = free_units s bs" using heap_units_upd [OF h bn] h by auto
  have k: "arena ?s = arena s" "slobfree ?s = slobfree s" "kpmm ?s = kpmm s" "knpage ?s = knpage s" "bigs ?s = bigs s" "bigblocks ?s = bigblocks s" by simp_all
  have un: "units ?s b = n" using n by simp
  have f: "fits_at ?s us vs b n" using uv(4) bn uv(1) unfolding fits_at_def by auto
  let ?p = "last (arena ?s # us)"
  have pt: "slob_point b (slobfree ?s) ?s = Some ?p" using slob_point_ok [OF h'(1) uv(1)] uv(2,3) k by simp
  obtain bs' where r: "heap (slob_link b ?p ?s) bs'" "free_units (slob_link b ?p ?s) bs' = free_units ?s bs \<union> {b..<b + n}"
      "\<forall>x. x \<notin> free_units ?s bs \<union> {b} \<longrightarrow> units (slob_link b ?p ?s) x = units ?s x"
    using slob_link_heap [OF h'(1) uv(1) f un refl] uv(2) k by auto
  have "slob_free (Some b) sz s = Some (slob_link b ?p ?s)" using pt by (simp add: slob_free_def Let_def)
  moreover have "units ?s x = units s x" if "x \<noteq> b" for x using that by simp
  ultimately show ?thesis using r h'(2) k by (intro exI [of _ "slob_link b ?p ?s"] exI [of _ bs']) auto
qed

section \<open>Allocation\<close>

lemma SLOB_UNITS_page: "SLOB_UNITS PGSIZE = 256"
  by (simp add: SLOB_UNITS_def SLOB_UNIT_def PGSIZE_def)

definition page_units :: "nat \<Rightarrow> nat set" where
  "page_units p = {page_unit p..<page_unit p + 256}"

text \<open>The heap and the page allocator: free pages are not part of the heap.\<close>

definition kheap :: "slob \<Rightarrow> nat list \<Rightarrow> (nat \<times> nat) list \<Rightarrow> bool" where
  "kheap s bs fb \<longleftrightarrow> heap s bs \<and> pmm_inv (kpmm s) fb \<and>
     (\<forall>p\<in>block_pages fb. page2ppn p < knpage s \<and> arena s + 1 < page_unit p \<and> page_units p \<inter> free_units s bs = {})"

lemma get_page_outcome:
  assumes "kheap s bs fb"
  shows "(fb = [] \<and> slob_get_free_pages 0 s = Some (None, s)) \<or>
    (\<exists>p q fb'. slob_get_free_pages 0 s = Some (Some (page_unit p), s\<lparr>kpmm := q\<rparr>) \<and> p \<in> block_pages fb \<and> pmm_inv q fb' \<and> block_pages fb' = block_pages fb - {p})"
proof -
  let ?v = "\<lparr>pmm = kpmm s, frames = (\<lambda>_ _. 0), npage = 0\<rparr> :: vm"
  have "pmm_inv (pmm ?v) fb" using assms by (simp add: kheap_def)
  from alloc_page_spec [OF this] show ?thesis
  proof (elim disjE exE conjE)
    assume a: "fb = []" "alloc_page ?v = Some (None, ?v)"
    then have "default_alloc_pages 1 (kpmm s) = Some (None, kpmm s)" by (auto simp: alloc_page_def elim!: bind_eq_SomeE)
    then show ?thesis using a(1) by (simp add: slob_get_free_pages_def)
  next
    fix p q fb'
    assume a: "alloc_page ?v = Some (Some p, ?v\<lparr>pmm := q\<rparr>)" "p \<in> block_pages fb" "pmm_inv q fb'" "block_pages fb' = block_pages fb - {p}"
    then have "default_alloc_pages 1 (kpmm s) = Some (Some p, q)" by (auto simp: alloc_page_def elim!: bind_eq_SomeE)
    moreover have "page2ppn p < knpage s" using assms a(2) by (simp add: kheap_def)
    ultimately show ?thesis using a(2-4) by (simp add: slob_get_free_pages_def Let_def) blast
  qed
qed

definition slob_grow :: "nat \<Rightarrow> slob \<Rightarrow> (nat option \<times> slob) option" where
  "slob_grow sz s = Option.bind (slob_get_free_pages 0 s) (\<lambda>(page, s).
     if page = None then Some (None, s)
     else Option.bind (slob_free page PGSIZE s) (\<lambda>s. slob_find sz 0 (slobfree s) (nxt s (slobfree s)) s))"

lemma slob_find_step:
  assumes "sz \<noteq> PGSIZE"
  shows "slob_find sz 0 prev cur s =
     (if SLOB_UNITS sz \<le> units s cur then (let (c, s) = slob_take (SLOB_UNITS sz) 0 prev cur s in Some (Some c, s))
      else if cur = slobfree s then slob_grow sz s else slob_find sz 0 cur (nxt s cur) s)"
  using assms by (subst slob_find.simps) (simp add: ALIGN_delta_def slob_grow_def)

text \<open>One round of the search.\<close>

lemma slob_find_round:
  assumes sz: "sz \<noteq> PGSIZE"
  shows "hops (nxt s) prev cs (slobfree s) \<Longrightarrow> slobfree s \<notin> set cs \<Longrightarrow>
    (\<exists>p c. p \<in> set (prev # cs) \<and> c \<in> insert (slobfree s) (set cs) \<and> nxt s p = c \<and> SLOB_UNITS sz \<le> units s c \<and>
       slob_find sz 0 prev (nxt s prev) s = (let (c, s) = slob_take (SLOB_UNITS sz) 0 p c s in Some (Some c, s))) \<or>
    ((\<forall>c\<in>insert (slobfree s) (set cs). units s c < SLOB_UNITS sz) \<and> slob_find sz 0 prev (nxt s prev) s = slob_grow sz s)"
proof (induction cs arbitrary: prev)
  case Nil
  then show ?case using slob_find_step [OF sz, of prev "nxt s prev" s] by (cases "SLOB_UNITS sz \<le> units s (slobfree s)") auto
next
  case (Cons c cs)
  show ?case
  proof (cases "SLOB_UNITS sz \<le> units s c")
    case True
    then show ?thesis using Cons.prems slob_find_step [OF sz, of prev c s] by (intro disjI1 exI [of _ prev] exI [of _ c]) auto
  next
    case False
    then have e: "slob_find sz 0 prev (nxt s prev) s = slob_find sz 0 c (nxt s c) s"
      using Cons.prems slob_find_step [OF sz, of prev c s] by auto
    have "hops (nxt s) c cs (slobfree s)" "slobfree s \<notin> set cs" using Cons.prems by auto
    from Cons.IH [OF this] show ?thesis unfolding e using False by auto
  qed
qed

text \<open>The search from \<open>slobfree\<close>: it takes the units from a block that has enough, or there is none.\<close>

lemma slob_find_heap:
  assumes h: "heap s bs" and sz: "sz \<noteq> PGSIZE" "2 \<le> SLOB_UNITS sz"
  defines "n \<equiv> SLOB_UNITS sz"
  shows "if \<exists>b\<in>set bs. n \<le> units s b
    then \<exists>c s' bs'. slob_find sz 0 (slobfree s) (nxt s (slobfree s)) s = Some (Some c, s') \<and> heap s' bs' \<and> {c..<c + n} \<subseteq> free_units s bs \<and>
      free_units s' bs' = free_units s bs - {c..<c + n} \<and> units s' c = n \<and> arena s' = arena s \<and> (\<forall>x. x \<notin> free_units s bs \<longrightarrow> units s' x = units s x) \<and>
      kpmm s' = kpmm s \<and> knpage s' = knpage s \<and> bigs s' = bigs s \<and> bigblocks s' = bigblocks s
    else slob_find sz 0 (slobfree s) (nxt s (slobfree s)) s = slob_grow sz s"
proof -
  have sf: "slobfree s \<in> set (arena s # bs)" and ua: "units s (arena s) = 1" using h by (simp_all add: heap_def)
  obtain zs where z: "hops (nxt s) (slobfree s) zs (slobfree s)" "set (slobfree s # zs) = set (arena s # bs)" "slobfree s \<notin> set zs" using heap_rotate [OF h sf] by blast
  from slob_find_round [OF sz(1) z(1,3)] show ?thesis
  proof (elim disjE exE conjE)
    fix p c
    assume a: "p \<in> set (slobfree s # zs)" "c \<in> insert (slobfree s) (set zs)" "nxt s p = c" "SLOB_UNITS sz \<le> units s c"
      "slob_find sz 0 (slobfree s) (nxt s (slobfree s)) s = (let (c, s) = slob_take (SLOB_UNITS sz) 0 p c s in Some (Some c, s))"
    have "c \<noteq> arena s" using a(4) ua sz(2) by auto
    then have cb: "c \<in> set bs" using a(2) z(2) by auto
    then obtain us vs where uv: "bs = us @ c # vs" by (meson split_list)
    have p: "p = last (arena s # us)" using heap_pred_unique [OF h, of p us vs] a(1,3) uv z(2) by blast
    have sub: "{c..<c + n} \<subseteq> free_units s bs" using cb a(4) by (auto simp: free_units_def n_def)
    obtain s' bs' where t: "slob_take n 0 p c s = (c, s')" "heap s' bs'" "units s' c = n" "arena s' = arena s"
        "free_units s' bs' = free_units s bs - {c..<c + n}" "\<forall>x. x \<notin> free_units s bs \<longrightarrow> units s' x = units s x"
        "kpmm s' = kpmm s" "knpage s' = knpage s" "bigs s' = bigs s" "bigblocks s' = bigblocks s"
      using slob_take_heap [OF h uv p] sz(2) a(4) unfolding n_def by blast
    have "\<exists>b\<in>set bs. n \<le> units s b" using cb a(4) by (auto simp: n_def)
    moreover have "slob_find sz 0 (slobfree s) (nxt s (slobfree s)) s = Some (Some c, s')" using a(5) t(1) by (simp add: n_def)
    ultimately show ?thesis using t sub by auto
  next
    assume a: "\<forall>c\<in>insert (slobfree s) (set zs). units s c < SLOB_UNITS sz" "slob_find sz 0 (slobfree s) (nxt s (slobfree s)) s = slob_grow sz s"
    have "\<not> (\<exists>b\<in>set bs. n \<le> units s b)" using a(1) z(2) by (force simp: n_def)
    then show ?thesis using a(2) by (simp only: if_False)
  qed
qed

lemma page_units_disjoint: "r \<noteq> p \<Longrightarrow> page_units r \<inter> page_units p = {}"
  by (auto simp: page_units_def page_unit_def)

lemma heap_gap:
  assumes "heap s bs" "x \<in> set bs" "y \<in> set bs" "x < y"
  shows "x + units s x < y"
proof -
  obtain us vs where uv: "bs = us @ y # vs" using assms(3) by (meson split_list)
  have g: "gaps (units s) (arena s) (us @ y # vs)" using assms(1) uv by (simp add: heap_def)
  then have "sorted_wrt (<) (arena s # us @ y # vs)" by (rule gaps_sorted)
  then have "\<forall>v\<in>set vs. y < v" by (simp add: sorted_wrt_append)
  then have "x \<in> set us" using assms(2,4) uv by auto
  then show ?thesis using gaps_below [OF g, of x y] by simp
qed

text \<open>A run of free units lies in one block.\<close>

lemma heap_run:
  assumes h: "heap s bs" and r: "{x..<x + m} \<subseteq> free_units s bs" "0 < m"
  shows "\<exists>b\<in>set bs. {x..<x + m} \<subseteq> {b..<b + units s b}"
proof -
  have "x \<in> free_units s bs" using r by auto
  then obtain b where b: "b \<in> set bs" "b \<le> x" "x < b + units s b" by (auto simp: free_units_def)
  have "x + m \<le> b + units s b"
  proof (rule ccontr)
    let ?e = "b + units s b"
    assume "\<not> x + m \<le> ?e"
    then have "?e \<in> free_units s bs" using r(1) b(3) by (auto simp: subset_iff)
    then obtain y where y: "y \<in> set bs" "y \<le> ?e" "?e < y + units s y" by (auto simp: free_units_def)
    consider "y < b" | "y = b" | "b < y" by linarith
    then show False using heap_gap [OF h y(1) b(1)] heap_gap [OF h b(1) y(1)] y by cases auto
  qed
  then show ?thesis using b by (intro bexI [of _ b]) auto
qed

text \<open>
  What an allocation of \<open>n\<close> units at \<open>c\<close> leaves: \<open>new\<close> are the units of the page that the heap has grown by, or none.
\<close>

definition taken :: "slob \<Rightarrow> nat list \<Rightarrow> (nat \<times> nat) list \<Rightarrow> nat \<Rightarrow> nat \<Rightarrow> slob \<Rightarrow> nat list \<Rightarrow> (nat \<times> nat) list \<Rightarrow> nat set \<Rightarrow> bool" where
  "taken s bs fb n c s' bs' fb' new \<longleftrightarrow> kheap s' bs' fb' \<and> {c..<c + n} \<subseteq> free_units s bs \<union> new \<and>
     free_units s' bs' = free_units s bs \<union> new - {c..<c + n} \<and> units s' c = n \<and> arena s' = arena s \<and>
     (\<forall>x. x \<notin> free_units s bs \<union> new \<longrightarrow> units s' x = units s x) \<and> knpage s' = knpage s \<and> bigs s' = bigs s \<and> bigblocks s' = bigblocks s \<and>
     (new = {} \<and> fb' = fb \<or> (\<exists>p\<in>block_pages fb. new = page_units p \<and> block_pages fb' = block_pages fb - {p} \<and> (\<forall>b\<in>set bs. units s b < n)))"

text \<open>The outcome of an allocation of 17 to 4079 bytes.\<close>

lemma slob_alloc_outcome:
  assumes k: "kheap s bs fb" and sz: "16 < sz" "sz + 16 < 4096"
  defines "n \<equiv> SLOB_UNITS sz"
  shows "(slob_alloc sz 0 s = Some (None, s) \<and> fb = [] \<and> (\<forall>b\<in>set bs. units s b < n)) \<or>
    (\<exists>c s' bs' fb' new. slob_alloc sz 0 s = Some (Some c, s') \<and> taken s bs fb n c s' bs' fb' new)"
proof -
  have h: "heap s bs" using k by (simp add: kheap_def)
  have ne: "sz \<noteq> PGSIZE" using sz by (simp add: PGSIZE_def)
  have n2: "2 \<le> SLOB_UNITS sz" "n \<le> 256" using sz by (simp_all add: SLOB_UNITS_def SLOB_UNIT_def n_def)
  have al: "slob_alloc sz 0 s = slob_find sz 0 (slobfree s) (nxt s (slobfree s)) s" using sz by (simp add: slob_alloc_def SLOB_UNIT_def PGSIZE_def)
  show ?thesis
  proof (cases "\<exists>b\<in>set bs. n \<le> units s b")
    case True
    then obtain c s' bs' where c: "slob_find sz 0 (slobfree s) (nxt s (slobfree s)) s = Some (Some c, s')" "heap s' bs'" "{c..<c + n} \<subseteq> free_units s bs"
        "free_units s' bs' = free_units s bs - {c..<c + n}" "units s' c = n" "arena s' = arena s" "\<forall>x. x \<notin> free_units s bs \<longrightarrow> units s' x = units s x"
        "kpmm s' = kpmm s" "knpage s' = knpage s" "bigs s' = bigs s" "bigblocks s' = bigblocks s"
      using slob_find_heap [OF h ne n2(1)] unfolding n_def by auto
    have "kheap s' bs' fb" using k c by (auto simp: kheap_def)
    then show ?thesis using al c by (intro disjI2 exI [of _ c] exI [of _ s'] exI [of _ bs'] exI [of _ fb] exI [of _ "{}"]) (simp add: taken_def)
  next
    case False
    then have al: "slob_alloc sz 0 s = slob_grow sz s" using al slob_find_heap [OF h ne n2(1)] unfolding n_def by simp
    have small: "\<forall>b\<in>set bs. units s b < n" using False by auto
    from get_page_outcome [OF k] show ?thesis
    proof (elim disjE exE conjE)
      assume "fb = []" "slob_get_free_pages 0 s = Some (None, s)"
      then show ?thesis using al small by (simp add: slob_grow_def)
    next
      fix p q fb'
      assume g: "slob_get_free_pages 0 s = Some (Some (page_unit p), s\<lparr>kpmm := q\<rparr>)" "p \<in> block_pages fb" "pmm_inv q fb'" "block_pages fb' = block_pages fb - {p}"
      let ?s1 = "s\<lparr>kpmm := q\<rparr>"
      have h1: "heap ?s1 bs" "free_units ?s1 bs = free_units s bs" using h by (simp_all add: heap_def free_units_def)
      have pp: "arena ?s1 + 1 < page_unit p" "{page_unit p..<page_unit p + 256} \<inter> free_units ?s1 bs = {}" using k g(2) h1 by (auto simp: kheap_def page_units_def)
      obtain s2 bs2 where s2: "slob_free (Some (page_unit p)) PGSIZE ?s1 = Some s2" "heap s2 bs2" "free_units s2 bs2 = free_units s bs \<union> page_units p"
          "arena s2 = arena s" "kpmm s2 = q" "knpage s2 = knpage s" "bigs s2 = bigs s" "bigblocks s2 = bigblocks s"
          "\<forall>x. x \<notin> free_units s bs \<union> {page_unit p} \<longrightarrow> units s2 x = units s x"
        using slob_free_heap [OF h1(1) pp(1) _ pp(2), of PGSIZE] h1(2) SLOB_UNITS_page by (auto simp: page_units_def PGSIZE_def)
      have "\<exists>b\<in>set bs2. {page_unit p..<page_unit p + 256} \<subseteq> {b..<b + units s2 b}" using s2(3) by (intro heap_run [OF s2(2)]) (auto simp: page_units_def)
      then obtain b where b: "b \<in> set bs2" "{page_unit p..<page_unit p + 256} \<subseteq> {b..<b + units s2 b}" by blast
      then have "256 \<le> units s2 b" using card_mono [OF _ b(2)] by simp
      then have "\<exists>b\<in>set bs2. n \<le> units s2 b" using b(1) n2(2) by (intro bexI [of _ b]) auto
      then obtain c s' bs' where c: "slob_find sz 0 (slobfree s2) (nxt s2 (slobfree s2)) s2 = Some (Some c, s')" "heap s' bs'" "{c..<c + n} \<subseteq> free_units s2 bs2"
          "free_units s' bs' = free_units s2 bs2 - {c..<c + n}" "units s' c = n" "arena s' = arena s2" "\<forall>x. x \<notin> free_units s2 bs2 \<longrightarrow> units s' x = units s2 x"
          "kpmm s' = kpmm s2" "knpage s' = knpage s2" "bigs s' = bigs s2" "bigblocks s' = bigblocks s2"
        using slob_find_heap [OF s2(2) ne n2(1)] unfolding n_def by auto
      have e: "slob_alloc sz 0 s = Some (Some c, s')" using al g(1) s2(1) c(1) by (simp add: slob_grow_def)
      have "page_units r \<inter> free_units s' bs' = {}" if "r \<in> block_pages fb - {p}" for r using that k c(4) s2(3) page_units_disjoint [of r p] by (auto simp: kheap_def)
      then have kh: "kheap s' bs' fb'" using k c s2 g by (auto simp: kheap_def)
      have fr: "units s' x = units s x" if "x \<notin> free_units s bs \<union> page_units p" for x
        using that c(7) s2(3,9) by (auto simp: page_units_def)
      show ?thesis using e kh c s2 g(2,4) fr small
        by (intro disjI2 exI [of _ c] exI [of _ s'] exI [of _ bs'] exI [of _ fb'] exI [of _ "page_units p"]) (auto simp: taken_def)
    qed
  qed
qed

section \<open>Big blocks\<close>

fun big_path :: "slob \<Rightarrow> nat option \<Rightarrow> nat list \<Rightarrow> bool" where
  "big_path s r [] \<longleftrightarrow> r = None"
| "big_path s r (b # bs) \<longleftrightarrow> r = Some b \<and> big_path s (bb_next (bigs s b)) bs"

lemma big_find_none: "big_path s r xs \<Longrightarrow> \<forall>b\<in>set xs. bb_pages (bigs s b) \<noteq> block \<Longrightarrow> big_find block l r s = Some None"
proof (induction xs arbitrary: r l)
  case Nil
  then show ?case by (subst big_find.simps) simp
next
  case (Cons b xs)
  then show ?case by (subst big_find.simps) simp
qed

lemma big_path_cong: "big_path s r xs \<Longrightarrow> bigs s' = bigs s \<Longrightarrow> big_path s' r xs"
  by (induction xs arbitrary: r) auto

text \<open>\<open>find_order\<close> halves, rounding down: the order found is the least \<open>k\<close> with \<open>size < 4097 * 2 ^ k\<close>.\<close>

lemma find_order_less: "0 < n \<Longrightarrow> n < 4097 * 2 ^ find_order n \<and> (0 < find_order n \<longrightarrow> 4097 * 2 ^ (find_order n - 1) \<le> n)"
proof (induction n rule: find_order.induct)
  case (1 n)
  show ?case
  proof (cases "n > 4096")
    case True
    let ?m = "find_order (n div 2)"
    have e: "find_order n = Suc ?m" using True by (subst find_order.simps) simp
    have ih: "n div 2 < 4097 * 2 ^ ?m" "0 < ?m \<longrightarrow> 4097 * 2 ^ (?m - 1) \<le> n div 2" using 1 True by simp_all
    have "n < 4097 * 2 ^ Suc ?m" using ih(1) by simp
    moreover have "4097 * 2 ^ ?m \<le> n"
    proof (cases ?m)
      case 0 then show ?thesis using True by simp
    next
      case (Suc j)
      then have "4097 * 2 ^ j \<le> n div 2" using ih(2) by simp
      then show ?thesis using Suc by simp
    qed
    ultimately show ?thesis by (simp add: e)
  next
    case False
    then have "find_order n = 0" by (subst find_order.simps) simp
    then show ?thesis using False by simp
  qed
qed

section \<open>Correctness\<close>

text \<open>A heap without free blocks above ten free pages.\<close>

definition empty_heap :: slob where
  "empty_heap = \<lparr>units = (\<lambda>_. 1), nxt = (\<lambda>_. 7), slobfree = 7, arena = 7, bigblocks = None,
     bigs = (\<lambda>_. \<lparr>bb_order = 0, bb_pages = 0, bb_next = None\<rparr>), kpmm = ten_pages, knpage = nbase + 10\<rparr>"

lemma empty_heap_ok: "kheap empty_heap [] [(0, 10)]" "free_units empty_heap [] = {}" "bigblocks empty_heap = None"
  using ten_pages_inv by (auto simp: kheap_def heap_def free_units_def empty_heap_def page2ppn_def nbase_def page_unit_def KVA_UNIT_def)

text \<open>C24. \<open>kmalloc\<close> of 1 to 4063 bytes: it fails only when no free block is large enough and no page is free, and then changes
  nothing. Otherwise the memory it returns is large enough, lies in units that were free (or in a page that was free, when no
  block was large enough), and exactly these units are no longer free; the header in front of it records the size, and the headers of
  all other allocated blocks are unchanged. The free list stays sorted, without adjacent blocks.\<close>

theorem kmalloc_correct:
  assumes "kheap s bs fb" "0 < n" "n < 4064"
  shows "(kmalloc n s = Some (None, s) \<and> fb = [] \<and> (\<forall>b\<in>set bs. SLOB_UNIT * units s b < n + SLOB_UNIT)) \<or>
    (\<exists>c m s' bs' fb' new. kmalloc n s = Some (Some (SLOB_UNIT * (c + 1)), s') \<and> kheap s' bs' fb' \<and>
      n \<le> SLOB_UNIT * (c + m) - SLOB_UNIT * (c + 1) \<and> units s' c = m \<and>
      {c..<c + m} \<subseteq> free_units s bs \<union> new \<and> free_units s' bs' = free_units s bs \<union> new - {c..<c + m} \<and>
      (\<forall>x. x \<notin> free_units s bs \<union> new \<longrightarrow> units s' x = units s x) \<and>
      (new = {} \<and> fb' = fb \<or> (\<exists>p\<in>block_pages fb. new = page_units p \<and> block_pages fb' = block_pages fb - {p} \<and> (\<forall>b\<in>set bs. units s b < m))))"
proof -
  let ?m = "SLOB_UNITS (n + SLOB_UNIT)"
  have km: "kmalloc n s = Option.bind (slob_alloc (n + SLOB_UNIT) 0 s) (\<lambda>(m, s). Some (map_option (\<lambda>m. SLOB_UNIT * (m + 1)) m, s))"
    using assms(3) by (simp add: kmalloc_def SLOB_UNIT_def PGSIZE_def)
  have room: "n \<le> SLOB_UNIT * (c + ?m) - SLOB_UNIT * (c + 1)" for c by (simp add: SLOB_UNITS_def SLOB_UNIT_def)
  have "16 < n + SLOB_UNIT" "n + SLOB_UNIT + 16 < 4096" using assms by (simp_all add: SLOB_UNIT_def)
  from slob_alloc_outcome [OF assms(1) this] show ?thesis
  proof (elim disjE exE conjE)
    assume a: "slob_alloc (n + SLOB_UNIT) 0 s = Some (None, s)" "fb = []" "\<forall>b\<in>set bs. units s b < ?m"
    have "SLOB_UNIT * units s b < n + SLOB_UNIT" if "b \<in> set bs" for b using a(3) that by (fastforce simp: SLOB_UNITS_def SLOB_UNIT_def)
    then show ?thesis using a km by simp
  next
    fix c s' bs' fb' new
    assume a: "slob_alloc (n + SLOB_UNIT) 0 s = Some (Some c, s')" "taken s bs fb ?m c s' bs' fb' new"
    then show ?thesis using km room [of c] unfolding taken_def
      by (intro disjI2 exI [of _ c] exI [of _ ?m] exI [of _ s'] exI [of _ bs'] exI [of _ fb'] exI [of _ new]) simp
  qed
qed

theorem kmalloc_correct_witness:
  "\<exists>c m s' bs' fb'. kmalloc 100 empty_heap = Some (Some (SLOB_UNIT * (c + 1)), s') \<and> kheap s' bs' fb' \<and> 100 \<le> SLOB_UNIT * (c + m) - SLOB_UNIT * (c + 1) \<and> units s' c = m"
  using kmalloc_correct [OF empty_heap_ok(1), of 100] by auto

text \<open>C25. \<open>kfree\<close> undoes \<open>kmalloc\<close>: releasing a block of 1 to 4063 bytes that was just allocated succeeds and leaves the same units free
  as before, plus those of the page that the heap has grown by, if it has.\<close>

theorem kmalloc_kfree_restores:
  assumes "kheap s bs fb" "0 < n" "n < 4064" "kmalloc n s = Some (Some a, s1)" "big_path s (bigblocks s) xs"
    and "\<forall>x\<in>set xs. bb_pages (bigs s x) div SLOB_UNIT \<notin> free_units s bs \<union> (\<Union>p\<in>block_pages fb. page_units p)"
  shows "\<exists>s2 bs2 fb2. kfree a s1 = Some s2 \<and> kheap s2 bs2 fb2 \<and>
    (free_units s2 bs2 = free_units s bs \<and> fb2 = fb \<or> (\<exists>p\<in>block_pages fb. free_units s2 bs2 = free_units s bs \<union> page_units p \<and> block_pages fb2 = block_pages fb - {p}))"
proof -
  let ?m = "SLOB_UNITS (n + SLOB_UNIT)"
  have km: "kmalloc n s = Option.bind (slob_alloc (n + SLOB_UNIT) 0 s) (\<lambda>(m, s). Some (map_option (\<lambda>m. SLOB_UNIT * (m + 1)) m, s))"
    using assms(3) by (simp add: kmalloc_def SLOB_UNIT_def PGSIZE_def)
  have "16 < n + SLOB_UNIT" "n + SLOB_UNIT + 16 < 4096" using assms by (simp_all add: SLOB_UNIT_def)
  from slob_alloc_outcome [OF assms(1) this] obtain c bs1 fb1 new where sa: "slob_alloc (n + SLOB_UNIT) 0 s = Some (Some c, s1)" "a = SLOB_UNIT * (c + 1)"
      "taken s bs fb ?m c s1 bs1 fb1 new" using assms(4) km by (elim disjE exE conjE) auto
  have c: "kheap s1 bs1 fb1" "{c..<c + ?m} \<subseteq> free_units s bs \<union> new" "free_units s1 bs1 = free_units s bs \<union> new - {c..<c + ?m}" "units s1 c = ?m" "arena s1 = arena s"
      "bigs s1 = bigs s" "bigblocks s1 = bigblocks s"
    and new: "new = {} \<and> fb1 = fb \<or> (\<exists>p\<in>block_pages fb. new = page_units p \<and> block_pages fb1 = block_pages fb - {p} \<and> (\<forall>b\<in>set bs. units s b < ?m))"
    using sa(3) by (simp_all add: taken_def)
  have m2: "2 \<le> ?m" using assms(2) by (simp add: SLOB_UNITS_def SLOB_UNIT_def)
  have "{c, c + 1} \<subseteq> {c..<c + ?m}" using m2 by auto
  then have c1: "c \<in> free_units s bs \<union> new" "c + 1 \<in> free_units s bs \<union> new" using c(2) by blast+
  have h1: "heap s1 bs1" using c(1) by (simp add: kheap_def)
  have low: "arena s + 1 < x" if "x \<in> free_units s bs \<union> new" for x
  proof (cases "x \<in> new")
    case True
    then obtain p where "p \<in> block_pages fb" "x \<in> page_units p" using new by auto
    then show ?thesis using assms(1) by (auto simp: kheap_def page_units_def)
  next
    case False
    then obtain b where b: "b \<in> set bs" "b \<le> x" using \<open>x \<in> free_units s bs \<union> new\<close> by (auto simp: free_units_def)
    then have "arena s + units s (arena s) < b" using assms(1) gaps_above [of "units s" "arena s" bs b] by (simp add: kheap_def heap_def)
    then show ?thesis using b(2) assms(1) by (simp add: kheap_def heap_def)
  qed
  have "free_units s bs \<union> new \<subseteq> free_units s bs \<union> (\<Union>p\<in>block_pages fb. page_units p)" using new by auto
  then have far: "c + 1 \<in> free_units s bs \<union> (\<Union>p\<in>block_pages fb. page_units p)" using c1(2) by blast
  have "a div SLOB_UNIT = c + 1" using sa(2) by (simp add: SLOB_UNIT_def)
  then have "bb_pages (bigs s1 x) \<noteq> a" if "x \<in> set xs" for x using assms(6) that far c(6) by (metis (no_types))
  then have "big_find a None (bigblocks s1) s1 = Some None" using big_find_none [OF big_path_cong [OF assms(5) c(6)], of a] c(7) by simp
  moreover have "a \<noteq> 0" "a div SLOB_UNIT - 1 = c" using sa(2) by (simp_all add: SLOB_UNIT_def)
  ultimately have kf: "kfree a s1 = slob_free (Some c) 0 s1" by (simp add: kfree_def)
  have pre: "arena s1 + 1 < c" "0 < ?m" "{c..<c + ?m} \<inter> free_units s1 bs1 = {}" "?m = (if 0 = (0 :: nat) then units s1 c else SLOB_UNITS 0)"
    using low [OF c1(1)] m2 c(3-5) by auto
  obtain s2 bs2 where s2: "slob_free (Some c) 0 s1 = Some s2" "heap s2 bs2" "free_units s2 bs2 = free_units s1 bs1 \<union> {c..<c + ?m}" "arena s2 = arena s1"
      "kpmm s2 = kpmm s1" "knpage s2 = knpage s1"
    using slob_free_heap [OF h1 pre] by blast
  have fu: "free_units s2 bs2 = free_units s bs \<union> new" using s2(3) c(2,3) by blast
  have "page_units r \<inter> free_units s2 bs2 = {}" if "r \<in> block_pages fb1" for r
  proof -
    have "page_units r \<inter> free_units s bs = {}" "page_units r \<inter> new = {}" using that assms(1) new page_units_disjoint [of r] by (auto simp: kheap_def)
    then show ?thesis unfolding fu by blast
  qed
  then have "kheap s2 bs2 fb1" using c(1) s2(2,4,5,6) by (auto simp: kheap_def)
  then show ?thesis using kf s2(1) fu new by auto
qed

theorem kmalloc_kfree_restores_witness:
  "\<exists>a s1 s2 bs2 fb2. kmalloc 100 empty_heap = Some (Some a, s1) \<and> kfree a s1 = Some s2 \<and> kheap s2 bs2 fb2"
proof -
  have "16 < (116 :: nat)" "116 + 16 < (4096 :: nat)" by simp_all
  from slob_alloc_outcome [OF empty_heap_ok(1) this] obtain c s1 where "slob_alloc 116 0 empty_heap = Some (Some c, s1)" by auto
  then have k: "kmalloc 100 empty_heap = Some (Some (SLOB_UNIT * (c + 1)), s1)" by (simp add: kmalloc_def PGSIZE_def SLOB_UNIT_def)
  then show ?thesis using kmalloc_kfree_restores [OF empty_heap_ok(1) _ _ k, of "[]"] empty_heap_ok(3) by auto
qed

text \<open>A request of 4064 to 4079 bytes panics whatever the state of the heap: \<open>__kmalloc\<close> sends requests below
  \<open>PAGE_SIZE - SLOB_UNIT\<close> to \<open>slob_alloc\<close> with a unit added, and the assertion there needs room for yet another unit.\<close>

theorem kmalloc_gap_panics:
  assumes "4064 \<le> n" "n < 4080"
  shows "kmalloc n s = None"
  using assms by (simp add: kmalloc_def slob_alloc_def SLOB_UNIT_def PGSIZE_def)

theorem kmalloc_gap_panics_witness: "kmalloc 4070 empty_heap = None"
  by (rule kmalloc_gap_panics) simp_all

text \<open>The order that \<open>kmalloc\<close> uses for \<open>n\<close> bytes of at least a page is the least \<open>k\<close> with \<open>n < 4097 * 2 ^ k\<close>. So the
  \<open>4096 * 2 ^ k\<close> bytes it gets are too few exactly for the sizes from \<open>4096 * 2 ^ k + 1\<close> to \<open>4097 * 2 ^ k - 1\<close>.\<close>

theorem find_order_bounds:
  assumes "0 < n" "n < 2 ^ 31"
  defines "k \<equiv> find_order (to_int n)"
  shows "n < 4097 * 2 ^ k \<and> (\<forall>j<k. 4097 * 2 ^ j \<le> n) \<and> (PGSIZE * 2 ^ k < n \<longleftrightarrow> 4096 * 2 ^ k < n \<and> n < 4097 * 2 ^ k)"
proof -
  have t: "to_int n = int n" using assms(2) by (simp add: to_int_def Let_def)
  have l: "int n < 4097 * 2 ^ k" "0 < k \<longrightarrow> 4097 * 2 ^ (k - 1) \<le> int n" using find_order_less [of "int n"] assms(1) unfolding k_def t by simp_all
  have "int n < int (4097 * 2 ^ k)" using l(1) by simp
  then have u: "n < 4097 * 2 ^ k" by linarith
  have "4097 * 2 ^ j \<le> n" if "j < k" for j
  proof -
    have "(2 :: nat) ^ j \<le> 2 ^ (k - 1)" using that by (intro power_increasing) auto
    moreover have "int (4097 * 2 ^ (k - 1)) \<le> int n" using l(2) that by simp
    then have "4097 * 2 ^ (k - 1) \<le> n" by linarith
    ultimately show ?thesis by linarith
  qed
  then show ?thesis using u by (simp add: PGSIZE_def)
qed

theorem find_order_bounds_witness:
  "8193 < 4097 * (2 :: nat) ^ find_order (to_int 8193) \<and> find_order (to_int 8193) = 1 \<and> PGSIZE * 2 ^ find_order (to_int 8193) < 8193"
proof -
  have k: "find_order (to_int 8193) = 1" by (simp add: to_int_def find_order.simps)
  show ?thesis using find_order_bounds [of 8193] unfolding k by (simp add: PGSIZE_def)
qed

text \<open>On a heap without free blocks, \<open>kmalloc(0)\<close> returns memory behind the static \<open>arena\<close>, and releasing it never ends.\<close>

lemma slob_point_cycle: "slob_point b cur s = Some y \<Longrightarrow> \<not> (b = cur \<and> nxt s cur = cur)"
  by (erule slob_point.raw_induct [where P = "\<lambda>b cur s y. \<not> (b = cur \<and> nxt s cur = cur)", rotated]) (auto split: if_splits)

theorem kmalloc_zero_kfree_diverges:
  assumes "slobfree s = arena s" "nxt s (arena s) = arena s" "units s (arena s) = 1" "bigblocks s = None"
  shows "kmalloc 0 s = Some (Some (SLOB_UNIT * (arena s + 1)), s) \<and> kfree (SLOB_UNIT * (arena s + 1)) s = None"
proof -
  have e: "s\<lparr>nxt := (nxt s)(arena s := arena s), slobfree := arena s\<rparr> = s" using assms by (cases s) (auto simp: fun_eq_iff)
  have u: "SLOB_UNITS 16 = 1" by (simp add: SLOB_UNITS_def SLOB_UNIT_def)
  have "slob_take 1 0 (arena s) (arena s) s = (arena s, s)" using assms e by (simp add: slob_take_def)
  then have "slob_find 16 0 (arena s) (arena s) s = Some (Some (arena s), s)"
    using assms by (subst slob_find.simps) (simp add: u ALIGN_delta_def)
  then have "kmalloc 0 s = Some (Some (SLOB_UNIT * (arena s + 1)), s)"
    using assms by (simp add: kmalloc_def slob_alloc_def SLOB_UNIT_def PGSIZE_def)
  moreover have "slob_point (arena s) (arena s) s = None" using slob_point_cycle assms(2) by (metis not_None_eq)
  then have "slob_free (Some (arena s)) 0 s = None" using assms by (simp add: slob_free_def)
  moreover have "big_find x None None s = Some None" for x by (subst big_find.simps) simp
  ultimately show ?thesis using assms(4) by (simp add: kfree_def SLOB_UNIT_def)
qed

end
