(* ===== verification/Cow.thy ===== *)
theory Cow
  imports Page_Table
begin

text \<open>
  Copy-on-write of lab 5: \<open>copy_range\<close> with its argument \<open>share\<close> (\<open>src/lab5/kern/mm/pmm.c\<close>) and the store page
  fault of \<open>exception_handler\<close> (\<open>src/lab5/kern/trap/trap.c\<close>), on the page tables of \<open>Page_Table\<close>, whose walk and
  mapping functions lab 5 shares with lab 8. \<open>vm_inv2\<close> is the invariant of two address spaces with separate tables.
\<close>

unbundle bit_operations_syntax

section \<open>Copying with sharing\<close>

definition PTE_COW :: "64 word" where "PTE_COW = 0x100"

text \<open>The body for a valid entry at \<open>(pt, i)\<close>; the code to return, if it stops there. The result of \<open>page_insert\<close> is dropped.\<close>

definition cow_copy_page :: "nat \<Rightarrow> nat \<Rightarrow> bool \<Rightarrow> nat \<times> nat \<Rightarrow> vm \<Rightarrow> (int option \<times> vm) option" where
  "cow_copy_page to st share ptep s = do {
     (nptep, s) \<leftarrow> get_pte to st True s;
     (case nptep of
        None \<Rightarrow> Some (Some (- E_NO_MEM), s)
      | Some _ \<Rightarrow> do {
          let (pt, i) = ptep;
          let perm = frames s pt i AND PTE_USER;
          page \<leftarrow> pte2page s (frames s pt i);
          (npage, s) \<leftarrow> alloc_page s;
          npage \<leftarrow> npage;
          if share
          then do {
            let (perm, s) =
              (if perm AND PTE_W \<noteq> 0
               then (perm AND NOT PTE_W OR PTE_COW, set_entry pt i (frames s pt i AND NOT PTE_W OR PTE_COW) s)
               else (perm, s));
            (_, s) \<leftarrow> page_insert to page st perm s;
            Some (None, s) }
          else do {
            src \<leftarrow> page2kva s page;
            dst \<leftarrow> page2kva s npage;
            (_, s) \<leftarrow> page_insert to npage st perm (set_frame dst (frames s src) s);
            Some (None, s) } }) }"

definition cow_copy_step :: "nat \<Rightarrow> nat \<Rightarrow> bool \<Rightarrow> nat \<Rightarrow> vm \<Rightarrow> ((int + nat) \<times> vm) option" where
  "cow_copy_step to from share st s = do {
     (ptep, s) \<leftarrow> get_pte from st False s;
     (case ptep of
        None \<Rightarrow> Some (Inr (next_table st), s)
      | Some (pt, i) \<Rightarrow>
          if frames s pt i AND PTE_V \<noteq> 0
          then do {
            (r, s) \<leftarrow> cow_copy_page to st share (pt, i) s;
            Some (case r of Some e \<Rightarrow> Inl e | None \<Rightarrow> Inr (st + PGSIZE), s) }
          else Some (Inr (st + PGSIZE), s)) }"

lemma cow_copy_step_gt: "cow_copy_step to from share st s = Some (Inr st', s') \<Longrightarrow> st < st'"
  using next_table_gt [of st]
  by (auto simp: cow_copy_step_def PGSIZE_def elim!: bind_eq_SomeE split: prod.splits option.splits if_splits)

function cow_copy_loop :: "nat \<Rightarrow> nat \<Rightarrow> bool \<Rightarrow> nat \<Rightarrow> nat \<Rightarrow> vm \<Rightarrow> (int \<times> vm) option" where
  "cow_copy_loop to from share st en s =
     (case cow_copy_step to from share st s of
        None \<Rightarrow> None
      | Some (Inl e, s) \<Rightarrow> Some (e, s)
      | Some (Inr st, s) \<Rightarrow> if st \<noteq> 0 \<and> st < en then cow_copy_loop to from share st en s else Some (0, s))"
  by pat_completeness auto

termination cow_copy_loop
  by (relation "measure (\<lambda>(to, from, share, st, en, s). en - st)") (auto dest!: cow_copy_step_gt)

declare cow_copy_loop.simps [simp del]

definition cow_copy_range :: "nat \<Rightarrow> nat \<Rightarrow> nat \<Rightarrow> nat \<Rightarrow> bool \<Rightarrow> vm \<Rightarrow> (int \<times> vm) option" where
  "cow_copy_range to from st en share s = do {
     kassert (st mod PGSIZE = 0 \<and> en mod PGSIZE = 0);
     kassert (USER_ACCESS st en);
     cow_copy_loop to from share st en s }"

section \<open>The store page fault\<close>

text \<open>
  The \<open>CAUSE_STORE_PAGE_FAULT\<close> case of \<open>exception_handler\<close>; \<open>dir\<close> is \<open>current->mm->pgdir\<close> if there is a current
  process with an address space. The result tells whether the fault was handled; otherwise a message is printed.
\<close>

definition store_page_fault :: "nat option \<Rightarrow> nat \<Rightarrow> vm \<Rightarrow> (bool \<times> vm) option" where
  "store_page_fault dir badaddr s = (
     let la = ROUNDDOWN badaddr PGSIZE in
     case dir of
       None \<Rightarrow> Some (False, s)
     | Some dir \<Rightarrow> do {
         (ptep, s) \<leftarrow> get_pte dir badaddr False s;
         (case ptep of
            None \<Rightarrow> Some (False, s)
          | Some (pt, i) \<Rightarrow>
              if frames s pt i AND PTE_V \<noteq> 0 \<and> frames s pt i AND PTE_COW \<noteq> 0
              then do {
                page \<leftarrow> pte2page s (frames s pt i);
                if page_ref page s > 1
                then do {
                  (npage, s) \<leftarrow> alloc_page s;
                  npage \<leftarrow> npage;
                  dst \<leftarrow> page2kva s npage;
                  src \<leftarrow> page2kva s page;
                  let s = set_frame dst (frames s src) s;
                  let perm = (frames s pt i AND PTE_USER OR PTE_W) AND NOT PTE_COW;
                  (_, s) \<leftarrow> page_insert dir npage la perm s;
                  Some (True, s) }
                else Some (True, set_entry pt i ((frames s pt i OR PTE_W) AND NOT PTE_COW) s) }
              else Some (False, s)) })"

section \<open>Entries\<close>

lemma flag_bit:
  assumes "f AND NOT 0x3FF = (0 :: 64 word)" "bit f n"
  shows "n < 10"
proof -
  have "\<not> bit (f AND NOT (mask 10)) n" using assms(1) unfolding low_mask by simp
  then show ?thesis using assms(2) by (auto simp: bit_simps dest: bit_imp_le_length)
qed

lemma pte_create_low:
  assumes "m AND NOT 0x3FF = 0"
  shows "pte_create ppn typ AND m = (PTE_V OR typ) AND m"
  by (rule bit_eqI) (auto simp: pte_create_def bit_simps dest: flag_bit [OF assms])

text \<open>Changing flag bits does not change the frame of an entry.\<close>

lemma PTE_ADDR_flags:
  assumes "f AND NOT 0x3FF = 0"
  shows "PTE_ADDR (e AND NOT f) = PTE_ADDR e" "PTE_ADDR (e OR f) = PTE_ADDR e"
proof -
  have "(e AND NOT f) AND NOT (mask 10) = e AND NOT (mask 10)"
    by (rule bit_eqI) (auto simp: bit_simps dest: flag_bit [OF assms])
  then show "PTE_ADDR (e AND NOT f) = PTE_ADDR e" by (simp add: PTE_ADDR_def low_mask)
  have "(e OR f) AND NOT (mask 10) = e AND NOT (mask 10)"
    by (rule bit_eqI) (auto simp: bit_simps dest: flag_bit [OF assms])
  then show "PTE_ADDR (e OR f) = PTE_ADDR e" by (simp add: PTE_ADDR_def low_mask)
qed

lemma pte2page_flags:
  assumes "PTE_ADDR e' = PTE_ADDR e" "e' AND PTE_V \<noteq> 0" "e AND PTE_V \<noteq> 0"
  shows "pte2page s e' = pte2page s e"
  using assms by (simp add: pte2page_def)

section \<open>Lookups\<close>

text \<open>With the page table in place, asking for its creation changes nothing.\<close>

lemma get_pte_present:
  assumes inv: "vm_inv s dir bs" and t: "tab (frames s) dir (L2 (PDX1 la) (PDX0 la)) = Some t"
  shows "get_pte dir la c s = Some (Some (t, PTX la), s)"
proof -
  obtain d where d: "tab (frames s) dir (L1 (PDX1 la)) = Some d" using t by (auto simp: bind_eq_Some_conv)
  have v: "frames s dir (PDX1 la) AND PTE_V \<noteq> 0" using d by (auto simp: sub_table_def)
  have v0: "frames s d (PDX0 la) AND PTE_V \<noteq> 0" using t d by (auto simp: sub_table_def [of _ d])
  show ?thesis using v v0 vm_inv_pde1 [OF inv d] vm_inv_pde0 [OF inv d t] by (simp add: get_pte_def table_entry_def)
qed

text \<open>Rounding an address down to its page keeps the three indices.\<close>

lemma page_indices: "PDX1 (ROUNDDOWN a PGSIZE) = PDX1 a" "PDX0 (ROUNDDOWN a PGSIZE) = PDX0 a" "PTX (ROUNDDOWN a PGSIZE) = PTX a"
proof -
  have "ROUNDDOWN a PGSIZE div 2 ^ 12 = a div 2 ^ 12" by (simp add: ROUNDDOWN_def PGSIZE_def minus_mod_eq_mult_div)
  then have d: "ROUNDDOWN a PGSIZE div 2 ^ 12 div 2 ^ k = a div 2 ^ 12 div 2 ^ k" for k by simp
  show "PDX1 (ROUNDDOWN a PGSIZE) = PDX1 a" using d [of 18] by (simp add: PDX1_def drop_bit_eq_div div_mult2_eq [symmetric])
  show "PDX0 (ROUNDDOWN a PGSIZE) = PDX0 a" using d [of 9] by (simp add: PDX0_def drop_bit_eq_div div_mult2_eq [symmetric])
  show "PTX (ROUNDDOWN a PGSIZE) = PTX a" using d [of 0] by (simp add: PTX_def drop_bit_eq_div)
qed

lemma vpn_round: "vpn (ROUNDDOWN a PGSIZE) = vpn a"
  by (simp add: vpn_def page_indices)

section \<open>Replacing a mapping\<close>

lemma page_insert_replace:
  assumes inv: "vm_inv s dir bs" and t: "tab (frames s) dir (L2 (PDX1 la) (PDX0 la)) = Some t"
    and v: "frames s t (PTX la) AND PTE_V \<noteq> 0" and p: "pte2page s (frames s t (PTX la)) = Some p"
    and ref: "page_ref p s > 1" and np: "np \<noteq> p"
  shows "\<exists>s'. page_insert dir np la perm s = Some (0, s') \<and> vm_inv s' dir bs \<and> npage s' = npage s \<and>
     frames s' = (frames s)(t := (frames s t)(PTX la := pte_create (page2ppn np) (PTE_V OR perm))) \<and>
     (\<forall>k. page_ref k s' = page_ref k s + (if k = np then 1 else if k = p then - 1 else 0))"
proof -
  let ?e = "pte_create (page2ppn np) (PTE_V OR perm)"
  let ?s = "set_entry t (PTX la) ?e (set_entry t (PTX la) 0 (page_ref_dec p (page_ref_inc np s)))"
  have "page_ref p (page_ref_dec p (page_ref_inc np s)) \<noteq> 0" using ref np
    by (simp add: page_ref_def page_ref_dec_def page_ref_inc_def set_page_ref_def)
  moreover have "pte2page (page_ref_inc np s) e = pte2page s e" for e
    by (simp add: pte2page_def pa2page_def page_ref_inc_def set_page_ref_def)
  ultimately have pi: "page_insert dir np la perm s = Some (0, ?s)"
    using get_pte_present [OF inv t] v p np
    by (simp add: page_insert_def page_remove_pte_def page_ref_inc_def set_page_ref_def Let_def)
  have f: "frames ?s = (frames s)(t := (frames s t)(PTX la := ?e))" "npage ?s = npage s"
    by (simp_all add: set_entry_def page_ref_dec_def page_ref_inc_def set_page_ref_def)
  have "vm_inv ?s dir bs"
  proof (rule vm_inv_set_pte [OF inv t f])
    show "pmm_inv (pmm ?s) bs" using inv
      by (simp add: set_entry_def page_ref_dec_def page_ref_inc_def set_page_ref_def pmm_inv_upd_ref vm_inv_def)
  qed (use inv in \<open>auto simp: vm_inv_def\<close>)
  moreover have "\<forall>k. page_ref k ?s = page_ref k s + (if k = np then 1 else if k = p then - 1 else 0)"
    using np by (simp add: set_entry_def page_ref_dec_def page_ref_inc_def set_page_ref_def page_ref_def)
  ultimately show ?thesis using pi f by blast
qed

section \<open>Permissions of user pages\<close>

lemma PTE_low [simp]:
  "PTE_W AND NOT 0x3FF = 0" "PTE_COW AND NOT 0x3FF = 0" "PTE_USER AND NOT 0x3FF = 0" "PTE_V AND NOT 0x3FF = 0"
  by (simp_all add: PTE_W_def PTE_COW_def PTE_USER_def PTE_R_def PTE_X_def PTE_U_def PTE_V_def)

lemma word_zero_iff: "(x :: 64 word) = 0 \<longleftrightarrow> (\<forall>n<64. \<not> bit x n)"
  by (auto simp: bit_eq_iff dest: bit_imp_le_length)

lemma PTE_bits:
  "bit PTE_V n \<longleftrightarrow> n = 0" "bit PTE_W n \<longleftrightarrow> n = 2" "bit PTE_COW n \<longleftrightarrow> n = 8" "bit PTE_USER n \<longleftrightarrow> n < 5"
proof -
  have e: "PTE_V = 2 ^ 0" "PTE_W = 2 ^ 2" "PTE_COW = 2 ^ 8" "PTE_USER = mask 5"
    by (simp_all add: PTE_V_def PTE_W_def PTE_COW_def PTE_USER_def PTE_R_def PTE_X_def PTE_U_def mask_eq_exp_minus_1)
  show "bit PTE_V n \<longleftrightarrow> n = 0" "bit PTE_W n \<longleftrightarrow> n = 2" "bit PTE_COW n \<longleftrightarrow> n = 8" "bit PTE_USER n \<longleftrightarrow> n < 5"
    unfolding e by (auto simp only: bit_exp_iff bit_mask_iff possible_bit_word) auto
qed

lemma flag_test: "(\<And>n. bit m n \<longleftrightarrow> n = k) \<Longrightarrow> k < 64 \<Longrightarrow> (e :: 64 word) AND m = 0 \<longleftrightarrow> \<not> bit e k"
  unfolding word_zero_iff bit_and_iff by auto

lemma PTE_test: "e AND PTE_V = 0 \<longleftrightarrow> \<not> bit e 0" "e AND PTE_W = 0 \<longleftrightarrow> \<not> bit e 2" "e AND PTE_COW = 0 \<longleftrightarrow> \<not> bit e 8"
  by (rule flag_test; simp add: PTE_bits)+

lemma bit_pte_create: "n < 10 \<Longrightarrow> bit (pte_create ppn typ) n \<longleftrightarrow> n = 0 \<or> bit typ n"
  by (auto simp: pte_create_def bit_simps PTE_bits dest: bit_imp_le_length)

section \<open>The fault handler\<close>

lemma store_page_fault_unhandled:
  assumes "vm_inv s dir bs" "pte_at (frames s) dir a AND PTE_V = 0 \<or> pte_at (frames s) dir a AND PTE_COW = 0"
  shows "store_page_fault (Some dir) a s = Some (False, s)"
proof (cases "tab (frames s) dir (L2 (PDX1 a) (PDX0 a))")
  case None
  then show ?thesis using get_pte_lookup [OF assms(1), of a] by (simp add: store_page_fault_def)
next
  case (Some t)
  then show ?thesis using get_pte_lookup [OF assms(1), of a] assms(2) by (auto simp: store_page_fault_def pte_at_table)
qed

definition user_page :: "vm \<Rightarrow> nat \<Rightarrow> (nat \<times> nat) list \<Rightarrow> nat \<Rightarrow> bool" where
  "user_page s dir bs p \<longleftrightarrow> p \<notin> block_pages bs \<and> page2ppn p < npage s \<and> (\<forall>q. tab (frames s) dir q \<noteq> Some p)"

lemma page2kva_ok: "page2ppn p < npage s \<Longrightarrow> page2kva s p = Some p"
  by (simp add: page2kva_def ppn_pa)

text \<open>The last mapping of a page becomes writable in place.\<close>

lemma store_fault_sole:
  assumes inv: "vm_inv s dir bs" and e: "e = pte_at (frames s) dir a" "pte2page s e = Some p" "e AND PTE_COW \<noteq> 0"
    and r: "\<not> page_ref p s > 1"
  shows "\<exists>s'. store_page_fault (Some dir) a s = Some (True, s') \<and> vm_inv s' dir bs \<and> pmm s' = pmm s \<and> npage s' = npage s \<and>
     (\<forall>la. pte_at (frames s') dir la = (if vpn la = vpn a then (e OR PTE_W) AND NOT PTE_COW else pte_at (frames s) dir la)) \<and>
     (\<forall>k. (\<forall>q. tab (frames s) dir q \<noteq> Some k) \<longrightarrow> frames s' k = frames s k)"
proof -
  have v: "e AND PTE_V \<noteq> 0" using e(2) by (auto simp: pte2page_def elim!: bind_eq_SomeE)
  then obtain t where t: "tab (frames s) dir (L2 (PDX1 a) (PDX0 a)) = Some t"
    using e(1) unfolding pte_at_def by (cases "tab (frames s) dir (L2 (PDX1 a) (PDX0 a))") auto
  have et: "e = frames s t (PTX a)" using e(1) pte_at_table [OF t] by simp
  let ?s = "set_entry t (PTX a) ((e OR PTE_W) AND NOT PTE_COW) s"
  have "store_page_fault (Some dir) a s = Some (True, ?s)"
    using get_pte_present [OF inv t] v e(2,3) r by (simp add: store_page_fault_def et)
  moreover have f: "frames ?s = (frames s)(t := (frames s t)(PTX a := (e OR PTE_W) AND NOT PTE_COW))" "npage ?s = npage s" "pmm ?s = pmm s"
    by (simp_all add: set_entry_def)
  moreover have "vm_inv ?s dir bs" by (rule vm_inv_set_pte [OF inv t f(1,2)]) (use inv f in \<open>auto simp: vm_inv_def\<close>)
  moreover have "tabs_inj (frames s) dir" using inv by (simp add: vm_inv_def)
  ultimately show ?thesis using pte_at_set [of "frames s" dir a t] t by (intro exI [of _ ?s]) (auto simp del: tab.simps)
qed

text \<open>A shared page is replaced by a private copy.\<close>

lemma store_fault_shared:
  assumes inv: "vm_inv s dir bs" and e: "e = pte_at (frames s) dir a" "pte2page s e = Some p" "e AND PTE_COW \<noteq> 0"
    and u: "user_page s dir bs p" and r: "page_ref p s > 1" and b: "bs \<noteq> []"
  shows "\<exists>s' bs' np. store_page_fault (Some dir) a s = Some (True, s') \<and> vm_inv s' dir bs' \<and> np \<in> block_pages bs \<and>
     block_pages bs' = block_pages bs - {np} \<and> npage s' = npage s \<and>
     (\<forall>la. pte_at (frames s') dir la =
        (if vpn la = vpn a then pte_create (page2ppn np) (PTE_V OR ((e AND PTE_USER OR PTE_W) AND NOT PTE_COW)) else pte_at (frames s) dir la)) \<and>
     (\<forall>k. (\<forall>q. tab (frames s) dir q \<noteq> Some k) \<longrightarrow> frames s' k = (if k = np then frames s p else frames s k)) \<and>
     page_ref p s' = page_ref p s - 1 \<and> page_ref np s' = page_ref np s + 1"
proof -
  have v: "e AND PTE_V \<noteq> 0" using e(2) by (auto simp: pte2page_def elim!: bind_eq_SomeE)
  then obtain t where t: "tab (frames s) dir (L2 (PDX1 a) (PDX0 a)) = Some t"
    using e(1) unfolding pte_at_def by (cases "tab (frames s) dir (L2 (PDX1 a) (PDX0 a))") auto
  have et: "e = frames s t (PTX a)" using e(1) pte_at_table [OF t] by simp
  have "pmm_inv (pmm s) bs" using inv by (simp add: vm_inv_def)
  then obtain np q bs' where al: "alloc_page s = Some (Some np, s\<lparr>pmm := q\<rparr>)" "np \<in> block_pages bs" "pmm_inv q bs'"
      "block_pages bs' = block_pages bs - {np}" "\<forall>i. pg_ref (pages q i) = pg_ref (pages (pmm s) i)"
    using alloc_page_spec b by blast
  let ?s1 = "set_frame np (frames s p) (s\<lparr>pmm := q\<rparr>)"
  let ?perm = "(e AND PTE_USER OR PTE_W) AND NOT PTE_COW"
  have npt: "\<forall>x. tab (frames s) dir x \<noteq> Some np" by (rule vm_inv_fresh [OF inv al(2)])
  have pn: "p \<noteq> np" "page2ppn np < npage s" using u al(2) inv by (auto simp: user_page_def vm_inv_def)
  have i1: "vm_inv ?s1 dir bs'" "tab (frames ?s1) dir = tab (frames s) dir" "\<And>la. pte_at (frames ?s1) dir la = pte_at (frames s) dir la"
    using vm_inv_agree [OF inv, of ?s1 bs'] npt al(3,4) by (auto simp: set_frame_def)
  have tn: "t \<noteq> np" using t npt by metis
  have t1: "tab (frames ?s1) dir (L2 (PDX1 (ROUNDDOWN a PGSIZE)) (PDX0 (ROUNDDOWN a PGSIZE))) = Some t"
    using t i1(2) by (simp only: page_indices)
  have e1: "frames ?s1 t (PTX (ROUNDDOWN a PGSIZE)) = e" using tn et by (simp add: set_frame_def page_indices)
  have p1: "pte2page ?s1 e = Some p" using e(2) by (simp add: pte2page_def pa2page_def set_frame_def)
  have rf: "page_ref k ?s1 = page_ref k s" for k using al(5) by (simp add: page_ref_def set_frame_def)
  obtain s' where s': "page_insert dir np (ROUNDDOWN a PGSIZE) ?perm ?s1 = Some (0, s')" "vm_inv s' dir bs'" "npage s' = npage ?s1"
      "frames s' = (frames ?s1)(t := (frames ?s1 t)(PTX (ROUNDDOWN a PGSIZE) := pte_create (page2ppn np) (PTE_V OR ?perm)))"
      "\<forall>k. page_ref k s' = page_ref k ?s1 + (if k = np then 1 else if k = p then - 1 else 0)"
    using page_insert_replace [OF i1(1) t1, of p np ?perm] v e1 p1 r rf pn(1) by auto
  have "store_page_fault (Some dir) a s = Some (True, s')"
    using get_pte_present [OF inv t] v e(2,3) r al(1) s'(1) pn u e1 tn
    by (simp add: store_page_fault_def et page2kva_ok user_page_def set_frame_def page_indices)
  moreover have "tabs_inj (frames ?s1) dir" using i1(1) by (simp add: vm_inv_def)
  then have "\<forall>la. pte_at (frames s') dir la = (if vpn la = vpn a then pte_create (page2ppn np) (PTE_V OR ?perm) else pte_at (frames s) dir la)"
    using pte_at_set [OF _ t1] by (simp add: s'(4) i1(3) vpn_round)
  moreover have "frames s' k = (if k = np then frames s p else frames s k)" if "\<forall>x. tab (frames s) dir x \<noteq> Some k" for k
    using that t by (auto simp: s'(4) set_frame_def simp del: tab.simps)
  ultimately show ?thesis using s'(2,3,5) al(2,4) rf pn(1) by (intro exI [of _ s'] exI [of _ bs'] exI [of _ np]) (simp add: set_frame_def)
qed

section \<open>Two address spaces\<close>

definition tables :: "(nat \<Rightarrow> nat \<Rightarrow> 64 word) \<Rightarrow> nat \<Rightarrow> nat set" where
  "tables F dir = {f. \<exists>q. tab F dir q = Some f}"

lemma tables_inv: "vm_inv s dir bs \<Longrightarrow> tables (frames s) dir \<inter> block_pages bs = {}"
  by (auto simp: vm_inv_def tables_def)

lemma tables_upd: "tab F' dir = (tab F dir)(C := Some p) \<Longrightarrow> tables F' dir \<subseteq> insert p (tables F dir)"
  by (auto simp: tables_def split: if_splits)

lemma tableI: "tab F dir q = Some f \<Longrightarrow> f \<in> tables F dir"
  by (auto simp: tables_def)

lemma agree_off: "X \<inter> tables (frames s) dir = {} \<Longrightarrow> (\<forall>k. k \<notin> X \<longrightarrow> frames s' k = frames s k) \<Longrightarrow>
    \<forall>q f. tab (frames s) dir q = Some f \<longrightarrow> frames s' f = frames s f"
  by (auto simp: tables_def)

text \<open>The frames that creating a table may write.\<close>

lemma table_entry_frames:
  assumes inv: "vm_inv s dir bs" and ch: "child_of (frames s) dir P d i C"
  shows "(bs = [] \<and> table_entry d i True s = Some (False, s)) \<or>
    (\<exists>s' bs' p. table_entry d i True s = Some (True, s') \<and> vm_inv s' dir bs' \<and> pmm_inv (pmm s') bs' \<and> block_pages bs' \<subseteq> block_pages bs \<and>
       npage s' = npage s \<and> tab (frames s') dir = (tab (frames s) dir)(C := Some p) \<and> p \<in> block_pages bs \<union> tables (frames s) dir \<and> block_pages bs \<subseteq> insert p (block_pages bs') \<and>
       (\<forall>la. pte_at (frames s') dir la = pte_at (frames s) dir la) \<and>
       (\<forall>k. k \<noteq> d \<longrightarrow> k \<notin> block_pages bs \<longrightarrow> frames s' k = frames s k) \<and> (\<forall>k. k \<notin> block_pages bs \<longrightarrow> page_ref k s' = page_ref k s))"
proof (cases "tab (frames s) dir C")
  case None
  then have "frames s d i AND PTE_V = 0" using child_of_tab [OF ch] by (simp add: sub_table_def split: if_splits)
  then have e: "table_entry d i True s = new_table d i s" by (simp add: table_entry_def)
  have fr: "new_table d i s = Some (True, s') \<Longrightarrow> k \<noteq> d \<Longrightarrow> k \<notin> block_pages bs \<Longrightarrow> frames s' k = frames s k" for s' k
    using alloc_page_spec [of s bs] inv
    by (auto simp: new_table_def vm_inv_def set_page_ref_def set_frame_def set_entry_def Let_def elim!: bind_eq_SomeE split: option.splits)
  from new_table_spec [OF inv ch None] show ?thesis
  proof (elim disjE conjE exE)
    fix p s' bs'
    assume a: "new_table d i s = Some (True, s')" "p \<in> block_pages bs" "vm_inv s' dir bs'" "block_pages bs' = block_pages bs - {p}"
      "npage s' = npage s" "tab (frames s') dir = (tab (frames s) dir)(C := Some p)" "\<forall>la. pte_at (frames s') dir la = pte_at (frames s) dir la"
      "\<forall>k. k \<noteq> p \<longrightarrow> page_ref k s' = page_ref k s"
    have "pmm_inv (pmm s') bs'" using a(3) by (simp add: vm_inv_def)
    moreover have "\<forall>k. k \<notin> block_pages bs \<longrightarrow> page_ref k s' = page_ref k s" using a(2,8) by auto
    moreover have "block_pages bs \<subseteq> insert p (block_pages bs')" using a(4) by blast
    ultimately show ?thesis using a fr [OF a(1)] e by (intro disjI2 exI [of _ s'] exI [of _ bs'] exI [of _ p]) simp
  qed (simp add: e)
next
  case (Some p)
  then have "frames s d i AND PTE_V \<noteq> 0" using child_of_tab [OF ch] by (auto simp: sub_table_def)
  then have "table_entry d i True s = Some (True, s)" by (simp add: table_entry_def)
  moreover have "tab (frames s) dir = (tab (frames s) dir)(C := Some p)" using Some by auto
  moreover have "pmm_inv (pmm s) bs" using inv by (simp add: vm_inv_def)
  moreover have "p \<in> block_pages bs \<union> tables (frames s) dir" using tableI [OF Some] by simp
  ultimately show ?thesis using inv by blast
qed

lemma get_pte_frames:
  assumes inv: "vm_inv s dir bs"
  shows "\<exists>r s' bs'. get_pte dir la True s = Some (r, s') \<and> vm_inv s' dir bs' \<and> npage s' = npage s \<and> block_pages bs' \<subseteq> block_pages bs \<and>
     tables (frames s') dir \<subseteq> tables (frames s) dir \<union> block_pages bs \<and>
     (\<forall>la. pte_at (frames s') dir la = pte_at (frames s) dir la) \<and>
     (\<forall>k. k \<notin> tables (frames s) dir \<union> block_pages bs \<longrightarrow> frames s' k = frames s k) \<and>
     (\<forall>k. k \<notin> block_pages bs \<longrightarrow> page_ref k s' = page_ref k s) \<and>
     (\<exists>p q. block_pages bs \<subseteq> {p, q} \<union> block_pages bs') \<and>
     (r = None \<and> bs' = [] \<or> (\<exists>t. r = Some (t, PTX la) \<and> tab (frames s') dir (L2 (PDX1 la) (PDX0 la)) = Some t))"
    (is "\<exists>r s' bs'. ?Q r s' bs'")
proof -
  let ?C1 = "L1 (PDX1 la)" and ?C2 = "L2 (PDX1 la) (PDX0 la)"
  have dt: "dir \<in> tables (frames s) dir" using tableI [of "frames s" dir Root] by simp
  from table_entry_frames [OF inv vm_inv_child_L1 [of _ _ "PDX1 la"]] show ?thesis
  proof (elim disjE conjE exE)
    assume "bs = []" "table_entry dir (PDX1 la) True s = Some (False, s)"
    then show ?thesis using inv by (intro exI [of _ None] exI [of _ s] exI [of _ bs]) (simp add: get_pte_def)
  next
    fix s1 bs1 d
    assume t1: "table_entry dir (PDX1 la) True s = Some (True, s1)" and i1: "vm_inv s1 dir bs1" "block_pages bs1 \<subseteq> block_pages bs" "npage s1 = npage s"
      and tab1: "tab (frames s1) dir = (tab (frames s) dir)(?C1 := Some d)" and d: "d \<in> block_pages bs \<union> tables (frames s) dir" "block_pages bs \<subseteq> insert d (block_pages bs1)"
      and a1: "\<forall>la. pte_at (frames s1) dir la = pte_at (frames s) dir la"
        "\<forall>k. k \<noteq> dir \<longrightarrow> k \<notin> block_pages bs \<longrightarrow> frames s1 k = frames s k" "\<forall>k. k \<notin> block_pages bs \<longrightarrow> page_ref k s1 = page_ref k s"
    have d1: "tab (frames s1) dir ?C1 = Some d" using tab1 by simp
    note pd = vm_inv_pde1 [OF i1(1) d1]
    have tb1: "tables (frames s1) dir \<subseteq> tables (frames s) dir \<union> block_pages bs" using tables_upd [OF tab1] d(1) by blast
    from table_entry_frames [OF i1(1) vm_inv_child_L2 [OF d1, of "PDX0 la"]] show ?thesis
    proof (elim disjE conjE exE)
      assume "bs1 = []" "table_entry d (PDX0 la) True s1 = Some (False, s1)"
      then have "get_pte dir la True s = Some (None, s1)" "bs1 = []" using t1 pd by (simp_all add: get_pte_def)
      moreover have "\<exists>p q. block_pages bs \<subseteq> {p, q} \<union> block_pages bs1" using d(2) by (intro exI [of _ d]) auto
      ultimately have "?Q None s1 bs1" using i1 a1 tb1 dt by auto
      then show ?thesis by blast
    next
      fix s2 bs2 t
      assume t2: "table_entry d (PDX0 la) True s1 = Some (True, s2)" and i2: "vm_inv s2 dir bs2" "block_pages bs2 \<subseteq> block_pages bs1" "npage s2 = npage s1"
        and tab2: "tab (frames s2) dir = (tab (frames s1) dir)(?C2 := Some t)" and t: "t \<in> block_pages bs1 \<union> tables (frames s1) dir" "block_pages bs1 \<subseteq> insert t (block_pages bs2)"
        and a2: "\<forall>la. pte_at (frames s2) dir la = pte_at (frames s1) dir la"
          "\<forall>k. k \<noteq> d \<longrightarrow> k \<notin> block_pages bs1 \<longrightarrow> frames s2 k = frames s1 k" "\<forall>k. k \<notin> block_pages bs1 \<longrightarrow> page_ref k s2 = page_ref k s1"
      have t2': "tab (frames s2) dir ?C1 = Some d" "tab (frames s2) dir ?C2 = Some t" using tab2 d1 by simp_all
      have "get_pte dir la True s = Some (Some (t, PTX la), s2)" using t1 pd t2 vm_inv_pde0 [OF i2(1) t2'] by (simp add: get_pte_def)
      moreover have "tables (frames s2) dir \<subseteq> tables (frames s) dir \<union> block_pages bs" using tables_upd [OF tab2] t(1) tb1 i1(2) by blast
      moreover have "frames s2 k = frames s k" if "k \<notin> tables (frames s) dir \<union> block_pages bs" for k
      proof -
        have "k \<noteq> dir" "k \<notin> block_pages bs" "k \<noteq> d" "k \<notin> block_pages bs1" using that d(1) dt i1(2) by auto
        then show ?thesis using a1(2) a2(2) by simp
      qed
      moreover have "page_ref k s2 = page_ref k s" if "k \<notin> block_pages bs" for k using that a1(3) a2(3) i1(2) by auto
      moreover have "\<exists>p q. block_pages bs \<subseteq> {p, q} \<union> block_pages bs2" using d(2) t(2) by (intro exI [of _ d] exI [of _ t]) auto
      ultimately have "?Q (Some (t, PTX la)) s2 bs2" using i1 i2 a1(1) a2(1) t2'(2) by (simp del: tab.simps)
      then show ?thesis by blast
    qed
  qed
qed

lemma page_insert_present:
  assumes inv: "vm_inv s dir bs" and t: "tab (frames s) dir (L2 (PDX1 la) (PDX0 la)) = Some t" and un: "frames s t (PTX la) AND PTE_V = 0"
  shows "page_insert dir p la perm s = Some (0, set_entry t (PTX la) (pte_create (page2ppn p) (PTE_V OR perm)) (page_ref_inc p s))"
  using get_pte_present [OF inv t] un by (simp add: page_insert_def page_ref_inc_def set_page_ref_def)

text \<open>Two address spaces with separate tables.\<close>

definition vm_inv2 :: "vm \<Rightarrow> nat \<Rightarrow> nat \<Rightarrow> (nat \<times> nat) list \<Rightarrow> bool" where
  "vm_inv2 s a b bs \<longleftrightarrow> vm_inv s a bs \<and> vm_inv s b bs \<and> tables (frames s) a \<inter> tables (frames s) b = {}"

lemma vm_inv2_commute: "vm_inv2 s a b bs \<longleftrightarrow> vm_inv2 s b a bs"
  by (auto simp: vm_inv2_def)

text \<open>Writing one entry of a page table of the first address space.\<close>

lemma vm_inv2_set:
  assumes inv: "vm_inv2 s a b bs" and t: "tab (frames s) a (L2 (PDX1 la) (PDX0 la)) = Some t"
    and s': "frames s' = (frames s)(t := (frames s t)(PTX la := e))" "npage s' = npage s" "pmm_inv (pmm s') bs'" "block_pages bs' \<subseteq> block_pages bs"
  shows "vm_inv2 s' a b bs' \<and> (\<forall>x. pte_at (frames s') a x = (if vpn x = vpn la then e else pte_at (frames s) a x)) \<and>
    (\<forall>x. pte_at (frames s') b x = pte_at (frames s) b x) \<and> tab (frames s') a = tab (frames s) a \<and> tab (frames s') b = tab (frames s) b"
proof -
  have i: "vm_inv s a bs" "vm_inv s b bs" "tables (frames s) a \<inter> tables (frames s) b = {}" using inv by (simp_all add: vm_inv2_def)
  have inj: "tabs_inj (frames s) a" using i(1) by (simp add: vm_inv_def)
  have "vm_inv s' a bs'" by (rule vm_inv_set_pte [OF i(1) t s'(1-3)]) (use i(1) s'(4) in \<open>auto simp: vm_inv_def\<close>)
  moreover have "tab (frames s') a = tab (frames s) a" using tab_set_pte [OF inj t] s'(1) by simp
  moreover have "{t} \<inter> tables (frames s) b = {}" using tableI [OF t] i(3) by blast
  then have "\<forall>q f. tab (frames s) b q = Some f \<longrightarrow> frames s' f = frames s f" by (rule agree_off) (simp add: s'(1))
  from vm_inv_agree [OF i(2) this s'(2-4)]
  have "vm_inv s' b bs'" "tab (frames s') b = tab (frames s) b" "\<forall>x. pte_at (frames s') b x = pte_at (frames s) b x" by blast+
  ultimately show ?thesis using i(3) pte_at_set [OF inj t, of e] s'(1) by (simp add: vm_inv2_def tables_def)
qed

section \<open>Sharing a page\<close>

text \<open>What the parent's entry becomes, and the permissions given to the child.\<close>

definition cow_entry :: "64 word \<Rightarrow> 64 word" where
  "cow_entry e = (if e AND PTE_W \<noteq> 0 then e AND NOT PTE_W OR PTE_COW else e)"

definition cow_perm :: "64 word \<Rightarrow> 64 word" where
  "cow_perm e = (if e AND PTE_W \<noteq> 0 then (e AND PTE_USER) AND NOT PTE_W OR PTE_COW else e AND PTE_USER)"

lemma user_write: "(e AND PTE_USER) AND PTE_W = 0 \<longleftrightarrow> e AND PTE_W = 0"
  by (simp add: PTE_test bit_simps PTE_bits)

lemma valid_table: "pte_at F dir la AND PTE_V \<noteq> 0 \<Longrightarrow> \<exists>t. tab F dir (L2 (PDX1 la) (PDX0 la)) = Some t"
  unfolding pte_at_def by (cases "tab F dir (L2 (PDX1 la) (PDX0 la))") auto

lemma pte2page_valid: "pte2page s e = Some p \<Longrightarrow> e AND PTE_V \<noteq> 0"
  by (auto simp: pte2page_def elim!: bind_eq_SomeE)

text \<open>The page table of the child being there, with a free page.\<close>

lemma cow_share_present:
  assumes inv: "vm_inv2 s to from' bs" and t: "tab (frames s) to (L2 (PDX1 la) (PDX0 la)) = Some t" and un: "pte_at (frames s) to la AND PTE_V = 0"
    and f: "tab (frames s) from' (L2 (PDX1 la) (PDX0 la)) = Some pt" and e: "e = pte_at (frames s) from' la" "pte2page s e = Some p"
    and b: "bs \<noteq> []" and p: "p \<notin> block_pages bs \<union> tables (frames s) to \<union> tables (frames s) from'"
  shows "\<exists>s' bs' np. cow_copy_page to la True (pt, PTX la) s = Some (None, s') \<and> vm_inv2 s' to from' bs' \<and> np \<in> block_pages bs \<and>
     block_pages bs' = block_pages bs - {np} \<and> npage s' = npage s \<and>
     (\<forall>a. pte_at (frames s') from' a = (if vpn a = vpn la then cow_entry e else pte_at (frames s) from' a)) \<and>
     (\<forall>a. pte_at (frames s') to a = (if vpn a = vpn la then pte_create (page2ppn p) (PTE_V OR cow_perm e) else pte_at (frames s) to a)) \<and>
     (\<forall>k. k \<notin> tables (frames s) to \<union> tables (frames s) from' \<longrightarrow> frames s' k = frames s k) \<and>
     (\<forall>k. page_ref k s' = page_ref k s + (if k = p then 1 else 0))"
proof -
  have i: "vm_inv s to bs" "vm_inv s from' bs" using inv by (simp_all add: vm_inv2_def)
  have ef: "e = frames s pt (PTX la)" using e(1) pte_at_table [OF f] by simp
  have "pmm_inv (pmm s) bs" using i(1) by (simp add: vm_inv_def)
  then obtain np q bs' where al: "alloc_page s = Some (Some np, s\<lparr>pmm := q\<rparr>)" "np \<in> block_pages bs" "pmm_inv q bs'"
      "block_pages bs' = block_pages bs - {np}" "\<forall>i. pg_ref (pages q i) = pg_ref (pages (pmm s) i)"
    using alloc_page_spec b by blast
  let ?s1 = "s\<lparr>pmm := q\<rparr>"
  let ?s2 = "set_entry pt (PTX la) (cow_entry e) ?s1"
  let ?s3 = "set_entry t (PTX la) (pte_create (page2ppn p) (PTE_V OR cow_perm e)) (page_ref_inc p ?s2)"
  have sub: "block_pages bs' \<subseteq> block_pages bs" using al(4) by blast
  have i2: "vm_inv2 ?s2 from' to bs'" "\<And>x. pte_at (frames ?s2) from' x = (if vpn x = vpn la then cow_entry e else pte_at (frames s) from' x)"
      "\<And>x. pte_at (frames ?s2) to x = pte_at (frames s) to x" "tab (frames ?s2) to = tab (frames s) to"
    using vm_inv2_set [of s from' to bs la pt ?s2 "cow_entry e" bs'] inv f al(3) sub by (auto simp: vm_inv2_commute [of s to] set_entry_def)
  have t2: "tab (frames ?s2) to (L2 (PDX1 la) (PDX0 la)) = Some t" using t i2(4) by simp
  have i2': "vm_inv ?s2 to bs'" using i2(1) by (simp add: vm_inv2_def)
  have un2: "frames ?s2 t (PTX la) AND PTE_V = 0" using pte_at_table [OF t2] i2(3) [of la] un by simp
  have pi: "page_insert to p la (cow_perm e) ?s2 = Some (0, ?s3)" by (rule page_insert_present [OF i2' t2 un2])
  have f3: "frames ?s3 = (frames ?s2)(t := (frames ?s2 t)(PTX la := pte_create (page2ppn p) (PTE_V OR cow_perm e)))" "npage ?s3 = npage ?s2"
    "pmm_inv (pmm ?s3) bs'" using al(3) by (simp_all add: set_entry_def page_ref_inc_def set_page_ref_def pmm_inv_upd_ref)
  have i3: "vm_inv2 ?s3 to from' bs'" "\<And>x. pte_at (frames ?s3) to x = (if vpn x = vpn la then pte_create (page2ppn p) (PTE_V OR cow_perm e) else pte_at (frames s) to x)"
      "\<And>x. pte_at (frames ?s3) from' x = pte_at (frames ?s2) from' x"
    using vm_inv2_set [OF _ t2 f3 order_refl, of from'] i2(1,3) by (auto simp: vm_inv2_commute [of _ to])
  have "cow_copy_page to la True (pt, PTX la) s = Some (None, ?s3)"
  proof (cases "e AND PTE_W = 0")
    case True
    then have k: "?s2 = ?s1" "cow_perm e = e AND PTE_USER" by (simp_all add: cow_entry_def cow_perm_def set_entry_def ef)
    show ?thesis using get_pte_present [OF i(1) t] e(2) al(1) True pi unfolding k by (simp add: cow_copy_page_def ef user_write Let_def)
  next
    case False
    then have k: "cow_entry e = e AND NOT PTE_W OR PTE_COW" "cow_perm e = (e AND PTE_USER) AND NOT PTE_W OR PTE_COW"
      by (simp_all add: cow_entry_def cow_perm_def)
    show ?thesis using get_pte_present [OF i(1) t] e(2) al(1) False pi unfolding k by (simp add: cow_copy_page_def ef user_write Let_def)
  qed
  moreover have "frames ?s3 k = frames s k" if "k \<notin> tables (frames s) to \<union> tables (frames s) from'" for k
    using that tableI [OF t] tableI [OF f] by (auto simp: f3(1) set_entry_def page_ref_inc_def set_page_ref_def)
  moreover have "page_ref k ?s3 = page_ref k s + (if k = p then 1 else 0)" for k
    using al(5) by (simp add: page_ref_def page_ref_inc_def set_page_ref_def set_entry_def)
  moreover have "npage ?s3 = npage s" by (simp add: f3(2) set_entry_def page_ref_inc_def set_page_ref_def)
  ultimately show ?thesis using i3 i2(2) al(2,4) by (intro exI [of _ ?s3] exI [of _ bs'] exI [of _ np]) simp
qed

lemma cow_copy_page_skip:
  "get_pte to la True s = Some (r, s1) \<Longrightarrow> get_pte to la True s1 = Some (r, s1) \<Longrightarrow> cow_copy_page to la share ptep s = cow_copy_page to la share ptep s1"
  by (simp add: cow_copy_page_def)

lemma vm_inv2_get_pte:
  assumes inv: "vm_inv2 s to from' bs"
  shows "\<exists>r s1 bs1. get_pte to la True s = Some (r, s1) \<and> vm_inv2 s1 to from' bs1 \<and> npage s1 = npage s \<and> block_pages bs1 \<subseteq> block_pages bs \<and>
     tables (frames s1) to \<subseteq> tables (frames s) to \<union> block_pages bs \<and> tab (frames s1) from' = tab (frames s) from' \<and>
     (\<forall>a. pte_at (frames s1) to a = pte_at (frames s) to a) \<and> (\<forall>a. pte_at (frames s1) from' a = pte_at (frames s) from' a) \<and>
     (\<forall>k. k \<notin> tables (frames s) to \<union> block_pages bs \<longrightarrow> frames s1 k = frames s k) \<and>
     (\<forall>k. k \<notin> block_pages bs \<longrightarrow> page_ref k s1 = page_ref k s) \<and>
     (\<exists>p q. block_pages bs \<subseteq> {p, q} \<union> block_pages bs1) \<and>
     (r = None \<and> bs1 = [] \<or> (\<exists>t. r = Some (t, PTX la) \<and> tab (frames s1) to (L2 (PDX1 la) (PDX0 la)) = Some t))"
proof -
  have i: "vm_inv s to bs" "vm_inv s from' bs" "tables (frames s) to \<inter> tables (frames s) from' = {}" using inv by (simp_all add: vm_inv2_def)
  obtain r s1 bs1 where g: "get_pte to la True s = Some (r, s1)" "vm_inv s1 to bs1" "npage s1 = npage s" "block_pages bs1 \<subseteq> block_pages bs"
      "tables (frames s1) to \<subseteq> tables (frames s) to \<union> block_pages bs" "\<forall>a. pte_at (frames s1) to a = pte_at (frames s) to a"
      "\<forall>k. k \<notin> tables (frames s) to \<union> block_pages bs \<longrightarrow> frames s1 k = frames s k" "\<forall>k. k \<notin> block_pages bs \<longrightarrow> page_ref k s1 = page_ref k s"
      "\<exists>p q. block_pages bs \<subseteq> {p, q} \<union> block_pages bs1"
      "r = None \<and> bs1 = [] \<or> (\<exists>t. r = Some (t, PTX la) \<and> tab (frames s1) to (L2 (PDX1 la) (PDX0 la)) = Some t)"
    using get_pte_frames [OF i(1), of la] by blast
  have "(tables (frames s) to \<union> block_pages bs) \<inter> tables (frames s) from' = {}" using i(3) tables_inv [OF i(2)] by blast
  then have ag: "\<forall>q f. tab (frames s) from' q = Some f \<longrightarrow> frames s1 f = frames s f" by (rule agree_off) (rule g(7))
  have "pmm_inv (pmm s1) bs1" using g(2) by (simp add: vm_inv_def)
  from vm_inv_agree [OF i(2) ag g(3) this g(4)]
  have f: "vm_inv s1 from' bs1" "tab (frames s1) from' = tab (frames s) from'" "\<forall>a. pte_at (frames s1) from' a = pte_at (frames s) from' a" by blast+
  have "tables (frames s1) from' = tables (frames s) from'" using f(2) by (simp add: tables_def)
  then have "tables (frames s1) to \<inter> tables (frames s1) from' = {}" using g(5) i(3) tables_inv [OF i(2)] by blast
  then have "vm_inv2 s1 to from' bs1" using g(2) f(1) by (simp add: vm_inv2_def)
  then show ?thesis using g f by (intro exI [of _ r] exI [of _ s1] exI [of _ bs1]) (simp del: tab.simps)
qed

lemma cow_perm_low: "(PTE_V OR cow_perm e) AND NOT 0x3FF = 0"
proof -
  have "(PTE_V OR cow_perm e) AND NOT (mask 10) = 0"
    unfolding word_zero_iff by (auto simp: bit_simps PTE_bits cow_perm_def)
  then show ?thesis by (simp add: low_mask)
qed

lemma cow_entry_bits:
  "bit (cow_entry e) 0 \<longleftrightarrow> bit e 0" "\<not> bit (cow_entry e) 2" "bit (cow_entry e) 8 \<longleftrightarrow> bit e 2 \<or> bit e 8"
  "\<not> bit (pte_create ppn (PTE_V OR cow_perm e)) 2" "bit (pte_create ppn (PTE_V OR cow_perm e)) 8 \<longleftrightarrow> bit e 2"
  by (auto simp: cow_entry_def PTE_test bit_simps PTE_bits bit_pte_create cow_perm_def)

lemma pte2page_cow_entry: "pte2page s (cow_entry e) = pte2page s e"
proof (cases "e AND PTE_W = 0")
  case False
  then have c: "cow_entry e = e AND NOT PTE_W OR PTE_COW" by (simp add: cow_entry_def)
  have "PTE_ADDR (cow_entry e) = PTE_ADDR e" unfolding c by (simp only: PTE_ADDR_flags PTE_low)
  moreover have "cow_entry e AND PTE_V = 0 \<longleftrightarrow> e AND PTE_V = 0" by (simp add: PTE_test cow_entry_bits)
  ultimately show ?thesis by (simp add: pte2page_def)
qed (simp add: cow_entry_def)

lemma cow_share_outcome:
  assumes inv: "vm_inv2 s to from' bs" and un: "pte_at (frames s) to la AND PTE_V = 0"
    and e: "e = pte_at (frames s) from' la" "pte2page s e = Some p" and f: "get_pte from' la False s = Some (Some ptep, s)"
    and p: "p \<notin> block_pages bs \<union> tables (frames s) to \<union> tables (frames s) from'" "page2ppn p < npage s"
  shows "\<exists>r s1 bs1. get_pte to la True s = Some (r, s1) \<and> vm_inv2 s1 to from' bs1 \<and> block_pages bs1 \<subseteq> block_pages bs \<and>
     (2 < card (block_pages bs) \<longrightarrow> r \<noteq> None \<and> bs1 \<noteq> []) \<and>
     (if r = None then cow_copy_page to la True ptep s = Some (Some (- E_NO_MEM), s1)
      else if bs1 = [] then cow_copy_page to la True ptep s = None
      else \<exists>s' bs' np. cow_copy_page to la True ptep s = Some (None, s') \<and> vm_inv2 s' to from' bs' \<and> np \<in> block_pages bs1 \<and> block_pages bs' = block_pages bs1 - {np} \<and>
        (\<forall>a. pte_at (frames s') from' a = (if vpn a = vpn la then cow_entry e else pte_at (frames s) from' a)) \<and>
        (\<forall>a. pte_at (frames s') to a = (if vpn a = vpn la then pte_create (page2ppn p) (PTE_V OR cow_perm e) else pte_at (frames s) to a)) \<and>
        pte2page s' (cow_entry e) = Some p \<and> pte2page s' (pte_create (page2ppn p) (PTE_V OR cow_perm e)) = Some p \<and>
        frames s' p = frames s p \<and> page_ref p s' = page_ref p s + 1)"
proof -
  obtain r s1 bs1 where g: "get_pte to la True s = Some (r, s1)" "vm_inv2 s1 to from' bs1" "npage s1 = npage s" "block_pages bs1 \<subseteq> block_pages bs"
      "tables (frames s1) to \<subseteq> tables (frames s) to \<union> block_pages bs" "tab (frames s1) from' = tab (frames s) from'"
      "\<forall>a. pte_at (frames s1) to a = pte_at (frames s) to a" "\<forall>a. pte_at (frames s1) from' a = pte_at (frames s) from' a"
      "\<forall>k. k \<notin> tables (frames s) to \<union> block_pages bs \<longrightarrow> frames s1 k = frames s k" "\<forall>k. k \<notin> block_pages bs \<longrightarrow> page_ref k s1 = page_ref k s"
      "\<exists>p q. block_pages bs \<subseteq> {p, q} \<union> block_pages bs1"
      "r = None \<and> bs1 = [] \<or> (\<exists>t. r = Some (t, PTX la) \<and> tab (frames s1) to (L2 (PDX1 la) (PDX0 la)) = Some t)"
    using vm_inv2_get_pte [OF inv, of la] by blast
  have i1: "vm_inv s1 to bs1" "vm_inv s1 from' bs1" and i0: "vm_inv s from' bs" using g(2) inv by (simp_all add: vm_inv2_def)
  obtain pt where pt: "tab (frames s) from' (L2 (PDX1 la) (PDX0 la)) = Some pt" using valid_table pte2page_valid [OF e(2)] e(1) by blast
  then have ptep: "ptep = (pt, PTX la)" using f get_pte_present [OF i0 pt, of False] by simp
  have e1: "e = pte_at (frames s1) from' la" "pte2page s1 e = Some p" using e g(3,8) by (simp_all add: pte2page_def pa2page_def)
  have pt1: "tab (frames s1) from' (L2 (PDX1 la) (PDX0 la)) = Some pt" using pt g(6) by simp
  have tf: "tables (frames s1) from' = tables (frames s) from'" using g(6) by (simp add: tables_def)
  have p1: "p \<notin> block_pages bs1 \<union> tables (frames s1) to \<union> tables (frames s1) from'" using p(1) g(4,5) tf by blast
  have enough: "2 < card (block_pages bs) \<longrightarrow> r \<noteq> None \<and> bs1 \<noteq> []"
  proof
    assume c: "2 < card (block_pages bs)"
    obtain x y where xy: "block_pages bs \<subseteq> {x, y} \<union> block_pages bs1" using g(11) by blast
    have "bs1 \<noteq> []"
    proof
      assume "bs1 = []"
      then have "card (block_pages bs) \<le> card {x, y}" using xy by (intro card_mono) auto
      then show False using c card_insert_le_m1 [of 2 "{y}" x] by simp
    qed
    then show "r \<noteq> None \<and> bs1 \<noteq> []" using g(12) by blast
  qed
  show ?thesis
  proof (cases r)
    case None
    then show ?thesis using enough g by (intro exI [of _ r] exI [of _ s1] exI [of _ bs1]) (simp add: cow_copy_page_def)
  next
    case (Some loc)
    then obtain t where t: "r = Some (t, PTX la)" "tab (frames s1) to (L2 (PDX1 la) (PDX0 la)) = Some t" using g(12) by blast
    have skip: "cow_copy_page to la True ptep s = cow_copy_page to la True ptep s1"
      using g(1) t(1) get_pte_present [OF i1(1) t(2), of True] by (intro cow_copy_page_skip [of _ _ _ r]) simp_all
    show ?thesis
    proof (cases "bs1 = []")
      case True
      then have "alloc_page s1 = Some (None, s1)" using alloc_page_spec [of s1 bs1] i1(1) by (auto simp: vm_inv_def)
      then have "cow_copy_page to la True ptep s = None"
        using skip get_pte_present [OF i1(1) t(2), of True] e1 pte_at_table [OF pt1] by (simp add: cow_copy_page_def ptep)
      then show ?thesis using enough g t True by (intro exI [of _ r] exI [of _ s1] exI [of _ bs1]) simp
    next
      case False
      have un1: "pte_at (frames s1) to la AND PTE_V = 0" using un g(7) by simp
      obtain s' bs' np where s': "cow_copy_page to la True (pt, PTX la) s1 = Some (None, s')" "vm_inv2 s' to from' bs'" "np \<in> block_pages bs1"
          "block_pages bs' = block_pages bs1 - {np}" "npage s' = npage s1"
          "\<forall>a. pte_at (frames s') from' a = (if vpn a = vpn la then cow_entry e else pte_at (frames s1) from' a)"
          "\<forall>a. pte_at (frames s') to a = (if vpn a = vpn la then pte_create (page2ppn p) (PTE_V OR cow_perm e) else pte_at (frames s1) to a)"
          "\<forall>k. k \<notin> tables (frames s1) to \<union> tables (frames s1) from' \<longrightarrow> frames s' k = frames s1 k"
          "\<forall>k. page_ref k s' = page_ref k s1 + (if k = p then 1 else 0)"
        using cow_share_present [OF g(2) t(2) un1 pt1 e1 False p1] by blast
      have "npage s' \<le> 2 ^ 44" using i1(1) s'(5) by (simp add: vm_inv_def)
      then have "pte2page s' (pte_create (page2ppn p) (PTE_V OR cow_perm e)) = Some p"
        using p(2) g(3) s'(5) by (intro pte2page_create [OF _ _ cow_perm_low]) simp_all
      moreover have "pte2page s' (cow_entry e) = Some p" using e(2) g(3) s'(5) by (simp add: pte2page_cow_entry) (simp add: pte2page_def pa2page_def)
      moreover have "frames s' p = frames s p" using s'(8) g(9) p(1) p1 by simp
      moreover have "page_ref p s' = page_ref p s + 1" using s'(9) g(10) p(1) by simp
      ultimately show ?thesis using enough g(1,2,4,7,8) t(1) False s'(1-4,6,7) skip
        by (intro exI [of _ r] exI [of _ s1] exI [of _ bs1]) (auto simp: ptep)
    qed
  qed
qed

section \<open>Correctness\<close>

text \<open>Directory 0 with one page table (frame 2) that maps frame 3 at 0x800000 with flags \<open>w\<close>, and the empty directory 4.\<close>

definition cow_vm :: "64 word \<Rightarrow> int \<Rightarrow> vm" where
  "cow_vm w r = \<lparr>pmm = upd_page 3 (\<lambda>d. d\<lparr>pg_ref := r\<rparr>) (take_block 0 5 ten_pages),
     frames = (\<lambda>p i. if p = 0 \<and> i = 0 then pte_create (page2ppn 1) (PTE_U OR PTE_V)
                     else if p = 1 \<and> i = 4 then pte_create (page2ppn 2) (PTE_U OR PTE_V)
                     else if p = 2 \<and> i = 0 then pte_create (page2ppn 3) w else 0),
     npage = nbase + 10\<rparr>"

lemma cow_vm_entry:
  assumes "p < 10" "w AND NOT 0x3FF = 0"
  shows "entry_page (pte_create (page2ppn p) w) = p" "entry_ok (cow_vm x r) (pte_create (page2ppn p) w)"
    "pte2page (cow_vm x r) (pte_create (page2ppn p) w) = Some p"
proof -
  have "page2ppn p < npage (cow_vm x r)" "npage (cow_vm x r) \<le> 2 ^ 44" using assms by (auto simp: cow_vm_def page2ppn_def nbase_def)
  note k = this assms(2)
  show "entry_page (pte_create (page2ppn p) w) = p" "entry_ok (cow_vm x r) (pte_create (page2ppn p) w)"
    "pte2page (cow_vm x r) (pte_create (page2ppn p) w) = Some p"
    using entry_create [OF k] pte2page_create [OF k] by auto
qed

lemma PTE_UV_low: "(PTE_U OR PTE_V) AND NOT 0x3FF = 0"
  by (simp add: PTE_U_def PTE_V_def)

lemma cow_vm_tab:
  "sub_table (frames (cow_vm w r)) 0 i = (if i = 0 then Some 1 else None)"
  "sub_table (frames (cow_vm w r)) 1 i = (if i = 4 then Some 2 else None)"
  "tab (frames (cow_vm w r)) 0 q = Some f \<longleftrightarrow> (q, f) \<in> {(Root, 0), (L1 0, 1), (L2 0 4, 2)}"
  "sub_table (frames (cow_vm w r)) 4 i = None"
  "tab (frames (cow_vm w r)) 4 q = Some f \<longleftrightarrow> q = Root \<and> f = 4"
proof -
  show s0: "sub_table (frames (cow_vm w r)) 0 i = (if i = 0 then Some 1 else None)" for i
    using cow_vm_entry(1) [OF _ PTE_UV_low, of 1] pte_create_valid [of "page2ppn 1" "PTE_U OR PTE_V"]
    by (simp add: cow_vm_def sub_table_def)
  show s1: "sub_table (frames (cow_vm w r)) 1 i = (if i = 4 then Some 2 else None)" for i
    using cow_vm_entry(1) [OF _ PTE_UV_low, of 2] pte_create_valid [of "page2ppn 2" "PTE_U OR PTE_V"]
    by (simp add: cow_vm_def sub_table_def)
  show "tab (frames (cow_vm w r)) 0 q = Some f \<longleftrightarrow> (q, f) \<in> {(Root, 0), (L1 0, 1), (L2 0 4, 2)}"
    by (cases q) (auto simp: s0 s1 [simplified] split: if_splits)
  show s4: "sub_table (frames (cow_vm w r)) 4 i = None" for i by (simp add: cow_vm_def sub_table_def)
  show "tab (frames (cow_vm w r)) 4 q = Some f \<longleftrightarrow> q = Root \<and> f = 4" by (cases q) (auto simp: s4)
qed

lemma cow_vm_inv: "vm_inv2 (cow_vm w r) 4 0 [(5, 5)]"
proof -
  let ?s = "cow_vm w r"
  have pi: "pmm_inv (pmm ?s) [(5, 5)]" using take_block_inv [OF ten_pages_inv, of "[]" 0 10 "[]" 5] by (simp add: cow_vm_def pmm_inv_upd_ref)
  have n: "npage ?s = nbase + 10" by (simp add: cow_vm_def)
  have ok: "entry_ok ?s (frames ?s 0 i)" if "frames ?s 0 i AND PTE_V \<noteq> 0" for i
    using that cow_vm_entry(2) [OF _ PTE_UV_low, of 1] by (auto simp: cow_vm_def split: if_splits)
  have ok': "entry_ok ?s (frames ?s d i)" if "sub_table (frames ?s) 0 k = Some d" "frames ?s d i AND PTE_V \<noteq> 0" for k d i
    using that cow_vm_entry(2) [OF _ PTE_UV_low, of 2] by (auto simp: cow_vm_tab) (auto simp: cow_vm_def split: if_splits)
  have z: "frames ?s 4 i = 0" for i by (simp add: cow_vm_def)
  have "vm_inv ?s 0 [(5, 5)]" using pi n ok ok' unfolding vm_inv_def tabs_inj_def cow_vm_tab(3) by (auto simp: page2ppn_def nbase_def)
  moreover have "vm_inv ?s 4 [(5, 5)]" using pi n z unfolding vm_inv_def tabs_inj_def cow_vm_tab(4,5) by (auto simp: page2ppn_def nbase_def)
  moreover have "tables (frames ?s) 4 \<inter> tables (frames ?s) 0 = {}" unfolding tables_def cow_vm_tab(3,5) by auto
  ultimately show ?thesis by (simp add: vm_inv2_def)
qed

lemma cow_vm_pte:
  "pte_at (frames (cow_vm w r)) 0 0x800000 = pte_create (page2ppn 3) w" "pte_at (frames (cow_vm w r)) 4 0x800000 = 0"
  "get_pte 0 0x800000 False (cow_vm w r) = Some (Some (2, 0), cow_vm w r)" "page_ref 3 (cow_vm w r) = r"
proof -
  have x: "PDX1 0x800000 = 0" "PDX0 0x800000 = 4" "PTX 0x800000 = 0" by (simp_all add: PDX1_def PDX0_def PTX_def drop_bit_eq_div)
  have t: "tab (frames (cow_vm w r)) 0 (L2 0 4) = Some 2" using cow_vm_tab(3) by blast
  show "pte_at (frames (cow_vm w r)) 0 0x800000 = pte_create (page2ppn 3) w"
    using t unfolding pte_at_def x by (simp del: tab.simps) (simp add: cow_vm_def)
  have "tab (frames (cow_vm w r)) 4 (L2 0 4) = None" by (simp add: cow_vm_tab(4))
  then show "pte_at (frames (cow_vm w r)) 4 0x800000 = 0" unfolding pte_at_def x by (simp del: tab.simps)
  have i: "vm_inv (cow_vm w r) 0 [(5, 5)]" using cow_vm_inv by (simp add: vm_inv2_def)
  show "get_pte 0 0x800000 False (cow_vm w r) = Some (Some (2, 0), cow_vm w r)"
    using get_pte_present [OF i, where la = "0x800000" and t = 2 and c = False] t unfolding x by blast
  show "page_ref 3 (cow_vm w r) = r" by (simp add: page_ref_def cow_vm_def)
qed

lemma cow_vm_free: "2 < card (block_pages [(5, 5)])"
  by (simp add: block_pages_def)

lemma cow_vm_page: "3 \<notin> block_pages [(5, 5)] \<union> tables (frames (cow_vm w r)) 4 \<union> tables (frames (cow_vm w r)) 0"
  "page2ppn 3 < npage (cow_vm w r)"
  unfolding tables_def cow_vm_tab(3,5) by (auto simp: block_pages_def cow_vm_def page2ppn_def nbase_def)



text \<open>C26. A store to a copy-on-write page: when other mappings of the frame exist the process gets a fresh frame with the same
  contents, mapped writable with the other permissions kept, and the shared frame loses one reference and keeps its contents;
  the last mapping is made writable in place. No other address changes its mapping. The only failure is a panic when a copy
  is needed and no page is free.\<close>

theorem cow_fault_correct:
  assumes "vm_inv s dir bs" and "e = pte_at (frames s) dir a" and "pte2page s e = Some p" and "e AND PTE_COW \<noteq> 0"
    and "user_page s dir bs p"
  shows "if page_ref p s > 1 \<and> bs = [] then store_page_fault (Some dir) a s = None
    else \<exists>s' bs' e' np. store_page_fault (Some dir) a s = Some (True, s') \<and> vm_inv s' dir bs' \<and>
      (\<forall>la. pte_at (frames s') dir la = (if vpn la = vpn a then e' else pte_at (frames s) dir la)) \<and>
      pte2page s' e' = Some np \<and> e' AND PTE_W \<noteq> 0 \<and> e' AND PTE_COW = 0 \<and> e' AND PTE_USER = e AND PTE_USER OR PTE_W \<and>
      frames s' np = frames s p \<and> frames s' p = frames s p \<and>
      (if page_ref p s > 1 then np \<in> block_pages bs \<and> block_pages bs' = block_pages bs - {np} \<and> page_ref p s' = page_ref p s - 1 \<and> page_ref np s' = page_ref np s + 1
       else np = p \<and> bs' = bs \<and> page_ref p s' = page_ref p s)"
proof -
  have v: "e AND PTE_V \<noteq> 0" by (rule pte2page_valid [OF assms(3)])
  have pt: "\<forall>q. tab (frames s) dir q \<noteq> Some p" using assms(5) by (simp add: user_page_def)
  consider (sole) "\<not> page_ref p s > 1" | (oom) "page_ref p s > 1" "bs = []" | (copy) "page_ref p s > 1" "bs \<noteq> []" by blast
  then show ?thesis
  proof cases
    case oom
    obtain t where t: "tab (frames s) dir (L2 (PDX1 a) (PDX0 a)) = Some t" using valid_table v assms(2) by blast
    have "alloc_page s = Some (None, s)" using alloc_page_spec [of s bs] assms(1) oom by (auto simp: vm_inv_def)
    then show ?thesis using get_pte_present [OF assms(1) t] oom assms(2-4) v pte_at_table [OF t] by (simp add: store_page_fault_def)
  next
    case sole
    let ?e = "(e OR PTE_W) AND NOT PTE_COW"
    have "PTE_ADDR ?e = PTE_ADDR e" by (simp only: PTE_ADDR_flags PTE_low)
    moreover have "?e AND PTE_V \<noteq> 0" using v by (simp add: PTE_test bit_simps PTE_bits)
    ultimately have p2: "pte2page s' ?e = Some p" if "npage s' = npage s" for s' using assms(3) v that by (simp add: pte2page_def pa2page_def)
    have b: "?e AND PTE_W \<noteq> 0" "?e AND PTE_COW = 0" by (simp_all add: PTE_test bit_simps PTE_bits)
    have us: "?e AND PTE_USER = e AND PTE_USER OR PTE_W" by (rule bit_eqI) (auto simp: bit_simps PTE_bits)
    from store_fault_sole [OF assms(1-4) sole] obtain s' where s': "store_page_fault (Some dir) a s = Some (True, s')" "vm_inv s' dir bs" "pmm s' = pmm s"
        "npage s' = npage s" "\<forall>la. pte_at (frames s') dir la = (if vpn la = vpn a then ?e else pte_at (frames s) dir la)" "frames s' p = frames s p"
      using pt by blast
    then show ?thesis using sole b us p2 [OF s'(4)] by (auto simp: page_ref_def intro!: exI [of _ s'] exI [of _ bs] exI [of _ ?e] exI [of _ p])
  next
    case copy
    let ?m = "(e AND PTE_USER OR PTE_W) AND NOT PTE_COW"
    from store_fault_shared [OF assms(1-5) copy] obtain s' bs' np where s': "store_page_fault (Some dir) a s = Some (True, s')" "vm_inv s' dir bs'" "np \<in> block_pages bs"
        "block_pages bs' = block_pages bs - {np}" "npage s' = npage s"
        "\<forall>la. pte_at (frames s') dir la = (if vpn la = vpn a then pte_create (page2ppn np) (PTE_V OR ?m) else pte_at (frames s) dir la)"
        "\<forall>k. (\<forall>q. tab (frames s) dir q \<noteq> Some k) \<longrightarrow> frames s' k = (if k = np then frames s p else frames s k)"
        "page_ref p s' = page_ref p s - 1" "page_ref np s' = page_ref np s + 1" by blast
    let ?e = "pte_create (page2ppn np) (PTE_V OR ?m)"
    have m: "(PTE_V OR ?m) AND NOT 0x3FF = 0"
    proof -
      have "(PTE_V OR ?m) AND NOT (mask 10) = 0" unfolding word_zero_iff by (auto simp: bit_simps PTE_bits)
      then show ?thesis by (simp add: low_mask)
    qed
    have n: "page2ppn np < npage s'" "npage s' \<le> 2 ^ 44" "p \<noteq> np" using assms(1,5) s'(3,5) by (auto simp: vm_inv_def user_page_def)
    have "pte2page s' ?e = Some np" by (rule pte2page_create [OF n(1,2) m])
    moreover have "?e AND PTE_W \<noteq> 0" "?e AND PTE_COW = 0" by (simp_all add: PTE_test bit_pte_create bit_simps PTE_bits)
    moreover have "?e AND PTE_USER = e AND PTE_USER OR PTE_W"
    proof -
      have "?e AND PTE_USER = (PTE_V OR PTE_V OR ?m) AND PTE_USER" by (rule pte_create_low) (rule PTE_low)
      also have "\<dots> = e AND PTE_USER OR PTE_W" using v by (intro bit_eqI) (auto simp: bit_simps PTE_bits PTE_test)
      finally show ?thesis .
    qed
    moreover have "frames s' np = frames s p" "frames s' p = frames s p" using s'(7) pt vm_inv_fresh [OF assms(1) s'(3)] n(3) by simp_all
    ultimately show ?thesis using s'(1-4,6,8,9) copy by (auto intro!: exI [of _ s'] exI [of _ bs'] exI [of _ ?e] exI [of _ np])
  qed
qed

theorem cow_fault_correct_witness:
  "\<exists>s' bs' e' np. store_page_fault (Some 0) 0x800000 (cow_vm (PTE_U OR PTE_COW) 2) = Some (True, s') \<and> vm_inv s' 0 bs' \<and>
    pte2page s' e' = Some np \<and> e' AND PTE_W \<noteq> 0 \<and> e' AND PTE_COW = 0 \<and> np \<in> block_pages [(5, 5)] \<and> page_ref 3 s' = 1"
proof -
  let ?s = "cow_vm (PTE_U OR PTE_COW) 2" and ?e = "pte_create (page2ppn 3) (PTE_U OR PTE_COW)"
  have w: "(PTE_U OR PTE_COW) AND NOT 0x3FF = 0" by (simp add: PTE_U_def PTE_COW_def)
  have i: "vm_inv ?s 0 [(5, 5)]" using cow_vm_inv by (simp add: vm_inv2_def)
  have e: "?e = pte_at (frames ?s) 0 0x800000" "pte2page ?s ?e = Some 3" "?e AND PTE_COW \<noteq> 0"
    using cow_vm_pte cow_vm_entry(3) [OF _ w] by (simp_all add: PTE_test bit_pte_create bit_simps PTE_bits)
  have u: "user_page ?s 0 [(5, 5)] 3" using cow_vm_page [of "PTE_U OR PTE_COW" 2] by (auto simp: user_page_def tables_def)
  from cow_fault_correct [OF i e u] show ?thesis by (auto simp: cow_vm_pte(4))
qed

text \<open>Copy-on-write is lost by a second fork: sharing a page that is already copy-on-write gives the child an entry that is
  neither writable nor copy-on-write, because the mark is not among the permission bits that are copied. A store of the
  child to that page then faults and is never handled, although the page was writable before the first fork.\<close>

theorem cow_second_fork_unhandled:
  assumes "vm_inv2 s to from' bs" and "pte_at (frames s) to la AND PTE_V = 0"
    and "e = pte_at (frames s) from' la" and "pte2page s e = Some p" and "get_pte from' la False s = Some (Some ptep, s)"
    and "p \<notin> block_pages bs \<union> tables (frames s) to \<union> tables (frames s) from'" and "page2ppn p < npage s"
    and "e AND PTE_W = 0" and "e AND PTE_COW \<noteq> 0" and "cow_copy_page to la True ptep s = Some (None, s')"
  shows "pte_at (frames s') from' la AND PTE_COW \<noteq> 0 \<and> pte_at (frames s') to la AND PTE_COW = 0 \<and>
    pte_at (frames s') to la AND PTE_W = 0 \<and> pte2page s' (pte_at (frames s') to la) = Some p \<and>
    store_page_fault (Some to) la s' = Some (False, s')"
proof -
  let ?c = "pte_create (page2ppn p) (PTE_V OR cow_perm e)"
  obtain bs' where s': "vm_inv2 s' to from' bs'" "pte_at (frames s') from' la = cow_entry e" "pte_at (frames s') to la = ?c" "pte2page s' ?c = Some p"
    using cow_share_outcome [OF assms(1-7)] assms(10) by (auto split: if_splits)
  have c: "?c AND PTE_COW = 0" "?c AND PTE_W = 0" "cow_entry e AND PTE_COW \<noteq> 0" using assms(8,9) unfolding PTE_test by (simp_all add: cow_entry_bits)
  have "vm_inv s' to bs'" using s'(1) by (simp add: vm_inv2_def)
  then have "store_page_fault (Some to) la s' = Some (False, s')" by (rule store_page_fault_unhandled) (use c s'(3) in simp)
  then show ?thesis using s' c by simp
qed

theorem cow_second_fork_unhandled_witness:
  "\<exists>s'. cow_copy_page 4 0x800000 True (2, 0) (cow_vm (PTE_U OR PTE_COW) 2) = Some (None, s') \<and>
     store_page_fault (Some 4) 0x800000 s' = Some (False, s')"
proof -
  let ?s = "cow_vm (PTE_U OR PTE_COW) 2" and ?e = "pte_create (page2ppn 3) (PTE_U OR PTE_COW)"
  have w: "(PTE_U OR PTE_COW) AND NOT 0x3FF = 0" by (simp add: PTE_U_def PTE_COW_def)
  have e: "pte_at (frames ?s) 4 0x800000 AND PTE_V = 0" "?e = pte_at (frames ?s) 0 0x800000" "pte2page ?s ?e = Some 3"
    using cow_vm_pte cow_vm_entry(3) [OF _ w] by simp_all
  have "\<not> bit PTE_U 2" by (simp add: PTE_U_def bit_simps)
  then have f: "?e AND PTE_W = 0" "?e AND PTE_COW \<noteq> 0" by (simp_all add: PTE_test bit_pte_create bit_simps PTE_bits)
  obtain s' where s': "cow_copy_page 4 0x800000 True (2, 0) ?s = Some (None, s')"
    using cow_share_outcome [OF cow_vm_inv e cow_vm_pte(3) cow_vm_page] cow_vm_free by auto
  from cow_second_fork_unhandled [OF cow_vm_inv e cow_vm_pte(3) cow_vm_page f s'] s' show ?thesis by blast
qed

end
