(* ===== verification/Skew_Heap.thy ===== *)
theory Skew_Heap
  imports Prelude "HOL-Library.Tree_Multiset"
begin

text \<open>
  The skew heap of lab8/libs/skew_heap.h. A heap pointer is the tree of entries
  below it: \<open>NULL\<close> is \<open>Leaf\<close>, and an entry with its \<open>left\<close> and \<open>right\<close> sub-heaps is
  a \<open>Node\<close>. The parent pointers are determined by the tree; removal through them
  replaces the subtree of the entry by the merge of its children. The comparison
  function is an argument, as in the code.
\<close>

section \<open>Operations\<close>

fun skew_heap_merge :: "('a \<Rightarrow> 'a \<Rightarrow> int) \<Rightarrow> 'a tree \<Rightarrow> 'a tree \<Rightarrow> 'a tree" where
  "skew_heap_merge cmp Leaf b = b"
| "skew_heap_merge cmp a Leaf = a"
| "skew_heap_merge cmp (Node la x ra) (Node lb y rb) =
     (if cmp x y = - 1
      then Node (skew_heap_merge cmp ra (Node lb y rb)) x la
      else Node (skew_heap_merge cmp (Node la x ra) rb) y lb)"

definition skew_heap_init :: "'a \<Rightarrow> 'a tree" where
  "skew_heap_init b = Node Leaf b Leaf"

definition skew_heap_insert :: "('a \<Rightarrow> 'a \<Rightarrow> int) \<Rightarrow> 'a tree \<Rightarrow> 'a \<Rightarrow> 'a tree" where
  "skew_heap_insert cmp a b = skew_heap_merge cmp a (skew_heap_init b)"

fun skew_heap_remove :: "('a \<Rightarrow> 'a \<Rightarrow> int) \<Rightarrow> 'a tree \<Rightarrow> 'a \<Rightarrow> 'a tree" where
  "skew_heap_remove cmp Leaf b = Leaf"
| "skew_heap_remove cmp (Node l x r) b =
     (if x = b then skew_heap_merge cmp l r
      else if b \<in> set_tree l then Node (skew_heap_remove cmp l b) x r
      else Node l x (skew_heap_remove cmp r b))"

section \<open>Contents\<close>

lemma mset_skew_heap_merge: "mset_tree (skew_heap_merge cmp a b) = mset_tree a + mset_tree b"
  by (induction cmp a b rule: skew_heap_merge.induct) (auto simp: add_ac)

lemma set_skew_heap_merge: "set_tree (skew_heap_merge cmp a b) = set_tree a \<union> set_tree b"
  using mset_skew_heap_merge [of cmp a b] by (metis set_mset_tree set_mset_union)

lemma skew_heap_merge_eq_Leaf [simp]: "skew_heap_merge cmp a b = Leaf \<longleftrightarrow> a = Leaf \<and> b = Leaf"
  by (cases a; cases b) auto

lemma mset_skew_heap_insert: "mset_tree (skew_heap_insert cmp a b) = add_mset b (mset_tree a)"
  by (simp add: skew_heap_insert_def skew_heap_init_def mset_skew_heap_merge)

lemma mset_skew_heap_remove:
  "b \<in> set_tree t \<Longrightarrow> mset_tree (skew_heap_remove cmp t b) = mset_tree t - {#b#}"
proof (induction t)
  case (Node l x r)
  have l: "b \<in> set_tree l \<Longrightarrow> b \<in># mset_tree l" and r: "b \<in> set_tree r \<Longrightarrow> b \<in># mset_tree r" by auto
  show ?case
  proof (cases "x = b")
    case True
    then show ?thesis by (simp add: mset_skew_heap_merge)
  next
    case False
    have cl: "b \<in># mset_tree l \<Longrightarrow> mset_tree l + mset_tree r - {#b#} = mset_tree l - {#b#} + mset_tree r"
      using diff_union_single_conv [of b "mset_tree l" "mset_tree r"] by (simp add: add.commute)
    have cr: "b \<in># mset_tree r \<Longrightarrow> mset_tree l + mset_tree r - {#b#} = mset_tree l + (mset_tree r - {#b#})"
      using diff_union_single_conv [of b "mset_tree r" "mset_tree l"] by simp
    show ?thesis
    proof (cases "b \<in> set_tree l")
      case True
      then show ?thesis using False Node.IH(1) cl [OF l [OF True]] by simp
    next
      case nl: False
      then have "b \<in> set_tree r" using Node.prems False by simp
      then show ?thesis using False nl Node.IH(2) cr [OF r] by simp
    qed
  qed
qed simp

section \<open>Heap order\<close>

text \<open>Entries are ordered by an integer key; the comparison has to agree with it on the entries present.\<close>

definition comp_agrees :: "('a \<Rightarrow> 'a \<Rightarrow> int) \<Rightarrow> ('a \<Rightarrow> int) \<Rightarrow> 'a set \<Rightarrow> bool" where
  "comp_agrees cmp key A \<longleftrightarrow> (\<forall>x\<in>A. \<forall>y\<in>A. cmp x y = - 1 \<longleftrightarrow> key x < key y)"

fun heap_by :: "('a \<Rightarrow> int) \<Rightarrow> 'a tree \<Rightarrow> bool" where
  "heap_by key Leaf \<longleftrightarrow> True"
| "heap_by key (Node l x r) \<longleftrightarrow>
     (\<forall>y\<in>set_tree l \<union> set_tree r. key x \<le> key y) \<and> heap_by key l \<and> heap_by key r"

lemma comp_agrees_subset: "comp_agrees cmp key A \<Longrightarrow> B \<subseteq> A \<Longrightarrow> comp_agrees cmp key B"
  by (auto simp: comp_agrees_def)

lemma heap_by_root: "heap_by key (Node l x r) \<Longrightarrow> y \<in> set_tree (Node l x r) \<Longrightarrow> key x \<le> key y"
  by auto

lemma heap_by_merge:
  "comp_agrees cmp key (set_tree a \<union> set_tree b) \<Longrightarrow> heap_by key a \<Longrightarrow> heap_by key b \<Longrightarrow>
   heap_by key (skew_heap_merge cmp a b)"
proof (induction cmp a b rule: skew_heap_merge.induct)
  case (3 cmp la x ra lb y rb)
  have c: "cmp x y = - 1 \<longleftrightarrow> key x < key y" using 3(3) by (auto simp: comp_agrees_def)
  have s1: "comp_agrees cmp key (set_tree ra \<union> set_tree (Node lb y rb))"
    and s2: "comp_agrees cmp key (set_tree (Node la x ra) \<union> set_tree rb)"
    by (rule comp_agrees_subset [OF 3(3)]; auto)+
  show ?case
  proof (cases "cmp x y = - 1")
    case True
    have "heap_by key (skew_heap_merge cmp ra (Node lb y rb))"
      using 3(1) [OF True s1] 3(4,5) by simp
    moreover have "key x \<le> key z" if "z \<in> set_tree (Node lb y rb)" for z
      using heap_by_root [OF 3(5) that] c True by simp
    ultimately show ?thesis using True 3(4) by (auto simp: set_skew_heap_merge)
  next
    case False
    have "heap_by key (skew_heap_merge cmp (Node la x ra) rb)"
      using 3(2) [OF False s2] 3(4,5) by simp
    moreover have "key y \<le> key z" if "z \<in> set_tree (Node la x ra)" for z
      using heap_by_root [OF 3(4) that] c False by simp
    ultimately show ?thesis using False 3(5) by (auto simp: set_skew_heap_merge)
  qed
qed auto

lemma heap_by_insert:
  "comp_agrees cmp key (insert b (set_tree a)) \<Longrightarrow> heap_by key a \<Longrightarrow> heap_by key (skew_heap_insert cmp a b)"
  using heap_by_merge [of cmp key a "skew_heap_init b"]
  by (simp add: skew_heap_insert_def skew_heap_init_def)

lemma heap_by_cong: "(\<And>x. x \<in> set_tree t \<Longrightarrow> key x = key' x) \<Longrightarrow> heap_by key t \<longleftrightarrow> heap_by key' t"
  by (induction t) auto

lemma heap_by_remove:
  assumes "heap_by key t" and "comp_agrees cmp key (set_tree t)" and "b \<in> set_tree t"
  shows "heap_by key (skew_heap_remove cmp t b) \<and> mset_tree (skew_heap_remove cmp t b) = mset_tree t - {#b#}"
  using assms
proof (induction t)
  case (Node l x r)
  have ag: "comp_agrees cmp key (set_tree l)" "comp_agrees cmp key (set_tree r)"
      "comp_agrees cmp key (set_tree l \<union> set_tree r)"
    by (rule comp_agrees_subset [OF Node.prems(2)]; auto)+
  show ?case
  proof (cases "x = b")
    case True
    then show ?thesis using heap_by_merge [OF ag(3)] Node.prems(1) by (simp add: mset_skew_heap_merge)
  next
    case False
    have sub: "set_tree (skew_heap_remove cmp u b) \<subseteq> set_tree u"
      if "b \<in> set_tree u" "mset_tree (skew_heap_remove cmp u b) = mset_tree u - {#b#}" for u
      using that by (metis in_diffD set_mset_tree subsetI)
    have hp: "heap_by key l" "heap_by key r" "\<forall>y\<in>set_tree l \<union> set_tree r. key x \<le> key y"
      using Node.prems(1) by auto
    have "heap_by key (skew_heap_remove cmp (Node l x r) b)"
    proof (cases "b \<in> set_tree l")
      case True
      then show ?thesis using Node.IH(1) [OF hp(1) ag(1) True] sub [OF True] hp False by auto
    next
      case nl: False
      then have br: "b \<in> set_tree r" using Node.prems(3) False by simp
      then show ?thesis using Node.IH(2) [OF hp(2) ag(2) br] sub [OF br] hp nl False by auto
    qed
    then show ?thesis using mset_skew_heap_remove [OF Node.prems(3)] by blast
  qed
qed simp

text \<open>The skew heap is a priority queue: removing an entry from a heap-ordered tree leaves
  exactly the other entries, heap-ordered again, as long as the comparison agrees with the
  key order on the entries present.\<close>

theorem skew_heap_remove_correct:
  assumes "heap_by key t" and "comp_agrees cmp key (set_tree t)" and "b \<in> set_tree t"
  shows "heap_by key (skew_heap_remove cmp t b) \<and> mset_tree (skew_heap_remove cmp t b) = mset_tree t - {#b#}"
  using assms by (rule heap_by_remove)

theorem skew_heap_remove_correct_witness:
  "heap_by int (skew_heap_remove (\<lambda>x y. if x < y then - 1 else 1) (Node (Node Leaf 5 Leaf) (2::nat) (Node Leaf 3 Leaf)) 2) \<and>
   mset_tree (skew_heap_remove (\<lambda>x y. if x < y then - 1 else 1) (Node (Node Leaf 5 Leaf) (2::nat) (Node Leaf 3 Leaf)) 2) =
     mset_tree (Node (Node Leaf 5 Leaf) (2::nat) (Node Leaf 3 Leaf)) - {#2#}"
  by (rule skew_heap_remove_correct) (auto simp: comp_agrees_def)

end
