(* ===== verification/Sched.thy ===== *)
theory Sched
  imports Link_List Skew_Heap
begin

text \<open>
  Processes as the scheduler sees them, the round-robin and stride policies
  (default_sched.c, default_sched_stride.c), the scheduler core with its function
  table (sched.c) and the kernel timers.

  A process is a number, its \<open>proc_struct\<close> a record in the map \<open>procs\<close>. The run list
  of round robin is the linked list of the code in a pointer store of its own (the
  \<open>run_link\<close> fields); the run pool of stride scheduling is a skew heap of processes.
  There is one run queue, so the field \<open>rq\<close> of a process only records whether it has
  been set. Interrupt masking around the operations makes each of them one step.
\<close>

unbundle bit_operations_syntax

section \<open>Process data\<close>

datatype proc_state = PROC_UNINIT | PROC_SLEEPING | PROC_RUNNABLE | PROC_ZOMBIE

record proc_struct =
  state :: proc_state
  pid :: int
  runs :: int
  kstack :: nat
  need_resched :: bool
  parent :: "nat option"
  p_mm :: "nat option"
  p_pgdir :: nat
  p_flags :: "32 word"
  p_name :: string
  exit_code :: int
  wait_state :: "32 word"
  cptr :: "nat option"
  yptr :: "nat option"
  optr :: "nat option"
  rq :: bool
  time_slice :: int
  lab6_stride :: "32 word"
  lab6_priority :: "32 word"
  filesp :: "nat option"

definition WT_INTERRUPTED :: "32 word" where "WT_INTERRUPTED = 0x80000000"
definition WT_CHILD :: "32 word" where "WT_CHILD = 1 OR WT_INTERRUPTED"
definition WT_KSEM :: "32 word" where "WT_KSEM = 0x100"
definition WT_TIMER :: "32 word" where "WT_TIMER = 2 OR WT_INTERRUPTED"
definition WT_KBD :: "32 word" where "WT_KBD = 4 OR WT_INTERRUPTED"
definition PF_EXITING :: "32 word" where "PF_EXITING = 1"

datatype rlink = RunList | RunLink nat

record timer_t =
  t_id :: nat
  expires :: nat
  t_proc :: "nat option"

record sched_state =
  procs :: "nat \<Rightarrow> proc_struct"
  run_links :: "rlink list_entry"
  run_pool :: "nat tree"
  proc_num :: nat
  max_time_slice :: int
  timer_list :: "timer_t list"
  current :: nat
  idleproc :: nat
  satp :: nat
  boot_pgdir_pa :: nat

definition upd_proc :: "nat \<Rightarrow> (proc_struct \<Rightarrow> proc_struct) \<Rightarrow> sched_state \<Rightarrow> sched_state" where
  "upd_proc p f s = s\<lparr>procs := (procs s)(p := f (procs s p))\<rparr>"

text \<open>The part of \<open>enqueue\<close> both policies share: refill the time slice.\<close>

definition refill_slice :: "nat \<Rightarrow> sched_state \<Rightarrow> sched_state" where
  "refill_slice p s =
     (if time_slice (procs s p) = 0 \<or> time_slice (procs s p) > max_time_slice s
      then upd_proc p (\<lambda>q. q\<lparr>time_slice := max_time_slice s\<rparr>) s else s)"

section \<open>Round robin (default_sched.c)\<close>

definition RR_init :: "sched_state \<Rightarrow> sched_state" where
  "RR_init s = s\<lparr>run_links := list_init RunList (run_links s), proc_num := 0\<rparr>"

definition RR_enqueue :: "nat \<Rightarrow> sched_state \<Rightarrow> sched_state option" where
  "RR_enqueue p s = do {
     kassert (list_empty (RunLink p) (run_links s));
     let s = s\<lparr>run_links := list_add_before RunList (RunLink p) (run_links s)\<rparr>;
     let s = refill_slice p s;
     let s = upd_proc p (\<lambda>q. q\<lparr>rq := True\<rparr>) s;
     Some (s\<lparr>proc_num := u32 (proc_num s + 1)\<rparr>) }"

definition RR_dequeue :: "nat \<Rightarrow> sched_state \<Rightarrow> sched_state option" where
  "RR_dequeue p s = do {
     kassert (\<not> list_empty (RunLink p) (run_links s) \<and> rq (procs s p));
     Some (s\<lparr>run_links := list_del_init (RunLink p) (run_links s),
             proc_num := u32 (proc_num s + 2 ^ 32 - 1)\<rparr>) }"

definition RR_pick_next :: "sched_state \<Rightarrow> (nat option \<times> sched_state) option" where
  "RR_pick_next s =
     (case list_next RunList (run_links s) of
        RunList \<Rightarrow> Some (None, s)
      | RunLink p \<Rightarrow> Some (Some p, s))"

definition RR_proc_tick :: "nat \<Rightarrow> sched_state \<Rightarrow> sched_state option" where
  "RR_proc_tick p s =
     (let s = (if time_slice (procs s p) > 0 then upd_proc p (\<lambda>q. q\<lparr>time_slice := time_slice q - 1\<rparr>) s else s)
      in Some (if time_slice (procs s p) = 0 then upd_proc p (\<lambda>q. q\<lparr>need_resched := True\<rparr>) s else s))"

section \<open>Stride scheduling (default_sched_stride.c)\<close>

definition BIG_STRIDE :: "32 word" where "BIG_STRIDE = push_bit 30 1"

definition proc_stride_comp_f :: "(nat \<Rightarrow> proc_struct) \<Rightarrow> nat \<Rightarrow> nat \<Rightarrow> int" where
  "proc_stride_comp_f ps p q =
     (let c = sint (lab6_stride (ps p) - lab6_stride (ps q))
      in if c > 0 then 1 else if c = 0 then 0 else - 1)"

definition stride_init :: "sched_state \<Rightarrow> sched_state" where
  "stride_init s = s\<lparr>run_links := list_init RunList (run_links s), run_pool := Leaf, proc_num := 0\<rparr>"

definition stride_enqueue :: "nat \<Rightarrow> sched_state \<Rightarrow> sched_state option" where
  "stride_enqueue p s =
     (let s = s\<lparr>run_pool := skew_heap_insert (proc_stride_comp_f (procs s)) (run_pool s) p\<rparr>;
          s = refill_slice p s;
          s = upd_proc p (\<lambda>q. q\<lparr>rq := True\<rparr>) s
      in Some (s\<lparr>proc_num := u32 (proc_num s + 1)\<rparr>))"

definition stride_dequeue :: "nat \<Rightarrow> sched_state \<Rightarrow> sched_state option" where
  "stride_dequeue p s = do {
     kassert (rq (procs s p) \<and> proc_num s > 0);
     Some (s\<lparr>run_pool := skew_heap_remove (proc_stride_comp_f (procs s)) (run_pool s) p,
             proc_num := u32 (proc_num s + 2 ^ 32 - 1)\<rparr>) }"

text \<open>A division by a zero priority is undefined behaviour in C; it is a stop here.\<close>

definition stride_pick_next :: "sched_state \<Rightarrow> (nat option \<times> sched_state) option" where
  "stride_pick_next s =
     (case run_pool s of
        Leaf \<Rightarrow> Some (None, s)
      | Node l p r \<Rightarrow> do {
          kassert (lab6_priority (procs s p) \<noteq> 0);
          Some (Some p,
            upd_proc p (\<lambda>q. q\<lparr>lab6_stride := lab6_stride q + BIG_STRIDE div lab6_priority q\<rparr>) s) })"

definition stride_proc_tick :: "nat \<Rightarrow> sched_state \<Rightarrow> sched_state option" where
  "stride_proc_tick p s =
     (let s = (if time_slice (procs s p) > 0 then upd_proc p (\<lambda>q. q\<lparr>time_slice := time_slice q - 1\<rparr>) s else s)
      in Some (if time_slice (procs s p) = 0 then upd_proc p (\<lambda>q. q\<lparr>need_resched := True\<rparr>) s else s))"

section \<open>The scheduler core (sched.c)\<close>

record sched_class =
  enqueue :: "nat \<Rightarrow> sched_state \<Rightarrow> sched_state option"
  dequeue :: "nat \<Rightarrow> sched_state \<Rightarrow> sched_state option"
  pick_next :: "sched_state \<Rightarrow> (nat option \<times> sched_state) option"
  proc_tick :: "nat \<Rightarrow> sched_state \<Rightarrow> sched_state option"

definition default_sched_class :: sched_class where
  "default_sched_class = \<lparr>enqueue = RR_enqueue, dequeue = RR_dequeue,
     pick_next = RR_pick_next, proc_tick = RR_proc_tick\<rparr>"

definition stride_sched_class :: sched_class where
  "stride_sched_class = \<lparr>enqueue = stride_enqueue, dequeue = stride_dequeue,
     pick_next = stride_pick_next, proc_tick = stride_proc_tick\<rparr>"

definition sched_class_enqueue :: "sched_class \<Rightarrow> nat \<Rightarrow> sched_state \<Rightarrow> sched_state option" where
  "sched_class_enqueue cls p s = (if p \<noteq> idleproc s then enqueue cls p s else Some s)"

definition sched_class_dequeue :: "sched_class \<Rightarrow> nat \<Rightarrow> sched_state \<Rightarrow> sched_state option" where
  "sched_class_dequeue cls p s = dequeue cls p s"

definition sched_class_pick_next :: "sched_class \<Rightarrow> sched_state \<Rightarrow> (nat option \<times> sched_state) option" where
  "sched_class_pick_next cls s = pick_next cls s"

definition sched_class_proc_tick :: "sched_class \<Rightarrow> nat \<Rightarrow> sched_state \<Rightarrow> sched_state option" where
  "sched_class_proc_tick cls p s =
     (if p \<noteq> idleproc s then proc_tick cls p s
      else Some (upd_proc p (\<lambda>q. q\<lparr>need_resched := True\<rparr>) s))"

definition MAX_TIME_SLICE :: int where "MAX_TIME_SLICE = 5"

definition sched_init :: "sched_state \<Rightarrow> sched_state" where
  "sched_init s = RR_init (s\<lparr>timer_list := [], max_time_slice := MAX_TIME_SLICE\<rparr>)"

text \<open>\<open>proc_run\<close> (proc.c): the new process is current and its page directory is loaded.\<close>

definition proc_run :: "nat \<Rightarrow> sched_state \<Rightarrow> sched_state" where
  "proc_run p s =
     s\<lparr>current := p,
       satp := (if p_pgdir (procs s p) \<noteq> 0 then p_pgdir (procs s p) else boot_pgdir_pa s)\<rparr>"

definition wakeup_proc :: "sched_class \<Rightarrow> nat \<Rightarrow> sched_state \<Rightarrow> sched_state option" where
  "wakeup_proc cls p s = do {
     kassert (state (procs s p) \<noteq> PROC_ZOMBIE);
     if state (procs s p) \<noteq> PROC_RUNNABLE
     then let s = upd_proc p (\<lambda>q. q\<lparr>state := PROC_RUNNABLE, wait_state := 0\<rparr>) s
          in if p \<noteq> current s then sched_class_enqueue cls p s else Some s
     else Some s }"

definition schedule :: "sched_class \<Rightarrow> sched_state \<Rightarrow> sched_state option" where
  "schedule cls s = do {
     let s = upd_proc (current s) (\<lambda>q. q\<lparr>need_resched := False\<rparr>) s;
     s \<leftarrow> (if state (procs s (current s)) = PROC_RUNNABLE
          then sched_class_enqueue cls (current s) s else Some s);
     (r, s) \<leftarrow> sched_class_pick_next cls s;
     s \<leftarrow> (case r of Some p \<Rightarrow> sched_class_dequeue cls p s | None \<Rightarrow> Some s);
     let p = (case r of Some p \<Rightarrow> p | None \<Rightarrow> idleproc s);
     let s = upd_proc p (\<lambda>q. q\<lparr>runs := runs q + 1\<rparr>) s;
     Some (if p \<noteq> current s then proc_run p s else s) }"

section \<open>Timers\<close>

text \<open>
  The timer list holds differences: a timer expires after the sum of the
  \<open>expires\<close> fields up to and including its own.
\<close>

definition timer_init :: "nat \<Rightarrow> nat option \<Rightarrow> nat \<Rightarrow> timer_t" where
  "timer_init tm p n = \<lparr>t_id = tm, expires = u32 n, t_proc = p\<rparr>"

fun timer_insert :: "timer_t \<Rightarrow> timer_t list \<Rightarrow> timer_t list" where
  "timer_insert t [] = [t]"
| "timer_insert t (n # ns) =
     (if expires t < expires n
      then t # n\<lparr>expires := expires n - expires t\<rparr> # ns
      else n # timer_insert (t\<lparr>expires := expires t - expires n\<rparr>) ns)"

definition add_timer :: "timer_t \<Rightarrow> sched_state \<Rightarrow> sched_state option" where
  "add_timer t s = do {
     kassert (expires t > 0 \<and> t_proc t \<noteq> None);
     kassert (t_id t \<notin> t_id ` set (timer_list s));
     Some (s\<lparr>timer_list := timer_insert t (timer_list s)\<rparr>) }"

fun timer_delete :: "nat \<Rightarrow> timer_t list \<Rightarrow> timer_t list" where
  "timer_delete tm [] = []"
| "timer_delete tm (t # ts) =
     (if t_id t = tm
      then (if expires t \<noteq> 0
            then (case ts of [] \<Rightarrow> [] | n # ns \<Rightarrow> n\<lparr>expires := u32 (expires n + expires t)\<rparr> # ns)
            else ts)
      else t # timer_delete tm ts)"

definition del_timer :: "nat \<Rightarrow> sched_state \<Rightarrow> sched_state" where
  "del_timer tm s = s\<lparr>timer_list := timer_delete tm (timer_list s)\<rparr>"

text \<open>
  The loop of \<open>run_timer_list\<close> over the timers that have reached zero. Each is the
  head of the list when it is deleted, so what is left is a suffix of the list.
\<close>

fun expire_loop :: "sched_class \<Rightarrow> timer_t list \<Rightarrow> sched_state \<Rightarrow> sched_state option" where
  "expire_loop cls [] s = Some s"
| "expire_loop cls (t # ts) s =
     (if expires t = 0
      then do {
        p \<leftarrow> t_proc t;
        (if wait_state (procs s p) \<noteq> 0
         then kassert (wait_state (procs s p) AND WT_INTERRUPTED \<noteq> 0) else Some ());
        s \<leftarrow> wakeup_proc cls p s;
        expire_loop cls ts (del_timer (t_id t) s) }
      else Some s)"

definition run_timer_list :: "sched_class \<Rightarrow> sched_state \<Rightarrow> sched_state option" where
  "run_timer_list cls s = do {
     s \<leftarrow> (case timer_list s of
            [] \<Rightarrow> Some s
          | t # ts \<Rightarrow> do {
              kassert (expires t \<noteq> 0);
              let tl = t\<lparr>expires := expires t - 1\<rparr> # ts;
              expire_loop cls tl (s\<lparr>timer_list := tl\<rparr>) });
     sched_class_proc_tick cls (current s) s }"

section \<open>What any policy has to provide\<close>

lemma upd_proc_simps [simp]:
  "procs (upd_proc p f s) = (procs s)(p := f (procs s p))"
  "run_links (upd_proc p f s) = run_links s"
  "run_pool (upd_proc p f s) = run_pool s"
  "proc_num (upd_proc p f s) = proc_num s"
  "max_time_slice (upd_proc p f s) = max_time_slice s"
  "timer_list (upd_proc p f s) = timer_list s"
  "current (upd_proc p f s) = current s"
  "idleproc (upd_proc p f s) = idleproc s"
  by (simp_all add: upd_proc_def)

lemma proc_run_simps [simp]:
  "procs (proc_run p s) = procs s"
  "run_links (proc_run p s) = run_links s"
  "run_pool (proc_run p s) = run_pool s"
  "proc_num (proc_run p s) = proc_num s"
  "max_time_slice (proc_run p s) = max_time_slice s"
  "timer_list (proc_run p s) = timer_list s"
  "current (proc_run p s) = p"
  "idleproc (proc_run p s) = idleproc s"
  by (simp_all add: proc_run_def)

text \<open>What queue operations leave alone.\<close>

definition sched_frame :: "sched_state \<Rightarrow> sched_state \<Rightarrow> bool" where
  "sched_frame s s' \<longleftrightarrow> current s' = current s \<and> idleproc s' = idleproc s \<and> timer_list s' = timer_list s \<and>
     (\<forall>q. state (procs s' q) = state (procs s q) \<and> wait_state (procs s' q) = wait_state (procs s q))"

text \<open>What the queues depend on.\<close>

definition same_queues :: "sched_state \<Rightarrow> sched_state \<Rightarrow> bool" where
  "same_queues s s' \<longleftrightarrow> run_links s' = run_links s \<and> run_pool s' = run_pool s \<and> proc_num s' = proc_num s \<and>
     (\<forall>q. rq (procs s' q) = rq (procs s q) \<and> lab6_stride (procs s' q) = lab6_stride (procs s q) \<and>
          lab6_priority (procs s' q) = lab6_priority (procs s q))"

lemma sched_frame_refl [simp]: "sched_frame s s"
  by (simp add: sched_frame_def)

lemma sched_frame_trans: "sched_frame a b \<Longrightarrow> sched_frame b c \<Longrightarrow> sched_frame a c"
  by (simp add: sched_frame_def)

text \<open>
  The contract of a scheduling class: \<open>queue s Q\<close> says that the run queue of state \<open>s\<close>
  is consistent and holds the processes \<open>Q\<close>; \<open>adm s Q p\<close> is what a policy asks of a
  process that enters the queue.
\<close>

locale sched_policy =
  fixes cls :: sched_class
    and queue :: "sched_state \<Rightarrow> nat set \<Rightarrow> bool"
    and adm :: "sched_state \<Rightarrow> nat set \<Rightarrow> nat \<Rightarrow> bool"
  assumes queue_cong: "queue s Q \<Longrightarrow> same_queues s s' \<Longrightarrow> queue s' Q"
    and adm_cong: "adm s Q p \<Longrightarrow> same_queues s s' \<Longrightarrow> adm s' Q p"
    and enq_ok: "queue s Q \<Longrightarrow> p \<notin> Q \<Longrightarrow> adm s Q p \<Longrightarrow>
      \<exists>s'. enqueue cls p s = Some s' \<and> queue s' (insert p Q) \<and> sched_frame s s'"
    and pick_empty: "queue s {} \<Longrightarrow> pick_next cls s = Some (None, s)"
    and pick_ok: "queue s Q \<Longrightarrow> Q \<noteq> {} \<Longrightarrow>
      \<exists>p s' s''. pick_next cls s = Some (Some p, s') \<and> p \<in> Q \<and> dequeue cls p s' = Some s'' \<and>
        queue s'' (Q - {p}) \<and> sched_frame s s''"
begin

lemma switch_to:
  assumes "queue s Q"
  shows "\<exists>s'. (let s2 = upd_proc p (\<lambda>q. q\<lparr>runs := runs q + 1\<rparr>) s in
           Some (if p \<noteq> current s2 then proc_run p s2 else s2)) = Some s' \<and>
         current s' = p \<and> idleproc s' = idleproc s \<and> timer_list s' = timer_list s \<and> queue s' Q \<and>
         (\<forall>q. state (procs s' q) = state (procs s q) \<and> wait_state (procs s' q) = wait_state (procs s q))"
proof -
  define s2 where "s2 = upd_proc p (\<lambda>q. q\<lparr>runs := runs q + 1\<rparr>) s"
  define s3 where "s3 = (if p \<noteq> current s2 then proc_run p s2 else s2)"
  have "same_queues s s3" by (simp add: same_queues_def s3_def s2_def)
  then have "queue s3 Q" using queue_cong assms by blast
  moreover have "current s3 = p \<and> idleproc s3 = idleproc s \<and> timer_list s3 = timer_list s \<and>
      (\<forall>q. state (procs s3 q) = state (procs s q) \<and> wait_state (procs s3 q) = wait_state (procs s q))"
    by (simp add: s3_def s2_def)
  ultimately show ?thesis by (auto simp: s3_def s2_def Let_def)
qed

lemma schedule_ok:
  assumes q: "queue s Q" and idle: "idleproc s \<notin> Q" and cur: "current s \<notin> Q"
    and ad: "adm s Q (current s)"
    and Q': "Q' = (if state (procs s (current s)) = PROC_RUNNABLE \<and> current s \<noteq> idleproc s
                   then insert (current s) Q else Q)"
  shows "\<exists>s'. schedule cls s = Some s' \<and> idleproc s' = idleproc s \<and> timer_list s' = timer_list s \<and>
           (\<forall>q. state (procs s' q) = state (procs s q) \<and> wait_state (procs s' q) = wait_state (procs s q)) \<and>
           (if Q' = {} then current s' = idleproc s \<and> queue s' {}
            else current s' \<in> Q' \<and> queue s' (Q' - {current s'}))"
proof -
  define s1 where "s1 = upd_proc (current s) (\<lambda>q. q\<lparr>need_resched := False\<rparr>) s"
  have sq: "same_queues s s1" and fr1: "sched_frame s s1"
    by (simp_all add: same_queues_def sched_frame_def s1_def)
  have q1: "queue s1 Q" "adm s1 Q (current s)" using queue_cong [OF q sq] adm_cong [OF ad sq] .
  have c1: "current s1 = current s" "idleproc s1 = idleproc s" "state (procs s1 (current s)) = state (procs s (current s))"
    by (simp_all add: s1_def)
  obtain s2 where s2: "(if state (procs s1 (current s1)) = PROC_RUNNABLE
       then sched_class_enqueue cls (current s1) s1 else Some s1) = Some s2" "queue s2 Q'" "sched_frame s1 s2"
  proof (cases "state (procs s (current s)) = PROC_RUNNABLE \<and> current s \<noteq> idleproc s")
    case True
    obtain s2 where "enqueue cls (current s) s1 = Some s2" "queue s2 (insert (current s) Q)" "sched_frame s1 s2"
      using enq_ok [OF q1(1) cur q1(2)] by blast
    with True c1 Q' show thesis by (intro that [of s2]) (simp_all add: sched_class_enqueue_def)
  next
    case False
    then have "Q' = Q" unfolding Q' by (simp only: if_False)
    with False c1 q1(1) show thesis by (intro that [of s1]) (auto simp: sched_class_enqueue_def)
  qed
  have fr: "sched_frame s s2" using fr1 s2(3) sched_frame_trans by blast
  show ?thesis
  proof (cases "Q' = {}")
    case True
    note pe = pick_empty [OF s2(2) [unfolded True]]
    have "schedule cls s = (let s3 = upd_proc (idleproc s2) (\<lambda>q. q\<lparr>runs := runs q + 1\<rparr>) s2 in
        Some (if idleproc s2 \<noteq> current s3 then proc_run (idleproc s2) s3 else s3))"
      using s2(1) pe by (simp add: schedule_def s1_def [symmetric] sched_class_pick_next_def Let_def)
    with switch_to [OF s2(2) [unfolded True], of "idleproc s2"] True fr show ?thesis
      by (auto simp: sched_frame_def)
  next
    case False
    obtain p s3 s4 where p: "pick_next cls s2 = Some (Some p, s3)" "p \<in> Q'" "dequeue cls p s3 = Some s4"
        "queue s4 (Q' - {p})" "sched_frame s2 s4"
      using pick_ok [OF s2(2) False] by blast
    have "schedule cls s = (let s5 = upd_proc p (\<lambda>q. q\<lparr>runs := runs q + 1\<rparr>) s4 in
        Some (if p \<noteq> current s5 then proc_run p s5 else s5))"
      using s2(1) p(1,3)
      by (simp add: schedule_def s1_def [symmetric] sched_class_pick_next_def sched_class_dequeue_def Let_def)
    with switch_to [OF p(4), of p] False p(2,5) fr show ?thesis
      by (auto simp: sched_frame_def)
  qed
qed

lemma wakeup_ok:
  assumes q: "queue s Q" and p: "p \<notin> Q" "adm s Q p"
    and st: "state (procs s p) \<in> {PROC_UNINIT, PROC_SLEEPING}" and np: "p \<noteq> current s" "p \<noteq> idleproc s"
  shows "\<exists>s'. wakeup_proc cls p s = Some s' \<and> queue s' (insert p Q) \<and>
           state (procs s' p) = PROC_RUNNABLE \<and> wait_state (procs s' p) = 0 \<and>
           (\<forall>q. q \<noteq> p \<longrightarrow> state (procs s' q) = state (procs s q) \<and> wait_state (procs s' q) = wait_state (procs s q)) \<and>
           current s' = current s \<and> idleproc s' = idleproc s \<and> timer_list s' = timer_list s"
proof -
  define s1 where "s1 = upd_proc p (\<lambda>q. q\<lparr>state := PROC_RUNNABLE, wait_state := 0\<rparr>) s"
  have sq: "same_queues s s1" by (simp add: same_queues_def s1_def)
  obtain s2 where "enqueue cls p s1 = Some s2" "queue s2 (insert p Q)" "sched_frame s1 s2"
    using enq_ok [OF queue_cong [OF q sq] p(1) adm_cong [OF p(2) sq]] by blast
  moreover have "wakeup_proc cls p s = enqueue cls p s1"
  proof -
    have "state (procs s p) \<noteq> PROC_ZOMBIE" "state (procs s p) \<noteq> PROC_RUNNABLE" using st by auto
    then show ?thesis using np by (simp add: wakeup_proc_def Let_def s1_def sched_class_enqueue_def)
  qed
  ultimately show ?thesis by (auto simp: sched_frame_def s1_def)
qed

end

section \<open>Round robin is first in, first out\<close>

definition rr_inv :: "sched_state \<Rightarrow> nat list \<Rightarrow> bool" where
  "rr_inv s ps \<longleftrightarrow> dlist (run_links s) RunList (map RunLink ps) \<and>
     (\<forall>p. p \<notin> set ps \<longrightarrow> list_empty (RunLink p) (run_links s)) \<and>
     (\<forall>p\<in>set ps. rq (procs s p)) \<and> proc_num s = length ps"

lemma rr_inv_distinct: "rr_inv s ps \<Longrightarrow> distinct ps"
  using dlist_distinct [of "run_links s" RunList "map RunLink ps"]
  by (auto simp: rr_inv_def distinct_map)

lemma rr_inv_cong: "rr_inv s ps \<Longrightarrow> same_queues s s' \<Longrightarrow> rr_inv s' ps"
  by (simp add: rr_inv_def same_queues_def)

lemma list_empty_add_before:
  "dlist h r xs \<Longrightarrow> q \<notin> set (r # e # xs) \<Longrightarrow> list_empty q (list_add_before r e h) = list_empty q h"
proof -
  assume d: "dlist h r xs" and q: "q \<notin> set (r # e # xs)"
  have "l_prev h r = (if xs = [] then r else last xs)" using dlist_prev [OF d] by (simp add: list_prev_def)
  then have "q \<noteq> l_prev h r" using q by auto
  then show ?thesis using q
    by (simp add: list_empty_def list_add_before_def list_add_raw_def set_prev_def set_next_def Let_def)
qed

lemma list_empty_del_init:
  "dlist h r (xs @ e # ys) \<Longrightarrow> q \<notin> set (r # xs @ e # ys) \<Longrightarrow> list_empty q (list_del_init e h) = list_empty q h"
proof -
  assume d: "dlist h r (xs @ e # ys)" and q: "q \<notin> set (r # xs @ e # ys)"
  have "l_prev h e = last (r # xs)" using dlist_member_links(1) [OF d] by (simp add: list_prev_def)
  then have "q \<noteq> l_prev h e" using q by (auto split: if_splits)
  then show ?thesis using q
    by (simp add: list_empty_def list_del_init_def list_del_def list_del_raw_def list_init_def set_prev_def
        set_next_def Let_def)
qed

lemma refill_slice_same:
  "run_links (refill_slice p s) = run_links s" "run_pool (refill_slice p s) = run_pool s"
  "proc_num (refill_slice p s) = proc_num s" "rq (procs (refill_slice p s) q) = rq (procs s q)"
  "lab6_stride (procs (refill_slice p s) q) = lab6_stride (procs s q)"
  "lab6_priority (procs (refill_slice p s) q) = lab6_priority (procs s q)"
  "state (procs (refill_slice p s) q) = state (procs s q)"
  "wait_state (procs (refill_slice p s) q) = wait_state (procs s q)"
  "current (refill_slice p s) = current s" "idleproc (refill_slice p s) = idleproc s"
  "timer_list (refill_slice p s) = timer_list s"
  by (simp_all add: refill_slice_def)

lemma RR_enqueue_spec:
  assumes inv: "rr_inv s ps" and p: "p \<notin> set ps" and len: "length ps + 1 < 2 ^ 32"
  shows "\<exists>s'. RR_enqueue p s = Some s' \<and> rr_inv s' (ps @ [p]) \<and> sched_frame s s'"
proof -
  define s1 where "s1 = s\<lparr>run_links := list_add_before RunList (RunLink p) (run_links s)\<rparr>"
  define s2 where "s2 = upd_proc p (\<lambda>q. q\<lparr>rq := True\<rparr>) (refill_slice p s1)"
  define s3 where "s3 = s2\<lparr>proc_num := u32 (proc_num s2 + 1)\<rparr>"
  have d: "dlist (run_links s) RunList (map RunLink ps)" using inv by (simp add: rr_inv_def)
  have "RR_enqueue p s = Some s3"
    using inv p by (simp add: RR_enqueue_def s1_def s2_def s3_def rr_inv_def Let_def)
  moreover have "dlist (run_links s3) RunList (map RunLink (ps @ [p]))"
    using dlist_append [OF d, of "RunLink p"] p by (auto simp: s3_def s2_def s1_def refill_slice_same)
  moreover have "list_empty (RunLink q) (run_links s3)" if "q \<notin> set (ps @ [p])" for q
    using list_empty_add_before [OF d, of "RunLink q" "RunLink p"] inv that
    by (auto simp: s3_def s2_def s1_def refill_slice_same rr_inv_def)
  moreover have "rq (procs s3 q)" if "q \<in> set (ps @ [p])" for q
    using inv that by (auto simp: s3_def s2_def s1_def refill_slice_same rr_inv_def)
  moreover have "proc_num s3 = length (ps @ [p])"
    using inv len by (simp add: s3_def s2_def s1_def refill_slice_same rr_inv_def)
  moreover have "sched_frame s s3"
    by (simp add: sched_frame_def s3_def s2_def s1_def refill_slice_same)
  ultimately show ?thesis unfolding rr_inv_def by blast
qed

lemma RR_dequeue_spec:
  assumes inv: "rr_inv s (xs @ p # ys)" and len: "length (xs @ p # ys) < 2 ^ 32"
  shows "\<exists>s'. RR_dequeue p s = Some s' \<and> rr_inv s' (xs @ ys) \<and> sched_frame s s'"
proof -
  define s' where "s' = s\<lparr>run_links := list_del_init (RunLink p) (run_links s), proc_num := u32 (proc_num s + 2 ^ 32 - 1)\<rparr>"
  have d: "dlist (run_links s) RunList (map RunLink xs @ RunLink p # map RunLink ys)"
    using inv by (simp add: rr_inv_def)
  have dist: "distinct (xs @ p # ys)" by (rule rr_inv_distinct [OF inv])
  have "RR_dequeue p s = Some s'"
    using inv dlist_member_not_empty [OF d] by (simp add: RR_dequeue_def s'_def rr_inv_def)
  moreover have "dlist (run_links s') RunList (map RunLink (xs @ ys))"
    using dlist_del_init(1) [OF d] by (simp add: s'_def)
  moreover have "list_empty (RunLink q) (run_links s')" if "q \<notin> set (xs @ ys)" for q
  proof (cases "q = p")
    case True
    then show ?thesis using dlist_empty [OF dlist_del_init(2) [OF d]] by (simp add: s'_def)
  next
    case False
    then show ?thesis
      using list_empty_del_init [OF d, of "RunLink q"] inv that by (auto simp: s'_def rr_inv_def)
  qed
  moreover have "\<forall>q\<in>set (xs @ ys). rq (procs s' q)" using inv by (auto simp: s'_def rr_inv_def)
  moreover have "proc_num s' = length (xs @ ys)"
    using inv len by (simp add: s'_def rr_inv_def u32_def mod_if)
  moreover have "sched_frame s s'" by (simp add: sched_frame_def s'_def)
  ultimately show ?thesis unfolding rr_inv_def by blast
qed

lemma RR_pick_next_spec:
  "rr_inv s ps \<Longrightarrow> RR_pick_next s = Some (case ps of [] \<Rightarrow> None | p # _ \<Rightarrow> Some p, s)"
  using dlist_next [of "run_links s" RunList "map RunLink ps"]
  by (cases ps) (auto simp: RR_pick_next_def rr_inv_def)

lemmas default_class_simps [simp] =
  default_sched_class_def [THEN arg_cong, of enqueue, simplified]
  default_sched_class_def [THEN arg_cong, of dequeue, simplified]
  default_sched_class_def [THEN arg_cong, of pick_next, simplified]
  default_sched_class_def [THEN arg_cong, of proc_tick, simplified]

definition rr_queue :: "sched_state \<Rightarrow> nat set \<Rightarrow> bool" where
  "rr_queue s Q \<longleftrightarrow> (\<exists>ps. rr_inv s ps \<and> Q = set ps \<and> length ps < 2 ^ 32)"

definition rr_adm :: "sched_state \<Rightarrow> nat set \<Rightarrow> nat \<Rightarrow> bool" where
  "rr_adm s Q p \<longleftrightarrow> card Q + 1 < 2 ^ 32"

interpretation rr: sched_policy default_sched_class rr_queue rr_adm
proof
  fix s s' Q assume "rr_queue s Q" "same_queues s s'"
  then show "rr_queue s' Q" using rr_inv_cong unfolding rr_queue_def by blast
next
  fix s Q p assume "rr_queue s Q" "p \<notin> Q" "rr_adm s Q p"
  then obtain ps where ps: "rr_inv s ps" "Q = set ps" "p \<notin> set ps" "length ps + 1 < 2 ^ 32"
    unfolding rr_queue_def rr_adm_def by (metis rr_inv_distinct distinct_card)
  from RR_enqueue_spec [OF ps(1,3,4)] obtain s' where
    "RR_enqueue p s = Some s'" "rr_inv s' (ps @ [p])" "sched_frame s s'" by blast
  moreover have "insert p Q = set (ps @ [p])" "length (ps @ [p]) < 2 ^ 32" using ps by auto
  ultimately show "\<exists>s'. enqueue default_sched_class p s = Some s' \<and> rr_queue s' (insert p Q) \<and> sched_frame s s'"
    unfolding rr_queue_def by auto
next
  fix s Q assume "rr_queue s Q" "Q \<noteq> {}"
  then obtain p ps where ps: "rr_inv s ([] @ p # ps)" "Q = set (p # ps)" "length ([] @ p # ps) < 2 ^ 32"
    unfolding rr_queue_def by (metis append_Nil list.exhaust list.set(1))
  from RR_dequeue_spec [OF ps(1,3)] obtain s' where
    s': "RR_dequeue p s = Some s'" "rr_inv s' ps" "sched_frame s s'" by auto
  have "Q - {p} = set ps" using rr_inv_distinct [OF ps(1)] ps(2) by auto
  then have "rr_queue s' (Q - {p})" using s'(2) ps(3) unfolding rr_queue_def by (intro exI [of _ ps]) simp
  with s' RR_pick_next_spec [OF ps(1)] ps(2)
  show "\<exists>p s' s''. pick_next default_sched_class s = Some (Some p, s') \<and> p \<in> Q \<and>
     dequeue default_sched_class p s' = Some s'' \<and> rr_queue s'' (Q - {p}) \<and> sched_frame s s''" by auto
qed (auto simp: rr_adm_def rr_queue_def RR_pick_next_spec)

fun schedule_n :: "nat \<Rightarrow> sched_class \<Rightarrow> sched_state \<Rightarrow> sched_state option" where
  "schedule_n 0 cls s = Some s"
| "schedule_n (Suc k) cls s = Option.bind (schedule cls s) (schedule_n k cls)"

lemma RR_schedule_step:
  assumes inv: "rr_inv s ps" and c: "current s \<notin> set ps" "current s \<noteq> idleproc s"
    and st: "state (procs s (current s)) = PROC_RUNNABLE" and len: "length ps + 1 < 2 ^ 32"
  shows "\<exists>s'. schedule default_sched_class s = Some s' \<and> current s' # tl (ps @ [current s]) = ps @ [current s] \<and>
     rr_inv s' (tl (ps @ [current s])) \<and> idleproc s' = idleproc s \<and>
     (\<forall>q. state (procs s' q) = state (procs s q))"
proof -
  define s1 where "s1 = upd_proc (current s) (\<lambda>q. q\<lparr>need_resched := False\<rparr>) s"
  have i1: "rr_inv s1 ps" using rr_inv_cong [OF inv, of s1] by (simp add: same_queues_def s1_def)
  obtain s2 where s2: "RR_enqueue (current s) s1 = Some s2" "rr_inv s2 (ps @ [current s])" "sched_frame s1 s2"
    using RR_enqueue_spec [OF i1 c(1) len] by blast
  obtain p qs where pq: "ps @ [current s] = p # qs" by (cases "ps @ [current s]") auto
  have i2: "rr_inv s2 ([] @ p # qs)" using s2(2) pq by simp
  have "length ([] @ p # qs) < 2 ^ 32" using len pq [THEN arg_cong, of length] by simp
  then obtain s3 where s3: "RR_dequeue p s2 = Some s3" "rr_inv s3 qs" "sched_frame s2 s3"
    using RR_dequeue_spec [OF i2] by auto
  define s4 where "s4 = upd_proc p (\<lambda>q. q\<lparr>runs := runs q + 1\<rparr>) s3"
  define s5 where "s5 = (if p \<noteq> current s4 then proc_run p s4 else s4)"
  have pk: "RR_pick_next s2 = Some (Some p, s2)" using RR_pick_next_spec [OF i2] by simp
  have c1: "current s1 = current s" "idleproc s1 = idleproc s" "state (procs s1 (current s)) = PROC_RUNNABLE"
    using st by (simp_all add: s1_def)
  have "schedule default_sched_class s = Some s5"
    using c(2) c1 s2(1) pk s3(1)
    by (simp add: schedule_def s1_def [symmetric] sched_class_enqueue_def sched_class_pick_next_def
        sched_class_dequeue_def s4_def s5_def Let_def)
  moreover have "rr_inv s5 qs" using rr_inv_cong [OF s3(2), of s5] by (simp add: same_queues_def s5_def s4_def)
  moreover have "current s5 = p \<and> idleproc s5 = idleproc s \<and> (\<forall>q. state (procs s5 q) = state (procs s q))"
    using s2(3) s3(3) by (simp add: s5_def s4_def s1_def sched_frame_def)
  ultimately show ?thesis using pq by auto
qed

lemma RR_rotation:
  assumes "rr_inv s ps" "distinct (current s # ps)" "idleproc s \<notin> set (current s # ps)"
    "\<forall>p\<in>set (current s # ps). state (procs s p) = PROC_RUNNABLE" "length ps + 1 < 2 ^ 32"
  shows "\<exists>s' ps'. schedule_n k default_sched_class s = Some s' \<and> rr_inv s' ps' \<and>
           current s' # ps' = rotate k (current s # ps)"
  using assms
proof (induction k arbitrary: s ps)
  case (Suc k)
  obtain s1 where s1: "schedule default_sched_class s = Some s1"
      "current s1 # tl (ps @ [current s]) = ps @ [current s]" "rr_inv s1 (tl (ps @ [current s]))"
      "idleproc s1 = idleproc s" "\<forall>q. state (procs s1 q) = state (procs s q)"
    using RR_schedule_step [OF Suc.prems(1)] Suc.prems(2-5) by auto
  let ?qs = "tl (ps @ [current s])"
  have st: "set (current s1 # ?qs) = set (current s # ps)" "distinct (current s1 # ?qs)" "length ?qs = length ps"
    unfolding s1(2) using Suc.prems(2) by (auto simp: s1(2))
  obtain s' ps' where "schedule_n k default_sched_class s1 = Some s'" "rr_inv s' ps'"
      "current s' # ps' = rotate k (current s1 # ?qs)"
    using Suc.IH [OF s1(3)] st s1(4,5) Suc.prems(3-5) by metis
  moreover have "rotate k (current s1 # ?qs) = rotate (Suc k) (current s # ps)"
    unfolding s1(2) by (simp add: rotate_def funpow_Suc_right del: funpow.simps)
  ultimately show ?case using s1(1) by auto
qed simp

lemma proc_tick_frame:
  "\<exists>s'. sched_class_proc_tick default_sched_class p s = Some s' \<and> same_queues s s' \<and>
     timer_list s' = timer_list s \<and> (\<forall>q. state (procs s' q) = state (procs s q))"
proof (cases "p = idleproc s")
  case False
  define s1 where "s1 = (if time_slice (procs s p) > 0 then upd_proc p (\<lambda>q. q\<lparr>time_slice := time_slice q - 1\<rparr>) s else s)"
  define s2 where "s2 = (if time_slice (procs s1 p) = 0 then upd_proc p (\<lambda>q. q\<lparr>need_resched := True\<rparr>) s1 else s1)"
  have "sched_class_proc_tick default_sched_class p s = Some s2"
    using False by (simp add: sched_class_proc_tick_def RR_proc_tick_def s2_def s1_def Let_def)
  moreover have "same_queues s s2" "timer_list s2 = timer_list s" "\<forall>q. state (procs s2 q) = state (procs s q)"
    by (simp_all add: s2_def s1_def same_queues_def)
  ultimately show ?thesis by blast
qed (simp add: sched_class_proc_tick_def same_queues_def)

section \<open>Correctness\<close>

text \<open>Process 1 runs, 2 and 3 wait in the queue, 0 is the idle process.\<close>

definition demo_proc :: proc_struct where
  "demo_proc = \<lparr>state = PROC_RUNNABLE, pid = 0, runs = 0, kstack = 0, need_resched = False, parent = None,
     p_mm = None, p_pgdir = 0, p_flags = 0, p_name = [], exit_code = 0, wait_state = 0, cptr = None, yptr = None,
     optr = None, rq = True, time_slice = 5, lab6_stride = 0, lab6_priority = 1, filesp = None\<rparr>"

definition demo_sched :: sched_state where
  "demo_sched = \<lparr>procs = (\<lambda>_. demo_proc),
     run_links = fold (list_add_before RunList) [RunLink 2, RunLink 3]
       (list_init RunList \<lparr>l_prev = (\<lambda>x. x), l_next = (\<lambda>x. x)\<rparr>),
     run_pool = Leaf, proc_num = 2, max_time_slice = 5, timer_list = [], current = 1, idleproc = 0, satp = 0,
     boot_pgdir_pa = 0\<rparr>"

lemma demo_sched_inv: "rr_inv demo_sched [2, 3]"
proof -
  have "dlist (run_links demo_sched) RunList ([] @ [RunLink 2, RunLink 3])"
    unfolding demo_sched_def sched_state.simps by (rule kring.ring_enq_all [OF dlist_init]) simp
  moreover have "list_empty (RunLink p) (run_links demo_sched)" if "p \<noteq> 2" "p \<noteq> 3" for p
    using that by (simp add: demo_sched_def list_empty_def list_add_before_def list_add_raw_def list_init_def
        set_prev_def set_next_def Let_def)
  ultimately show ?thesis by (simp add: rr_inv_def demo_sched_def demo_proc_def)
qed

text \<open>C12. Round robin is fair: when the current process and all queued ones stay runnable,
  every call of \<open>schedule\<close> succeeds and \<open>k\<close> calls rotate the ring of the current process
  followed by the queue by \<open>k\<close> places, so each of \<open>n\<close> processes runs once in every \<open>n\<close> calls.\<close>

theorem RR_schedule_rotates:
  assumes "rr_inv s ps" and "distinct (current s # ps)" and "idleproc s \<notin> set (current s # ps)"
    and "\<forall>p\<in>set (current s # ps). state (procs s p) = PROC_RUNNABLE" and "length ps + 1 < 2 ^ 32"
  shows "\<exists>s' ps'. schedule_n k default_sched_class s = Some s' \<and> rr_inv s' ps' \<and>
           current s' # ps' = rotate k (current s # ps)"
  using assms by (rule RR_rotation)

theorem RR_schedule_rotates_witness:
  "\<exists>s' ps'. schedule_n 2 default_sched_class demo_sched = Some s' \<and> rr_inv s' ps' \<and>
     current s' # ps' = rotate 2 (current demo_sched # [2, 3])"
  by (rule RR_schedule_rotates [OF demo_sched_inv]) (simp_all add: demo_sched_def demo_proc_def)

text \<open>\<open>schedule\<close> under round robin conserves work: the idle process is chosen only when
  neither the queue nor the current process has anything to run; otherwise a process of the
  queue (or the current one) becomes current and exactly it leaves the queue.\<close>

theorem RR_schedule_work_conserving:
  assumes "rr_queue s Q" and "idleproc s \<notin> Q" and "current s \<notin> Q" and "card Q + 1 < 2 ^ 32"
    and "Q' = (if state (procs s (current s)) = PROC_RUNNABLE \<and> current s \<noteq> idleproc s
               then insert (current s) Q else Q)"
  shows "\<exists>s'. schedule default_sched_class s = Some s' \<and> idleproc s' = idleproc s \<and> timer_list s' = timer_list s \<and>
           (\<forall>q. state (procs s' q) = state (procs s q) \<and> wait_state (procs s' q) = wait_state (procs s q)) \<and>
           (if Q' = {} then current s' = idleproc s \<and> rr_queue s' {}
            else current s' \<in> Q' \<and> rr_queue s' (Q' - {current s'}))"
  by (rule rr.schedule_ok [OF assms(1-3) _ assms(5)]) (use assms(4) in \<open>simp add: rr_adm_def\<close>)

theorem RR_schedule_work_conserving_witness:
  "\<exists>s'. schedule default_sched_class demo_sched = Some s' \<and> idleproc s' = idleproc demo_sched \<and>
     timer_list s' = timer_list demo_sched \<and>
     (\<forall>q. state (procs s' q) = state (procs demo_sched q) \<and> wait_state (procs s' q) = wait_state (procs demo_sched q)) \<and>
     (if insert 1 {2, 3} = ({} :: nat set) then current s' = idleproc demo_sched \<and> rr_queue s' {}
      else current s' \<in> insert 1 {2, 3} \<and> rr_queue s' (insert 1 {2, 3} - {current s'}))"
proof (rule RR_schedule_work_conserving)
  show "rr_queue demo_sched {2, 3}"
    unfolding rr_queue_def using demo_sched_inv by (intro exI [of _ "[2, 3]"]) auto
qed (simp_all add: demo_sched_def demo_proc_def)

end
