(* ===== verification/Stride.thy ===== *)
theory Stride
  imports Sched
begin

text \<open>
  Correctness of the stride policy (default_sched_stride.c). The strides of the code
  are 32-bit counters that wrap around and are compared by the sign of their
  difference. The ghost function \<open>v\<close> gives the unbounded pass values they stand for:
  as long as all of them lie within one \<open>BIG_STRIDE\<close>, the comparison agrees with the
  order of \<open>v\<close>, the run pool is a heap for it, and one scheduling round keeps the
  window. The policy is an instance of the scheduler's contract \<open>sched_policy\<close>.
\<close>

section \<open>Stride scheduling picks the smallest pass\<close>

lemma sint_diff_window:
  assumes "\<bar>a - b\<bar> \<le> (2::int) ^ 30"
  shows "sint (word_of_int a - word_of_int b :: 32 word) = a - b"
proof -
  have "sint (word_of_int a - word_of_int b :: 32 word) = sint (word_of_int (a - b) :: 32 word)"
    by (simp only: wi_hom_sub)
  also have "\<dots> = signed_take_bit 31 (a - b)" by transfer simp
  also have "\<dots> = a - b" using assms by (intro signed_take_bit_int_eq_self) auto
  finally show ?thesis .
qed

definition stride_inv :: "sched_state \<Rightarrow> nat set \<Rightarrow> (nat \<Rightarrow> int) \<Rightarrow> bool" where
  "stride_inv s Q v \<longleftrightarrow> finite Q \<and> mset_tree (run_pool s) = mset_set Q \<and> heap_by v (run_pool s) \<and>
     (\<forall>p\<in>Q. lab6_stride (procs s p) = word_of_int (v p) \<and> lab6_priority (procs s p) \<noteq> 0 \<and> rq (procs s p)) \<and>
     (\<forall>p\<in>Q. \<forall>q\<in>Q. \<bar>v p - v q\<bar> \<le> 2 ^ 30) \<and> proc_num s = card Q \<and> card Q < 2 ^ 32"

lemma stride_comp_agrees:
  assumes "\<forall>p\<in>A. lab6_stride (ps p) = word_of_int (v p)" "\<forall>p\<in>A. \<forall>q\<in>A. \<bar>v p - v q\<bar> \<le> 2 ^ 30"
  shows "comp_agrees (proc_stride_comp_f ps) v A"
  using assms sint_diff_window by (auto simp: comp_agrees_def proc_stride_comp_f_def Let_def)

lemma stride_inv_cong: "stride_inv s Q v \<Longrightarrow> same_queues s s' \<Longrightarrow> stride_inv s' Q v"
  by (simp add: stride_inv_def same_queues_def)

text \<open>A process may enter when its pass is within one \<open>BIG_STRIDE\<close> of those queued.\<close>

definition stride_fits :: "sched_state \<Rightarrow> nat set \<Rightarrow> nat \<Rightarrow> (nat \<Rightarrow> int) \<Rightarrow> bool" where
  "stride_fits s Q p v \<longleftrightarrow> lab6_priority (procs s p) \<noteq> 0 \<and> card Q + 1 < 2 ^ 32 \<and>
     lab6_stride (procs s p) = word_of_int (v p) \<and> (\<forall>q\<in>Q. \<bar>v p - v q\<bar> \<le> 2 ^ 30)"

lemma stride_enqueue_spec:
  assumes inv: "stride_inv s Q v" and p: "p \<notin> Q" and fit: "stride_fits s Q p v"
  shows "\<exists>s'. stride_enqueue p s = Some s' \<and> stride_inv s' (insert p Q) v \<and> sched_frame s s'"
proof -
  define s1 where "s1 = s\<lparr>run_pool := skew_heap_insert (proc_stride_comp_f (procs s)) (run_pool s) p\<rparr>"
  define s2 where "s2 = upd_proc p (\<lambda>q. q\<lparr>rq := True\<rparr>) (refill_slice p s1)"
  define s3 where "s3 = s2\<lparr>proc_num := u32 (proc_num s2 + 1)\<rparr>"
  have en: "stride_enqueue p s = Some s3" by (simp add: stride_enqueue_def s1_def s2_def s3_def Let_def)
  have win: "\<forall>a\<in>insert p Q. \<forall>b\<in>insert p Q. \<bar>v a - v b\<bar> \<le> 2 ^ 30"
    using inv fit by (auto simp: stride_inv_def stride_fits_def abs_minus_commute)
  have wd: "\<forall>a\<in>insert p Q. lab6_stride (procs s a) = word_of_int (v a)"
    using inv fit by (auto simp: stride_inv_def stride_fits_def)
  have set: "set_tree (run_pool s) = Q"
    using inv by (metis finite_set_mset_mset_set set_mset_tree stride_inv_def)
  have hp: "heap_by v (run_pool s3)"
    using heap_by_insert [of "proc_stride_comp_f (procs s)" v p "run_pool s"] stride_comp_agrees [OF wd win] inv set
    by (simp add: s3_def s2_def s1_def refill_slice_same stride_inv_def)
  have ms: "mset_tree (run_pool s3) = mset_set (insert p Q)"
    using inv p by (simp add: s3_def s2_def s1_def refill_slice_same mset_skew_heap_insert stride_inv_def)
  have fld: "lab6_stride (procs s3 a) = lab6_stride (procs s a)" "lab6_priority (procs s3 a) = lab6_priority (procs s a)"
    "rq (procs s3 a) \<longleftrightarrow> a = p \<or> rq (procs s a)" for a
    by (simp_all add: s3_def s2_def s1_def refill_slice_same)
  have "proc_num s3 = card (insert p Q)"
    using inv p fit by (simp add: s3_def s2_def s1_def refill_slice_same stride_inv_def stride_fits_def)
  then have "stride_inv s3 (insert p Q) v"
    using hp ms win wd inv fit p fld by (simp add: stride_inv_def stride_fits_def)
  moreover have "sched_frame s s3"
    by (simp add: sched_frame_def s3_def s2_def s1_def refill_slice_same)
  ultimately show ?thesis using en by blast
qed

definition stride_step :: "proc_struct \<Rightarrow> int" where
  "stride_step p = uint (BIG_STRIDE div lab6_priority p)"

lemma stride_step_bounds: "0 \<le> stride_step p" "stride_step p \<le> 2 ^ 30"
proof -
  have "uint (BIG_STRIDE div lab6_priority p) = uint BIG_STRIDE div uint (lab6_priority p)" by (simp add: uint_div)
  also have "\<dots> \<le> uint BIG_STRIDE"
  proof -
    have "uint (lab6_priority p) = 0 \<or> uint (lab6_priority p) = 1 \<or> 1 < uint (lab6_priority p)"
      using uint_ge_0 [of "lab6_priority p"] by linarith
    then show ?thesis
      using int_div_less_self [of "uint BIG_STRIDE" "uint (lab6_priority p)"] by (auto simp: BIG_STRIDE_def)
  qed
  finally show "stride_step p \<le> 2 ^ 30" by (simp add: stride_step_def BIG_STRIDE_def)
qed (simp add: stride_step_def)

lemma stride_pool_root:
  assumes inv: "stride_inv s Q v" and "Q \<noteq> {}"
  obtains l p r where "run_pool s = Node l p r" "p \<in> Q" "\<forall>q\<in>Q. v p \<le> v q"
    "set_tree l \<union> set_tree r = Q - {p}" "mset_tree l + mset_tree r = mset_set (Q - {p})"
proof -
  have fin: "finite Q" and ms: "mset_tree (run_pool s) = mset_set Q" using inv by (auto simp: stride_inv_def)
  then have "run_pool s \<noteq> Leaf" using assms(2) by (auto simp: mset_set_empty_iff)
  then obtain l p r where n: "run_pool s = Node l p r" by (cases "run_pool s") auto
  have sQ: "set_tree (Node l p r) = Q" using ms fin n by (metis finite_set_mset_mset_set set_mset_tree)
  then have p: "p \<in> Q" by auto
  have lr: "mset_tree l + mset_tree r = mset_set (Q - {p})"
    using ms n fin p by (simp add: mset_set_Diff) (metis add_mset_remove_trivial)
  then have "set_tree l \<union> set_tree r = Q - {p}"
    by (metis fin finite_Diff finite_set_mset_mset_set set_mset_tree set_mset_union)
  moreover have "\<forall>q\<in>Q. v p \<le> v q" using inv n sQ heap_by_root [of v l p r] by (simp add: stride_inv_def)
  ultimately show thesis using that n p lr by blast
qed

lemma stride_pick_dequeue:
  assumes inv: "stride_inv s Q v" and ne: "Q \<noteq> {}"
  shows "\<exists>p s' s''. stride_pick_next s = Some (Some p, s') \<and> p \<in> Q \<and> (\<forall>q\<in>Q. v p \<le> v q) \<and>
     stride_dequeue p s' = Some s'' \<and> sched_frame s s'' \<and> stride_inv s'' (Q - {p}) v \<and>
     stride_inv s'' (Q - {p}) (v(p := v p + stride_step (procs s p))) \<and>
     stride_fits s'' (Q - {p}) p (v(p := v p + stride_step (procs s p)))"
proof -
  obtain l p r where n: "run_pool s = Node l p r" and p: "p \<in> Q" and least: "\<forall>q\<in>Q. v p \<le> v q"
      and sub: "set_tree l \<union> set_tree r = Q - {p}" and ms: "mset_tree l + mset_tree r = mset_set (Q - {p})"
    by (rule stride_pool_root [OF inv ne])
  define s1 where "s1 = upd_proc p (\<lambda>q. q\<lparr>lab6_stride := lab6_stride q + BIG_STRIDE div lab6_priority q\<rparr>) s"
  define s2 where "s2 = s1\<lparr>run_pool := skew_heap_merge (proc_stride_comp_f (procs s1)) l r,
      proc_num := u32 (proc_num s1 + 2 ^ 32 - 1)\<rparr>"
  have card: "0 < card Q" "card Q < 2 ^ 32" "finite Q" using inv ne by (auto simp: stride_inv_def card_gt_0_iff)
  have pk: "stride_pick_next s = Some (Some p, s1)"
    using inv n p by (simp add: stride_pick_next_def s1_def stride_inv_def)
  have dq: "stride_dequeue p s1 = Some s2"
    using inv n p card(1) by (simp add: stride_dequeue_def s2_def) (simp add: s1_def stride_inv_def)
  have fld: "lab6_stride (procs s2 q) = (if q = p then lab6_stride (procs s p) + BIG_STRIDE div lab6_priority (procs s p)
       else lab6_stride (procs s q))" "lab6_priority (procs s2 q) = lab6_priority (procs s q)"
     "rq (procs s2 q) = rq (procs s q)" for q by (simp_all add: s2_def s1_def)
  have wd: "\<forall>q\<in>Q - {p}. lab6_stride (procs s1 q) = word_of_int (v q)"
    and win: "\<forall>a\<in>Q - {p}. \<forall>b\<in>Q - {p}. \<bar>v a - v b\<bar> \<le> 2 ^ 30"
    using inv by (auto simp: stride_inv_def s1_def)
  have "heap_by v l" "heap_by v r" using inv n by (auto simp: stride_inv_def)
  then have hp: "heap_by v (run_pool s2)"
    using heap_by_merge [of "proc_stride_comp_f (procs s1)" v l r] stride_comp_agrees [OF wd win] sub
    by (simp add: s2_def)
  have ms2: "mset_tree (run_pool s2) = mset_set (Q - {p})" using ms by (simp add: s2_def mset_skew_heap_merge)
  have num: "proc_num s2 = card (Q - {p})"
    using u32_dec [OF card(1,2)] inv card(3) p by (simp add: s2_def s1_def stride_inv_def card_Diff_singleton)
  have i2: "stride_inv s2 (Q - {p}) v"
    unfolding stride_inv_def
  proof (intro conjI)
    show "\<forall>q\<in>Q - {p}. lab6_stride (procs s2 q) = word_of_int (v q) \<and> lab6_priority (procs s2 q) \<noteq> 0 \<and> rq (procs s2 q)"
      using inv fld by (auto simp: stride_inv_def)
    show "card (Q - {p}) < 2 ^ 32" using card by (meson card_Diff1_le le_less_trans)
  qed (use card hp ms2 num win in auto)
  define v' where "v' = v(p := v p + stride_step (procs s p))"
  have same: "\<forall>q\<in>Q - {p}. v' q = v q" by (simp add: v'_def)
  have hp': "heap_by v' (run_pool s2) \<longleftrightarrow> heap_by v (run_pool s2)"
    using same i2 by (intro heap_by_cong) (metis finite_set_mset_mset_set set_mset_tree stride_inv_def)
  have i2': "stride_inv s2 (Q - {p}) v'" using i2 same hp' by (auto simp: stride_inv_def)
  have "\<bar>v' p - v' q\<bar> \<le> 2 ^ 30" if "q \<in> Q - {p}" for q
  proof -
    have "v q - v p \<le> 2 ^ 30" "v p \<le> v q" using inv p that least by (force simp: stride_inv_def)+
    then show ?thesis using that stride_step_bounds [of "procs s p"] by (simp add: v'_def)
  qed
  moreover have "lab6_stride (procs s2 p) = word_of_int (v' p)"
    using inv p by (simp add: fld v'_def stride_inv_def stride_step_def)
  ultimately have "stride_fits s2 (Q - {p}) p v'"
    using inv p card by (simp add: stride_fits_def fld stride_inv_def)
  moreover have "sched_frame s s2" by (simp add: sched_frame_def s2_def s1_def)
  ultimately show ?thesis
    using pk dq p least i2 i2' unfolding v'_def by blast
qed

lemmas stride_class_simps [simp] =
  stride_sched_class_def [THEN arg_cong, of enqueue, simplified]
  stride_sched_class_def [THEN arg_cong, of dequeue, simplified]
  stride_sched_class_def [THEN arg_cong, of pick_next, simplified]
  stride_sched_class_def [THEN arg_cong, of proc_tick, simplified]

definition stride_queue :: "sched_state \<Rightarrow> nat set \<Rightarrow> bool" where
  "stride_queue s Q \<longleftrightarrow> (\<exists>v. stride_inv s Q v)"

definition stride_adm :: "sched_state \<Rightarrow> nat set \<Rightarrow> nat \<Rightarrow> bool" where
  "stride_adm s Q p \<longleftrightarrow> (\<exists>v. stride_inv s Q v \<and> stride_fits s Q p v)"

interpretation st: sched_policy stride_sched_class stride_queue stride_adm
proof
  fix s s' Q assume "stride_queue s Q" "same_queues s s'"
  then show "stride_queue s' Q" using stride_inv_cong unfolding stride_queue_def by blast
next
  fix s s' Q p assume a: "stride_adm s Q p" "same_queues s s'"
  then have "stride_fits s Q p v \<Longrightarrow> stride_fits s' Q p v" for v by (simp add: stride_fits_def same_queues_def)
  then show "stride_adm s' Q p" using a stride_inv_cong unfolding stride_adm_def by blast
next
  fix s Q p assume "stride_queue s Q" "p \<notin> Q" "stride_adm s Q p"
  then show "\<exists>s'. enqueue stride_sched_class p s = Some s' \<and> stride_queue s' (insert p Q) \<and> sched_frame s s'"
    using stride_enqueue_spec unfolding stride_queue_def stride_adm_def by fastforce
next
  fix s assume "stride_queue s {}"
  then have "run_pool s = Leaf" by (auto simp: stride_queue_def stride_inv_def)
  then show "pick_next stride_sched_class s = Some (None, s)" by (simp add: stride_pick_next_def)
next
  fix s Q assume "stride_queue s Q" "Q \<noteq> {}"
  then obtain v where "stride_inv s Q v" unfolding stride_queue_def by blast
  from stride_pick_dequeue [OF this \<open>Q \<noteq> {}\<close>]
  show "\<exists>p s' s''. pick_next stride_sched_class s = Some (Some p, s') \<and> p \<in> Q \<and>
     dequeue stride_sched_class p s' = Some s'' \<and> stride_queue s'' (Q - {p}) \<and> sched_frame s s''"
    unfolding stride_queue_def by (simp del: One_nat_def) blast
qed

section \<open>Correctness\<close>

text \<open>Processes 1 and 2 with passes \<open>- 1\<close> and 3: the stride counter of the second has just wrapped around.\<close>

definition demo_stride :: sched_state where
  "demo_stride = \<lparr>procs = (\<lambda>p. demo_proc\<lparr>lab6_stride := (if p = 1 then - 1 else 3), lab6_priority := 2\<rparr>),
     run_links = \<lparr>l_prev = (\<lambda>x. x), l_next = (\<lambda>x. x)\<rparr>,
     run_pool = Node (Node Leaf 2 Leaf) 1 Leaf, proc_num = 2, max_time_slice = 5, timer_list = [], current = 3,
     idleproc = 0, satp = 0, boot_pgdir_pa = 0\<rparr>"

lemma demo_stride_inv: "stride_inv demo_stride {1, 2} (\<lambda>p. if p = 1 then - 1 else 3)"
  by (simp add: stride_inv_def demo_stride_def demo_proc_def)

text \<open>C31. One round of stride scheduling: with all passes within one \<open>BIG_STRIDE\<close> (and the
  32-bit strides equal to them modulo wrap-around), \<open>stride_pick_next\<close> returns a process of
  least pass, \<open>stride_dequeue\<close> takes it out of the heap, and the process with its pass
  advanced by \<open>BIG_STRIDE / priority\<close> may re-enter: the window still holds.\<close>

theorem stride_round:
  assumes "stride_inv s Q v" and "Q \<noteq> {}"
  shows "\<exists>p s' s''. stride_pick_next s = Some (Some p, s') \<and> p \<in> Q \<and> (\<forall>q\<in>Q. v p \<le> v q) \<and>
     stride_dequeue p s' = Some s'' \<and> sched_frame s s'' \<and> stride_inv s'' (Q - {p}) v \<and>
     stride_inv s'' (Q - {p}) (v(p := v p + stride_step (procs s p))) \<and>
     stride_fits s'' (Q - {p}) p (v(p := v p + stride_step (procs s p)))"
  using assms by (rule stride_pick_dequeue)

theorem stride_round_witness:
  "\<exists>p s' s''. stride_pick_next demo_stride = Some (Some p, s') \<and> p \<in> {1, 2} \<and>
     (\<forall>q\<in>{1, 2 :: nat}. (if p = 1 then - 1 else 3) \<le> (if q = 1 then - 1 else 3 :: int)) \<and>
     stride_dequeue p s' = Some s'' \<and> sched_frame demo_stride s'' \<and>
     stride_inv s'' ({1, 2} - {p}) (\<lambda>p. if p = 1 then - 1 else 3) \<and>
     stride_inv s'' ({1, 2} - {p}) ((\<lambda>p. if p = 1 then - 1 else 3)
       (p := (if p = 1 then - 1 else 3) + stride_step (procs demo_stride p))) \<and>
     stride_fits s'' ({1, 2} - {p}) p ((\<lambda>p. if p = 1 then - 1 else 3)
       (p := (if p = 1 then - 1 else 3) + stride_step (procs demo_stride p)))"
  by (rule stride_round [OF demo_stride_inv]) simp

text \<open>\<open>schedule\<close> with the stride class conserves work and keeps the run pool consistent.\<close>

theorem stride_schedule_work_conserving:
  assumes "stride_queue s Q" and "idleproc s \<notin> Q" and "current s \<notin> Q" and "stride_adm s Q (current s)"
    and "Q' = (if state (procs s (current s)) = PROC_RUNNABLE \<and> current s \<noteq> idleproc s
               then insert (current s) Q else Q)"
  shows "\<exists>s'. schedule stride_sched_class s = Some s' \<and> idleproc s' = idleproc s \<and> timer_list s' = timer_list s \<and>
           (\<forall>q. state (procs s' q) = state (procs s q) \<and> wait_state (procs s' q) = wait_state (procs s q)) \<and>
           (if Q' = {} then current s' = idleproc s \<and> stride_queue s' {}
            else current s' \<in> Q' \<and> stride_queue s' (Q' - {current s'}))"
  using assms by (rule st.schedule_ok)

theorem stride_schedule_work_conserving_witness:
  "\<exists>s'. schedule stride_sched_class demo_stride = Some s' \<and> idleproc s' = idleproc demo_stride \<and>
     timer_list s' = timer_list demo_stride \<and>
     (\<forall>q. state (procs s' q) = state (procs demo_stride q) \<and> wait_state (procs s' q) = wait_state (procs demo_stride q)) \<and>
     (if {1, 2, 3} = ({} :: nat set) then current s' = idleproc demo_stride \<and> stride_queue s' {}
      else current s' \<in> {1, 2, 3} \<and> stride_queue s' ({1, 2, 3} - {current s'}))"
proof (rule stride_schedule_work_conserving)
  show "stride_queue demo_stride {1, 2}" using demo_stride_inv unfolding stride_queue_def by blast
  have "stride_fits demo_stride {1, 2} (current demo_stride) (\<lambda>p. if p = 1 then - 1 else 3)"
    by (simp add: stride_fits_def demo_stride_def demo_proc_def)
  then show "stride_adm demo_stride {1, 2} (current demo_stride)"
    using demo_stride_inv unfolding stride_adm_def by blast
qed (auto simp: demo_stride_def demo_proc_def)

end
