(* ===== verification/Timer.thy ===== *)
theory Timer
  imports Sched
begin

text \<open>
  The kernel timers of sched.c. The list stores differences; its meaning is the list
  of absolute deadlines. Adding, deleting and the clock tick are specified on those.
\<close>

section \<open>Timers hold absolute deadlines\<close>

fun deadlines :: "nat \<Rightarrow> timer_t list \<Rightarrow> (nat \<times> nat) list" where
  "deadlines base [] = []"
| "deadlines base (t # ts) = (base + expires t, t_id t) # deadlines (base + expires t) ts"

lemma timer_insert_deadlines:
  "mset (deadlines base (timer_insert t ts)) = add_mset (base + expires t, t_id t) (mset (deadlines base ts))"
  by (induction t ts arbitrary: base rule: timer_insert.induct) (auto simp: add_ac)

lemma deadlines_sorted: "sorted (map fst (deadlines base ts)) \<and> (\<forall>x\<in>set (deadlines base ts). base \<le> fst x)"
  by (induction ts arbitrary: base) (auto intro: order_trans, fastforce)

lemma deadlines_ids: "map snd (deadlines base ts) = map t_id ts"
  by (induction ts arbitrary: base) auto

lemma timer_delete_deadlines:
  "distinct (map t_id ts) \<Longrightarrow> sum_list (map expires ts) < 2 ^ 32 \<Longrightarrow>
   deadlines base (timer_delete tm ts) = filter (\<lambda>x. snd x \<noteq> tm) (deadlines base ts)"
proof (induction tm ts arbitrary: base rule: timer_delete.induct)
  case (2 tm t ts)
  show ?case
  proof (cases "t_id t = tm")
    case True
    have "filter (\<lambda>x. snd x \<noteq> tm) (deadlines b us) = deadlines b us" if "tm \<notin> t_id ` set us" for b us
      using that deadlines_ids [of b us] by (intro filter_True) (metis image_set map_map image_eqI list.set_map)
    then show ?thesis using 2 True by (cases ts) (auto simp: add_ac)
  qed (use 2 in auto)
qed simp

definition due :: "timer_t list \<Rightarrow> timer_t list" where
  "due ts = takeWhile (\<lambda>t. expires t = 0) ts"

definition due_procs :: "timer_t list \<Rightarrow> nat list" where
  "due_procs ts = map (\<lambda>t. the (t_proc t)) (due ts)"

lemma due_simps [simp]:
  "due [] = []" "due (t # ts) = (if expires t = 0 then t # due ts else [])"
  "due_procs [] = []" "due_procs (t # ts) = (if expires t = 0 then the (t_proc t) # due_procs ts else [])"
  by (simp_all add: due_def due_procs_def)

text \<open>What \<open>run_timer_list\<close> may assume of a process that waits for a timer.\<close>

definition timer_waiter :: "sched_state \<Rightarrow> nat set \<Rightarrow> timer_t \<Rightarrow> bool" where
  "timer_waiter s Q t \<longleftrightarrow> (\<exists>p. t_proc t = Some p \<and> p \<notin> Q \<and> p \<noteq> current s \<and> p \<noteq> idleproc s \<and>
     state (procs s p) = PROC_SLEEPING \<and>
     (wait_state (procs s p) = 0 \<or> wait_state (procs s p) AND WT_INTERRUPTED \<noteq> 0))"

lemma expire_loop_ok:
  "rr_queue s Q \<Longrightarrow> timer_list s = ts \<Longrightarrow> \<forall>t\<in>set (due ts). timer_waiter s Q t \<Longrightarrow>
   distinct (due_procs ts) \<Longrightarrow> finite Q \<Longrightarrow> card Q + length (due ts) < 2 ^ 32 \<Longrightarrow>
   \<exists>s'. expire_loop default_sched_class ts s = Some s' \<and> rr_queue s' (Q \<union> set (due_procs ts)) \<and>
     timer_list s' = dropWhile (\<lambda>t. expires t = 0) ts \<and>
     (\<forall>p\<in>set (due_procs ts). state (procs s' p) = PROC_RUNNABLE) \<and>
     (\<forall>p. p \<notin> set (due_procs ts) \<longrightarrow> state (procs s' p) = state (procs s p)) \<and>
     current s' = current s \<and> idleproc s' = idleproc s"
proof (induction ts arbitrary: s Q)
  case (Cons t ts)
  show ?case
  proof (cases "expires t = 0")
    case True
    then obtain p where p: "t_proc t = Some p" "p \<notin> Q" "p \<noteq> current s" "p \<noteq> idleproc s"
        "state (procs s p) = PROC_SLEEPING"
        "wait_state (procs s p) = 0 \<or> wait_state (procs s p) AND WT_INTERRUPTED \<noteq> 0"
      using Cons.prems(3) unfolding timer_waiter_def by auto
    have "rr_adm s Q p" using Cons.prems(6) True by (simp add: rr_adm_def)
    from rr.wakeup_ok [OF Cons.prems(1) p(2) this _ p(3,4)] p(5) obtain s1 where
      w: "wakeup_proc default_sched_class p s = Some s1" "rr_queue s1 (insert p Q)"
        "state (procs s1 p) = PROC_RUNNABLE"
        "\<forall>q. q \<noteq> p \<longrightarrow> state (procs s1 q) = state (procs s q) \<and> wait_state (procs s1 q) = wait_state (procs s q)"
        "current s1 = current s" "idleproc s1 = idleproc s" "timer_list s1 = timer_list s" by auto
    define s2 where "s2 = del_timer (t_id t) s1"
    have tl: "timer_list s2 = ts" using w(7) Cons.prems(2) True by (simp add: s2_def del_timer_def)
    have s2: "rr_queue s2 (insert p Q)"
      using rr.queue_cong [OF w(2), of s2] by (simp add: s2_def del_timer_def same_queues_def)
    have pn: "p \<notin> set (due_procs ts)" "distinct (due_procs ts)" using Cons.prems(4) True p(1) by auto
    have "\<forall>u\<in>set (due ts). timer_waiter s2 (insert p Q) u"
    proof
      fix u assume u: "u \<in> set (due ts)"
      then have "timer_waiter s Q u" "the (t_proc u) \<in> set (due_procs ts)"
        using Cons.prems(3) True by (auto simp: due_procs_def)
      then show "timer_waiter s2 (insert p Q) u"
        using w(4-6) pn(1) by (auto simp: timer_waiter_def s2_def del_timer_def)
    qed
    moreover have "card (insert p Q) + length (due ts) < 2 ^ 32" using Cons.prems(5,6) p(2) True by simp
    ultimately obtain s' where s': "expire_loop default_sched_class ts s2 = Some s'"
        "rr_queue s' (insert p Q \<union> set (due_procs ts))" "timer_list s' = dropWhile (\<lambda>t. expires t = 0) ts"
        "\<forall>q\<in>set (due_procs ts). state (procs s' q) = PROC_RUNNABLE"
        "\<forall>q. q \<notin> set (due_procs ts) \<longrightarrow> state (procs s' q) = state (procs s2 q)"
        "current s' = current s2" "idleproc s' = idleproc s2"
      using Cons.IH [OF s2 tl _ pn(2)] Cons.prems(5) by auto
    have "expire_loop default_sched_class (t # ts) s = Some s'"
      using True p(1,6) w(1) s'(1) by (auto simp: s2_def)
    moreover have "state (procs s' q) = PROC_RUNNABLE" if "q \<in> set (due_procs (t # ts))" for q
      using s'(4,5) that True p(1) w(3) pn(1) by (auto simp: s2_def del_timer_def)
    ultimately show ?thesis using True p(1) s' w by (auto simp: s2_def del_timer_def)
  qed (use Cons.prems in simp)
qed simp

lemma deadlines_dec:
  "expires t \<noteq> 0 \<Longrightarrow> deadlines 0 (t\<lparr>expires := expires t - 1\<rparr> # ts) =
     map (\<lambda>(d, i). (d - 1, i)) (deadlines 0 (t # ts))"
proof -
  assume e: "expires t \<noteq> 0"
  have shift: "map (\<lambda>(d, i). (d - 1, i)) (deadlines (Suc b) us) = deadlines b us" for b us
    by (induction us arbitrary: b) simp_all
  show ?thesis using e shift [of "expires t - 1" ts] by simp
qed

lemma deadlines_dropWhile:
  "deadlines 0 (dropWhile (\<lambda>t. expires t = 0) ts) = filter (\<lambda>x. fst x \<noteq> 0) (deadlines 0 ts)"
proof (induction ts)
  case (Cons t ts)
  have "filter (\<lambda>x. fst x \<noteq> 0) (deadlines b us) = deadlines b us" if "0 < b" for b us
    using deadlines_sorted [of b us] that by (intro filter_True) fastforce
  then show ?case using Cons by simp
qed simp

lemma deadlines_run:
  assumes "expires t \<noteq> 0"
  shows "deadlines 0 (dropWhile (\<lambda>t. expires t = 0) (t\<lparr>expires := expires t - 1\<rparr> # ts)) =
     map (\<lambda>(d, i). (d - 1, i)) (filter (\<lambda>x. fst x \<noteq> 1) (deadlines 0 (t # ts)))"
proof -
  have "\<forall>x\<in>set (deadlines 0 (t # ts)). fst x \<noteq> 0"
    using deadlines_sorted [of "expires t" ts] assms by auto
  then have "filter (\<lambda>x. fst x \<noteq> 0) (map (\<lambda>(d, i). (d - 1, i)) (deadlines 0 (t # ts))) =
      map (\<lambda>(d, i). (d - 1, i)) (filter (\<lambda>x. fst x \<noteq> 1) (deadlines 0 (t # ts)))"
    unfolding filter_map by (intro arg_cong [where f = "map _"] filter_cong) auto
  then show ?thesis unfolding deadlines_dropWhile deadlines_dec [OF assms] .
qed

section \<open>Correctness\<close>

text \<open>\<open>add_timer\<close> adds a timer with its own expiry time as its deadline and changes no
  other deadline; the list stays in deadline order.\<close>

theorem add_timer_deadlines:
  assumes "0 < expires t" and "t_proc t \<noteq> None" and "t_id t \<notin> t_id ` set (timer_list s)"
  shows "\<exists>s'. add_timer t s = Some s' \<and>
     mset (deadlines 0 (timer_list s')) = add_mset (expires t, t_id t) (mset (deadlines 0 (timer_list s))) \<and>
     sorted (map fst (deadlines 0 (timer_list s')))"
  using assms timer_insert_deadlines [of 0 t "timer_list s"] deadlines_sorted
  by (simp add: add_timer_def)

definition two_timers :: sched_state where
  "two_timers = demo_sched\<lparr>procs := (\<lambda>_. demo_proc\<lparr>state := PROC_SLEEPING, wait_state := WT_TIMER\<rparr>),
     timer_list := [\<lparr>t_id = 7, expires = 1, t_proc = Some 7\<rparr>, \<lparr>t_id = 8, expires = 4, t_proc = Some 8\<rparr>]\<rparr>"

theorem add_timer_deadlines_witness:
  "\<exists>s'. add_timer \<lparr>t_id = 9, expires = 3, t_proc = Some 9\<rparr> two_timers = Some s' \<and>
     mset (deadlines 0 (timer_list s')) =
       add_mset (expires \<lparr>t_id = 9, expires = 3, t_proc = Some 9\<rparr>, t_id \<lparr>t_id = 9, expires = 3, t_proc = Some 9\<rparr>)
         (mset (deadlines 0 (timer_list two_timers))) \<and>
     sorted (map fst (deadlines 0 (timer_list s')))"
  by (rule add_timer_deadlines) (simp_all add: two_timers_def)

text \<open>\<open>del_timer\<close> removes the timer and leaves the deadlines of all others as they were.\<close>

theorem del_timer_deadlines:
  assumes "distinct (map t_id (timer_list s))" and "sum_list (map expires (timer_list s)) < 2 ^ 32"
  shows "deadlines 0 (timer_list (del_timer tm s)) = filter (\<lambda>x. snd x \<noteq> tm) (deadlines 0 (timer_list s))"
  using timer_delete_deadlines [OF assms] by (simp add: del_timer_def)

theorem del_timer_deadlines_witness:
  "deadlines 0 (timer_list (del_timer 7 two_timers)) = filter (\<lambda>x. snd x \<noteq> 7) (deadlines 0 (timer_list two_timers))"
  by (rule del_timer_deadlines) (simp_all add: two_timers_def)

text \<open>A clock tick (\<open>run_timer_list\<close>) moves every deadline one closer, wakes exactly the
  processes whose timers had one tick left, removes those timers, and cannot panic when
  these processes sleep on their timers.\<close>

theorem run_timer_list_tick:
  assumes "rr_queue s Q" and "finite Q" and "timer_list s = t # ts" and "expires t \<noteq> 0"
    and "tl' = t\<lparr>expires := expires t - 1\<rparr> # ts"
    and "\<forall>u\<in>set (due tl'). timer_waiter s Q u" and "distinct (due_procs tl')" and "card Q + length (due tl') < 2 ^ 32"
  shows "\<exists>s'. run_timer_list default_sched_class s = Some s' \<and>
     deadlines 0 (timer_list s') =
       map (\<lambda>(d, i). (d - 1, i)) (filter (\<lambda>x. fst x \<noteq> 1) (deadlines 0 (timer_list s))) \<and>
     rr_queue s' (Q \<union> set (due_procs tl')) \<and>
     (\<forall>p. state (procs s' p) = (if p \<in> set (due_procs tl') then PROC_RUNNABLE else state (procs s p)))"
proof -
  have q: "rr_queue (s\<lparr>timer_list := tl'\<rparr>) Q"
    using rr.queue_cong [OF assms(1)] by (simp add: same_queues_def)
  have w: "\<forall>u\<in>set (due tl'). timer_waiter (s\<lparr>timer_list := tl'\<rparr>) Q u"
    using assms(6) by (simp add: timer_waiter_def)
  obtain s1 where s1: "expire_loop default_sched_class tl' (s\<lparr>timer_list := tl'\<rparr>) = Some s1"
      "rr_queue s1 (Q \<union> set (due_procs tl'))" "timer_list s1 = dropWhile (\<lambda>t. expires t = 0) tl'"
      "\<forall>p\<in>set (due_procs tl'). state (procs s1 p) = PROC_RUNNABLE"
      "\<forall>p. p \<notin> set (due_procs tl') \<longrightarrow> state (procs s1 p) = state (procs s p)"
    using expire_loop_ok [OF q _ w assms(7) assms(2,8)] by auto
  obtain s2 where s2: "sched_class_proc_tick default_sched_class (current s1) s1 = Some s2"
      "same_queues s1 s2" "timer_list s2 = timer_list s1" "\<forall>p. state (procs s2 p) = state (procs s1 p)"
    using proc_tick_frame by blast
  have "run_timer_list default_sched_class s = Some s2"
    using assms(3,4,5) s1(1) s2(1) by (simp add: run_timer_list_def Let_def)
  moreover have "deadlines 0 (timer_list s2) =
      map (\<lambda>(d, i). (d - 1, i)) (filter (\<lambda>x. fst x \<noteq> 1) (deadlines 0 (timer_list s)))"
    unfolding s2(3) s1(3) assms(3,5) by (rule deadlines_run [OF assms(4)])
  ultimately show ?thesis using rr.queue_cong [OF s1(2) s2(2)] s1(4,5) s2(4) by auto
qed

theorem run_timer_list_tick_witness:
  "\<exists>s'. run_timer_list default_sched_class two_timers = Some s' \<and>
     deadlines 0 (timer_list s') =
       map (\<lambda>(d, i). (d - 1, i)) (filter (\<lambda>x. fst x \<noteq> 1) (deadlines 0 (timer_list two_timers))) \<and>
     rr_queue s' ({2, 3} \<union> set (due_procs [\<lparr>t_id = 7, expires = 0, t_proc = Some 7\<rparr>, \<lparr>t_id = 8, expires = 4, t_proc = Some 8\<rparr>])) \<and>
     (\<forall>p. state (procs s' p) = (if p \<in> set (due_procs [\<lparr>t_id = 7, expires = 0, t_proc = Some 7\<rparr>, \<lparr>t_id = 8, expires = 4, t_proc = Some 8\<rparr>])
       then PROC_RUNNABLE else state (procs two_timers p)))"
proof (rule run_timer_list_tick)
  show "rr_queue two_timers {2, 3}"
    unfolding rr_queue_def using demo_sched_inv
    by (intro exI [of _ "[2, 3]"]) (auto simp: rr_inv_def two_timers_def demo_proc_def demo_sched_def)
  show "timer_list two_timers = \<lparr>t_id = 7, expires = 1, t_proc = Some 7\<rparr> # [\<lparr>t_id = 8, expires = 4, t_proc = Some 8\<rparr>]"
    by (simp add: two_timers_def)
qed (auto simp: timer_waiter_def two_timers_def demo_sched_def demo_proc_def WT_TIMER_def WT_INTERRUPTED_def)

end
