(* ===== verification/Sync.thy ===== *)
theory Sync
  imports Sched
begin

text \<open>
  Wait queues, semaphores and monitors: lab8/kern/sync/wait.c, sem.c and monitor.c.

  A \<open>wait_t\<close> lives on the kernel stack of the process that waits, so it is named by
  that process. A wait queue is the list of its entries in order. Operations that
  call \<open>schedule\<close> are split there: the first part runs up to and including the call
  and ends \<open>Blocked\<close> (or \<open>Finished\<close> when it did not have to wait), the second part is
  what the process does when it runs again.
\<close>

section \<open>State\<close>

record wait_t =
  w_proc :: "nat option"
  wakeup_flags :: "32 word"
  w_queue :: "nat option"
  w_linked :: bool

record sync_state =
  sch :: sched_state
  wqueues :: "nat \<Rightarrow> nat list"
  waits :: "nat \<Rightarrow> wait_t"
  sem_value :: "nat \<Rightarrow> int"

datatype outcome = Finished | Blocked

definition upd_wait :: "nat \<Rightarrow> (wait_t \<Rightarrow> wait_t) \<Rightarrow> sync_state \<Rightarrow> sync_state" where
  "upd_wait w f s = s\<lparr>waits := (waits s)(w := f (waits s w))\<rparr>"

definition set_queue :: "nat \<Rightarrow> nat list \<Rightarrow> sync_state \<Rightarrow> sync_state" where
  "set_queue q ws s = s\<lparr>wqueues := (wqueues s)(q := ws)\<rparr>"

section \<open>Wait queues (wait.c)\<close>

definition wait_init :: "nat \<Rightarrow> nat option \<Rightarrow> sync_state \<Rightarrow> sync_state" where
  "wait_init w p = upd_wait w (\<lambda>x. x\<lparr>w_proc := p, wakeup_flags := WT_INTERRUPTED, w_linked := False\<rparr>)"

definition wait_queue_init :: "nat \<Rightarrow> sync_state \<Rightarrow> sync_state" where
  "wait_queue_init q = set_queue q []"

definition wait_queue_add :: "nat \<Rightarrow> nat \<Rightarrow> sync_state \<Rightarrow> sync_state option" where
  "wait_queue_add q w s = do {
     kassert (\<not> w_linked (waits s w) \<and> w_proc (waits s w) \<noteq> None);
     let s = upd_wait w (\<lambda>x. x\<lparr>w_queue := Some q, w_linked := True\<rparr>) s;
     Some (set_queue q (wqueues s q @ [w]) s) }"

definition wait_queue_del :: "nat \<Rightarrow> nat \<Rightarrow> sync_state \<Rightarrow> sync_state option" where
  "wait_queue_del q w s = do {
     kassert (w_linked (waits s w) \<and> w_queue (waits s w) = Some q);
     let s = upd_wait w (\<lambda>x. x\<lparr>w_linked := False\<rparr>) s;
     Some (set_queue q (remove1 w (wqueues s q)) s) }"

fun next_in :: "nat \<Rightarrow> nat list \<Rightarrow> nat option" where
  "next_in w [] = None"
| "next_in w (x # xs) = (if x = w then (case xs of [] \<Rightarrow> None | y # _ \<Rightarrow> Some y) else next_in w xs)"

definition wait_queue_next :: "nat \<Rightarrow> nat \<Rightarrow> sync_state \<Rightarrow> nat option option" where
  "wait_queue_next q w s = do {
     kassert (w_linked (waits s w) \<and> w_queue (waits s w) = Some q);
     Some (next_in w (wqueues s q)) }"

definition wait_queue_prev :: "nat \<Rightarrow> nat \<Rightarrow> sync_state \<Rightarrow> nat option option" where
  "wait_queue_prev q w s = do {
     kassert (w_linked (waits s w) \<and> w_queue (waits s w) = Some q);
     Some (next_in w (rev (wqueues s q))) }"

definition wait_queue_first :: "nat \<Rightarrow> sync_state \<Rightarrow> nat option" where
  "wait_queue_first q s = (case wqueues s q of [] \<Rightarrow> None | w # _ \<Rightarrow> Some w)"

definition wait_queue_last :: "nat \<Rightarrow> sync_state \<Rightarrow> nat option" where
  "wait_queue_last q s = (if wqueues s q = [] then None else Some (last (wqueues s q)))"

definition wait_queue_empty :: "nat \<Rightarrow> sync_state \<Rightarrow> bool" where
  "wait_queue_empty q s \<longleftrightarrow> wqueues s q = []"

definition wait_in_queue :: "nat \<Rightarrow> sync_state \<Rightarrow> bool" where
  "wait_in_queue w s \<longleftrightarrow> w_linked (waits s w)"

definition wakeup_wait :: "nat \<Rightarrow> nat \<Rightarrow> 32 word \<Rightarrow> bool \<Rightarrow> sync_state \<Rightarrow> sync_state option" where
  "wakeup_wait q w fl del s = do {
     s \<leftarrow> (if del then wait_queue_del q w s else Some s);
     let s = upd_wait w (\<lambda>x. x\<lparr>wakeup_flags := fl\<rparr>) s;
     p \<leftarrow> w_proc (waits s w);
     c \<leftarrow> wakeup_proc default_sched_class p (sch s);
     Some (s\<lparr>sch := c\<rparr>) }"

definition wakeup_first :: "nat \<Rightarrow> 32 word \<Rightarrow> bool \<Rightarrow> sync_state \<Rightarrow> sync_state option" where
  "wakeup_first q fl del s =
     (case wait_queue_first q s of None \<Rightarrow> Some s | Some w \<Rightarrow> wakeup_wait q w fl del s)"

text \<open>The two loops of \<open>wakeup_queue\<close> visit the entries in order; the first unlinks each one.\<close>

fun wakeup_all :: "nat \<Rightarrow> nat list \<Rightarrow> 32 word \<Rightarrow> bool \<Rightarrow> sync_state \<Rightarrow> sync_state option" where
  "wakeup_all q [] fl del s = Some s"
| "wakeup_all q (w # ws) fl del s = do {
     s \<leftarrow> wakeup_wait q w fl del s;
     wakeup_all q ws fl del s }"

definition wakeup_queue :: "nat \<Rightarrow> 32 word \<Rightarrow> bool \<Rightarrow> sync_state \<Rightarrow> sync_state option" where
  "wakeup_queue q fl del s = wakeup_all q (wqueues s q) fl del s"

definition wait_current_set :: "nat \<Rightarrow> 32 word \<Rightarrow> sync_state \<Rightarrow> sync_state option" where
  "wait_current_set q ws s =
     (let c = current (sch s);
          s = wait_init c (Some c) s;
          s = s\<lparr>sch := upd_proc c (\<lambda>p. p\<lparr>state := PROC_SLEEPING, wait_state := ws\<rparr>) (sch s)\<rparr>
      in wait_queue_add q c s)"

definition wait_current_del :: "nat \<Rightarrow> nat \<Rightarrow> sync_state \<Rightarrow> sync_state option" where
  "wait_current_del q w s = (if wait_in_queue w s then wait_queue_del q w s else Some s)"

definition do_schedule :: "sync_state \<Rightarrow> sync_state option" where
  "do_schedule s = do { c \<leftarrow> schedule default_sched_class (sch s); Some (s\<lparr>sch := c\<rparr>) }"

section \<open>Semaphores (sem.c)\<close>

definition sem_init :: "nat \<Rightarrow> int \<Rightarrow> sync_state \<Rightarrow> sync_state" where
  "sem_init i v s = wait_queue_init i (s\<lparr>sem_value := (sem_value s)(i := v)\<rparr>)"

definition up_ws :: "nat \<Rightarrow> 32 word \<Rightarrow> sync_state \<Rightarrow> sync_state option" where
  "up_ws i ws s =
     (case wait_queue_first i s of
        None \<Rightarrow> Some (s\<lparr>sem_value := (sem_value s)(i := sem_value s i + 1)\<rparr>)
      | Some w \<Rightarrow> do {
          p \<leftarrow> w_proc (waits s w);
          kassert (wait_state (procs (sch s) p) = ws);
          wakeup_wait i w ws True s })"

definition down_begin :: "nat \<Rightarrow> 32 word \<Rightarrow> sync_state \<Rightarrow> (outcome \<times> sync_state) option" where
  "down_begin i ws s =
     (if sem_value s i > 0
      then Some (Finished, s\<lparr>sem_value := (sem_value s)(i := sem_value s i - 1)\<rparr>)
      else do {
        s \<leftarrow> wait_current_set i ws s;
        s \<leftarrow> do_schedule s;
        Some (Blocked, s) })"

text \<open>After the switch back: the current process returns the flags it was woken with.\<close>

definition down_end :: "nat \<Rightarrow> 32 word \<Rightarrow> sync_state \<Rightarrow> (32 word \<times> sync_state) option" where
  "down_end i ws s =
     (let w = current (sch s) in do {
        s \<leftarrow> wait_current_del i w s;
        Some (if wakeup_flags (waits s w) \<noteq> ws then wakeup_flags (waits s w) else 0, s) })"

definition up :: "nat \<Rightarrow> sync_state \<Rightarrow> sync_state option" where
  "up i s = up_ws i WT_KSEM s"

definition down_first :: "nat \<Rightarrow> sync_state \<Rightarrow> (outcome \<times> sync_state) option" where
  "down_first i s = down_begin i WT_KSEM s"

definition down_resume :: "nat \<Rightarrow> sync_state \<Rightarrow> sync_state option" where
  "down_resume i s = do {
     (fl, s) \<leftarrow> down_end i WT_KSEM s;
     kassert (fl = 0);
     Some s }"

definition try_down :: "nat \<Rightarrow> sync_state \<Rightarrow> bool \<times> sync_state" where
  "try_down i s =
     (if sem_value s i > 0
      then (True, s\<lparr>sem_value := (sem_value s)(i := sem_value s i - 1)\<rparr>) else (False, s))"

section \<open>Monitors (monitor.c)\<close>

record condvar_t =
  cv_sem :: nat
  cv_count :: int

record monitor_t =
  mutex :: nat
  next_sem :: nat
  next_count :: int
  cv :: "condvar_t list"

fun monitor_init_cvs :: "condvar_t list \<Rightarrow> sync_state \<Rightarrow> sync_state" where
  "monitor_init_cvs [] s = s"
| "monitor_init_cvs (c # cs) s = monitor_init_cvs cs (sem_init (cv_sem c) 0 s)"

text \<open>\<open>ids\<close> are the semaphores of the condition variables; \<open>ok\<close> is the outcome of \<open>kmalloc\<close>.\<close>

definition monitor_init ::
    "bool \<Rightarrow> nat \<Rightarrow> nat \<Rightarrow> nat list \<Rightarrow> sync_state \<Rightarrow> (monitor_t \<times> sync_state) option" where
  "monitor_init ok mx nx ids s = do {
     kassert (length ids > 0);
     let s = sem_init mx 1 s;
     let s = sem_init nx 0 s;
     kassert ok;
     let cvs = map (\<lambda>i. \<lparr>cv_sem = i, cv_count = 0\<rparr>) ids;
     Some (\<lparr>mutex = mx, next_sem = nx, next_count = 0, cv = cvs\<rparr>, monitor_init_cvs cvs s) }"

definition set_count :: "nat \<Rightarrow> int \<Rightarrow> monitor_t \<Rightarrow> monitor_t" where
  "set_count k n m = m\<lparr>cv := (cv m)[k := (cv m ! k)\<lparr>cv_count := n\<rparr>]\<rparr>"

definition cond_signal_end :: "monitor_t \<Rightarrow> monitor_t" where
  "cond_signal_end m = m\<lparr>next_count := next_count m - 1\<rparr>"

definition cond_signal :: "nat \<Rightarrow> monitor_t \<Rightarrow> sync_state \<Rightarrow> (outcome \<times> monitor_t \<times> sync_state) option" where
  "cond_signal k m s = do {
     kassert (k < length (cv m));
     if cv_count (cv m ! k) > 0
     then do {
       let m = m\<lparr>next_count := next_count m + 1\<rparr>;
       s \<leftarrow> up (cv_sem (cv m ! k)) s;
       (r, s) \<leftarrow> down_first (next_sem m) s;
       Some (case r of Finished \<Rightarrow> (Finished, cond_signal_end m, s) | Blocked \<Rightarrow> (Blocked, m, s)) }
     else Some (Finished, m, s) }"

definition cond_wait_end :: "nat \<Rightarrow> monitor_t \<Rightarrow> monitor_t" where
  "cond_wait_end k m = set_count k (cv_count (cv m ! k) - 1) m"

definition cond_wait :: "nat \<Rightarrow> monitor_t \<Rightarrow> sync_state \<Rightarrow> (outcome \<times> monitor_t \<times> sync_state) option" where
  "cond_wait k m s = do {
     kassert (k < length (cv m));
     let m = set_count k (cv_count (cv m ! k) + 1) m;
     s \<leftarrow> (if next_count m > 0 then up (next_sem m) s else up (mutex m) s);
     (r, s) \<leftarrow> down_first (cv_sem (cv m ! k)) s;
     Some (case r of Finished \<Rightarrow> (Finished, cond_wait_end k m, s) | Blocked \<Rightarrow> (Blocked, m, s)) }"

section \<open>A semaphore as a mutex\<close>

text \<open>
  The system of processes \<open>P\<close> that use semaphore \<open>i\<close>, initialised to 1, as a lock: \<open>H\<close> are
  the processes that own it, \<open>W\<close> those among them that were handed it while they slept and
  have not run since.
\<close>

definition sched_ok :: "nat set \<Rightarrow> sched_state \<Rightarrow> nat set \<Rightarrow> bool" where
  "sched_ok P c Q \<longleftrightarrow> rr_queue c Q \<and> Q \<subseteq> P \<and> current c \<notin> Q \<and> idleproc c \<notin> P \<and>
     current c \<in> insert (idleproc c) P"

definition waiters_ok :: "nat \<Rightarrow> sync_state \<Rightarrow> bool" where
  "waiters_ok i s \<longleftrightarrow> distinct (wqueues s i) \<and>
     (\<forall>w\<in>set (wqueues s i). w_proc (waits s w) = Some w \<and> w_linked (waits s w) \<and> w_queue (waits s w) = Some i \<and>
        state (procs (sch s) w) = PROC_SLEEPING \<and> wait_state (procs (sch s) w) = WT_KSEM) \<and>
     (\<forall>w. w \<notin> set (wqueues s i) \<longrightarrow> \<not> w_linked (waits s w))"

definition mutex_inv :: "nat set \<Rightarrow> nat \<Rightarrow> sync_state \<Rightarrow> nat set \<Rightarrow> nat set \<Rightarrow> bool" where
  "mutex_inv P i s H W \<longleftrightarrow> finite P \<and> card P + 1 < 2 ^ 32 \<and>
     (\<exists>Q. sched_ok P (sch s) Q \<and> set (wqueues s i) \<subseteq> P - Q - {current (sch s)} \<and>
          (\<forall>q\<in>insert (current (sch s)) (insert (idleproc (sch s)) Q). state (procs (sch s) q) = PROC_RUNNABLE)) \<and>
     waiters_ok i s \<and> 0 \<le> sem_value s i \<and> (sem_value s i > 0 \<longrightarrow> wqueues s i = []) \<and>
     H \<subseteq> P \<and> W \<subseteq> H \<and> H \<inter> set (wqueues s i) = {} \<and> sem_value s i + int (card H) = 1 \<and>
     (\<forall>w\<in>W. wakeup_flags (waits s w) = WT_KSEM)"

inductive mutex_step :: "nat \<Rightarrow> sync_state \<times> nat set \<times> nat set \<Rightarrow> sync_state \<times> nat set \<times> nat set \<Rightarrow> bool"
  for i where
  acquire: "current (sch s) \<noteq> idleproc (sch s) \<Longrightarrow> current (sch s) \<notin> H \<Longrightarrow>
    down_first i s = Some (Finished, s') \<Longrightarrow> mutex_step i (s, H, W) (s', insert (current (sch s)) H, W)"
| block: "current (sch s) \<noteq> idleproc (sch s) \<Longrightarrow> current (sch s) \<notin> H \<Longrightarrow>
    down_first i s = Some (Blocked, s') \<Longrightarrow> mutex_step i (s, H, W) (s', H, W)"
| resume: "current (sch s) \<in> W \<Longrightarrow> down_resume i s = Some s' \<Longrightarrow>
    mutex_step i (s, H, W) (s', H, W - {current (sch s)})"
| release: "current (sch s) \<in> H - W \<Longrightarrow> up i s = Some s' \<Longrightarrow>
    mutex_step i (s, H, W) (s', H - {current (sch s)} \<union> set_option (wait_queue_first i s),
                            W \<union> set_option (wait_queue_first i s))"
| switch: "do_schedule s = Some s' \<Longrightarrow> mutex_step i (s, H, W) (s', H, W)"

inductive_cases mutex_stepE: "mutex_step i (s, H, W) t"

text \<open>A context switch, whatever the state of the current process.\<close>

lemma do_schedule_ok:
  assumes ok: "sched_ok P (sch s) Q" and fin: "finite P" "card P + 1 < 2 ^ 32"
    and st: "\<forall>q\<in>insert (idleproc (sch s)) Q. state (procs (sch s) q) = PROC_RUNNABLE"
    and cur: "current (sch s) = idleproc (sch s) \<Longrightarrow> state (procs (sch s) (current (sch s))) = PROC_RUNNABLE"
  shows "\<exists>c Q'. do_schedule s = Some (s\<lparr>sch := c\<rparr>) \<and> sched_ok P c Q' \<and>
     insert (current c) Q' \<subseteq> insert (idleproc c) Q \<union>
       (if state (procs (sch s) (current (sch s))) = PROC_RUNNABLE then {current (sch s)} else {}) \<and>
     idleproc c = idleproc (sch s) \<and>
     (\<forall>q. state (procs c q) = state (procs (sch s) q) \<and> wait_state (procs c q) = wait_state (procs (sch s) q))"
proof -
  let ?c = "sch s"
  let ?Q = "if state (procs ?c (current ?c)) = PROC_RUNNABLE \<and> current ?c \<noteq> idleproc ?c then insert (current ?c) Q else Q"
  have QP: "Q \<subseteq> P" "current ?c \<notin> Q" "idleproc ?c \<notin> P" "rr_queue ?c Q" "current ?c \<in> insert (idleproc ?c) P"
    using ok by (auto simp: sched_ok_def)
  then have "idleproc ?c \<notin> Q" by blast
  moreover have "card Q + 1 < 2 ^ 32" using card_mono [OF fin(1) QP(1)] fin(2) by simp
  ultimately obtain c where c: "schedule default_sched_class ?c = Some c" "idleproc c = idleproc ?c"
      "\<forall>q. state (procs c q) = state (procs ?c q) \<and> wait_state (procs c q) = wait_state (procs ?c q)"
      "if ?Q = {} then current c = idleproc ?c \<and> rr_queue c {} else current c \<in> ?Q \<and> rr_queue c (?Q - {current c})"
    using rr.schedule_ok [OF QP(4) _ QP(2) _ refl] by (auto simp: rr_adm_def)
  define Q' where "Q' = (if ?Q = {} then {} else ?Q - {current c})"
  have "sched_ok P c Q'"
    using c(2,4) QP unfolding sched_ok_def Q'_def by (auto split: if_splits)
  moreover have "insert (current c) Q' \<subseteq> insert (idleproc c) Q \<union>
       (if state (procs ?c (current ?c)) = PROC_RUNNABLE then {current ?c} else {})"
    using c(2,4) unfolding Q'_def by (auto split: if_splits)
  moreover have "do_schedule s = Some (s\<lparr>sch := c\<rparr>)" using c(1) by (simp add: do_schedule_def)
  ultimately show ?thesis using c(2,3) by blast
qed

lemma waiters_ok_switch:
  "waiters_ok i s \<Longrightarrow> (\<forall>q. state (procs c q) = state (procs (sch s) q) \<and> wait_state (procs c q) = wait_state (procs (sch s) q)) \<Longrightarrow>
   waiters_ok i (s\<lparr>sch := c\<rparr>)"
  by (simp add: waiters_ok_def)

lemma mutex_switch:
  assumes inv: "mutex_inv P i s H W"
  shows "\<exists>s'. do_schedule s = Some s' \<and> mutex_inv P i s' H W"
proof -
  obtain Q where Q: "sched_ok P (sch s) Q" "set (wqueues s i) \<subseteq> P - Q - {current (sch s)}"
      "\<forall>q\<in>insert (current (sch s)) (insert (idleproc (sch s)) Q). state (procs (sch s) q) = PROC_RUNNABLE"
    using inv unfolding mutex_inv_def by blast
  obtain c Q' where c: "do_schedule s = Some (s\<lparr>sch := c\<rparr>)" "sched_ok P c Q'"
      "insert (current c) Q' \<subseteq> insert (idleproc c) Q \<union> {current (sch s)}" "idleproc c = idleproc (sch s)"
      "\<forall>q. state (procs c q) = state (procs (sch s) q) \<and> wait_state (procs c q) = wait_state (procs (sch s) q)"
    using do_schedule_ok [OF Q(1)] inv Q(3) by (auto simp: mutex_inv_def)
  have "idleproc c \<notin> P" using c(2) by (simp add: sched_ok_def)
  then have "set (wqueues s i) \<subseteq> P - Q' - {current c}" using Q(2) c(3) by auto
  moreover have "\<forall>q\<in>insert (current c) (insert (idleproc c) Q'). state (procs c q) = PROC_RUNNABLE"
    using Q(3) c(3-5) by auto
  moreover have "waiters_ok i (s\<lparr>sch := c\<rparr>)" using waiters_ok_switch [OF _ c(5)] inv by (simp add: mutex_inv_def)
  ultimately have "mutex_inv P i (s\<lparr>sch := c\<rparr>) H W" using inv c(2) unfolding mutex_inv_def by auto
  with c(1) show ?thesis by blast
qed

lemma mutex_acquire:
  assumes inv: "mutex_inv P i s H W" and c: "current (sch s) \<noteq> idleproc (sch s)" "current (sch s) \<notin> H"
    and v: "sem_value s i > 0"
  shows "\<exists>s'. down_first i s = Some (Finished, s') \<and> mutex_inv P i s' (insert (current (sch s)) H) W"
proof -
  define s' where "s' = s\<lparr>sem_value := (sem_value s)(i := sem_value s i - 1)\<rparr>"
  have fin: "finite H" using inv finite_subset unfolding mutex_inv_def by blast
  have cP: "current (sch s) \<in> P" using inv c(1) unfolding mutex_inv_def sched_ok_def by blast
  have "wqueues s i = []" using inv v by (simp add: mutex_inv_def)
  then have "mutex_inv P i s' (insert (current (sch s)) H) W"
    using inv c(2) v fin cP unfolding mutex_inv_def waiters_ok_def by (auto simp: s'_def)
  then show ?thesis using v by (simp add: down_first_def down_begin_def s'_def)
qed

lemma mutex_block:
  assumes inv: "mutex_inv P i s H W" and c: "current (sch s) \<noteq> idleproc (sch s)" "current (sch s) \<notin> H"
    and v: "\<not> sem_value s i > 0"
  shows "\<exists>s'. down_first i s = Some (Blocked, s') \<and> mutex_inv P i s' H W \<and>
    wqueues s' i = wqueues s i @ [current (sch s)]"
proof -
  obtain Q where Q: "sched_ok P (sch s) Q" "set (wqueues s i) \<subseteq> P - Q - {current (sch s)}"
      "\<forall>q\<in>insert (current (sch s)) (insert (idleproc (sch s)) Q). state (procs (sch s) q) = PROC_RUNNABLE"
    using inv unfolding mutex_inv_def by blast
  have wk: "waiters_ok i s" using inv by (simp add: mutex_inv_def)
  let ?c = "current (sch s)"
  have cQ: "?c \<notin> Q" "?c \<in> P" "idleproc (sch s) \<notin> P" "Q \<subseteq> P" using Q(1) c(1) by (auto simp: sched_ok_def)
  define k where "k = upd_proc ?c (\<lambda>p. p\<lparr>state := PROC_SLEEPING, wait_state := WT_KSEM\<rparr>) (sch s)"
  define s1 where "s1 = s\<lparr>sch := k, wqueues := (wqueues s)(i := wqueues s i @ [?c]),
      waits := (waits s)(?c := (waits s ?c)\<lparr>w_proc := Some ?c, wakeup_flags := WT_INTERRUPTED, w_queue := Some i, w_linked := True\<rparr>)\<rparr>"
  have set1: "wait_current_set i WT_KSEM s = Some s1"
    by (simp add: wait_current_set_def wait_init_def wait_queue_add_def upd_wait_def set_queue_def s1_def k_def Let_def)
  have k: "current k = ?c" "idleproc k = idleproc (sch s)" "same_queues (sch s) k"
    by (simp_all add: k_def same_queues_def)
  have ok1: "sched_ok P (sch s1) Q"
    using Q(1) k rr.queue_cong [of "sch s" Q k] by (auto simp: sched_ok_def s1_def)
  have st1: "state (procs (sch s1) ?c) = PROC_SLEEPING" "\<forall>q\<in>insert (idleproc (sch s1)) Q. state (procs (sch s1) q) = PROC_RUNNABLE"
    using Q(3) cQ c(1) by (auto simp: s1_def k_def)
  have c1: "current (sch s1) = ?c" "idleproc (sch s1) = idleproc (sch s)" using k by (simp_all add: s1_def)
  have w1: "waiters_ok i s1"
    using wk Q(2) unfolding waiters_ok_def by (auto simp: s1_def k_def)
  obtain d Q' where d: "do_schedule s1 = Some (s1\<lparr>sch := d\<rparr>)" "sched_ok P d Q'"
      "insert (current d) Q' \<subseteq> insert (idleproc d) Q" "idleproc d = idleproc (sch s)"
      "\<forall>q. state (procs d q) = state (procs (sch s1) q) \<and> wait_state (procs d q) = wait_state (procs (sch s1) q)"
    using do_schedule_ok [OF ok1 _ _ st1(2)] inv st1(1) c1 c(1) by (auto simp: mutex_inv_def)
  let ?s = "s1\<lparr>sch := d\<rparr>"
  have "set (wqueues ?s i) \<subseteq> P - Q' - {current d}"
    using Q(2) d(2-4) cQ by (auto simp: s1_def sched_ok_def)
  moreover have "\<forall>q\<in>insert (current d) (insert (idleproc d) Q'). state (procs d q) = PROC_RUNNABLE"
    using st1(2) c1 d(3-5) by auto
  moreover have "waiters_ok i ?s" using waiters_ok_switch [OF w1 d(5)] .
  moreover have "\<forall>w\<in>W. wakeup_flags (waits ?s w) = WT_KSEM"
    using inv c(2) by (auto simp: mutex_inv_def s1_def)
  ultimately have "mutex_inv P i ?s H W"
    using inv c(2) v d(2) unfolding mutex_inv_def by (auto simp: s1_def)
  moreover have "down_first i s = Some (Blocked, ?s)"
    using v set1 d(1) by (simp add: down_first_def down_begin_def)
  ultimately show ?thesis by (auto simp: s1_def)
qed

lemma mutex_resume:
  assumes inv: "mutex_inv P i s H W" and c: "current (sch s) \<in> W"
  shows "down_resume i s = Some s" "mutex_inv P i s H (W - {current (sch s)})"
proof -
  have "current (sch s) \<notin> set (wqueues s i)" using inv c by (auto simp: mutex_inv_def)
  then have "\<not> w_linked (waits s (current (sch s)))" using inv by (simp add: mutex_inv_def waiters_ok_def)
  moreover have "wakeup_flags (waits s (current (sch s))) = WT_KSEM" using inv c by (simp add: mutex_inv_def)
  ultimately show "down_resume i s = Some s"
    by (simp add: down_resume_def down_end_def wait_current_del_def wait_in_queue_def)
  show "mutex_inv P i s H (W - {current (sch s)})" using inv by (auto simp: mutex_inv_def)
qed

lemma mutex_release_idle:
  assumes inv: "mutex_inv P i s H W" and c: "current (sch s) \<in> H - W" and e: "wqueues s i = []"
  shows "\<exists>s'. up i s = Some s' \<and> mutex_inv P i s' (H - {current (sch s)}) W"
proof -
  define s' where "s' = s\<lparr>sem_value := (sem_value s)(i := sem_value s i + 1)\<rparr>"
  have fin: "finite H" using inv finite_subset unfolding mutex_inv_def by blast
  obtain n where "card H = Suc n" using c fin by (metis Diff_iff card_Suc_Diff1)
  then have "card (H - {current (sch s)}) = n" "sem_value s i + int (Suc n) = 1"
    using inv c fin by (simp_all add: mutex_inv_def card_Diff_singleton)
  then have "sem_value s' i + int (card (H - {current (sch s)})) = 1" by (simp add: s'_def)
  then have "mutex_inv P i s' (H - {current (sch s)}) W"
    using inv c e unfolding mutex_inv_def waiters_ok_def by (auto simp: s'_def)
  moreover have "up i s = Some s'" using e by (simp add: up_def up_ws_def wait_queue_first_def s'_def)
  ultimately show ?thesis by blast
qed

lemma mutex_release_handoff:
  assumes inv: "mutex_inv P i s H W" and c: "current (sch s) \<in> H - W" and e: "wqueues s i = w # ws"
  shows "\<exists>s'. up i s = Some s' \<and> wqueues s' i = ws \<and> mutex_inv P i s' (insert w (H - {current (sch s)})) (insert w W)"
proof -
  obtain Q where Q: "sched_ok P (sch s) Q" "set (wqueues s i) \<subseteq> P - Q - {current (sch s)}"
      "\<forall>q\<in>insert (current (sch s)) (insert (idleproc (sch s)) Q). state (procs (sch s) q) = PROC_RUNNABLE"
    using inv unfolding mutex_inv_def by blast
  have wk: "waiters_ok i s" using inv by (simp add: mutex_inv_def)
  have w: "w_proc (waits s w) = Some w" "w_linked (waits s w)" "w_queue (waits s w) = Some i"
      "state (procs (sch s) w) = PROC_SLEEPING" "wait_state (procs (sch s) w) = WT_KSEM" "w \<notin> set ws" "distinct ws"
    using wk e by (auto simp: waiters_ok_def)
  have wP: "w \<in> P" "w \<notin> Q" "w \<noteq> current (sch s)" "w \<noteq> idleproc (sch s)" "Q \<subseteq> P" "idleproc (sch s) \<notin> P"
    using Q(1,2) e by (auto simp: sched_ok_def)
  have "card Q + 1 < 2 ^ 32" using card_mono [OF _ wP(5)] inv by (simp add: mutex_inv_def)
  then obtain k where k: "wakeup_proc default_sched_class w (sch s) = Some k" "rr_queue k (insert w Q)"
      "state (procs k w) = PROC_RUNNABLE"
      "\<forall>q. q \<noteq> w \<longrightarrow> state (procs k q) = state (procs (sch s) q) \<and> wait_state (procs k q) = wait_state (procs (sch s) q)"
      "current k = current (sch s)" "idleproc k = idleproc (sch s)"
    using rr.wakeup_ok [of "sch s" Q w] Q(1) w(4) wP by (auto simp: sched_ok_def rr_adm_def)
  define s' where "s' = s\<lparr>sch := k, wqueues := (wqueues s)(i := ws),
      waits := (waits s)(w := (waits s w)\<lparr>w_linked := False, wakeup_flags := WT_KSEM\<rparr>)\<rparr>"
  have up: "up i s = Some s'"
    using e w k(1)
    by (simp add: up_def up_ws_def wait_queue_first_def wakeup_wait_def wait_queue_del_def upd_wait_def set_queue_def
        s'_def Let_def)
  have ok: "sched_ok P (sch s') (insert w Q)"
    using Q(1) k(2,5,6) wP by (auto simp: sched_ok_def s'_def)
  have "waiters_ok i s'"
    using wk w(6,7) e k(4) unfolding waiters_ok_def by (auto simp: s'_def)
  moreover have "set (wqueues s' i) \<subseteq> P - insert w Q - {current (sch s')}"
    using Q(2) e w(6) k(5) by (auto simp: s'_def)
  moreover have "\<forall>q\<in>insert (current (sch s')) (insert (idleproc (sch s')) (insert w Q)). state (procs (sch s') q) = PROC_RUNNABLE"
  proof -
    have "state (procs k q) = PROC_RUNNABLE" if "q \<in> insert (current (sch s)) (insert (idleproc (sch s)) Q)" for q
      using Q(3) that k(3,4) by (cases "q = w") auto
    then show ?thesis using k(3,5,6) by (auto simp: s'_def)
  qed
  moreover have "sem_value s' i + int (card (insert w (H - {current (sch s)}))) = 1"
  proof -
    have fin: "finite H" using inv finite_subset unfolding mutex_inv_def by blast
    have "w \<notin> H" "0 < card H" using inv e c fin by (auto simp: mutex_inv_def card_gt_0_iff)
    then show ?thesis using inv c fin by (simp add: mutex_inv_def s'_def card_Diff_singleton)
  qed
  moreover have "insert w (H - {current (sch s)}) \<inter> set ws = {}" "insert w W \<subseteq> insert w (H - {current (sch s)})"
      "insert w (H - {current (sch s)}) \<subseteq> P"
    using inv e w(6) c wP(1) by (auto simp: mutex_inv_def)
  moreover have "\<forall>x\<in>insert w W. wakeup_flags (waits s' x) = WT_KSEM"
    using inv by (auto simp: mutex_inv_def s'_def)
  moreover have "0 \<le> sem_value s' i" "sem_value s' i > 0 \<longrightarrow> wqueues s' i = []" "wqueues s' i = ws"
    using inv e by (auto simp: mutex_inv_def s'_def)
  ultimately have "mutex_inv P i s' (insert w (H - {current (sch s)})) (insert w W)"
    using ok inv unfolding mutex_inv_def by metis
  then show ?thesis using up by (auto simp: s'_def)
qed

lemma mutex_step_inv:
  assumes "mutex_inv P i s H W" "mutex_step i (s, H, W) (s', H', W')"
  shows "mutex_inv P i s' H' W'"
  using assms(2)
proof (cases rule: mutex_step.cases)
  case acquire
  then have "sem_value s i > 0"
    by (auto simp: down_first_def down_begin_def elim!: bind_eq_SomeE split: if_splits)
  with acquire mutex_acquire [OF assms(1)] show ?thesis by auto
next
  case block
  then have "\<not> sem_value s i > 0" by (auto simp: down_first_def down_begin_def)
  with block mutex_block [OF assms(1)] show ?thesis by auto
next
  case resume
  with mutex_resume [OF assms(1)] show ?thesis by auto
next
  case release
  show ?thesis
  proof (cases "wqueues s i")
    case Nil
    with release mutex_release_idle [OF assms(1)] show ?thesis by (auto simp: wait_queue_first_def)
  next
    case (Cons w ws)
    with release mutex_release_handoff [OF assms(1)] show ?thesis by (auto simp: wait_queue_first_def)
  qed
next
  case switch
  with mutex_switch [OF assms(1)] show ?thesis by auto
qed

lemma mutex_reach_inv:
  "(mutex_step i)\<^sup>*\<^sup>* x y \<Longrightarrow> mutex_inv P i (fst x) (fst (snd x)) (snd (snd x)) \<Longrightarrow>
   mutex_inv P i (fst y) (fst (snd y)) (snd (snd y))"
proof (induction rule: rtranclp_induct)
  case (step y z)
  then show ?case using mutex_step_inv [of P i "fst y" "fst (snd y)" "snd (snd y)" "fst z" "fst (snd z)" "snd (snd z)"] by simp
qed

lemma mutex_inv_init:
  assumes "finite P" "card P + 1 < 2 ^ 32" "sched_ok P (sch s) Q" "\<forall>w. \<not> w_linked (waits s w)"
    "\<forall>q\<in>insert (current (sch s)) (insert (idleproc (sch s)) Q). state (procs (sch s) q) = PROC_RUNNABLE"
  shows "mutex_inv P i (sem_init i 1 s) {} {}"
  using assms
  by (auto simp: mutex_inv_def waiters_ok_def sem_init_def wait_queue_init_def set_queue_def)

section \<open>Correctness\<close>

definition demo_sync :: sync_state where
  "demo_sync = \<lparr>sch = demo_sched, wqueues = (\<lambda>_. []),
     waits = (\<lambda>_. \<lparr>w_proc = None, wakeup_flags = 0, w_queue = None, w_linked = False\<rparr>), sem_value = (\<lambda>_. 0)\<rparr>"

lemma demo_sync_ok: "sched_ok {1, 2, 3} (sch demo_sync) {2, 3}"
proof -
  have "rr_queue demo_sched {2, 3}"
    unfolding rr_queue_def using demo_sched_inv by (intro exI [of _ "[2, 3]"]) auto
  then show ?thesis by (auto simp: sched_ok_def demo_sync_def demo_sched_def)
qed

lemma demo_mutex_inv: "mutex_inv {1, 2, 3} 0 (sem_init 0 1 demo_sync) {} {}"
  by (rule mutex_inv_init [OF _ _ demo_sync_ok]) (auto simp: demo_sync_def demo_sched_def demo_proc_def)

text \<open>C3. Mutual exclusion: in every state that processes using a semaphore initialised to 1 as
  a lock can reach (by acquiring, blocking, resuming, releasing and being switched), at most
  one process owns it, and the semaphore's value is 0 while it is owned.\<close>

theorem mutex_exclusion:
  assumes "mutex_inv P i s {} {}" and "(mutex_step i)\<^sup>*\<^sup>* (s, {}, {}) (s', H, W)"
  shows "card H \<le> 1 \<and> (H \<noteq> {} \<longrightarrow> sem_value s' i = 0)"
proof -
  have inv: "mutex_inv P i s' H W" using mutex_reach_inv [OF assms(2)] assms(1) by simp
  then have "finite H" "sem_value s' i + int (card H) = 1" "0 \<le> sem_value s' i"
    using finite_subset unfolding mutex_inv_def by blast+
  moreover have "card H = 0 \<longleftrightarrow> H = {}" using \<open>finite H\<close> by simp
  ultimately show ?thesis by linarith
qed

theorem mutex_exclusion_witness:
  "\<exists>s'. (mutex_step 0)\<^sup>*\<^sup>* (sem_init 0 1 demo_sync, {}, {}) (s', {1}, {}) \<and>
     card {1 :: nat} \<le> 1 \<and> ({1 :: nat} \<noteq> {} \<longrightarrow> sem_value s' 0 = 0)"
proof -
  have c: "current (sch (sem_init 0 1 demo_sync)) = 1" "idleproc (sch (sem_init 0 1 demo_sync)) = 0"
    by (simp_all add: demo_sync_def demo_sched_def sem_init_def wait_queue_init_def set_queue_def)
  obtain s' where d: "down_first 0 (sem_init 0 1 demo_sync) = Some (Finished, s')"
    by (simp add: down_first_def down_begin_def sem_init_def wait_queue_init_def set_queue_def)
  have st: "mutex_step 0 (sem_init 0 1 demo_sync, {}, {}) (s', {1}, {})"
    using mutex_step.acquire [OF _ _ d, of "{}" "{}"] c by simp
  then have "(mutex_step 0)\<^sup>*\<^sup>* (sem_init 0 1 demo_sync, {}, {}) (s', {1}, {})" by blast
  with mutex_exclusion [OF demo_mutex_inv this] show ?thesis by blast
qed

text \<open>C32. No operation of such a system panics: from every reachable state a process that does
  not own the lock can call \<open>down\<close>, one that was woken with it can finish its \<open>down\<close>, the
  owner can call \<open>up\<close>, and the scheduler can switch.\<close>

theorem mutex_no_panic:
  assumes "mutex_inv P i s {} {}" and "(mutex_step i)\<^sup>*\<^sup>* (s, {}, {}) (s', H, W)"
  shows "(current (sch s') \<noteq> idleproc (sch s') \<and> current (sch s') \<notin> H \<longrightarrow> down_first i s' \<noteq> None) \<and>
         (current (sch s') \<in> W \<longrightarrow> down_resume i s' \<noteq> None) \<and>
         (current (sch s') \<in> H - W \<longrightarrow> up i s' \<noteq> None) \<and> do_schedule s' \<noteq> None"
proof -
  have inv: "mutex_inv P i s' H W" using mutex_reach_inv [OF assms(2)] assms(1) by simp
  have "up i s' \<noteq> None" if "current (sch s') \<in> H - W"
    using mutex_release_idle [OF inv that] mutex_release_handoff [OF inv that] by (cases "wqueues s' i") auto
  moreover have "down_first i s' \<noteq> None"
    if "current (sch s') \<noteq> idleproc (sch s')" "current (sch s') \<notin> H"
    using mutex_acquire [OF inv that] mutex_block [OF inv that] by (cases "sem_value s' i > 0") auto
  ultimately show ?thesis using mutex_resume [OF inv] mutex_switch [OF inv] by auto
qed

theorem mutex_no_panic_witness:
  "down_first 0 (sem_init 0 1 demo_sync) \<noteq> None \<and> do_schedule (sem_init 0 1 demo_sync) \<noteq> None"
proof -
  have "current (sch (sem_init 0 1 demo_sync)) \<noteq> idleproc (sch (sem_init 0 1 demo_sync))"
    by (simp add: sem_init_def wait_queue_init_def set_queue_def demo_sync_def demo_sched_def)
  then show ?thesis using mutex_no_panic [OF demo_mutex_inv rtranclp.rtrancl_refl] by blast
qed

text \<open>\<open>up\<close> hands the semaphore to the process that has waited longest: with waiters
  \<open>w # ws\<close> it leaves \<open>ws\<close> waiting and the value unchanged, and \<open>w\<close> is the new owner.\<close>

theorem up_hands_over_fifo:
  assumes "mutex_inv P i s H W" and "current (sch s) \<in> H - W" and "wqueues s i = w # ws"
  shows "\<exists>s'. up i s = Some s' \<and> wqueues s' i = ws \<and>
     mutex_inv P i s' (insert w (H - {current (sch s)})) (insert w W)"
  using assms by (rule mutex_release_handoff)

text \<open>Process 1 owns semaphore 0 and process 4 waits for it.\<close>

definition contended_sync :: sync_state where
  "contended_sync = \<lparr>sch = demo_sched\<lparr>procs := (\<lambda>_. demo_proc)
       (4 := demo_proc\<lparr>state := PROC_SLEEPING, wait_state := WT_KSEM\<rparr>)\<rparr>,
     wqueues = (\<lambda>_. [])(0 := [4]),
     waits = (\<lambda>_. \<lparr>w_proc = None, wakeup_flags = 0, w_queue = None, w_linked = False\<rparr>)
       (4 := \<lparr>w_proc = Some 4, wakeup_flags = WT_INTERRUPTED, w_queue = Some 0, w_linked = True\<rparr>),
     sem_value = (\<lambda>_. 0)\<rparr>"

lemma contended_inv: "mutex_inv {1, 2, 3, 4} 0 contended_sync {1} {}"
proof -
  have "rr_queue (sch contended_sync) {2, 3}"
    unfolding rr_queue_def using demo_sched_inv
    by (intro exI [of _ "[2, 3]"]) (auto simp: rr_inv_def contended_sync_def demo_proc_def demo_sched_def)
  then have "sched_ok {1, 2, 3, 4} (sch contended_sync) {2, 3}"
    by (auto simp: sched_ok_def contended_sync_def demo_sched_def)
  moreover have "waiters_ok 0 contended_sync"
    by (auto simp: waiters_ok_def contended_sync_def)
  moreover have "set (wqueues contended_sync 0) \<subseteq> {1, 2, 3, 4} - {2, 3} - {current (sch contended_sync)}"
    "\<forall>q\<in>insert (current (sch contended_sync)) (insert (idleproc (sch contended_sync)) {2, 3}).
       state (procs (sch contended_sync) q) = PROC_RUNNABLE"
    by (auto simp: contended_sync_def demo_sched_def demo_proc_def)
  ultimately show ?thesis unfolding mutex_inv_def by (auto simp: contended_sync_def)
qed

theorem up_hands_over_fifo_witness:
  "\<exists>s'. up 0 contended_sync = Some s' \<and> wqueues s' 0 = [] \<and>
     mutex_inv {1, 2, 3, 4} 0 s' (insert 4 ({1} - {current (sch contended_sync)})) (insert 4 {})"
  by (rule up_hands_over_fifo [OF contended_inv]) (simp_all add: contended_sync_def demo_sched_def)

end
