(* ===== verification/Bitmap.thy ===== *)
theory Bitmap
  imports Prelude
begin

text \<open>
  The free-block bitmap of lab8/kern/fs/sfs/bitmap.c: an array of 32-bit words in
  which a set bit is a free block. The meaning of a bitmap is the set of indices of
  its set bits; every operation is specified on that set.
\<close>

unbundle bit_operations_syntax

section \<open>Operations\<close>

record bitmap =
  nbits :: nat
  nwords :: nat
  words :: "32 word list"

definition WORD_BITS :: nat where "WORD_BITS = 32"

text \<open>The loop that marks the leftover bits of the last word as used.\<close>

function clear_over :: "nat \<Rightarrow> 32 word \<Rightarrow> 32 word" where
  "clear_over over w = (if over < WORD_BITS then clear_over (Suc over) (w XOR push_bit over 1) else w)"
  by pat_completeness auto
termination clear_over
  by (relation "measure (\<lambda>(over, w). WORD_BITS - over)") auto

declare clear_over.simps [simp del]

text \<open>The two flags say whether the two calls of \<open>kmalloc\<close> succeed.\<close>

definition bitmap_create :: "bool \<Rightarrow> bool \<Rightarrow> nat \<Rightarrow> bitmap option option" where
  "bitmap_create ok1 ok2 n = do {
     kassert (n \<noteq> 0 \<and> n + WORD_BITS > n);
     if \<not> ok1 then Some None
     else let k = ROUNDUP_DIV n WORD_BITS in
       if \<not> ok2 then Some None
       else let m = replicate k (- 1) in
         if n \<noteq> k * WORD_BITS
         then let ix = k - 1; over = n - ix * WORD_BITS in do {
           kassert (n div WORD_BITS = ix);
           kassert (over > 0 \<and> over < WORD_BITS);
           Some (Some \<lparr>nbits = n, nwords = k, words = m[ix := clear_over over (m ! ix)]\<rparr>) }
         else Some (Some \<lparr>nbits = n, nwords = k, words = m\<rparr>) }"

function alloc_offset :: "32 word \<Rightarrow> nat \<Rightarrow> nat option" where
  "alloc_offset w i =
     (if i < WORD_BITS then if w AND push_bit i 1 \<noteq> 0 then Some i else alloc_offset w (Suc i) else None)"
  by pat_completeness auto
termination alloc_offset
  by (relation "measure (\<lambda>(w, i). WORD_BITS - i)") auto

declare alloc_offset.simps [simp del]

text \<open>The scan over the words; the inner loop never falls through on a non-zero word.\<close>

fun alloc_scan :: "32 word list \<Rightarrow> nat \<Rightarrow> (nat option \<times> 32 word list) option" where
  "alloc_scan [] ix = Some (None, [])"
| "alloc_scan (w # ws) ix =
     (if w \<noteq> 0
      then do {
        i \<leftarrow> alloc_offset w 0;
        Some (Some (ix * WORD_BITS + i), (w XOR push_bit i 1) # ws) }
      else do {
        (r, ws) \<leftarrow> alloc_scan ws (Suc ix);
        Some (r, w # ws) })"

definition bitmap_alloc :: "bitmap \<Rightarrow> (int \<times> nat \<times> bitmap) option" where
  "bitmap_alloc b = do {
     (r, ws) \<leftarrow> alloc_scan (words b) 0;
     Some (case r of None \<Rightarrow> (- E_NO_MEM, 0, b) | Some i \<Rightarrow> (0, i, b\<lparr>words := ws\<rparr>)) }"

definition bitmap_translate :: "bitmap \<Rightarrow> nat \<Rightarrow> (nat \<times> 32 word) option" where
  "bitmap_translate b i = do {
     kassert (i < nbits b);
     Some (i div WORD_BITS, push_bit (i mod WORD_BITS) 1) }"

definition bitmap_test :: "bitmap \<Rightarrow> nat \<Rightarrow> bool option" where
  "bitmap_test b i = do {
     (ix, mask) \<leftarrow> bitmap_translate b i;
     Some (words b ! ix AND mask \<noteq> 0) }"

definition bitmap_free :: "bitmap \<Rightarrow> nat \<Rightarrow> bitmap option" where
  "bitmap_free b i = do {
     (ix, mask) \<leftarrow> bitmap_translate b i;
     kassert (words b ! ix AND mask = 0);
     Some (b\<lparr>words := (words b)[ix := words b ! ix OR mask]\<rparr>) }"

definition bitmap_getdata :: "bitmap \<Rightarrow> nat \<times> 32 word list" where
  "bitmap_getdata b = (4 * nwords b, words b)"

section \<open>Meaning\<close>

definition free_bits :: "bitmap \<Rightarrow> nat set" where
  "free_bits b = {i. i div 32 < length (words b) \<and> bit (words b ! (i div 32)) (i mod 32)}"

definition bitmap_inv :: "bitmap \<Rightarrow> bool" where
  "bitmap_inv b \<longleftrightarrow> length (words b) = nwords b \<and> nwords b = (nbits b + 31) div 32 \<and>
     (\<forall>i\<in>free_bits b. i < nbits b)"

lemma mask_test: "(w :: 32 word) AND push_bit i 1 \<noteq> 0 \<longleftrightarrow> bit w i"
proof -
  have "w AND push_bit i 1 = of_bool (bit w i) * push_bit i 1"
    by (rule bit_word_eqI) (auto simp: bit_simps)
  then show ?thesis by (cases "i < 32") (auto simp: dest: bit_imp_le_length)
qed


definition list_bits :: "32 word list \<Rightarrow> nat set" where
  "list_bits ws = {i. i div 32 < length ws \<and> bit (ws ! (i div 32)) (i mod 32)}"

lemma free_bits_words: "free_bits b = list_bits (words b)"
  by (simp add: free_bits_def list_bits_def)

lemma list_bits_Nil [simp]: "list_bits [] = {}"
  by (simp add: list_bits_def)

lemma list_bits_Cons: "i \<in> list_bits (w # ws) \<longleftrightarrow> (if i < 32 then bit w i else i - 32 \<in> list_bits ws)"
proof (cases "i < 32")
  case False
  then have "i div 32 = Suc ((i - 32) div 32)" "i mod 32 = (i - 32) mod 32"
    using le_div_geq [of 32 i] le_mod_geq [of 32 i] by auto
  then show ?thesis using False by (simp add: list_bits_def)
qed (simp add: list_bits_def)

lemma xor_bit: "bit (w XOR push_bit i 1) j \<longleftrightarrow> (if j = i \<and> i < 32 then \<not> bit w j else bit (w :: 32 word) j)"
  by (auto simp: bit_simps dest: bit_imp_le_length)

lemma clear_over_bit:
  "bit (clear_over ov w) i \<longleftrightarrow> (if ov \<le> i \<and> i < 32 then \<not> bit w i else bit w i)"
proof (induction ov w rule: clear_over.induct)
  case (1 ov w)
  show ?case
  proof (cases "ov < WORD_BITS")
    case True
    then have "bit (clear_over ov w) i = bit (clear_over (Suc ov) (w XOR push_bit ov 1)) i"
      by (subst clear_over.simps) simp
    then show ?thesis using 1 [OF True] True xor_bit [of w ov i] by (auto simp: WORD_BITS_def)
  next
    case False
    then show ?thesis by (subst clear_over.simps) (auto simp: WORD_BITS_def)
  qed
qed

lemma alloc_offset_spec:
  "alloc_offset w i = (if \<exists>k. i \<le> k \<and> bit w k then Some (LEAST k. i \<le> k \<and> bit w k) else None)"
proof (induction w i rule: alloc_offset.induct)
  case (1 w i)
  show ?case
  proof (cases "i < WORD_BITS")
    case lt: True
    show ?thesis
    proof (cases "bit w i")
      case True
      have "(LEAST k. i \<le> k \<and> bit w k) = i" using True by (intro Least_equality) auto
      moreover have "w AND push_bit i 1 \<noteq> 0" using True mask_test by blast
      ultimately show ?thesis using lt True by (subst alloc_offset.simps) (auto simp del: push_bit_of_1)
    next
      case False
      have "i \<le> k \<and> bit w k \<longleftrightarrow> Suc i \<le> k \<and> bit w k" for k using False by (cases "k = i") auto
      moreover have "\<not> w AND push_bit i 1 \<noteq> 0" using False mask_test by blast
      ultimately show ?thesis using 1 [OF lt] lt False by (subst alloc_offset.simps) (simp del: push_bit_of_1)
    qed
  next
    case False
    have "\<not> bit w k" if "i \<le> k" for k
      using that False bit_imp_le_length [of w k] by (auto simp: WORD_BITS_def)
    then show ?thesis using False by (subst alloc_offset.simps) auto
  qed
qed

lemma word_eq_0_bits: "(w :: 32 word) = 0 \<longleftrightarrow> (\<forall>k. \<not> bit w k)"
  by (metis bit_0_eq bit_eqI bot_apply bot_bool_def)

lemma alloc_scan_spec:
  "\<exists>r ws'. alloc_scan ws ix = Some (r, ws') \<and> length ws' = length ws \<and>
     (case r of
        None \<Rightarrow> list_bits ws = {} \<and> ws' = ws
      | Some n \<Rightarrow> \<exists>m. n = ix * 32 + m \<and> m \<in> list_bits ws \<and> (\<forall>j\<in>list_bits ws. m \<le> j) \<and>
          list_bits ws' = list_bits ws - {m})"
proof (induction ws arbitrary: ix)
  case (Cons w ws)
  show ?case
  proof (cases "w = 0")
    case False
    define m where "m = (LEAST k. bit w k)"
    obtain k where k: "bit w k" using False word_eq_0_bits by blast
    have m: "bit w m" "\<And>j. bit w j \<Longrightarrow> m \<le> j" unfolding m_def using k by (auto intro: LeastI Least_le)
    have m32: "m < 32" using bit_imp_le_length [OF m(1)] by simp
    have "alloc_offset w 0 = Some m" using k by (auto simp: alloc_offset_spec m_def)
    then have "alloc_scan (w # ws) ix = Some (Some (ix * 32 + m), (w XOR push_bit m 1) # ws)"
      using False by (simp add: WORD_BITS_def)
    moreover have "\<forall>j\<in>list_bits (w # ws). m \<le> j" "m \<in> list_bits (w # ws)"
      using m m32 by (auto simp: list_bits_Cons split: if_splits)
    moreover have "list_bits ((w XOR push_bit m 1) # ws) = list_bits (w # ws) - {m}"
      using m(1) m32 xor_bit [of w m] by (auto simp: list_bits_Cons split: if_splits)
    ultimately show ?thesis by auto
  next
    case True
    obtain r ws' where r: "alloc_scan ws (Suc ix) = Some (r, ws')" "length ws' = length ws"
        "case r of None \<Rightarrow> list_bits ws = {} \<and> ws' = ws
         | Some n \<Rightarrow> \<exists>m. n = Suc ix * 32 + m \<and> m \<in> list_bits ws \<and> (\<forall>j\<in>list_bits ws. m \<le> j) \<and>
             list_bits ws' = list_bits ws - {m}"
      using Cons.IH by blast
    have al: "alloc_scan (w # ws) ix = Some (r, w # ws')" using True r(1) by simp
    have mem: "i \<in> list_bits (w # us) \<longleftrightarrow> 32 \<le> i \<and> i - 32 \<in> list_bits us" for i us
      using True by (simp add: list_bits_Cons)
    show ?thesis
    proof (cases r)
      case None
      with r(3) have "list_bits (w # ws) = {}" "ws' = ws" using mem by auto
      with al None show ?thesis by auto
    next
      case (Some n)
      with r(3) obtain m where m: "n = Suc ix * 32 + m" "m \<in> list_bits ws" "\<forall>j\<in>list_bits ws. m \<le> j"
        "list_bits ws' = list_bits ws - {m}" by auto
      have "n = ix * 32 + (m + 32)" using m(1) by simp
      moreover have "m + 32 \<in> list_bits (w # ws)" using m(2) mem by simp
      moreover have "\<forall>j\<in>list_bits (w # ws). m + 32 \<le> j" using m(3) mem by fastforce
      moreover have "i \<in> list_bits (w # ws') \<longleftrightarrow> i \<in> list_bits (w # ws) - {m + 32}" for i
        using mem m(4) by auto
      ultimately show ?thesis using al Some r(2) by fastforce
    qed
  qed
qed simp

lemma list_bits_update:
  assumes "i div 32 < length ws"
  shows "list_bits (ws[i div 32 := ws ! (i div 32) OR push_bit (i mod 32) 1]) = insert i (list_bits ws)"
proof -
  have "j \<in> list_bits (ws[i div 32 := ws ! (i div 32) OR push_bit (i mod 32) 1]) \<longleftrightarrow> j = i \<or> j \<in> list_bits ws" for j
  proof (cases "j div 32 = i div 32")
    case True
    have "j mod 32 = i mod 32 \<longleftrightarrow> j = i" using True by (metis div_mult_mod_eq)
    then show ?thesis using assms True by (auto simp: list_bits_def bit_simps)
  qed (auto simp: list_bits_def)
  then show ?thesis by blast
qed

lemma free_bits_div: "bitmap_inv b \<Longrightarrow> i < nbits b \<Longrightarrow> i div 32 < length (words b)"
  by (auto simp: bitmap_inv_def)

lemma bitmap_test_iff:
  assumes "bitmap_inv b"
  shows "bitmap_test b i = (if i < nbits b then Some (i \<in> free_bits b) else None)"
proof -
  have "words b ! (i div 32) AND push_bit (i mod 32) 1 \<noteq> 0 \<longleftrightarrow> bit (words b ! (i div 32)) (i mod 32)"
    by (rule mask_test)
  then show ?thesis using free_bits_div [OF assms, of i]
    by (simp add: bitmap_test_def bitmap_translate_def kassert_def WORD_BITS_def free_bits_def del: push_bit_of_1)
qed

lemma bitmap_alloc_cases:
  assumes "bitmap_inv b"
  shows "if free_bits b = {} then bitmap_alloc b = Some (- E_NO_MEM, 0, b)
         else \<exists>b'. bitmap_alloc b = Some (0, (LEAST i. i \<in> free_bits b), b') \<and>
           nbits b' = nbits b \<and> free_bits b' = free_bits b - {LEAST i. i \<in> free_bits b} \<and> bitmap_inv b'"
proof -
  obtain r ws' where r: "alloc_scan (words b) 0 = Some (r, ws')" "length ws' = length (words b)"
     "case r of
        None \<Rightarrow> list_bits (words b) = {} \<and> ws' = words b
      | Some n \<Rightarrow> \<exists>m. n = 0 * 32 + m \<and> m \<in> list_bits (words b) \<and> (\<forall>j\<in>list_bits (words b). m \<le> j) \<and>
          list_bits ws' = list_bits (words b) - {m}"
    using alloc_scan_spec [of "words b" 0] by blast
  show ?thesis
  proof (cases r)
    case None
    with r(3) show ?thesis by (simp add: bitmap_alloc_def r(1) free_bits_words)
  next
    case (Some n)
    with r(3) have n: "n \<in> free_bits b" "\<forall>j\<in>free_bits b. n \<le> j" "list_bits ws' = free_bits b - {n}"
      by (auto simp: free_bits_words)
    have L: "(LEAST i. i \<in> free_bits b) = n" using n by (intro Least_equality) auto
    have "free_bits (b\<lparr>words := ws'\<rparr>) = free_bits b - {n}" using n(3) by (simp add: free_bits_words)
    moreover from this have "bitmap_inv (b\<lparr>words := ws'\<rparr>)" using assms r(2) by (auto simp: bitmap_inv_def)
    ultimately show ?thesis using n(1) unfolding L by (auto simp: bitmap_alloc_def r(1) Some)
  qed
qed

lemma bitmap_free_cases:
  assumes "bitmap_inv b"
  shows "if i < nbits b \<and> i \<notin> free_bits b
         then \<exists>b'. bitmap_free b i = Some b' \<and> nbits b' = nbits b \<and> free_bits b' = insert i (free_bits b) \<and> bitmap_inv b'
         else bitmap_free b i = None"
proof -
  have m: "words b ! (i div 32) AND push_bit (i mod 32) 1 = 0 \<longleftrightarrow> \<not> bit (words b ! (i div 32)) (i mod 32)"
    using mask_test by blast
  show ?thesis
  proof (cases "i < nbits b")
    case True
    let ?b = "b\<lparr>words := (words b)[i div 32 := words b ! (i div 32) OR push_bit (i mod 32) 1]\<rparr>"
    have d: "i div 32 < length (words b)" using free_bits_div [OF assms True] .
    have e: "free_bits ?b = insert i (free_bits b)" using list_bits_update [OF d] by (simp add: free_bits_words)
    then have "bitmap_inv ?b" using assms True by (auto simp: bitmap_inv_def)
    moreover have "bitmap_free b i = (if i \<in> free_bits b then None else Some ?b)"
      using m True d by (simp add: bitmap_free_def bitmap_translate_def kassert_def WORD_BITS_def free_bits_def del: push_bit_of_1)
    ultimately show ?thesis using e True by (cases "i \<in> free_bits b") auto
  next
    case False
    then show ?thesis by (simp add: bitmap_free_def bitmap_translate_def kassert_def)
  qed
qed

lemma list_bits_ones: "list_bits (replicate k (- 1)) = {i. i < k * 32}"
proof -
  have "i div 32 < k \<and> bit (replicate k (- 1 :: 32 word) ! (i div 32)) (i mod 32) \<longleftrightarrow> i < k * 32" for i
    by (auto simp: less_mult_imp_div_less div_less_iff_less_mult)
  then show ?thesis by (simp add: list_bits_def)
qed

lemma ROUNDUP_DIV_32: "n < 2 ^ 32 \<Longrightarrow> ROUNDUP_DIV n 32 = (n + 31) div 32"
  by (simp add: ROUNDUP_DIV_def u64_def)

lemma bitmap_create_cases:
  assumes "n \<noteq> 0" "n < 2 ^ 32"
  shows "\<exists>b. bitmap_create True True n = Some (Some b) \<and> nbits b = n \<and> free_bits b = {i. i < n} \<and> bitmap_inv b"
proof -
  define k where "k = (n + 31) div 32"
  have k: "ROUNDUP_DIV n WORD_BITS = k" using ROUNDUP_DIV_32 [OF assms(2)] by (simp add: k_def WORD_BITS_def)
  show ?thesis
  proof (cases "n = k * 32")
    case True
    let ?b = "\<lparr>nbits = n, nwords = k, words = replicate k (- 1)\<rparr>"
    have "free_bits ?b = {i. i < n}" using True by (simp add: free_bits_words list_bits_ones)
    then show ?thesis using True assms k by (simp add: bitmap_create_def kassert_def WORD_BITS_def bitmap_inv_def Let_def)
  next
    case False
    let ?ov = "n - (k - 1) * 32" and ?m = "replicate k (- 1 :: 32 word)"
    let ?ws = "?m[k - 1 := clear_over ?ov (?m ! (k - 1))]"
    have b: "n div 32 = k - 1" "k \<noteq> 0" "0 < ?ov" "?ov < 32" "n = (k - 1) * 32 + ?ov"
    proof -
      have r: "n mod 32 \<noteq> 0"
      proof
        assume "n mod 32 = 0"
        then obtain q where "n = 32 * q" by (metis mod_0_imp_dvd dvdE)
        then show False using False by (simp add: k_def)
      qed
      have q: "n = n div 32 * 32 + n mod 32" by simp
      have "k = n div 32 + 1" using r q unfolding k_def by linarith
      then have k1: "k - 1 = n div 32" "k \<noteq> 0" by auto
      then have "?ov = n mod 32" by (simp add: minus_div_mult_eq_mod)
      then show "n div 32 = k - 1" "k \<noteq> 0" "0 < ?ov" "?ov < 32" "n = (k - 1) * 32 + ?ov"
        using r k1 by simp_all
    qed
    have "i \<in> list_bits ?ws \<longleftrightarrow> i < n" for i
    proof -
      consider "i div 32 < k - 1" | "i div 32 = k - 1" | "i div 32 > k - 1" by linarith
      then show ?thesis
      proof cases
        case 1
        then have "i < n" using b(5) by linarith
        then show ?thesis using 1 by (simp add: list_bits_def)
      next
        case 2
        have "i = (k - 1) * 32 + i mod 32" using 2 by (metis div_mult_mod_eq)
        then have "i < n \<longleftrightarrow> i mod 32 < ?ov" using b(5) by linarith
        then show ?thesis using 2 b by (simp add: list_bits_def clear_over_bit)
      next
        case 3
        then have "\<not> i < n" "\<not> i div 32 < k" using b(1) div_le_mono [of i n 32] by auto
        then show ?thesis by (simp add: list_bits_def)
      qed
    qed
    then have "list_bits ?ws = {i. i < n}" by blast
    then have fb: "free_bits \<lparr>nbits = n, nwords = k, words = ?ws\<rparr> = {i. i < n}" by (simp add: free_bits_words)
    have "bitmap_create True True n = Some (Some \<lparr>nbits = n, nwords = k, words = ?ws\<rparr>)"
      unfolding bitmap_create_def Let_def k using False assms b by (simp add: kassert_def WORD_BITS_def)
    then show ?thesis using fb by (auto simp: bitmap_inv_def k_def)
  qed
qed


section \<open>Properties\<close>

text \<open>On a well-formed bitmap with at least one free block, \<open>bitmap_alloc\<close> returns 0 and the
  least free index, takes exactly that index out of the set of free blocks and keeps the bitmap
  well-formed; with no free block it returns \<open>-E_NO_MEM\<close> and changes nothing. It never
  reaches its \<open>assert(0)\<close>.\<close>

theorem bitmap_alloc_least:
  assumes "bitmap_inv b"
  shows "if free_bits b = {} then bitmap_alloc b = Some (- E_NO_MEM, 0, b)
         else \<exists>b'. bitmap_alloc b = Some (0, (LEAST i. i \<in> free_bits b), b') \<and>
           nbits b' = nbits b \<and> free_bits b' = free_bits b - {LEAST i. i \<in> free_bits b} \<and> bitmap_inv b'"
  by (rule bitmap_alloc_cases [OF assms])

lemma example_bitmap: "free_bits \<lparr>nbits = 3, nwords = 1, words = [6]\<rparr> = {1, 2}"
proof -
  have "bit (6 :: 32 word) i \<longleftrightarrow> i = 1 \<or> i = 2" for i
  proof -
    have "(6 :: 32 word) = push_bit 1 1 OR push_bit 2 1" by simp
    moreover have "bit (push_bit 1 1 OR push_bit 2 1 :: 32 word) i \<longleftrightarrow> i = 1 \<or> i = 2"
      by (auto simp: bit_simps simp del: push_bit_of_1)
    ultimately show ?thesis by metis
  qed
  then have "i \<in> free_bits \<lparr>nbits = 3, nwords = 1, words = [6]\<rparr> \<longleftrightarrow> i = 1 \<or> i = 2" for i
    by (auto simp: free_bits_words list_bits_Cons)
  then show ?thesis by blast
qed

lemma example_bitmap_inv: "bitmap_inv \<lparr>nbits = 3, nwords = 1, words = [6]\<rparr>"
  unfolding bitmap_inv_def example_bitmap by simp

theorem bitmap_alloc_least_witness:
  "\<exists>b'. bitmap_alloc \<lparr>nbits = 3, nwords = 1, words = [6]\<rparr> = Some (0, 1, b') \<and> free_bits b' = {2}"
proof -
  have L: "(LEAST i. i \<in> {1, 2 :: nat}) = 1" by (rule Least_equality) auto
  show ?thesis using bitmap_alloc_least [OF example_bitmap_inv] unfolding example_bitmap L by auto
qed

text \<open>\<open>bitmap_create\<close> of \<open>n\<close> blocks makes a well-formed bitmap in which exactly the
  blocks below \<open>n\<close> are free (the leftover bits of the last word are marked used), and after
  \<open>bitmap_free\<close> of an index that is in range and in use exactly that index has become free;
  \<open>bitmap_free\<close> of a free or out-of-range index is an assertion failure.\<close>

theorem bitmap_create_free:
  assumes "0 < n" "n < 2 ^ 32" "bitmap_inv b"
  shows "(\<exists>c. bitmap_create True True n = Some (Some c) \<and> nbits c = n \<and> free_bits c = {i. i < n} \<and> bitmap_inv c) \<and>
    (if i < nbits b \<and> i \<notin> free_bits b
     then \<exists>b'. bitmap_free b i = Some b' \<and> nbits b' = nbits b \<and> free_bits b' = insert i (free_bits b) \<and> bitmap_inv b'
     else bitmap_free b i = None)"
  using bitmap_create_cases [of n] bitmap_free_cases [OF assms(3), of i] assms(1,2) by blast

theorem bitmap_create_free_witness:
  "(\<exists>c. bitmap_create True True 5 = Some (Some c) \<and> nbits c = 5 \<and> free_bits c = {i. i < 5} \<and> bitmap_inv c) \<and>
   (\<exists>b'. bitmap_free \<lparr>nbits = 3, nwords = 1, words = [6]\<rparr> 0 = Some b' \<and> free_bits b' = {0, 1, 2})"
  using bitmap_create_free [OF _ _ example_bitmap_inv, of 5 0]
  unfolding example_bitmap by auto

end
