(* ===== verification/Disk.thy ===== *)
theory Disk
  imports Prelude
begin

text \<open>
  The block device under the file system: I/O buffers (lab8/kern/fs/iobuf.c), the
  RAM disk behind the IDE interface (lab8/kern/driver/ramdisk.c, ide.c) and the
  device \<open>disk0\<close> (lab8/kern/fs/devs/dev_disk0.c).

  A memory object (a caller's buffer, the buffer of disk0, the disk image) is the list
  of its bytes and a pointer into it is an offset; copying outside an object is
  undefined behaviour in C and \<open>None\<close> here. The semaphores around the
  device are those of \<open>Sync\<close>; each operation here is one critical section.
\<close>

section \<open>Bytes\<close>

type_synonym bytes = "8 word list"

definition seg :: "nat \<Rightarrow> nat \<Rightarrow> 'a list \<Rightarrow> 'a list" where
  "seg off n xs = take n (drop off xs)"

definition blit :: "'a list \<Rightarrow> nat \<Rightarrow> 'a list \<Rightarrow> 'a list" where
  "blit xs off ys = take off xs @ ys @ drop (off + length ys) xs"

definition mem_get :: "bytes \<Rightarrow> nat \<Rightarrow> nat \<Rightarrow> bytes option" where
  "mem_get xs off n = (if off + n \<le> length xs then Some (seg off n xs) else None)"

definition mem_put :: "bytes \<Rightarrow> nat \<Rightarrow> bytes \<Rightarrow> bytes option" where
  "mem_put xs off ys = (if off + length ys \<le> length xs then Some (blit xs off ys) else None)"

lemma length_seg [simp]: "length (seg off n xs) = min n (length xs - off)"
  by (simp add: seg_def)

lemma seg_0_all: "length xs = n \<Longrightarrow> seg 0 n xs = xs"
  by (simp add: seg_def)

lemma nth_seg [simp]: "off + n \<le> length xs \<Longrightarrow> i < n \<Longrightarrow> seg off n xs ! i = xs ! (off + i)"
  by (simp add: seg_def)

lemma length_blit [simp]: "off + length ys \<le> length xs \<Longrightarrow> length (blit xs off ys) = length xs"
  by (simp add: blit_def)

lemma nth_blit:
  assumes "off + length ys \<le> length xs"
  shows "blit xs off ys ! i = (if off \<le> i \<and> i < off + length ys then ys ! (i - off) else xs ! i)"
proof -
  consider "i < off" | "off \<le> i" "i < off + length ys" | "off + length ys \<le> i" by linarith
  then show ?thesis
  proof cases
    case 1
    then show ?thesis using assms by (simp add: blit_def nth_append)
  next
    case 2
    then have "i - off < length ys" by linarith
    then show ?thesis using assms 2 by (simp add: blit_def nth_append)
  next
    case 3
    then have "\<not> i - off < length ys" "i - off - length ys + (off + length ys) = i" by linarith+
    then show ?thesis using assms 3 by (simp add: blit_def nth_append add.commute)
  qed
qed

lemma seg_blit_same: "off + length ys \<le> length xs \<Longrightarrow> seg off (length ys) (blit xs off ys) = ys"
  by (simp add: seg_def blit_def)

lemma seg_blit_other:
  assumes "off + length ys \<le> length xs" "a + n \<le> length xs" "a + n \<le> off \<or> off + length ys \<le> a"
  shows "seg a n (blit xs off ys) = seg a n xs"
proof (rule nth_equalityI)
  fix i assume "i < length (seg a n (blit xs off ys))"
  then have "i < n" using assms by simp
  then show "seg a n (blit xs off ys) ! i = seg a n xs ! i"
    using assms by (auto simp: nth_blit)
qed (use assms in simp)

lemma blit_all: "length ys = length xs \<Longrightarrow> blit xs 0 ys = ys"
  by (simp add: blit_def)

section \<open>I/O buffers\<close>

text \<open>\<open>io_buf\<close> is the object \<open>io_base\<close> points into.\<close>

record iobuf =
  io_buf :: bytes
  io_base :: nat
  io_offset :: int
  io_len :: nat
  io_resid :: nat

definition iobuf_init :: "bytes \<Rightarrow> nat \<Rightarrow> nat \<Rightarrow> int \<Rightarrow> iobuf" where
  "iobuf_init buf base len off =
     \<lparr>io_buf = buf, io_base = base, io_offset = off, io_len = len, io_resid = len\<rparr>"

definition iobuf_used :: "iobuf \<Rightarrow> nat" where
  "iobuf_used iob = u64 (io_len iob + 2 ^ 64 - io_resid iob)"

definition iobuf_skip :: "iobuf \<Rightarrow> nat \<Rightarrow> iobuf option" where
  "iobuf_skip iob n = do {
     kassert (io_resid iob \<ge> n);
     Some (iob\<lparr>io_base := io_base iob + n, io_offset := io_offset iob + int n, io_resid := io_resid iob - n\<rparr>) }"

text \<open>Result: return code, \<open>*copiedp\<close>, the I/O buffer and the data.\<close>

definition iobuf_move :: "iobuf \<Rightarrow> bytes \<Rightarrow> nat \<Rightarrow> bool \<Rightarrow> (int \<times> nat \<times> iobuf \<times> bytes) option" where
  "iobuf_move iob data len m2b =
     (let alen = (if io_resid iob > len then len else io_resid iob) in do {
        (iob, data, len) \<leftarrow>
          (if alen > 0
           then if m2b
             then do {
               src \<leftarrow> mem_get data 0 alen;
               buf \<leftarrow> mem_put (io_buf iob) (io_base iob) src;
               iob \<leftarrow> iobuf_skip (iob\<lparr>io_buf := buf\<rparr>) alen;
               Some (iob, data, len - alen) }
             else do {
               src \<leftarrow> mem_get (io_buf iob) (io_base iob) alen;
               data \<leftarrow> mem_put data 0 src;
               iob \<leftarrow> iobuf_skip iob alen;
               Some (iob, data, len - alen) }
           else Some (iob, data, len));
        Some (if len = 0 then 0 else - E_NO_MEM, alen, iob, data) })"

definition iobuf_move_zeros :: "iobuf \<Rightarrow> nat \<Rightarrow> (int \<times> nat \<times> iobuf) option" where
  "iobuf_move_zeros iob len =
     (let alen = (if io_resid iob > len then len else io_resid iob) in do {
        (iob, len) \<leftarrow>
          (if alen > 0
           then do {
             buf \<leftarrow> mem_put (io_buf iob) (io_base iob) (replicate alen 0);
             iob \<leftarrow> iobuf_skip (iob\<lparr>io_buf := buf\<rparr>) alen;
             Some (iob, len - alen) }
           else Some (iob, len));
        Some (if len = 0 then 0 else - E_NO_MEM, alen, iob) })"

section \<open>RAM disk and IDE interface\<close>

definition SECTSIZE :: nat where "SECTSIZE = 512"
definition MAX_NSECS :: nat where "MAX_NSECS = 128"
definition MAX_DISK_NSECS :: nat where "MAX_DISK_NSECS = 0x10000000"

text \<open>The entry of \<open>ide_devices\<close> for disk0 with the image it serves, and the
  \<open>struct device\<close> of disk0 with its bounce buffer.\<close>

record disk =
  valid :: bool
  ide_size :: nat
  img :: bytes
  d_blocks :: nat
  d_blocksize :: nat
  disk0_buffer :: bytes

definition ramdisk_init :: "disk \<Rightarrow> bytes \<Rightarrow> disk" where
  "ramdisk_init dk initrd =
     (if initrd = [] then dk\<lparr>valid := False, ide_size := 0, img := []\<rparr>
      else dk\<lparr>valid := True, ide_size := u32 (length initrd) div SECTSIZE, img := initrd\<rparr>)"

text \<open>The test \<open>nsecs < 0\<close> of the code is on an unsigned value and never holds.\<close>

definition ramdisk_read :: "disk \<Rightarrow> nat \<Rightarrow> bytes \<Rightarrow> nat \<Rightarrow> (int \<times> bytes) option" where
  "ramdisk_read dk secno dst nsecs =
     (let nsecs = min nsecs (u64 (ide_size dk + 2 ^ 64 - secno)) in do {
        src \<leftarrow> mem_get (img dk) (secno * SECTSIZE) (nsecs * SECTSIZE);
        dst \<leftarrow> mem_put dst 0 src;
        Some (0, dst) })"

definition ramdisk_write :: "disk \<Rightarrow> nat \<Rightarrow> bytes \<Rightarrow> nat \<Rightarrow> (int \<times> disk) option" where
  "ramdisk_write dk secno src nsecs =
     (let nsecs = min nsecs (u64 (ide_size dk + 2 ^ 64 - secno)) in do {
        src \<leftarrow> mem_get src 0 (nsecs * SECTSIZE);
        im \<leftarrow> mem_put (img dk) (secno * SECTSIZE) src;
        Some (0, dk\<lparr>img := im\<rparr>) })"

definition ide_device_size :: "disk \<Rightarrow> nat" where
  "ide_device_size dk = (if valid dk then ide_size dk else 0)"

definition ide_read_secs :: "disk \<Rightarrow> nat \<Rightarrow> bytes \<Rightarrow> nat \<Rightarrow> (int \<times> bytes) option" where
  "ide_read_secs dk secno dst nsecs = do {
     kassert (nsecs \<le> MAX_NSECS \<and> valid dk);
     kassert (secno < MAX_DISK_NSECS \<and> secno + nsecs \<le> MAX_DISK_NSECS);
     ramdisk_read dk secno dst nsecs }"

definition ide_write_secs :: "disk \<Rightarrow> nat \<Rightarrow> bytes \<Rightarrow> nat \<Rightarrow> (int \<times> disk) option" where
  "ide_write_secs dk secno src nsecs = do {
     kassert (nsecs \<le> MAX_NSECS \<and> valid dk);
     kassert (secno < MAX_DISK_NSECS \<and> secno + nsecs \<le> MAX_DISK_NSECS);
     ramdisk_write dk secno src nsecs }"

section \<open>The device disk0\<close>

definition DISK0_BLKSIZE :: nat where "DISK0_BLKSIZE = 4096"
definition DISK0_BUFSIZE :: nat where "DISK0_BUFSIZE = 4 * DISK0_BLKSIZE"
definition DISK0_BLK_NSECT :: nat where "DISK0_BLK_NSECT = DISK0_BLKSIZE div SECTSIZE"

definition disk0_read_blks_nolock :: "disk \<Rightarrow> nat \<Rightarrow> nat \<Rightarrow> disk option" where
  "disk0_read_blks_nolock dk blkno nblks =
     (let sectno = u32 (blkno * DISK0_BLK_NSECT); nsecs = u32 (nblks * DISK0_BLK_NSECT) in do {
        (ret, buf) \<leftarrow> ide_read_secs dk sectno (disk0_buffer dk) nsecs;
        kassert (ret = 0);
        Some (dk\<lparr>disk0_buffer := buf\<rparr>) })"

definition disk0_write_blks_nolock :: "disk \<Rightarrow> nat \<Rightarrow> nat \<Rightarrow> disk option" where
  "disk0_write_blks_nolock dk blkno nblks =
     (let sectno = u32 (blkno * DISK0_BLK_NSECT); nsecs = u32 (nblks * DISK0_BLK_NSECT) in do {
        (ret, dk) \<leftarrow> ide_write_secs dk sectno (disk0_buffer dk) nsecs;
        kassert (ret = 0);
        Some dk })"

function disk0_loop :: "disk \<Rightarrow> iobuf \<Rightarrow> bool \<Rightarrow> nat \<Rightarrow> nat \<Rightarrow> (disk \<times> iobuf) option" where
  "disk0_loop dk iob wr blkno resid =
     (if resid \<noteq> 0
      then if wr
        then do {
          (_, copied, iob, buf) \<leftarrow> iobuf_move iob (disk0_buffer dk) DISK0_BUFSIZE False;
          kassert (copied \<noteq> 0 \<and> copied \<le> resid \<and> copied mod DISK0_BLKSIZE = 0);
          dk \<leftarrow> disk0_write_blks_nolock (dk\<lparr>disk0_buffer := buf\<rparr>) blkno (copied div DISK0_BLKSIZE);
          disk0_loop dk iob wr (u32 (blkno + copied div DISK0_BLKSIZE)) (resid - copied) }
        else let alen = (if DISK0_BUFSIZE > resid then resid else DISK0_BUFSIZE) in do {
          dk \<leftarrow> disk0_read_blks_nolock dk blkno (alen div DISK0_BLKSIZE);
          (_, copied, iob, buf) \<leftarrow> iobuf_move iob (disk0_buffer dk) alen True;
          kassert (copied = alen \<and> copied mod DISK0_BLKSIZE = 0);
          disk0_loop (dk\<lparr>disk0_buffer := buf\<rparr>) iob wr (u32 (blkno + alen div DISK0_BLKSIZE)) (resid - copied) }
      else Some (dk, iob))"
  by pat_completeness auto
termination disk0_loop
  by (relation "measure (\<lambda>(dk, iob, wr, blkno, resid). resid)")
     (auto simp: DISK0_BUFSIZE_def DISK0_BLKSIZE_def)

declare disk0_loop.simps [simp del]

definition disk0_io :: "disk \<Rightarrow> iobuf \<Rightarrow> bool \<Rightarrow> (int \<times> disk \<times> iobuf) option" where
  "disk0_io dk iob wr =
     (let offset = io_offset iob; resid = io_resid iob;
          blkno = nat ((offset div int DISK0_BLKSIZE) mod 2 ^ 32);
          nblks = u32 (resid div DISK0_BLKSIZE)
      in if offset mod int DISK0_BLKSIZE \<noteq> 0 \<or> resid mod DISK0_BLKSIZE \<noteq> 0 then Some (- E_INVAL, dk, iob)
      else if u32 (blkno + nblks) > d_blocks dk then Some (- E_INVAL, dk, iob)
      else if nblks = 0 then Some (0, dk, iob)
      else do {
        (dk, iob) \<leftarrow> disk0_loop dk iob wr blkno resid;
        Some (0, dk, iob) })"

definition disk0_device_init :: "disk \<Rightarrow> bytes \<Rightarrow> disk option" where
  "disk0_device_init dk buf = do {
     kassert (valid dk);
     Some (dk\<lparr>d_blocks := ide_device_size dk div DISK0_BLK_NSECT, d_blocksize := DISK0_BLKSIZE,
              disk0_buffer := buf\<rparr>) }"


lemma seg_append: "a + n + m \<le> length xs \<Longrightarrow> seg a n xs @ seg (a + n) m xs = seg a (n + m) xs"
  by (simp add: seg_def take_add add.commute [of a n])

lemma blit_blit_append:
  "off + length ys + length zs \<le> length xs \<Longrightarrow>
   blit (blit xs off ys) (off + length ys) zs = blit xs off (ys @ zs)"
  by (simp add: blit_def ac_simps)

lemma seg_Nil [simp]: "seg a 0 xs = []"
  by (simp add: seg_def)

lemma blit_Nil [simp]: "blit xs off [] = xs"
  by (simp add: blit_def)

lemma seg_seg: "i + m \<le> n \<Longrightarrow> seg i m (seg a n xs) = seg (a + i) m xs"
  by (simp add: seg_def drop_take add.commute)

lemma seg_blit_prefix: "off = 0 \<Longrightarrow> length ys \<le> length xs \<Longrightarrow> n \<le> length ys \<Longrightarrow> seg off n (blit xs 0 ys) = seg off n ys"
  by (simp add: seg_def blit_def)

lemma mem_get_Some: "mem_get xs off n = Some ys \<longleftrightarrow> off + n \<le> length xs \<and> ys = seg off n xs"
  by (auto simp: mem_get_def)

lemma mem_put_Some: "mem_put xs off ys = Some zs \<longleftrightarrow> off + length ys \<le> length xs \<and> zs = blit xs off ys"
  by (auto simp: mem_put_def)

section \<open>Specification of the device\<close>

text \<open>A disk whose image holds \<open>d_blocks\<close> blocks that the IDE interface can address.\<close>

definition disk_ok :: "disk \<Rightarrow> bool" where
  "disk_ok dk \<longleftrightarrow> valid dk \<and> d_blocks dk * 8 \<le> ide_size dk \<and> ide_size dk < 2 ^ 32 \<and>
     ide_size dk * 512 \<le> length (img dk) \<and> d_blocks dk * 8 \<le> MAX_DISK_NSECS \<and>
     length (disk0_buffer dk) = 16384"

lemmas disk_consts = SECTSIZE_def MAX_NSECS_def MAX_DISK_NSECS_def DISK0_BLKSIZE_def DISK0_BUFSIZE_def DISK0_BLK_NSECT_def

lemma disk_ok_blocks:
  assumes "disk_ok dk" "b + n \<le> d_blocks dk"
  shows "b * 8 < 2 ^ 32" "4096 * b + 4096 * n \<le> length (img dk)" "b * 8 + n * 8 \<le> MAX_DISK_NSECS"
    "b * 8 + n * 8 \<le> ide_size dk"
  using assms by (auto simp: disk_ok_def MAX_DISK_NSECS_def)

lemma disk0_read_blks:
  assumes "disk_ok dk" "b + n \<le> d_blocks dk" "0 < n" "n \<le> 4"
  shows "disk0_read_blks_nolock dk b n =
    Some (dk\<lparr>disk0_buffer := blit (disk0_buffer dk) 0 (seg (4096 * b) (4096 * n) (img dk))\<rparr>)"
proof -
  note f = disk_ok_blocks [OF assms(1,2)]
  have m: "min (n * 8) (u64 (ide_size dk + 2 ^ 64 - b * 8)) = n * 8"
    using f u64_sub [of "b * 8" "ide_size dk"] assms(1) by (simp add: disk_ok_def)
  have "u32 (b * 8) = b * 8" "u32 (n * 8) = n * 8" using f assms by simp_all
  moreover have "b * 8 < 268435456" using f(3) assms(3) by (simp add: MAX_DISK_NSECS_def)
  ultimately show ?thesis using f m assms
    by (simp add: disk0_read_blks_nolock_def ide_read_secs_def ramdisk_read_def disk_consts disk_ok_def
        kassert_def mem_get_def mem_put_def Let_def)
qed

lemma disk0_write_blks:
  assumes "disk_ok dk" "b + n \<le> d_blocks dk" "0 < n" "n \<le> 4"
  shows "disk0_write_blks_nolock dk b n =
    Some (dk\<lparr>img := blit (img dk) (4096 * b) (seg 0 (4096 * n) (disk0_buffer dk))\<rparr>)"
proof -
  note f = disk_ok_blocks [OF assms(1,2)]
  have m: "min (n * 8) (u64 (ide_size dk + 2 ^ 64 - b * 8)) = n * 8"
    using f u64_sub [of "b * 8" "ide_size dk"] assms(1) by (simp add: disk_ok_def)
  have "u32 (b * 8) = b * 8" "u32 (n * 8) = n * 8" using f assms by simp_all
  moreover have "b * 8 < 268435456" using f(3) assms(3) by (simp add: MAX_DISK_NSECS_def)
  ultimately show ?thesis using f m assms
    by (simp add: disk0_write_blks_nolock_def ide_write_secs_def ramdisk_write_def disk_consts disk_ok_def
        kassert_def mem_get_def mem_put_def Let_def)
qed

lemma iobuf_move_in:
  assumes "0 < n" "n \<le> io_resid iob" "io_base iob + io_resid iob \<le> length (io_buf iob)" "n \<le> length data"
  shows "iobuf_move iob data n True =
    Some (0, n, iob\<lparr>io_buf := blit (io_buf iob) (io_base iob) (seg 0 n data), io_base := io_base iob + n,
      io_offset := io_offset iob + int n, io_resid := io_resid iob - n\<rparr>, data)"
  using assms by (auto simp: iobuf_move_def mem_get_def mem_put_def iobuf_skip_def Let_def)

lemma iobuf_move_out:
  assumes "0 < io_resid iob" "io_base iob + io_resid iob \<le> length (io_buf iob)" "len \<le> length data" "0 < len"
  shows "iobuf_move iob data len False =
    (let n = min len (io_resid iob) in
     Some (if len = n then 0 else - E_NO_MEM, n, iob\<lparr>io_base := io_base iob + n,
       io_offset := io_offset iob + int n, io_resid := io_resid iob - n\<rparr>, blit data 0 (seg (io_base iob) n (io_buf iob))))"
  using assms by (auto simp: iobuf_move_def mem_get_def mem_put_def iobuf_skip_def Let_def min_def)

lemma disk0_loop_read:
  assumes "disk_ok dk" "b + n \<le> d_blocks dk" "io_resid iob = 4096 * n"
    "io_base iob + io_resid iob \<le> length (io_buf iob)"
  shows "\<exists>buf. disk0_loop dk iob False b (4096 * n) =
    Some (dk\<lparr>disk0_buffer := buf\<rparr>, iob\<lparr>io_buf := blit (io_buf iob) (io_base iob) (seg (4096 * b) (4096 * n) (img dk)),
      io_base := io_base iob + 4096 * n, io_offset := io_offset iob + int (4096 * n), io_resid := 0\<rparr>) \<and>
      length buf = 16384"
  using assms
proof (induction n arbitrary: dk iob b rule: less_induct)
  case (less n)
  show ?case
  proof (cases "n = 0")
    case True
    have "iob\<lparr>io_buf := io_buf iob, io_base := io_base iob, io_offset := io_offset iob, io_resid := 0\<rparr> = iob"
      using less.prems(3) True by simp
    then show ?thesis using True less.prems(1)
      by (subst disk0_loop.simps) (auto simp: disk_ok_def intro!: exI [of _ "disk0_buffer dk"])
  next
    case False
    define k where "k = min n 4"
    have k: "0 < k" "k \<le> 4" "k \<le> n" using False by (auto simp: k_def)
    define al where "al = 4096 * k"
    have al: "(if DISK0_BUFSIZE > 4096 * n then 4096 * n else DISK0_BUFSIZE) = al"
      by (auto simp: al_def k_def disk_consts)
    have bk: "b + k \<le> d_blocks dk" using less.prems(2) k by simp
    let ?s = "seg (4096 * b) al (img dk)"
    let ?buf = "blit (disk0_buffer dk) 0 ?s"
    have len: "length ?s = al" using disk_ok_blocks(2) [OF less.prems(1) bk] by (simp add: al_def)
    have lb: "length (disk0_buffer dk) = 16384" using less.prems(1) by (simp add: disk_ok_def)
    have lbuf: "length ?buf = 16384" using len lb k by (simp add: al_def)
    let ?dk = "dk\<lparr>disk0_buffer := ?buf\<rparr>"
    let ?iob = "iob\<lparr>io_buf := blit (io_buf iob) (io_base iob) ?s, io_base := io_base iob + al,
      io_offset := io_offset iob + int al, io_resid := io_resid iob - al\<rparr>"
    have rd: "disk0_read_blks_nolock dk b (al div DISK0_BLKSIZE) = Some ?dk"
      using disk0_read_blks [OF less.prems(1) bk k(1,2)] by (simp add: al_def disk_consts)
    have s0: "seg 0 al ?buf = ?s" using seg_blit_same [of 0 ?s "disk0_buffer dk"] len lb k by (simp add: al_def)
    have mv: "iobuf_move iob ?buf al True = Some (0, al, ?iob, ?buf)"
      using iobuf_move_in [of al iob ?buf] less.prems(3,4) k lbuf unfolding s0 by (simp add: al_def)
    have ok: "disk_ok ?dk" using less.prems(1) lbuf by (simp add: disk_ok_def)
    have u: "u32 (b + al div DISK0_BLKSIZE) = b + k"
      using bk less.prems(1) by (simp add: al_def disk_consts disk_ok_def)
    have step: "disk0_loop dk iob False b (4096 * n) = disk0_loop ?dk ?iob False (b + k) (4096 * (n - k))"
      using False rd mv k
      by (subst disk0_loop.simps) (simp add: al Let_def u, simp add: al_def disk_consts kassert_def right_diff_distrib')
    obtain buf where buf: "disk0_loop ?dk ?iob False (b + k) (4096 * (n - k)) =
      Some (?dk\<lparr>disk0_buffer := buf\<rparr>, ?iob\<lparr>io_buf := blit (io_buf ?iob) (io_base ?iob) (seg (4096 * (b + k)) (4096 * (n - k)) (img ?dk)),
      io_base := io_base ?iob + 4096 * (n - k), io_offset := io_offset ?iob + int (4096 * (n - k)), io_resid := 0\<rparr>)"
      "length buf = 16384"
      using less.IH [of "n - k" ?dk "b + k" ?iob] k ok bk less.prems len by (auto simp: al_def right_diff_distrib')
    have c: "?s @ seg (4096 * (b + k)) (4096 * (n - k)) (img dk) = seg (4096 * b) (4096 * n) (img dk)"
      using seg_append [of "4096 * b" al "4096 * (n - k)" "img dk"] disk_ok_blocks(2) [OF less.prems(1,2)] k
      by (simp add: al_def distrib_left right_diff_distrib')
    have l2: "length (seg (4096 * (b + k)) (4096 * (n - k)) (img dk)) = 4096 * (n - k)"
      using disk_ok_blocks(2) [OF less.prems(1,2)] k by (simp add: distrib_left right_diff_distrib')
    have d: "blit (blit (io_buf iob) (io_base iob) ?s) (io_base iob + al) (seg (4096 * (b + k)) (4096 * (n - k)) (img dk)) =
        blit (io_buf iob) (io_base iob) (seg (4096 * b) (4096 * n) (img dk))"
      using blit_blit_append [of "io_base iob" ?s "seg (4096 * (b + k)) (4096 * (n - k)) (img dk)" "io_buf iob"]
        less.prems(3,4) k len l2 unfolding c by (simp add: al_def right_diff_distrib')
    show ?thesis unfolding step using buf d k by (auto simp: al_def right_diff_distrib')
  qed
qed

lemma disk0_loop_write:
  assumes "disk_ok dk" "b + n \<le> d_blocks dk" "io_resid iob = 4096 * n"
    "io_base iob + io_resid iob \<le> length (io_buf iob)"
  shows "\<exists>buf. disk0_loop dk iob True b (4096 * n) =
    Some (dk\<lparr>disk0_buffer := buf, img := blit (img dk) (4096 * b) (seg (io_base iob) (4096 * n) (io_buf iob))\<rparr>,
      iob\<lparr>io_base := io_base iob + 4096 * n, io_offset := io_offset iob + int (4096 * n), io_resid := 0\<rparr>) \<and>
      length buf = 16384"
  using assms
proof (induction n arbitrary: dk iob b rule: less_induct)
  case (less n)
  show ?case
  proof (cases "n = 0")
    case True
    have "iob\<lparr>io_base := io_base iob, io_offset := io_offset iob, io_resid := 0\<rparr> = iob"
      using less.prems(3) True by simp
    then show ?thesis using True less.prems(1)
      by (subst disk0_loop.simps) (auto simp: disk_ok_def intro!: exI [of _ "disk0_buffer dk"])
  next
    case False
    define k where "k = min n 4"
    have k: "0 < k" "k \<le> 4" "k \<le> n" using False by (auto simp: k_def)
    define al where "al = 4096 * k"
    have al: "min DISK0_BUFSIZE (io_resid iob) = al"
      using less.prems(3) by (auto simp: al_def k_def disk_consts)
    have bk: "b + k \<le> d_blocks dk" using less.prems(2) k by simp
    let ?s = "seg (io_base iob) al (io_buf iob)"
    let ?buf = "blit (disk0_buffer dk) 0 ?s"
    have len: "length ?s = al" using less.prems(3,4) k by (simp add: al_def)
    have lb: "length (disk0_buffer dk) = 16384" using less.prems(1) by (simp add: disk_ok_def)
    have lbuf: "length ?buf = 16384" using len lb k by (simp add: al_def)
    have s0: "seg 0 al ?buf = ?s" using seg_blit_same [of 0 ?s "disk0_buffer dk"] len lb k by (simp add: al_def)
    let ?iob = "iob\<lparr>io_base := io_base iob + al, io_offset := io_offset iob + int al, io_resid := io_resid iob - al\<rparr>"
    let ?im = "blit (img dk) (4096 * b) ?s"
    let ?dk = "dk\<lparr>disk0_buffer := ?buf, img := ?im\<rparr>"
    have lim: "length ?im = length (img dk)" using disk_ok_blocks(2) [OF less.prems(1) bk] len by (simp add: al_def)
    obtain r where mv: "iobuf_move iob (disk0_buffer dk) DISK0_BUFSIZE False = Some (r, al, ?iob, ?buf)"
      using iobuf_move_out [of iob DISK0_BUFSIZE "disk0_buffer dk"] less.prems(3,4) k lb al False
      by (simp add: Let_def disk_consts)
    have ok1: "disk_ok (dk\<lparr>disk0_buffer := ?buf\<rparr>)" using less.prems(1) lbuf by (simp add: disk_ok_def)
    have wr: "disk0_write_blks_nolock (dk\<lparr>disk0_buffer := ?buf\<rparr>) b (al div DISK0_BLKSIZE) = Some ?dk"
      using disk0_write_blks [OF ok1 _ k(1,2), of b] bk s0 by (simp add: al_def disk_consts)
    have ok: "disk_ok ?dk" using less.prems(1) lbuf lim by (simp add: disk_ok_def)
    have u: "u32 (b + al div DISK0_BLKSIZE) = b + k"
      using bk less.prems(1) by (simp add: al_def disk_consts disk_ok_def)
    have step: "disk0_loop dk iob True b (4096 * n) = disk0_loop ?dk ?iob True (b + k) (4096 * (n - k))"
      using False mv wr k
      by (subst disk0_loop.simps) (simp add: Let_def u, simp add: al_def disk_consts kassert_def right_diff_distrib')
    obtain buf where buf: "disk0_loop ?dk ?iob True (b + k) (4096 * (n - k)) =
      Some (?dk\<lparr>disk0_buffer := buf, img := blit (img ?dk) (4096 * (b + k)) (seg (io_base ?iob) (4096 * (n - k)) (io_buf ?iob))\<rparr>,
      ?iob\<lparr>io_base := io_base ?iob + 4096 * (n - k), io_offset := io_offset ?iob + int (4096 * (n - k)), io_resid := 0\<rparr>)"
      "length buf = 16384"
      using less.IH [of "n - k" ?dk "b + k" ?iob] k ok bk less.prems len by (auto simp: al_def right_diff_distrib')
    let ?s2 = "seg (io_base iob + al) (4096 * (n - k)) (io_buf iob)"
    have c: "?s @ ?s2 = seg (io_base iob) (4096 * n) (io_buf iob)"
      using seg_append [of "io_base iob" al "4096 * (n - k)" "io_buf iob"] less.prems(3,4) k
      by (simp add: al_def right_diff_distrib')
    have l2: "length ?s2 = 4096 * (n - k)"
      using less.prems(3,4) k by (simp add: al_def right_diff_distrib')
    have d: "blit ?im (4096 * (b + k)) ?s2 = blit (img dk) (4096 * b) (seg (io_base iob) (4096 * n) (io_buf iob))"
      using blit_blit_append [of "4096 * b" ?s ?s2 "img dk"] disk_ok_blocks(2) [OF less.prems(1,2)] k len l2 unfolding c
      by (simp add: al_def right_diff_distrib' distrib_left)
    show ?thesis unfolding step using buf d k by (auto simp: al_def right_diff_distrib')
  qed
qed

text \<open>What \<open>disk0_io\<close> leaves of a disk: its geometry.\<close>

definition same_disk :: "disk \<Rightarrow> disk \<Rightarrow> bool" where
  "same_disk dk dk' \<longleftrightarrow> d_blocks dk' = d_blocks dk \<and> d_blocksize dk' = d_blocksize dk \<and> length (img dk') = length (img dk)"

lemma disk0_io_cases:
  assumes "disk_ok dk" "io_offset iob = int (4096 * b)" "io_resid iob = 4096 * n" "b + n < 2 ^ 32"
    "io_base iob + io_resid iob \<le> length (io_buf iob)"
  shows "if b + n \<le> d_blocks dk
    then \<exists>dk' iob'. disk0_io dk iob wr = Some (0, dk', iob') \<and> disk_ok dk' \<and> same_disk dk dk' \<and> io_resid iob' = 0 \<and>
      img dk' = (if wr then blit (img dk) (4096 * b) (seg (io_base iob) (4096 * n) (io_buf iob)) else img dk) \<and>
      io_buf iob' = (if wr then io_buf iob else blit (io_buf iob) (io_base iob) (seg (4096 * b) (4096 * n) (img dk)))
    else disk0_io dk iob wr = Some (- E_INVAL, dk, iob)"
proof -
  have o: "io_offset iob = int b * 4096" "io_offset iob div 4096 = int b" "io_offset iob mod 4096 = 0"
    using assms(2) by simp_all
  have b: "nat (int b mod 2 ^ 32) = b" using assms(4) by simp
  show ?thesis
  proof (cases "b + n \<le> d_blocks dk \<and> n \<noteq> 0")
    case True
    then have io: "disk0_io dk iob wr = do { (dk, iob) \<leftarrow> disk0_loop dk iob wr b (4096 * n); Some (0, dk, iob) }"
      using assms(3,4) o b unfolding disk0_io_def by (simp add: DISK0_BLKSIZE_def)
    show ?thesis
    proof (cases wr)
      case w: True
      obtain buf where l: "disk0_loop dk iob True b (4096 * n) =
          Some (dk\<lparr>disk0_buffer := buf, img := blit (img dk) (4096 * b) (seg (io_base iob) (4096 * n) (io_buf iob))\<rparr>,
           iob\<lparr>io_base := io_base iob + 4096 * n, io_offset := io_offset iob + int (4096 * n), io_resid := 0\<rparr>)"
          "length buf = 16384"
        using disk0_loop_write assms True by blast
      then show ?thesis using io True w assms(1,3,5) disk_ok_blocks(2) [OF assms(1), of b n]
        by (simp add: disk_ok_def same_disk_def)
    next
      case r: False
      obtain buf where l: "disk0_loop dk iob False b (4096 * n) =
          Some (dk\<lparr>disk0_buffer := buf\<rparr>, iob\<lparr>io_buf := blit (io_buf iob) (io_base iob) (seg (4096 * b) (4096 * n) (img dk)),
            io_base := io_base iob + 4096 * n, io_offset := io_offset iob + int (4096 * n), io_resid := 0\<rparr>)"
          "length buf = 16384"
        using disk0_loop_read assms True by blast
      then show ?thesis using io True r assms(1) by (simp add: disk_ok_def same_disk_def)
    qed
  next
    case False
    then show ?thesis using assms(1,3,4) o b unfolding disk0_io_def by (auto simp: DISK0_BLKSIZE_def same_disk_def)
  qed
qed

section \<open>Properties\<close>

text \<open>A transfer between memory and disk0, which the code makes in chunks through a
  four-block bounce buffer, has the effect of one copy: for a block-aligned request of \<open>n\<close>
  blocks from block \<open>b\<close> that lies on the disk, a read puts exactly the bytes of these blocks into the
  caller's buffer and leaves the disk as it is, a write puts exactly the caller's bytes into these blocks and leaves the
  buffer as it is, the whole request is consumed and no assertion fails; a request that runs past the
  end of the disk is refused with \<open>-E_INVAL\<close> and nothing changes.\<close>

theorem disk0_io_one_copy:
  assumes "disk_ok dk" "io_offset iob = int (4096 * b)" "io_resid iob = 4096 * n" "b + n < 2 ^ 32"
    "io_base iob + io_resid iob \<le> length (io_buf iob)"
  shows "if b + n \<le> d_blocks dk
    then \<exists>dk' iob'. disk0_io dk iob wr = Some (0, dk', iob') \<and> disk_ok dk' \<and> same_disk dk dk' \<and> io_resid iob' = 0 \<and>
      img dk' = (if wr then blit (img dk) (4096 * b) (seg (io_base iob) (4096 * n) (io_buf iob)) else img dk) \<and>
      io_buf iob' = (if wr then io_buf iob else blit (io_buf iob) (io_base iob) (seg (4096 * b) (4096 * n) (img dk)))
    else disk0_io dk iob wr = Some (- E_INVAL, dk, iob)"
  by (rule disk0_io_cases [OF assms])

definition example_disk :: disk where
  "example_disk = \<lparr>valid = True, ide_size = 64, img = replicate 32768 0, d_blocks = 8, d_blocksize = 4096,
     disk0_buffer = replicate 16384 0\<rparr>"

lemma example_disk_ok: "disk_ok example_disk"
  by (simp add: disk_ok_def example_disk_def MAX_DISK_NSECS_def)

theorem disk0_io_one_copy_witness:
  "\<exists>dk' iob'. disk0_io example_disk (iobuf_init (replicate 24576 1) 0 24576 4096) True = Some (0, dk', iob') \<and>
     img dk' = blit (replicate 32768 0) 4096 (replicate 24576 1)"
  using disk0_io_one_copy [OF example_disk_ok, of "iobuf_init (replicate 24576 1) 0 24576 4096" 1 6 True]
  by (auto simp: iobuf_init_def example_disk_def seg_def)

end
