(* ===== verification/Sfs_Io.thy ===== *)
theory Sfs_Io
  imports Disk Bitmap
begin

text \<open>
  The in-memory state of a mounted Simple File System (\<open>struct sfs_fs\<close>, lab8/kern/fs/sfs/sfs.h)
  and its block-level input and output (lab8/kern/fs/sfs/sfs_io.c): single blocks, runs of blocks, byte ranges inside a
  block through the shared buffer \<open>sfs_buffer\<close>, and the superblock and free map on disk.

  The volume is mounted on disk0, so \<open>dop_io(sfs->dev, ...)\<close> is \<open>disk0_io\<close>. A
  caller's buffer is the list of its bytes with the offset of the pointer in it. The locks \<open>io_sem\<close>
  and \<open>fs_sem\<close> make each operation one critical section; they are the semaphores of
  \<open>Sync\<close> and are not repeated here. \<open>off_t\<close> arguments that the
  callers compute as remainders are natural numbers.
\<close>

section \<open>Little-endian integers\<close>

primrec le_bytes :: "nat \<Rightarrow> nat \<Rightarrow> bytes" where
  "le_bytes 0 n = []"
| "le_bytes (Suc k) n = word_of_nat n # le_bytes k (n div 256)"

primrec le_val :: "bytes \<Rightarrow> nat" where
  "le_val [] = 0"
| "le_val (b # bs) = unat b + 256 * le_val bs"

lemma length_le_bytes [simp]: "length (le_bytes k n) = k"
  by (induction k arbitrary: n) auto

lemma le_val_le_bytes: "le_val (le_bytes k n) = n mod 256 ^ k"
proof (induction k arbitrary: n)
  case (Suc k)
  have "unat (word_of_nat n :: 8 word) = n mod 256" by (simp add: unat_of_nat)
  then show ?case using Suc by (simp add: mod_mult2_eq)
qed simp

lemma le_val_bound: "le_val bs < 256 ^ length bs"
proof (induction bs)
  case (Cons b bs)
  have "unat b \<le> 255" using unsigned_less [where ?'a = nat, of b] by simp
  then show ?case using Cons by simp
qed simp

lemma le_bytes_le_val: "le_bytes (length bs) (le_val bs) = bs"
proof (induction bs)
  case (Cons b bs)
  have "unat b < 256" using unsigned_less [where ?'a = nat, of b] by simp
  then have d: "(unat b + 256 * le_val bs) div 256 = le_val bs" by simp
  have m: "word_of_nat (unat b + 256 * le_val bs) = b"
  proof -
    have "(256 :: 8 word) = 0" by simp
    then show ?thesis by (simp only: of_nat_add of_nat_mult of_nat_numeral mult_zero_left add_0_right) simp
  qed
  show ?case using Cons d m by simp
qed simp

section \<open>State\<close>

definition SFS_MAGIC :: nat where "SFS_MAGIC = 0x2f8dbe2a"
definition SFS_BLKSIZE :: nat where "SFS_BLKSIZE = 4096"
definition SFS_NDIRECT :: nat where "SFS_NDIRECT = 12"
definition SFS_MAX_FNAME_LEN :: nat where "SFS_MAX_FNAME_LEN = 255"
definition SFS_MAX_FILE_SIZE :: nat where "SFS_MAX_FILE_SIZE = 1024 * 1024 * 128"
definition SFS_MAX_INFO_LEN :: nat where "SFS_MAX_INFO_LEN = 31"
definition SFS_BLKN_SUPER :: nat where "SFS_BLKN_SUPER = 0"
definition SFS_BLKN_ROOT :: nat where "SFS_BLKN_ROOT = 1"
definition SFS_BLKN_FREEMAP :: nat where "SFS_BLKN_FREEMAP = 2"
definition SFS_BLKBITS :: nat where "SFS_BLKBITS = SFS_BLKSIZE * 8"
definition SFS_BLK_NENTRY :: nat where "SFS_BLK_NENTRY = SFS_BLKSIZE div 4"

record sfs_super =
  magic :: nat
  blocks :: nat
  unused_blocks :: nat
  info :: bytes

text \<open>\<open>inode_list\<close> and the chains of \<open>hash_list\<close> hold the inodes by address.\<close>

record sfs_fs =
  super :: sfs_super
  dev :: disk
  freemap :: bitmap
  super_dirty :: bool
  sfs_buffer :: bytes
  inode_list :: "nat list"
  hash_list :: "nat \<Rightarrow> nat list"

definition sfs_freemap_bits :: "sfs_super \<Rightarrow> nat" where
  "sfs_freemap_bits sb = u32 (ROUNDUP (blocks sb) SFS_BLKBITS)"

definition sfs_freemap_blocks :: "sfs_super \<Rightarrow> nat" where
  "sfs_freemap_blocks sb = ROUNDUP_DIV (blocks sb) SFS_BLKBITS"

text \<open>The 44 bytes of \<open>struct sfs_super\<close>.\<close>

definition super_bytes :: "sfs_super \<Rightarrow> bytes" where
  "super_bytes sb = le_bytes 4 (magic sb) @ le_bytes 4 (blocks sb) @ le_bytes 4 (unused_blocks sb) @ info sb"

definition bytes_super :: "bytes \<Rightarrow> sfs_super" where
  "bytes_super bs = \<lparr>magic = le_val (seg 0 4 bs), blocks = le_val (seg 4 4 bs),
     unused_blocks = le_val (seg 8 4 bs), info = seg 12 32 bs\<rparr>"

section \<open>Operations\<close>

definition sfs_rwblock_nolock ::
    "sfs_fs \<Rightarrow> bytes \<Rightarrow> nat \<Rightarrow> nat \<Rightarrow> bool \<Rightarrow> bool \<Rightarrow> (int \<times> sfs_fs \<times> bytes) option" where
  "sfs_rwblock_nolock s buf base blkno wr check = do {
     kassert ((blkno \<noteq> 0 \<or> \<not> check) \<and> blkno < blocks (super s));
     (ret, dk, iob) \<leftarrow> disk0_io (dev s) (iobuf_init buf base SFS_BLKSIZE (int (u32 (blkno * SFS_BLKSIZE)))) wr;
     Some (ret, s\<lparr>dev := dk\<rparr>, io_buf iob) }"

fun sfs_rwblock ::
    "sfs_fs \<Rightarrow> bytes \<Rightarrow> nat \<Rightarrow> nat \<Rightarrow> nat \<Rightarrow> bool \<Rightarrow> (int \<times> sfs_fs \<times> bytes) option" where
  "sfs_rwblock s buf base blkno 0 wr = Some (0, s, buf)"
| "sfs_rwblock s buf base blkno (Suc nblks) wr = do {
     (ret, s, buf) \<leftarrow> sfs_rwblock_nolock s buf base blkno wr True;
     if ret \<noteq> 0 then Some (ret, s, buf)
     else sfs_rwblock s buf (base + SFS_BLKSIZE) (u32 (blkno + 1)) nblks wr }"

definition sfs_rblock :: "sfs_fs \<Rightarrow> bytes \<Rightarrow> nat \<Rightarrow> nat \<Rightarrow> nat \<Rightarrow> (int \<times> sfs_fs \<times> bytes) option" where
  "sfs_rblock s buf base blkno nblks = sfs_rwblock s buf base blkno nblks False"

definition sfs_wblock :: "sfs_fs \<Rightarrow> bytes \<Rightarrow> nat \<Rightarrow> nat \<Rightarrow> nat \<Rightarrow> (int \<times> sfs_fs \<times> bytes) option" where
  "sfs_wblock s buf base blkno nblks = sfs_rwblock s buf base blkno nblks True"

definition sfs_rbuf :: "sfs_fs \<Rightarrow> bytes \<Rightarrow> nat \<Rightarrow> nat \<Rightarrow> nat \<Rightarrow> nat \<Rightarrow> (int \<times> sfs_fs \<times> bytes) option" where
  "sfs_rbuf s buf base len blkno offset = do {
     kassert (offset < SFS_BLKSIZE \<and> offset + len \<le> SFS_BLKSIZE);
     (ret, s, sb) \<leftarrow> sfs_rwblock_nolock s (sfs_buffer s) 0 blkno False True;
     let s = s\<lparr>sfs_buffer := sb\<rparr>;
     if ret = 0
     then do {
       src \<leftarrow> mem_get sb offset len;
       buf \<leftarrow> mem_put buf base src;
       Some (ret, s, buf) }
     else Some (ret, s, buf) }"

definition sfs_wbuf :: "sfs_fs \<Rightarrow> bytes \<Rightarrow> nat \<Rightarrow> nat \<Rightarrow> nat \<Rightarrow> nat \<Rightarrow> (int \<times> sfs_fs \<times> bytes) option" where
  "sfs_wbuf s buf base len blkno offset = do {
     kassert (offset < SFS_BLKSIZE \<and> offset + len \<le> SFS_BLKSIZE);
     (ret, s, sb) \<leftarrow> sfs_rwblock_nolock s (sfs_buffer s) 0 blkno False True;
     let s = s\<lparr>sfs_buffer := sb\<rparr>;
     if ret = 0
     then do {
       src \<leftarrow> mem_get buf base len;
       sb \<leftarrow> mem_put sb offset src;
       (ret, s, sb) \<leftarrow> sfs_rwblock_nolock (s\<lparr>sfs_buffer := sb\<rparr>) sb 0 blkno True True;
       Some (ret, s\<lparr>sfs_buffer := sb\<rparr>, buf) }
     else Some (ret, s, buf) }"

definition sfs_sync_super :: "sfs_fs \<Rightarrow> (int \<times> sfs_fs) option" where
  "sfs_sync_super s = do {
     sb \<leftarrow> mem_put (sfs_buffer s) 0 (replicate SFS_BLKSIZE 0);
     sb \<leftarrow> mem_put sb 0 (super_bytes (super s));
     (ret, s, sb) \<leftarrow> sfs_rwblock_nolock (s\<lparr>sfs_buffer := sb\<rparr>) sb 0 SFS_BLKN_SUPER True False;
     Some (ret, s\<lparr>sfs_buffer := sb\<rparr>) }"

text \<open>The memory of the bitmap as bytes.\<close>

definition words_bytes :: "32 word list \<Rightarrow> bytes" where
  "words_bytes ws = concat (map (\<lambda>w. le_bytes 4 (unat w)) ws)"

definition sfs_sync_freemap :: "sfs_fs \<Rightarrow> (int \<times> sfs_fs) option" where
  "sfs_sync_freemap s =
     (let nblks = sfs_freemap_blocks (super s) in do {
        (ret, s, _) \<leftarrow> sfs_wblock s (words_bytes (snd (bitmap_getdata (freemap s)))) 0 SFS_BLKN_FREEMAP nblks;
        Some (ret, s) })"

fun clear_blocks :: "sfs_fs \<Rightarrow> nat \<Rightarrow> nat \<Rightarrow> int \<Rightarrow> (int \<times> sfs_fs) option" where
  "clear_blocks s blkno 0 ret = Some (ret, s)"
| "clear_blocks s blkno (Suc nblks) _ = do {
     (ret, s, sb) \<leftarrow> sfs_rwblock_nolock s (sfs_buffer s) 0 blkno True True;
     let s = s\<lparr>sfs_buffer := sb\<rparr>;
     if ret \<noteq> 0 then Some (ret, s) else clear_blocks s (u32 (blkno + 1)) nblks ret }"

text \<open>With \<open>nblks = 0\<close> the code returns an uninitialised variable.\<close>

definition sfs_clear_block :: "sfs_fs \<Rightarrow> nat \<Rightarrow> nat \<Rightarrow> (int \<times> sfs_fs) option" where
  "sfs_clear_block s blkno nblks = do {
     sb \<leftarrow> mem_put (sfs_buffer s) 0 (replicate SFS_BLKSIZE 0);
     kassert (nblks \<noteq> 0);
     clear_blocks (s\<lparr>sfs_buffer := sb\<rparr>) blkno nblks 0 }"


section \<open>Blocks\<close>

definition blk :: "sfs_fs \<Rightarrow> nat \<Rightarrow> bytes" where
  "blk s b = seg (4096 * b) 4096 (img (dev s))"

text \<open>A volume that its disk holds. The bound \<open>2 ^ 20\<close> on the number of blocks is where
  \<open>blkno * SFS_BLKSIZE\<close>, a 32-bit product, starts to wrap around.\<close>

definition vol_ok :: "sfs_fs \<Rightarrow> bool" where
  "vol_ok s \<longleftrightarrow> disk_ok (dev s) \<and> blocks (super s) \<le> d_blocks (dev s) \<and> blocks (super s) \<le> 2 ^ 20 \<and>
     length (sfs_buffer s) = 4096"

text \<open>What block input and output leaves alone.\<close>

definition meta :: "sfs_fs \<Rightarrow> sfs_super \<times> bitmap \<times> bool \<times> nat list \<times> (nat \<Rightarrow> nat list)" where
  "meta s = (super s, freemap s, super_dirty s, inode_list s, hash_list s)"

text \<open>The interface of a store of numbered blocks: reading gives the contents, writing changes one block.\<close>

locale block_store =
  fixes ok :: "'s \<Rightarrow> bool" and nblk :: "'s \<Rightarrow> nat" and cont :: "'s \<Rightarrow> nat \<Rightarrow> bytes" and meta_of :: "'s \<Rightarrow> 'm"
    and rd wr :: "'s \<Rightarrow> bytes \<Rightarrow> nat \<Rightarrow> nat \<Rightarrow> (int \<times> 's \<times> bytes) option"
  assumes length_cont: "ok s \<Longrightarrow> b < nblk s \<Longrightarrow> length (cont s b) = 4096"
    and rd_spec: "ok s \<Longrightarrow> 0 < b \<Longrightarrow> b < nblk s \<Longrightarrow> base + 4096 \<le> length buf \<Longrightarrow>
      \<exists>s'. rd s buf base b = Some (0, s', blit buf base (cont s b)) \<and> ok s' \<and> meta_of s' = meta_of s \<and> nblk s' = nblk s \<and>
        (\<forall>c<nblk s. cont s' c = cont s c)"
    and wr_spec: "ok s \<Longrightarrow> 0 < b \<Longrightarrow> b < nblk s \<Longrightarrow> base + 4096 \<le> length buf \<Longrightarrow>
      \<exists>s'. wr s buf base b = Some (0, s', buf) \<and> ok s' \<and> meta_of s' = meta_of s \<and> nblk s' = nblk s \<and>
        (\<forall>c<nblk s. cont s' c = (if c = b then seg base 4096 buf else cont s c))"
begin

lemma read_back:
  assumes "ok s" "0 < b" "b < nblk s" "length buf = 4096"
  shows "\<exists>s' s''. wr s buf 0 b = Some (0, s', buf) \<and> rd s' buf 0 b = Some (0, s'', buf) \<and> ok s'' \<and>
    (\<forall>c<nblk s. cont s'' c = (if c = b then buf else cont s c))"
proof -
  obtain s' where s': "wr s buf 0 b = Some (0, s', buf)" "ok s'" "nblk s' = nblk s"
      "\<forall>c<nblk s. cont s' c = (if c = b then seg 0 4096 buf else cont s c)"
    using wr_spec [of s b 0 buf] assms by auto
  moreover obtain s'' where "rd s' buf 0 b = Some (0, s'', blit buf 0 (cont s' b))" "ok s''" "nblk s'' = nblk s'"
      "\<forall>c<nblk s'. cont s'' c = cont s' c"
    using rd_spec [of s' b 0 buf] s' assms by auto
  ultimately show ?thesis using assms by (auto simp: seg_0_all blit_all)
qed

text \<open>Reading a block into a buffer, changing a range of the buffer and writing it back changes that
  range of the block; \<open>g\<close> is what the client does with its own part of the state in between.\<close>

lemma read_modify_write:
  assumes "ok s" "0 < b" "b < nblk s" "length buf = 4096" "off + length xs \<le> 4096"
    and g: "\<And>t. ok t \<Longrightarrow> ok (g t) \<and> meta_of (g t) = meta_of t \<and> nblk (g t) = nblk t \<and> cont (g t) = cont t"
  shows "\<exists>s' s''. rd s buf 0 b = Some (0, s', cont s b) \<and>
      wr (g s') (blit (cont s b) off xs) 0 b = Some (0, s'', blit (cont s b) off xs) \<and> ok s'' \<and>
      meta_of s'' = meta_of s \<and> nblk s'' = nblk s \<and>
      (\<forall>c<nblk s. cont s'' c = (if c = b then blit (cont s b) off xs else cont s c))"
proof -
  obtain s' where s': "rd s buf 0 b = Some (0, s', blit buf 0 (cont s b))" "ok s'" "meta_of s' = meta_of s" "nblk s' = nblk s"
      "\<forall>c<nblk s. cont s' c = cont s c"
    using rd_spec [of s b 0 buf] assms by auto
  have l: "length (cont s b) = 4096" using length_cont assms by blast
  let ?b = "blit (cont s b) off xs"
  have lb: "length ?b = 4096" using l assms by simp
  obtain s'' where "wr (g s') ?b 0 b = Some (0, s'', ?b)" "ok s''" "meta_of s'' = meta_of s'" "nblk s'' = nblk s'"
      "\<forall>c<nblk s'. cont s'' c = (if c = b then seg 0 4096 ?b else cont s' c)"
    using wr_spec [of "g s'" b 0 ?b] g [OF s'(2)] s' assms lb by auto
  then show ?thesis using s' l lb assms by (auto simp: seg_0_all blit_all)
qed

end

lemma length_blk: "vol_ok s \<Longrightarrow> b < blocks (super s) \<Longrightarrow> length (blk s b) = 4096"
  using disk_ok_blocks(2) [of "dev s" b 1] by (simp add: vol_ok_def blk_def)

lemma blk_write:
  assumes "disk_ok dk" "b < d_blocks dk" "c < d_blocks dk" "length xs = 4096"
  shows "seg (4096 * c) 4096 (blit (img dk) (4096 * b) xs) = (if c = b then xs else seg (4096 * c) 4096 (img dk))"
proof (cases "c = b")
  case True
  then show ?thesis using assms disk_ok_blocks(2) [of dk b 1] seg_blit_same [of "4096 * b" xs "img dk"] by simp
next
  case False
  then have "4096 * c + 4096 \<le> 4096 * b \<or> 4096 * b + 4096 \<le> 4096 * c" by linarith
  then show ?thesis
    using seg_blit_other [of "4096 * b" xs "img dk" "4096 * c" 4096] assms disk_ok_blocks(2) [of dk b 1] disk_ok_blocks(2) [of dk c 1] False
    by simp
qed

lemma sfs_rwblock_nolock_spec:
  assumes "vol_ok s" "b \<noteq> 0 \<or> \<not> check" "b < blocks (super s)" "base + 4096 \<le> length buf"
  shows "\<exists>s'. sfs_rwblock_nolock s buf base b wr check = Some (0, s', if wr then buf else blit buf base (blk s b)) \<and>
     vol_ok s' \<and> meta s' = meta s \<and> sfs_buffer s' = sfs_buffer s \<and>
     (\<forall>c<blocks (super s). blk s' c = (if wr \<and> c = b then seg base 4096 buf else blk s c))"
proof -
  have b: "b < 2 ^ 20" "b + 1 \<le> d_blocks (dev s)" using assms by (auto simp: vol_ok_def)
  then have u: "u32 (b * 4096) = b * 4096" by simp
  let ?iob = "iobuf_init buf base SFS_BLKSIZE (int (u32 (b * SFS_BLKSIZE)))"
  obtain dk iob where io: "disk0_io (dev s) ?iob wr = Some (0, dk, iob)" "disk_ok dk" "same_disk (dev s) dk"
      "img dk = (if wr then blit (img (dev s)) (4096 * b) (seg base 4096 buf) else img (dev s))"
      "io_buf iob = (if wr then buf else blit buf base (seg (4096 * b) 4096 (img (dev s))))"
    using disk0_io_cases [of "dev s" ?iob b 1 wr] assms b u
    by (auto simp: vol_ok_def iobuf_init_def SFS_BLKSIZE_def)
  have d: "blk (s\<lparr>dev := dk\<rparr>) c = (if wr \<and> c = b then seg base 4096 buf else blk s c)" if "c < blocks (super s)" for c
    using io(4) blk_write [of "dev s" b c "seg base 4096 buf"] that assms b by (auto simp: blk_def vol_ok_def)
  have v: "vol_ok (s\<lparr>dev := dk\<rparr>)" using assms(1) io(2,3) by (simp add: vol_ok_def same_disk_def)
  have e: "sfs_rwblock_nolock s buf base b wr check = Some (0, s\<lparr>dev := dk\<rparr>, if wr then buf else blit buf base (blk s b))"
    using assms io by (auto simp: sfs_rwblock_nolock_def kassert_def blk_def)
  show ?thesis unfolding e using d v by (intro exI [of _ "s\<lparr>dev := dk\<rparr>"]) (auto simp: meta_def)
qed

interpretation sfs_blocks: block_store vol_ok "\<lambda>s. blocks (super s)" blk meta
  "\<lambda>s buf base b. sfs_rwblock_nolock s buf base b False True" "\<lambda>s buf base b. sfs_rwblock_nolock s buf base b True True"
proof
  fix s b base and buf :: bytes
  assume a: "vol_ok s" "0 < b" "b < blocks (super s)" "base + 4096 \<le> length buf"
  show "\<exists>s'. sfs_rwblock_nolock s buf base b False True = Some (0, s', blit buf base (blk s b)) \<and> vol_ok s' \<and>
      meta s' = meta s \<and> blocks (super s') = blocks (super s) \<and> (\<forall>c<blocks (super s). blk s' c = blk s c)"
    using sfs_rwblock_nolock_spec [of s b True base buf False] a by (auto simp: meta_def)
  show "\<exists>s'. sfs_rwblock_nolock s buf base b True True = Some (0, s', buf) \<and> vol_ok s' \<and>
      meta s' = meta s \<and> blocks (super s') = blocks (super s) \<and>
      (\<forall>c<blocks (super s). blk s' c = (if c = b then seg base 4096 buf else blk s c))"
    using sfs_rwblock_nolock_spec [of s b True base buf True] a by (auto simp: meta_def)
qed (rule length_blk)


lemma blk_buffer [simp]: "blk (s\<lparr>sfs_buffer := sb\<rparr>) b = blk s b"
  by (simp add: blk_def)

lemma meta_buffer [simp]: "meta (s\<lparr>sfs_buffer := sb\<rparr>) = meta s"
  by (simp add: meta_def)

lemma vol_ok_buf: "vol_ok s \<Longrightarrow> length sb = 4096 \<Longrightarrow> vol_ok (s\<lparr>sfs_buffer := sb\<rparr>)"
  by (simp add: vol_ok_def)

text \<open>The effect of a block operation: \<open>upd_blk s s' f\<close> says that block \<open>b\<close> of the new state is \<open>f b\<close>.\<close>

definition upd_blk :: "sfs_fs \<Rightarrow> sfs_fs \<Rightarrow> (nat \<Rightarrow> bytes) \<Rightarrow> bool" where
  "upd_blk s s' f \<longleftrightarrow> vol_ok s' \<and> meta s' = meta s \<and> (\<forall>c<blocks (super s). blk s' c = f c)"

lemma meta_eqD: "meta s' = meta s \<Longrightarrow> super s' = super s \<and> freemap s' = freemap s \<and> super_dirty s' = super_dirty s \<and>
    inode_list s' = inode_list s \<and> hash_list s' = hash_list s"
  by (simp add: meta_def)

lemma sfs_rbuf_spec:
  assumes "vol_ok s" "0 < b" "b < blocks (super s)" "off < 4096" "off + len \<le> 4096" "base + len \<le> length buf"
  shows "\<exists>s'. sfs_rbuf s buf base len b off = Some (0, s', blit buf base (seg off len (blk s b))) \<and> upd_blk s s' (blk s)"
proof -
  have lb: "length (sfs_buffer s) = 4096" using assms(1) by (simp add: vol_ok_def)
  obtain s' where s': "sfs_rwblock_nolock s (sfs_buffer s) 0 b False True = Some (0, s', blk s b)" "vol_ok s'" "meta s' = meta s"
      "\<forall>c<blocks (super s). blk s' c = blk s c"
    using sfs_rwblock_nolock_spec [of s b True 0 "sfs_buffer s" False] assms lb length_blk [of s b] by (auto simp: blit_all)
  have l: "length (blk s b) = 4096" using length_blk assms by blast
  have "sfs_rbuf s buf base len b off = Some (0, s'\<lparr>sfs_buffer := blk s b\<rparr>, blit buf base (seg off len (blk s b)))"
    using assms l s'(1) by (simp add: sfs_rbuf_def kassert_def SFS_BLKSIZE_def mem_get_def mem_put_def)
  then show ?thesis using s' l vol_ok_buf [OF s'(2) l] by (auto simp: upd_blk_def)
qed

lemma sfs_wbuf_spec:
  assumes "vol_ok s" "0 < b" "b < blocks (super s)" "off < 4096" "off + len \<le> 4096" "base + len \<le> length buf"
  shows "\<exists>s'. sfs_wbuf s buf base len b off = Some (0, s', buf) \<and>
    upd_blk s s' ((blk s)(b := blit (blk s b) off (seg base len buf)))"
proof -
  have lb: "length (sfs_buffer s) = 4096" using assms(1) by (simp add: vol_ok_def)
  have l: "length (blk s b) = 4096" using length_blk assms by blast
  let ?nb = "blit (blk s b) off (seg base len buf)"
  have ln: "length ?nb = 4096" using l assms by simp
  let ?g = "\<lambda>t. t\<lparr>sfs_buffer := ?nb\<rparr>"
  have g: "vol_ok (?g t) \<and> meta (?g t) = meta t \<and> blocks (super (?g t)) = blocks (super t) \<and> blk (?g t) = blk t" if "vol_ok t" for t
    using vol_ok_buf [OF that ln] by (auto simp: blk_def)
  obtain s' s'' where s': "sfs_rwblock_nolock s (sfs_buffer s) 0 b False True = Some (0, s', blk s b)" and
      s'': "sfs_rwblock_nolock (?g s') ?nb 0 b True True = Some (0, s'', ?nb)" "vol_ok s''" "meta s'' = meta s"
      "\<forall>c<blocks (super s). blk s'' c = (if c = b then ?nb else blk s c)"
    using sfs_blocks.read_modify_write [OF assms(1-3) lb, of off "seg base len buf" ?g] g assms by auto
  have "sfs_wbuf s buf base len b off = Some (0, s''\<lparr>sfs_buffer := ?nb\<rparr>, buf)"
    using assms l s' s''(1) by (simp add: sfs_wbuf_def kassert_def SFS_BLKSIZE_def mem_get_def mem_put_def)
  then show ?thesis using s'' vol_ok_buf [OF s''(2) ln] by (auto simp: upd_blk_def)
qed

lemma sfs_rwblock_one:
  "sfs_rwblock s buf base b 1 wr = sfs_rwblock_nolock s buf base b wr True"
proof -
  have "sfs_rwblock s buf base b (Suc 0) wr = sfs_rwblock_nolock s buf base b wr True"
    by (cases "sfs_rwblock_nolock s buf base b wr True") (auto split: prod.splits)
  then show ?thesis by simp
qed

lemma sfs_rblock_spec:
  assumes "vol_ok s" "0 < b" "b < blocks (super s)" "base + 4096 \<le> length buf"
  shows "\<exists>s'. sfs_rblock s buf base b 1 = Some (0, s', blit buf base (blk s b)) \<and> upd_blk s s' (blk s)"
  using sfs_rwblock_nolock_spec [of s b True base buf False] assms
  unfolding sfs_rblock_def sfs_rwblock_one upd_blk_def by auto

lemma sfs_wblock_spec:
  assumes "vol_ok s" "0 < b" "b < blocks (super s)" "base + 4096 \<le> length buf"
  shows "\<exists>s'. sfs_wblock s buf base b 1 = Some (0, s', buf) \<and> upd_blk s s' ((blk s)(b := seg base 4096 buf))"
  using sfs_rwblock_nolock_spec [of s b True base buf True] assms
  unfolding sfs_wblock_def sfs_rwblock_one upd_blk_def by auto

lemma sfs_clear_block_spec:
  assumes "vol_ok s" "0 < b" "b < blocks (super s)"
  shows "\<exists>s'. sfs_clear_block s b 1 = Some (0, s') \<and> upd_blk s s' ((blk s)(b := replicate 4096 0))"
proof -
  have lb: "length (sfs_buffer s) = 4096" using assms(1) by (simp add: vol_ok_def)
  let ?z = "replicate 4096 (0 :: 8 word)"
  let ?s = "s\<lparr>sfs_buffer := ?z\<rparr>"
  have z: "mem_put (sfs_buffer s) 0 (replicate SFS_BLKSIZE 0) = Some ?z"
    using lb by (simp add: mem_put_def blit_all SFS_BLKSIZE_def)
  obtain s' where s': "sfs_rwblock_nolock ?s ?z 0 b True True = Some (0, s', ?z)" "vol_ok s'" "meta s' = meta s"
      "\<forall>c<blocks (super s). blk s' c = (if c = b then ?z else blk s c)"
    using sfs_rwblock_nolock_spec [of ?s b True 0 ?z True] assms vol_ok_buf [OF assms(1), of ?z] by (auto simp: seg_0_all)
  have "sfs_clear_block s b (Suc 0) = Some (0, s'\<lparr>sfs_buffer := ?z\<rparr>)"
    unfolding sfs_clear_block_def z using s'(1) by (simp add: kassert_def)
  then show ?thesis using s' vol_ok_buf [OF s'(2), of ?z] by (auto simp: upd_blk_def)
qed

lemma length_super_bytes: "length (info sb) = 32 \<Longrightarrow> length (super_bytes sb) = 44"
  by (simp add: super_bytes_def)

definition super_ok :: "sfs_super \<Rightarrow> bool" where
  "super_ok sb \<longleftrightarrow> magic sb < 2 ^ 32 \<and> blocks sb < 2 ^ 32 \<and> unused_blocks sb < 2 ^ 32 \<and> length (info sb) = 32"

lemma seg_middle: "length xs = off \<Longrightarrow> length ys = n \<Longrightarrow> seg off n (xs @ ys @ zs) = ys"
  by (simp add: seg_def)

lemma bytes_super_super_bytes: "super_ok sb \<Longrightarrow> bytes_super (super_bytes sb @ zs) = sb"
proof -
  assume a: "super_ok sb"
  let ?a = "le_bytes 4 (magic sb)" and ?b = "le_bytes 4 (blocks sb)" and ?c = "le_bytes 4 (unused_blocks sb)"
  have "seg 0 4 (super_bytes sb @ zs) = ?a" using seg_middle [of "[]" 0 ?a 4] by (simp add: super_bytes_def)
  moreover have "seg 4 4 (super_bytes sb @ zs) = ?b" using seg_middle [of ?a 4 ?b 4] by (simp add: super_bytes_def)
  moreover have "seg 8 4 (super_bytes sb @ zs) = ?c"
    using seg_middle [of "?a @ ?b" 8 ?c 4 "info sb @ zs"] by (simp add: super_bytes_def)
  moreover have "seg 12 32 (super_bytes sb @ zs) = info sb"
    using seg_middle [of "?a @ ?b @ ?c" 12 "info sb" 32 zs] a by (simp add: super_bytes_def super_ok_def)
  ultimately show ?thesis using a by (simp add: bytes_super_def le_val_le_bytes super_ok_def)
qed

lemma sfs_sync_super_spec:
  assumes "vol_ok s" "0 < blocks (super s)" "super_ok (super s)"
  shows "\<exists>s'. sfs_sync_super s = Some (0, s') \<and> upd_blk s s' (\<lambda>c. if c = 0 then super_bytes (super s) @ replicate 4052 0 else blk s c)"
proof -
  have lb: "length (sfs_buffer s) = 4096" using assms(1) by (simp add: vol_ok_def)
  let ?nb = "super_bytes (super s) @ replicate 4052 (0 :: 8 word)"
  have l44: "length (super_bytes (super s)) = 44" using assms(3) length_super_bytes by (simp add: super_ok_def)
  have ln: "length ?nb = 4096" using l44 by simp
  have z: "mem_put (sfs_buffer s) 0 (replicate SFS_BLKSIZE 0) = Some (replicate 4096 0)"
    using lb by (simp add: mem_put_def blit_all SFS_BLKSIZE_def)
  have z2: "mem_put (replicate 4096 0) 0 (super_bytes (super s)) = Some ?nb"
    using l44 by (simp add: mem_put_def blit_def)
  let ?s = "s\<lparr>sfs_buffer := ?nb\<rparr>"
  obtain s' where s': "sfs_rwblock_nolock ?s ?nb 0 0 True False = Some (0, s', ?nb)" "vol_ok s'" "meta s' = meta s"
      "\<forall>c<blocks (super s). blk s' c = (if c = 0 then ?nb else blk s c)"
    using sfs_rwblock_nolock_spec [of ?s 0 False 0 ?nb True] assms vol_ok_buf [OF assms(1) ln] ln by (auto simp: seg_0_all)
  have "sfs_sync_super s = Some (0, s'\<lparr>sfs_buffer := ?nb\<rparr>)"
    unfolding sfs_sync_super_def z using z2 s'(1) by (simp add: SFS_BLKN_SUPER_def)
  then show ?thesis using s' vol_ok_buf [OF s'(2) ln] by (auto simp: upd_blk_def)
qed

end
