(* ===== verification/Sfs_File.thy ===== *)
theory Sfs_File
  imports Sfs_Io
begin

text \<open>
  Files of the Simple File System, the part of lab8/kern/fs/sfs/sfs_inode.c that works on one inode: allocation of
  disk blocks, the map from the logical blocks of a file to disk blocks (twelve direct blocks and one block of
  indirect entries), reading and writing a byte range, writing the inode back and changing the length of a file.

  An operation takes the volume and the in-memory inode (\<open>struct sfs_inode\<close> with its copy of the on-disk
  inode) and returns both; out-parameters are further results. The order of the results is: return code, volume, inode,
  out-parameters. The lock \<open>sin->sem\<close> makes each operation one critical section.
\<close>

section \<open>State\<close>

definition SFS_TYPE_INVAL :: nat where "SFS_TYPE_INVAL = 0"
definition SFS_TYPE_FILE :: nat where "SFS_TYPE_FILE = 1"
definition SFS_TYPE_DIR :: nat where "SFS_TYPE_DIR = 2"
definition SFS_TYPE_LINK :: nat where "SFS_TYPE_LINK = 3"

record sfs_disk_inode =
  di_size :: nat
  di_type :: nat
  nlinks :: nat
  di_blocks :: nat
  direct :: "nat list"
  indirect :: nat

record sfs_inode =
  din :: sfs_disk_inode
  ino :: nat
  dirty :: bool
  reclaim_count :: int

text \<open>The 64 bytes of \<open>struct sfs_disk_inode\<close>.\<close>

definition din_bytes :: "sfs_disk_inode \<Rightarrow> bytes" where
  "din_bytes d = le_bytes 4 (di_size d) @ le_bytes 2 (di_type d) @ le_bytes 2 (nlinks d) @ le_bytes 4 (di_blocks d) @
     concat (map (le_bytes 4) (direct d)) @ le_bytes 4 (indirect d)"

definition bytes_din :: "bytes \<Rightarrow> sfs_disk_inode" where
  "bytes_din bs = \<lparr>di_size = le_val (seg 0 4 bs), di_type = le_val (seg 4 2 bs), nlinks = le_val (seg 6 2 bs),
     di_blocks = le_val (seg 8 4 bs), direct = map (\<lambda>i. le_val (seg (12 + 4 * i) 4 bs)) [0..<12],
     indirect = le_val (seg 60 4 bs)\<rparr>"

section \<open>Disk blocks\<close>

definition sfs_block_inuse :: "sfs_fs \<Rightarrow> nat \<Rightarrow> bool option" where
  "sfs_block_inuse s i =
     (if i \<noteq> 0 \<and> i < blocks (super s) then do { t \<leftarrow> bitmap_test (freemap s) i; Some (\<not> t) } else None)"

definition sfs_block_alloc :: "sfs_fs \<Rightarrow> (int \<times> sfs_fs \<times> nat) option" where
  "sfs_block_alloc s = do {
     (ret, i, fm) \<leftarrow> bitmap_alloc (freemap s);
     let s = s\<lparr>freemap := fm\<rparr>;
     if ret \<noteq> 0 then Some (ret, s, 0)
     else do {
       kassert (unused_blocks (super s) > 0);
       let s = s\<lparr>super := (super s)\<lparr>unused_blocks := unused_blocks (super s) - 1\<rparr>, super_dirty := True\<rparr>;
       used \<leftarrow> sfs_block_inuse s i;
       kassert used;
       (ret, s) \<leftarrow> sfs_clear_block s i 1;
       Some (ret, s, i) } }"

definition sfs_block_free :: "sfs_fs \<Rightarrow> nat \<Rightarrow> sfs_fs option" where
  "sfs_block_free s i = do {
     used \<leftarrow> sfs_block_inuse s i;
     kassert used;
     fm \<leftarrow> bitmap_free (freemap s) i;
     Some (s\<lparr>freemap := fm, super := (super s)\<lparr>unused_blocks := u32 (unused_blocks (super s) + 1)\<rparr>, super_dirty := True\<rparr>) }"

section \<open>The block map of a file\<close>

text \<open>Result: return code, volume, \<open>*entp\<close>, \<open>*ino_store\<close>. The label \<open>failed_cleanup\<close>.\<close>

definition bmap_cleanup :: "sfs_fs \<Rightarrow> nat \<Rightarrow> nat \<Rightarrow> int \<Rightarrow> (int \<times> sfs_fs \<times> nat \<times> nat) option" where
  "bmap_cleanup s entp ent ret = do {
     s \<leftarrow> (if ent \<noteq> entp then sfs_block_free s ent else Some s);
     Some (ret, s, entp, 0) }"

text \<open>The common tail after \<open>ent\<close> is known: allocate the data block and enter it.\<close>

definition bmap_get_new :: "sfs_fs \<Rightarrow> nat \<Rightarrow> nat \<Rightarrow> nat \<Rightarrow> (int \<times> sfs_fs \<times> nat \<times> nat) option" where
  "bmap_get_new s entp ent offset = do {
     (ret, s, i) \<leftarrow> sfs_block_alloc s;
     if ret \<noteq> 0 then bmap_cleanup s entp ent ret
     else do {
       (ret, s, _) \<leftarrow> sfs_wbuf s (le_bytes 4 i) 0 4 ent offset;
       if ret \<noteq> 0 then do {
         s \<leftarrow> sfs_block_free s i;
         bmap_cleanup s entp ent ret }
       else Some (0, s, ent, i) } }"

definition sfs_bmap_get_sub_nolock :: "sfs_fs \<Rightarrow> nat \<Rightarrow> nat \<Rightarrow> bool \<Rightarrow> (int \<times> sfs_fs \<times> nat \<times> nat) option" where
  "sfs_bmap_get_sub_nolock s entp index create = do {
     kassert (index < SFS_BLK_NENTRY);
     let offset = index * 4;
     if entp \<noteq> 0
     then do {
       (ret, s, bs) \<leftarrow> sfs_rbuf s (le_bytes 4 0) 0 4 entp offset;
       if ret \<noteq> 0 then Some (ret, s, entp, 0)
       else if le_val bs \<noteq> 0 \<or> \<not> create then Some (0, s, entp, le_val bs)
       else bmap_get_new s entp entp offset }
     else if \<not> create then Some (0, s, entp, 0)
     else do {
       (ret, s, ent) \<leftarrow> sfs_block_alloc s;
       if ret \<noteq> 0 then Some (ret, s, entp, 0)
       else bmap_get_new s entp ent offset } }"

text \<open>The label \<open>out\<close> of \<open>sfs_bmap_get_nolock\<close>.\<close>

definition bmap_get_out :: "sfs_fs \<Rightarrow> sfs_inode \<Rightarrow> nat \<Rightarrow> (int \<times> sfs_fs \<times> sfs_inode \<times> nat) option" where
  "bmap_get_out s sin i = do {
     used \<leftarrow> (if i = 0 then Some True else sfs_block_inuse s i);
     kassert used;
     Some (0, s, sin, i) }"

definition sfs_bmap_get_nolock :: "sfs_fs \<Rightarrow> sfs_inode \<Rightarrow> nat \<Rightarrow> bool \<Rightarrow> (int \<times> sfs_fs \<times> sfs_inode \<times> nat) option" where
  "sfs_bmap_get_nolock s sin index create =
     (if index < SFS_NDIRECT
      then let i = direct (din sin) ! index in
        if i = 0 \<and> create
        then do {
          (ret, s, i) \<leftarrow> sfs_block_alloc s;
          if ret \<noteq> 0 then Some (ret, s, sin, 0)
          else bmap_get_out s (sin\<lparr>din := (din sin)\<lparr>direct := (direct (din sin))[index := i]\<rparr>, dirty := True\<rparr>) i }
        else bmap_get_out s sin i
      else if index - SFS_NDIRECT < SFS_BLK_NENTRY
      then do {
        (ret, s, ent, i) \<leftarrow> sfs_bmap_get_sub_nolock s (indirect (din sin)) (index - SFS_NDIRECT) create;
        if ret \<noteq> 0 then Some (ret, s, sin, 0)
        else if ent \<noteq> indirect (din sin)
        then do {
          kassert (indirect (din sin) = 0);
          bmap_get_out s (sin\<lparr>din := (din sin)\<lparr>indirect := ent\<rparr>, dirty := True\<rparr>) i }
        else bmap_get_out s sin i }
      else None)"

definition sfs_bmap_free_sub_nolock :: "sfs_fs \<Rightarrow> nat \<Rightarrow> nat \<Rightarrow> (int \<times> sfs_fs) option" where
  "sfs_bmap_free_sub_nolock s ent index = do {
     used \<leftarrow> sfs_block_inuse s ent;
     kassert (used \<and> index < SFS_BLK_NENTRY);
     let offset = index * 4;
     (ret, s, bs) \<leftarrow> sfs_rbuf s (replicate 4 0) 0 4 ent offset;
     if ret \<noteq> 0 then Some (ret, s)
     else if le_val bs \<noteq> 0
     then do {
       (ret, s, _) \<leftarrow> sfs_wbuf s (le_bytes 4 0) 0 4 ent offset;
       if ret \<noteq> 0 then Some (ret, s)
       else do {
         s \<leftarrow> sfs_block_free s (le_val bs);
         Some (0, s) } }
     else Some (0, s) }"

definition sfs_bmap_free_nolock :: "sfs_fs \<Rightarrow> sfs_inode \<Rightarrow> nat \<Rightarrow> (int \<times> sfs_fs \<times> sfs_inode) option" where
  "sfs_bmap_free_nolock s sin index =
     (if index < SFS_NDIRECT
      then let i = direct (din sin) ! index in
        if i \<noteq> 0
        then do {
          s \<leftarrow> sfs_block_free s i;
          Some (0, s, sin\<lparr>din := (din sin)\<lparr>direct := (direct (din sin))[index := 0]\<rparr>, dirty := True\<rparr>) }
        else Some (0, s, sin)
      else if index - SFS_NDIRECT < SFS_BLK_NENTRY
      then if indirect (din sin) \<noteq> 0
        then do {
          (ret, s) \<leftarrow> sfs_bmap_free_sub_nolock s (indirect (din sin)) (index - SFS_NDIRECT);
          Some (ret, s, sin) }
        else Some (0, s, sin)
      else Some (0, s, sin))"

definition sfs_bmap_load_nolock :: "sfs_fs \<Rightarrow> sfs_inode \<Rightarrow> nat \<Rightarrow> (int \<times> sfs_fs \<times> sfs_inode \<times> nat) option" where
  "sfs_bmap_load_nolock s sin index = do {
     kassert (index \<le> di_blocks (din sin));
     let create = (index = di_blocks (din sin));
     (ret, s, sin, i) \<leftarrow> sfs_bmap_get_nolock s sin index create;
     if ret \<noteq> 0 then Some (ret, s, sin, 0)
     else do {
       used \<leftarrow> sfs_block_inuse s i;
       kassert used;
       let sin = (if create then sin\<lparr>din := (din sin)\<lparr>di_blocks := di_blocks (din sin) + 1\<rparr>\<rparr> else sin);
       Some (0, s, sin, i) } }"

definition sfs_bmap_truncate_nolock :: "sfs_fs \<Rightarrow> sfs_inode \<Rightarrow> (int \<times> sfs_fs \<times> sfs_inode) option" where
  "sfs_bmap_truncate_nolock s sin = do {
     kassert (di_blocks (din sin) \<noteq> 0);
     (ret, s, sin) \<leftarrow> sfs_bmap_free_nolock s sin (di_blocks (din sin) - 1);
     if ret \<noteq> 0 then Some (ret, s, sin)
     else Some (0, s, sin\<lparr>din := (din sin)\<lparr>di_blocks := di_blocks (din sin) - 1\<rparr>, dirty := True\<rparr>) }"

section \<open>Reading and writing\<close>

definition sfs_buf_op :: "bool \<Rightarrow> sfs_fs \<Rightarrow> bytes \<Rightarrow> nat \<Rightarrow> nat \<Rightarrow> nat \<Rightarrow> nat \<Rightarrow> (int \<times> sfs_fs \<times> bytes) option" where
  "sfs_buf_op wr = (if wr then sfs_wbuf else sfs_rbuf)"

definition sfs_block_op :: "bool \<Rightarrow> sfs_fs \<Rightarrow> bytes \<Rightarrow> nat \<Rightarrow> nat \<Rightarrow> nat \<Rightarrow> (int \<times> sfs_fs \<times> bytes) option" where
  "sfs_block_op wr = (if wr then sfs_wblock else sfs_rblock)"

text \<open>One access inside a single block: find the block, then move the bytes. Result: return code, volume, inode, buffer.\<close>

definition io_part ::
    "bool \<Rightarrow> sfs_fs \<Rightarrow> sfs_inode \<Rightarrow> bytes \<Rightarrow> nat \<Rightarrow> nat \<Rightarrow> nat \<Rightarrow> nat \<Rightarrow> (int \<times> sfs_fs \<times> sfs_inode \<times> bytes) option" where
  "io_part wr s sin buf base sz blkno blkoff = do {
     (ret, s, sin, i) \<leftarrow> sfs_bmap_load_nolock s sin blkno;
     if ret \<noteq> 0 then Some (ret, s, sin, buf)
     else do {
       (ret, s, buf) \<leftarrow> sfs_buf_op wr s buf base sz i blkoff;
       Some (ret, s, sin, buf) } }"

text \<open>The loop over whole blocks; the last result is the number of bytes moved.\<close>

fun io_blocks ::
    "bool \<Rightarrow> sfs_fs \<Rightarrow> sfs_inode \<Rightarrow> bytes \<Rightarrow> nat \<Rightarrow> nat \<Rightarrow> nat \<Rightarrow> nat \<Rightarrow> (int \<times> sfs_fs \<times> sfs_inode \<times> bytes \<times> nat) option" where
  "io_blocks wr s sin buf base blkno 0 alen = Some (0, s, sin, buf, alen)"
| "io_blocks wr s sin buf base blkno (Suc nblks) alen = do {
     (ret, s, sin, i) \<leftarrow> sfs_bmap_load_nolock s sin blkno;
     if ret \<noteq> 0 then Some (ret, s, sin, buf, alen)
     else do {
       (ret, s, buf) \<leftarrow> sfs_block_op wr s buf base i 1;
       if ret \<noteq> 0 then Some (ret, s, sin, buf, alen)
       else io_blocks wr s sin buf (base + SFS_BLKSIZE) (blkno + 1) nblks (alen + SFS_BLKSIZE) } }"

text \<open>From the loop over whole blocks to the label \<open>out\<close>.\<close>

definition io_rest ::
    "bool \<Rightarrow> sfs_fs \<Rightarrow> sfs_inode \<Rightarrow> bytes \<Rightarrow> nat \<Rightarrow> nat \<Rightarrow> nat \<Rightarrow> nat \<Rightarrow> nat \<Rightarrow> (int \<times> sfs_fs \<times> sfs_inode \<times> bytes \<times> nat) option" where
  "io_rest wr s sin buf base blkno nblks endpos alen = do {
     (ret, s, sin, buf, alen') \<leftarrow> io_blocks wr s sin buf base blkno nblks alen;
     if ret \<noteq> 0 then Some (ret, s, sin, buf, alen')
     else let sz = endpos mod SFS_BLKSIZE in
       if sz \<noteq> 0
       then do {
         (ret, s, sin, buf) \<leftarrow> io_part wr s sin buf (base + SFS_BLKSIZE * nblks) sz (blkno + nblks) 0;
         Some (ret, s, sin, buf, if ret = 0 then alen' + sz else alen') }
       else Some (0, s, sin, buf, alen') }"

text \<open>From the computation of the first block to the label \<open>out\<close>.\<close>

definition io_range ::
    "bool \<Rightarrow> sfs_fs \<Rightarrow> sfs_inode \<Rightarrow> bytes \<Rightarrow> nat \<Rightarrow> nat \<Rightarrow> nat \<Rightarrow> (int \<times> sfs_fs \<times> sfs_inode \<times> bytes \<times> nat) option" where
  "io_range wr s sin buf base offset endpos =
     (let blkno = offset div SFS_BLKSIZE; nblks = endpos div SFS_BLKSIZE - blkno; blkoff = offset mod SFS_BLKSIZE in
      if blkoff \<noteq> 0
      then let sz = (if nblks \<noteq> 0 then SFS_BLKSIZE - blkoff else endpos - offset) in do {
        (ret, s, sin, buf) \<leftarrow> io_part wr s sin buf base sz blkno blkoff;
        if ret \<noteq> 0 then Some (ret, s, sin, buf, 0)
        else if nblks = 0 then Some (0, s, sin, buf, sz)
        else io_rest wr s sin buf (base + sz) (blkno + 1) (nblks - 1) endpos sz }
      else io_rest wr s sin buf base blkno nblks endpos 0)"

text \<open>The label \<open>out\<close>.\<close>

definition io_out :: "nat \<Rightarrow> (int \<times> sfs_fs \<times> sfs_inode \<times> bytes \<times> nat) \<Rightarrow> (int \<times> sfs_fs \<times> sfs_inode \<times> bytes \<times> nat)" where
  "io_out offset r = (case r of (ret, s, sin, buf, alen) \<Rightarrow>
     (ret, s,
      (if offset + alen > di_size (din sin)
       then sin\<lparr>din := (din sin)\<lparr>di_size := u32 (offset + alen)\<rparr>, dirty := True\<rparr> else sin),
      buf, alen))"

definition sfs_io_nolock ::
    "sfs_fs \<Rightarrow> sfs_inode \<Rightarrow> bytes \<Rightarrow> nat \<Rightarrow> int \<Rightarrow> nat \<Rightarrow> bool \<Rightarrow> (int \<times> sfs_fs \<times> sfs_inode \<times> bytes \<times> nat) option" where
  "sfs_io_nolock s sin buf base offset alen wr = do {
     kassert (di_type (din sin) \<noteq> SFS_TYPE_DIR);
     let endpos = s64 (offset + int alen);
     if offset < 0 \<or> offset \<ge> int SFS_MAX_FILE_SIZE \<or> offset > endpos then Some (- E_INVAL, s, sin, buf, 0)
     else if offset = endpos then Some (0, s, sin, buf, 0)
     else let endpos = (if endpos > int SFS_MAX_FILE_SIZE then int SFS_MAX_FILE_SIZE else endpos) in
       if \<not> wr \<and> offset \<ge> int (di_size (din sin)) then Some (0, s, sin, buf, 0)
       else let endpos = (if \<not> wr \<and> endpos > int (di_size (din sin)) then int (di_size (din sin)) else endpos) in
         map_option (io_out (nat offset)) (io_range wr s sin buf base (nat offset) (nat endpos)) }"

definition sfs_io :: "sfs_fs \<Rightarrow> sfs_inode \<Rightarrow> iobuf \<Rightarrow> bool \<Rightarrow> (int \<times> sfs_fs \<times> sfs_inode \<times> iobuf) option" where
  "sfs_io s sin iob wr = do {
     (ret, s, sin, buf, alen) \<leftarrow> sfs_io_nolock s sin (io_buf iob) (io_base iob) (io_offset iob) (io_resid iob) wr;
     let iob = iob\<lparr>io_buf := buf\<rparr>;
     iob \<leftarrow> (if alen \<noteq> 0 then iobuf_skip iob alen else Some iob);
     Some (ret, s, sin, iob) }"

section \<open>Inode operations\<close>

definition sfs_fsync :: "sfs_fs \<Rightarrow> sfs_inode \<Rightarrow> (int \<times> sfs_fs \<times> sfs_inode) option" where
  "sfs_fsync s sin =
     (if dirty sin
      then do {
        (ret, s, _) \<leftarrow> sfs_wbuf s (din_bytes (din sin)) 0 64 (ino sin) 0;
        Some (ret, s, sin\<lparr>dirty := (ret \<noteq> 0)\<rparr>) }
      else Some (0, s, sin))"

definition S_IFREG :: nat where "S_IFREG = 4096"
definition S_IFDIR :: nat where "S_IFDIR = 8192"
definition S_IFLNK :: nat where "S_IFLNK = 12288"
definition S_IFCHR :: nat where "S_IFCHR = 16384"
definition S_IFBLK :: nat where "S_IFBLK = 20480"

definition sfs_gettype :: "sfs_inode \<Rightarrow> nat option" where
  "sfs_gettype sin =
     (if di_type (din sin) = SFS_TYPE_DIR then Some S_IFDIR
      else if di_type (din sin) = SFS_TYPE_FILE then Some S_IFREG
      else if di_type (din sin) = SFS_TYPE_LINK then Some S_IFLNK
      else None)"

record stat =
  st_mode :: nat
  st_nlinks :: nat
  st_blocks :: nat
  st_size :: nat

definition sfs_fstat :: "sfs_inode \<Rightarrow> stat option" where
  "sfs_fstat sin = do {
     mode \<leftarrow> sfs_gettype sin;
     Some \<lparr>st_mode = mode, st_nlinks = nlinks (din sin), st_blocks = di_blocks (din sin), st_size = di_size (din sin)\<rparr> }"

text \<open>The loops of \<open>sfs_truncfile\<close>: load \<open>n\<close> new blocks from \<open>nblks\<close> on, or drop the last \<open>n\<close> blocks.\<close>

fun trunc_grow :: "sfs_fs \<Rightarrow> sfs_inode \<Rightarrow> nat \<Rightarrow> nat \<Rightarrow> (int \<times> sfs_fs \<times> sfs_inode) option" where
  "trunc_grow s sin nblks 0 = Some (0, s, sin)"
| "trunc_grow s sin nblks (Suc n) = do {
     (ret, s, sin, _) \<leftarrow> sfs_bmap_load_nolock s sin nblks;
     if ret \<noteq> 0 then Some (ret, s, sin) else trunc_grow s sin (nblks + 1) n }"

fun trunc_shrink :: "sfs_fs \<Rightarrow> sfs_inode \<Rightarrow> nat \<Rightarrow> (int \<times> sfs_fs \<times> sfs_inode) option" where
  "trunc_shrink s sin 0 = Some (0, s, sin)"
| "trunc_shrink s sin (Suc n) = do {
     (ret, s, sin) \<leftarrow> sfs_bmap_truncate_nolock s sin;
     if ret \<noteq> 0 then Some (ret, s, sin) else trunc_shrink s sin n }"

definition sfs_truncfile :: "sfs_fs \<Rightarrow> sfs_inode \<Rightarrow> int \<Rightarrow> (int \<times> sfs_fs \<times> sfs_inode) option" where
  "sfs_truncfile s sin len =
     (if len < 0 \<or> len > int SFS_MAX_FILE_SIZE then Some (- E_INVAL, s, sin)
      else let tblks = ROUNDUP_DIV (nat len) SFS_BLKSIZE; nblks = di_blocks (din sin) in
        if int (di_size (din sin)) = len
        then do { kassert (tblks = nblks); Some (0, s, sin) }
        else do {
          (ret, s, sin) \<leftarrow>
            (if nblks < tblks then trunc_grow s sin nblks (tblks - nblks)
             else if tblks < nblks then trunc_shrink s sin (nblks - tblks)
             else Some (0, s, sin));
          if ret \<noteq> 0 then Some (ret, s, sin)
          else do {
            kassert (di_blocks (din sin) = tblks);
            Some (0, s, sin\<lparr>din := (din sin)\<lparr>di_size := nat len\<rparr>, dirty := True\<rparr>) } })"

definition sfs_tryseek :: "sfs_fs \<Rightarrow> sfs_inode \<Rightarrow> int \<Rightarrow> (int \<times> sfs_fs \<times> sfs_inode) option" where
  "sfs_tryseek s sin pos =
     (if pos < 0 \<or> pos \<ge> int SFS_MAX_FILE_SIZE then Some (- E_INVAL, s, sin)
      else if pos > int (di_size (din sin)) then sfs_truncfile s sin pos
      else Some (0, s, sin))"

end
