(* ===== verification/Sfs_Map.thy ===== *)
theory Sfs_Map
  imports Sfs_File
begin

text \<open>
  The invariants of a mounted volume and of one inode, and what the operations on the block map of a file do to
  them: \<open>fs_ok\<close> (the free map, the count of free blocks, the blocks of the disk), \<open>ino_ok\<close> (the
  blocks of an inode are in use and distinct), the abstract contents \<open>fb\<close> of a file byte by byte, and \<open>file_eff\<close>,
  the effect of an operation on one file with its frame: nothing of any other file changes.
\<close>


section \<open>Invariant of the volume\<close>

abbreviation nblocks :: "sfs_fs \<Rightarrow> nat" where
  "nblocks s \<equiv> blocks (super s)"

definition free :: "sfs_fs \<Rightarrow> nat set" where
  "free s = free_bits (freemap s)"

definition used :: "sfs_fs \<Rightarrow> nat set" where
  "used s = {b. 0 < b \<and> b < nblocks s \<and> b \<notin> free s}"

text \<open>The free map covers the volume, block 0 (the superblock) is never free, and the count in the superblock is
  the number of free blocks.\<close>

definition fs_ok :: "sfs_fs \<Rightarrow> bool" where
  "fs_ok s \<longleftrightarrow> vol_ok s \<and> bitmap_inv (freemap s) \<and> nblocks s \<le> nbits (freemap s) \<and> 0 \<notin> free s \<and>
     (\<forall>b\<in>free s. b < nblocks s) \<and> unused_blocks (super s) = card (free s)"

text \<open>What the operations on blocks leave alone.\<close>

definition geo :: "sfs_fs \<Rightarrow> nat \<times> nat \<times> bytes \<times> nat list \<times> (nat \<Rightarrow> nat list)" where
  "geo s = (nblocks s, magic (super s), info (super s), inode_list s, hash_list s)"

lemma geoD: "geo s' = geo s \<Longrightarrow> nblocks s' = nblocks s"
  by (simp add: geo_def)

lemma fs_ok_finite: "fs_ok s \<Longrightarrow> finite (free s)"
  by (rule finite_subset [of _ "{..<nblocks s}"]) (auto simp: fs_ok_def)

lemma fs_ok_bound: "fs_ok s \<Longrightarrow> nblocks s \<le> 2 ^ 20"
  by (simp add: fs_ok_def vol_ok_def)

lemma fs_ok_zero: "fs_ok s \<Longrightarrow> 0 \<notin> free s"
  by (simp add: fs_ok_def)

lemma fs_ok_vol: "fs_ok s \<Longrightarrow> vol_ok s"
  by (simp add: fs_ok_def)

lemma upd_blk_fs:
  assumes "fs_ok s" "upd_blk s s' f"
  shows "fs_ok s'" "free s' = free s" "geo s' = geo s" "\<And>c. c < nblocks s \<Longrightarrow> blk s' c = f c"
  using assms by (auto simp: upd_blk_def fs_ok_def meta_def free_def geo_def)

lemma sfs_block_inuse_iff:
  assumes "fs_ok s"
  shows "sfs_block_inuse s b = (if 0 < b \<and> b < nblocks s then Some (b \<in> used s) else None)"
  using assms by (auto simp: sfs_block_inuse_def bitmap_test_iff fs_ok_def used_def free_def)

lemma sfs_block_alloc_cases:
  assumes ok: "fs_ok s"
  shows "if free s = {} then sfs_block_alloc s = Some (- E_NO_MEM, s, 0)
    else \<exists>s' b. sfs_block_alloc s = Some (0, s', b) \<and> b \<in> free s \<and> fs_ok s' \<and> free s' = free s - {b} \<and> geo s' = geo s \<and>
      (\<forall>c<nblocks s. blk s' c = (if c = b then replicate 4096 0 else blk s c))"
proof (cases "free s = {}")
  case True
  then have "bitmap_alloc (freemap s) = Some (- E_NO_MEM, 0, freemap s)"
    using bitmap_alloc_cases [of "freemap s"] ok by (simp add: fs_ok_def free_def)
  then show ?thesis using True by (simp add: sfs_block_alloc_def error_codes)
next
  case False
  let ?b = "LEAST i. i \<in> free_bits (freemap s)"
  obtain fm where fm: "bitmap_alloc (freemap s) = Some (0, ?b, fm)" "nbits fm = nbits (freemap s)"
      "free_bits fm = free s - {?b}" "bitmap_inv fm"
    using bitmap_alloc_cases [of "freemap s"] ok False by (auto simp: fs_ok_def free_def)
  have bf: "?b \<in> free s" using False by (metis LeastI ex_in_conv free_def)
  have bb: "0 < ?b" "?b < nblocks s" using ok bf by (auto simp: fs_ok_def intro: gr0I)
  have pos: "0 < card (free s)" using False fs_ok_finite [OF ok] by (simp add: card_gt_0_iff)
  let ?s = "s\<lparr>freemap := fm, super := (super s)\<lparr>unused_blocks := unused_blocks (super s) - 1\<rparr>, super_dirty := True\<rparr>"
  have ok1: "fs_ok ?s"
    using ok fm bf fs_ok_finite [OF ok] by (auto simp: fs_ok_def free_def vol_ok_def)
  have f1: "free ?s = free s - {?b}" using fm by (simp add: free_def)
  obtain s' where s': "sfs_clear_block ?s ?b 1 = Some (0, s')" "upd_blk ?s s' ((blk ?s)(?b := replicate 4096 0))"
    using sfs_clear_block_spec [of ?s ?b] fs_ok_vol [OF ok1] bb by auto
  have u: "sfs_block_inuse ?s ?b = Some True"
    using sfs_block_inuse_iff [OF ok1, of ?b] bb f1 by (simp add: used_def)
  have "sfs_block_alloc s = Some (0, s', ?b)"
    using fm(1) pos ok s'(1) u by (simp add: sfs_block_alloc_def kassert_def fs_ok_def Let_def)
  moreover have "fs_ok s'" "free s' = free s - {?b}" "geo s' = geo s"
    using upd_blk_fs(1-3) [OF ok1 s'(2)] f1 by (simp_all add: geo_def)
  moreover have "blk s' c = (if c = ?b then replicate 4096 0 else blk s c)" if "c < nblocks s" for c
    using upd_blk_fs(4) [OF ok1 s'(2), of c] that by (simp add: blk_def)
  ultimately show ?thesis using False bf by auto
qed

lemma sfs_block_free_spec:
  assumes ok: "fs_ok s" and b: "b \<in> used s"
  shows "\<exists>s'. sfs_block_free s b = Some s' \<and> fs_ok s' \<and> free s' = insert b (free s) \<and> geo s' = geo s \<and> blk s' = blk s"
proof -
  have bb: "0 < b" "b < nblocks s" "b \<notin> free s" using b by (auto simp: used_def)
  obtain fm where fm: "bitmap_free (freemap s) b = Some fm" "nbits fm = nbits (freemap s)" "free_bits fm = insert b (free s)"
      "bitmap_inv fm"
    using bitmap_free_cases [of "freemap s" b] ok bb by (auto simp: fs_ok_def free_def)
  have "card (free s) \<le> card {..<nblocks s}" by (rule card_mono) (use ok in \<open>auto simp: fs_ok_def\<close>)
  then have c: "Suc (card (free s)) < 2 ^ 32" using fs_ok_bound [OF ok] by simp
  let ?s = "s\<lparr>freemap := fm, super := (super s)\<lparr>unused_blocks := u32 (unused_blocks (super s) + 1)\<rparr>, super_dirty := True\<rparr>"
  have "sfs_block_free s b = Some ?s"
    using fm b sfs_block_inuse_iff [OF ok, of b] bb by (simp add: sfs_block_free_def kassert_def)
  moreover have "fs_ok ?s"
    using ok fm bb c fs_ok_finite [OF ok] by (auto simp: fs_ok_def free_def vol_ok_def)
  ultimately show ?thesis using fm(3) by (auto simp: free_def geo_def blk_def fun_eq_iff)
qed


section \<open>The block map of a file\<close>

definition ent :: "sfs_fs \<Rightarrow> nat \<Rightarrow> nat \<Rightarrow> nat" where
  "ent s e j = le_val (seg (j * 4) 4 (blk s e))"

definition bmap :: "sfs_fs \<Rightarrow> sfs_disk_inode \<Rightarrow> nat \<Rightarrow> nat" where
  "bmap s d i = (if i < 12 then direct d ! i else if indirect d = 0 then 0 else ent s (indirect d) (i - 12))"

text \<open>The invariant of one inode: its blocks are in use and distinct, and behind the last one the map is zero.\<close>

definition ino_ok :: "sfs_fs \<Rightarrow> sfs_disk_inode \<Rightarrow> bool" where
  "ino_ok s d \<longleftrightarrow> length (direct d) = 12 \<and> di_blocks d \<le> 1036 \<and>
     (\<forall>i<di_blocks d. bmap s d i \<in> used s) \<and> (\<forall>i. di_blocks d \<le> i \<longrightarrow> i < 1036 \<longrightarrow> bmap s d i = 0) \<and>
     inj_on (bmap s d) {..<di_blocks d} \<and>
     (indirect d \<noteq> 0 \<longrightarrow> indirect d \<in> used s \<and> (\<forall>i<di_blocks d. bmap s d i \<noteq> indirect d))"

definition own :: "sfs_fs \<Rightarrow> sfs_disk_inode \<Rightarrow> nat set" where
  "own s d = bmap s d ` {..<di_blocks d} \<union> (if indirect d = 0 then {} else {indirect d})"

text \<open>Byte \<open>p\<close> of the blocks of a file, 0 behind them.\<close>

definition fb :: "sfs_fs \<Rightarrow> sfs_disk_inode \<Rightarrow> nat \<Rightarrow> 8 word" where
  "fb s d p = (if p < 4096 * di_blocks d then blk s (bmap s d (p div 4096)) ! (p mod 4096) else 0)"

text \<open>\<open>file_eff s d s' d' g\<close>: the volume and the file stay well-formed, the bytes of the file are \<open>g\<close> now, the
  file got new blocks only from the free ones, every block that is no longer free belongs to the file, and no block in
  use elsewhere changed.\<close>

definition file_eff :: "sfs_fs \<Rightarrow> sfs_disk_inode \<Rightarrow> sfs_fs \<Rightarrow> sfs_disk_inode \<Rightarrow> (nat \<Rightarrow> 8 word) \<Rightarrow> bool" where
  "file_eff s d s' d' g \<longleftrightarrow> fs_ok s' \<and> ino_ok s' d' \<and> geo s' = geo s \<and> free s' \<subseteq> free s \<and> own s d \<subseteq> own s' d' \<and>
     own s' d' \<subseteq> own s d \<union> (free s - free s') \<and> free s - free s' \<subseteq> own s' d' \<and> fb s' d' = g \<and>
     (\<forall>c\<in>used s - own s d. blk s' c = blk s c) \<and>
     di_size d' = di_size d \<and> di_type d' = di_type d \<and> nlinks d' = nlinks d"

lemma file_eff_trans:
  assumes "file_eff s d s1 d1 g1" "file_eff s1 d1 s2 d2 g2"
  shows "file_eff s d s2 d2 g2"
proof -
  note a = assms [unfolded file_eff_def]
  have "blk s2 c = blk s c" if "c \<in> used s - own s d" for c
  proof -
    have "c \<in> used s1 - own s1 d1" using a that by (auto simp: used_def geo_def)
    then show ?thesis using a that by auto
  qed
  moreover have "own s2 d2 \<subseteq> own s d \<union> (free s - free s2)" "free s - free s2 \<subseteq> own s2 d2" using a by blast+
  ultimately show ?thesis using a by (auto simp: file_eff_def)
qed

lemma bmap_cong:
  assumes "\<And>c. c = indirect d \<Longrightarrow> c \<noteq> 0 \<Longrightarrow> blk s' c = blk s c"
  shows "bmap s' d = bmap s d"
  using assms by (auto simp: bmap_def ent_def)

lemma file_eff_refl:
  assumes "fs_ok s" "ino_ok s d"
  shows "file_eff s d s d (fb s d)"
  using assms by (auto simp: file_eff_def)

text \<open>Writing one block of the file.\<close>

definition overlay :: "(nat \<Rightarrow> 'a) \<Rightarrow> nat \<Rightarrow> 'a list \<Rightarrow> nat \<Rightarrow> 'a" where
  "overlay f pos xs p = (if pos \<le> p \<and> p < pos + length xs then xs ! (p - pos) else f p)"

lemma overlay_append: "overlay (overlay f pos xs) (pos + length xs) ys = overlay f pos (xs @ ys)"
  by (auto simp: overlay_def fun_eq_iff nth_append add.assoc)

lemma overlay_Nil [simp]: "overlay f pos [] = f"
  by (auto simp: overlay_def fun_eq_iff)

lemma bmap_used: "ino_ok s d \<Longrightarrow> i < di_blocks d \<Longrightarrow> bmap s d i \<in> used s"
  by (simp add: ino_ok_def)

lemma usedD: "b \<in> used s \<Longrightarrow> 0 < b \<and> b < nblocks s \<and> b \<notin> free s"
  by (simp add: used_def)

lemma upd_same:
  assumes "fs_ok s" "ino_ok s d" "upd_blk s s' (blk s)"
  shows "file_eff s d s' d (fb s d)" "bmap s' d = bmap s d" "free s' = free s"
proof -
  note u = upd_blk_fs [OF assms(1,3)]
  have bm: "bmap s' d = bmap s d"
    by (rule bmap_cong) (use assms(2) u(4) in \<open>auto simp: ino_ok_def used_def\<close>)
  have us: "used s' = used s" using u by (simp add: used_def geo_def)
  have "fb s' d = fb s d"
    unfolding fb_def fun_eq_iff bm using u(4) assms(2) by (auto simp: ino_ok_def used_def less_mult_imp_div_less mult.commute)
  then show "file_eff s d s' d (fb s d)"
    using assms(2) u us bm by (auto simp: file_eff_def ino_ok_def own_def used_def)
  show "bmap s' d = bmap s d" "free s' = free s" by fact+
qed

lemma upd_data:
  assumes ok: "fs_ok s" "ino_ok s d" and i: "i < di_blocks d" and off: "off + length xs \<le> 4096"
    and u: "upd_blk s s' ((blk s)(bmap s d i := blit (blk s (bmap s d i)) off xs))"
  shows "file_eff s d s' d (overlay (fb s d) (4096 * i + off) xs)" "free s' = free s"
proof -
  note u = upd_blk_fs [OF ok(1) u]
  let ?b = "bmap s d i"
  have bu: "?b \<in> used s" by (rule bmap_used [OF ok(2) i])
  have ne: "indirect d \<noteq> ?b" using ok(2) i by (cases "indirect d = 0") (auto simp: ino_ok_def used_def)
  have bm: "bmap s' d = bmap s d"
    by (rule bmap_cong) (use ok(2) u(4) ne in \<open>auto simp: ino_ok_def used_def\<close>)
  have us: "used s' = used s" using u by (simp add: used_def geo_def)
  have l: "length (blk s ?b) = 4096" using length_blk [of s ?b] ok(1) bu by (simp add: fs_ok_def used_def)
  have "fb s' d p = overlay (fb s d) (4096 * i + off) xs p" for p
  proof (cases "p < 4096 * di_blocks d")
    case True
    then have k: "p div 4096 < di_blocks d" by (simp add: less_mult_imp_div_less mult.commute)
    have kb: "bmap s d (p div 4096) < nblocks s" using bmap_used [OF ok(2) k] usedD by blast
    have p: "p = 4096 * (p div 4096) + p mod 4096" by simp
    show ?thesis
    proof (cases "p div 4096 = i")
      case True
      have "blk s' ?b = blit (blk s ?b) off xs" using u(4) [of ?b] bu by (simp add: used_def)
      then have "fb s' d p = blit (blk s ?b) off xs ! (p mod 4096)"
        using True \<open>p < 4096 * di_blocks d\<close> by (simp add: fb_def bm)
      also have "\<dots> = (if off \<le> p mod 4096 \<and> p mod 4096 < off + length xs then xs ! (p mod 4096 - off) else blk s ?b ! (p mod 4096))"
        by (rule nth_blit) (use off l in simp)
      also have "\<dots> = overlay (fb s d) (4096 * i + off) xs p"
      proof -
        have pp: "p = 4096 * i + p mod 4096" using p True by simp
        have "4096 * i + off \<le> p \<longleftrightarrow> off \<le> p mod 4096" "p < 4096 * i + off + length xs \<longleftrightarrow> p mod 4096 < off + length xs"
            "p - (4096 * i + off) = p mod 4096 - off"
          using pp by linarith+
        then show ?thesis using True \<open>p < 4096 * di_blocks d\<close> by (auto simp: overlay_def fb_def)
      qed
      finally show ?thesis .
    next
      case False
      have "bmap s d (p div 4096) \<noteq> ?b" using False k i ok(2) by (auto simp: ino_ok_def inj_on_def)
      then have "fb s' d p = fb s d p" using u(4) [OF kb] by (simp add: fb_def bm)
      moreover have "\<not> (4096 * i + off \<le> p \<and> p < 4096 * i + off + length xs)"
      proof
        assume "4096 * i + off \<le> p \<and> p < 4096 * i + off + length xs"
        then have "4096 * i \<le> p" "p < 4096 * i + 4096" using off by linarith+
        then have "p div 4096 = i" by (simp add: div_nat_eqI mult.commute)
        with False show False by blast
      qed
      ultimately show ?thesis by (auto simp: overlay_def)
    qed
  next
    case False
    have "4096 * i + off + length xs \<le> 4096 * di_blocks d" using off i by linarith
    then show ?thesis using False by (simp add: fb_def overlay_def)
  qed
  then have "fb s' d = overlay (fb s d) (4096 * i + off) xs" by blast
  then show "file_eff s d s' d (overlay (fb s d) (4096 * i + off) xs)"
    using ok(2) u us bm i by (auto simp: file_eff_def ino_ok_def own_def used_def)
  show "free s' = free s" by (rule u(2))
qed


lemma ent_write:
  assumes "vol_ok s" "e < nblocks s" "j < 1024" "b < 2 ^ 32" "blk s' e = blit (blk s e) (j * 4) (le_bytes 4 b)" "k < 1024"
  shows "ent s' e k = (if k = j then b else ent s e k)"
proof -
  have l: "length (blk s e) = 4096" by (rule length_blk [OF assms(1,2)])
  show ?thesis
  proof (cases "k = j")
    case True
    have "seg (j * 4) 4 (blk s' e) = le_bytes 4 b"
      unfolding assms(5) using seg_blit_same [of "j * 4" "le_bytes 4 b" "blk s e"] l assms(3) by simp
    then show ?thesis using True assms(4) by (simp add: ent_def le_val_le_bytes)
  next
    case False
    then have "k * 4 + 4 \<le> j * 4 \<or> j * 4 + 4 \<le> k * 4" by linarith
    then have "seg (k * 4) 4 (blk s' e) = seg (k * 4) 4 (blk s e)"
      unfolding assms(5) using seg_blit_other [of "j * 4" "le_bytes 4 b" "blk s e" "k * 4" 4] l assms(3,6) by simp
    then show ?thesis using False by (simp add: ent_def)
  qed
qed

lemma bmap_get_new_cases:
  assumes ok: "fs_ok s" and e: "e \<in> used s" and j: "j < 1024" and ep: "e = entp \<or> entp = 0"
  shows "if free s = {}
    then \<exists>s'. bmap_get_new s entp e (j * 4) = Some (- E_NO_MEM, s', entp, 0) \<and> fs_ok s' \<and>
      free s' = (if e = entp then free s else insert e (free s)) \<and> geo s' = geo s \<and> blk s' = blk s
    else \<exists>s' b. bmap_get_new s entp e (j * 4) = Some (0, s', e, b) \<and> b \<in> free s \<and> fs_ok s' \<and> free s' = free s - {b} \<and>
      geo s' = geo s \<and> (\<forall>c<nblocks s. blk s' c =
        (if c = b then replicate 4096 0 else if c = e then blit (blk s e) (j * 4) (le_bytes 4 b) else blk s c))"
proof (cases "free s = {}")
  case True
  then have a: "sfs_block_alloc s = Some (- E_NO_MEM, s, 0)" using sfs_block_alloc_cases [OF ok] by simp
  show ?thesis
  proof (cases "e = entp")
    case same: True
    have "bmap_get_new s entp e (j * 4) = Some (- E_NO_MEM, s, entp, 0)"
      using a same by (simp add: bmap_get_new_def bmap_cleanup_def error_codes)
    then show ?thesis using True same ok by auto
  next
    case False
    obtain s' where "sfs_block_free s e = Some s'" "fs_ok s'" "free s' = insert e (free s)" "geo s' = geo s" "blk s' = blk s"
      using sfs_block_free_spec [OF ok e] by blast
    then show ?thesis using a True False by (simp add: bmap_get_new_def bmap_cleanup_def error_codes)
  qed
next
  case False
  then obtain s1 b where s1: "sfs_block_alloc s = Some (0, s1, b)" "b \<in> free s" "fs_ok s1" "free s1 = free s - {b}"
      "geo s1 = geo s" "\<And>c. c < nblocks s \<Longrightarrow> blk s1 c = (if c = b then replicate 4096 0 else blk s c)"
    using sfs_block_alloc_cases [OF ok] by auto
  note nb = geoD [OF s1(5)]
  have be: "e \<noteq> b" "0 < e" "e < nblocks s" using e s1(2) by (auto simp: used_def)
  obtain s2 where s2: "sfs_wbuf s1 (le_bytes 4 b) 0 4 e (j * 4) = Some (0, s2, le_bytes 4 b)"
      "upd_blk s1 s2 ((blk s1)(e := blit (blk s1 e) (j * 4) (seg 0 4 (le_bytes 4 b))))"
    using sfs_wbuf_spec [of s1 e "j * 4" 4 0 "le_bytes 4 b"] fs_ok_vol [OF s1(3)] be nb j by auto
  note u = upd_blk_fs [OF s1(3) s2(2)]
  have "bmap_get_new s entp e (j * 4) = Some (0, s2, e, b)"
    using s1(1) s2(1) by (simp add: bmap_get_new_def)
  moreover have "blk s2 c = (if c = b then replicate 4096 0 else if c = e then blit (blk s e) (j * 4) (le_bytes 4 b) else blk s c)"
    if "c < nblocks s" for c
    using u(4) [of c] that s1(6) nb be by (auto simp: seg_0_all)
  ultimately show ?thesis using False s1 u by auto
qed

text \<open>A file that has got one more, empty, block.\<close>

lemma add_block:
  assumes zero: "0 \<notin> free s" and ok: "ino_ok s d" and n: "di_blocks d < 1036" and s': "fs_ok s'" "geo s' = geo s" "free s' \<subseteq> free s"
    and ln: "length (direct d') = 12" and b: "b \<in> free s - free s'" "b \<noteq> 0" "b < nblocks s"
    and leak: "free s - free s' \<subseteq> {b, indirect d'}"
    and bm: "\<And>i. i < 1036 \<Longrightarrow> bmap s' d' i = (if i = di_blocks d then b else bmap s d i)"
    and ind: "indirect d' = indirect d \<and> (indirect d \<noteq> 0 \<longrightarrow> indirect d \<noteq> b) \<or>
       indirect d = 0 \<and> indirect d' \<in> free s - free s' \<and> indirect d' \<noteq> b \<and> indirect d' \<noteq> 0 \<and> indirect d' < nblocks s"
    and blk: "blk s' b = replicate 4096 0" "\<And>c. c \<in> used s \<Longrightarrow> c \<noteq> indirect d \<Longrightarrow> blk s' c = blk s c"
    and at: "di_blocks d' = Suc (di_blocks d)" "di_size d' = di_size d" "di_type d' = di_type d" "nlinks d' = nlinks d"
  shows "file_eff s d s' d' (fb s d)"
proof -
  let ?n = "di_blocks d"
  have nb: "nblocks s' = nblocks s" using geoD [OF s'(2)] .
  have us: "used s \<subseteq> used s'" using s'(3) nb by (auto simp: used_def)
  have bu: "b \<in> used s'" "b \<notin> used s" using b nb by (auto simp: used_def)
  have old: "bmap s d i \<in> used s" "bmap s d i \<noteq> indirect d" if "i < ?n" for i
    using ok that by (cases "indirect d = 0"; auto simp: ino_ok_def used_def)+
  have im: "bmap s' d' ` {..<di_blocks d'} = insert b (bmap s d ` {..<?n})"
    using bm n at(1) by (auto simp: lessThan_Suc image_iff)
  have fbb: "fb s' d' p = fb s d p" for p
  proof (cases "p div 4096 < ?n")
    case True
    then have "p < 4096 * ?n" by (simp add: div_less_iff_less_mult mult.commute)
    then show ?thesis using True n bm [of "p div 4096"] old [OF True] blk(2) at(1) by (simp add: fb_def)
  next
    case False
    then have f: "\<not> p < 4096 * ?n" by (simp add: div_less_iff_less_mult mult.commute)
    show ?thesis
    proof (cases "p < 4096 * Suc ?n")
      case True
      then have "p div 4096 = ?n" using f by (intro div_nat_eqI) auto
      then show ?thesis using True f bm [of ?n] n blk(1) at(1) by (simp add: fb_def)
    qed (use f at(1) in \<open>simp add: fb_def\<close>)
  qed
  have "ino_ok s' d'"
    unfolding ino_ok_def
  proof (intro conjI allI impI)
    fix i assume "i < di_blocks d'"
    then show "bmap s' d' i \<in> used s'" using bm [of i] old(1) [of i] us bu(1) n at(1) by (cases "i = ?n") auto
  next
    fix i assume "di_blocks d' \<le> i" "i < 1036"
    then show "bmap s' d' i = 0" using bm [of i] ok at(1) by (simp add: ino_ok_def)
  next
    have "inj_on (bmap s d) {..<?n}" using ok by (simp add: ino_ok_def)
    moreover have "\<forall>i<?n. b \<noteq> bmap s d i" using old(1) bu(2) by blast
    ultimately have "inj_on (\<lambda>i. if i = ?n then b else bmap s d i) {..<Suc ?n}"
      unfolding inj_on_def by (auto simp: less_Suc_eq)
    moreover have "bmap s' d' i = (if i = ?n then b else bmap s d i)" if "i \<in> {..<Suc ?n}" for i using bm [of i] that n by simp
    ultimately show "inj_on (bmap s' d') {..<di_blocks d'}"
      unfolding at(1) by (subst inj_on_cong [of _ _ "\<lambda>i. if i = ?n then b else bmap s d i"]) blast+
  next
    assume "indirect d' \<noteq> 0"
    then show "indirect d' \<in> used s'" using ind ok us nb by (auto simp: ino_ok_def used_def)
  next
    fix i assume "indirect d' \<noteq> 0" "i < di_blocks d'"
    moreover have "bmap s d i \<noteq> indirect d'" if "i < ?n" using old [OF that] ind by (auto simp: used_def)
    ultimately show "bmap s' d' i \<noteq> indirect d'" using bm [of i] n at(1) ind by (cases "i = ?n") auto
  qed (use ln n at(1) in auto)
  moreover have "own s' d' \<subseteq> own s d \<union> (free s - free s')" "own s d \<subseteq> own s' d'"
    unfolding own_def im using b ind by auto
  moreover have "free s - free s' \<subseteq> own s' d'"
  proof -
    have "0 \<notin> free s - free s'" using ind s'(1) zero by auto
    then show ?thesis unfolding own_def im using leak by auto
  qed
  moreover have "blk s' c = blk s c" if "c \<in> used s - own s d" for c
    using that blk(2) [of c] by (auto simp: own_def used_def split: if_splits)
  ultimately show ?thesis using s' fbb at by (auto simp: file_eff_def)
qed


lemma bmap_get_out_spec:
  assumes "fs_ok s" "b \<in> used s"
  shows "bmap_get_out s sin b = Some (0, s, sin, b)"
  using assms sfs_block_inuse_iff [of s b] by (simp add: bmap_get_out_def used_def kassert_def)

lemma load_existing_upd:
  assumes ok: "fs_ok s" "ino_ok s (din sin)" and i: "i < di_blocks (din sin)"
  shows "\<exists>s'. sfs_bmap_load_nolock s sin i = Some (0, s', sin, bmap s (din sin) i) \<and> upd_blk s s' (blk s)"
proof -
  let ?d = "din sin" and ?b = "bmap s (din sin) i"
  have bu: "?b \<in> used s" by (rule bmap_used [OF ok(2) i])
  have get: "\<exists>s'. sfs_bmap_get_nolock s sin i False = Some (0, s', sin, ?b) \<and> fs_ok s' \<and> upd_blk s s' (blk s)"
  proof (cases "i < 12")
    case True
    then have "sfs_bmap_get_nolock s sin i False = Some (0, s, sin, ?b)"
      using bmap_get_out_spec [OF ok(1) bu] by (simp add: sfs_bmap_get_nolock_def SFS_NDIRECT_def bmap_def)
    then show ?thesis using ok(1) by (auto simp: upd_blk_def fs_ok_def)
  next
    case False
    have ind: "indirect ?d \<noteq> 0" using bu False by (cases "indirect ?d = 0") (simp_all add: bmap_def used_def)
    then have iu: "indirect ?d \<in> used s" using ok(2) by (simp add: ino_ok_def)
    have "di_blocks ?d \<le> 1036" using ok(2) by (simp add: ino_ok_def)
    then have j: "i - 12 < 1024" using i False by linarith
    obtain s' where s': "sfs_rbuf s (le_bytes 4 0) 0 4 (indirect ?d) ((i - 12) * 4) =
        Some (0, s', blit (le_bytes 4 0) 0 (seg ((i - 12) * 4) 4 (blk s (indirect ?d))))" "upd_blk s s' (blk s)"
      using sfs_rbuf_spec [of s "indirect ?d" "(i - 12) * 4" 4 0 "le_bytes 4 0"] fs_ok_vol [OF ok(1)] iu j
      by (auto simp: used_def)
    have l: "length (blk s (indirect ?d)) = 4096" using length_blk [OF fs_ok_vol [OF ok(1)]] iu by (simp add: used_def)
    have v: "le_val (blit (le_bytes 4 0) 0 (seg ((i - 12) * 4) 4 (blk s (indirect ?d)))) = ?b"
      using False ind l j by (simp add: blit_all bmap_def ent_def)
    note u = upd_blk_fs [OF ok(1) s'(2)]
    have bu': "?b \<in> used s'" using bu u by (simp add: used_def geo_def)
    have "sfs_bmap_get_nolock s sin i False = Some (0, s', sin, ?b)"
      using False j ind s'(1) v bmap_get_out_spec [OF u(1) bu']
      by (simp add: sfs_bmap_get_nolock_def sfs_bmap_get_sub_nolock_def SFS_NDIRECT_def SFS_BLK_NENTRY_def SFS_BLKSIZE_def kassert_def)
    then show ?thesis using u(1) s'(2) by blast
  qed
  then obtain s' where s': "sfs_bmap_get_nolock s sin i False = Some (0, s', sin, ?b)" "fs_ok s'" "upd_blk s s' (blk s)" by blast
  note u = upd_blk_fs [OF ok(1) s'(3)]
  have "sfs_block_inuse s' ?b = Some True"
    using sfs_block_inuse_iff [OF s'(2), of ?b] bu u by (simp add: used_def geo_def)
  then have "sfs_bmap_load_nolock s sin i = Some (0, s', sin, ?b)"
    using s'(1) i by (simp add: sfs_bmap_load_nolock_def kassert_def)
  then show ?thesis using s'(3) by blast
qed

lemma load_existing:
  assumes ok: "fs_ok s" "ino_ok s (din sin)" and i: "i < di_blocks (din sin)"
  shows "\<exists>s'. sfs_bmap_load_nolock s sin i = Some (0, s', sin, bmap s (din sin) i) \<and>
    file_eff s (din sin) s' (din sin) (fb s (din sin)) \<and> free s' = free s \<and> bmap s' (din sin) = bmap s (din sin)"
  using load_existing_upd [OF ok i] upd_same [OF ok] by blast

text \<open>How many free blocks a file needs to grow by one.\<close>

definition need :: "sfs_disk_inode \<Rightarrow> nat" where
  "need d = (if di_blocks d < 12 \<or> indirect d \<noteq> 0 then 1 else 2)"

definition grown :: "sfs_inode \<Rightarrow> sfs_inode \<Rightarrow> bool" where
  "grown sin sin' \<longleftrightarrow> ino sin' = ino sin \<and> reclaim_count sin' = reclaim_count sin \<and>
     di_blocks (din sin') = Suc (di_blocks (din sin))"

lemma get_new_direct:
  assumes ok: "fs_ok s" "ino_ok s (din sin)" and n: "di_blocks (din sin) < 12"
  shows "if free s = {} then sfs_bmap_get_nolock s sin (di_blocks (din sin)) True = Some (- E_NO_MEM, s, sin, 0)
    else \<exists>s' sin' b. sfs_bmap_get_nolock s sin (di_blocks (din sin)) True = Some (0, s', sin', b) \<and> b \<in> used s' \<and> fs_ok s' \<and>
      free s' = free s - {b} \<and> ino sin' = ino sin \<and> reclaim_count sin' = reclaim_count sin \<and> di_blocks (din sin') = di_blocks (din sin) \<and>
      bmap s' (din sin') (di_blocks (din sin)) = b \<and>
      file_eff s (din sin) s' ((din sin')\<lparr>di_blocks := Suc (di_blocks (din sin))\<rparr>) (fb s (din sin))"
proof -
  let ?d = "din sin" and ?n = "di_blocks (din sin)"
  have z: "direct ?d ! ?n = 0" using ok(2) n by (auto simp: ino_ok_def bmap_def)
  show ?thesis
  proof (cases "free s = {}")
    case True
    then show ?thesis using sfs_block_alloc_cases [OF ok(1)] n z
      by (simp add: sfs_bmap_get_nolock_def SFS_NDIRECT_def error_codes)
  next
    case False
    then obtain s1 b where s1: "sfs_block_alloc s = Some (0, s1, b)" "b \<in> free s" "fs_ok s1" "free s1 = free s - {b}"
        "geo s1 = geo s" "\<And>c. c < nblocks s \<Longrightarrow> blk s1 c = (if c = b then replicate 4096 0 else blk s c)"
      using sfs_block_alloc_cases [OF ok(1)] by auto
    have b: "0 < b" "b < nblocks s" using s1(2) ok(1) by (auto simp: fs_ok_def intro: gr0I)
    have bu: "b \<in> used s1" using b s1(4) geoD [OF s1(5)] by (simp add: used_def)
    let ?sin = "sin\<lparr>din := ?d\<lparr>direct := (direct ?d)[?n := b]\<rparr>, dirty := True\<rparr>"
    have get: "sfs_bmap_get_nolock s sin ?n True = Some (0, s1, ?sin, b)"
      using n z s1(1) bmap_get_out_spec [OF s1(3) bu] by (simp add: sfs_bmap_get_nolock_def SFS_NDIRECT_def)
    let ?d' = "(din ?sin)\<lparr>di_blocks := Suc ?n\<rparr>"
    have ind: "indirect ?d \<noteq> 0 \<Longrightarrow> indirect ?d \<in> used s" using ok(2) by (simp add: ino_ok_def)
    have keep: "blk s1 c = blk s c" if "c \<in> used s" for c using s1(6) [of c] that s1(2) by (auto simp: used_def)
    have l12: "length (direct ?d) = 12" using ok(2) by (simp add: ino_ok_def)
    have bm: "bmap s1 ?d' i = (if i = ?n then b else bmap s ?d i)" for i
      using keep ind l12 n by (auto simp: bmap_def ent_def)
    have "file_eff s ?d s1 ?d' (fb s ?d)"
      by (rule add_block [where b = b]) (use fs_ok_zero [OF ok(1)] ok(2) n s1 b bm keep ind l12 in \<open>auto simp: used_def\<close>)
    moreover have "bmap s1 (din ?sin) ?n = b" using n l12 by (simp add: bmap_def)
    ultimately show ?thesis using False get s1 bu by auto
  qed
qed

lemma get_new_old_indirect:
  assumes ok: "fs_ok s" "ino_ok s (din sin)" and n: "12 \<le> di_blocks (din sin)" "di_blocks (din sin) < 1036" and ind: "indirect (din sin) \<noteq> 0"
  shows "if free s = {}
    then \<exists>s'. sfs_bmap_get_nolock s sin (di_blocks (din sin)) True = Some (- E_NO_MEM, s', sin, 0) \<and> upd_blk s s' (blk s)
    else \<exists>s' b. sfs_bmap_get_nolock s sin (di_blocks (din sin)) True = Some (0, s', sin, b) \<and> b \<in> used s' \<and> fs_ok s' \<and>
      free s' = free s - {b} \<and> bmap s' (din sin) (di_blocks (din sin)) = b \<and>
      file_eff s (din sin) s' ((din sin)\<lparr>di_blocks := Suc (di_blocks (din sin))\<rparr>) (fb s (din sin))"
proof -
  let ?d = "din sin" and ?n = "di_blocks (din sin)" and ?e = "indirect (din sin)" and ?j = "di_blocks (din sin) - 12"
  have eu: "?e \<in> used s" using ok(2) ind by (simp add: ino_ok_def)
  have j: "?j < 1024" using n by linarith
  have l: "length (blk s ?e) = 4096" using length_blk [OF fs_ok_vol [OF ok(1)]] eu by (simp add: used_def)
  obtain s1 where s1: "sfs_rbuf s (le_bytes 4 0) 0 4 ?e (?j * 4) =
      Some (0, s1, blit (le_bytes 4 0) 0 (seg (?j * 4) 4 (blk s ?e)))" "upd_blk s s1 (blk s)"
    using sfs_rbuf_spec [of s ?e "?j * 4" 4 0 "le_bytes 4 0"] fs_ok_vol [OF ok(1)] eu j by (auto simp: used_def)
  note u = upd_blk_fs [OF ok(1) s1(2)]
  have nb: "nblocks s1 = nblocks s" using geoD [OF u(3)] .
  have "bmap s ?d ?n = 0" using ok(2) n by (simp add: ino_ok_def)
  then have v: "le_val (blit (le_bytes 4 0) 0 (seg (?j * 4) 4 (blk s ?e))) = 0"
    using n ind l j by (simp add: blit_all bmap_def ent_def)
  have eu1: "?e \<in> used s1" using eu u(2) nb by (simp add: used_def)
  have sub: "sfs_bmap_get_sub_nolock s ?e ?j True = bmap_get_new s1 ?e ?e (?j * 4)"
    using j ind s1(1) v by (simp add: sfs_bmap_get_sub_nolock_def SFS_BLK_NENTRY_def SFS_BLKSIZE_def kassert_def)
  have get: "sfs_bmap_get_nolock s sin ?n True = do {
        (ret, s, e, i) \<leftarrow> bmap_get_new s1 ?e ?e (?j * 4);
        if ret \<noteq> 0 then Some (ret, s, sin, 0)
        else if e \<noteq> ?e then do { kassert (?e = 0); bmap_get_out s (sin\<lparr>din := ?d\<lparr>indirect := e\<rparr>, dirty := True\<rparr>) i }
        else bmap_get_out s sin i }"
    using n j unfolding sfs_bmap_get_nolock_def sub [symmetric] by (simp add: SFS_NDIRECT_def SFS_BLK_NENTRY_def SFS_BLKSIZE_def)
  show ?thesis
  proof (cases "free s = {}")
    case True
    then obtain s2 where s2: "bmap_get_new s1 ?e ?e (?j * 4) = Some (- E_NO_MEM, s2, ?e, 0)"
      using bmap_get_new_cases [OF u(1) eu1 j, of ?e] u(2) by auto
    moreover have "s2 = s1" using s2 True u(2) sfs_block_alloc_cases [OF u(1)] by (simp add: bmap_get_new_def bmap_cleanup_def error_codes)
    ultimately show ?thesis using True s1(2) by (auto simp: get error_codes)
  next
    case False
    then obtain s2 b where s2: "bmap_get_new s1 ?e ?e (?j * 4) = Some (0, s2, ?e, b)" "b \<in> free s" "fs_ok s2"
        "free s2 = free s - {b}" "geo s2 = geo s1"
        "\<And>c. c < nblocks s \<Longrightarrow> blk s2 c = (if c = b then replicate 4096 0 else if c = ?e then blit (blk s1 ?e) (?j * 4) (le_bytes 4 b) else blk s1 c)"
      using bmap_get_new_cases [OF u(1) eu1 j, of ?e] u(2) nb by auto
    have b: "0 < b" "b < nblocks s" using s2(2) ok(1) by (auto simp: fs_ok_def intro: gr0I)
    have b32: "b < 2 ^ 32" using b(2) fs_ok_bound [OF ok(1)] by simp
    have nb2: "nblocks s2 = nblocks s" using geoD [OF s2(5)] nb by simp
    have bu: "b \<in> used s2" using b s2(4) nb2 by (simp add: used_def)
    have g: "sfs_bmap_get_nolock s sin ?n True = Some (0, s2, sin, b)"
      using s2(1) bmap_get_out_spec [OF s2(3) bu] by (simp add: get)
    have e: "?e < nblocks s" "?e \<noteq> b" using eu s2(2) by (auto simp: used_def)
    have eb: "blk s2 ?e = blit (blk s ?e) (?j * 4) (le_bytes 4 b)" using s2(6) [of ?e] e u(4) [of ?e] by simp
    have ents: "ent s2 ?e k = (if k = ?j then b else ent s ?e k)" if "k < 1024" for k
      by (rule ent_write [OF fs_ok_vol [OF ok(1)] e(1) j b32 eb that])
    let ?d' = "?d\<lparr>di_blocks := Suc ?n\<rparr>"
    have bm: "bmap s2 ?d' i = (if i = ?n then b else bmap s ?d i)" if "i < 1036" for i
      using ents [of "i - 12"] that n ind by (auto simp: bmap_def)
    have keep: "blk s2 c = blk s c" if "c \<in> used s" "c \<noteq> ?e" for c
      using s2(6) [of c] u(4) [of c] that s2(2) by (auto simp: used_def)
    have zero: "blk s2 b = replicate 4096 0" using s2(6) [OF b(2)] by simp
    have "file_eff s ?d s2 ?d' (fb s ?d)"
      by (rule add_block [where b = b]) (use fs_ok_zero [OF ok(1)] ok(2) n s2 u(3) b bm keep zero e in \<open>auto simp: ino_ok_def\<close>)
    moreover have "bmap s2 ?d ?n = b" using ents [OF j] n ind by (simp add: bmap_def)
    ultimately show ?thesis using False g s2 bu by auto
  qed
qed


lemma no_indirect_blocks:
  assumes "ino_ok s d" "indirect d = 0" shows "di_blocks d \<le> 12"
proof (rule ccontr)
  assume "\<not> di_blocks d \<le> 12"
  then have "bmap s d 12 \<in> used s" using assms(1) by (simp add: ino_ok_def)
  then show False using assms(2) by (simp add: bmap_def used_def)
qed

lemma get_new_indirect:
  assumes ok: "fs_ok s" "ino_ok s (din sin)" and n: "di_blocks (din sin) = 12" and ind: "indirect (din sin) = 0"
  shows "if card (free s) < 2
    then \<exists>s'. sfs_bmap_get_nolock s sin 12 True = Some (- E_NO_MEM, s', sin, 0) \<and> fs_ok s' \<and> free s' = free s \<and> geo s' = geo s \<and>
      (\<forall>c\<in>used s. blk s' c = blk s c)
    else \<exists>s' sin' b. sfs_bmap_get_nolock s sin 12 True = Some (0, s', sin', b) \<and> b \<in> used s' \<and> fs_ok s' \<and>
      free s' = free s - {b, indirect (din sin')} \<and> ino sin' = ino sin \<and> reclaim_count sin' = reclaim_count sin \<and>
      di_blocks (din sin') = 12 \<and> bmap s' (din sin') 12 = b \<and>
      file_eff s (din sin) s' ((din sin')\<lparr>di_blocks := 13\<rparr>) (fb s (din sin))"
proof -
  let ?d = "din sin"
  have fin: "finite (free s)" by (rule fs_ok_finite [OF ok(1)])
  have sub: "sfs_bmap_get_sub_nolock s 0 0 True = do {
      (ret, s, e) \<leftarrow> sfs_block_alloc s;
      if ret \<noteq> 0 then Some (ret, s, 0, 0) else bmap_get_new s 0 e 0 }"
    by (simp add: sfs_bmap_get_sub_nolock_def SFS_BLK_NENTRY_def SFS_BLKSIZE_def kassert_def)
  have get: "sfs_bmap_get_nolock s sin 12 True = do {
        (ret, s, e, i) \<leftarrow> sfs_bmap_get_sub_nolock s 0 0 True;
        if ret \<noteq> 0 then Some (ret, s, sin, 0)
        else if e \<noteq> 0 then bmap_get_out s (sin\<lparr>din := ?d\<lparr>indirect := e\<rparr>, dirty := True\<rparr>) i
        else bmap_get_out s sin i }"
    using ind by (simp add: sfs_bmap_get_nolock_def SFS_NDIRECT_def SFS_BLK_NENTRY_def SFS_BLKSIZE_def kassert_def cong: prod.case_cong if_cong)
  show ?thesis
  proof (cases "free s = {}")
    case True
    then show ?thesis using sfs_block_alloc_cases [OF ok(1)] ok(1) by (simp add: get sub error_codes)
  next
    case False
    then obtain s1 e where s1: "sfs_block_alloc s = Some (0, s1, e)" "e \<in> free s" "fs_ok s1" "free s1 = free s - {e}"
        "geo s1 = geo s" "\<And>c. c < nblocks s \<Longrightarrow> blk s1 c = (if c = e then replicate 4096 0 else blk s c)"
      using sfs_block_alloc_cases [OF ok(1)] by auto
    have e: "0 < e" "e < nblocks s" using s1(2) ok(1) by (auto simp: fs_ok_def intro: gr0I)
    have nb: "nblocks s1 = nblocks s" using geoD [OF s1(5)] .
    have eu: "e \<in> used s1" using e s1(4) nb by (simp add: used_def)
    have j0: "(0::nat) < 1024" by simp
    note new = bmap_get_new_cases [OF s1(3) eu j0, of 0, unfolded mult_zero_left]
    show ?thesis
    proof (cases "free s1 = {}")
      case True
      then have "free s \<subseteq> {e}" using s1(4) by auto
      then have "card (free s) \<le> card {e}" by (rule card_mono [rotated]) simp
      then have c: "card (free s) < 2" by simp
      obtain s2 where s2: "bmap_get_new s1 0 e 0 = Some (- E_NO_MEM, s2, 0, 0)" "fs_ok s2" "free s2 = insert e (free s1)"
          "geo s2 = geo s1" "blk s2 = blk s1"
        using new True e by auto
      have "free s2 = free s" using s2(3) s1(2,4) by auto
      moreover have "blk s2 c = blk s c" if "c \<in> used s" for c using s2(5) s1(2) s1(6) [of c] that by (auto simp: used_def)
      moreover have "sfs_bmap_get_nolock s sin 12 True = Some (- E_NO_MEM, s2, sin, 0)"
        using s1(1) s2(1) by (simp add: get sub error_codes)
      ultimately show ?thesis using c s2 s1(5) by auto
    next
      case f1: False
      then obtain s2 b where s2: "bmap_get_new s1 0 e 0 = Some (0, s2, e, b)" "b \<in> free s1" "fs_ok s2"
          "free s2 = free s1 - {b}" "geo s2 = geo s1"
          "\<And>c. c < nblocks s \<Longrightarrow> blk s2 c = (if c = b then replicate 4096 0 else if c = e then blit (blk s1 e) 0 (le_bytes 4 b) else blk s1 c)"
        using new e nb by auto
      have b: "0 < b" "b < nblocks s" "b \<in> free s" "b \<noteq> e" using s2(2) s1(4) ok(1) by (auto simp: fs_ok_def intro: gr0I)
      have c2: "\<not> card (free s) < 2"
      proof -
        have "card {b, e} \<le> card (free s)" using b(3) s1(2) fin by (intro card_mono) auto
        then show ?thesis using b(4) by simp
      qed
      have b32: "b < 2 ^ 32" using b(2) fs_ok_bound [OF ok(1)] by simp
      have nb2: "nblocks s2 = nblocks s" using geoD [OF s2(5)] nb by simp
      have bu: "b \<in> used s2" using b s2(4) nb2 by (simp add: used_def)
      let ?sin = "sin\<lparr>din := ?d\<lparr>indirect := e\<rparr>, dirty := True\<rparr>"
      have g: "sfs_bmap_get_nolock s sin 12 True = Some (0, s2, ?sin, b)"
        using s1(1) s2(1) e bmap_get_out_spec [OF s2(3) bu] by (simp add: get sub)
      have eb: "blk s2 e = blit (blk s1 e) (0 * 4) (le_bytes 4 b)" using s2(6) [OF e(2)] b(4) by simp
      have z: "ent s1 e k = 0" if "k < 1024" for k
      proof -
        have "seg (k * 4) 4 (blk s1 e) = replicate 4 0" using s1(6) [OF e(2)] that by (simp add: seg_def)
        then show ?thesis by (simp add: ent_def eval_nat_numeral)
      qed
      have ents: "ent s2 e k = (if k = 0 then b else 0)" if "k < 1024" for k
        using ent_write [OF fs_ok_vol [OF s1(3)] _ j0 b32 eb that] e(2) nb z [OF that] by simp
      let ?d' = "(din ?sin)\<lparr>di_blocks := 13\<rparr>"
      have old0: "bmap s ?d i = 0" if "12 \<le> i" for i using ind that by (simp add: bmap_def)
      have bm: "bmap s2 ?d' i = (if i = di_blocks ?d then b else bmap s ?d i)" if "i < 1036" for i
      proof (cases "i < 12")
        case True
        then show ?thesis using n by (simp add: bmap_def)
      next
        case False
        then have "i - 12 < 1024" "i - 12 = 0 \<longleftrightarrow> i = 12" using that by linarith+
        then show ?thesis using ents [of "i - 12"] False old0 [of i] n e by (simp add: bmap_def)
      qed
      have keep: "blk s2 c = blk s c" if "c \<in> used s" for c
        using s2(6) [of c] s1(6) [of c] that b s1(2) by (auto simp: used_def)
      have zero: "blk s2 b = replicate 4096 0" using s2(6) [OF b(2)] by simp
      have fr: "free s2 = free s - {b, e}" using s2(4) s1(4) by auto
      have "file_eff s ?d s2 ?d' (fb s ?d)"
      proof (rule add_block [where b = b])
        show "indirect ?d' = indirect ?d \<and> (indirect ?d \<noteq> 0 \<longrightarrow> indirect ?d \<noteq> b) \<or>
            indirect ?d = 0 \<and> indirect ?d' \<in> free s - free s2 \<and> indirect ?d' \<noteq> b \<and> indirect ?d' \<noteq> 0 \<and> indirect ?d' < nblocks s"
          using ind e b s1(2) fr by simp
        show "bmap s2 ?d' i = (if i = di_blocks ?d then b else bmap s ?d i)" if "i < 1036" for i by (rule bm [OF that])
      qed (use fs_ok_zero [OF ok(1)] ok(2) n s2 s1 b keep zero fr in \<open>auto simp: ino_ok_def\<close>)
      moreover have "bmap s2 (din ?sin) 12 = b" using ents [OF j0] e by (simp add: bmap_def)
      ultimately show ?thesis using c2 g s2(3) bu fr n by auto
    qed
  qed
qed


lemma eff_used_same:
  assumes ok: "ino_ok s d" and s': "fs_ok s'" "free s' = free s" "geo s' = geo s" "\<And>c. c \<in> used s \<Longrightarrow> blk s' c = blk s c"
  shows "file_eff s d s' d (fb s d)"
proof -
  have us: "used s' = used s" using s' by (simp add: used_def geo_def)
  have bm: "bmap s' d = bmap s d" by (rule bmap_cong) (use ok s'(4) in \<open>auto simp: ino_ok_def\<close>)
  have "fb s' d = fb s d"
    unfolding fb_def fun_eq_iff bm using s'(4) bmap_used [OF ok] by (auto simp: less_mult_imp_div_less mult.commute)
  then show ?thesis using ok s' us bm by (auto simp: file_eff_def ino_ok_def own_def)
qed

lemma load_created:
  assumes g: "sfs_bmap_get_nolock s sin (di_blocks (din sin)) True = Some (0, s', sin', b)" and bu: "b \<in> used s'" and ok: "fs_ok s'"
    and e: "di_blocks (din sin') = di_blocks (din sin)"
  shows "sfs_bmap_load_nolock s sin (di_blocks (din sin)) =
    Some (0, s', sin'\<lparr>din := (din sin')\<lparr>di_blocks := Suc (di_blocks (din sin))\<rparr>\<rparr>, b)"
proof -
  have "sfs_block_inuse s' b = Some True" using sfs_block_inuse_iff [OF ok, of b] bu by (simp add: used_def)
  then show ?thesis using g e by (simp add: sfs_bmap_load_nolock_def kassert_def)
qed

lemma load_new:
  assumes ok: "fs_ok s" "ino_ok s (din sin)" and n: "di_blocks (din sin) < 1036"
  shows "if card (free s) < need (din sin)
    then \<exists>s'. sfs_bmap_load_nolock s sin (di_blocks (din sin)) = Some (- E_NO_MEM, s', sin, 0) \<and>
      file_eff s (din sin) s' (din sin) (fb s (din sin)) \<and> free s' = free s
    else \<exists>s' sin'. sfs_bmap_load_nolock s sin (di_blocks (din sin)) = Some (0, s', sin', bmap s' (din sin') (di_blocks (din sin))) \<and>
      grown sin sin' \<and> file_eff s (din sin) s' (din sin') (fb s (din sin))"
proof -
  let ?n = "di_blocks (din sin)"
  have fin: "finite (free s)" by (rule fs_ok_finite [OF ok(1)])
  have c0: "card (free s) < 1 \<longleftrightarrow> free s = {}" using fin by (simp add: card_gt_0_iff)
  have fail: "sfs_bmap_load_nolock s sin ?n = Some (- E_NO_MEM, s', sin, 0)"
    if "sfs_bmap_get_nolock s sin ?n True = Some (- E_NO_MEM, s', sin, 0)" for s'
    using that by (simp add: sfs_bmap_load_nolock_def kassert_def error_codes)
  have bm: "bmap s' (d\<lparr>di_blocks := m\<rparr>) = bmap s' d" for s' d m by (simp add: bmap_def fun_eq_iff)
  consider "?n < 12" | "12 \<le> ?n" "indirect (din sin) \<noteq> 0" | "?n = 12" "indirect (din sin) = 0"
    using no_indirect_blocks [OF ok(2)] by fastforce
  then show ?thesis
  proof cases
    case 1
    then have nd: "need (din sin) = 1" by (simp add: need_def)
    show ?thesis
    proof (cases "free s = {}")
      case True
      then show ?thesis using get_new_direct [OF ok 1] fail file_eff_refl [OF ok] nd by auto
    next
      case False
      then obtain s' sin' b where g: "sfs_bmap_get_nolock s sin ?n True = Some (0, s', sin', b)" "b \<in> used s'" "fs_ok s'"
          "ino sin' = ino sin" "reclaim_count sin' = reclaim_count sin" "di_blocks (din sin') = ?n" "bmap s' (din sin') ?n = b"
          "file_eff s (din sin) s' ((din sin')\<lparr>di_blocks := Suc ?n\<rparr>) (fb s (din sin))"
        using get_new_direct [OF ok 1] by auto
      let ?sin = "sin'\<lparr>din := (din sin')\<lparr>di_blocks := Suc ?n\<rparr>\<rparr>"
      have "sfs_bmap_load_nolock s sin ?n = Some (0, s', ?sin, bmap s' (din ?sin) ?n)"
        using load_created [OF g(1,2,3,6)] g(7) by (simp add: bm)
      moreover have "grown sin ?sin" using g by (simp add: grown_def)
      ultimately show ?thesis using False c0 nd g(8) by auto
    qed
  next
    case 2
    then have nd: "need (din sin) = 1" by (simp add: need_def)
    show ?thesis
    proof (cases "free s = {}")
      case True
      then obtain s' where "sfs_bmap_get_nolock s sin ?n True = Some (- E_NO_MEM, s', sin, 0)" "upd_blk s s' (blk s)"
        using get_new_old_indirect [OF ok 2(1) n 2(2)] by auto
      then show ?thesis using True fail upd_same [OF ok] nd by auto
    next
      case False
      then obtain s' b where g: "sfs_bmap_get_nolock s sin ?n True = Some (0, s', sin, b)" "b \<in> used s'" "fs_ok s'"
          "bmap s' (din sin) ?n = b" "file_eff s (din sin) s' ((din sin)\<lparr>di_blocks := Suc ?n\<rparr>) (fb s (din sin))"
        using get_new_old_indirect [OF ok 2(1) n 2(2)] by auto
      let ?sin = "sin\<lparr>din := (din sin)\<lparr>di_blocks := Suc ?n\<rparr>\<rparr>"
      have "sfs_bmap_load_nolock s sin ?n = Some (0, s', ?sin, bmap s' (din ?sin) ?n)"
        using load_created [OF g(1,2,3) refl] g(4) by (simp add: bm)
      moreover have "grown sin ?sin" by (simp add: grown_def)
      ultimately show ?thesis using False c0 nd g(5) by auto
    qed
  next
    case 3
    then have nd: "need (din sin) = 2" by (simp add: need_def)
    show ?thesis
    proof (cases "card (free s) < 2")
      case True
      then obtain s' where s': "sfs_bmap_get_nolock s sin ?n True = Some (- E_NO_MEM, s', sin, 0)" "fs_ok s'" "free s' = free s"
          "geo s' = geo s" "\<And>c. c \<in> used s \<Longrightarrow> blk s' c = blk s c"
        using get_new_indirect [OF ok 3] 3(1) by auto
      then show ?thesis using True fail [OF s'(1)] eff_used_same [OF ok(2) s'(2-5)] nd by auto
    next
      case False
      then obtain s' sin' b where g: "sfs_bmap_get_nolock s sin ?n True = Some (0, s', sin', b)" "b \<in> used s'" "fs_ok s'"
          "ino sin' = ino sin" "reclaim_count sin' = reclaim_count sin" "di_blocks (din sin') = ?n" "bmap s' (din sin') ?n = b"
          "file_eff s (din sin) s' ((din sin')\<lparr>di_blocks := 13\<rparr>) (fb s (din sin))"
        using get_new_indirect [OF ok 3] 3(1) by auto
      let ?sin = "sin'\<lparr>din := (din sin')\<lparr>di_blocks := Suc ?n\<rparr>\<rparr>"
      have "sfs_bmap_load_nolock s sin ?n = Some (0, s', ?sin, bmap s' (din ?sin) ?n)"
        using load_created [OF g(1,2,3,6)] g(7) by (simp add: bm)
      moreover have "grown sin ?sin" using g by (simp add: grown_def)
      ultimately show ?thesis using False nd g(8) 3(1) by auto
    qed
  qed
qed

text \<open>The two outcomes of loading block \<open>i\<close> of a file.\<close>

definition same_ino :: "sfs_inode \<Rightarrow> sfs_inode \<Rightarrow> bool" where
  "same_ino sin sin' \<longleftrightarrow> ino sin' = ino sin \<and> reclaim_count sin' = reclaim_count sin"

lemma same_ino_refl [simp]: "same_ino sin sin"
  by (simp add: same_ino_def)

lemma same_ino_trans: "same_ino a b \<Longrightarrow> same_ino b c \<Longrightarrow> same_ino a c"
  by (simp add: same_ino_def)

lemma load_cases:
  assumes "fs_ok s" "ino_ok s (din sin)" "i \<le> di_blocks (din sin)" "i < 1036"
  obtains (full) s' where "sfs_bmap_load_nolock s sin i = Some (- E_NO_MEM, s', sin, 0)"
      "file_eff s (din sin) s' (din sin) (fb s (din sin))" "free s' = free s" "i = di_blocks (din sin)" "card (free s) < need (din sin)"
    | (found) s' sin' where "sfs_bmap_load_nolock s sin i = Some (0, s', sin', bmap s' (din sin') i)" "same_ino sin sin'"
      "file_eff s (din sin) s' (din sin') (fb s (din sin))" "di_blocks (din sin') = max (di_blocks (din sin)) (Suc i)"
proof (cases "i = di_blocks (din sin)")
  case True
  show thesis
  proof (cases "card (free s) < need (din sin)")
    case c: True
    then show thesis using load_new [OF assms(1,2)] assms(4) True full by auto
  next
    case False
    then obtain s' sin' where "sfs_bmap_load_nolock s sin i = Some (0, s', sin', bmap s' (din sin') i)" "grown sin sin'"
        "file_eff s (din sin) s' (din sin') (fb s (din sin))"
      using load_new [OF assms(1,2)] assms(4) True by auto
    then show thesis using found True by (simp add: grown_def same_ino_def)
  qed
next
  case False
  then have i: "i < di_blocks (din sin)" using assms(3) by simp
  then show thesis using load_existing [OF assms(1,2) i] found [where sin' = sin] by (auto simp: max_def)
qed

end
