(* ===== verification/Sfs_Rw.thy ===== *)
theory Sfs_Rw
  imports Sfs_Map
begin

text \<open>
  Reading and writing a byte range of a file: \<open>sfs_io_nolock\<close> splits it into a first partial block, whole blocks and
  a last partial block; the lemmas show that the pieces compose to one update, or one copy, of the abstract
  contents.
\<close>


section \<open>Reading and writing\<close>

lemma effD:
  assumes "file_eff s d s' d' g"
  shows "fs_ok s'" "ino_ok s' d'" "fb s' d' = g" "nblocks s' = nblocks s"
  using assms by (simp_all add: file_eff_def geo_def)

lemma seg_block:
  assumes "ino_ok s d" "vol_ok s" "i < di_blocks d" "off + n \<le> 4096"
  shows "seg off n (blk s (bmap s d i)) = map (fb s d) [4096 * i + off..<4096 * i + off + n]"
proof (rule nth_equalityI)
  have l: "length (blk s (bmap s d i)) = 4096"
    using length_blk [OF assms(2)] bmap_used [OF assms(1,3)] by (simp add: used_def)
  then show "length (seg off n (blk s (bmap s d i))) = length (map (fb s d) [4096 * i + off..<4096 * i + off + n])"
    using assms(4) by simp
  fix k assume "k < length (seg off n (blk s (bmap s d i)))"
  then have k: "k < n" by simp
  have "(4096 * i + off + k) div 4096 = i" "(4096 * i + off + k) mod 4096 = off + k"
    using k assms(4) by (auto intro!: div_nat_eqI simp: mod_nat_eqI)
  moreover have "4096 * i + off + k < 4096 * di_blocks d" using k assms(3,4) by linarith
  ultimately have "fb s d (4096 * i + off + k) = blk s (bmap s d i) ! (off + k)" by (simp add: fb_def)
  then show "seg off n (blk s (bmap s d i)) ! k = map (fb s d) [4096 * i + off..<4096 * i + off + n] ! k"
    using k l assms(4) by simp
qed

text \<open>Loading block \<open>i\<close> and then overwriting a range of it with \<open>op\<close>.\<close>

lemma load_then_write:
  assumes ok: "fs_ok s" "ino_ok s (din sin)" and i: "i \<le> di_blocks (din sin)" "i < 1036" and off: "off + length xs \<le> 4096"
    and op: "\<forall>t b. vol_ok t \<longrightarrow> 0 < b \<longrightarrow> b < nblocks t \<longrightarrow>
      (\<exists>t'. op t b = Some (0, t', buf) \<and> upd_blk t t' ((blk t)(b := blit (blk t b) off xs)))"
  obtains (full) s' where "sfs_bmap_load_nolock s sin i = Some (- E_NO_MEM, s', sin, 0)"
      "file_eff s (din sin) s' (din sin) (fb s (din sin))" "i = di_blocks (din sin)" "card (free s') \<le> 1"
    | (written) s1 b s' sin' where "sfs_bmap_load_nolock s sin i = Some (0, s1, sin', b)" "op s1 b = Some (0, s', buf)"
      "same_ino sin sin'" "file_eff s (din sin) s' (din sin') (overlay (fb s (din sin)) (4096 * i + off) xs)"
      "di_blocks (din sin') = max (di_blocks (din sin)) (Suc i)"
  using ok i
proof (cases rule: load_cases)
  case (full s')
  then show thesis using that(1) by (auto simp: need_def split: if_splits)
next
  case (found s1 sin')
  note e = effD [OF found(3)]
  let ?b = "bmap s1 (din sin') i"
  have ib: "i < di_blocks (din sin')" using found(4) by simp
  obtain s2 where s2: "op s1 ?b = Some (0, s2, buf)" "upd_blk s1 s2 ((blk s1)(?b := blit (blk s1 ?b) off xs))"
    using op fs_ok_vol [OF e(1)] bmap_used [OF e(2) ib] by (auto simp: used_def)
  have "file_eff s1 (din sin') s2 (din sin') (overlay (fb s1 (din sin')) (4096 * i + off) xs)"
    by (rule upd_data(1) [OF e(1,2) ib off s2(2)])
  then have "file_eff s (din sin) s2 (din sin') (overlay (fb s (din sin)) (4096 * i + off) xs)"
    unfolding e(3) by (rule file_eff_trans [OF found(3)])
  then show thesis using that(2) [of s1 sin' ?b s2] found s2(1) by simp
qed

lemma io_part_write:
  assumes ok: "fs_ok s" "ino_ok s (din sin)" and i: "i \<le> di_blocks (din sin)" "i < 1036"
    and off: "off < 4096" "off + n \<le> 4096" "base + n \<le> length buf"
  obtains (full) s' where "io_part True s sin buf base n i off = Some (- E_NO_MEM, s', sin, buf)"
      "file_eff s (din sin) s' (din sin) (fb s (din sin))" "i = di_blocks (din sin)" "card (free s') \<le> 1"
    | (written) s' sin' where "io_part True s sin buf base n i off = Some (0, s', sin', buf)" "same_ino sin sin'"
      "file_eff s (din sin) s' (din sin') (overlay (fb s (din sin)) (4096 * i + off) (seg base n buf))"
      "di_blocks (din sin') = max (di_blocks (din sin)) (Suc i)"
proof -
  have l: "off + length (seg base n buf) \<le> 4096" using off by simp
  have op: "\<forall>t b. vol_ok t \<longrightarrow> 0 < b \<longrightarrow> b < nblocks t \<longrightarrow> (\<exists>t'. sfs_wbuf t buf base n b off = Some (0, t', buf) \<and>
      upd_blk t t' ((blk t)(b := blit (blk t b) off (seg base n buf))))"
    using sfs_wbuf_spec off by blast
  show thesis
    using ok i l op by (cases rule: load_then_write [where op = "\<lambda>t b. sfs_wbuf t buf base n b off"])
      (use that in \<open>auto simp: io_part_def sfs_buf_op_def error_codes\<close>)
qed

lemma io_blocks_write:
  assumes "fs_ok s" "ino_ok s (din sin)" "i \<le> di_blocks (din sin)" "i + n \<le> 1036" "base + 4096 * n \<le> length buf"
  shows "\<exists>ret s' sin' k. io_blocks True s sin buf base i n alen = Some (ret, s', sin', buf, alen + 4096 * k) \<and> same_ino sin sin' \<and>
    file_eff s (din sin) s' (din sin') (overlay (fb s (din sin)) (4096 * i) (seg base (4096 * k) buf)) \<and> k \<le> n \<and>
    di_blocks (din sin') = max (di_blocks (din sin)) (i + k) \<and> (ret = 0 \<and> k = n \<or> ret = - E_NO_MEM \<and> k < n \<and> card (free s') \<le> 1)"
  using assms
proof (induction n arbitrary: s sin i base alen)
  case 0
  then show ?case using file_eff_refl [OF 0(1,2)] by (intro exI [of _ 0] exI [of _ s] exI [of _ sin]) simp
next
  case (Suc n)
  let ?x = "seg base 4096 buf"
  have lx: "length ?x = 4096" using Suc.prems(5) by simp
  have op: "\<forall>t b. vol_ok t \<longrightarrow> 0 < b \<longrightarrow> b < nblocks t \<longrightarrow>
      (\<exists>t'. sfs_wblock t buf base b 1 = Some (0, t', buf) \<and> upd_blk t t' ((blk t)(b := blit (blk t b) 0 ?x)))"
    using sfs_wblock_spec [of _ _ base buf] length_blk lx Suc.prems(5) by (simp add: blit_all)
  have i: "i \<le> di_blocks (din sin)" "i < 1036" using Suc.prems(3,4) by auto
  have l0: "0 + length ?x \<le> 4096" using lx by simp
  show ?case
    using Suc.prems(1,2) i l0 op
  proof (cases rule: load_then_write [where op = "\<lambda>t b. sfs_wblock t buf base b 1"])
    case (full s')
    then show ?thesis
      using i by (intro exI [of _ "- E_NO_MEM"] exI [of _ s'] exI [of _ sin] exI [of _ 0]) (simp add: error_codes max_def)
  next
    case (written s1 b s2 sin2)
    note e = effD [OF written(4)]
    obtain ret s' sin' k where r: "io_blocks True s2 sin2 buf (base + 4096) (i + 1) n (alen + 4096) = Some (ret, s', sin', buf, alen + 4096 + 4096 * k)"
        "same_ino sin2 sin'" "file_eff s2 (din sin2) s' (din sin') (overlay (fb s2 (din sin2)) (4096 * (i + 1)) (seg (base + 4096) (4096 * k) buf))"
        "k \<le> n" "di_blocks (din sin') = max (di_blocks (din sin2)) (i + 1 + k)"
        "ret = 0 \<and> k = n \<or> ret = - E_NO_MEM \<and> k < n \<and> card (free s') \<le> 1"
      using Suc.IH [of s2 sin2 "i + 1" "base + 4096" "alen + 4096"] e Suc.prems written(5) by auto
    have "io_blocks True s sin buf base i (Suc n) alen = Some (ret, s', sin', buf, alen + 4096 * Suc k)"
      using written(1,2) r(1) by (simp add: sfs_block_op_def SFS_BLKSIZE_def)
    moreover have "overlay (fb s2 (din sin2)) (4096 * (i + 1)) (seg (base + 4096) (4096 * k) buf) =
        overlay (fb s (din sin)) (4096 * i) (seg base (4096 * Suc k) buf)"
    proof -
      have "seg base (4096 * Suc k) buf = ?x @ seg (base + 4096) (4096 * k) buf"
        using seg_append [of base 4096 "4096 * k" buf] Suc.prems(5) r(4) by simp
      then show ?thesis using overlay_append [of "fb s (din sin)" "4096 * i" ?x] e(3) lx by (simp add: add.commute)
    qed
    ultimately show ?thesis using r same_ino_trans [OF written(3) r(2)] file_eff_trans [OF written(4) r(3)] written(5)
      by (intro exI [of _ ret] exI [of _ s'] exI [of _ sin'] exI [of _ "Suc k"]) auto
  qed
qed

lemma io_part_read:
  assumes ok: "fs_ok s" "ino_ok s (din sin)" and i: "i < di_blocks (din sin)"
    and off: "off < 4096" "off + n \<le> 4096" "base + n \<le> length buf"
  obtains s' where "io_part False s sin buf base n i off =
      Some (0, s', sin, blit buf base (map (fb s (din sin)) [4096 * i + off..<4096 * i + off + n]))"
    "file_eff s (din sin) s' (din sin) (fb s (din sin))"
proof -
  obtain s1 where s1: "sfs_bmap_load_nolock s sin i = Some (0, s1, sin, bmap s (din sin) i)"
      "file_eff s (din sin) s1 (din sin) (fb s (din sin))" "bmap s1 (din sin) = bmap s (din sin)"
    using load_existing [OF ok i] by blast
  note e = effD [OF s1(2)]
  let ?b = "bmap s1 (din sin) i"
  have bu: "?b \<in> used s1" by (rule bmap_used [OF e(2) i])
  obtain s2 where s2: "sfs_rbuf s1 buf base n ?b off = Some (0, s2, blit buf base (seg off n (blk s1 ?b)))" "upd_blk s1 s2 (blk s1)"
    using sfs_rbuf_spec [of s1 ?b off n base buf] fs_ok_vol [OF e(1)] bu off by (auto simp: used_def)
  have "file_eff s (din sin) s2 (din sin) (fb s (din sin))"
    using file_eff_trans [OF s1(2) upd_same(1) [OF e(1,2) s2(2)]] e(3) by simp
  moreover have "io_part False s sin buf base n i off = Some (0, s2, sin, blit buf base (seg off n (blk s1 ?b)))"
    using s1(1,3) s2(1) by (simp add: io_part_def sfs_buf_op_def)
  ultimately show thesis using that seg_block [OF e(2) fs_ok_vol [OF e(1)] i off(2)] e(3) by simp
qed


text \<open>What writing the range from \<open>pos\<close> to \<open>lim\<close> from \<open>buf\<close> at \<open>base\<close> may give: \<open>k\<close> bytes are written, all of
  them or as many as fit on the disk.\<close>

definition written :: "sfs_fs \<Rightarrow> sfs_inode \<Rightarrow> bytes \<Rightarrow> nat \<Rightarrow> nat \<Rightarrow> nat \<Rightarrow> int \<Rightarrow> sfs_fs \<Rightarrow> sfs_inode \<Rightarrow> nat \<Rightarrow> bool" where
  "written s sin buf base pos lim ret s' sin' k \<longleftrightarrow> same_ino sin sin' \<and>
     file_eff s (din sin) s' (din sin') (overlay (fb s (din sin)) pos (seg base k buf)) \<and>
     di_blocks (din sin') = max (di_blocks (din sin)) ((pos + k + 4095) div 4096) \<and>
     (ret = 0 \<and> k = lim - pos \<or> ret = - E_NO_MEM \<and> k < lim - pos \<and> card (free s') \<le> 1)"

lemma writtenD:
  assumes "written s sin buf base pos lim ret s' sin' k"
  shows "fs_ok s'" "ino_ok s' (din sin')" "di_blocks (din sin') = max (di_blocks (din sin)) ((pos + k + 4095) div 4096)"
proof -
  have e: "file_eff s (din sin) s' (din sin') (overlay (fb s (din sin)) pos (seg base k buf))"
    and b: "di_blocks (din sin') = max (di_blocks (din sin)) ((pos + k + 4095) div 4096)"
    using assms by (simp_all only: written_def)
  show "fs_ok s'" "ino_ok s' (din sin')" by (rule effD [OF e])+
  show "di_blocks (din sin') = max (di_blocks (din sin)) ((pos + k + 4095) div 4096)" by (rule b)
qed

lemma div_up_block: "0 < r \<Longrightarrow> r \<le> 4096 \<Longrightarrow> (4096 * i + r + 4095) div 4096 = Suc i"
  by (rule div_nat_eqI) auto

lemma up_block: "(x :: nat) = 4096 * a + r \<Longrightarrow> r < 4096 \<Longrightarrow> x + (4096 - r) = 4096 * Suc a"
  by simp

lemma div_up_mult: "(4096 * i + 4095) div 4096 = (i :: nat)"
  by simp

text \<open>Two consecutive ranges.\<close>

lemma written_trans:
  assumes a: "written s sin buf base pos mid 0 s1 sin1 (mid - pos)" "pos \<le> mid" "mid \<le> lim"
    and b: "written s1 sin1 buf (base + (mid - pos)) mid lim ret s2 sin2 k" and l: "base + (lim - pos) \<le> length buf"
  shows "written s sin buf base pos lim ret s2 sin2 (mid - pos + k)"
proof -
  have k: "k \<le> lim - mid" using b by (auto simp: written_def)
  have e1: "file_eff s (din sin) s1 (din sin1) (overlay (fb s (din sin)) pos (seg base (mid - pos) buf))"
    using a(1) by (simp add: written_def)
  have "file_eff s1 (din sin1) s2 (din sin2) (overlay (fb s1 (din sin1)) mid (seg (base + (mid - pos)) k buf))"
    using b by (simp add: written_def)
  then have "file_eff s (din sin) s2 (din sin2) (overlay (overlay (fb s (din sin)) pos (seg base (mid - pos) buf)) mid (seg (base + (mid - pos)) k buf))"
    unfolding effD(3) [OF e1] by (rule file_eff_trans [OF e1])
  moreover have "overlay (overlay (fb s (din sin)) pos (seg base (mid - pos) buf)) mid (seg (base + (mid - pos)) k buf) =
      overlay (fb s (din sin)) pos (seg base (mid - pos + k) buf)"
  proof -
    have "length (seg base (mid - pos) buf) = mid - pos" using l a(2,3) by simp
    then show ?thesis
      using overlay_append [of "fb s (din sin)" pos "seg base (mid - pos) buf"] a(2,3) l k
        seg_append [of base "mid - pos" k buf] by simp
  qed
  moreover have "di_blocks (din sin2) = max (di_blocks (din sin)) ((pos + (mid - pos + k) + 4095) div 4096)"
  proof -
    have "(mid + 4095) div 4096 \<le> (mid + k + 4095) div 4096" by (rule div_le_mono) simp
    then show ?thesis using a b by (simp add: written_def max_def)
  qed
  moreover have "same_ino sin sin2" using a(1) b same_ino_trans by (auto simp: written_def)
  moreover have "ret = 0 \<and> mid - pos + k = lim - pos \<or> ret = - E_NO_MEM \<and> mid - pos + k < lim - pos \<and> card (free s2) \<le> 1"
    using b a(2,3) by (auto simp: written_def)
  ultimately show ?thesis by (simp add: written_def)
qed

lemma part_written:
  assumes ok: "fs_ok s" "ino_ok s (din sin)" and i: "i \<le> di_blocks (din sin)" "i < 1036"
    and off: "off < 4096" "0 < n" "off + n \<le> 4096" "base + n \<le> length buf" "off = 0 \<or> i < di_blocks (din sin)"
  shows "\<exists>ret s' sin'. io_part True s sin buf base n i off = Some (ret, s', sin', buf) \<and>
    written s sin buf base (4096 * i + off) (4096 * i + off + n) ret s' sin' (if ret = 0 then n else 0)"
  using ok i off(1,3,4)
proof (cases rule: io_part_write)
  case (full s')
  then have "off = 0" using off(5) by auto
  then show ?thesis using full off(2)
    by (intro exI [of _ "- E_NO_MEM"] exI [of _ s'] exI [of _ sin]) (simp add: written_def error_codes)
next
  case (written s' sin')
  have "(4096 * i + (off + n) + 4095) div 4096 = Suc i" by (rule div_up_block) (use off in auto)
  then show ?thesis using written
    by (intro exI [of _ 0] exI [of _ s'] exI [of _ sin']) (simp add: written_def add.assoc)
qed

lemma blocks_written:
  assumes "fs_ok s" "ino_ok s (din sin)" "i \<le> di_blocks (din sin)" "i + n \<le> 1036" "base + 4096 * n \<le> length buf"
  shows "\<exists>ret s' sin' k. io_blocks True s sin buf base i n alen = Some (ret, s', sin', buf, alen + k) \<and>
    written s sin buf base (4096 * i) (4096 * (i + n)) ret s' sin' k"
proof -
  obtain ret s' sin' k where r: "io_blocks True s sin buf base i n alen = Some (ret, s', sin', buf, alen + 4096 * k)" "same_ino sin sin'"
    "file_eff s (din sin) s' (din sin') (overlay (fb s (din sin)) (4096 * i) (seg base (4096 * k) buf))" "k \<le> n"
    "di_blocks (din sin') = max (di_blocks (din sin)) (i + k)" "ret = 0 \<and> k = n \<or> ret = - E_NO_MEM \<and> k < n \<and> card (free s') \<le> 1"
    using io_blocks_write [OF assms] by blast
  have d: "(4096 * i + 4096 * k + 4095) div 4096 = i + k" using div_up_mult [of "i + k"] by (simp add: distrib_left)
  have "4096 * (i + n) - 4096 * i = 4096 * n" by simp
  then have "written s sin buf base (4096 * i) (4096 * (i + n)) ret s' sin' (4096 * k)"
    unfolding written_def d using r(2,3,5,6) by simp
  then show ?thesis using r(1) by blast
qed

lemma rest_written:
  assumes ok: "fs_ok s" "ino_ok s (din sin)" "i \<le> di_blocks (din sin)" and lim: "lim div 4096 = i + n" "lim \<le> 4096 * 1036"
    and l: "base + (lim - 4096 * i) \<le> length buf"
  shows "\<exists>ret s' sin' k. io_rest True s sin buf base i n lim alen = Some (ret, s', sin', buf, alen + k) \<and>
    written s sin buf base (4096 * i) lim ret s' sin' k"
proof -
  obtain r where r0: "lim mod 4096 = r" "r < 4096" by simp
  have lm: "lim = 4096 * (i + n) + r" using lim(1) r0(1) by (metis mult_div_mod_eq)
  have le: "i + n \<le> 1036" using div_le_mono [OF lim(2), of 4096] lim(1) by simp
  have le2: "base + 4096 * n \<le> length buf" using lm l by simp
  obtain ret s1 sin1 k where rr: "io_blocks True s sin buf base i n alen = Some (ret, s1, sin1, buf, alen + k)"
      "written s sin buf base (4096 * i) (4096 * (i + n)) ret s1 sin1 k"
    using blocks_written [OF ok le le2, of alen] by blast
  show ?thesis
  proof (cases "ret = 0")
    case False
    then have "written s sin buf base (4096 * i) lim ret s1 sin1 k" using rr(2) lm by (auto simp: written_def)
    moreover have "io_rest True s sin buf base i n lim alen = Some (ret, s1, sin1, buf, alen + k)"
      using rr(1) False by (simp add: io_rest_def)
    ultimately show ?thesis by blast
  next
    case True
    have k: "k = 4096 * (i + n) - 4096 * i" using rr(2) True by (auto simp: written_def error_codes)
    show ?thesis
    proof (cases "r = 0")
      case z: True
      then have "written s sin buf base (4096 * i) lim ret s1 sin1 k" using rr(2) lm by simp
      then show ?thesis using rr(1) True z by (auto simp: io_rest_def SFS_BLKSIZE_def r0(1))
    next
      case False
      have e: "fs_ok s1" "ino_ok s1 (din sin1)" using rr(2) effD(1,2) by (auto simp: written_def)
      have n1: "di_blocks (din sin1) = max (di_blocks (din sin)) (i + n)"
      proof -
        have "4096 * i + k + 4095 = 4096 * (i + n) + 4095" using k by simp
        then have "(4096 * i + k + 4095) div 4096 = i + n" by (simp only: div_up_mult)
        then show ?thesis using rr(2) by (simp only: written_def)
      qed
      have i1: "i + n \<le> di_blocks (din sin1)" "i + n < 1036" using n1 lm lim(2) False by auto
      have r1: "base + 4096 * n + r \<le> length buf" using l lm by simp
      obtain ret2 s2 sin2 where p: "io_part True s1 sin1 buf (base + 4096 * n) r (i + n) 0 = Some (ret2, s2, sin2, buf)"
          "written s1 sin1 buf (base + 4096 * n) (4096 * (i + n)) lim ret2 s2 sin2 (if ret2 = 0 then r else 0)"
        using part_written [OF e i1, of 0 r "base + 4096 * n" buf] r0 r1 False lm by auto
      have "written s sin buf base (4096 * i) lim ret2 s2 sin2 (4096 * (i + n) - 4096 * i + (if ret2 = 0 then r else 0))"
        by (rule written_trans [OF rr(2) [unfolded True k]]) (use p(2) lm l in auto)
      moreover have "io_rest True s sin buf base i n lim alen =
          Some (ret2, s2, sin2, buf, alen + (4096 * (i + n) - 4096 * i + (if ret2 = 0 then r else 0)))"
        using rr(1) True k p(1) False by (simp add: io_rest_def SFS_BLKSIZE_def r0(1))
      ultimately show ?thesis by blast
    qed
  qed
qed

lemma range_written:
  assumes ok: "fs_ok s" "ino_ok s (din sin)" and pos: "pos \<le> 4096 * di_blocks (din sin)" "pos < lim" "lim \<le> 4096 * 1036"
    and l: "base + (lim - pos) \<le> length buf"
  shows "\<exists>ret s' sin' k. io_range True s sin buf base pos lim = Some (ret, s', sin', buf, k) \<and> written s sin buf base pos lim ret s' sin' k"
proof -
  let ?i = "pos div 4096" and ?off = "pos mod 4096" and ?n = "lim div 4096 - pos div 4096"
  have p: "pos = 4096 * ?i + ?off" by simp
  have le: "?i \<le> lim div 4096" using pos(2) by (intro div_le_mono) simp
  have ll: "lim = 4096 * (lim div 4096) + lim mod 4096" "lim mod 4096 < 4096" by simp_all
  have pi: "?i \<le> di_blocks (din sin)" using p pos(1) by linarith
  show ?thesis
  proof (cases "?off = 0")
    case True
    then have p0: "4096 * ?i = pos" using p by linarith
    obtain ret s' sin' k where "io_rest True s sin buf base ?i ?n lim 0 = Some (ret, s', sin', buf, 0 + k)"
        "written s sin buf base pos lim ret s' sin' k"
      using rest_written [OF ok pi, of lim ?n base buf 0] le pos(3) l unfolding p0 by auto
    then show ?thesis using True by (auto simp: io_range_def SFS_BLKSIZE_def Let_def)
  next
    case False
    define z where "z = (if ?n \<noteq> 0 then 4096 - ?off else lim - pos)"
    have pi2: "?i < di_blocks (din sin)" using p pos(1) False by linarith
    have o: "?off < 4096" by simp
    have zb: "0 < z" "?off + z \<le> 4096" "z \<le> lim - pos"
    proof -
      have "lim div 4096 = ?i" if "?n = 0" using that le by simp
      then have "lim - pos + ?off \<le> 4096" if "?n = 0" using that ll p o by linarith
      then show "0 < z" "?off + z \<le> 4096" using o pos(2) by (auto simp: z_def)
      have "Suc ?i \<le> lim div 4096" if "?n \<noteq> 0" using that by linarith
      then have "4096 * Suc ?i \<le> lim" if "?n \<noteq> 0" using that mult_le_mono2 [of "Suc ?i" "lim div 4096" 4096] times_div_less_eq_dividend [of 4096 lim] by linarith
      moreover have "pos + (4096 - ?off) = 4096 * Suc ?i" using up_block [OF p o] .
      ultimately have "4096 - ?off \<le> lim - pos" if "?n \<noteq> 0" using that by linarith
      then show "z \<le> lim - pos" by (cases "?n = 0") (auto simp: z_def)
    qed
    have i1: "?i < 1036" using pos p by linarith
    obtain ret s1 sin1 where r: "io_part True s sin buf base z ?i ?off = Some (ret, s1, sin1, buf)"
        "written s sin buf base (4096 * ?i + ?off) (4096 * ?i + ?off + z) ret s1 sin1 (if ret = 0 then z else 0)"
      using part_written [OF ok pi i1 o zb(1,2), of base buf] pi2 zb(3) l by auto
    have w: "written s sin buf base pos (pos + z) ret s1 sin1 (if ret = 0 then z else 0)"
      using r(2) p by simp
    show ?thesis
    proof (cases "ret = 0 \<and> ?n \<noteq> 0")
      case True
      then have zz: "z = 4096 - ?off" by (simp add: z_def)
      have m: "pos + z = 4096 * (?i + 1)" using up_block [OF p o] unfolding zz by simp
      have w0: "written s sin buf base pos (pos + z) 0 s1 sin1 z" using w True by simp
      note e = writtenD(1,2) [OF w0]
      have "(pos + z + 4095) div 4096 = ?i + 1" unfolding m by simp
      then have b1: "?i + 1 \<le> di_blocks (din sin1)" using writtenD(3) [OF w0] by simp
      have d1: "lim div 4096 = ?i + 1 + (?n - 1)" using True by linarith
      have l1: "base + z + (lim - 4096 * (?i + 1)) \<le> length buf" using l zb(3) m by linarith
      obtain ret2 s2 sin2 k where q: "io_rest True s1 sin1 buf (base + z) (?i + 1) (?n - 1) lim z = Some (ret2, s2, sin2, buf, z + k)"
          "written s1 sin1 buf (base + z) (4096 * (?i + 1)) lim ret2 s2 sin2 k"
        using rest_written [OF e b1 d1 pos(3) l1, of z] by blast
      have zp: "pos + z - pos = z" by simp
      have w2: "written s sin buf base pos lim ret2 s2 sin2 (z + k)"
        using written_trans [of s sin buf base pos "pos + z" s1 sin1 lim ret2 s2 sin2 k] w0 q(2) zb(3) l pos(2)
        unfolding zp m [symmetric] by simp
      have "io_range True s sin buf base pos lim = Some (ret2, s2, sin2, buf, z + k)"
        using r(1) q(1) True False unfolding io_range_def SFS_BLKSIZE_def Let_def z_def [symmetric] by simp
      then show ?thesis using w2 by blast
    next
      case c: False
      have "io_range True s sin buf base pos lim = Some (ret, s1, sin1, buf, if ret = 0 then z else 0)"
        using r(1) c False unfolding io_range_def SFS_BLKSIZE_def Let_def z_def [symmetric] by auto
      moreover have "written s sin buf base pos lim ret s1 sin1 (if ret = 0 then z else 0)"
      proof (cases "ret = 0")
        case True
        then have "pos + z = lim" using c pos(2) by (simp add: z_def)
        then show ?thesis using w by simp
      next
        case False
        then show ?thesis using w zb by (auto simp: written_def)
      qed
      ultimately show ?thesis by blast
    qed
  qed
qed


definition contents :: "sfs_fs \<Rightarrow> sfs_disk_inode \<Rightarrow> bytes" where
  "contents s d = map (fb s d) [0..<di_size d]"

definition file_ok :: "sfs_fs \<Rightarrow> sfs_disk_inode \<Rightarrow> bool" where
  "file_ok s d \<longleftrightarrow> ino_ok s d \<and> di_blocks d = (di_size d + 4095) div 4096"

lemma file_ok_size: "file_ok s d \<Longrightarrow> di_size d \<le> 4096 * di_blocks d"
  unfolding file_ok_def by linarith

lemma length_contents [simp]: "length (contents s d) = di_size d"
  by (simp add: contents_def)

lemma fb_resize: "fb s (d\<lparr>di_size := n\<rparr>) = fb s d"
  by (simp add: fb_def bmap_def fun_eq_iff)

lemma ino_ok_resize: "ino_ok s (d\<lparr>di_size := n\<rparr>) = ino_ok s d"
  by (simp add: ino_ok_def bmap_def inj_on_def)

lemma own_resize: "own s (d\<lparr>di_size := n\<rparr>) = own s d"
  by (simp add: own_def bmap_def)

lemma overlay_contents:
  assumes "pos \<le> n" "m = max n (pos + length xs)"
  shows "map (overlay f pos xs) [0..<m] = take pos (map f [0..<n]) @ xs @ drop (pos + length xs) (map f [0..<n])"
proof (rule nth_equalityI)
  show "length (map (overlay f pos xs) [0..<m]) = length (take pos (map f [0..<n]) @ xs @ drop (pos + length xs) (map f [0..<n]))"
    using assms by auto
  fix i assume "i < length (map (overlay f pos xs) [0..<m])"
  then have i: "i < m" by simp
  consider "i < pos" | "pos \<le> i" "i < pos + length xs" | "pos + length xs \<le> i" by linarith
  then show "map (overlay f pos xs) [0..<m] ! i = (take pos (map f [0..<n]) @ xs @ drop (pos + length xs) (map f [0..<n])) ! i"
  proof cases
    case 1
    then show ?thesis using assms i by (simp add: overlay_def nth_append)
  next
    case 2
    then have "i - pos < length xs" by linarith
    then show ?thesis using assms i 2 by (simp add: overlay_def nth_append)
  next
    case 3
    then have "\<not> i - pos < length xs" "i < n" "pos + length xs + (i - pos - length xs) = i" using i assms by linarith+
    then show ?thesis using assms i 3 by (simp add: overlay_def nth_append)
  qed
qed

lemma sfs_io_write_range:
  assumes "di_type (din sin) \<noteq> SFS_TYPE_DIR" "0 < n" "pos + n \<le> 4096 * 1036"
  shows "sfs_io_nolock s sin buf base (int pos) n True = map_option (io_out pos) (io_range True s sin buf base pos (pos + n))"
proof -
  have "s64 (int pos + int n) = int (pos + n)" using s64_id [of "int (pos + n)"] assms(3) by simp
  then show ?thesis using assms by (simp add: sfs_io_nolock_def SFS_MAX_FILE_SIZE_def kassert_def nat_int_add)
qed

lemma sfs_io_write_spec:
  assumes ok: "fs_ok s" "file_ok s (din sin)" and t: "di_type (din sin) \<noteq> SFS_TYPE_DIR"
    and n: "0 < n" "pos \<le> di_size (din sin)" "pos + n \<le> 4096 * 1036" "base + n \<le> length buf"
  shows "\<exists>ret s' sin' k. sfs_io_nolock s sin buf base (int pos) n True = Some (ret, s', sin', buf, k) \<and>
    fs_ok s' \<and> file_ok s' (din sin') \<and> same_ino sin sin' \<and> di_type (din sin') = di_type (din sin) \<and>
    (ret = 0 \<and> k = n \<or> ret = - E_NO_MEM \<and> k < n \<and> card (free s') \<le> 1) \<and>
    contents s' (din sin') = take pos (contents s (din sin)) @ seg base k buf @ drop (pos + k) (contents s (din sin)) \<and>
    free s' \<subseteq> free s \<and> free s - free s' \<subseteq> own s' (din sin') \<and> (\<forall>c\<in>used s - own s (din sin). c \<in> used s' - own s' (din sin') \<and> blk s' c = blk s c)"
proof -
  let ?d = "din sin"
  have io: "ino_ok s ?d" and nb: "di_blocks ?d = (di_size ?d + 4095) div 4096" using ok(2) by (simp_all add: file_ok_def)
  have p: "pos \<le> 4096 * di_blocks ?d" "pos < pos + n" using n(1,2) file_ok_size [OF ok(2)] by linarith+
  obtain ret s' sin1 k where r: "io_range True s sin buf base pos (pos + n) = Some (ret, s', sin1, buf, k)"
      "written s sin buf base pos (pos + n) ret s' sin1 k"
    using range_written [OF ok(1) io p n(3), of base buf] n(4) by auto
  have e: "file_eff s ?d s' (din sin1) (overlay (fb s ?d) pos (seg base k buf))" and si: "same_ino sin sin1"
    and rk: "ret = 0 \<and> k = n \<or> ret = - E_NO_MEM \<and> k < n \<and> card (free s') \<le> 1"
    using r(2) by (simp_all add: written_def)
  have kn: "k \<le> n" using rk by auto
  have sz1: "di_size (din sin1) = di_size ?d" using e by (simp add: file_eff_def)
  have mb: "pos + k < 2 ^ 32" using kn n(3) by simp
  let ?m = "max (di_size ?d) (pos + k)"
  obtain sin' where out: "io_out pos (ret, s', sin1, buf, k) = (ret, s', sin', buf, k)" "din sin' = (din sin1)\<lparr>di_size := ?m\<rparr>" "same_ino sin sin'"
  proof (cases "di_size ?d < pos + k")
    case True
    then show thesis using that [of "sin1\<lparr>din := (din sin1)\<lparr>di_size := pos + k\<rparr>, dirty := True\<rparr>"] mb si sz1
      by (simp add: io_out_def same_ino_def)
  next
    case False
    then have "(din sin1)\<lparr>di_size := ?m\<rparr> = din sin1" using sz1 by (simp add: max_def)
    then show thesis using that [of sin1] False sz1 si by (simp add: io_out_def)
  qed
  have lk: "length (seg base k buf) = k" using kn n(4) by simp
  have c: "contents s' (din sin') = take pos (contents s ?d) @ seg base k buf @ drop (pos + k) (contents s ?d)"
    using overlay_contents [OF n(2), of ?m "seg base k buf" "fb s ?d"] lk effD(3) [OF e] by (simp add: contents_def out(2) fb_resize)
  have "di_blocks (din sin1) = (?m + 4095) div 4096"
    using writtenD(3) [OF r(2)] div_le_mono [of "di_size ?d + 4095" "pos + k + 4095" 4096] div_le_mono [of "pos + k + 4095" "di_size ?d + 4095" 4096]
    unfolding nb by (cases "di_size ?d \<le> pos + k") (simp_all add: max_absorb1 max_absorb2)
  then have fo: "file_ok s' (din sin')" using effD(2) [OF e] by (simp add: file_ok_def out(2) ino_ok_resize)
  have fr: "free s' \<subseteq> free s" using e by (simp add: file_eff_def)
  have o1: "own s' (din sin') \<subseteq> own s ?d \<union> (free s - free s')" using e by (simp add: file_eff_def own_resize out(2))
  have "c \<in> used s' - own s' (din sin') \<and> blk s' c = blk s c" if "c \<in> used s - own s ?d" for c
  proof -
    have "c \<in> used s'" using that fr effD(4) [OF e] by (auto simp: used_def)
    moreover have "c \<notin> own s' (din sin')" using o1 that by (auto simp: used_def)
    moreover have "blk s' c = blk s c" using e that by (simp add: file_eff_def)
    ultimately show ?thesis by blast
  qed
  moreover have "sfs_io_nolock s sin buf base (int pos) n True = Some (ret, s', sin', buf, k)"
    using sfs_io_write_range [OF t n(1,3)] r(1) out(1) by simp
  moreover have "free s - free s' \<subseteq> own s' (din sin')" "di_type (din sin') = di_type ?d"
    using e by (simp_all add: file_eff_def own_resize out(2))
  ultimately show ?thesis using effD(1) [OF e] fo out(3) rk c fr by blast
qed

text \<open>Reading.\<close>

lemma blit_map_append:
  assumes "a \<le> b" "b \<le> c" "base + (c - a) \<le> length buf"
  shows "blit (blit buf base (map f [a..<b])) (base + (b - a)) (map f [b..<c]) = blit buf base (map f [a..<c])"
proof -
  have "[a..<c] = [a..<b] @ [b..<c]" using assms(1,2) by (metis upt_add_eq_append le_add_diff_inverse)
  then show ?thesis using blit_blit_append [of base "map f [a..<b]" "map f [b..<c]" buf] assms by simp
qed

lemma io_blocks_read:
  assumes "fs_ok s" "ino_ok s (din sin)" "i + n \<le> di_blocks (din sin)" "base + 4096 * n \<le> length buf"
  shows "\<exists>s'. io_blocks False s sin buf base i n alen =
      Some (0, s', sin, blit buf base (map (fb s (din sin)) [4096 * i..<4096 * (i + n)]), alen + 4096 * n) \<and>
    file_eff s (din sin) s' (din sin) (fb s (din sin))"
  using assms
proof (induction n arbitrary: s i base alen buf)
  case 0
  then show ?case using file_eff_refl [OF 0(1,2)] by auto
next
  case (Suc n)
  let ?d = "din sin"
  have i: "i < di_blocks ?d" using Suc.prems(3) by simp
  obtain s1 where s1: "sfs_bmap_load_nolock s sin i = Some (0, s1, sin, bmap s ?d i)"
      "file_eff s ?d s1 ?d (fb s ?d)" "bmap s1 ?d = bmap s ?d"
    using load_existing [OF Suc.prems(1,2) i] by blast
  note e = effD [OF s1(2)]
  let ?b = "bmap s1 ?d i" and ?x = "map (fb s ?d) [4096 * i..<4096 * i + 4096]"
  obtain s2 where s2: "sfs_rblock s1 buf base ?b 1 = Some (0, s2, blit buf base (blk s1 ?b))" "upd_blk s1 s2 (blk s1)"
    using sfs_rblock_spec [of s1 ?b base buf] fs_ok_vol [OF e(1)] bmap_used [OF e(2) i] Suc.prems(4) by (auto simp: used_def)
  have lb: "length (blk s1 ?b) = 4096" using length_blk [OF fs_ok_vol [OF e(1)]] bmap_used [OF e(2) i] by (simp add: used_def)
  have x: "blk s1 ?b = ?x" using seg_block [OF e(2) fs_ok_vol [OF e(1)] i, of 0 4096] e(3) seg_0_all [OF lb] by simp
  note e2 = file_eff_trans [OF s1(2) upd_same(1) [OF e(1,2) s2(2)], unfolded e(3)]
  note f2 = effD [OF e2]
  obtain s' where r: "io_blocks False s2 sin (blit buf base ?x) (base + 4096) (i + 1) n (alen + 4096) =
      Some (0, s', sin, blit (blit buf base ?x) (base + 4096) (map (fb s ?d) [4096 * (i + 1)..<4096 * (i + 1 + n)]), alen + 4096 + 4096 * n)"
      "file_eff s2 ?d s' ?d (fb s ?d)"
    using Suc.IH [OF f2(1,2), of "i + 1" "base + 4096" "blit buf base ?x" "alen + 4096"] Suc.prems(3,4) f2(3) by auto
  have "blit (blit buf base ?x) (base + 4096) (map (fb s ?d) [4096 * (i + 1)..<4096 * (i + 1 + n)]) =
      blit buf base (map (fb s ?d) [4096 * i..<4096 * (i + Suc n)])"
    using blit_map_append [of "4096 * i" "4096 * i + 4096" "4096 * (i + Suc n)" base buf "fb s ?d"] Suc.prems(4) by (simp add: ac_simps)
  then have "io_blocks False s sin buf base i (Suc n) alen =
      Some (0, s', sin, blit buf base (map (fb s ?d) [4096 * i..<4096 * (i + Suc n)]), alen + 4096 * Suc n)"
    using s1(1,3) s2(1) x r(1) by (simp add: sfs_block_op_def SFS_BLKSIZE_def)
  then show ?case using file_eff_trans [OF e2 r(2)] by blast
qed

lemma rest_read:
  assumes ok: "fs_ok s" "ino_ok s (din sin)" and lim: "lim div 4096 = i + n" "lim \<le> 4096 * di_blocks (din sin)"
    and l: "base + (lim - 4096 * i) \<le> length buf"
  shows "\<exists>s'. io_rest False s sin buf base i n lim alen =
      Some (0, s', sin, blit buf base (map (fb s (din sin)) [4096 * i..<lim]), alen + (lim - 4096 * i)) \<and>
    file_eff s (din sin) s' (din sin) (fb s (din sin))"
proof -
  let ?d = "din sin"
  obtain r where r0: "lim mod 4096 = r" "r < 4096" by simp
  have lm: "lim = 4096 * (i + n) + r" using lim(1) r0(1) by (metis mult_div_mod_eq)
  have le: "i + n \<le> di_blocks ?d" using div_le_mono [OF lim(2), of 4096] lim(1) by simp
  have le2: "base + 4096 * n \<le> length buf" using lm l by simp
  let ?b1 = "blit buf base (map (fb s ?d) [4096 * i..<4096 * (i + n)])"
  obtain s1 where s1: "io_blocks False s sin buf base i n alen = Some (0, s1, sin, ?b1, alen + 4096 * n)"
      "file_eff s ?d s1 ?d (fb s ?d)"
    using io_blocks_read [OF ok le le2] by blast
  note e = effD [OF s1(2)]
  show ?thesis
  proof (cases "r = 0")
    case True
    then show ?thesis using s1 lm by (auto simp: io_rest_def SFS_BLKSIZE_def r0(1))
  next
    case False
    have i1: "i + n < di_blocks ?d" using lm lim(2) False by simp
    have l1: "base + 4096 * n + r \<le> length ?b1" using l lm le2 by simp
    obtain s2 where s2: "io_part False s1 sin ?b1 (base + 4096 * n) r (i + n) 0 =
        Some (0, s2, sin, blit ?b1 (base + 4096 * n) (map (fb s1 ?d) [4096 * (i + n) + 0..<4096 * (i + n) + 0 + r]))"
        "file_eff s1 ?d s2 ?d (fb s1 ?d)"
      by (rule io_part_read [OF e(1,2) i1 _ _ l1, of 0]) (use r0(2) in auto)
    have a: "blit ?b1 (base + 4096 * n) (map (fb s ?d) [4096 * (i + n)..<lim]) = blit buf base (map (fb s ?d) [4096 * i..<lim])"
      using blit_map_append [of "4096 * i" "4096 * (i + n)" lim base buf "fb s ?d"] lm l by simp
    have p: "io_part False s1 sin ?b1 (base + 4096 * n) r (i + n) 0 = Some (0, s2, sin, blit buf base (map (fb s ?d) [4096 * i..<lim]))"
      using s2(1) unfolding e(3) a [symmetric] unfolding add_0_right lm [symmetric] .
    have k: "alen + 4096 * n + r = alen + (lim - 4096 * i)" using lm by simp
    have "io_rest False s sin buf base i n lim alen =
        Some (0, s2, sin, blit buf base (map (fb s ?d) [4096 * i..<lim]), alen + (lim - 4096 * i))"
      using s1(1) p False unfolding io_rest_def SFS_BLKSIZE_def r0(1) k [symmetric] by (simp add: Let_def)
    then show ?thesis using file_eff_trans [OF s1(2) s2(2)] e(3) by auto
  qed
qed

lemma range_read:
  assumes ok: "fs_ok s" "ino_ok s (din sin)" and pos: "pos < lim" "lim \<le> 4096 * di_blocks (din sin)"
    and l: "base + (lim - pos) \<le> length buf"
  shows "\<exists>s'. io_range False s sin buf base pos lim =
      Some (0, s', sin, blit buf base (map (fb s (din sin)) [pos..<lim]), lim - pos) \<and> file_eff s (din sin) s' (din sin) (fb s (din sin))"
proof -
  let ?d = "din sin"
  obtain i off where p: "pos div 4096 = i" "pos mod 4096 = off" "off < 4096" by simp
  have pp: "pos = 4096 * i + off" using p by (metis mult_div_mod_eq)
  define n where "n = lim div 4096 - i"
  have le: "lim div 4096 = i + n" using pos(1) p(1) div_le_mono [of pos lim 4096] by (simp add: n_def)
  obtain r where r: "lim = 4096 * (i + n) + r" "r < 4096" using le by (metis mult_div_mod_eq mod_less_divisor zero_less_numeral)
  show ?thesis
  proof (cases "off = 0")
    case True
    then have p0: "4096 * i = pos" using pp by simp
    then show ?thesis using rest_read [OF ok le pos(2), of base buf 0] l True p
      by (auto simp: io_range_def SFS_BLKSIZE_def Let_def n_def)
  next
    case False
    define z where "z = (if n \<noteq> 0 then 4096 - off else lim - pos)"
    have z: "off + z \<le> 4096" "pos + z \<le> lim" "n = 0 \<Longrightarrow> pos + z = lim" "n \<noteq> 0 \<Longrightarrow> pos + z = 4096 * (i + 1)"
    proof -
      have a: "n = 0 \<Longrightarrow> off + (lim - pos) \<le> 4096" using r pp pos(1) by simp
      have b: "n \<noteq> 0 \<Longrightarrow> pos + (4096 - off) = 4096 * (i + 1)" using pp p(3) by simp
      have c: "n \<noteq> 0 \<Longrightarrow> 4096 * (i + 1) \<le> lim" using r(1) by (cases n) auto
      show "off + z \<le> 4096" "pos + z \<le> lim" "n = 0 \<Longrightarrow> pos + z = lim" "n \<noteq> 0 \<Longrightarrow> pos + z = 4096 * (i + 1)"
        using a b c p(3) pos(1) by (auto simp: z_def)
    qed
    have i1: "i < di_blocks ?d" using pp pos by linarith
    have lz: "base + z \<le> length buf" using z(2) l by linarith
    obtain s1 where s1: "io_part False s sin buf base z i off = Some (0, s1, sin, blit buf base (map (fb s ?d) [4096 * i + off..<4096 * i + off + z]))"
        "file_eff s ?d s1 ?d (fb s ?d)"
      by (rule io_part_read [OF ok i1 p(3) z(1) lz])
    note e = effD [OF s1(2)]
    let ?b1 = "blit buf base (map (fb s ?d) [pos..<pos + z])"
    have io: "io_part False s sin buf base z i off = Some (0, s1, sin, ?b1)" using s1(1) unfolding pp [symmetric] .
    show ?thesis
    proof (cases "n = 0")
      case True
      then have "io_range False s sin buf base pos lim = Some (0, s1, sin, ?b1, z)"
        using io False unfolding io_range_def SFS_BLKSIZE_def Let_def p n_def [symmetric] z_def [symmetric] by simp
      then show ?thesis using s1(2) z(3) [OF True] by auto
    next
      case n0: False
      have d1: "lim div 4096 = i + 1 + (n - 1)" using le n0 by simp
      have l1: "base + z + (lim - 4096 * (i + 1)) \<le> length ?b1" using l z(2) z(4) [OF n0] lz by simp
      obtain s2 where s2: "io_rest False s1 sin ?b1 (base + z) (i + 1) (n - 1) lim z =
          Some (0, s2, sin, blit ?b1 (base + z) (map (fb s1 ?d) [4096 * (i + 1)..<lim]), z + (lim - 4096 * (i + 1)))"
          "file_eff s1 ?d s2 ?d (fb s1 ?d)"
        using rest_read [OF e(1,2) d1 pos(2) l1] by blast
      have a: "blit ?b1 (base + z) (map (fb s ?d) [pos + z..<lim]) = blit buf base (map (fb s ?d) [pos..<lim])"
        using blit_map_append [of pos "pos + z" lim base buf "fb s ?d"] z(2) l by simp
      have "io_range False s sin buf base pos lim = Some (0, s2, sin, blit buf base (map (fb s ?d) [pos..<lim]), z + (lim - (pos + z)))"
        using io False n0 s2(1) a unfolding io_range_def SFS_BLKSIZE_def Let_def p n_def [symmetric] z_def [symmetric] e(3) z(4) [OF n0, symmetric] by simp
      then show ?thesis using file_eff_trans [OF s1(2) s2(2)] e(3) z(2) by auto
    qed
  qed
qed

lemma sfs_io_read_range:
  assumes "di_type (din sin) \<noteq> SFS_TYPE_DIR" "0 < n" "n < 2 ^ 62" "pos < di_size (din sin)" "di_size (din sin) \<le> 4096 * 1036"
  shows "sfs_io_nolock s sin buf base (int pos) n False =
    map_option (io_out pos) (io_range False s sin buf base pos (min (pos + n) (di_size (din sin))))"
proof -
  have e: "s64 (int pos + int n) = int (pos + n)" using s64_id [of "int (pos + n)"] assms by simp
  show ?thesis using assms e
    by (auto simp: sfs_io_nolock_def SFS_MAX_FILE_SIZE_def kassert_def nat_int_add min_def Let_def)
qed

lemma sfs_io_read_spec:
  assumes ok: "fs_ok s" "file_ok s (din sin)" and t: "di_type (din sin) \<noteq> SFS_TYPE_DIR"
    and n: "0 < n" "n < 2 ^ 62" "pos < di_size (din sin)" "base + n \<le> length buf"
  shows "\<exists>s'. sfs_io_nolock s sin buf base (int pos) n False =
      Some (0, s', sin, blit buf base (seg pos n (contents s (din sin))), min n (di_size (din sin) - pos)) \<and>
    file_eff s (din sin) s' (din sin) (fb s (din sin))"
proof -
  let ?d = "din sin" and ?lim = "min (pos + n) (di_size (din sin))"
  have io: "ino_ok s ?d" using ok(2) by (simp add: file_ok_def)
  have d: "di_blocks ?d \<le> 1036" using io by (simp add: ino_ok_def)
  have sz: "di_size ?d \<le> 4096 * di_blocks ?d" by (rule file_ok_size [OF ok(2)])
  then have sz2: "di_size ?d \<le> 4096 * 1036" using d by linarith
  have pl: "pos < ?lim" "?lim \<le> 4096 * di_blocks ?d" "base + (?lim - pos) \<le> length buf" using n sz by auto
  obtain s' where s': "io_range False s sin buf base pos ?lim = Some (0, s', sin, blit buf base (map (fb s ?d) [pos..<?lim]), ?lim - pos)"
      "file_eff s ?d s' ?d (fb s ?d)"
    using range_read [OF ok(1) io pl] by blast
  have c: "map (fb s ?d) [pos..<?lim] = seg pos n (contents s ?d)"
  proof (rule nth_equalityI)
    fix i assume "i < length (map (fb s ?d) [pos..<?lim])"
    then have i: "pos + i < ?lim" by (simp only: length_map length_upt)
    then have "map (fb s ?d) [pos..<?lim] ! i = fb s ?d (pos + i)" by (subst nth_map) auto
    also have "\<dots> = seg pos n (contents s ?d) ! i" using i by (simp add: contents_def seg_def)
    finally show "map (fb s ?d) [pos..<?lim] ! i = seg pos n (contents s ?d) ! i" .
  qed (use pl n in \<open>auto simp: contents_def\<close>)
  have m: "?lim - pos = min n (di_size ?d - pos)" using n by auto
  have "io_out pos (0, s', sin, buf', min n (di_size ?d - pos)) = (0, s', sin, buf', min n (di_size ?d - pos))" for buf'
    using n(3) by (auto simp: io_out_def)
  then have "sfs_io_nolock s sin buf base (int pos) n False = Some (0, s', sin, blit buf base (seg pos n (contents s ?d)), min n (di_size ?d - pos))"
    using sfs_io_read_range [OF t n(1,2,3) sz2] s'(1) unfolding c m by simp
  then show ?thesis using s'(2) by blast
qed

end
