(* ===== verification/Sfs_Spec.thy ===== *)
theory Sfs_Spec
  imports Sfs_Rw
begin

text \<open>
  Changing the length of a file and writing its inode back, and the properties of files: writing and reading as
  operations on the abstract contents, the round trip, truncation, the stored inode, and the limit of the block map.
\<close>


section \<open>Changing the length of a file\<close>

text \<open>Dropping the last block: it becomes free, nothing else of the file or of another file changes.\<close>

definition dropped :: "nat \<Rightarrow> sfs_fs \<Rightarrow> sfs_inode \<Rightarrow> sfs_fs \<Rightarrow> sfs_inode \<Rightarrow> bool" where
  "dropped k s sin s' sin' \<longleftrightarrow> fs_ok s' \<and> ino_ok s' (din sin') \<and> geo s' = geo s \<and> same_ino sin sin' \<and>
     di_blocks (din sin') + k = di_blocks (din sin) \<and> (\<forall>p<4096 * di_blocks (din sin'). fb s' (din sin') p = fb s (din sin) p) \<and>
     free s \<subseteq> free s' \<and> free s' \<subseteq> free s \<union> own s (din sin) \<and> card (free s') = card (free s) + k \<and>
     own s' (din sin') \<subseteq> own s (din sin) \<and> (\<forall>c\<in>used s - own s (din sin). blk s' c = blk s c) \<and>
     di_size (din sin') = di_size (din sin) \<and> di_type (din sin') = di_type (din sin) \<and> nlinks (din sin') = nlinks (din sin)"

lemma dropped_trans:
  assumes "dropped k s sin s1 sin1" "dropped j s1 sin1 s2 sin2"
  shows "dropped (j + k) s sin s2 sin2"
proof -
  note a = assms [unfolded dropped_def]
  have "blk s2 c = blk s c" if "c \<in> used s - own s (din sin)" for c
  proof -
    have "c \<in> used s1 - own s1 (din sin1)" using a that by (auto simp: used_def geo_def)
    then show ?thesis using a that by auto
  qed
  moreover have "fb s2 (din sin2) p = fb s (din sin) p" if "p < 4096 * di_blocks (din sin2)" for p
  proof -
    have "p < 4096 * di_blocks (din sin1)" using a that by linarith
    then show ?thesis using a that by auto
  qed
  moreover have "same_ino sin sin2" using a same_ino_trans by blast
  moreover have "free s2 \<subseteq> free s \<union> own s (din sin)" "own s2 (din sin2) \<subseteq> own s (din sin)" "free s \<subseteq> free s2" using a by blast+
  ultimately show ?thesis using a by (simp add: dropped_def)
qed

lemma drop_block:
  assumes ok: "fs_ok s" "ino_ok s (din sin)" and n: "di_blocks (din sin) = Suc m" and s': "fs_ok s'" "geo s' = geo s"
    and fr: "free s' = insert (bmap s (din sin) m) (free s)"
    and bm: "\<And>i. i < 1036 \<Longrightarrow> bmap s' (din sin') i = (if i = m then 0 else bmap s (din sin) i)"
    and d': "length (direct (din sin')) = 12" "indirect (din sin') = indirect (din sin)" "di_blocks (din sin') = m" "same_ino sin sin'"
      "di_size (din sin') = di_size (din sin)" "di_type (din sin') = di_type (din sin)" "nlinks (din sin') = nlinks (din sin)"
    and blk: "\<And>c. c \<in> used s \<Longrightarrow> c \<noteq> indirect (din sin) \<Longrightarrow> blk s' c = blk s c"
  shows "dropped 1 s sin s' sin'"
proof -
  let ?d = "din sin" and ?d' = "din sin'" and ?b = "bmap s (din sin) m"
  have m: "m < 1036" using ok(2) n by (simp add: ino_ok_def)
  have old: "bmap s ?d i \<in> used s" "bmap s ?d i \<noteq> indirect ?d" if "i \<le> m" for i
    using ok(2) that n by (cases "indirect ?d = 0"; auto simp: ino_ok_def used_def)+
  have inj: "bmap s ?d i \<noteq> ?b" if "i < m" for i
    using ok(2) that n by (auto simp: ino_ok_def inj_on_def)
  have bm': "bmap s' ?d' i = bmap s ?d i" if "i < m" for i using bm [of i] that m by simp
  have us: "used s' = used s - {?b}" using fr geoD [OF s'(2)] by (auto simp: used_def)
  have bo: "?b \<in> own s ?d" "?b \<notin> free s" using n old(1) [of m] by (auto simp: own_def used_def)
  have im: "bmap s' ?d' ` {..<m} = bmap s ?d ` {..<m}" using bm' by auto
  have own: "own s' ?d' \<subseteq> own s ?d" unfolding own_def d' im n by auto
  have io: "ino_ok s' ?d'"
    unfolding ino_ok_def d'(2,3)
  proof (intro conjI allI impI)
    fix i assume "i < m"
    then show "bmap s' ?d' i \<in> used s'" using bm' old(1) [of i] inj us by simp
  next
    fix i assume "m \<le> i" "i < 1036"
    then show "bmap s' ?d' i = 0" using bm [of i] ok(2) n by (auto simp: ino_ok_def)
  next
    have "inj_on (bmap s ?d) {..<m}" using ok(2) n by (auto simp: ino_ok_def intro: inj_on_subset)
    then show "inj_on (bmap s' ?d') {..<m}" by (subst inj_on_cong [of _ _ "bmap s ?d"]) (use bm' in auto)
  next
    assume "indirect ?d \<noteq> 0"
    then show "indirect ?d \<in> used s'" using ok(2) us old(2) [of m] by (auto simp: ino_ok_def)
  next
    fix i assume "indirect ?d \<noteq> 0" "i < m"
    then show "bmap s' ?d' i \<noteq> indirect ?d" using bm' old(2) [of i] by simp
  qed (use d' m in auto)
  have "fb s' ?d' p = fb s ?d p" if "p < 4096 * m" for p
  proof -
    have k: "p div 4096 < m" using that by (simp add: less_mult_imp_div_less mult.commute)
    then have "blk s' (bmap s ?d (p div 4096)) = blk s (bmap s ?d (p div 4096))" using blk old [of "p div 4096"] by simp
    then show ?thesis using that bm' [OF k] n d'(3) by (simp add: fb_def)
  qed
  moreover have "card (free s') = card (free s) + 1" using fr bo(2) fs_ok_finite [OF ok(1)] by simp
  moreover have "blk s' c = blk s c" if "c \<in> used s - own s ?d" for c
    using that blk [of c] by (auto simp: own_def used_def split: if_splits)
  ultimately show ?thesis using s' io own fr bo d' n by (auto simp: dropped_def)
qed

lemma truncate_one:
  assumes ok: "fs_ok s" "ino_ok s (din sin)" and n: "di_blocks (din sin) = Suc m"
  shows "\<exists>s' sin'. sfs_bmap_truncate_nolock s sin = Some (0, s', sin') \<and> dropped 1 s sin s' sin'"
proof -
  let ?d = "din sin" and ?b = "bmap s (din sin) m"
  have m: "m < 1036" using ok(2) n by (simp add: ino_ok_def)
  have bu: "?b \<in> used s" using bmap_used [OF ok(2)] n by simp
  have l12: "length (direct ?d) = 12" using ok(2) by (simp add: ino_ok_def)
  show ?thesis
  proof (cases "m < 12")
    case True
    obtain s' where s': "sfs_block_free s ?b = Some s'" "fs_ok s'" "free s' = insert ?b (free s)" "geo s' = geo s" "blk s' = blk s"
      using sfs_block_free_spec [OF ok(1) bu] by blast
    let ?sin = "sin\<lparr>din := ?d\<lparr>direct := (direct ?d)[m := 0], di_blocks := m\<rparr>, dirty := True\<rparr>"
    have "sfs_bmap_truncate_nolock s sin = Some (0, s', ?sin)"
      using True s'(1) bu n by (simp add: sfs_bmap_truncate_nolock_def sfs_bmap_free_nolock_def SFS_NDIRECT_def bmap_def kassert_def used_def Let_def)
    moreover have "dropped 1 s sin s' ?sin"
    proof (rule drop_block [OF ok n s'(2,4,3)])
      show "bmap s' (din ?sin) i = (if i = m then 0 else bmap s ?d i)" for i
        using True l12 s'(5) by (auto simp: bmap_def ent_def)
    qed (use l12 s'(5) in \<open>auto simp: same_ino_def\<close>)
    ultimately show ?thesis by blast
  next
    case False
    let ?e = "indirect ?d" and ?j = "m - 12"
    have ind: "?e \<noteq> 0" using bu False by (cases "?e = 0") (simp_all add: bmap_def used_def)
    have eu: "?e \<in> used s" "?b \<noteq> ?e" using ok(2) ind n by (simp_all add: ino_ok_def)
    have j: "?j < 1024" using m False by linarith
    have l: "length (blk s ?e) = 4096" using length_blk [OF fs_ok_vol [OF ok(1)]] eu by (simp add: used_def)
    obtain s1 where s1: "sfs_rbuf s (replicate 4 0) 0 4 ?e (?j * 4) = Some (0, s1, blit (replicate 4 0) 0 (seg (?j * 4) 4 (blk s ?e)))" "upd_blk s s1 (blk s)"
      using sfs_rbuf_spec [of s ?e "?j * 4" 4 0 "replicate 4 0"] fs_ok_vol [OF ok(1)] eu j by (auto simp: used_def)
    note u1 = upd_blk_fs [OF ok(1) s1(2)]
    have v: "le_val (blit (replicate 4 0) 0 (seg (?j * 4) 4 (blk s ?e))) = ?b" using False ind l j by (simp add: blit_all bmap_def ent_def)
    obtain s2 where s2: "sfs_wbuf s1 (le_bytes 4 0) 0 4 ?e (?j * 4) = Some (0, s2, le_bytes 4 0)"
        "upd_blk s1 s2 ((blk s1)(?e := blit (blk s1 ?e) (?j * 4) (seg 0 4 (le_bytes 4 0))))"
      using sfs_wbuf_spec [of s1 ?e "?j * 4" 4 0 "le_bytes 4 0"] fs_ok_vol [OF u1(1)] eu geoD [OF u1(3)] j by (auto simp: used_def)
    note u2 = upd_blk_fs [OF u1(1) s2(2)]
    have bu2: "?b \<in> used s2" using bu u1 u2 by (simp add: used_def geo_def)
    obtain s' where s': "sfs_block_free s2 ?b = Some s'" "fs_ok s'" "free s' = insert ?b (free s2)" "geo s' = geo s2" "blk s' = blk s2"
      using sfs_block_free_spec [OF u2(1) bu2] by blast
    let ?sin = "sin\<lparr>din := ?d\<lparr>di_blocks := m\<rparr>, dirty := True\<rparr>"
    have inu: "sfs_block_inuse s ?e = Some True" using sfs_block_inuse_iff [OF ok(1), of ?e] eu by (simp add: used_def)
    have "sfs_bmap_truncate_nolock s sin = Some (0, s', ?sin)"
      using False j ind s1(1) s2(1) s'(1) v bu n inu
      by (simp add: sfs_bmap_truncate_nolock_def sfs_bmap_free_nolock_def sfs_bmap_free_sub_nolock_def SFS_NDIRECT_def SFS_BLK_NENTRY_def SFS_BLKSIZE_def kassert_def used_def Let_def)
    moreover have "dropped 1 s sin s' ?sin"
    proof (rule drop_block [OF ok n s'(2)])
      have eb: "blk s' ?e = blit (blk s ?e) (?j * 4) (le_bytes 4 0)"
        using s'(5) u2(4) [of ?e] u1(4) [of ?e] eu geoD [OF u1(3)] by (simp add: used_def seg_0_all)
      have ents: "ent s' ?e k = (if k = ?j then 0 else ent s ?e k)" if "k < 1024" for k
        by (rule ent_write [OF fs_ok_vol [OF ok(1)] _ j _ eb that]) (use eu in \<open>auto simp: used_def\<close>)
      show "bmap s' (din ?sin) i = (if i = m then 0 else bmap s ?d i)" if "i < 1036" for i
        using ents [of "i - 12"] that False ind by (auto simp: bmap_def)
      show "free s' = insert ?b (free s)" "geo s' = geo s" using s'(3,4) u1 u2 by simp_all
      show "blk s' c = blk s c" if "c \<in> used s" "c \<noteq> ?e" for c
        using s'(5) u2(4) [of c] u1(4) [of c] that geoD [OF u1(3)] by (simp add: used_def)
    qed (use l12 in \<open>auto simp: same_ino_def\<close>)
    ultimately show ?thesis by blast
  qed
qed

lemma trunc_shrink_spec:
  assumes "fs_ok s" "ino_ok s (din sin)" "k \<le> di_blocks (din sin)"
  shows "\<exists>s' sin'. trunc_shrink s sin k = Some (0, s', sin') \<and> dropped k s sin s' sin'"
  using assms
proof (induction k arbitrary: s sin)
  case 0
  then show ?case by (auto simp: dropped_def)
next
  case (Suc k)
  then obtain m where m: "di_blocks (din sin) = Suc m" by (cases "di_blocks (din sin)") auto
  obtain s1 sin1 where s1: "sfs_bmap_truncate_nolock s sin = Some (0, s1, sin1)" "dropped 1 s sin s1 sin1"
    using truncate_one [OF Suc.prems(1,2) m] by blast
  then obtain s' sin' where "trunc_shrink s1 sin1 k = Some (0, s', sin')" "dropped k s1 sin1 s' sin'"
    using Suc.IH [of s1 sin1] Suc.prems(3) m by (auto simp: dropped_def)
  then show ?case using s1 dropped_trans [OF s1(2)] by fastforce
qed

lemma trunc_grow_spec:
  assumes "fs_ok s" "ino_ok s (din sin)" "di_blocks (din sin) + k \<le> 1036"
  shows "\<exists>ret s' sin' j. trunc_grow s sin (di_blocks (din sin)) k = Some (ret, s', sin') \<and> same_ino sin sin' \<and>
    file_eff s (din sin) s' (din sin') (fb s (din sin)) \<and> di_blocks (din sin') = di_blocks (din sin) + j \<and> j \<le> k \<and>
    (ret = 0 \<and> j = k \<or> ret = - E_NO_MEM \<and> j < k \<and> card (free s') \<le> 1)"
  using assms
proof (induction k arbitrary: s sin)
  case 0
  then show ?case using file_eff_refl [OF 0(1,2)] by auto
next
  case (Suc k)
  have i: "di_blocks (din sin) \<le> di_blocks (din sin)" "di_blocks (din sin) < 1036" using Suc.prems(3) by auto
  show ?case
    using Suc.prems(1,2) i
  proof (cases rule: load_cases)
    case (full s')
    then show ?thesis by (auto simp: error_codes need_def split: if_splits intro!: exI [of _ 0])
  next
    case (found s1 sin1)
    note e = effD [OF found(3)]
    have n1: "di_blocks (din sin1) = Suc (di_blocks (din sin))" using found(4) by simp
    obtain ret s' sin' j where r: "trunc_grow s1 sin1 (Suc (di_blocks (din sin))) k = Some (ret, s', sin')" "same_ino sin1 sin'"
      "file_eff s1 (din sin1) s' (din sin') (fb s1 (din sin1))" "di_blocks (din sin') = di_blocks (din sin1) + j" "j \<le> k"
      "ret = 0 \<and> j = k \<or> ret = - E_NO_MEM \<and> j < k \<and> card (free s') \<le> 1"
      using Suc.IH [OF e(1,2)] Suc.prems(3) n1 by auto
    have "trunc_grow s sin (di_blocks (din sin)) (Suc k) = Some (ret, s', sin')" using found(1) r(1) by simp
    then show ?thesis using r same_ino_trans [OF found(2) r(2)] file_eff_trans [OF found(3) r(3)] e(3) n1
      by (intro exI [of _ ret] exI [of _ s'] exI [of _ sin'] exI [of _ "Suc j"]) auto
  qed
qed


lemma trunc_blocks: "n < 2 ^ 63 \<Longrightarrow> ROUNDUP_DIV n SFS_BLKSIZE = (n + 4095) div 4096"
  by (simp add: ROUNDUP_DIV_def SFS_BLKSIZE_def)

definition resized :: "sfs_fs \<Rightarrow> sfs_inode \<Rightarrow> nat \<Rightarrow> sfs_fs \<Rightarrow> sfs_inode \<Rightarrow> bool" where
  "resized s sin len s' sin' \<longleftrightarrow> fs_ok s' \<and> file_ok s' (din sin') \<and> same_ino sin sin' \<and> di_size (din sin') = len \<and>
     (\<forall>p<len. contents s' (din sin') ! p = fb s (din sin) p) \<and>
     (\<forall>c\<in>used s - own s (din sin). c \<in> used s' - own s' (din sin') \<and> blk s' c = blk s c)"

lemma resized_contents:
  assumes "resized s sin len s' sin'" "file_ok s (din sin)"
  shows "take (min len (di_size (din sin))) (contents s' (din sin')) = take len (contents s (din sin))"
  using assms by (intro nth_equalityI) (auto simp: resized_def contents_def min_def)

lemma sfs_truncfile_spec:
  assumes ok: "fs_ok s" "file_ok s (din sin)" and len: "len \<le> 4096 * 1036"
  shows "\<exists>ret s' sin'. sfs_truncfile s sin (int len) = Some (ret, s', sin') \<and>
    (ret = 0 \<and> resized s sin len s' sin' \<or>
     ret = - E_NO_MEM \<and> di_size (din sin) < len \<and> card (free s') \<le> 1 \<and> file_eff s (din sin) s' (din sin') (fb s (din sin)))"
proof -
  let ?d = "din sin" and ?t = "(len + 4095) div 4096"
  have io: "ino_ok s ?d" and nb: "di_blocks ?d = (di_size ?d + 4095) div 4096" using ok(2) by (simp_all add: file_ok_def)
  have t: "ROUNDUP_DIV (nat (int len)) SFS_BLKSIZE = ?t" using trunc_blocks [of len] len by simp
  have lm: "\<not> (int len < 0 \<or> int len > int SFS_MAX_FILE_SIZE)" using len by (simp add: SFS_MAX_FILE_SIZE_def)
  have t1036: "?t \<le> 1036" using div_le_mono [of "len + 4095" "4096 * 1036 + 4095" 4096] len by simp
  have done_ok: "resized s sin len s' (sin1\<lparr>din := (din sin1)\<lparr>di_size := len\<rparr>, dirty := True\<rparr>)"
    if "fs_ok s'" "ino_ok s' (din sin1)" "same_ino sin sin1" "di_blocks (din sin1) = ?t" "\<And>p. p < 4096 * ?t \<Longrightarrow> fb s' (din sin1) p = fb s ?d p"
      "\<And>c. c \<in> used s - own s ?d \<Longrightarrow> c \<in> used s' - own s' (din sin1) \<and> blk s' c = blk s c" for s' sin1
  proof -
    have "len \<le> 4096 * ?t" by linarith
    then show ?thesis using that by (auto simp: resized_def file_ok_def ino_ok_resize fb_resize own_resize contents_def same_ino_def)
  qed
  consider "di_size ?d = len" | "di_size ?d \<noteq> len" "di_blocks ?d < ?t" | "di_size ?d \<noteq> len" "?t < di_blocks ?d" | "di_size ?d \<noteq> len" "?t = di_blocks ?d"
    by linarith
  then show ?thesis
  proof cases
    case 1
    then have "sfs_truncfile s sin (int len) = Some (0, s, sin)"
      using lm t nb unfolding sfs_truncfile_def Let_def by (simp add: kassert_def)
    moreover have "resized s sin len s sin" using ok 1 by (auto simp: resized_def contents_def)
    ultimately show ?thesis by blast
  next
    case 2
    have "di_blocks ?d + (?t - di_blocks ?d) \<le> 1036" using 2(2) t1036 by simp
    then obtain ret s' sin1 j where r: "trunc_grow s sin (di_blocks ?d) (?t - di_blocks ?d) = Some (ret, s', sin1)" "same_ino sin sin1"
        "file_eff s ?d s' (din sin1) (fb s ?d)" "di_blocks (din sin1) = di_blocks ?d + j"
        "ret = 0 \<and> j = ?t - di_blocks ?d \<or> ret = - E_NO_MEM \<and> card (free s') \<le> 1"
      using trunc_grow_spec [OF ok(1) io] by blast
    note e = effD [OF r(3)]
    have sz: "di_size ?d < len" using 2(2) nb div_le_mono [of "len + 4095" "di_size ?d + 4095" 4096] by linarith
    show ?thesis
    proof (cases "ret = 0")
      case True
      then have j: "di_blocks (din sin1) = ?t" using r(4,5) 2(2) by (auto simp: error_codes)
      let ?sin = "sin1\<lparr>din := (din sin1)\<lparr>di_size := len\<rparr>, dirty := True\<rparr>"
      have "sfs_truncfile s sin (int len) = Some (0, s', ?sin)"
        using lm t r(1) True 2 j unfolding sfs_truncfile_def Let_def by (simp add: kassert_def)
      moreover have "resized s sin len s' ?sin"
      proof (rule done_ok [OF e(1,2) r(2) j])
        show "fb s' (din sin1) p = fb s ?d p" for p using e(3) by simp
        show "c \<in> used s' - own s' (din sin1) \<and> blk s' c = blk s c" if "c \<in> used s - own s ?d" for c
          using r(3) that by (auto simp: file_eff_def used_def geo_def)
      qed
      ultimately show ?thesis by blast
    next
      case False
      then have "sfs_truncfile s sin (int len) = Some (ret, s', sin1)"
        using lm t r(1) 2 unfolding sfs_truncfile_def Let_def by simp
      then show ?thesis using False r(3,5) sz by blast
    qed
  next
    case 3
    then have k: "di_blocks ?d - ?t \<le> di_blocks ?d" by simp
    obtain s' sin1 where r: "trunc_shrink s sin (di_blocks ?d - ?t) = Some (0, s', sin1)" "dropped (di_blocks ?d - ?t) s sin s' sin1"
      using trunc_shrink_spec [OF ok(1) io k] by blast
    have e: "fs_ok s'" "ino_ok s' (din sin1)" "same_ino sin sin1" using r(2) by (simp_all add: dropped_def)
    have "di_blocks (din sin1) + (di_blocks ?d - ?t) = di_blocks ?d" using r(2) by (simp only: dropped_def)
    then have j: "di_blocks (din sin1) = ?t" using 3(2) by linarith
    let ?sin = "sin1\<lparr>din := (din sin1)\<lparr>di_size := len\<rparr>, dirty := True\<rparr>"
    have "sfs_truncfile s sin (int len) = Some (0, s', ?sin)"
      using lm t r(1) 3 j unfolding sfs_truncfile_def Let_def by (simp add: kassert_def)
    moreover have "resized s sin len s' ?sin"
    proof (rule done_ok [OF e j])
      show "fb s' (din sin1) p = fb s ?d p" if "p < 4096 * ?t" for p using r(2) that j by (simp add: dropped_def)
      show "c \<in> used s' - own s' (din sin1) \<and> blk s' c = blk s c" if "c \<in> used s - own s ?d" for c
        using r(2) that by (auto simp: dropped_def used_def geo_def)
    qed
    ultimately show ?thesis by blast
  next
    case 4
    let ?sin = "sin\<lparr>din := ?d\<lparr>di_size := len\<rparr>, dirty := True\<rparr>"
    have "sfs_truncfile s sin (int len) = Some (0, s, ?sin)"
      using lm t 4 unfolding sfs_truncfile_def Let_def by (simp add: kassert_def)
    moreover have "resized s sin len s ?sin" by (rule done_ok [OF ok(1) io]) (use 4 in auto)
    ultimately show ?thesis by blast
  qed
qed

section \<open>Writing the inode back\<close>

definition din_wf :: "sfs_disk_inode \<Rightarrow> bool" where
  "din_wf d \<longleftrightarrow> di_size d < 2 ^ 32 \<and> di_type d < 2 ^ 16 \<and> nlinks d < 2 ^ 16 \<and> di_blocks d < 2 ^ 32 \<and> length (direct d) = 12 \<and>
     (\<forall>b\<in>set (direct d). b < 2 ^ 32) \<and> indirect d < 2 ^ 32"

lemma seg_concat:
  assumes "i < length xs"
  shows "seg (4 * i) 4 (concat (map (le_bytes 4) xs) @ zs) = le_bytes 4 (xs ! i)"
  using assms
proof (induction xs arbitrary: i)
  case (Cons x xs)
  show ?case
  proof (cases i)
    case 0
    then show ?thesis using seg_middle [of "[]" 0 "le_bytes 4 x" 4] by simp
  next
    case (Suc k)
    have "seg (4 * i) 4 (le_bytes 4 x @ ys) = seg (4 * k) 4 ys" for ys :: bytes using Suc by (simp add: seg_def)
    then show ?thesis using Cons Suc by simp
  qed
qed simp

lemma length_concat_le [simp]: "length (concat (map (le_bytes 4) xs)) = 4 * length xs"
  by (induction xs) auto

lemma length_din_bytes: "length (direct d) = 12 \<Longrightarrow> length (din_bytes d) = 64"
  by (simp add: din_bytes_def)

lemma bytes_din_bytes:
  assumes "din_wf d"
  shows "bytes_din (din_bytes d @ zs) = d"
proof -
  let ?a = "le_bytes 4 (di_size d)" and ?b = "le_bytes 2 (di_type d)" and ?c = "le_bytes 2 (nlinks d)" and ?e = "le_bytes 4 (di_blocks d)"
  let ?D = "concat (map (le_bytes 4) (direct d))" and ?i = "le_bytes 4 (indirect d)" and ?x = "din_bytes d @ zs"
  have l: "length (direct d) = 12" using assms by (simp add: din_wf_def)
  have x: "?x = ?a @ ?b @ ?c @ ?e @ ?D @ ?i @ zs" by (simp add: din_bytes_def)
  have 1: "seg 0 4 ?x = ?a" unfolding x using seg_middle [of "[]" 0 ?a 4] by simp
  have 2: "seg 4 2 ?x = ?b" unfolding x using seg_middle [of ?a 4 ?b 2] by simp
  have 3: "seg 6 2 ?x = ?c" unfolding x using seg_middle [of "?a @ ?b" 6 ?c 2 "?e @ ?D @ ?i @ zs"] by simp
  have 4: "seg 8 4 ?x = ?e" unfolding x using seg_middle [of "?a @ ?b @ ?c" 8 ?e 4 "?D @ ?i @ zs"] by simp
  have 5: "seg 60 4 ?x = ?i" unfolding x using seg_middle [of "?a @ ?b @ ?c @ ?e @ ?D" 60 ?i 4 zs] l by simp
  have 6: "le_val (seg (12 + 4 * i) 4 ?x) = direct d ! i" if "i < 12" for i
  proof -
    have "seg (12 + 4 * i) 4 ?x = seg (4 * i) 4 (?D @ ?i @ zs)" unfolding x by (simp add: seg_def)
    also have "\<dots> = le_bytes 4 (direct d ! i)" using seg_concat [of i "direct d" "?i @ zs"] l that by simp
    moreover have "direct d ! i < 2 ^ 32" using assms l that by (simp add: din_wf_def)
    ultimately show ?thesis by (simp add: le_val_le_bytes)
  qed
  have "map (\<lambda>i. le_val (seg (12 + 4 * i) 4 ?x)) [0..<12] = direct d"
    by (rule nth_equalityI) (use l 6 in auto)
  then show ?thesis unfolding bytes_din_def 1 2 3 4 5 using assms by (simp add: le_val_le_bytes din_wf_def)
qed

lemma sfs_fsync_spec:
  assumes ok: "fs_ok s" "ino sin \<in> used s" "din_wf (din sin)" "dirty sin"
  shows "\<exists>s'. sfs_fsync s sin = Some (0, s', sin\<lparr>dirty := False\<rparr>) \<and> fs_ok s' \<and> free s' = free s \<and> geo s' = geo s \<and>
    bytes_din (blk s' (ino sin)) = din sin \<and> (\<forall>c<nblocks s. c \<noteq> ino sin \<longrightarrow> blk s' c = blk s c)"
proof -
  let ?b = "din_bytes (din sin)"
  have l: "length ?b = 64" using length_din_bytes ok(3) by (simp add: din_wf_def)
  obtain s' where s': "sfs_wbuf s ?b 0 64 (ino sin) 0 = Some (0, s', ?b)" "upd_blk s s' ((blk s)(ino sin := blit (blk s (ino sin)) 0 (seg 0 64 ?b)))"
    using sfs_wbuf_spec [of s "ino sin" 0 64 0 ?b] fs_ok_vol [OF ok(1)] ok(2) l by (auto simp: used_def)
  note u = upd_blk_fs [OF ok(1) s'(2)]
  have "blk s' (ino sin) = ?b @ drop 64 (blk s (ino sin))"
    using u(4) [of "ino sin"] ok(2) l by (simp add: used_def seg_0_all blit_def)
  then have "bytes_din (blk s' (ino sin)) = din sin" using bytes_din_bytes [OF ok(3)] by simp
  moreover have "sfs_fsync s sin = Some (0, s', sin\<lparr>dirty := False\<rparr>)" using s'(1) ok(4) by (simp add: sfs_fsync_def)
  ultimately show ?thesis using u by auto
qed

section \<open>Enough space\<close>

lemma own_finite: "finite (own s d)"
  by (simp add: own_def)

lemma own_card: "card (own s d) \<le> di_blocks d + 1"
proof -
  have "card (bmap s d ` {..<di_blocks d}) \<le> di_blocks d" using card_image_le [of "{..<di_blocks d}" "bmap s d"] by simp
  then show ?thesis unfolding own_def
    using card_Un_le [of "bmap s d ` {..<di_blocks d}" "if indirect d = 0 then {} else {indirect d}"] by (auto split: if_splits)
qed

lemma sfs_io_write_enough:
  assumes "fs_ok s" "file_ok s (din sin)" "di_type (din sin) \<noteq> SFS_TYPE_DIR"
    and "0 < n" "pos \<le> di_size (din sin)" "pos + n \<le> 4096 * 1036" "base + n \<le> length buf"
    and r: "sfs_io_nolock s sin buf base (int pos) n True = Some (ret, s', sin', buf', k)"
    and enough: "(max (di_size (din sin)) (pos + n) + 4095) div 4096 + 3 \<le> card (free s)"
  shows "ret = 0"
proof (rule ccontr)
  assume "ret \<noteq> 0"
  then have w: "file_ok s' (din sin')" "k < n" "card (free s') \<le> 1" "free s' \<subseteq> free s" "free s - free s' \<subseteq> own s' (din sin')"
      "contents s' (din sin') = take pos (contents s (din sin)) @ seg base k buf @ drop (pos + k) (contents s (din sin))"
    using sfs_io_write_spec [OF assms(1-7)] r by auto
  have "length (contents s' (din sin')) \<le> max (di_size (din sin)) (pos + n)" unfolding w(6) using w(2) assms(5) by simp
  then have "di_blocks (din sin') \<le> (max (di_size (din sin)) (pos + n) + 4095) div 4096"
    using w(1) by (simp add: file_ok_def div_le_mono)
  moreover have "card (free s - free s') \<le> di_blocks (din sin') + 1"
    using card_mono [OF own_finite w(5)] own_card le_trans by blast
  moreover have "card (free s) = card (free s - free s') + card (free s')"
    using card_Diff_subset [OF finite_subset [OF w(4) fs_ok_finite [OF assms(1)]] w(4)] card_mono [OF fs_ok_finite [OF assms(1)] w(4)] by simp
  ultimately show False using w(3) enough by linarith
qed

section \<open>An example volume\<close>

text \<open>Eight blocks, the last five of them free, and an empty file with its inode in block 1.\<close>

definition example_fs :: sfs_fs where
  "example_fs = \<lparr>super = \<lparr>magic = SFS_MAGIC, blocks = 8, unused_blocks = 5, info = replicate 32 0\<rparr>, dev = example_disk,
     freemap = \<lparr>nbits = 8, nwords = 1, words = [248]\<rparr>, super_dirty = False, sfs_buffer = replicate 4096 0,
     inode_list = [], hash_list = (\<lambda>_. [])\<rparr>"

definition example_inode :: sfs_inode where
  "example_inode = \<lparr>din = \<lparr>di_size = 0, di_type = SFS_TYPE_FILE, nlinks = 1, di_blocks = 0, direct = replicate 12 0, indirect = 0\<rparr>,
     ino = 1, dirty = False, reclaim_count = 1\<rparr>"

lemma example_free: "free example_fs = {3, 4, 5, 6, 7}"
proof -
  have w: "(248 :: 32 word) = push_bit 3 1 OR push_bit 4 1 OR push_bit 5 1 OR push_bit 6 1 OR push_bit 7 1" by simp
  have "bit (push_bit 3 1 OR push_bit 4 1 OR push_bit 5 1 OR push_bit 6 1 OR push_bit 7 1 :: 32 word) i \<longleftrightarrow> i \<in> {3, 4, 5, 6, 7}" for i
    by (auto simp: bit_simps simp del: push_bit_of_1)
  then have "bit (248 :: 32 word) i \<longleftrightarrow> i \<in> {3, 4, 5, 6, 7}" for i unfolding w .
  then have "i \<in> free example_fs \<longleftrightarrow> i \<in> {3, 4, 5, 6, 7}" for i
    by (auto simp: free_def example_fs_def free_bits_words list_bits_Cons)
  then show ?thesis by blast
qed

lemma example_fs_ok: "fs_ok example_fs"
proof -
  have f: "free_bits (freemap example_fs) = {3, 4, 5, 6, 7}" using example_free by (simp add: free_def)
  have "bitmap_inv (freemap example_fs)" unfolding bitmap_inv_def f by (simp add: example_fs_def)
  moreover have "vol_ok example_fs" using example_disk_ok by (simp add: vol_ok_def example_fs_def example_disk_def)
  ultimately show ?thesis unfolding fs_ok_def example_free by (simp add: example_fs_def)
qed

lemma example_file_ok: "file_ok example_fs (din example_inode)"
  by (auto simp: file_ok_def ino_ok_def example_inode_def bmap_def)

section \<open>Properties\<close>

text \<open>C2. Writing \<open>n\<close> bytes at a position inside a regular file (or at its end), with the end below the limit of
  12 + 1024 blocks, never hits an assertion. It writes a prefix of \<open>k\<close> bytes of the caller's
  buffer: all of them with return code 0, or fewer with \<open>-E_NO_MEM\<close> and then at most one block of the disk is left
  free. The contents of the file are the old ones with these \<open>k\<close> bytes put at the position (and the file
  extended when they reach past its end), the volume and the file keep their invariants, every block taken from
  the free ones belongs to the file, and no block that belongs to anything else changes or changes owner.\<close>

theorem sfs_write_contents:
  assumes "fs_ok s" "file_ok s (din sin)" "di_type (din sin) \<noteq> SFS_TYPE_DIR"
    and "0 < n" "pos \<le> di_size (din sin)" "pos + n \<le> 4096 * 1036" "base + n \<le> length buf"
  shows "\<exists>ret s' sin' k. sfs_io_nolock s sin buf base (int pos) n True = Some (ret, s', sin', buf, k) \<and>
    fs_ok s' \<and> file_ok s' (din sin') \<and> same_ino sin sin' \<and> di_type (din sin') = di_type (din sin) \<and>
    (ret = 0 \<and> k = n \<or> ret = - E_NO_MEM \<and> k < n \<and> card (free s') \<le> 1) \<and>
    contents s' (din sin') = take pos (contents s (din sin)) @ seg base k buf @ drop (pos + k) (contents s (din sin)) \<and>
    free s' \<subseteq> free s \<and> free s - free s' \<subseteq> own s' (din sin') \<and> (\<forall>c\<in>used s - own s (din sin). c \<in> used s' - own s' (din sin') \<and> blk s' c = blk s c)"
  by (rule sfs_io_write_spec [OF assms])

theorem sfs_write_contents_witness:
  "\<exists>ret s' sin' k. sfs_io_nolock example_fs example_inode (replicate 5000 7) 0 0 5000 True = Some (ret, s', sin', replicate 5000 7, k) \<and>
     fs_ok s' \<and> contents s' (din sin') = replicate k 7"
proof -
  obtain ret s' sin' k where r: "sfs_io_nolock example_fs example_inode (replicate 5000 7) 0 (int 0) 5000 True = Some (ret, s', sin', replicate 5000 7, k)"
      "fs_ok s'" "contents s' (din sin') = take 0 (contents example_fs (din example_inode)) @ seg 0 k (replicate 5000 7) @
        drop (0 + k) (contents example_fs (din example_inode))" "ret = 0 \<and> k = 5000 \<or> ret = - E_NO_MEM \<and> k < 5000 \<and> card (free s') \<le> 1"
    using sfs_write_contents [OF example_fs_ok example_file_ok, of 5000 0 0 "replicate 5000 7"]
    by (auto simp: example_inode_def SFS_TYPE_FILE_def SFS_TYPE_DIR_def)
  moreover have "contents example_fs (din example_inode) = []" by (simp add: contents_def example_inode_def)
  moreover have "seg 0 k (replicate 5000 7) = replicate k (7 :: 8 word)" using r(4) by (auto simp: seg_def)
  ultimately show ?thesis by auto
qed

text \<open>C8. Reading from a position inside a regular file returns code 0 and exactly the bytes of the contents from that position,
  as many as asked for and as there are, into the caller's buffer, and changes neither the file nor the blocks of
  anything else.\<close>

theorem sfs_read_contents:
  assumes "fs_ok s" "file_ok s (din sin)" "di_type (din sin) \<noteq> SFS_TYPE_DIR"
    and "0 < n" "n < 2 ^ 62" "pos < di_size (din sin)" "base + n \<le> length buf"
  shows "\<exists>s'. sfs_io_nolock s sin buf base (int pos) n False =
      Some (0, s', sin, blit buf base (seg pos n (contents s (din sin))), min n (di_size (din sin) - pos)) \<and>
    file_eff s (din sin) s' (din sin) (fb s (din sin))"
  by (rule sfs_io_read_spec [OF assms])

definition example_inode1 :: sfs_inode where
  "example_inode1 = example_inode\<lparr>din := (din example_inode)\<lparr>di_size := 100, di_blocks := 1, direct := 2 # replicate 11 0\<rparr>\<rparr>"

lemma example_file1_ok: "file_ok example_fs (din example_inode1)"
proof -
  have "bmap example_fs (din example_inode1) i = (if i = 0 then 2 else 0)" if "i < 1036" for i
    using that by (auto simp: bmap_def example_inode1_def example_inode_def nth_Cons split: nat.splits)
  moreover have "2 \<in> used example_fs" unfolding used_def example_free by (simp add: example_fs_def)
  ultimately show ?thesis
    by (auto simp: file_ok_def ino_ok_def example_inode1_def example_inode_def lessThan_Suc)
qed

theorem sfs_read_contents_witness:
  "\<exists>s'. sfs_io_nolock example_fs example_inode1 (replicate 60 1) 0 50 60 False =
     Some (0, s', example_inode1, blit (replicate 60 1) 0 (seg 50 60 (contents example_fs (din example_inode1))), 50)"
  using sfs_read_contents [OF example_fs_ok example_file1_ok, of 60 50 0 "replicate 60 1"]
  by (auto simp: example_inode1_def example_inode_def SFS_TYPE_FILE_def SFS_TYPE_DIR_def)

text \<open>C34. What was written is read back: when writing \<open>n\<close> bytes succeeds, reading \<open>n\<close> bytes at the
  same position of the resulting file and volume returns 0 and exactly the bytes that were written.\<close>

theorem sfs_write_read_roundtrip:
  assumes "fs_ok s" "file_ok s (din sin)" "di_type (din sin) \<noteq> SFS_TYPE_DIR"
    and "0 < n" "pos \<le> di_size (din sin)" "pos + n \<le> 4096 * 1036" "base + n \<le> length buf"
    and "sfs_io_nolock s sin buf base (int pos) n True = Some (0, s', sin', buf', k)" "length out = n"
  shows "\<exists>s''. sfs_io_nolock s' sin' out 0 (int pos) n False = Some (0, s'', sin', seg base n buf, n)"
proof -
  have w: "fs_ok s'" "file_ok s' (din sin')" "k = n"
      "contents s' (din sin') = take pos (contents s (din sin)) @ seg base n buf @ drop (pos + n) (contents s (din sin))"
      "di_type (din sin') \<noteq> SFS_TYPE_DIR"
    using sfs_io_write_spec [OF assms(1-7)] assms(8) assms(3) by (auto simp: error_codes)
  have lb: "length (seg base n buf) = n" using assms(7) by simp
  have "length (contents s' (din sin')) \<ge> pos + n" unfolding w(4) using lb assms(5) by simp
  then have sz: "pos + n \<le> di_size (din sin')" by simp
  have "seg pos n (contents s' (din sin')) = seg base n buf"
    unfolding w(4) by (rule seg_middle) (use lb assms(5) in auto)
  moreover have "pos < di_size (din sin')" "n < 2 ^ 62" using sz assms(4,6) by auto
  ultimately show ?thesis
    using sfs_io_read_spec [OF w(1,2,5) assms(4), of pos 0 out] assms(9) lb sz by (auto simp: blit_all min_def)
qed

theorem sfs_write_read_roundtrip_witness:
  "\<exists>s' sin' s''. sfs_io_nolock example_fs example_inode (replicate 5000 7) 0 0 5000 True = Some (0, s', sin', replicate 5000 7, 5000) \<and>
     sfs_io_nolock s' sin' (replicate 5000 0) 0 0 5000 False = Some (0, s'', sin', replicate 5000 7, 5000)"
proof -
  have h: "di_type (din example_inode) \<noteq> SFS_TYPE_DIR" "0 < (5000::nat)" "0 \<le> di_size (din example_inode)" "0 + 5000 \<le> (4096 * 1036 :: nat)"
      "0 + 5000 \<le> length (replicate 5000 (7 :: 8 word))"
    by (simp_all add: example_inode_def SFS_TYPE_FILE_def SFS_TYPE_DIR_def)
  obtain ret s' sin' k where r: "sfs_io_nolock example_fs example_inode (replicate 5000 7) 0 (int 0) 5000 True = Some (ret, s', sin', replicate 5000 7, k)"
      "ret = 0 \<and> k = 5000 \<or> ret = - E_NO_MEM \<and> k < 5000 \<and> card (free s') \<le> 1"
    using sfs_io_write_spec [OF example_fs_ok example_file_ok h] by blast
  have "(max (di_size (din example_inode)) (0 + 5000) + 4095) div 4096 + 3 \<le> card (free example_fs)"
    unfolding example_free by (simp add: example_inode_def)
  then have r0: "ret = 0" using sfs_io_write_enough [OF example_fs_ok example_file_ok h r(1)] by simp
  then have "k = 5000" using r(2) by (auto simp: error_codes)
  then show ?thesis
    using sfs_write_read_roundtrip [OF example_fs_ok example_file_ok h r(1) [unfolded r0], of "replicate 5000 0"] r(1) r0
    by (auto simp: seg_def)
qed

text \<open>\<open>sfs_truncfile\<close> to any length up to the limit of 12 + 1024 blocks never hits an assertion on a
  well-formed file. On success the file has that length, its bytes below the shorter of the old and the new length are the old
  ones, the number of its blocks is that length rounded up, and no block that belongs to anything else changes; it fails only
  when it has to grow, with \<open>-E_NO_MEM\<close> and at most one block left free.\<close>

theorem sfs_truncfile_length:
  assumes "fs_ok s" "file_ok s (din sin)" "len \<le> 4096 * 1036"
  shows "\<exists>ret s' sin'. sfs_truncfile s sin (int len) = Some (ret, s', sin') \<and>
    (ret = 0 \<and> fs_ok s' \<and> file_ok s' (din sin') \<and> di_size (din sin') = len \<and> same_ino sin sin' \<and>
       take (min len (di_size (din sin))) (contents s' (din sin')) = take len (contents s (din sin)) \<and>
       (\<forall>c\<in>used s - own s (din sin). c \<in> used s' - own s' (din sin') \<and> blk s' c = blk s c) \<or>
     ret = - E_NO_MEM \<and> di_size (din sin) < len \<and> card (free s') \<le> 1)"
proof -
  obtain ret s' sin' where r: "sfs_truncfile s sin (int len) = Some (ret, s', sin')"
    "ret = 0 \<and> resized s sin len s' sin' \<or> ret = - E_NO_MEM \<and> di_size (din sin) < len \<and> card (free s') \<le> 1"
    using sfs_truncfile_spec [OF assms] by blast
  then show ?thesis using resized_contents [OF _ assms(2), of len s' sin'] unfolding resized_def by blast
qed

theorem sfs_truncfile_length_witness:
  "\<exists>s' sin'. sfs_truncfile example_fs example_inode1 40 = Some (0, s', sin') \<and> di_size (din sin') = 40 \<and>
     take 40 (contents s' (din sin')) = take 40 (contents example_fs (din example_inode1))"
  using sfs_truncfile_length [OF example_fs_ok example_file1_ok, of 40]
  by (auto simp: example_inode1_def example_inode_def)

text \<open>\<open>sfs_fsync\<close> of a dirty inode stores it: the bytes at the start of the inode's block decode to exactly the in-memory
  inode afterwards, the dirty flag is cleared, and no other block of the volume changes.\<close>

theorem sfs_fsync_stores_inode:
  assumes "fs_ok s" "ino sin \<in> used s" "din_wf (din sin)" "dirty sin"
  shows "\<exists>s'. sfs_fsync s sin = Some (0, s', sin\<lparr>dirty := False\<rparr>) \<and> fs_ok s' \<and>
    bytes_din (blk s' (ino sin)) = din sin \<and> (\<forall>c<nblocks s. c \<noteq> ino sin \<longrightarrow> blk s' c = blk s c)"
  using sfs_fsync_spec [OF assms] by blast

theorem sfs_fsync_stores_inode_witness:
  "\<exists>s'. sfs_fsync example_fs (example_inode1\<lparr>dirty := True\<rparr>) = Some (0, s', example_inode1\<lparr>dirty := False\<rparr>) \<and>
     bytes_din (blk s' 1) = din example_inode1"
proof -
  have "ino (example_inode1\<lparr>dirty := True\<rparr>) \<in> used example_fs"
    unfolding used_def example_free by (simp add: example_fs_def example_inode1_def example_inode_def)
  moreover have "din_wf (din (example_inode1\<lparr>dirty := True\<rparr>))"
    by (simp add: din_wf_def example_inode1_def example_inode_def SFS_TYPE_FILE_def)
  ultimately show ?thesis using sfs_fsync_stores_inode [OF example_fs_ok, of "example_inode1\<lparr>dirty := True\<rparr>"]
    by (auto simp: example_inode1_def example_inode_def)
qed

text \<open>The length limit that the code checks, 128 MB, is not the one the block map has: a byte written to a regular file
  at the end of its 1036 blocks passes every check of \<open>sfs_io_nolock\<close> and runs into the panic of
  \<open>sfs_bmap_get_nolock\<close>.\<close>

theorem sfs_write_past_limit_panics:
  assumes "di_type (din sin) \<noteq> SFS_TYPE_DIR" "di_blocks (din sin) = 1036" "0 < n" "n \<le> 4096"
  shows "4096 * 1036 < SFS_MAX_FILE_SIZE \<and> sfs_io_nolock s sin buf base (4096 * 1036) n True = None"
proof -
  have "s64 (4096 * 1036 + int n) = 4096 * 1036 + int n" by (rule s64_id) (use assms(4) in auto)
  moreover have "sfs_bmap_load_nolock s sin 1036 = None"
    using assms(2) by (simp add: sfs_bmap_load_nolock_def sfs_bmap_get_nolock_def SFS_NDIRECT_def SFS_BLK_NENTRY_def SFS_BLKSIZE_def kassert_def)
  moreover have "io_range True s sin buf base 4243456 (4243456 + n) = None" if l: "sfs_bmap_load_nolock s sin 1036 = None"
  proof (cases "n = 4096")
    case True
    then show ?thesis using l by (simp add: io_range_def io_rest_def SFS_BLKSIZE_def Let_def)
  next
    case False
    then have "(4243456 + n) div 4096 = 1036" "(4243456 + n) mod 4096 = n" using assms(3,4) by (auto intro!: div_nat_eqI mod_nat_eqI)
    then show ?thesis using l assms(3) by (simp add: io_range_def io_rest_def io_part_def SFS_BLKSIZE_def Let_def)
  qed
  ultimately show ?thesis using assms(1,3,4) by (simp add: sfs_io_nolock_def SFS_MAX_FILE_SIZE_def kassert_def Let_def nat_add_distrib)
qed

theorem sfs_write_past_limit_panics_witness:
  "sfs_io_nolock example_fs (example_inode\<lparr>din := (din example_inode)\<lparr>di_size := 4096 * 1036, di_blocks := 1036\<rparr>\<rparr>) [1] 0 (4096 * 1036) 1 True = None"
  using sfs_write_past_limit_panics [of "example_inode\<lparr>din := (din example_inode)\<lparr>di_size := 4096 * 1036, di_blocks := 1036\<rparr>\<rparr>" 1 example_fs "[1]" 0]
  by (simp add: example_inode_def SFS_TYPE_FILE_def SFS_TYPE_DIR_def)

end
