(* ===== verification/Sfs_Dir.thy ===== *)
theory Sfs_Dir
  imports Sfs_Spec
begin

text \<open>
  The in-memory inodes of the virtual file system (lab8/kern/fs/vfs/inode.c) with their reference and open counts, the
  cache of SFS inodes, and directories: the rest of lab8/kern/fs/sfs/sfs_inode.c.

  \<open>nodes\<close> is the heap of \<open>struct inode\<close>; an operation on a node that is not there is
  undefined behaviour and \<open>None\<close>. Addresses of new nodes and the success of \<open>kmalloc\<close> are arguments.
  The operation table of a node is determined by its kind: a device, an SFS directory or an SFS file.
  Names are byte strings without the terminating zero.
\<close>

section \<open>State\<close>

datatype device = Stdin | Stdout | Disk0

datatype in_info = Device device | Sfs sfs_inode

record inode =
  in_info :: in_info
  ref_count :: int
  open_count :: int

record vfs =
  sfs :: sfs_fs
  nodes :: "nat \<Rightarrow> inode option"

definition MAX_INODE_COUNT :: int where "MAX_INODE_COUNT = 0x10000"

definition set_node :: "nat \<Rightarrow> inode \<Rightarrow> vfs \<Rightarrow> vfs" where
  "set_node n i v = v\<lparr>nodes := (nodes v)(n := Some i)\<rparr>"

text \<open>\<open>vop_info(node, sfs_inode)\<close>: the SFS part of a node; the kind is asserted.\<close>

definition vop_info :: "inode \<Rightarrow> sfs_inode option" where
  "vop_info i = (case in_info i of Sfs sin \<Rightarrow> Some sin | Device _ \<Rightarrow> None)"

definition get_sin :: "nat \<Rightarrow> vfs \<Rightarrow> sfs_inode option" where
  "get_sin n v = do { i \<leftarrow> nodes v n; vop_info i }"

definition put_sin :: "nat \<Rightarrow> sfs_inode \<Rightarrow> vfs \<Rightarrow> vfs option" where
  "put_sin n sin v = do { i \<leftarrow> nodes v n; Some (set_node n (i\<lparr>in_info := Sfs sin\<rparr>) v) }"

section \<open>Inodes of the virtual file system\<close>

text \<open>\<open>inode_check\<close>, made by every call through the operation table.\<close>

definition inode_check :: "inode \<Rightarrow> unit option" where
  "inode_check i = do {
     kassert (ref_count i \<ge> open_count i \<and> open_count i \<ge> 0);
     kassert (ref_count i < MAX_INODE_COUNT \<and> open_count i < MAX_INODE_COUNT) }"

definition inode_init :: "in_info \<Rightarrow> inode" where
  "inode_init nfo = \<lparr>in_info = nfo, ref_count = 1, open_count = 0\<rparr>"

definition inode_kill :: "nat \<Rightarrow> vfs \<Rightarrow> vfs option" where
  "inode_kill n v = do {
     i \<leftarrow> nodes v n;
     kassert (ref_count i = 0);
     kassert (open_count i = 0);
     Some (v\<lparr>nodes := (nodes v)(n := None)\<rparr>) }"

definition inode_ref_inc :: "nat \<Rightarrow> vfs \<Rightarrow> (int \<times> vfs) option" where
  "inode_ref_inc n v = do {
     i \<leftarrow> nodes v n;
     Some (ref_count i + 1, set_node n (i\<lparr>ref_count := ref_count i + 1\<rparr>) v) }"

definition inode_open_inc :: "nat \<Rightarrow> vfs \<Rightarrow> (int \<times> vfs) option" where
  "inode_open_inc n v = do {
     i \<leftarrow> nodes v n;
     Some (open_count i + 1, set_node n (i\<lparr>open_count := open_count i + 1\<rparr>) v) }"

definition vop_fsync :: "nat \<Rightarrow> vfs \<Rightarrow> (int \<times> vfs) option" where
  "vop_fsync n v = do {
     i \<leftarrow> nodes v n;
     inode_check i;
     sin \<leftarrow> vop_info i;
     (ret, s, sin) \<leftarrow> sfs_fsync (sfs v) sin;
     v \<leftarrow> put_sin n sin (v\<lparr>sfs := s\<rparr>);
     Some (ret, v) }"

text \<open>Directories have no \<open>vop_truncate\<close>, which the call asserts.\<close>

definition vop_truncate :: "nat \<Rightarrow> int \<Rightarrow> vfs \<Rightarrow> (int \<times> vfs) option" where
  "vop_truncate n len v = do {
     i \<leftarrow> nodes v n;
     inode_check i;
     sin \<leftarrow> vop_info i;
     kassert (di_type (din sin) \<noteq> SFS_TYPE_DIR);
     (ret, s, sin) \<leftarrow> sfs_truncfile (sfs v) sin len;
     v \<leftarrow> put_sin n sin (v\<lparr>sfs := s\<rparr>);
     Some (ret, v) }"

text \<open>\<open>sfs_close\<close> writes the inode back; the close functions of the devices only return 0.\<close>

definition vop_close :: "nat \<Rightarrow> vfs \<Rightarrow> (int \<times> vfs) option" where
  "vop_close n v = do {
     i \<leftarrow> nodes v n;
     inode_check i;
     case in_info i of Device _ \<Rightarrow> Some (0, v) | Sfs _ \<Rightarrow> vop_fsync n v }"

definition inode_open_dec :: "nat \<Rightarrow> vfs \<Rightarrow> (int \<times> vfs) option" where
  "inode_open_dec n v = do {
     i \<leftarrow> nodes v n;
     kassert (open_count i > 0);
     let v = set_node n (i\<lparr>open_count := open_count i - 1\<rparr>) v;
     v \<leftarrow> (if open_count i - 1 = 0 then do { (_, v) \<leftarrow> vop_close n v; Some v } else Some v);
     Some (open_count i - 1, v) }"

section \<open>The inode cache\<close>

definition hash32 :: "nat \<Rightarrow> nat \<Rightarrow> nat" where
  "hash32 val bits = u32 (val * 0x9e370001) div 2 ^ (32 - bits)"

definition sin_hashfn :: "nat \<Rightarrow> nat" where
  "sin_hashfn x = hash32 x 10"

definition sfs_set_links :: "nat \<Rightarrow> nat \<Rightarrow> sfs_fs \<Rightarrow> sfs_fs" where
  "sfs_set_links n i s = s\<lparr>inode_list := n # inode_list s,
     hash_list := (hash_list s)(sin_hashfn i := n # hash_list s (sin_hashfn i))\<rparr>"

definition sfs_remove_links :: "nat \<Rightarrow> nat \<Rightarrow> sfs_fs \<Rightarrow> sfs_fs" where
  "sfs_remove_links n i s = s\<lparr>inode_list := remove1 n (inode_list s),
     hash_list := (hash_list s)(sin_hashfn i := remove1 n (hash_list s (sin_hashfn i)))\<rparr>"

text \<open>\<open>sfs_get_ops\<close>: only directories and files have an operation table.\<close>

definition sfs_get_ops :: "nat \<Rightarrow> unit option" where
  "sfs_get_ops typ = kassert (typ = SFS_TYPE_DIR \<or> typ = SFS_TYPE_FILE)"

definition sfs_create_inode :: "bool \<Rightarrow> nat \<Rightarrow> sfs_disk_inode \<Rightarrow> nat \<Rightarrow> vfs \<Rightarrow> (int \<times> vfs) option" where
  "sfs_create_inode ok addr d i v =
     (if ok
      then do {
        sfs_get_ops (di_type d);
        Some (0, set_node addr (inode_init (Sfs \<lparr>din = d, ino = i, dirty = False, reclaim_count = 1\<rparr>)) v) }
      else Some (- E_NO_MEM, v))"

fun find_chain :: "nat \<Rightarrow> nat list \<Rightarrow> vfs \<Rightarrow> nat option option" where
  "find_chain i [] v = Some None"
| "find_chain i (n # ns) v = do {
     sin \<leftarrow> get_sin n v;
     if ino sin = i then Some (Some n) else find_chain i ns v }"

definition lookup_sfs_nolock :: "nat \<Rightarrow> vfs \<Rightarrow> (nat option \<times> vfs) option" where
  "lookup_sfs_nolock i v = do {
     r \<leftarrow> find_chain i (hash_list (sfs v) (sin_hashfn i)) v;
     case r of
       None \<Rightarrow> Some (None, v)
     | Some n \<Rightarrow> do {
         (c, v) \<leftarrow> inode_ref_inc n v;
         sin \<leftarrow> get_sin n v;
         v \<leftarrow> (if c = 1 then put_sin n (sin\<lparr>reclaim_count := reclaim_count sin + 1\<rparr>) v else Some v);
         Some (Some n, v) } }"

text \<open>\<open>ok1\<close> and \<open>ok2\<close>: the allocations of the disk inode and of the node at \<open>addr\<close>. Result: return code, state, node.\<close>

definition sfs_load_inode :: "bool \<Rightarrow> bool \<Rightarrow> nat \<Rightarrow> nat \<Rightarrow> vfs \<Rightarrow> (int \<times> vfs \<times> nat) option" where
  "sfs_load_inode ok1 ok2 addr i v = do {
     (r, v) \<leftarrow> lookup_sfs_nolock i v;
     case r of
       Some n \<Rightarrow> Some (0, v, n)
     | None \<Rightarrow>
         if \<not> ok1 then Some (- E_NO_MEM, v, 0)
         else do {
           used \<leftarrow> sfs_block_inuse (sfs v) i;
           kassert used;
           (ret, s, bs) \<leftarrow> sfs_rbuf (sfs v) (replicate 64 0) 0 64 i 0;
           let v = v\<lparr>sfs := s\<rparr>;
           if ret \<noteq> 0 then Some (ret, v, 0)
           else do {
             let d = bytes_din bs;
             kassert (nlinks d \<noteq> 0);
             (ret, v) \<leftarrow> sfs_create_inode ok2 addr d i v;
             if ret \<noteq> 0 then Some (ret, v, 0)
             else Some (0, v\<lparr>sfs := sfs_set_links addr i (sfs v)\<rparr>, addr) } } }"

definition free_inode_blocks :: "sfs_inode \<Rightarrow> sfs_fs \<Rightarrow> sfs_fs option" where
  "free_inode_blocks sin s =
     (if nlinks (din sin) = 0
      then do {
        s \<leftarrow> sfs_block_free s (ino sin);
        if indirect (din sin) \<noteq> 0 then sfs_block_free s (indirect (din sin)) else Some s }
      else Some s)"

definition sfs_reclaim :: "nat \<Rightarrow> vfs \<Rightarrow> (int \<times> vfs) option" where
  "sfs_reclaim n v = do {
     i \<leftarrow> nodes v n;
     sin \<leftarrow> vop_info i;
     kassert (reclaim_count sin > 0);
     v \<leftarrow> put_sin n (sin\<lparr>reclaim_count := reclaim_count sin - 1\<rparr>) v;
     if reclaim_count sin - 1 \<noteq> 0 \<or> ref_count i \<noteq> 0 then Some (- E_BUSY, v)
     else do {
       (ret, v) \<leftarrow> (if nlinks (din sin) = 0 then vop_truncate n 0 v else Some (0, v));
       if ret \<noteq> 0 then Some (ret, v)
       else do {
         sin \<leftarrow> get_sin n v;
         (ret, v) \<leftarrow> (if dirty sin then vop_fsync n v else Some (0, v));
         if ret \<noteq> 0 then Some (ret, v)
         else do {
           sin \<leftarrow> get_sin n v;
           s \<leftarrow> free_inode_blocks sin (sfs_remove_links n (ino sin) (sfs v));
           v \<leftarrow> inode_kill n (v\<lparr>sfs := s\<rparr>);
           Some (0, v) } } } }"

text \<open>Devices have no \<open>vop_reclaim\<close>: dropping the last reference to a device node is an assertion failure.\<close>

definition inode_ref_dec :: "nat \<Rightarrow> vfs \<Rightarrow> (int \<times> vfs) option" where
  "inode_ref_dec n v = do {
     i \<leftarrow> nodes v n;
     kassert (ref_count i > 0);
     let c = ref_count i - 1;
     let i = i\<lparr>ref_count := c\<rparr>;
     let v = set_node n i v;
     v \<leftarrow> (if c = 0
          then do {
            inode_check i;
            sin \<leftarrow> vop_info i;
            (_, v) \<leftarrow> sfs_reclaim n v;
            Some v }
          else Some v);
     Some (c, v) }"

definition vfs_close :: "nat \<Rightarrow> vfs \<Rightarrow> (int \<times> vfs) option" where
  "vfs_close n v = do {
     (_, v) \<leftarrow> inode_open_dec n v;
     (_, v) \<leftarrow> inode_ref_dec n v;
     Some (0, v) }"

section \<open>Directories\<close>

record sfs_disk_entry =
  e_ino :: nat
  e_name :: bytes

text \<open>The 260 bytes of \<open>struct sfs_disk_entry\<close>, and the C string in a buffer.\<close>

definition bytes_entry :: "bytes \<Rightarrow> sfs_disk_entry" where
  "bytes_entry bs = \<lparr>e_ino = le_val (seg 0 4 bs), e_name = seg 4 256 bs\<rparr>"

definition cstr :: "bytes \<Rightarrow> bytes" where
  "cstr bs = takeWhile (\<lambda>b. b \<noteq> 0) bs"

definition sfs_dirent_read_nolock ::
    "sfs_fs \<Rightarrow> sfs_inode \<Rightarrow> nat \<Rightarrow> (int \<times> sfs_fs \<times> sfs_inode \<times> sfs_disk_entry) option" where
  "sfs_dirent_read_nolock s sin slot = do {
     kassert (di_type (din sin) = SFS_TYPE_DIR \<and> slot < di_blocks (din sin));
     (ret, s, sin, i) \<leftarrow> sfs_bmap_load_nolock s sin slot;
     if ret \<noteq> 0 then Some (ret, s, sin, bytes_entry [])
     else do {
       used \<leftarrow> sfs_block_inuse s i;
       kassert used;
       (ret, s, bs) \<leftarrow> sfs_rbuf s (replicate 260 0) 0 260 i 0;
       if ret \<noteq> 0 then Some (ret, s, sin, bytes_entry [])
       else let e = bytes_entry bs in
         Some (0, s, sin, e\<lparr>e_name := (e_name e)[SFS_MAX_FNAME_LEN := 0]\<rparr>) } }"

text \<open>Result of the search: return code, volume, inode, and the values stored through \<open>slot\<close> and \<open>ino_store\<close> (when
  found) and through \<open>empty_slot\<close>.\<close>

fun search_slots ::
    "bytes \<Rightarrow> nat \<Rightarrow> nat \<Rightarrow> nat \<Rightarrow> sfs_fs \<Rightarrow> sfs_inode \<Rightarrow> (int \<times> sfs_fs \<times> sfs_inode \<times> (nat \<times> nat) option \<times> nat) option" where
  "search_slots name i 0 emp s sin = Some (- E_NOENT, s, sin, None, emp)"
| "search_slots name i (Suc n) emp s sin = do {
     (ret, s, sin, e) \<leftarrow> sfs_dirent_read_nolock s sin i;
     if ret \<noteq> 0 then Some (ret, s, sin, None, emp)
     else if e_ino e = 0 then search_slots name (Suc i) n i s sin
     else if name = cstr (e_name e) then Some (0, s, sin, Some (i, e_ino e), emp)
     else search_slots name (Suc i) n emp s sin }"

definition sfs_dirent_search_nolock ::
    "bool \<Rightarrow> sfs_fs \<Rightarrow> sfs_inode \<Rightarrow> bytes \<Rightarrow> (int \<times> sfs_fs \<times> sfs_inode \<times> (nat \<times> nat) option \<times> nat) option" where
  "sfs_dirent_search_nolock ok s sin name = do {
     kassert (length name \<le> SFS_MAX_FNAME_LEN);
     if \<not> ok then Some (- E_NO_MEM, s, sin, None, 0)
     else search_slots name 0 (di_blocks (din sin)) (di_blocks (din sin)) s sin }"

fun findino_slots :: "nat \<Rightarrow> nat \<Rightarrow> nat \<Rightarrow> sfs_fs \<Rightarrow> sfs_inode \<Rightarrow> (int \<times> sfs_fs \<times> sfs_inode \<times> sfs_disk_entry) option" where
  "findino_slots k i 0 s sin = Some (- E_NOENT, s, sin, bytes_entry [])"
| "findino_slots k i (Suc n) s sin = do {
     (ret, s, sin, e) \<leftarrow> sfs_dirent_read_nolock s sin i;
     if ret \<noteq> 0 then Some (ret, s, sin, e)
     else if e_ino e = k then Some (0, s, sin, e)
     else findino_slots k (Suc i) n s sin }"

definition sfs_dirent_findino_nolock :: "sfs_fs \<Rightarrow> sfs_inode \<Rightarrow> nat \<Rightarrow> (int \<times> sfs_fs \<times> sfs_inode \<times> sfs_disk_entry) option" where
  "sfs_dirent_findino_nolock s sin k = findino_slots k 0 (di_blocks (din sin)) s sin"

text \<open>\<open>ok\<close>, \<open>ok1\<close>, \<open>ok2\<close> and \<open>addr\<close>: the allocations of the entry and of a new inode.\<close>

definition sfs_lookup_once :: "bool \<Rightarrow> bool \<Rightarrow> bool \<Rightarrow> nat \<Rightarrow> nat \<Rightarrow> bytes \<Rightarrow> vfs \<Rightarrow> (int \<times> vfs \<times> nat) option" where
  "sfs_lookup_once ok ok1 ok2 addr n name v = do {
     sin \<leftarrow> get_sin n v;
     (ret, s, sin, found, _) \<leftarrow> sfs_dirent_search_nolock ok (sfs v) sin name;
     v \<leftarrow> put_sin n sin (v\<lparr>sfs := s\<rparr>);
     case found of
       Some (_, i) \<Rightarrow> if ret = 0 then sfs_load_inode ok1 ok2 addr i v else Some (ret, v, 0)
     | None \<Rightarrow> Some (ret, v, 0) }"

definition sfs_lookup :: "bool \<Rightarrow> bool \<Rightarrow> bool \<Rightarrow> nat \<Rightarrow> nat \<Rightarrow> bytes \<Rightarrow> vfs \<Rightarrow> (int \<times> vfs \<times> nat) option" where
  "sfs_lookup ok ok1 ok2 addr n path v = do {
     kassert (path \<noteq> [] \<and> hd path \<noteq> 47);
     (_, v) \<leftarrow> inode_ref_inc n v;
     sin \<leftarrow> get_sin n v;
     if di_type (din sin) \<noteq> SFS_TYPE_DIR
     then do { (_, v) \<leftarrow> inode_ref_dec n v; Some (- E_NOTDIR, v, 0) }
     else do {
       (ret, v, sub) \<leftarrow> sfs_lookup_once ok ok1 ok2 addr n path v;
       (_, v) \<leftarrow> inode_ref_dec n v;
       Some (ret, v, if ret = 0 then sub else 0) } }"

definition O_RDONLY :: "32 word" where "O_RDONLY = 0"
definition O_WRONLY :: "32 word" where "O_WRONLY = 1"
definition O_RDWR :: "32 word" where "O_RDWR = 2"
definition O_CREAT :: "32 word" where "O_CREAT = 4"
definition O_EXCL :: "32 word" where "O_EXCL = 8"
definition O_TRUNC :: "32 word" where "O_TRUNC = 16"
definition O_APPEND :: "32 word" where "O_APPEND = 32"
definition O_ACCMODE :: "32 word" where "O_ACCMODE = 3"

unbundle bit_operations_syntax

definition sfs_opendir :: "32 word \<Rightarrow> int" where
  "sfs_opendir flags =
     (if flags AND O_ACCMODE \<noteq> O_RDONLY then - E_ISDIR
      else if flags AND O_APPEND \<noteq> 0 then - E_ISDIR
      else 0)"

fun nth_entry :: "nat \<Rightarrow> nat \<Rightarrow> nat \<Rightarrow> sfs_fs \<Rightarrow> sfs_inode \<Rightarrow> (int \<times> sfs_fs \<times> sfs_inode \<times> sfs_disk_entry) option" where
  "nth_entry slot i 0 s sin = Some (- E_NOENT, s, sin, bytes_entry [])"
| "nth_entry slot i (Suc n) s sin = do {
     (ret, s, sin, e) \<leftarrow> sfs_dirent_read_nolock s sin i;
     if ret \<noteq> 0 then Some (ret, s, sin, e)
     else if e_ino e \<noteq> 0
     then if slot = 0 then Some (0, s, sin, e) else nth_entry (slot - 1) (Suc i) n s sin
     else nth_entry slot (Suc i) n s sin }"

definition sfs_getdirentry_sub_nolock :: "sfs_fs \<Rightarrow> sfs_inode \<Rightarrow> nat \<Rightarrow> (int \<times> sfs_fs \<times> sfs_inode \<times> sfs_disk_entry) option" where
  "sfs_getdirentry_sub_nolock s sin slot = nth_entry slot 0 (di_blocks (din sin)) s sin"

definition sfs_getdirentry :: "bool \<Rightarrow> sfs_fs \<Rightarrow> sfs_inode \<Rightarrow> iobuf \<Rightarrow> (int \<times> sfs_fs \<times> sfs_inode \<times> iobuf) option" where
  "sfs_getdirentry ok s sin iob =
     (if \<not> ok then Some (- E_NO_MEM, s, sin, iob)
      else let offset = io_offset iob in
        if offset < 0 \<or> offset mod 256 \<noteq> 0 then Some (- E_INVAL, s, sin, iob)
        else let slot = nat ((offset div 256) mod 2 ^ 32) in
          if slot > di_blocks (din sin) then Some (- E_NOENT, s, sin, iob)
          else do {
            (ret, s, sin, e) \<leftarrow> sfs_getdirentry_sub_nolock s sin slot;
            if ret \<noteq> 0 then Some (ret, s, sin, iob)
            else do {
              (ret, _, iob, _) \<leftarrow> iobuf_move iob (e_name e) 256 True;
              Some (ret, s, sin, iob) } })"


section \<open>Searching a directory\<close>

text \<open>The entry in slot \<open>i\<close> of a directory as the code reads it.\<close>

definition dirent :: "sfs_fs \<Rightarrow> sfs_disk_inode \<Rightarrow> nat \<Rightarrow> sfs_disk_entry" where
  "dirent s d i = (let e = bytes_entry (seg 0 260 (blk s (bmap s d i))) in e\<lparr>e_name := (e_name e)[SFS_MAX_FNAME_LEN := 0]\<rparr>)"

definition dir_hit :: "sfs_fs \<Rightarrow> sfs_disk_inode \<Rightarrow> bytes \<Rightarrow> nat \<Rightarrow> bool" where
  "dir_hit s d name i \<longleftrightarrow> e_ino (dirent s d i) \<noteq> 0 \<and> name = cstr (e_name (dirent s d i))"

text \<open>Reading changes no block in use.\<close>

definition read_only :: "sfs_fs \<Rightarrow> sfs_fs \<Rightarrow> bool" where
  "read_only s s' \<longleftrightarrow> fs_ok s' \<and> meta s' = meta s \<and> (\<forall>c<nblocks s. blk s' c = blk s c)"

lemma read_only_refl: "fs_ok s \<Longrightarrow> read_only s s"
  by (simp add: read_only_def)

lemma read_only_trans: "read_only s s1 \<Longrightarrow> read_only s1 s2 \<Longrightarrow> read_only s s2"
  by (auto simp: read_only_def meta_def)

lemma read_only_upd: "fs_ok s \<Longrightarrow> upd_blk s s' (blk s) \<Longrightarrow> read_only s s'"
  using upd_blk_fs(1) by (auto simp: read_only_def upd_blk_def)

lemma read_only_facts:
  assumes "read_only s s'" "ino_ok s d"
  shows "ino_ok s' d" "bmap s' d = bmap s d" "i < di_blocks d \<Longrightarrow> dirent s' d i = dirent s d i" "used s' = used s" "fs_ok s'"
proof -
  have b: "blk s' c = blk s c" if "c < nblocks s" for c using assms(1) that by (simp add: read_only_def)
  have f: "free s' = free s" "nblocks s' = nblocks s" using assms(1) by (auto simp: read_only_def meta_def free_def)
  show us: "used s' = used s" using f by (simp add: used_def)
  show bm: "bmap s' d = bmap s d" by (rule bmap_cong) (use assms(2) b in \<open>auto simp: ino_ok_def used_def\<close>)
  show "ino_ok s' d" using assms(2) by (simp add: ino_ok_def bm us)
  show "dirent s' d i = dirent s d i" if "i < di_blocks d"
  proof -
    have "bmap s d i < nblocks s" using bmap_used [OF assms(2) that] by (simp add: used_def)
    then show ?thesis by (simp add: dirent_def bm b)
  qed
  show "fs_ok s'" using assms(1) by (simp add: read_only_def)
qed

lemma load_existing_ro:
  assumes ok: "fs_ok s" "ino_ok s (din sin)" and i: "i < di_blocks (din sin)"
  shows "\<exists>s'. sfs_bmap_load_nolock s sin i = Some (0, s', sin, bmap s (din sin) i) \<and> read_only s s'"
  using load_existing_upd [OF ok i] read_only_upd [OF ok(1)] by blast

lemma dirent_read_spec:
  assumes ok: "fs_ok s" "ino_ok s (din sin)" and d: "di_type (din sin) = SFS_TYPE_DIR" and i: "i < di_blocks (din sin)"
  shows "\<exists>s'. sfs_dirent_read_nolock s sin i = Some (0, s', sin, dirent s (din sin) i) \<and> read_only s s'"
proof -
  let ?b = "bmap s (din sin) i"
  obtain s1 where s1: "sfs_bmap_load_nolock s sin i = Some (0, s1, sin, ?b)" "read_only s s1"
    using load_existing_ro [OF ok i] by blast
  note f = read_only_facts [OF s1(2) ok(2)]
  have bu: "?b \<in> used s1" using bmap_used [OF ok(2) i] f(4) by simp
  obtain s2 where s2: "sfs_rbuf s1 (replicate 260 0) 0 260 ?b 0 = Some (0, s2, blit (replicate 260 0) 0 (seg 0 260 (blk s1 ?b)))" "upd_blk s1 s2 (blk s1)"
    using sfs_rbuf_spec [of s1 ?b 0 260 0 "replicate 260 0"] fs_ok_vol [OF f(5)] bu by (auto simp: used_def)
  have l: "length (blk s1 ?b) = 4096" using length_blk [OF fs_ok_vol [OF f(5)]] bu by (simp add: used_def)
  have "blk s1 ?b = blk s ?b" using s1(2) bmap_used [OF ok(2) i] by (simp add: read_only_def used_def)
  then have b: "blit (replicate 260 0) 0 (seg 0 260 (blk s1 ?b)) = seg 0 260 (blk s ?b)" using l by (simp add: blit_all)
  have "sfs_block_inuse s1 ?b = Some True" using sfs_block_inuse_iff [OF f(5), of ?b] bu by (simp add: used_def)
  then have "sfs_dirent_read_nolock s sin i = Some (0, s2, sin, dirent s (din sin) i)"
    using s1(1) s2(1) d i unfolding b by (simp add: sfs_dirent_read_nolock_def kassert_def dirent_def Let_def)
  then show ?thesis using read_only_trans [OF s1(2) read_only_upd [OF f(5) s2(2)]] by blast
qed

lemma find_upt_least: "List.find P [0..<n] = (if \<exists>j<n. P j then Some (LEAST j. P j) else None)"
proof (cases "\<exists>j<n. P j")
  case True
  then obtain j where j: "j < n" "P j" by blast
  define l where "l = (LEAST j. P j)"
  have l: "P l" "l < n" using LeastI [of P, OF j(2)] Least_le [of P, OF j(2)] j(1) by (simp_all add: l_def)
  have m: "\<forall>k<l. \<not> P k" unfolding l_def using not_less_Least by blast
  have "List.find P [0..<n] = Some l" unfolding find_Some_iff by (rule exI [of _ l]) (use l m in simp)
  then show ?thesis using True by (simp add: l_def)
qed (auto simp: find_None_iff)

lemma search_slots_spec:
  assumes "fs_ok s" "ino_ok s (din sin)" "di_type (din sin) = SFS_TYPE_DIR" "i + n = di_blocks (din sin)"
  shows "\<exists>s' emp'. search_slots name i n emp s sin =
      (case List.find (dir_hit s (din sin) name) [i..<i + n] of
         Some j \<Rightarrow> Some (0, s', sin, Some (j, e_ino (dirent s (din sin) j)), emp')
       | None \<Rightarrow> Some (- E_NOENT, s', sin, None, emp')) \<and> read_only s s'"
  using assms
proof (induction n arbitrary: i emp s)
  case 0
  then show ?case using read_only_refl by auto
next
  case (Suc n)
  have i: "i < di_blocks (din sin)" using Suc.prems(4) by simp
  obtain s1 where s1: "sfs_dirent_read_nolock s sin i = Some (0, s1, sin, dirent s (din sin) i)" "read_only s s1"
    using dirent_read_spec [OF Suc.prems(1,2,3) i] by blast
  note f = read_only_facts [OF s1(2) Suc.prems(2)]
  have up: "[i..<i + Suc n] = i # [Suc i..<Suc i + n]" by (simp add: upt_rec)
  have hit: "List.find (dir_hit s1 (din sin) name) [Suc i..<Suc i + n] = List.find (dir_hit s (din sin) name) [Suc i..<Suc i + n]"
    by (rule find_cong) (use f(3) Suc.prems(4) in \<open>auto simp: dir_hit_def\<close>)
  have en: "e_ino (dirent s1 (din sin) j) = e_ino (dirent s (din sin) j)" if "List.find (dir_hit s (din sin) name) [Suc i..<Suc i + n] = Some j" for j
    using find_SomeD [OF that] f(3) [of j] Suc.prems(4) by auto
  show ?case
  proof (cases "dir_hit s (din sin) name i")
    case True
    then show ?thesis using s1 unfolding up by (auto simp: dir_hit_def)
  next
    case False
    define emp1 where "emp1 = (if e_ino (dirent s (din sin) i) = 0 then i else emp)"
    obtain s' emp' where r: "search_slots name (Suc i) n emp1 s1 sin =
        (case List.find (dir_hit s1 (din sin) name) [Suc i..<Suc i + n] of
           Some j \<Rightarrow> Some (0, s', sin, Some (j, e_ino (dirent s1 (din sin) j)), emp')
         | None \<Rightarrow> Some (- E_NOENT, s', sin, None, emp'))" "read_only s1 s'"
      using Suc.IH [OF f(5,1) Suc.prems(3), of "Suc i" emp1] Suc.prems(4) by auto
    have "search_slots name i (Suc n) emp s sin = search_slots name (Suc i) n emp1 s1 sin"
      using s1(1) False by (auto simp: dir_hit_def emp1_def)
    then show ?thesis using r read_only_trans [OF s1(2) r(2)] False hit en unfolding up
      by (auto split: option.splits)
  qed
qed

text \<open>On a well-formed volume, looking a name up in a directory stores the least slot whose entry is in use and has that name,
  with its inode number, and returns 0; it returns \<open>-E_NOENT\<close> exactly when no slot has it, and changes no block.\<close>

theorem sfs_dirent_search_least:
  assumes "fs_ok s" "ino_ok s (din sin)" "di_type (din sin) = SFS_TYPE_DIR" "length name \<le> SFS_MAX_FNAME_LEN"
  shows "\<exists>s' emp. read_only s s' \<and> sfs_dirent_search_nolock True s sin name =
    (if \<exists>j<di_blocks (din sin). dir_hit s (din sin) name j
     then let j = LEAST j. dir_hit s (din sin) name j in Some (0, s', sin, Some (j, e_ino (dirent s (din sin) j)), emp)
     else Some (- E_NOENT, s', sin, None, emp))"
proof -
  let ?P = "dir_hit s (din sin) name" and ?n = "di_blocks (din sin)"
  obtain s' emp where r: "search_slots name 0 ?n ?n s sin =
      (case List.find ?P [0..<0 + ?n] of
         Some j \<Rightarrow> Some (0, s', sin, Some (j, e_ino (dirent s (din sin) j)), emp)
       | None \<Rightarrow> Some (- E_NOENT, s', sin, None, emp))" "read_only s s'"
    using search_slots_spec [OF assms(1-3), of 0 ?n name ?n] by auto
  have f: "List.find ?P [0..<?n] = (if \<exists>j<?n. ?P j then Some (LEAST j. ?P j) else None)"
    by (rule find_upt_least)
  show ?thesis
    using r assms(4) unfolding sfs_dirent_search_nolock_def kassert_def by (auto simp: f Let_def)
qed

text \<open>The directory of block 1 of the example volume, with one entry, \<open>a\<close>, in block 2.\<close>

definition example_dir_fs :: sfs_fs where
  "example_dir_fs = example_fs\<lparr>dev := example_disk\<lparr>img := blit (img example_disk) (4096 * 2) ([1, 0, 0, 0, 97] @ replicate 4091 0)\<rparr>\<rparr>"

definition example_dir :: sfs_inode where
  "example_dir = example_inode1\<lparr>din := (din example_inode1)\<lparr>di_type := SFS_TYPE_DIR\<rparr>\<rparr>"

lemma example_dir_fs_ok: "fs_ok example_dir_fs"
proof -
  have f: "free example_dir_fs = free example_fs" by (simp add: free_def example_dir_fs_def)
  have "disk_ok (dev example_dir_fs)" using example_disk_ok by (simp add: disk_ok_def example_dir_fs_def example_disk_def)
  then show ?thesis using example_fs_ok unfolding fs_ok_def f by (simp add: example_dir_fs_def vol_ok_def example_disk_def example_fs_def)
qed

lemma example_dir_ok: "ino_ok example_dir_fs (din example_dir)"
proof -
  have b: "bmap example_dir_fs (din example_dir) i = (if i = 0 then 2 else 0)" if "i < 1036" for i
    using that by (auto simp: bmap_def example_dir_def example_inode1_def example_inode_def nth_Cons split: nat.splits)
  have "2 \<in> used example_dir_fs" using example_free by (simp add: used_def free_def example_dir_fs_def example_fs_def)
  then show ?thesis using b by (auto simp: ino_ok_def example_dir_def example_inode1_def example_inode_def lessThan_Suc)
qed

lemma example_dirent: "dirent example_dir_fs (din example_dir) 0 = \<lparr>e_ino = 1, e_name = 97 # replicate 255 0\<rparr>"
proof -
  have "blk example_dir_fs 2 = [1, 0, 0, 0, 97] @ replicate 4091 0"
    using blk_write [OF example_disk_ok, of 2 2 "[1, 0, 0, 0, 97] @ replicate 4091 0"]
    by (simp add: blk_def example_dir_fs_def example_disk_def)
  moreover have "bmap example_dir_fs (din example_dir) 0 = 2"
    by (simp add: bmap_def example_dir_def example_inode1_def example_inode_def)
  moreover have "(97 # replicate 255 0)[255 := 0] = (97 # replicate 255 0 :: bytes)" by (simp add: list_update_same_conv)
  ultimately show ?thesis
    by (simp add: dirent_def bytes_entry_def seg_def Let_def SFS_MAX_FNAME_LEN_def)
qed

theorem sfs_dirent_search_least_witness:
  "\<exists>s' emp. sfs_dirent_search_nolock True example_dir_fs example_dir [97] = Some (0, s', example_dir, Some (0, 1), emp)"
proof -
  have h: "dir_hit example_dir_fs (din example_dir) [97] 0" by (simp add: dir_hit_def example_dirent cstr_def)
  then have "(LEAST j. dir_hit example_dir_fs (din example_dir) [97] j) = 0" by (intro Least_equality) auto
  moreover have "\<exists>j<di_blocks (din example_dir). dir_hit example_dir_fs (din example_dir) [97] j"
    using h by (intro exI [of _ 0]) (simp add: example_dir_def example_inode1_def)
  ultimately show ?thesis
    using sfs_dirent_search_least [OF example_dir_fs_ok example_dir_ok, of "[97]"] example_dirent
    by (auto simp: SFS_MAX_FNAME_LEN_def example_dir_def Let_def)
qed


section \<open>The inode cache is a partial function of the inode number\<close>

text \<open>Every inode of the volume's list is an SFS node, no two hold the same inode number, and each hash chain holds
  the nodes of the list that hash there, in the same order.\<close>

definition ino_of :: "vfs \<Rightarrow> nat \<Rightarrow> nat" where
  "ino_of v n = ino (the (get_sin n v))"

definition cache_ok :: "vfs \<Rightarrow> bool" where
  "cache_ok v \<longleftrightarrow> distinct (inode_list (sfs v)) \<and> (\<forall>n\<in>set (inode_list (sfs v)). get_sin n v \<noteq> None) \<and>
     inj_on (ino_of v) (set (inode_list (sfs v))) \<and>
     (\<forall>h. hash_list (sfs v) h = filter (\<lambda>n. sin_hashfn (ino_of v n) = h) (inode_list (sfs v)))"

lemma find_chain_spec:
  assumes "\<forall>n\<in>set ns. get_sin n v \<noteq> None"
  shows "find_chain i ns v = Some (List.find (\<lambda>n. ino_of v n = i) ns)"
  using assms by (induction ns) (auto simp: ino_of_def)

lemma find_filter: "List.find P (filter Q xs) = List.find (\<lambda>x. Q x \<and> P x) xs"
  by (induction xs) auto

lemma find_cached:
  assumes "cache_ok v"
  shows "find_chain i (hash_list (sfs v) (sin_hashfn i)) v = Some (List.find (\<lambda>n. ino_of v n = i) (inode_list (sfs v)))"
proof -
  have "find_chain i (hash_list (sfs v) (sin_hashfn i)) v = Some (List.find (\<lambda>n. ino_of v n = i) (hash_list (sfs v) (sin_hashfn i)))"
    by (rule find_chain_spec) (use assms in \<open>auto simp: cache_ok_def\<close>)
  moreover have "List.find (\<lambda>n. ino_of v n = i) (hash_list (sfs v) (sin_hashfn i)) = List.find (\<lambda>n. ino_of v n = i) (inode_list (sfs v))"
    using assms by (auto simp: cache_ok_def find_filter intro: find_cong)
  ultimately show ?thesis by simp
qed

text \<open>The cache only depends on its lists and on the inode numbers of the nodes.\<close>

lemma cache_ok_cong:
  assumes "cache_ok v" "inode_list (sfs v') = inode_list (sfs v)" "hash_list (sfs v') = hash_list (sfs v)"
    and g: "\<And>n. n \<in> set (inode_list (sfs v)) \<Longrightarrow> get_sin n v' \<noteq> None \<and> ino_of v' n = ino_of v n"
  shows "cache_ok v'"
proof -
  have "filter (\<lambda>n. sin_hashfn (ino_of v' n) = h) (inode_list (sfs v)) = filter (\<lambda>n. sin_hashfn (ino_of v n) = h) (inode_list (sfs v))" for h
    by (rule filter_cong) (use g in auto)
  moreover have "inj_on (ino_of v') (set (inode_list (sfs v)))"
    using assms(1) g by (auto simp: cache_ok_def inj_on_def)
  ultimately show ?thesis using assms by (simp add: cache_ok_def)
qed

lemma cache_ok_sfs: "cache_ok v \<Longrightarrow> geo s = geo (sfs v) \<Longrightarrow> cache_ok (v\<lparr>sfs := s\<rparr>)"
  by (simp add: cache_ok_def geo_def get_sin_def ino_of_def [abs_def])

text \<open>Adding and removing a node.\<close>

lemma cache_ok_set_links:
  assumes c: "cache_ok v" and n: "n \<notin> set (inode_list (sfs v))" "get_sin n v = Some sin"
    and i: "\<forall>m\<in>set (inode_list (sfs v)). ino_of v m \<noteq> ino sin"
  shows "cache_ok (v\<lparr>sfs := sfs_set_links n (ino sin) (sfs v)\<rparr>)"
proof -
  let ?v = "v\<lparr>sfs := sfs_set_links n (ino sin) (sfs v)\<rparr>"
  have g: "get_sin m ?v = get_sin m v" "ino_of ?v m = ino_of v m" for m by (simp_all add: get_sin_def ino_of_def)
  have "ino_of v n = ino sin" using n by (simp add: ino_of_def)
  then show ?thesis using c n i unfolding cache_ok_def g by (auto simp: sfs_set_links_def)
qed

lemma cache_ok_remove_links:
  assumes c: "cache_ok v" and L: "inode_list (sfs v') = remove1 n (inode_list (sfs v))"
    and H: "hash_list (sfs v') = (hash_list (sfs v))(sin_hashfn (ino_of v n) := remove1 n (hash_list (sfs v) (sin_hashfn (ino_of v n))))"
    and g: "\<And>m. m \<noteq> n \<Longrightarrow> get_sin m v' = get_sin m v"
  shows "cache_ok v'"
proof -
  have d: "distinct (inode_list (sfs v))" using c by (simp add: cache_ok_def)
  have g': "ino_of v' m = ino_of v m" if "m \<noteq> n" for m using g [OF that] by (simp add: ino_of_def)
  have s: "set (inode_list (sfs v')) = set (inode_list (sfs v)) - {n}" using d L by simp
  have r: "remove1 n (filter P (inode_list (sfs v))) = filter P (inode_list (sfs v'))" for P
    unfolding L by (rule filter_remove1 [symmetric])
  have r': "filter (\<lambda>m. sin_hashfn (ino_of v m) = h) (inode_list (sfs v)) = filter (\<lambda>m. sin_hashfn (ino_of v m) = h) (inode_list (sfs v'))"
    if "sin_hashfn (ino_of v n) \<noteq> h" for h
    using that r [of "\<lambda>m. sin_hashfn (ino_of v m) = h"] by (simp add: remove1_idem)
  have f: "filter (\<lambda>m. sin_hashfn (ino_of v' m) = h) (inode_list (sfs v')) = filter (\<lambda>m. sin_hashfn (ino_of v m) = h) (inode_list (sfs v'))" for h
    by (rule filter_cong) (use g' s in auto)
  have "hash_list (sfs v') h = filter (\<lambda>m. sin_hashfn (ino_of v' m) = h) (inode_list (sfs v'))" for h
    using c r r' [of h] unfolding f H cache_ok_def by simp
  moreover have "inj_on (ino_of v') (set (inode_list (sfs v)) - {n})"
    using c g' by (auto simp: cache_ok_def inj_on_def)
  ultimately show ?thesis using c d g s L unfolding cache_ok_def by simp
qed


lemma get_sin_set_node [simp]: "get_sin m (set_node n i v) = (if m = n then vop_info i else get_sin m v)"
  by (simp add: get_sin_def set_node_def)

lemma ino_of_set_node [simp]: "ino_of (set_node n i v) m = (if m = n then ino (the (vop_info i)) else ino_of v m)"
  by (simp add: ino_of_def)

lemma sfs_set_node [simp]: "sfs (set_node n i v) = sfs v"
  by (simp add: set_node_def)

lemma nodes_set_node [simp]: "nodes (set_node n i v) = (nodes v)(n := Some i)"
  by (simp add: set_node_def)

lemma get_sin_sfs [simp]: "get_sin m (v\<lparr>sfs := s\<rparr>) = get_sin m v" "ino_of (v\<lparr>sfs := s\<rparr>) m = ino_of v m"
  by (simp_all add: get_sin_def ino_of_def)

lemma find_unique:
  assumes "cache_ok v" "n \<in> set (inode_list (sfs v))"
  shows "List.find (\<lambda>m. ino_of v m = ino_of v n) (inode_list (sfs v)) = Some n"
proof (cases "List.find (\<lambda>m. ino_of v m = ino_of v n) (inode_list (sfs v))")
  case None
  then show ?thesis using assms(2) by (auto simp: find_None_iff)
next
  case (Some m)
  from find_SomeD [OF Some] show ?thesis using assms Some by (auto simp: cache_ok_def inj_on_def)
qed

text \<open>A node that is cached is handed out again, with one more reference.\<close>

definition take_ref :: "inode \<Rightarrow> inode" where
  "take_ref i = i\<lparr>ref_count := ref_count i + 1, in_info := (case in_info i of
     Sfs sin \<Rightarrow> Sfs (if ref_count i + 1 = 1 then sin\<lparr>reclaim_count := reclaim_count sin + 1\<rparr> else sin) | Device dv \<Rightarrow> Device dv)\<rparr>"

lemma load_cached:
  assumes c: "cache_ok v" and n: "n \<in> set (inode_list (sfs v))" and i: "nodes v n = Some i"
  shows "sfs_load_inode ok1 ok2 addr (ino_of v n) v = Some (0, set_node n (take_ref i) v, n)"
    and "cache_ok (set_node n (take_ref i) v)"
proof -
  obtain sin where g: "get_sin n v = Some sin" using c n by (auto simp: cache_ok_def)
  then have k: "in_info i = Sfs sin" using i by (auto simp: get_sin_def vop_info_def split: in_info.splits)
  obtain r oc where e: "i = \<lparr>in_info = Sfs sin, ref_count = r, open_count = oc\<rparr>" using k by (cases i) simp
  show "sfs_load_inode ok1 ok2 addr (ino_of v n) v = Some (0, set_node n (take_ref i) v, n)"
    using i unfolding e by (cases "r = 0") (simp_all add: sfs_load_inode_def lookup_sfs_nolock_def find_cached [OF c] find_unique [OF c n]
      inode_ref_inc_def put_sin_def take_ref_def set_node_def get_sin_def vop_info_def)
  show "cache_ok (set_node n (take_ref i) v)"
    by (rule cache_ok_cong [OF c]) (use c n g k in \<open>auto simp: cache_ok_def take_ref_def vop_info_def ino_of_def\<close>)
qed

text \<open>A node that is not cached is read from its block.\<close>

definition new_node :: "vfs \<Rightarrow> nat \<Rightarrow> inode" where
  "new_node v i = inode_init (Sfs \<lparr>din = bytes_din (seg 0 64 (blk (sfs v) i)), ino = i, dirty = False, reclaim_count = 1\<rparr>)"

lemma read_only_links:
  "read_only s s' \<Longrightarrow> inode_list s' = inode_list s \<and> hash_list s' = hash_list s \<and> super s' = super s \<and> freemap s' = freemap s"
  by (simp add: read_only_def meta_def)

lemma fs_ok_set_links: "fs_ok s \<Longrightarrow> fs_ok (sfs_set_links n i s)"
  by (simp add: fs_ok_def vol_ok_def sfs_set_links_def free_def)

lemma load_new_inode:
  assumes c: "cache_ok v" and ok: "fs_ok (sfs v)" and iu: "i \<in> used (sfs v)" and new: "\<forall>n\<in>set (inode_list (sfs v)). ino_of v n \<noteq> i"
    and addr: "nodes v addr = None" and d: "d = bytes_din (seg 0 64 (blk (sfs v) i))" "nlinks d \<noteq> 0" "di_type d \<in> {SFS_TYPE_FILE, SFS_TYPE_DIR}"
  shows "\<exists>s. read_only (sfs v) s \<and> sfs_load_inode True True addr i v = Some (0, (set_node addr (new_node v i) v)\<lparr>sfs := sfs_set_links addr i s\<rparr>, addr)"
    and "read_only (sfs v) s' \<Longrightarrow> cache_ok ((set_node addr (new_node v i) v)\<lparr>sfs := sfs_set_links addr i s'\<rparr>)"
proof -
  obtain s where s: "sfs_rbuf (sfs v) (replicate 64 0) 0 64 i 0 = Some (0, s, blit (replicate 64 0) 0 (seg 0 64 (blk (sfs v) i)))" "upd_blk (sfs v) s (blk (sfs v))"
    using sfs_rbuf_spec [of "sfs v" i 0 64 0 "replicate 64 0"] fs_ok_vol [OF ok] iu by (auto simp: used_def)
  have "length (blk (sfs v) i) = 4096" using length_blk [OF fs_ok_vol [OF ok]] iu by (simp add: used_def)
  then have b: "blit (replicate 64 0) 0 (seg 0 64 (blk (sfs v) i)) = seg 0 64 (blk (sfs v) i)" by (simp add: blit_all)
  have "sfs_block_inuse (sfs v) i = Some True" using sfs_block_inuse_iff [OF ok, of i] iu by (simp add: used_def)
  moreover have "List.find (\<lambda>n. ino_of v n = i) (inode_list (sfs v)) = None" using new by (simp add: find_None_iff)
  ultimately have "sfs_load_inode True True addr i v = Some (0, (set_node addr (new_node v i) v)\<lparr>sfs := sfs_set_links addr i s\<rparr>, addr)"
    using d s(1) by (auto simp: sfs_load_inode_def lookup_sfs_nolock_def find_cached [OF c] kassert_def b sfs_create_inode_def sfs_get_ops_def new_node_def set_node_def)
  then show "\<exists>s. read_only (sfs v) s \<and> sfs_load_inode True True addr i v = Some (0, (set_node addr (new_node v i) v)\<lparr>sfs := sfs_set_links addr i s\<rparr>, addr)"
    using read_only_upd [OF ok s(2)] by blast
  have na: "addr \<notin> set (inode_list (sfs v))" using c addr by (auto simp: cache_ok_def get_sin_def)
  assume ro: "read_only (sfs v) s'"
  let ?w = "(set_node addr (new_node v i) v)\<lparr>sfs := s'\<rparr>" and ?n = "\<lparr>din = d, ino = i, dirty = False, reclaim_count = 1\<rparr> :: sfs_inode"
  note l = read_only_links [OF ro]
  have cw: "cache_ok ?w" by (rule cache_ok_cong [OF c]) (use l na c in \<open>auto simp: cache_ok_def\<close>)
  have "cache_ok (?w\<lparr>sfs := sfs_set_links addr (ino ?n) (sfs ?w)\<rparr>)"
    by (rule cache_ok_set_links [OF cw]) (use l na new d in \<open>auto simp: new_node_def inode_init_def vop_info_def\<close>)
  then show "cache_ok ((set_node addr (new_node v i) v)\<lparr>sfs := sfs_set_links addr i s'\<rparr>)" by simp
qed


text \<open>C28. Loading an inode gives the one node of the cache with that inode number: the node that was cached, or a node read
  from the inode's block. It takes exactly one reference, leaves every other node alone, and the cache stays well-formed
  (no inode number is cached twice, every hash chain holds exactly its nodes).\<close>

theorem sfs_load_inode_unique:
  assumes c: "cache_ok v" and ok: "fs_ok (sfs v)" "i \<in> used (sfs v)" and addr: "nodes v addr = None"
    and d: "nlinks (bytes_din (seg 0 64 (blk (sfs v) i))) \<noteq> 0" "di_type (bytes_din (seg 0 64 (blk (sfs v) i))) \<in> {SFS_TYPE_FILE, SFS_TYPE_DIR}"
  shows "\<exists>v' n. sfs_load_inode True True addr i v = Some (0, v', n) \<and> cache_ok v' \<and> fs_ok (sfs v') \<and>
    {m \<in> set (inode_list (sfs v')). ino_of v' m = i} = {n} \<and>
    map_option ref_count (nodes v' n) = Some ((case nodes v n of Some x \<Rightarrow> ref_count x | None \<Rightarrow> 0) + 1) \<and>
    (\<forall>m. m \<noteq> n \<longrightarrow> nodes v' m = nodes v m)"
proof (cases "\<exists>n\<in>set (inode_list (sfs v)). ino_of v n = i")
  case True
  then obtain n where n: "n \<in> set (inode_list (sfs v))" "ino_of v n = i" by blast
  have g: "get_sin n v \<noteq> None" using c n by (simp add: cache_ok_def)
  then obtain x where x: "nodes v n = Some x" by (cases "nodes v n") (auto simp: get_sin_def)
  let ?v = "set_node n (take_ref x) v"
  note l = load_cached [OF c n(1) x]
  have j: "ino_of ?v m = ino_of v m" for m
    using g x by (auto simp: ino_of_def get_sin_def vop_info_def take_ref_def split: in_info.splits)
  have "{m \<in> set (inode_list (sfs v)). ino_of ?v m = i} = {n}"
    unfolding j using c n by (auto simp: cache_ok_def inj_on_def)
  then show ?thesis using l ok(1) n(2) x
    by (intro exI [of _ ?v] exI [of _ n]) (simp add: take_ref_def)
next
  case False
  then have new: "\<forall>n\<in>set (inode_list (sfs v)). ino_of v n \<noteq> i" by blast
  note l = load_new_inode [OF c ok new addr refl d]
  obtain s where s: "read_only (sfs v) s"
      "sfs_load_inode True True addr i v = Some (0, (set_node addr (new_node v i) v)\<lparr>sfs := sfs_set_links addr i s\<rparr>, addr)"
    using l(1) by blast
  have na: "addr \<notin> set (inode_list (sfs v))" using c addr by (auto simp: cache_ok_def get_sin_def)
  have "fs_ok (sfs_set_links addr i s)" using s(1) by (simp add: fs_ok_set_links read_only_def)
  moreover have "{m \<in> set (inode_list (sfs_set_links addr i s)). ino_of (set_node addr (new_node v i) v) m = i} = {addr}"
    using new na read_only_links [OF s(1)]
    by (auto simp: sfs_set_links_def new_node_def inode_init_def vop_info_def)
  ultimately show ?thesis using s l(2) [OF s(1)] addr
    by (intro exI [of _ "(set_node addr (new_node v i) v)\<lparr>sfs := sfs_set_links addr i s\<rparr>"] exI [of _ addr])
      (simp add: new_node_def inode_init_def)
qed

text \<open>The example: inode 1 of a volume whose block 1 holds the example directory.\<close>

definition example_vfs :: vfs where
  "example_vfs = \<lparr>sfs = example_fs\<lparr>dev := example_disk\<lparr>img := blit (img example_disk) (4096 * 1) (din_bytes (din example_dir) @ replicate 4032 0)\<rparr>\<rparr>,
     nodes = Map.empty\<rparr>"

lemma example_vfs_ok: "cache_ok example_vfs" "fs_ok (sfs example_vfs)" "1 \<in> used (sfs example_vfs)" "nodes example_vfs 0 = None"
  "bytes_din (seg 0 64 (blk (sfs example_vfs) 1)) = din example_dir"
proof -
  have w: "din_wf (din example_dir)"
    by (simp add: din_wf_def example_dir_def example_inode1_def example_inode_def SFS_TYPE_DIR_def)
  have l: "length (din_bytes (din example_dir)) = 64" using length_din_bytes w by (simp add: din_wf_def)
  have f: "free (sfs example_vfs) = free example_fs" by (simp add: free_def example_vfs_def)
  have "disk_ok (dev (sfs example_vfs))" using example_disk_ok l by (simp add: disk_ok_def example_vfs_def example_disk_def)
  then show "fs_ok (sfs example_vfs)"
    using example_fs_ok unfolding fs_ok_def f by (simp add: example_vfs_def vol_ok_def example_disk_def example_fs_def)
  show "1 \<in> used (sfs example_vfs)" unfolding used_def f example_free by (simp add: example_vfs_def example_fs_def)
  show "cache_ok example_vfs" "nodes example_vfs 0 = None" by (simp_all add: cache_ok_def example_vfs_def example_fs_def)
  have "blk (sfs example_vfs) 1 = din_bytes (din example_dir) @ replicate 4032 0"
    using blk_write [OF example_disk_ok, of 1 1 "din_bytes (din example_dir) @ replicate 4032 0"] l
    by (simp add: blk_def example_vfs_def example_disk_def)
  then have "seg 0 64 (blk (sfs example_vfs) 1) = din_bytes (din example_dir) @ []" using l by (simp add: seg_def)
  then show "bytes_din (seg 0 64 (blk (sfs example_vfs) 1)) = din example_dir" using bytes_din_bytes [OF w] by metis
qed

theorem sfs_load_inode_unique_witness:
  "\<exists>v' n. sfs_load_inode True True 0 1 example_vfs = Some (0, v', n) \<and> cache_ok v'"
  using sfs_load_inode_unique [OF example_vfs_ok(1-4)] unfolding example_vfs_ok(5)
  by (auto simp: example_dir_def example_inode1_def example_inode_def)

text \<open>Loading an inode that is not cached and dropping the reference again reclaims the node: the nodes, the cache and the
  blocks are as before.\<close>

theorem sfs_load_then_drop:
  assumes c: "cache_ok v" and ok: "fs_ok (sfs v)" "i \<in> used (sfs v)" and addr: "nodes v addr = None"
    and d: "nlinks (bytes_din (seg 0 64 (blk (sfs v) i))) \<noteq> 0" "di_type (bytes_din (seg 0 64 (blk (sfs v) i))) \<in> {SFS_TYPE_FILE, SFS_TYPE_DIR}"
    and new: "\<forall>n\<in>set (inode_list (sfs v)). ino_of v n \<noteq> i"
  shows "\<exists>v' v''. sfs_load_inode True True addr i v = Some (0, v', addr) \<and> inode_ref_dec addr v' = Some (0, v'') \<and>
    nodes v'' = nodes v \<and> cache_ok v'' \<and> read_only (sfs v) (sfs v'')"
proof -
  obtain s where s: "read_only (sfs v) s"
      "sfs_load_inode True True addr i v = Some (0, (set_node addr (new_node v i) v)\<lparr>sfs := sfs_set_links addr i s\<rparr>, addr)"
    using load_new_inode(1) [OF c ok new addr refl d] by blast
  have r: "sfs_remove_links addr i (sfs_set_links addr i s) = s" by (simp add: sfs_remove_links_def sfs_set_links_def)
  have a: "(nodes v)(addr := None) = nodes v" using addr by auto
  have "inode_ref_dec addr ((set_node addr (new_node v i) v)\<lparr>sfs := sfs_set_links addr i s\<rparr>) = Some (0, v\<lparr>sfs := s\<rparr>)"
    using d(1) by (simp add: inode_ref_dec_def kassert_def new_node_def inode_init_def inode_check_def MAX_INODE_COUNT_def
      vop_info_def sfs_reclaim_def put_sin_def get_sin_def set_node_def free_inode_blocks_def r inode_kill_def a)
  moreover have "cache_ok (v\<lparr>sfs := s\<rparr>)"
    by (rule cache_ok_sfs [OF c]) (use read_only_links [OF s(1)] in \<open>simp add: geo_def\<close>)
  ultimately show ?thesis using s
    by (intro exI [of _ "(set_node addr (new_node v i) v)\<lparr>sfs := sfs_set_links addr i s\<rparr>"] exI [of _ "v\<lparr>sfs := s\<rparr>"]) simp
qed

theorem sfs_load_then_drop_witness:
  "\<exists>v' v''. sfs_load_inode True True 0 1 example_vfs = Some (0, v', 0) \<and> inode_ref_dec 0 v' = Some (0, v'') \<and> nodes v'' = Map.empty"
  using sfs_load_then_drop [OF example_vfs_ok(1-4)] unfolding example_vfs_ok(5)
  by (auto simp: example_dir_def example_inode1_def example_inode_def example_vfs_def example_fs_def)

end
