(* ===== verification/Vfs.thy ===== *)
theory Vfs
  imports Sfs_Dir
begin

text \<open>
  The virtual file system: calls through the operation tables of inodes (lab8/kern/fs/vfs/inode.h, the tables of
  lab8/kern/fs/sfs/sfs_inode.c and lab8/kern/fs/devs/dev.c), the table of devices (vfsdev.c), the boot file system
  (vfs.c), the working directory (vfspath.c), path lookup (vfslookup.c) and opening a file (vfsfile.c).

  A call of an operation that the table of a node does not have is an assertion failure and \<open>None\<close>, as is a node
  for which \<open>inode_check\<close> fails. The input and output function of a device, \<open>d_io\<close>, is a
  function pointer in the code and an argument here. \<open>al\<close> arguments give the outcome of the allocations
  behind a node that has to be loaded. A path is its bytes up to the terminating zero; \<open>get_device\<close> overwrites
  the colon of its path, so it also returns the path as it leaves it.
\<close>


section \<open>State\<close>

record vfs_dev_t =
  devname :: bytes
  devnode :: "nat option"
  dev_fs :: bool
  mountable :: bool

text \<open>There is one SFS volume, so \<open>dev_fs\<close> only says whether it is mounted on the device.\<close>

record fsys =
  vf :: vfs
  vdev_list :: "vfs_dev_t list"
  bootfs_node :: "nat option"

type_synonym inode_alloc = "bool \<times> bool \<times> nat"
type_synonym device_io = "device \<Rightarrow> iobuf \<Rightarrow> bool \<Rightarrow> vfs \<Rightarrow> (int \<times> iobuf \<times> vfs) option"

section \<open>Operation tables\<close>

definition vop_op :: "nat \<Rightarrow> vfs \<Rightarrow> in_info option" where
  "vop_op n v = do { i \<leftarrow> nodes v n; inode_check i; Some (in_info i) }"

text \<open>Devices: \<open>stdin\<close> and \<open>stdout\<close> have no blocks, \<open>disk0\<close> has those of the disk.\<close>

definition dev_blocks :: "device \<Rightarrow> vfs \<Rightarrow> nat" where
  "dev_blocks dv v = (case dv of Disk0 \<Rightarrow> d_blocks (dev (sfs v)) | _ \<Rightarrow> 0)"

definition dev_blocksize :: "device \<Rightarrow> vfs \<Rightarrow> nat" where
  "dev_blocksize dv v = (case dv of Disk0 \<Rightarrow> d_blocksize (dev (sfs v)) | _ \<Rightarrow> 1)"

definition stdin_open :: "32 word \<Rightarrow> int" where
  "stdin_open flags = (if flags \<noteq> O_RDONLY then - E_INVAL else 0)"

definition stdout_open :: "32 word \<Rightarrow> int" where
  "stdout_open flags = (if flags \<noteq> O_WRONLY then - E_INVAL else 0)"

definition disk0_open :: "32 word \<Rightarrow> int" where
  "disk0_open flags = 0"

definition dop_open :: "device \<Rightarrow> 32 word \<Rightarrow> int" where
  "dop_open dv flags = (case dv of Stdin \<Rightarrow> stdin_open flags | Stdout \<Rightarrow> stdout_open flags | Disk0 \<Rightarrow> disk0_open flags)"

definition dev_open :: "device \<Rightarrow> 32 word \<Rightarrow> int" where
  "dev_open dv flags =
     (if flags AND (O_CREAT OR O_TRUNC OR O_EXCL OR O_APPEND) \<noteq> 0 then - E_INVAL else dop_open dv flags)"

definition dev_gettype :: "device \<Rightarrow> vfs \<Rightarrow> nat" where
  "dev_gettype dv v = (if dev_blocks dv v > 0 then S_IFBLK else S_IFCHR)"

definition dev_fstat :: "device \<Rightarrow> vfs \<Rightarrow> stat" where
  "dev_fstat dv v = \<lparr>st_mode = dev_gettype dv v, st_nlinks = 1, st_blocks = dev_blocks dv v,
     st_size = u64 (dev_blocks dv v * dev_blocksize dv v)\<rparr>"

definition dev_tryseek :: "device \<Rightarrow> int \<Rightarrow> vfs \<Rightarrow> int" where
  "dev_tryseek dv pos v =
     (if dev_blocks dv v > 0 \<and> nat (pos mod 2 ^ 64) mod dev_blocksize dv v = 0 \<and>
         pos \<ge> 0 \<and> nat pos < u64 (dev_blocks dv v * dev_blocksize dv v)
      then 0 else - E_INVAL)"

definition dev_lookup :: "nat \<Rightarrow> bytes \<Rightarrow> vfs \<Rightarrow> (int \<times> vfs \<times> nat) option" where
  "dev_lookup n path v =
     (if path \<noteq> [] then Some (- E_NOENT, v, 0)
      else do { (_, v) \<leftarrow> inode_ref_inc n v; Some (0, v, n) })"

definition sfs_openfile :: "32 word \<Rightarrow> int" where
  "sfs_openfile flags = 0"

definition vop_open :: "nat \<Rightarrow> 32 word \<Rightarrow> vfs \<Rightarrow> int option" where
  "vop_open n flags v = do {
     nfo \<leftarrow> vop_op n v;
     Some (case nfo of
       Device dv \<Rightarrow> dev_open dv flags
     | Sfs sin \<Rightarrow> if di_type (din sin) = SFS_TYPE_DIR then sfs_opendir flags else sfs_openfile flags) }"

definition vop_gettype :: "nat \<Rightarrow> vfs \<Rightarrow> nat option" where
  "vop_gettype n v = do {
     nfo \<leftarrow> vop_op n v;
     case nfo of Device dv \<Rightarrow> Some (dev_gettype dv v) | Sfs sin \<Rightarrow> sfs_gettype sin }"

definition vop_fstat :: "nat \<Rightarrow> vfs \<Rightarrow> stat option" where
  "vop_fstat n v = do {
     nfo \<leftarrow> vop_op n v;
     case nfo of Device dv \<Rightarrow> Some (dev_fstat dv v) | Sfs sin \<Rightarrow> sfs_fstat sin }"

definition vop_tryseek :: "nat \<Rightarrow> int \<Rightarrow> vfs \<Rightarrow> (int \<times> vfs) option" where
  "vop_tryseek n pos v = do {
     nfo \<leftarrow> vop_op n v;
     case nfo of
       Device dv \<Rightarrow> Some (dev_tryseek dv pos v, v)
     | Sfs sin \<Rightarrow> do {
         kassert (di_type (din sin) \<noteq> SFS_TYPE_DIR);
         (ret, s, sin) \<leftarrow> sfs_tryseek (sfs v) sin pos;
         v \<leftarrow> put_sin n sin (v\<lparr>sfs := s\<rparr>);
         Some (ret, v) } }"

text \<open>\<open>vop_read\<close> and \<open>vop_write\<close>: \<open>sfs_read\<close>, \<open>sfs_write\<close>, \<open>dev_read\<close> and \<open>dev_write\<close> only fix the direction.\<close>

definition vop_io :: "device_io \<Rightarrow> nat \<Rightarrow> iobuf \<Rightarrow> bool \<Rightarrow> vfs \<Rightarrow> (int \<times> iobuf \<times> vfs) option" where
  "vop_io dio n iob wr v = do {
     nfo \<leftarrow> vop_op n v;
     case nfo of
       Device dv \<Rightarrow> dio dv iob wr v
     | Sfs sin \<Rightarrow> do {
         kassert (di_type (din sin) \<noteq> SFS_TYPE_DIR);
         (ret, s, sin, iob) \<leftarrow> sfs_io (sfs v) sin iob wr;
         v \<leftarrow> put_sin n sin (v\<lparr>sfs := s\<rparr>);
         Some (ret, iob, v) } }"

definition vop_read :: "device_io \<Rightarrow> nat \<Rightarrow> iobuf \<Rightarrow> vfs \<Rightarrow> (int \<times> iobuf \<times> vfs) option" where
  "vop_read dio n iob v = vop_io dio n iob False v"

definition vop_write :: "device_io \<Rightarrow> nat \<Rightarrow> iobuf \<Rightarrow> vfs \<Rightarrow> (int \<times> iobuf \<times> vfs) option" where
  "vop_write dio n iob v = vop_io dio n iob True v"

definition vop_getdirentry :: "bool \<Rightarrow> nat \<Rightarrow> iobuf \<Rightarrow> vfs \<Rightarrow> (int \<times> iobuf \<times> vfs) option" where
  "vop_getdirentry ok n iob v = do {
     nfo \<leftarrow> vop_op n v;
     case nfo of
       Device _ \<Rightarrow> None
     | Sfs sin \<Rightarrow> do {
         kassert (di_type (din sin) = SFS_TYPE_DIR);
         (ret, s, sin, iob) \<leftarrow> sfs_getdirentry ok (sfs v) sin iob;
         v \<leftarrow> put_sin n sin (v\<lparr>sfs := s\<rparr>);
         Some (ret, iob, v) } }"

definition vop_lookup :: "bool \<Rightarrow> inode_alloc \<Rightarrow> nat \<Rightarrow> bytes \<Rightarrow> vfs \<Rightarrow> (int \<times> vfs \<times> nat) option" where
  "vop_lookup ok al n path v = do {
     nfo \<leftarrow> vop_op n v;
     case nfo of
       Device _ \<Rightarrow> dev_lookup n path v
     | Sfs sin \<Rightarrow> (case al of (ok1, ok2, addr) \<Rightarrow> do {
         kassert (di_type (din sin) = SFS_TYPE_DIR);
         sfs_lookup ok ok1 ok2 addr n path v }) }"


section \<open>The device table (vfsdev.c)\<close>

text \<open>\<open>sfs_get_root\<close>, the only \<open>fsop_get_root\<close>, panics when the root inode cannot be loaded.\<close>

definition sfs_get_root :: "inode_alloc \<Rightarrow> vfs \<Rightarrow> (nat \<times> vfs) option" where
  "sfs_get_root al v = (case al of (ok1, ok2, addr) \<Rightarrow> do {
     (ret, v, n) \<leftarrow> sfs_load_inode ok1 ok2 addr SFS_BLKN_ROOT v;
     kassert (ret = 0);
     Some (n, v) })"

fun get_root_loop :: "inode_alloc \<Rightarrow> bytes \<Rightarrow> vfs_dev_t list \<Rightarrow> vfs \<Rightarrow> (int \<times> vfs \<times> nat) option" where
  "get_root_loop al name [] v = Some (- E_NO_DEV, v, 0)"
| "get_root_loop al name (d # ds) v =
     (if name = devname d
      then if dev_fs d then do { (n, v) \<leftarrow> sfs_get_root al v; Some (0, v, n) }
           else if \<not> mountable d
           then do { n \<leftarrow> devnode d; (_, v) \<leftarrow> inode_ref_inc n v; Some (0, v, n) }
           else Some (- E_NA_DEV, v, 0)
      else get_root_loop al name ds v)"

definition vfs_get_root :: "inode_alloc \<Rightarrow> bytes \<Rightarrow> fsys \<Rightarrow> (int \<times> fsys \<times> nat) option" where
  "vfs_get_root al name f = do {
     (ret, v, n) \<leftarrow> get_root_loop al name (vdev_list f) (vf f);
     Some (ret, f\<lparr>vf := v\<rparr>, n) }"

definition vfs_get_devname :: "fsys \<Rightarrow> bytes option" where
  "vfs_get_devname f = map_option devname (List.find dev_fs (vdev_list f))"

definition check_devname_conflict :: "bytes \<Rightarrow> fsys \<Rightarrow> bool" where
  "check_devname_conflict name f = list_all (\<lambda>d. devname d \<noteq> name) (vdev_list f)"

definition FS_MAX_DNAME_LEN :: nat where "FS_MAX_DNAME_LEN = 31"

definition is_device :: "nat \<Rightarrow> fsys \<Rightarrow> bool" where
  "is_device n f = (case nodes (vf f) n of Some i \<Rightarrow> (case in_info i of Device _ \<Rightarrow> True | Sfs _ \<Rightarrow> False) | None \<Rightarrow> False)"

definition vfs_do_add :: "bool \<Rightarrow> bool \<Rightarrow> bytes \<Rightarrow> nat option \<Rightarrow> bool \<Rightarrow> bool \<Rightarrow> fsys \<Rightarrow> (int \<times> fsys) option" where
  "vfs_do_add ok1 ok2 name dn fs mnt f = do {
     kassert (case dn of None \<Rightarrow> \<not> mnt | Some n \<Rightarrow> is_device n f);
     if length name > FS_MAX_DNAME_LEN then Some (- E_TOO_BIG, f)
     else if \<not> ok1 \<or> \<not> ok2 then Some (- E_NO_MEM, f)
     else if \<not> check_devname_conflict name f then Some (- E_EXISTS, f)
     else Some (0, f\<lparr>vdev_list := \<lparr>devname = name, devnode = dn, dev_fs = fs, mountable = mnt\<rparr> # vdev_list f\<rparr>) }"

definition vfs_add_fs :: "bool \<Rightarrow> bool \<Rightarrow> bytes \<Rightarrow> bool \<Rightarrow> fsys \<Rightarrow> (int \<times> fsys) option" where
  "vfs_add_fs ok1 ok2 name fs f = vfs_do_add ok1 ok2 name None fs False f"

definition vfs_add_dev :: "bool \<Rightarrow> bool \<Rightarrow> bytes \<Rightarrow> nat \<Rightarrow> bool \<Rightarrow> fsys \<Rightarrow> (int \<times> fsys) option" where
  "vfs_add_dev ok1 ok2 name n mnt f = vfs_do_add ok1 ok2 name (Some n) False mnt f"

section \<open>Boot file system and working directory (vfs.c, vfspath.c)\<close>

definition change_bootfs :: "nat option \<Rightarrow> fsys \<Rightarrow> fsys option" where
  "change_bootfs n f =
     (let f' = f\<lparr>bootfs_node := n\<rparr> in
      case bootfs_node f of
        None \<Rightarrow> Some f'
      | Some old \<Rightarrow> do { (_, v) \<leftarrow> inode_ref_dec old (vf f'); Some (f'\<lparr>vf := v\<rparr>) })"

definition vfs_get_bootfs :: "fsys \<Rightarrow> (int \<times> fsys \<times> nat) option" where
  "vfs_get_bootfs f =
     (case bootfs_node f of
        None \<Rightarrow> Some (- E_NOENT, f, 0)
      | Some n \<Rightarrow> do { (_, v) \<leftarrow> inode_ref_inc n (vf f); Some (0, f\<lparr>vf := v\<rparr>, n) })"

text \<open>\<open>cwd\<close> is the field \<open>pwd\<close> of the current process's file table.\<close>

definition vfs_get_curdir :: "nat option \<Rightarrow> fsys \<Rightarrow> (int \<times> fsys \<times> nat) option" where
  "vfs_get_curdir cwd f =
     (case cwd of
        None \<Rightarrow> Some (- E_NOENT, f, 0)
      | Some n \<Rightarrow> do { (_, v) \<leftarrow> inode_ref_inc n (vf f); Some (0, f\<lparr>vf := v\<rparr>, n) })"

definition vfs_set_curdir :: "nat option \<Rightarrow> nat option \<Rightarrow> fsys \<Rightarrow> (int \<times> nat option \<times> fsys) option" where
  "vfs_set_curdir dir cwd f =
     (if cwd = dir then Some (0, cwd, f)
      else do {
        (ret, f) \<leftarrow> (case dir of
            None \<Rightarrow> Some (0, f)
          | Some n \<Rightarrow> do {
              typ \<leftarrow> vop_gettype n (vf f);
              if typ \<noteq> S_IFDIR then Some (- E_NOTDIR, f)
              else do { (_, v) \<leftarrow> inode_ref_inc n (vf f); Some (0, f\<lparr>vf := v\<rparr>) } });
        if ret \<noteq> 0 then Some (ret, cwd, f)
        else (case cwd of
            None \<Rightarrow> Some (0, dir, f)
          | Some old \<Rightarrow> do { (_, v) \<leftarrow> inode_ref_dec old (vf f); Some (0, dir, f\<lparr>vf := v\<rparr>) }) })"

section \<open>Path lookup (vfslookup.c)\<close>

text \<open>The positions of the first slash and colon that \<open>get_device\<close> looks for; it stops at the first of either.\<close>

fun scan_path :: "bytes \<Rightarrow> nat \<Rightarrow> nat option \<times> nat option" where
  "scan_path [] i = (None, None)"
| "scan_path (c # cs) i =
     (if c = 58 then (None, Some i) else if c = 47 then (Some i, None) else scan_path cs (Suc i))"

text \<open>Result: return code, state, node, the rest of the path, and the path as the call leaves it.\<close>

definition get_device ::
    "inode_alloc \<Rightarrow> nat option \<Rightarrow> bytes \<Rightarrow> fsys \<Rightarrow> (int \<times> fsys \<times> nat \<times> bytes \<times> bytes) option" where
  "get_device al cwd path f = (case scan_path path 0 of (slash, colon) \<Rightarrow>
     if colon = None \<and> slash \<noteq> Some 0
     then do { (ret, f, n) \<leftarrow> vfs_get_curdir cwd f; Some (ret, f, n, path, path) }
     else case colon of
       Some (Suc k) \<Rightarrow> do {
         let name = take (Suc k) path;
         (ret, f, n) \<leftarrow> vfs_get_root al name f;
         Some (ret, f, n, dropWhile (\<lambda>c. c = 47) (drop (Suc (Suc k)) path), name) }
     | _ \<Rightarrow> do {
         (ret, f, n) \<leftarrow>
           (if hd path = 47 then vfs_get_bootfs f
            else do {
              (ret, f, n) \<leftarrow> vfs_get_curdir cwd f;
              if ret \<noteq> 0 then Some (ret, f, n)
              else do {
                kassert (\<not> is_device n f);
                (root, v) \<leftarrow> sfs_get_root al (vf f);
                (_, v) \<leftarrow> inode_ref_dec n v;
                Some (0, f\<lparr>vf := v\<rparr>, root) } });
         if ret \<noteq> 0 then Some (ret, f, n, [], path)
         else Some (0, f, n, dropWhile (\<lambda>c. c = 47) (tl path), path) })"

text \<open>\<open>al1\<close> is for the root inode, \<open>ok\<close> and \<open>al2\<close> for the lookup.\<close>

definition vfs_lookup ::
    "inode_alloc \<Rightarrow> bool \<Rightarrow> inode_alloc \<Rightarrow> nat option \<Rightarrow> bytes \<Rightarrow> fsys \<Rightarrow> (int \<times> fsys \<times> nat \<times> bytes) option" where
  "vfs_lookup al1 ok al2 cwd path f = do {
     (ret, f, n, sub, path) \<leftarrow> get_device al1 cwd path f;
     if ret \<noteq> 0 then Some (ret, f, 0, path)
     else if sub \<noteq> []
     then do {
       (ret, v, k) \<leftarrow> vop_lookup ok al2 n sub (vf f);
       (_, v) \<leftarrow> inode_ref_dec n v;
       Some (ret, f\<lparr>vf := v\<rparr>, k, path) }
     else Some (0, f, n, path) }"

definition vfs_lookup_parent :: "inode_alloc \<Rightarrow> nat option \<Rightarrow> bytes \<Rightarrow> fsys \<Rightarrow> (int \<times> fsys \<times> nat \<times> bytes) option" where
  "vfs_lookup_parent al cwd path f = do {
     (ret, f, n, sub, _) \<leftarrow> get_device al cwd path f;
     Some (ret, f, n, sub) }"

definition vfs_chdir :: "inode_alloc \<Rightarrow> bool \<Rightarrow> inode_alloc \<Rightarrow> bytes \<Rightarrow> nat option \<Rightarrow> fsys \<Rightarrow> (int \<times> nat option \<times> fsys) option" where
  "vfs_chdir al1 ok al2 path cwd f = do {
     (ret, f, n, _) \<leftarrow> vfs_lookup al1 ok al2 cwd path f;
     if ret \<noteq> 0 then Some (ret, cwd, f)
     else do {
       (ret, cwd, f) \<leftarrow> vfs_set_curdir (Some n) cwd f;
       (_, v) \<leftarrow> inode_ref_dec n (vf f);
       Some (ret, cwd, f\<lparr>vf := v\<rparr>) } }"

definition vfs_set_bootfs :: "inode_alloc \<Rightarrow> bool \<Rightarrow> inode_alloc \<Rightarrow> bytes option \<Rightarrow> nat option \<Rightarrow> fsys \<Rightarrow> (int \<times> nat option \<times> fsys) option" where
  "vfs_set_bootfs al1 ok al2 fsname cwd f =
     (case fsname of
        None \<Rightarrow> do { f \<leftarrow> change_bootfs None f; Some (0, cwd, f) }
      | Some name \<Rightarrow>
          if dropWhile (\<lambda>c. c \<noteq> 58) name \<noteq> [58] then Some (- E_INVAL, cwd, f)
          else do {
            (ret, cwd, f) \<leftarrow> vfs_chdir al1 ok al2 name cwd f;
            if ret \<noteq> 0 then Some (ret, cwd, f)
            else do {
              (ret, f, n) \<leftarrow> vfs_get_curdir cwd f;
              if ret \<noteq> 0 then Some (ret, cwd, f)
              else do { f \<leftarrow> change_bootfs (Some n) f; Some (0, cwd, f) } } })"

section \<open>Opening a file (vfsfile.c)\<close>

text \<open>No operation table has a \<open>vop_create\<close>, so creating a file ends in the assertion of the call.\<close>

definition vfs_open ::
    "inode_alloc \<Rightarrow> bool \<Rightarrow> inode_alloc \<Rightarrow> inode_alloc \<Rightarrow> nat option \<Rightarrow> bytes \<Rightarrow> 32 word \<Rightarrow> fsys \<Rightarrow> (int \<times> fsys \<times> nat) option" where
  "vfs_open al1 ok al2 al3 cwd path flags f =
     (let acc = flags AND O_ACCMODE; can_write = (acc = O_WRONLY \<or> acc = O_RDWR); create = (flags AND O_CREAT \<noteq> 0) in
      if acc \<noteq> O_RDONLY \<and> \<not> can_write then Some (- E_INVAL, f, 0)
      else if flags AND O_TRUNC \<noteq> 0 \<and> \<not> can_write then Some (- E_INVAL, f, 0)
      else do {
        (ret, f, n, path) \<leftarrow> vfs_lookup al1 ok al2 cwd path f;
        if ret \<noteq> 0
        then if ret = - 16 \<and> create
             then do {
               (ret, f, _, _) \<leftarrow> vfs_lookup_parent al3 cwd path f;
               if ret \<noteq> 0 then Some (ret, f, 0) else None }
             else Some (ret, f, 0)
        else if flags AND O_EXCL \<noteq> 0 \<and> create then Some (- E_EXISTS, f, 0)
        else do {
          ret \<leftarrow> vop_open n flags (vf f);
          if ret \<noteq> 0 then do { (_, v) \<leftarrow> inode_ref_dec n (vf f); Some (ret, f\<lparr>vf := v\<rparr>, 0) }
          else do {
            (_, v) \<leftarrow> inode_open_inc n (vf f);
            if flags AND O_TRUNC \<noteq> 0 \<or> create
            then do {
              (ret, v) \<leftarrow> vop_truncate n 0 v;
              if ret \<noteq> 0
              then do {
                (_, v) \<leftarrow> inode_open_dec n v;
                (_, v) \<leftarrow> inode_ref_dec n v;
                Some (ret, f\<lparr>vf := v\<rparr>, 0) }
              else Some (0, f\<lparr>vf := v\<rparr>, n) }
            else Some (0, f\<lparr>vf := v\<rparr>, n) } } })"

end
