(* ===== verification/Sfs_Fs.thy ===== *)
theory Sfs_Fs
  imports Vfs
begin

text \<open>
  Synchronising, mounting and unmounting a volume (lab8/kern/fs/sfs/sfs_fs.c) and the device table's side of it
  (lab8/kern/fs/vfs/vfsdev.c, fs.c). \<open>mounted_ok\<close> is the invariant of a mounted volume, \<open>on_disk\<close> says that the disk
  holds its superblock and free map. What \<open>sfs_sync\<close> leaves on the disk is what \<open>sfs_do_mount\<close> reads.

  After \<open>sfs_unmount\<close> the memory of the volume is released; the model keeps the last value of the record, which no
  operation reaches, because \<open>dev_fs\<close> of the device is cleared.
\<close>

section \<open>Synchronising and unmounting (sfs_fs.c)\<close>

text \<open>The results of \<open>vop_fsync\<close> are dropped.\<close>

fun sync_inodes :: "nat list \<Rightarrow> vfs \<Rightarrow> vfs option" where
  "sync_inodes [] v = Some v"
| "sync_inodes (n # ns) v = do { (_, v) \<leftarrow> vop_fsync n v; sync_inodes ns v }"

definition sync_meta :: "sfs_fs \<Rightarrow> (int \<times> sfs_fs) option" where
  "sync_meta s =
     (if super_dirty s
      then do {
        (ret, s) \<leftarrow> sfs_sync_super (s\<lparr>super_dirty := False\<rparr>);
        if ret \<noteq> 0 then Some (ret, s\<lparr>super_dirty := True\<rparr>)
        else do {
          (ret, s) \<leftarrow> sfs_sync_freemap s;
          if ret \<noteq> 0 then Some (ret, s\<lparr>super_dirty := True\<rparr>)
          else Some (0, s) } }
      else Some (0, s))"

definition sfs_sync :: "vfs \<Rightarrow> (int \<times> vfs) option" where
  "sfs_sync v = do {
     v \<leftarrow> sync_inodes (inode_list (sfs v)) v;
     (ret, s) \<leftarrow> sync_meta (sfs v);
     Some (ret, v\<lparr>sfs := s\<rparr>) }"

definition sfs_unmount :: "sfs_fs \<Rightarrow> int option" where
  "sfs_unmount s =
     (if inode_list s \<noteq> [] then Some (- E_BUSY)
      else do {
        kassert (\<not> super_dirty s);
        Some 0 })"

text \<open>At most \<open>k\<close> attempts; the outcome of the last one is only printed.\<close>

fun cleanup_loop :: "nat \<Rightarrow> vfs \<Rightarrow> vfs option" where
  "cleanup_loop 0 v = Some v"
| "cleanup_loop (Suc k) v = do {
     (ret, v) \<leftarrow> sfs_sync v;
     if ret = 0 then Some v else cleanup_loop k v }"

definition sfs_cleanup :: "vfs \<Rightarrow> vfs option" where
  "sfs_cleanup v = cleanup_loop 32 v"

section \<open>Mounting\<close>

definition sfs_init_read :: "disk \<Rightarrow> nat \<Rightarrow> bytes \<Rightarrow> nat \<Rightarrow> (int \<times> disk \<times> bytes) option" where
  "sfs_init_read dk blkno buf base = do {
     (ret, dk, iob) \<leftarrow> disk0_io dk (iobuf_init buf base SFS_BLKSIZE (int (u32 (blkno * SFS_BLKSIZE)))) False;
     Some (ret, dk, io_buf iob) }"

text \<open>The bitmap's memory is a buffer of bytes, which hold its words.\<close>

fun bytes_words :: "bytes \<Rightarrow> 32 word list" where
  "bytes_words (a # b # c # d # bs) = word_of_nat (le_val [a, b, c, d]) # bytes_words bs"
| "bytes_words _ = []"

fun read_freemap :: "disk \<Rightarrow> nat \<Rightarrow> nat \<Rightarrow> bytes \<Rightarrow> nat \<Rightarrow> (int \<times> disk \<times> bytes) option" where
  "read_freemap dk blkno 0 buf base = Some (0, dk, buf)"
| "read_freemap dk blkno (Suc n) buf base = do {
     (ret, dk, buf) \<leftarrow> sfs_init_read dk blkno buf base;
     if ret \<noteq> 0 then Some (ret, dk, buf)
     else read_freemap dk (u32 (blkno + 1)) n buf (base + SFS_BLKSIZE) }"

definition sfs_init_freemap :: "disk \<Rightarrow> bitmap \<Rightarrow> nat \<Rightarrow> nat \<Rightarrow> (int \<times> disk \<times> bitmap) option" where
  "sfs_init_freemap dk fm blkno nblks = do {
     kassert (fst (bitmap_getdata fm) = u32 (nblks * SFS_BLKSIZE));
     (ret, dk, buf) \<leftarrow> read_freemap dk blkno nblks (words_bytes (words fm)) 0;
     Some (ret, dk, fm\<lparr>words := bytes_words buf\<rparr>) }"

fun count_unused :: "bitmap \<Rightarrow> nat \<Rightarrow> nat \<Rightarrow> nat \<Rightarrow> nat option" where
  "count_unused fm i 0 acc = Some acc"
| "count_unused fm i (Suc n) acc = do {
     b \<leftarrow> bitmap_test fm i;
     count_unused fm (i + 1) n (if b then acc + 1 else acc) }"

text \<open>
  \<open>kfs\<close>, \<open>khash\<close>, \<open>kb1\<close> and \<open>kb2\<close> are the outcomes of the allocations of \<open>fs\<close>, the hash list and the two parts of the bitmap;
  \<open>kbuf\<close> is the memory for \<open>sfs_buffer\<close>, if it is allocated.
\<close>

definition sfs_do_mount :: "bool \<Rightarrow> bytes option \<Rightarrow> bool \<Rightarrow> bool \<Rightarrow> bool \<Rightarrow> nat \<Rightarrow> nat \<Rightarrow> disk \<Rightarrow> (int \<times> disk \<times> sfs_fs option) option" where
  "sfs_do_mount kfs kbuf khash kb1 kb2 blksize nblks dk =
     (if blksize \<noteq> SFS_BLKSIZE then Some (- E_NA_DEV, dk, None)
      else if \<not> kfs then Some (- E_NO_MEM, dk, None)
      else case kbuf of
        None \<Rightarrow> Some (- E_NO_MEM, dk, None)
      | Some buf \<Rightarrow> do {
          (ret, dk, buf) \<leftarrow> sfs_init_read dk SFS_BLKN_SUPER buf 0;
          if ret \<noteq> 0 then Some (ret, dk, None)
          else let sb = bytes_super buf in
            if magic sb \<noteq> SFS_MAGIC then Some (- E_INVAL, dk, None)
            else if blocks sb > nblks then Some (- E_INVAL, dk, None)
            else let sb = sb\<lparr>info := (info sb)[SFS_MAX_INFO_LEN := 0]\<rparr>; buf = buf[12 + SFS_MAX_INFO_LEN := 0] in
              if \<not> khash then Some (- E_NO_MEM, dk, None)
              else do {
                fm \<leftarrow> bitmap_create kb1 kb2 (sfs_freemap_bits sb);
                case fm of
                  None \<Rightarrow> Some (- E_NO_MEM, dk, None)
                | Some fm \<Rightarrow> do {
                    (ret, dk, fm) \<leftarrow> sfs_init_freemap dk fm SFS_BLKN_FREEMAP (sfs_freemap_blocks sb);
                    if ret \<noteq> 0 then Some (ret, dk, None)
                    else do {
                      unused \<leftarrow> count_unused fm 0 (sfs_freemap_bits sb) 0;
                      kassert (unused = unused_blocks sb);
                      Some (0, dk, Some \<lparr>super = sb, dev = dk, freemap = fm, super_dirty = False, sfs_buffer = buf,
                        inode_list = [], hash_list = (\<lambda>_. [])\<rparr>) } } } })"

section \<open>Mounting through the device table (vfsdev.c)\<close>

definition find_mount :: "bytes \<Rightarrow> fsys \<Rightarrow> nat option" where
  "find_mount name f = List.find (\<lambda>i. mountable (vdev_list f ! i) \<and> devname (vdev_list f ! i) = name) [0..<length (vdev_list f)]"

definition set_mounted :: "nat \<Rightarrow> bool \<Rightarrow> fsys \<Rightarrow> fsys" where
  "set_mounted i b f = f\<lparr>vdev_list := (vdev_list f)[i := (vdev_list f ! i)\<lparr>dev_fs := b\<rparr>]\<rparr>"

text \<open>The device of a node; the kind of the node is asserted.\<close>

definition vop_device :: "nat option \<Rightarrow> fsys \<Rightarrow> device option" where
  "vop_device dn f = do {
     n \<leftarrow> dn;
     i \<leftarrow> nodes (vf f) n;
     case in_info i of Device d \<Rightarrow> Some d | Sfs _ \<Rightarrow> None }"

definition vfs_mount :: "bytes \<Rightarrow> (nat \<Rightarrow> nat \<Rightarrow> disk \<Rightarrow> (int \<times> disk \<times> sfs_fs option) option) \<Rightarrow> fsys \<Rightarrow> (int \<times> fsys) option" where
  "vfs_mount name mountfunc f =
     (case find_mount name f of
        None \<Rightarrow> Some (- E_NO_DEV, f)
      | Some i \<Rightarrow>
          if dev_fs (vdev_list f ! i) then Some (- E_BUSY, f)
          else do {
            d \<leftarrow> vop_device (devnode (vdev_list f ! i)) f;
            (ret, dk, s) \<leftarrow> mountfunc (dev_blocksize d (vf f)) (dev_blocks d (vf f)) (dev (sfs (vf f)));
            let f = f\<lparr>vf := (vf f)\<lparr>sfs := (sfs (vf f))\<lparr>dev := dk\<rparr>\<rparr>\<rparr>;
            if ret = 0
            then do {
              s \<leftarrow> s;
              Some (0, set_mounted i True (f\<lparr>vf := (vf f)\<lparr>sfs := s\<rparr>\<rparr>)) }
            else Some (ret, f) })"

definition sfs_mount :: "bool \<Rightarrow> bytes option \<Rightarrow> bool \<Rightarrow> bool \<Rightarrow> bool \<Rightarrow> bytes \<Rightarrow> fsys \<Rightarrow> (int \<times> fsys) option" where
  "sfs_mount kfs kbuf khash kb1 kb2 name f = vfs_mount name (sfs_do_mount kfs kbuf khash kb1 kb2) f"

text \<open>One device of \<open>vfs_unmount\<close> and \<open>vfs_unmount_all\<close>: synchronise, then unmount.\<close>

definition unmount_dev :: "nat \<Rightarrow> fsys \<Rightarrow> (int \<times> fsys) option" where
  "unmount_dev i f = do {
     (ret, v) \<leftarrow> sfs_sync (vf f);
     let f = f\<lparr>vf := v\<rparr>;
     if ret \<noteq> 0 then Some (ret, f)
     else do {
       ret \<leftarrow> sfs_unmount (sfs v);
       Some (ret, if ret = 0 then set_mounted i False f else f) } }"

definition vfs_unmount :: "bytes \<Rightarrow> fsys \<Rightarrow> (int \<times> fsys) option" where
  "vfs_unmount name f =
     (case find_mount name f of
        None \<Rightarrow> Some (- E_NO_DEV, f)
      | Some i \<Rightarrow> if \<not> dev_fs (vdev_list f ! i) then Some (- E_INVAL, f) else unmount_dev i f)"

fun unmount_loop :: "nat \<Rightarrow> nat \<Rightarrow> fsys \<Rightarrow> fsys option" where
  "unmount_loop i 0 f = Some f"
| "unmount_loop i (Suc n) f = do {
     f \<leftarrow> (if mountable (vdev_list f ! i) \<and> dev_fs (vdev_list f ! i) then do { (_, f) \<leftarrow> unmount_dev i f; Some f } else Some f);
     unmount_loop (i + 1) n f }"

definition vfs_unmount_all :: "fsys \<Rightarrow> (int \<times> fsys) option" where
  "vfs_unmount_all f = do { f \<leftarrow> unmount_loop 0 (length (vdev_list f)) f; Some (0, f) }"

fun vcleanup_loop :: "vfs_dev_t list \<Rightarrow> vfs \<Rightarrow> vfs option" where
  "vcleanup_loop [] v = Some v"
| "vcleanup_loop (d # ds) v = do {
     v \<leftarrow> (if dev_fs d then sfs_cleanup v else Some v);
     vcleanup_loop ds v }"

definition vfs_cleanup :: "fsys \<Rightarrow> fsys option" where
  "vfs_cleanup f = do { v \<leftarrow> vcleanup_loop (vdev_list f) (vf f); Some (f\<lparr>vf := v\<rparr>) }"

definition fs_cleanup :: "fsys \<Rightarrow> fsys option" where
  "fs_cleanup f = vfs_cleanup f"

section \<open>The bytes of the free map\<close>

lemma length_words_bytes [simp]: "length (words_bytes ws) = 4 * length ws"
  by (induction ws) (auto simp: words_bytes_def)

lemma words_bytes_Cons: "words_bytes (w # ws) = le_bytes 4 (unat w) @ words_bytes ws"
  by (simp add: words_bytes_def)

lemma length_4D:
  assumes "length xs = 4"
  shows "\<exists>a b c d. xs = [a, b, c, d]"
proof -
  have "length xs = Suc (Suc (Suc (Suc 0)))" using assms by simp
  then show ?thesis by (auto simp only: length_Suc_conv length_0_conv)
qed

lemma bytes_words_bytes: "bytes_words (words_bytes ws) = ws"
proof (induction ws)
  case (Cons w ws)
  have "le_val (le_bytes 4 (unat w)) = unat w"
    using unsigned_less [where ?'a = nat, of w] by (simp add: le_val_le_bytes)
  moreover obtain a b c d where "le_bytes 4 (unat w) = [a, b, c, d]"
    using length_4D [OF length_le_bytes] by blast
  ultimately have "bytes_words (le_bytes 4 (unat w) @ words_bytes ws) = w # bytes_words (words_bytes ws)"
    by (simp del: le_val.simps)
  then show ?case using Cons by (simp add: words_bytes_Cons)
qed (simp add: words_bytes_def)

lemma sfs_wblock_many:
  assumes "vol_ok s" "0 < b" "b + n \<le> nblocks s" "base + 4096 * n \<le> length buf"
  shows "\<exists>s'. sfs_wblock s buf base b n = Some (0, s', buf) \<and>
    upd_blk s s' (\<lambda>c. if b \<le> c \<and> c < b + n then seg (base + 4096 * (c - b)) 4096 buf else blk s c)"
  using assms
proof (induction n arbitrary: s b base)
  case 0
  then show ?case by (auto simp: sfs_wblock_def upd_blk_def)
next
  case (Suc n)
  obtain s1 where s1: "sfs_rwblock_nolock s buf base b True True = Some (0, s1, buf)" "vol_ok s1" "meta s1 = meta s"
      "\<forall>c<nblocks s. blk s1 c = (if c = b then seg base 4096 buf else blk s c)"
    using sfs_rwblock_nolock_spec [of s b True base buf True] Suc.prems by auto
  have sup: "super s1 = super s" using meta_eqD [OF s1(3)] by simp
  have "nblocks s \<le> 2 ^ 20" using Suc.prems(1) by (simp add: vol_ok_def)
  then have u: "u32 (b + 1) = Suc b" using Suc.prems(3) by (simp add: u32_id)
  obtain s2 where s2: "sfs_wblock s1 buf (base + 4096) (Suc b) n = Some (0, s2, buf)"
      "upd_blk s1 s2 (\<lambda>c. if Suc b \<le> c \<and> c < Suc b + n then seg (base + 4096 + 4096 * (c - Suc b)) 4096 buf else blk s1 c)"
    using Suc.IH [of s1 "Suc b" "base + 4096"] s1(2) sup Suc.prems by auto
  have "sfs_wblock s buf base b (Suc n) = Some (0, s2, buf)"
    using s1(1) s2(1) u by (simp add: sfs_wblock_def SFS_BLKSIZE_def)
  moreover have sg: "seg (base + 4096 + 4096 * (c - Suc b)) 4096 buf = seg (base + 4096 * (c - b)) 4096 buf" if "Suc b \<le> c" for c
  proof -
    have "base + 4096 + 4096 * (c - Suc b) = base + 4096 * (c - b)" using that by linarith
    then show ?thesis by (rule arg_cong)
  qed
  have "blk s2 c = (if b \<le> c \<and> c < b + Suc n then seg (base + 4096 * (c - b)) 4096 buf else blk s c)" if "c < nblocks s" for c
    using s1(4) s2(2) that sup by (auto simp: upd_blk_def not_less_eq_eq sg)
  ultimately show ?case using s2(2) s1(3) by (auto simp: upd_blk_def)
qed

text \<open>The blocks of the free map and its bits.\<close>

lemma freemap_blocks: "blocks sb \<le> 2 ^ 20 \<Longrightarrow> sfs_freemap_blocks sb = (blocks sb + 32767) div 32768"
  by (simp add: sfs_freemap_blocks_def ROUNDUP_DIV_def SFS_BLKBITS_def SFS_BLKSIZE_def u64_def)

lemma freemap_bits: "blocks sb \<le> 2 ^ 20 \<Longrightarrow> sfs_freemap_bits sb = 32768 * sfs_freemap_blocks sb"
  unfolding freemap_blocks
  by (simp add: sfs_freemap_bits_def ROUNDUP_def ROUNDDOWN_def SFS_BLKBITS_def SFS_BLKSIZE_def u64_def minus_mod_eq_mult_div u32_def)

text \<open>The disk holds the superblock and the free map of the volume.\<close>

definition map_bytes :: "sfs_fs \<Rightarrow> bytes" where
  "map_bytes s = words_bytes (words (freemap s))"

definition on_disk :: "sfs_fs \<Rightarrow> bool" where
  "on_disk s \<longleftrightarrow> bytes_super (blk s 0) = super s \<and>
     (\<forall>i < sfs_freemap_blocks (super s). blk s (2 + i) = seg (4096 * i) 4096 (map_bytes s))"

text \<open>A volume as \<open>sfs_do_mount\<close> makes one: the free map has whole blocks, which the volume has.\<close>

definition mounted_ok :: "sfs_fs \<Rightarrow> bool" where
  "mounted_ok s \<longleftrightarrow> fs_ok s \<and> super_ok (super s) \<and> magic (super s) = SFS_MAGIC \<and> info (super s) ! 31 = 0 \<and>
     nbits (freemap s) = sfs_freemap_bits (super s) \<and> 2 + sfs_freemap_blocks (super s) \<le> nblocks s \<and>
     (super_dirty s \<or> on_disk s)"

definition meta_blks :: "sfs_fs \<Rightarrow> nat set" where
  "meta_blks s = {0} \<union> {2..<2 + sfs_freemap_blocks (super s)}"

lemma length_map_bytes: "mounted_ok s \<Longrightarrow> length (map_bytes s) = 4096 * sfs_freemap_blocks (super s)"
  by (auto simp: mounted_ok_def map_bytes_def fs_ok_def bitmap_inv_def vol_ok_def freemap_bits)

lemma sync_meta_spec:
  assumes "mounted_ok s"
  shows "\<exists>s'. sync_meta s = Some (0, s') \<and> mounted_ok s' \<and> on_disk s' \<and> \<not> super_dirty s' \<and> super s' = super s \<and>
    freemap s' = freemap s \<and> inode_list s' = inode_list s \<and> hash_list s' = hash_list s \<and>
    (\<forall>c<nblocks s. c \<notin> meta_blks s \<longrightarrow> blk s' c = blk s c)"
proof (cases "super_dirty s")
  case False
  then show ?thesis using assms by (auto simp: sync_meta_def mounted_ok_def)
next
  case True
  let ?s = "s\<lparr>super_dirty := False\<rparr>" and ?n = "sfs_freemap_blocks (super s)"
  have m: "fs_ok s" "super_ok (super s)" "2 + ?n \<le> nblocks s" using assms by (auto simp: mounted_ok_def)
  have v: "vol_ok ?s" using m(1) by (simp add: fs_ok_def vol_ok_def)
  have bs: "blk ?s = blk s" by (rule ext) (simp add: blk_def)
  obtain s1 where s1: "sfs_sync_super ?s = Some (0, s1)"
      "upd_blk ?s s1 (\<lambda>c. if c = 0 then super_bytes (super ?s) @ replicate 4052 0 else blk ?s c)"
    using sfs_sync_super_spec [OF v] m by auto
  have e1: "super s1 = super s" "freemap s1 = freemap s" "super_dirty s1 = False" "inode_list s1 = inode_list s" "hash_list s1 = hash_list s" "vol_ok s1"
    using s1(2) meta_eqD [of s1 ?s] by (auto simp: upd_blk_def)
  obtain s2 where s2: "sfs_wblock s1 (map_bytes s) 0 2 ?n = Some (0, s2, map_bytes s)"
      "upd_blk s1 s2 (\<lambda>c. if 2 \<le> c \<and> c < 2 + ?n then seg (0 + 4096 * (c - 2)) 4096 (map_bytes s) else blk s1 c)"
    using sfs_wblock_many [OF e1(6), of 2 ?n 0 "map_bytes s"] e1 m(3) length_map_bytes [OF assms] by auto
  have e2: "super s2 = super s" "freemap s2 = freemap s" "super_dirty s2 = False" "inode_list s2 = inode_list s" "hash_list s2 = hash_list s" "vol_ok s2"
    using s2(2) meta_eqD [of s2 s1] e1 by (auto simp: upd_blk_def)
  have r: "sync_meta s = Some (0, s2)"
    using True s1(1) s2(1) e1
    by (simp add: sync_meta_def sfs_sync_freemap_def bitmap_getdata_def map_bytes_def SFS_BLKN_FREEMAP_def Let_def)
  have b2: "blk s2 c = (if 2 \<le> c \<and> c < 2 + ?n then seg (4096 * (c - 2)) 4096 (map_bytes s)
      else if c = 0 then super_bytes (super s) @ replicate 4052 0 else blk s c)" if "c < nblocks s" for c
    using s1(2) s2(2) that e1(1) by (simp add: upd_blk_def bs)
  have mb: "map_bytes s2 = map_bytes s" using e2 by (simp add: map_bytes_def)
  have od: "on_disk s2"
    using b2 m bytes_super_super_bytes [OF m(2)] by (auto simp: on_disk_def mb e2)
  have "fs_ok s2" using m(1) e2 by (simp add: fs_ok_def free_def)
  then have "mounted_ok s2" using assms e2 od by (simp add: mounted_ok_def)
  then show ?thesis using r od e2 b2 by (auto simp: meta_blks_def)
qed

section \<open>Reading the free map back\<close>

lemma sfs_init_read_spec:
  assumes "disk_ok dk" "b < d_blocks dk" "b < 2 ^ 20" "base + 4096 \<le> length buf"
  shows "\<exists>dk'. sfs_init_read dk b buf base = Some (0, dk', blit buf base (seg (4096 * b) 4096 (img dk))) \<and>
    disk_ok dk' \<and> same_disk dk dk' \<and> img dk' = img dk"
proof -
  have u: "u32 (b * 4096) = b * 4096" using assms(3) by simp
  let ?iob = "iobuf_init buf base SFS_BLKSIZE (int (u32 (b * SFS_BLKSIZE)))"
  show ?thesis
    using disk0_io_cases [of dk ?iob b 1 False] assms u
    by (auto simp: sfs_init_read_def iobuf_init_def SFS_BLKSIZE_def)
qed

lemma blit_grow:
  assumes "length buf = length W" "base + 4096 \<le> length W" "take base buf = take base W"
  shows "take (base + 4096) (blit buf base (seg base 4096 W)) = take (base + 4096) W"
  using assms by (simp add: blit_def seg_def take_add)

lemma same_disk_trans: "same_disk a b \<Longrightarrow> same_disk b c \<Longrightarrow> same_disk a c"
  by (simp add: same_disk_def)

lemma read_freemap_spec:
  assumes "disk_ok dk" "b + n \<le> d_blocks dk" "b + n \<le> 2 ^ 20" "length buf = base + 4096 * n" "length W = base + 4096 * n"
    "take base buf = take base W" "\<forall>i<n. seg (4096 * (b + i)) 4096 (img dk) = seg (base + 4096 * i) 4096 W"
  shows "\<exists>dk'. read_freemap dk b n buf base = Some (0, dk', W) \<and> disk_ok dk' \<and> same_disk dk dk' \<and> img dk' = img dk"
  using assms
proof (induction n arbitrary: dk b buf base)
  case 0
  then show ?case by (simp add: same_disk_def)
next
  case (Suc n)
  have h: "b < d_blocks dk" "b < 2 ^ 20" "base + 4096 \<le> length buf" using Suc.prems by simp_all
  have s0: "seg (4096 * b) 4096 (img dk) = seg base 4096 W" using Suc.prems(7) by force
  obtain d1 where d1: "sfs_init_read dk b buf base = Some (0, d1, blit buf base (seg base 4096 W))"
      "disk_ok d1" "same_disk dk d1" "img d1 = img dk"
    using sfs_init_read_spec [OF Suc.prems(1) h] s0 by auto
  let ?b1 = "blit buf base (seg base 4096 W)"
  have l: "length ?b1 = base + 4096 + 4096 * n" using Suc.prems by simp
  have "seg (4096 * (Suc b + i)) 4096 (img d1) = seg (base + 4096 + 4096 * i) 4096 W" if "i < n" for i
    using Suc.prems(7) [rule_format, of "Suc i"] that d1(4) by (simp add: algebra_simps)
  then obtain dk' where dk': "read_freemap d1 (Suc b) n ?b1 (base + 4096) = Some (0, dk', W)" "disk_ok dk'" "same_disk d1 dk'" "img dk' = img d1"
    using Suc.IH [of d1 "Suc b" ?b1 "base + 4096"] d1 l Suc.prems blit_grow [of buf W base] by (auto simp: same_disk_def)
  have "read_freemap dk b (Suc n) buf base = Some (0, dk', W)"
    using d1(1) dk'(1) h(2) by (simp add: SFS_BLKSIZE_def u32_id)
  then show ?case using dk' d1 same_disk_trans by auto
qed

lemma count_unused_spec:
  assumes "bitmap_inv fm" "i + n \<le> nbits fm"
  shows "count_unused fm i n acc = Some (acc + card (free_bits fm \<inter> {i..<i + n}))"
  using assms(2)
proof (induction n arbitrary: i acc)
  case (Suc n)
  have e: "{i..<i + Suc n} = insert i {Suc i..<Suc i + n}" by auto
  have "card (free_bits fm \<inter> {i..<i + Suc n}) = (if i \<in> free_bits fm then 1 else 0) + card (free_bits fm \<inter> {Suc i..<Suc i + n})"
    unfolding e by (simp add: Int_insert_right)
  then show ?case using Suc.IH [of "Suc i"] Suc.prems by (simp add: bitmap_test_iff [OF assms(1)])
qed simp

lemma mount_freemap:
  assumes s: "mounted_ok s" "on_disk s" and dk: "disk_ok dk" "same_disk (dev s) dk" "img dk = img (dev s)"
  shows "\<exists>fm dk'. bitmap_create True True (sfs_freemap_bits (super s)) = Some (Some fm) \<and>
    sfs_init_freemap dk fm SFS_BLKN_FREEMAP (sfs_freemap_blocks (super s)) = Some (0, dk', freemap s) \<and>
    disk_ok dk' \<and> same_disk (dev s) dk' \<and> img dk' = img (dev s)"
proof -
  let ?n = "sfs_freemap_blocks (super s)"
  have b: "nblocks s \<le> 2 ^ 20" "2 + ?n \<le> nblocks s" "nblocks s \<le> d_blocks (dev s)" "bitmap_inv (freemap s)"
      "nbits (freemap s) = 32768 * ?n"
    using s(1) freemap_bits [of "super s"] by (auto simp: mounted_ok_def fs_ok_def vol_ok_def)
  have n0: "0 < ?n" "32768 * ?n < 2 ^ 32" using b freemap_blocks [OF b(1)] by simp_all
  obtain fm where fm: "bitmap_create True True (32768 * ?n) = Some (Some fm)" "nbits fm = 32768 * ?n" "bitmap_inv fm"
    using bitmap_create_cases [of "32768 * ?n"] n0 by auto
  have nw: "nwords fm = 1024 * ?n" "length (words fm) = 1024 * ?n" "nwords (freemap s) = 1024 * ?n"
    using fm b by (auto simp: bitmap_inv_def)
  have f: "fm\<lparr>words := words (freemap s)\<rparr> = freemap s" using fm nw b by (intro bitmap.equality) simp_all
  have "\<forall>i<?n. seg (4096 * (2 + i)) 4096 (img dk) = seg (0 + 4096 * i) 4096 (map_bytes s)"
    using s(2) dk(3) by (simp add: on_disk_def blk_def)
  then obtain dk' where dk': "read_freemap dk 2 ?n (words_bytes (words fm)) 0 = Some (0, dk', map_bytes s)"
      "disk_ok dk'" "same_disk dk dk'" "img dk' = img dk"
    using read_freemap_spec [OF dk(1), of 2 ?n "words_bytes (words fm)" 0 "map_bytes s"] dk b nw length_map_bytes [OF s(1)]
    by (auto simp: same_disk_def)
  have "sfs_init_freemap dk fm SFS_BLKN_FREEMAP ?n = Some (0, dk', freemap s)"
    using dk'(1) nw n0 f
    by (simp add: sfs_init_freemap_def SFS_BLKN_FREEMAP_def bitmap_getdata_def kassert_def SFS_BLKSIZE_def u32_id map_bytes_def bytes_words_bytes)
  moreover have "sfs_freemap_bits (super s) = 32768 * ?n" using freemap_bits b(1) by blast
  ultimately show ?thesis using fm(1) dk' dk same_disk_trans by auto
qed

lemma sfs_do_mount_spec:
  assumes s: "mounted_ok s" "on_disk s" "nblocks s \<le> nblks" "length buf = 4096"
  shows "\<exists>dk s'. sfs_do_mount True (Some buf) True True True SFS_BLKSIZE nblks (dev s) = Some (0, dk, Some s') \<and>
    mounted_ok s' \<and> \<not> super_dirty s' \<and> super s' = super s \<and> freemap s' = freemap s \<and> blk s' = blk s \<and> inode_list s' = [] \<and>
    hash_list s' = (\<lambda>_. [])"
proof -
  have ok: "fs_ok s" "magic (super s) = SFS_MAGIC" "info (super s) ! 31 = 0" "2 + sfs_freemap_blocks (super s) \<le> nblocks s" "bitmap_inv (freemap s)"
      "nbits (freemap s) = sfs_freemap_bits (super s)"
    using s(1) by (auto simp: mounted_ok_def fs_ok_def)
  have v: "disk_ok (dev s)" "0 < d_blocks (dev s)" using ok by (auto simp: fs_ok_def vol_ok_def)
  obtain d1 where d1: "sfs_init_read (dev s) 0 buf 0 = Some (0, d1, blk s 0)" "disk_ok d1" "same_disk (dev s) d1" "img d1 = img (dev s)"
    using sfs_init_read_spec [OF v, of 0 buf] s(4) length_blk [of s 0] ok by (auto simp: blk_def blit_all fs_ok_def)
  have sb: "bytes_super (blk s 0) = super s" using s(2) by (simp add: on_disk_def)
  have i: "(super s)\<lparr>info := (info (super s))[SFS_MAX_INFO_LEN := 0]\<rparr> = super s"
    using ok(3) list_update_id [of "info (super s)" 31] by (simp add: SFS_MAX_INFO_LEN_def)
  obtain fm dk' where fm: "bitmap_create True True (sfs_freemap_bits (super s)) = Some (Some fm)"
      "sfs_init_freemap d1 fm SFS_BLKN_FREEMAP (sfs_freemap_blocks (super s)) = Some (0, dk', freemap s)"
      "disk_ok dk'" "same_disk (dev s) dk'" "img dk' = img (dev s)"
    using mount_freemap [OF s(1,2) d1(2-4)] by blast
  have "free_bits (freemap s) \<inter> {0..<0 + nbits (freemap s)} = free_bits (freemap s)"
    using ok(5) by (auto simp: bitmap_inv_def)
  then have c: "count_unused (freemap s) 0 (sfs_freemap_bits (super s)) 0 = Some (unused_blocks (super s))"
    using count_unused_spec [OF ok(5), of 0 "nbits (freemap s)" 0] ok(1,6) by (simp add: fs_ok_def free_def)
  let ?s = "\<lparr>super = super s, dev = dk', freemap = freemap s, super_dirty = False, sfs_buffer = (blk s 0)[12 + SFS_MAX_INFO_LEN := 0],
      inode_list = [], hash_list = (\<lambda>_. [])\<rparr>"
  have m: "sfs_do_mount True (Some buf) True True True SFS_BLKSIZE nblks (dev s) = Some (0, dk', Some ?s)"
    using d1(1) sb ok(2) s(3) i fm(1,2) c by (simp add: sfs_do_mount_def SFS_BLKN_SUPER_def kassert_def Let_def)
  have bk: "blk ?s = blk s" by (rule ext) (simp add: blk_def fm(5))
  have lb: "length (blk s 0) = 4096" using length_blk [of s 0] ok by (simp add: fs_ok_def)
  have "fs_ok ?s" using ok(1) fm(3,4) lb by (simp add: fs_ok_def vol_ok_def free_def same_disk_def)
  moreover have "on_disk ?s" using s(2) by (simp add: on_disk_def bk map_bytes_def)
  ultimately have "mounted_ok ?s" using s(1) by (simp add: mounted_ok_def)
  then show ?thesis using m bk by auto
qed

section \<open>Synchronising the cached inodes\<close>

text \<open>A cached inode that can be written back: it is in memory as its block on disk says, or it is dirty.\<close>

definition stored :: "sfs_fs \<Rightarrow> sfs_inode \<Rightarrow> bool" where
  "stored s sin \<longleftrightarrow> bytes_din (blk s (ino sin)) = din sin"

definition node_ok :: "vfs \<Rightarrow> nat \<Rightarrow> bool" where
  "node_ok v n \<longleftrightarrow> (\<exists>i sin. nodes v n = Some i \<and> in_info i = Sfs sin \<and> inode_check i = Some () \<and>
     ino sin \<in> used (sfs v) - meta_blks (sfs v) \<and> din_wf (din sin) \<and> (dirty sin \<or> stored (sfs v) sin))"

lemma sfs_fsync_upd:
  assumes "mounted_ok s" "ino sin \<in> used s - meta_blks s" "din_wf (din sin)" "dirty sin \<or> stored s sin"
  shows "\<exists>s'. sfs_fsync s sin = Some (0, s', sin\<lparr>dirty := False\<rparr>) \<and> mounted_ok s' \<and> meta s' = meta s \<and> stored s' sin \<and>
    (\<forall>c<nblocks s. c \<noteq> ino sin \<longrightarrow> blk s' c = blk s c)"
proof (cases "dirty sin")
  case False
  then have "sfs_fsync s sin = Some (0, s, sin\<lparr>dirty := False\<rparr>)" by (simp add: sfs_fsync_def)
  then show ?thesis using assms False by auto
next
  case True
  let ?b = "din_bytes (din sin)"
  have ok: "fs_ok s" "ino sin \<in> used s" using assms(1,2) by (auto simp: mounted_ok_def)
  have l: "length ?b = 64" using length_din_bytes assms(3) by (simp add: din_wf_def)
  obtain s' where s': "sfs_wbuf s ?b 0 64 (ino sin) 0 = Some (0, s', ?b)" "upd_blk s s' ((blk s)(ino sin := blit (blk s (ino sin)) 0 (seg 0 64 ?b)))"
    using sfs_wbuf_spec [of s "ino sin" 0 64 0 ?b] fs_ok_vol [OF ok(1)] ok(2) l by (auto simp: used_def)
  have f: "sfs_fsync s sin = Some (0, s', sin\<lparr>dirty := False\<rparr>)" using s'(1) True by (simp add: sfs_fsync_def)
  then have st: "fs_ok s'" "stored s' sin" "\<forall>c<nblocks s. c \<noteq> ino sin \<longrightarrow> blk s' c = blk s c"
    using sfs_fsync_spec [OF ok assms(3) True] by (auto simp: stored_def)
  have m: "meta s' = meta s" using s'(2) by (simp add: upd_blk_def)
  note e = meta_eqD [OF m]
  have "on_disk s'" if "on_disk s"
  proof -
    have "blk s' c = blk s c" if "c \<in> meta_blks s" for c
      using st(3) assms that by (auto simp: meta_blks_def mounted_ok_def used_def)
    then show ?thesis using that e by (simp add: on_disk_def map_bytes_def meta_blks_def)
  qed
  then have "mounted_ok s'" using assms(1) st(1) e by (auto simp: mounted_ok_def)
  then show ?thesis using f st m by auto
qed

lemma vop_fsync_upd:
  assumes "mounted_ok (sfs v)" "node_ok v n" "get_sin n v = Some sin"
  shows "\<exists>v'. vop_fsync n v = Some (0, v') \<and> mounted_ok (sfs v') \<and> meta (sfs v') = meta (sfs v) \<and> stored (sfs v') sin \<and>
    (\<forall>c<nblocks (sfs v). c \<noteq> ino sin \<longrightarrow> blk (sfs v') c = blk (sfs v) c) \<and> (\<forall>m. m \<noteq> n \<longrightarrow> nodes v' m = nodes v m)"
proof -
  obtain i where i: "nodes v n = Some i" "in_info i = Sfs sin" "inode_check i = Some ()"
      "ino sin \<in> used (sfs v) - meta_blks (sfs v)" "din_wf (din sin)" "dirty sin \<or> stored (sfs v) sin"
    using assms(2,3) by (auto simp: node_ok_def get_sin_def vop_info_def)
  obtain s' where "sfs_fsync (sfs v) sin = Some (0, s', sin\<lparr>dirty := False\<rparr>)" "mounted_ok s'" "meta s' = meta (sfs v)" "stored s' sin"
      "\<forall>c<nblocks (sfs v). c \<noteq> ino sin \<longrightarrow> blk s' c = blk (sfs v) c"
    using sfs_fsync_upd [OF assms(1) i(4-6)] by blast
  then show ?thesis using i(1-3) by (simp add: vop_fsync_def vop_info_def put_sin_def set_node_def)
qed

lemma node_ok_other:
  assumes "node_ok v m" "nodes v' m = nodes v m" "meta (sfs v') = meta (sfs v)"
    "\<forall>c<nblocks (sfs v). c \<noteq> k \<longrightarrow> blk (sfs v') c = blk (sfs v) c" "ino_of v m \<noteq> k"
  shows "node_ok v' m"
proof -
  note e = meta_eqD [OF assms(3)]
  obtain i sin where i: "nodes v m = Some i" "in_info i = Sfs sin" "inode_check i = Some ()"
      "ino sin \<in> used (sfs v) - meta_blks (sfs v)" "din_wf (din sin)" "dirty sin \<or> stored (sfs v) sin"
    using assms(1) by (auto simp: node_ok_def)
  have k: "ino sin \<noteq> k" using assms(5) i(1,2) by (simp add: ino_of_def get_sin_def vop_info_def)
  have "ino sin < nblocks (sfs v)" using i(4) by (simp add: used_def)
  then have "stored (sfs v') sin = stored (sfs v) sin" using assms(4) k by (simp add: stored_def)
  moreover have "used (sfs v') = used (sfs v)" "meta_blks (sfs v') = meta_blks (sfs v)"
    using e by (simp_all add: used_def free_def meta_blks_def)
  ultimately show ?thesis using i assms(2) by (auto simp: node_ok_def)
qed

lemma sync_inodes_spec:
  assumes "mounted_ok (sfs v)" "distinct ns" "inj_on (ino_of v) (set ns)" "\<forall>n\<in>set ns. node_ok v n"
  shows "\<exists>v'. sync_inodes ns v = Some v' \<and> mounted_ok (sfs v') \<and> meta (sfs v') = meta (sfs v) \<and>
    (\<forall>n\<in>set ns. stored (sfs v') (the (get_sin n v))) \<and>
    (\<forall>c<nblocks (sfs v). c \<notin> ino_of v ` set ns \<longrightarrow> blk (sfs v') c = blk (sfs v) c) \<and> (\<forall>m. m \<notin> set ns \<longrightarrow> nodes v' m = nodes v m)"
  using assms
proof (induction ns arbitrary: v)
  case (Cons n ns)
  have nok: "node_ok v n" using Cons.prems by simp
  then obtain sin where sin: "get_sin n v = Some sin" by (auto simp: node_ok_def get_sin_def vop_info_def)
  then have ik: "ino_of v n = ino sin" by (simp add: ino_of_def)
  obtain v1 where v1: "vop_fsync n v = Some (0, v1)" "mounted_ok (sfs v1)" "meta (sfs v1) = meta (sfs v)" "stored (sfs v1) sin"
      "\<forall>c<nblocks (sfs v). c \<noteq> ino sin \<longrightarrow> blk (sfs v1) c = blk (sfs v) c" "\<forall>m. m \<noteq> n \<longrightarrow> nodes v1 m = nodes v m"
    using vop_fsync_upd [OF Cons.prems(1) nok sin] by blast
  have g: "get_sin m v1 = get_sin m v" "ino_of v1 m = ino_of v m" "ino_of v m \<noteq> ino sin" if "m \<in> set ns" for m
  proof -
    have "m \<noteq> n" using that Cons.prems(2) by auto
    then show "get_sin m v1 = get_sin m v" "ino_of v1 m = ino_of v m" using v1(6) by (simp_all add: get_sin_def ino_of_def)
    show "ino_of v m \<noteq> ino sin" using \<open>m \<noteq> n\<close> Cons.prems(3) that ik by (force simp: inj_on_def)
  qed
  have n1: "\<forall>m\<in>set ns. node_ok v1 m"
  proof
    fix m assume m: "m \<in> set ns"
    then have "nodes v1 m = nodes v m" using v1(6) Cons.prems(2) by auto
    then show "node_ok v1 m" using node_ok_other [of v m v1 "ino sin"] Cons.prems(4) m v1(3,5) g(3) by simp
  qed
  have inj: "inj_on (ino_of v1) (set ns)" using Cons.prems(3) g(2) by (simp add: inj_on_def)
  have im: "ino_of v1 ` set ns = ino_of v ` set ns" using g(2) by (simp cong: image_cong)
  have nb: "nblocks (sfs v1) = nblocks (sfs v)" using meta_eqD [OF v1(3)] by simp
  obtain v2 where v2: "sync_inodes ns v1 = Some v2" "mounted_ok (sfs v2)" "meta (sfs v2) = meta (sfs v1)"
      "\<forall>m\<in>set ns. stored (sfs v2) (the (get_sin m v1))"
      "\<forall>c<nblocks (sfs v1). c \<notin> ino_of v1 ` set ns \<longrightarrow> blk (sfs v2) c = blk (sfs v1) c" "\<forall>m. m \<notin> set ns \<longrightarrow> nodes v2 m = nodes v1 m"
    using Cons.IH [OF v1(2) _ inj n1] Cons.prems(2) by auto
  have "ino sin < nblocks (sfs v)" using nok sin by (auto simp: node_ok_def get_sin_def vop_info_def used_def)
  moreover have "ino sin \<notin> ino_of v ` set ns" using g(3) by (metis imageE)
  ultimately have "stored (sfs v2) sin" using v1(4) v2(5) nb im by (simp add: stored_def)
  then show ?case using v1 v2 g(1) sin ik nb im by (intro exI [of _ v2]) auto
qed simp

lemma list_bits_zeros: "list_bits (replicate k 0) = {}"
  by (induction k) (auto simp: list_bits_Cons split: if_splits)

text \<open>A volume whose superblock, free map and one inode have not been written yet.\<close>

definition unsynced_vfs :: vfs where
  "unsynced_vfs = \<lparr>sfs = example_fs\<lparr>freemap := \<lparr>nbits = 32768, nwords = 1024, words = 248 # replicate 1023 0\<rparr>, super_dirty := True,
       inode_list := [0], hash_list := (\<lambda>h. if h = sin_hashfn 1 then [0] else [])\<rparr>,
     nodes = [0 \<mapsto> \<lparr>in_info = Sfs (example_inode1\<lparr>dirty := True\<rparr>), ref_count = 1, open_count = 0\<rparr>]\<rparr>"

lemma unsynced_free: "free (sfs unsynced_vfs) = {3, 4, 5, 6, 7}"
proof -
  have "free_bits (freemap (sfs unsynced_vfs)) = list_bits [248]"
    by (auto simp: unsynced_vfs_def free_bits_words list_bits_Cons list_bits_zeros split: if_splits)
  also have "\<dots> = free example_fs" by (simp add: free_def example_fs_def free_bits_words)
  finally show ?thesis using example_free by (simp add: free_def)
qed

lemma unsynced_ok: "mounted_ok (sfs unsynced_vfs)" "cache_ok unsynced_vfs" "\<forall>n\<in>set (inode_list (sfs unsynced_vfs)). node_ok unsynced_vfs n"
proof -
  let ?s = "sfs unsynced_vfs"
  have f: "free_bits (freemap ?s) = {3, 4, 5, 6, 7}" using unsynced_free by (simp add: free_def)
  have "bitmap_inv (freemap ?s)" unfolding bitmap_inv_def f by (simp add: unsynced_vfs_def)
  moreover have "vol_ok ?s" using example_fs_ok by (simp add: fs_ok_def vol_ok_def unsynced_vfs_def)
  ultimately have fs: "fs_ok ?s" unfolding fs_ok_def unsynced_free by (simp add: unsynced_vfs_def example_fs_def)
  have n: "sfs_freemap_blocks (super ?s) = 1" "sfs_freemap_bits (super ?s) = 32768"
    using freemap_blocks [of "super ?s"] freemap_bits [of "super ?s"] by (simp_all add: unsynced_vfs_def example_fs_def)
  show "mounted_ok ?s"
    unfolding mounted_ok_def n using fs by (simp add: unsynced_vfs_def example_fs_def super_ok_def SFS_MAGIC_def)
  have g: "get_sin 0 unsynced_vfs = Some (example_inode1\<lparr>dirty := True\<rparr>)"
    by (simp add: get_sin_def unsynced_vfs_def vop_info_def)
  then show "cache_ok unsynced_vfs"
    by (auto simp: cache_ok_def ino_of_def unsynced_vfs_def example_inode1_def example_inode_def)
  have "1 \<in> used ?s - meta_blks ?s"
    unfolding used_def unsynced_free meta_blks_def n by (simp add: unsynced_vfs_def example_fs_def)
  then have "node_ok unsynced_vfs 0"
    by (auto simp: node_ok_def inode_check_def kassert_def din_wf_def MAX_INODE_COUNT_def unsynced_vfs_def example_inode1_def example_inode_def SFS_TYPE_FILE_def)
  then show "\<forall>n\<in>set (inode_list ?s). node_ok unsynced_vfs n" by (simp add: unsynced_vfs_def)
qed

section \<open>Properties\<close>

text \<open>C29. What \<open>sfs_sync\<close> writes, \<open>sfs_do_mount\<close> reads back. On a mounted volume whose cached inodes are
  well formed, \<open>sfs_sync\<close> succeeds and clears the dirty flag, and mounting the disk it leaves behind succeeds, the count of
  free blocks asserted by \<open>sfs_do_mount\<close> included. The new volume has the same superblock and free map, every cached inode is
  stored in its block exactly as it was in memory, and every other block outside the superblock and the free map is unchanged.\<close>

theorem sfs_sync_then_mount:
  assumes "mounted_ok (sfs v)" "cache_ok v" "\<forall>n\<in>set (inode_list (sfs v)). node_ok v n"
    and "nblocks (sfs v) \<le> nblks" "length buf = 4096"
  shows "\<exists>v' dk s'. sfs_sync v = Some (0, v') \<and> \<not> super_dirty (sfs v') \<and>
    sfs_do_mount True (Some buf) True True True SFS_BLKSIZE nblks (dev (sfs v')) = Some (0, dk, Some s') \<and>
    mounted_ok s' \<and> super s' = super (sfs v) \<and> freemap s' = freemap (sfs v) \<and> inode_list s' = [] \<and>
    (\<forall>n\<in>set (inode_list (sfs v)). stored s' (the (get_sin n v))) \<and>
    (\<forall>c<nblocks (sfs v). c \<notin> meta_blks (sfs v) \<union> ino_of v ` set (inode_list (sfs v)) \<longrightarrow> blk s' c = blk (sfs v) c)"
proof -
  let ?ns = "inode_list (sfs v)"
  have c: "distinct ?ns" "inj_on (ino_of v) (set ?ns)" using assms(2) by (auto simp: cache_ok_def)
  obtain v1 where v1: "sync_inodes ?ns v = Some v1" "mounted_ok (sfs v1)" "meta (sfs v1) = meta (sfs v)"
      "\<forall>n\<in>set ?ns. stored (sfs v1) (the (get_sin n v))"
      "\<forall>c<nblocks (sfs v). c \<notin> ino_of v ` set ?ns \<longrightarrow> blk (sfs v1) c = blk (sfs v) c"
    using sync_inodes_spec [OF assms(1) c assms(3)] by blast
  note e1 = meta_eqD [OF v1(3)]
  obtain s2 where s2: "sync_meta (sfs v1) = Some (0, s2)" "mounted_ok s2" "on_disk s2" "\<not> super_dirty s2" "super s2 = super (sfs v1)"
      "freemap s2 = freemap (sfs v1)" "\<forall>c<nblocks (sfs v1). c \<notin> meta_blks (sfs v1) \<longrightarrow> blk s2 c = blk (sfs v1) c"
    using sync_meta_spec [OF v1(2)] by blast
  obtain dk s' where s': "sfs_do_mount True (Some buf) True True True SFS_BLKSIZE nblks (dev s2) = Some (0, dk, Some s')"
      "mounted_ok s'" "super s' = super s2" "freemap s' = freemap s2" "blk s' = blk s2" "inode_list s' = []"
    using sfs_do_mount_spec [OF s2(2,3), of nblks buf] assms(4,5) s2(5) e1 by auto
  have sy: "sfs_sync v = Some (0, v1\<lparr>sfs := s2\<rparr>)" using v1(1) s2(1) by (simp add: sfs_sync_def)
  have mb: "meta_blks (sfs v1) = meta_blks (sfs v)" using e1 by (simp add: meta_blks_def)
  have "stored s' (the (get_sin n v))" if n: "n \<in> set ?ns" for n
  proof -
    have "node_ok v n" using assms(3) n by blast
    then obtain i sin where i: "nodes v n = Some i" "in_info i = Sfs sin" "ino sin \<in> used (sfs v) - meta_blks (sfs v)"
      unfolding node_ok_def by blast
    then have g: "the (get_sin n v) = sin" by (simp add: get_sin_def vop_info_def)
    have "blk s2 (ino sin) = blk (sfs v1) (ino sin)" using s2(7) i(3) mb e1 by (auto simp: used_def)
    then show ?thesis using bspec [OF v1(4) n] g s'(5) by (simp add: stored_def)
  qed
  moreover have "blk s' c = blk (sfs v) c" if "c < nblocks (sfs v)" "c \<notin> meta_blks (sfs v) \<union> ino_of v ` set ?ns" for c
    using s2(7) v1(5) that mb e1 s'(5) by simp
  ultimately show ?thesis using sy s2 s' e1 by (intro exI [of _ "v1\<lparr>sfs := s2\<rparr>"] exI [of _ dk] exI [of _ s']) auto
qed

theorem sfs_sync_then_mount_witness:
  "\<exists>v' dk s'. sfs_sync unsynced_vfs = Some (0, v') \<and>
     sfs_do_mount True (Some (replicate 4096 9)) True True True SFS_BLKSIZE 8 (dev (sfs v')) = Some (0, dk, Some s') \<and>
     free s' = {3, 4, 5, 6, 7} \<and> bytes_din (blk s' 1) = din example_inode1"
proof -
  have "nblocks (sfs unsynced_vfs) \<le> 8" "inode_list (sfs unsynced_vfs) = [0]"
      "get_sin 0 unsynced_vfs = Some (example_inode1\<lparr>dirty := True\<rparr>)"
    by (simp_all add: unsynced_vfs_def example_fs_def get_sin_def vop_info_def)
  moreover have "ino example_inode1 = 1" by (simp add: example_inode1_def example_inode_def)
  ultimately show ?thesis
    using sfs_sync_then_mount [OF unsynced_ok, of 8 "replicate 4096 9"] unsynced_free by (fastforce simp: stored_def free_def)
qed

text \<open>A disk whose superblock has another magic number, or counts more blocks than the device has, is refused.\<close>

lemma sfs_do_mount_refuses:
  assumes "disk_ok dk" "0 < d_blocks dk" "length buf = 4096" "sb = bytes_super (seg 0 4096 (img dk))" "magic sb \<noteq> SFS_MAGIC \<or> nblks < blocks sb"
  shows "\<exists>dk'. sfs_do_mount True (Some buf) kh k1 k2 SFS_BLKSIZE nblks dk = Some (- E_INVAL, dk', None) \<and> img dk' = img dk"
proof -
  have "length (seg 0 4096 (img dk)) = 4096" using disk_ok_blocks(2) [of dk 0 1] assms(1,2) by simp
  then obtain dk' where "sfs_init_read dk 0 buf 0 = Some (0, dk', seg 0 4096 (img dk))" "img dk' = img dk"
    using sfs_init_read_spec [OF assms(1,2), of 0 buf] assms(3) by (auto simp: blit_all)
  then show ?thesis using assms(4,5) by (auto simp: sfs_do_mount_def SFS_BLKN_SUPER_def Let_def)
qed

text \<open>A volume with a cached inode is not unmounted; after \<open>sfs_sync\<close> the assertion of \<open>sfs_unmount\<close> holds.\<close>

lemma sfs_sync_unmount:
  assumes "mounted_ok (sfs v)" "cache_ok v" "\<forall>n\<in>set (inode_list (sfs v)). node_ok v n"
  shows "\<exists>v'. sfs_sync v = Some (0, v') \<and> sfs_unmount (sfs v') = Some (if inode_list (sfs v) = [] then 0 else - E_BUSY)"
proof -
  have c: "distinct (inode_list (sfs v))" "inj_on (ino_of v) (set (inode_list (sfs v)))" using assms(2) by (auto simp: cache_ok_def)
  obtain v1 where v1: "sync_inodes (inode_list (sfs v)) v = Some v1" "mounted_ok (sfs v1)" "meta (sfs v1) = meta (sfs v)"
    using sync_inodes_spec [OF assms(1) c assms(3)] by blast
  obtain s2 where "sync_meta (sfs v1) = Some (0, s2)" "\<not> super_dirty s2" "inode_list s2 = inode_list (sfs v1)"
    using sync_meta_spec [OF v1(2)] by blast
  then show ?thesis using v1 meta_eqD [OF v1(3)] by (auto simp: sfs_sync_def sfs_unmount_def)
qed

end
