(* ===== verification/Files.thy ===== *)
theory Files
  imports Vfs
begin

text \<open>
  Open files: the file table of a process (lab8/kern/fs/file.h, fs.h, fs.c) and the operations on descriptors (file.c).

  A \<open>struct file\<close> is its index in the table it belongs to. Operations take the table of the current
  process and the state of the inodes and return both. The semaphore of a table delimits critical sections and is not
  repeated here. The kernel buffer of a read or write is the list of its bytes.
\<close>


section \<open>File tables\<close>

datatype fd_status = FD_NONE | FD_INIT | FD_OPENED | FD_CLOSED

record kfile =
  status :: fd_status
  readable :: bool
  writable :: bool
  fd :: int
  pos :: int
  f_node :: "nat option"
  f_open_count :: int

record files_struct =
  pwd :: "nat option"
  fd_array :: "kfile list"
  files_count :: int

text \<open>\<open>(PGSIZE - sizeof(struct files_struct)) / sizeof(struct file)\<close>, with 48 and 56 bytes.\<close>

definition FILES_STRUCT_NENTRY :: nat where "FILES_STRUCT_NENTRY = (4096 - 48) div 56"
definition NO_FD :: int where "NO_FD = - 0x9527"

definition testfd :: "int \<Rightarrow> bool" where
  "testfd k \<longleftrightarrow> k \<ge> 0 \<and> k < int FILES_STRUCT_NENTRY"

definition get_file :: "nat \<Rightarrow> files_struct \<Rightarrow> kfile option" where
  "get_file i fs = (if i < length (fd_array fs) then Some (fd_array fs ! i) else None)"

definition put_file :: "nat \<Rightarrow> kfile \<Rightarrow> files_struct \<Rightarrow> files_struct" where
  "put_file i fl fs = fs\<lparr>fd_array := (fd_array fs)[i := fl]\<rparr>"

text \<open>\<open>get_fd_array\<close>: the current process has a file table that is in use.\<close>

definition get_fd_array :: "files_struct \<Rightarrow> unit option" where
  "get_fd_array fs = kassert (files_count fs > 0)"

definition fd_array_init :: "kfile list \<Rightarrow> kfile list" where
  "fd_array_init fls = map (\<lambda>(k, fl). fl\<lparr>f_open_count := 0, status := FD_NONE, fd := int k\<rparr>) (enumerate 0 fls)"

fun first_none :: "nat \<Rightarrow> kfile list \<Rightarrow> nat option" where
  "first_none i [] = None"
| "first_none i (fl # fls) = (if status fl = FD_NONE then Some i else first_none (Suc i) fls)"

text \<open>The label \<open>found\<close>. Result: return code, table and index of the file.\<close>

definition fd_array_found :: "nat \<Rightarrow> files_struct \<Rightarrow> (int \<times> files_struct \<times> nat) option" where
  "fd_array_found i fs = do {
     fl \<leftarrow> get_file i fs;
     kassert (f_open_count fl = 0);
     Some (0, put_file i (fl\<lparr>status := FD_INIT, f_node := None\<rparr>) fs, i) }"

definition fd_array_alloc :: "int \<Rightarrow> files_struct \<Rightarrow> (int \<times> files_struct \<times> nat) option" where
  "fd_array_alloc k fs = do {
     get_fd_array fs;
     if k = NO_FD
     then (case first_none 0 (fd_array fs) of None \<Rightarrow> Some (- E_MAX_OPEN, fs, 0) | Some i \<Rightarrow> fd_array_found i fs)
     else if testfd k
     then do {
       fl \<leftarrow> get_file (nat k) fs;
       if status fl = FD_NONE then fd_array_found (nat k) fs else Some (- E_BUSY, fs, 0) }
     else Some (- E_INVAL, fs, 0) }"

definition fd_array_free :: "nat \<Rightarrow> files_struct \<Rightarrow> vfs \<Rightarrow> (files_struct \<times> vfs) option" where
  "fd_array_free i fs v = do {
     fl \<leftarrow> get_file i fs;
     kassert (status fl = FD_INIT \<or> status fl = FD_CLOSED);
     kassert (f_open_count fl = 0);
     v \<leftarrow> (if status fl = FD_CLOSED then do { n \<leftarrow> f_node fl; (_, v) \<leftarrow> vfs_close n v; Some v } else Some v);
     Some (put_file i (fl\<lparr>status := FD_NONE\<rparr>) fs, v) }"

definition fd_array_acquire :: "nat \<Rightarrow> files_struct \<Rightarrow> files_struct option" where
  "fd_array_acquire i fs = do {
     fl \<leftarrow> get_file i fs;
     kassert (status fl = FD_OPENED);
     Some (put_file i (fl\<lparr>f_open_count := f_open_count fl + 1\<rparr>) fs) }"

definition fd_array_release :: "nat \<Rightarrow> files_struct \<Rightarrow> vfs \<Rightarrow> (files_struct \<times> vfs) option" where
  "fd_array_release i fs v = do {
     fl \<leftarrow> get_file i fs;
     kassert (status fl = FD_OPENED \<or> status fl = FD_CLOSED);
     kassert (f_open_count fl > 0);
     let fs = put_file i (fl\<lparr>f_open_count := f_open_count fl - 1\<rparr>) fs;
     if f_open_count fl - 1 = 0 then fd_array_free i fs v else Some (fs, v) }"

definition fd_array_open :: "nat \<Rightarrow> files_struct \<Rightarrow> files_struct option" where
  "fd_array_open i fs = do {
     fl \<leftarrow> get_file i fs;
     kassert (status fl = FD_INIT \<and> f_node fl \<noteq> None);
     Some (put_file i (fl\<lparr>status := FD_OPENED, f_open_count := f_open_count fl + 1\<rparr>) fs) }"

definition fd_array_close :: "nat \<Rightarrow> files_struct \<Rightarrow> vfs \<Rightarrow> (files_struct \<times> vfs) option" where
  "fd_array_close i fs v = do {
     fl \<leftarrow> get_file i fs;
     kassert (status fl = FD_OPENED);
     kassert (f_open_count fl > 0);
     let fs = put_file i (fl\<lparr>status := FD_CLOSED, f_open_count := f_open_count fl - 1\<rparr>) fs;
     if f_open_count fl - 1 = 0 then fd_array_free i fs v else Some (fs, v) }"

text \<open>\<open>fd_array_dup\<close> copies the entry \<open>from\<close>, which may be in another table, to entry \<open>i\<close>.\<close>

definition fd_array_dup :: "nat \<Rightarrow> kfile \<Rightarrow> files_struct \<Rightarrow> vfs \<Rightarrow> (files_struct \<times> vfs) option" where
  "fd_array_dup i from fs v = do {
     to \<leftarrow> get_file i fs;
     kassert (status to = FD_INIT \<and> status from = FD_OPENED);
     n \<leftarrow> f_node from;
     (_, v) \<leftarrow> inode_ref_inc n v;
     (_, v) \<leftarrow> inode_open_inc n v;
     fs \<leftarrow> fd_array_open i (put_file i (to\<lparr>pos := pos from, readable := readable from, writable := writable from, f_node := Some n\<rparr>) fs);
     Some (fs, v) }"

definition fd2file :: "int \<Rightarrow> files_struct \<Rightarrow> (int \<times> nat) option" where
  "fd2file k fs =
     (if testfd k
      then do {
        get_fd_array fs;
        fl \<leftarrow> get_file (nat k) fs;
        if status fl = FD_OPENED \<and> fd fl = k then Some (0, nat k) else Some (- E_INVAL, 0) }
      else Some (- E_INVAL, 0))"

section \<open>Operations on descriptors (file.c)\<close>

definition file_testfd :: "int \<Rightarrow> bool \<Rightarrow> bool \<Rightarrow> files_struct \<Rightarrow> bool option" where
  "file_testfd k rd wr fs = do {
     (ret, i) \<leftarrow> fd2file k fs;
     if ret \<noteq> 0 then Some False
     else do {
       fl \<leftarrow> get_file i fs;
       Some (\<not> (rd \<and> \<not> readable fl) \<and> \<not> (wr \<and> \<not> writable fl)) } }"

text \<open>In \<open>file_open\<close> and \<open>file_seek\<close>, \<open>vop_fstat\<close> returns 0 or panics: neither table has another failure.\<close>

definition file_open ::
    "inode_alloc \<Rightarrow> bool \<Rightarrow> inode_alloc \<Rightarrow> inode_alloc \<Rightarrow> bytes \<Rightarrow> 32 word \<Rightarrow> files_struct \<Rightarrow> fsys \<Rightarrow> (int \<times> files_struct \<times> fsys) option" where
  "file_open al1 ok al2 al3 path flags fs f =
     (let acc = flags AND O_ACCMODE in
      if acc \<noteq> O_RDONLY \<and> acc \<noteq> O_WRONLY \<and> acc \<noteq> O_RDWR then Some (- E_INVAL, fs, f)
      else do {
        (ret, fs, i) \<leftarrow> fd_array_alloc NO_FD fs;
        if ret \<noteq> 0 then Some (ret, fs, f)
        else do {
          (ret, f, n) \<leftarrow> vfs_open al1 ok al2 al3 (pwd fs) path flags f;
          if ret \<noteq> 0
          then do { (fs, v) \<leftarrow> fd_array_free i fs (vf f); Some (ret, fs, f\<lparr>vf := v\<rparr>) }
          else do {
            p \<leftarrow> (if flags AND O_APPEND \<noteq> 0 then do { st \<leftarrow> vop_fstat n (vf f); Some (int (st_size st)) } else Some 0);
            fl \<leftarrow> get_file i fs;
            fs \<leftarrow> fd_array_open i (put_file i (fl\<lparr>pos := p, f_node := Some n,
              readable := (acc = O_RDONLY \<or> acc = O_RDWR), writable := (acc = O_WRONLY \<or> acc = O_RDWR)\<rparr>) fs);
            fl \<leftarrow> get_file i fs;
            Some (fd fl, fs, f) } } })"

definition file_close :: "int \<Rightarrow> files_struct \<Rightarrow> vfs \<Rightarrow> (int \<times> files_struct \<times> vfs) option" where
  "file_close k fs v = do {
     (ret, i) \<leftarrow> fd2file k fs;
     if ret \<noteq> 0 then Some (ret, fs, v)
     else do { (fs, v) \<leftarrow> fd_array_close i fs v; Some (0, fs, v) } }"

text \<open>\<open>file_read\<close> and \<open>file_write\<close> into and from the \<open>len\<close> bytes of \<open>buf\<close>. Result: return code, \<open>*copied_store\<close>, buffer, table, state.\<close>

definition file_io ::
    "device_io \<Rightarrow> bool \<Rightarrow> nat \<Rightarrow> bytes \<Rightarrow> nat \<Rightarrow> files_struct \<Rightarrow> vfs \<Rightarrow> (int \<times> nat \<times> bytes \<times> files_struct \<times> vfs) option" where
  "file_io dio wr i buf len fs v = do {
     fs \<leftarrow> fd_array_acquire i fs;
     fl \<leftarrow> get_file i fs;
     n \<leftarrow> f_node fl;
     let iob = iobuf_init buf 0 len (pos fl);
     (ret, iob, v) \<leftarrow> (if wr then vop_write dio n iob v else vop_read dio n iob v);
     let copied = iobuf_used iob;
     let fs = (if status fl = FD_OPENED then put_file i (fl\<lparr>pos := s64 (pos fl + int copied)\<rparr>) fs else fs);
     (fs, v) \<leftarrow> fd_array_release i fs v;
     Some (ret, copied, io_buf iob, fs, v) }"

definition file_read ::
    "device_io \<Rightarrow> int \<Rightarrow> bytes \<Rightarrow> nat \<Rightarrow> files_struct \<Rightarrow> vfs \<Rightarrow> (int \<times> nat \<times> bytes \<times> files_struct \<times> vfs) option" where
  "file_read dio k buf len fs v = do {
     (ret, i) \<leftarrow> fd2file k fs;
     if ret \<noteq> 0 then Some (ret, 0, buf, fs, v)
     else do {
       fl \<leftarrow> get_file i fs;
       if \<not> readable fl then Some (- E_INVAL, 0, buf, fs, v)
       else file_io dio False i buf len fs v } }"

definition file_write ::
    "device_io \<Rightarrow> int \<Rightarrow> bytes \<Rightarrow> nat \<Rightarrow> files_struct \<Rightarrow> vfs \<Rightarrow> (int \<times> nat \<times> bytes \<times> files_struct \<times> vfs) option" where
  "file_write dio k buf len fs v = do {
     (ret, i) \<leftarrow> fd2file k fs;
     if ret \<noteq> 0 then Some (ret, 0, buf, fs, v)
     else do {
       fl \<leftarrow> get_file i fs;
       if \<not> writable fl then Some (- E_INVAL, 0, buf, fs, v)
       else file_io dio True i buf len fs v } }"


definition LSEEK_SET :: int where "LSEEK_SET = 0"
definition LSEEK_CUR :: int where "LSEEK_CUR = 1"
definition LSEEK_END :: int where "LSEEK_END = 2"

definition seek_target :: "kfile \<Rightarrow> int \<Rightarrow> int \<Rightarrow> vfs \<Rightarrow> (int \<times> int) option" where
  "seek_target fl p whence v =
     (if whence = LSEEK_SET then Some (0, p)
      else if whence = LSEEK_CUR then Some (0, s64 (p + pos fl))
      else if whence = LSEEK_END
      then do { n \<leftarrow> f_node fl; st \<leftarrow> vop_fstat n v; Some (0, s64 (p + int (st_size st))) }
      else Some (- E_INVAL, p))"

definition file_seek :: "int \<Rightarrow> int \<Rightarrow> int \<Rightarrow> files_struct \<Rightarrow> vfs \<Rightarrow> (int \<times> files_struct \<times> vfs) option" where
  "file_seek k p whence fs v = do {
     (ret, i) \<leftarrow> fd2file k fs;
     if ret \<noteq> 0 then Some (ret, fs, v)
     else do {
       fs \<leftarrow> fd_array_acquire i fs;
       fl \<leftarrow> get_file i fs;
       (ret, p) \<leftarrow> seek_target fl p whence v;
       (ret, fs, v) \<leftarrow>
         (if ret = 0
          then do {
            n \<leftarrow> f_node fl;
            (ret, v) \<leftarrow> vop_tryseek n p v;
            Some (ret, if ret = 0 then put_file i (fl\<lparr>pos := p\<rparr>) fs else fs, v) }
          else Some (ret, fs, v));
       (fs, v) \<leftarrow> fd_array_release i fs v;
       Some (ret, fs, v) } }"

definition file_fstat :: "int \<Rightarrow> files_struct \<Rightarrow> vfs \<Rightarrow> (int \<times> stat option \<times> files_struct \<times> vfs) option" where
  "file_fstat k fs v = do {
     (ret, i) \<leftarrow> fd2file k fs;
     if ret \<noteq> 0 then Some (ret, None, fs, v)
     else do {
       fs \<leftarrow> fd_array_acquire i fs;
       fl \<leftarrow> get_file i fs;
       n \<leftarrow> f_node fl;
       st \<leftarrow> vop_fstat n v;
       (fs, v) \<leftarrow> fd_array_release i fs v;
       Some (0, Some st, fs, v) } }"

definition file_fsync :: "int \<Rightarrow> files_struct \<Rightarrow> vfs \<Rightarrow> (int \<times> files_struct \<times> vfs) option" where
  "file_fsync k fs v = do {
     (ret, i) \<leftarrow> fd2file k fs;
     if ret \<noteq> 0 then Some (ret, fs, v)
     else do {
       fs \<leftarrow> fd_array_acquire i fs;
       fl \<leftarrow> get_file i fs;
       n \<leftarrow> f_node fl;
       (ret, v) \<leftarrow> vop_fsync n v;
       (fs, v) \<leftarrow> fd_array_release i fs v;
       Some (ret, fs, v) } }"

text \<open>\<open>struct dirent\<close>: the offset and the 256 bytes of the name.\<close>

definition file_getdirentry ::
    "bool \<Rightarrow> int \<Rightarrow> int \<Rightarrow> bytes \<Rightarrow> files_struct \<Rightarrow> vfs \<Rightarrow> (int \<times> int \<times> bytes \<times> files_struct \<times> vfs) option" where
  "file_getdirentry ok k off name fs v = do {
     (ret, i) \<leftarrow> fd2file k fs;
     if ret \<noteq> 0 then Some (ret, off, name, fs, v)
     else do {
       fs \<leftarrow> fd_array_acquire i fs;
       fl \<leftarrow> get_file i fs;
       n \<leftarrow> f_node fl;
       (ret, iob, v) \<leftarrow> vop_getdirentry ok n (iobuf_init name 0 256 off) v;
       let off = (if ret = 0 then s64 (off + int (iobuf_used iob)) else off);
       (fs, v) \<leftarrow> fd_array_release i fs v;
       Some (ret, off, io_buf iob, fs, v) } }"

definition file_dup :: "int \<Rightarrow> int \<Rightarrow> files_struct \<Rightarrow> vfs \<Rightarrow> (int \<times> files_struct \<times> vfs) option" where
  "file_dup fd1 fd2 fs v = do {
     (ret, i) \<leftarrow> fd2file fd1 fs;
     if ret \<noteq> 0 then Some (ret, fs, v)
     else do {
       (ret, fs, j) \<leftarrow> fd_array_alloc fd2 fs;
       if ret \<noteq> 0 then Some (ret, fs, v)
       else do {
         from \<leftarrow> get_file i fs;
         (fs, v) \<leftarrow> fd_array_dup j from fs v;
         to \<leftarrow> get_file j fs;
         Some (fd to, fs, v) } } }"

section \<open>File tables of processes (fs.c)\<close>

text \<open>\<open>junk\<close>: the bytes of the freshly allocated array, which is not cleared.\<close>

definition files_create :: "bool \<Rightarrow> kfile list \<Rightarrow> files_struct option" where
  "files_create ok junk = (if ok then Some \<lparr>pwd = None, fd_array = fd_array_init junk, files_count = 0\<rparr> else None)"

fun close_loop :: "bool \<Rightarrow> nat \<Rightarrow> nat \<Rightarrow> files_struct \<Rightarrow> vfs \<Rightarrow> (files_struct \<times> vfs) option" where
  "close_loop chk i 0 fs v = Some (fs, v)"
| "close_loop chk i (Suc k) fs v = do {
     fl \<leftarrow> get_file i fs;
     (fs, v) \<leftarrow> (if status fl = FD_OPENED then fd_array_close i fs v else Some (fs, v));
     fl \<leftarrow> get_file i fs;
     kassert (chk \<longrightarrow> status fl = FD_NONE);
     close_loop chk (Suc i) k fs v }"

definition files_destroy :: "files_struct \<Rightarrow> vfs \<Rightarrow> vfs option" where
  "files_destroy fs v = do {
     kassert (files_count fs = 0);
     v \<leftarrow> (case pwd fs of None \<Rightarrow> Some v | Some n \<Rightarrow> do { (_, v) \<leftarrow> inode_ref_dec n v; Some v });
     (fs, v) \<leftarrow> close_loop True 0 FILES_STRUCT_NENTRY fs v;
     Some v }"

definition files_closeall :: "files_struct \<Rightarrow> vfs \<Rightarrow> (files_struct \<times> vfs) option" where
  "files_closeall fs v = do {
     kassert (files_count fs > 0);
     close_loop False 2 (FILES_STRUCT_NENTRY - 2) fs v }"

fun dup_files_loop :: "nat \<Rightarrow> nat \<Rightarrow> files_struct \<Rightarrow> files_struct \<Rightarrow> vfs \<Rightarrow> (files_struct \<times> vfs) option" where
  "dup_files_loop i 0 to from v = Some (to, v)"
| "dup_files_loop i (Suc k) to from v = do {
     fl \<leftarrow> get_file i from;
     (to, v) \<leftarrow>
       (if status fl = FD_OPENED
        then do { t \<leftarrow> get_file i to; fd_array_dup i fl (put_file i (t\<lparr>status := FD_INIT\<rparr>) to) v }
        else Some (to, v));
     dup_files_loop (Suc i) k to from v }"

definition dup_files :: "files_struct \<Rightarrow> files_struct \<Rightarrow> vfs \<Rightarrow> (int \<times> files_struct \<times> vfs) option" where
  "dup_files to from v = do {
     kassert (files_count to = 0 \<and> files_count from > 0);
     let to = to\<lparr>pwd := pwd from\<rparr>;
     v \<leftarrow> (case pwd to of None \<Rightarrow> Some v | Some n \<Rightarrow> do { (_, v) \<leftarrow> inode_ref_inc n v; Some v });
     (to, v) \<leftarrow> dup_files_loop 0 FILES_STRUCT_NENTRY to from v;
     Some (0, to, v) }"


section \<open>Reference counting\<close>

text \<open>\<open>bump r c v\<close>: the state with \<open>r n\<close> more references and \<open>c n\<close> more opens of each node \<open>n\<close>.\<close>

definition count_add :: "int \<Rightarrow> int \<Rightarrow> inode \<Rightarrow> inode" where
  "count_add a b i = \<lparr>in_info = in_info i, ref_count = ref_count i + a, open_count = open_count i + b\<rparr>"

definition bump :: "(nat \<Rightarrow> int) \<Rightarrow> (nat \<Rightarrow> int) \<Rightarrow> vfs \<Rightarrow> vfs" where
  "bump r c v = v\<lparr>nodes := (\<lambda>n. map_option (count_add (r n) (c n)) (nodes v n))\<rparr>"

lemma bump_0: "bump (\<lambda>_. 0) (\<lambda>_. 0) v = v"
proof -
  have "count_add 0 0 = (\<lambda>i. i)" by (intro ext) (simp add: count_add_def)
  then show ?thesis by (simp add: bump_def option.map_ident)
qed

lemma bump_node: "nodes v n = Some i \<Longrightarrow> nodes (bump r c v) n = Some (count_add (r n) (c n) i)"
  by (simp add: bump_def)

lemma bump_set:
  assumes "nodes v n = Some i"
  shows "set_node n (count_add a b i) (bump r c v) = bump (r(n := a)) (c(n := b)) v"
proof -
  have "(\<lambda>m. map_option (count_add (r m) (c m)) (nodes v m))(n := Some (count_add a b i)) =
      (\<lambda>m. map_option (count_add ((r(n := a)) m) ((c(n := b)) m)) (nodes v m))"
    using assms by (intro ext) simp
  then show ?thesis by (simp add: bump_def set_node_def)
qed

text \<open>Two nodes of a state: in use, so that no count below reaches zero.\<close>

definition ref_held :: "vfs \<Rightarrow> nat \<Rightarrow> bool" where
  "ref_held v n \<longleftrightarrow> (\<exists>i. nodes v n = Some i \<and> ref_count i > 0)"

definition open_held :: "vfs \<Rightarrow> nat \<Rightarrow> bool" where
  "open_held v n \<longleftrightarrow> (\<exists>i. nodes v n = Some i \<and> ref_count i > 0 \<and> open_count i > 0)"

lemma count_add_upd:
  "(count_add a b i)\<lparr>ref_count := x\<rparr> = count_add (x - ref_count i) b i"
  "(count_add a b i)\<lparr>open_count := y\<rparr> = count_add a (y - open_count i) i"
  "ref_count (count_add a b i) = ref_count i + a" "open_count (count_add a b i) = open_count i + b"
  by (simp_all add: count_add_def)

lemmas bump_simps = bump_node bump_set count_add_upd kassert_def algebra_simps

lemma ref_inc_bump: "ref_held v n \<Longrightarrow> \<exists>k. inode_ref_inc n (bump r c v) = Some (k, bump (r(n := r n + 1)) c v)"
  unfolding ref_held_def by (auto simp: inode_ref_inc_def bump_simps)

lemma open_inc_bump: "open_held v n \<Longrightarrow> \<exists>k. inode_open_inc n (bump r c v) = Some (k, bump r (c(n := c n + 1)) v)"
  unfolding open_held_def by (auto simp: inode_open_inc_def bump_simps)

lemma ref_dec_bump:
  assumes "ref_held v n" "r n > 0"
  shows "\<exists>k. inode_ref_dec n (bump r c v) = Some (k, bump (r(n := r n - 1)) c v)"
proof -
  obtain i where i: "nodes v n = Some i" "ref_count i > 0" using assms(1) by (auto simp: ref_held_def)
  have "ref_count i + r n \<noteq> 1" "ref_count i + r n > 0" using i assms(2) by linarith+
  then show ?thesis using i by (intro exI [of _ "ref_count i + r n - 1"]) (simp add: inode_ref_dec_def bump_simps Let_def)
qed

lemma open_dec_bump:
  assumes "open_held v n" "c n > 0"
  shows "\<exists>k. inode_open_dec n (bump r c v) = Some (k, bump r (c(n := c n - 1)) v)"
proof -
  obtain i where i: "nodes v n = Some i" "open_count i > 0" using assms(1) by (auto simp: open_held_def)
  have "open_count i + c n \<noteq> 1" "open_count i + c n > 0" using i assms(2) by linarith+
  then show ?thesis using i by (intro exI [of _ "open_count i + c n - 1"]) (simp add: inode_open_dec_def bump_simps Let_def)
qed

lemma open_ref_held: "open_held v n \<Longrightarrow> ref_held v n"
  by (auto simp: open_held_def ref_held_def)

lemma vfs_close_bump:
  assumes "open_held v n" "r n > 0" "c n > 0"
  shows "vfs_close n (bump r c v) = Some (0, bump (r(n := r n - 1)) (c(n := c n - 1)) v)"
  using ref_dec_bump [of v n r "c(n := c n - 1)", OF open_ref_held [OF assms(1)] assms(2)] open_dec_bump [of v n c r, OF assms(1,3)]
  by (auto simp: vfs_close_def)

text \<open>How many open descriptors of a table refer to a node.\<close>

definition held :: "kfile list \<Rightarrow> nat \<Rightarrow> int" where
  "held fls n = int (length (filter (\<lambda>fl. status fl = FD_OPENED \<and> f_node fl = Some n) fls))"

lemma held_Nil [simp]: "held [] n = 0"
  by (simp add: held_def)

lemma held_Cons: "held (fl # fls) n = held fls n + (if status fl = FD_OPENED \<and> f_node fl = Some n then 1 else 0)"
  by (simp add: held_def)

lemma held_nonneg [simp]: "0 \<le> held fls n"
  by (simp add: held_def)

text \<open>An entry that is free or open with a node in use.\<close>

definition entry_ok :: "vfs \<Rightarrow> kfile \<Rightarrow> bool" where
  "entry_ok v fl \<longleftrightarrow> status fl = FD_NONE \<or>
     status fl = FD_OPENED \<and> f_open_count fl = 1 \<and> (\<exists>n. f_node fl = Some n \<and> open_held v n)"

definition mirror :: "kfile \<Rightarrow> kfile \<Rightarrow> kfile" where
  "mirror t fl = (if status fl = FD_OPENED
     then t\<lparr>pos := pos fl, readable := readable fl, writable := writable fl, f_node := f_node fl, status := FD_OPENED,
            f_open_count := f_open_count t + 1\<rparr>
     else t)"

lemma put_file_array [simp]: "fd_array (put_file i fl fs) = (fd_array fs)[i := fl]"
  "pwd (put_file i fl fs) = pwd fs" "files_count (put_file i fl fs) = files_count fs"
  by (simp_all add: put_file_def)

lemma get_put_file [simp]: "i < length (fd_array fs) \<Longrightarrow> get_file i (put_file i fl fs) = Some fl"
  by (simp add: get_file_def)

lemma put_put_file [simp]: "put_file i a (put_file i b fs) = put_file i a fs"
  by (simp add: put_file_def)

lemma fd_array_dup_bump:
  assumes "i < length (fd_array to)" "entry_ok v fl" "status fl = FD_OPENED" "f_node fl = Some n"
  shows "fd_array_dup i fl (put_file i (t\<lparr>status := FD_INIT\<rparr>) to) (bump r c v) =
    Some (put_file i (mirror t fl) to, bump (r(n := r n + 1)) (c(n := c n + 1)) v)"
proof -
  have h: "open_held v n" using assms by (auto simp: entry_ok_def)
  show ?thesis
    using ref_inc_bump [OF open_ref_held [OF h], of r c] open_inc_bump [OF h, of "r(n := r n + 1)" c] assms
    by (auto simp: fd_array_dup_def kassert_def fd_array_open_def mirror_def)
qed

lemma dup_files_loop_bump:
  assumes "i + k = length (fd_array from)" "length (fd_array to) = length (fd_array from)"
    and "\<forall>fl\<in>set (drop i (fd_array from)). entry_ok v fl"
  shows "dup_files_loop i k to from (bump r c v) =
    Some (to\<lparr>fd_array := take i (fd_array to) @ map2 mirror (drop i (fd_array to)) (drop i (fd_array from))\<rparr>,
      bump (\<lambda>n. r n + held (drop i (fd_array from)) n) (\<lambda>n. c n + held (drop i (fd_array from)) n) v)"
  using assms
proof (induction k arbitrary: i to r c)
  case 0
  then show ?case by simp
next
  case (Suc k)
  let ?fl = "fd_array from ! i" and ?t = "fd_array to ! i"
  have i: "i < length (fd_array from)" "i < length (fd_array to)" using Suc.prems by auto
  have d: "drop i (fd_array from) = ?fl # drop (Suc i) (fd_array from)" "drop i (fd_array to) = ?t # drop (Suc i) (fd_array to)"
    using i by (simp_all add: Cons_nth_drop_Suc)
  have e: "entry_ok v ?fl" "\<forall>fl\<in>set (drop (Suc i) (fd_array from)). entry_ok v fl" using Suc.prems(3) unfolding d by auto
  define to' where "to' = put_file i (mirror ?t ?fl) to"
  define o1 where "o1 n = (if status ?fl = FD_OPENED \<and> f_node ?fl = Some n then 1 else 0 :: int)" for n
  have g: "get_file i to = Some ?t" "get_file i from = Some ?fl" using i by (simp_all add: get_file_def)
  have step: "dup_files_loop i (Suc k) to from (bump r c v) = dup_files_loop (Suc i) k to' from (bump (\<lambda>n. r n + o1 n) (\<lambda>n. c n + o1 n) v)"
  proof (cases "status ?fl = FD_OPENED")
    case True
    then obtain n where n: "f_node ?fl = Some n" using e(1) by (auto simp: entry_ok_def)
    have "(\<lambda>m. r m + o1 m) = r(n := r n + 1)" "(\<lambda>m. c m + o1 m) = c(n := c n + 1)" using True n by (auto simp: o1_def)
    then show ?thesis using True g fd_array_dup_bump [OF i(2) e(1) True n] by (simp add: to'_def)
  next
    case False
    then have "to' = to" by (simp add: to'_def mirror_def put_file_def)
    then show ?thesis using False g by (simp add: o1_def)
  qed
  have l: "length (fd_array to') = length (fd_array from)" using Suc.prems(2) by (simp add: to'_def)
  have ih: "dup_files_loop (Suc i) k to' from (bump (\<lambda>n. r n + o1 n) (\<lambda>n. c n + o1 n) v) =
      Some (to'\<lparr>fd_array := take (Suc i) (fd_array to') @ map2 mirror (drop (Suc i) (fd_array to')) (drop (Suc i) (fd_array from))\<rparr>,
        bump (\<lambda>n. r n + o1 n + held (drop (Suc i) (fd_array from)) n) (\<lambda>n. c n + o1 n + held (drop (Suc i) (fd_array from)) n) v)"
    by (rule Suc.IH) (use Suc.prems l e in auto)
  have a: "take (Suc i) (fd_array to') @ map2 mirror (drop (Suc i) (fd_array to')) (drop (Suc i) (fd_array from)) =
      take i (fd_array to) @ map2 mirror (drop i (fd_array to)) (drop i (fd_array from))"
    unfolding d using i by (simp add: to'_def take_Suc_conv_app_nth)
  have h: "o1 n + held (drop (Suc i) (fd_array from)) n = held (drop i (fd_array from)) n" for n
    unfolding d by (simp add: held_Cons o1_def)
  have f: "to'\<lparr>fd_array := x\<rparr> = to\<lparr>fd_array := x\<rparr>" for x by (simp add: to'_def put_file_def)
  show ?case unfolding step ih a f by (simp add: h add.assoc)
qed


lemma fd_array_close_bump:
  assumes "i < length (fd_array fs)" "fd_array fs ! i = fl" "status fl = FD_OPENED" "f_open_count fl = 1" "f_node fl = Some n" "open_held v n"
    and "r n > 0" "c n > 0"
  shows "fd_array_close i fs (bump r c v) =
    Some (put_file i (fl\<lparr>f_open_count := 0, status := FD_NONE\<rparr>) fs, bump (r(n := r n - 1)) (c(n := c n - 1)) v)"
proof -
  have g: "get_file i fs = Some fl" using assms by (simp add: get_file_def)
  show ?thesis using assms g vfs_close_bump [of v n r c, OF assms(6-8)]
    by (simp add: fd_array_close_def kassert_def fd_array_free_def)
qed

lemma close_loop_bump:
  assumes "i + k = length (fd_array fs)" and "\<forall>fl\<in>set (drop i (fd_array fs)). entry_ok v fl"
    and "\<And>n. r n \<ge> held (drop i (fd_array fs)) n" "\<And>n. c n \<ge> held (drop i (fd_array fs)) n"
  shows "\<exists>fs'. close_loop True i k fs (bump r c v) =
    Some (fs', bump (\<lambda>n. r n - held (drop i (fd_array fs)) n) (\<lambda>n. c n - held (drop i (fd_array fs)) n) v)"
  using assms
proof (induction k arbitrary: i fs r c)
  case 0
  then show ?case by simp
next
  case (Suc k)
  let ?fl = "fd_array fs ! i" and ?rest = "drop (Suc i) (fd_array fs)"
  have i: "i < length (fd_array fs)" using Suc.prems(1) by simp
  have d: "drop i (fd_array fs) = ?fl # ?rest" using i by (simp add: Cons_nth_drop_Suc)
  have e: "entry_ok v ?fl" "\<forall>fl\<in>set ?rest. entry_ok v fl" using Suc.prems(2) unfolding d by auto
  define o1 where "o1 n = (if status ?fl = FD_OPENED \<and> f_node ?fl = Some n then 1 else 0 :: int)" for n
  have h: "held (drop i (fd_array fs)) n = o1 n + held ?rest n" for n unfolding d by (simp add: held_Cons o1_def)
  have g: "get_file i fs = Some ?fl" using i by (simp add: get_file_def)
  obtain fs' where fs': "close_loop True i (Suc k) fs (bump r c v) = close_loop True (Suc i) k fs' (bump (\<lambda>n. r n - o1 n) (\<lambda>n. c n - o1 n) v)"
      "drop (Suc i) (fd_array fs') = ?rest" "length (fd_array fs') = length (fd_array fs)"
  proof (cases "status ?fl = FD_OPENED")
    case True
    then obtain n where n: "f_node ?fl = Some n" "open_held v n" "f_open_count ?fl = 1" using e(1) by (auto simp: entry_ok_def)
    have o: "o1 n = 1" using True n by (simp add: o1_def)
    have rc: "r n > 0" "c n > 0" using Suc.prems(3,4) [of n] held_nonneg [of ?rest n] unfolding h o by linarith+
    have "(\<lambda>m. r m - o1 m) = r(n := r n - 1)" "(\<lambda>m. c m - o1 m) = c(n := c n - 1)" using True n by (auto simp: o1_def)
    then show ?thesis using fd_array_close_bump [of i fs _ n v r c, OF i refl True n(3,1,2) rc] True g i
      by (intro that [of "put_file i (?fl\<lparr>f_open_count := 0, status := FD_NONE\<rparr>) fs"]) (simp_all add: kassert_def)
  next
    case False
    then have "status ?fl = FD_NONE" using e(1) by (auto simp: entry_ok_def)
    then show ?thesis using g by (intro that [of fs]) (simp_all add: o1_def kassert_def)
  qed
  have "\<exists>fs''. close_loop True (Suc i) k fs' (bump (\<lambda>n. r n - o1 n) (\<lambda>n. c n - o1 n) v) =
      Some (fs'', bump (\<lambda>n. r n - o1 n - held (drop (Suc i) (fd_array fs')) n) (\<lambda>n. c n - o1 n - held (drop (Suc i) (fd_array fs')) n) v)"
    by (rule Suc.IH) (use Suc.prems(1,3,4) fs'(2,3) e(2) in \<open>auto simp: h le_diff_eq add.commute\<close>)
  then show ?case unfolding fs'(1,2) h by (simp add: diff_diff_eq)
qed

lemma entry_ok_mirror: "entry_ok v fl \<Longrightarrow> status t = FD_NONE \<Longrightarrow> f_open_count t = 0 \<Longrightarrow> entry_ok v (mirror t fl)"
  by (auto simp: entry_ok_def mirror_def)

lemma held_mirror:
  assumes "length ts = length fls" "\<forall>t\<in>set ts. status t = FD_NONE" "\<forall>fl\<in>set fls. entry_ok v fl"
  shows "held (map2 mirror ts fls) n = held fls n"
  using assms by (induction ts fls rule: list_induct2) (auto simp: held_Cons mirror_def entry_ok_def)

text \<open>A table of a running process: all entries free or open once, the working directory in use.\<close>

definition files_ok :: "vfs \<Rightarrow> files_struct \<Rightarrow> bool" where
  "files_ok v fs \<longleftrightarrow> length (fd_array fs) = FILES_STRUCT_NENTRY \<and> (\<forall>fl\<in>set (fd_array fs). entry_ok v fl) \<and>
     (\<forall>n. pwd fs = Some n \<longrightarrow> ref_held v n) \<and> files_count fs > 0"

definition cwd_refs :: "files_struct \<Rightarrow> nat \<Rightarrow> int" where
  "cwd_refs fs n = (if pwd fs = Some n then 1 else 0)"

lemma dup_files_bump:
  assumes to: "files_create True junk = Some to" "length junk = FILES_STRUCT_NENTRY" and fr: "files_ok v from"
  shows "\<exists>to' v'. dup_files to from v = Some (0, to', v') \<and> pwd to' = pwd from \<and>
    fd_array to' = map2 mirror (fd_array to) (fd_array from) \<and>
    v' = bump (\<lambda>n. cwd_refs from n + held (fd_array from) n) (held (fd_array from)) v \<and>
    files_destroy to' v' = Some v"
proof -
  have lf: "length (fd_array from) = FILES_STRUCT_NENTRY" and ef: "\<forall>fl\<in>set (fd_array from). entry_ok v fl"
    and pf: "\<And>n. pwd from = Some n \<Longrightarrow> ref_held v n" and cf: "files_count from > 0" using fr by (auto simp: files_ok_def)
  have t: "pwd to = None" "files_count to = 0" "length (fd_array to) = FILES_STRUCT_NENTRY"
      "\<forall>t\<in>set (fd_array to). status t = FD_NONE \<and> f_open_count t = 0"
    using to by (auto simp: files_create_def fd_array_init_def in_set_enumerate_eq)
  let ?r = "cwd_refs from" and ?a = "map2 mirror (fd_array to) (fd_array from)" and ?to = "to\<lparr>pwd := pwd from\<rparr>"
  have r0: "(\<lambda>n. if pwd from = Some n then 1 else 0) = ?r" by (simp add: cwd_refs_def fun_eq_iff)
  obtain v1 where v1: "(case pwd from of None \<Rightarrow> Some v | Some n \<Rightarrow> do { (_, v) \<leftarrow> inode_ref_inc n v; Some v }) = Some v1" "v1 = bump ?r (\<lambda>_. 0) v"
  proof (cases "pwd from")
    case None
    then have "?r = (\<lambda>_. 0)" by (simp add: cwd_refs_def fun_eq_iff)
    then show ?thesis using None by (intro that [of v]) (simp_all add: bump_0)
  next
    case (Some n)
    then have "?r = (\<lambda>_. 0)(n := 0 + 1)" by (auto simp: cwd_refs_def fun_eq_iff)
    then show ?thesis using Some ref_inc_bump [OF pf [OF Some], of "\<lambda>_. 0" "\<lambda>_. 0"] by (intro that [of "bump ?r (\<lambda>_. 0) v"]) (auto simp: bump_0)
  qed
  have dup: "dup_files_loop 0 FILES_STRUCT_NENTRY ?to from (bump ?r (\<lambda>_. 0) v) =
      Some (?to\<lparr>fd_array := ?a\<rparr>, bump (\<lambda>n. ?r n + held (fd_array from) n) (held (fd_array from)) v)"
    using dup_files_loop_bump [of 0 FILES_STRUCT_NENTRY "from" ?to v ?r "\<lambda>_. 0"] lf t(3) ef by simp
  let ?v = "bump (\<lambda>n. ?r n + held (fd_array from) n) (held (fd_array from)) v" and ?fs = "?to\<lparr>fd_array := ?a\<rparr>"
  have d: "dup_files to from v = Some (0, ?fs, ?v)"
    using t(2) cf v1 dup by (simp add: dup_files_def kassert_def)
  have ha: "held ?a n = held (fd_array from) n" for n by (rule held_mirror) (use t ef lf in auto)
  have ea: "\<forall>fl\<in>set ?a. entry_ok v fl"
  proof
    fix x assume "x \<in> set ?a"
    then obtain a b where "x = mirror a b" "(a, b) \<in> set (zip (fd_array to) (fd_array from))" by auto
    then show "entry_ok v x" using t(4) ef by (auto intro!: entry_ok_mirror dest: set_zip_leftD set_zip_rightD)
  qed
  have p: "(case pwd from of None \<Rightarrow> Some ?v | Some n \<Rightarrow> do { (_, v) \<leftarrow> inode_ref_dec n ?v; Some v }) =
      Some (bump (held (fd_array from)) (held (fd_array from)) v)"
  proof (cases "pwd from")
    case None
    then show ?thesis by (simp add: cwd_refs_def)
  next
    case (Some n)
    have "(\<lambda>m. ?r m + held (fd_array from) m)(n := ?r n + held (fd_array from) n - 1) = held (fd_array from)"
      using Some by (auto simp: cwd_refs_def fun_eq_iff)
    moreover have "?r n + held (fd_array from) n > 0"
      by (rule add_pos_nonneg) (use Some in \<open>simp_all add: cwd_refs_def\<close>)
    ultimately show ?thesis using Some ref_dec_bump [of v n, OF pf [OF Some], of "\<lambda>m. ?r m + held (fd_array from) m" "held (fd_array from)"] by auto
  qed
  have "\<exists>fs'. close_loop True 0 FILES_STRUCT_NENTRY ?fs (bump (held (fd_array from)) (held (fd_array from)) v) = Some (fs', v)"
    using close_loop_bump [of 0 FILES_STRUCT_NENTRY ?fs v "held (fd_array from)" "held (fd_array from)"] ha ea lf t(3) by (simp add: bump_0)
  then have "files_destroy ?fs ?v = Some v" using p t(2) by (auto simp: files_destroy_def kassert_def)
  then show ?thesis using d by (intro exI [of _ ?fs] exI [of _ ?v]) simp
qed

text \<open>C20. Duplicating the file table of a process copies every open descriptor with its position and its mode, and takes exactly
  one reference and one open for each of them and one reference for the working directory; destroying the copy gives
  back exactly these, so that the inodes are as before.\<close>

theorem dup_files_destroy:
  assumes to: "files_create True junk = Some to" "length junk = FILES_STRUCT_NENTRY" and fr: "files_ok v from"
  shows "\<exists>to' v'. dup_files to from v = Some (0, to', v') \<and> pwd to' = pwd from \<and>
    fd_array to' = map2 mirror (fd_array to) (fd_array from) \<and>
    v' = bump (\<lambda>n. cwd_refs from n + held (fd_array from) n) (held (fd_array from)) v \<and>
    files_destroy to' v' = Some v"
  by (rule dup_files_bump [OF assms])

text \<open>A table with descriptors 0 and 1 on node 5 and working directory 5.\<close>

definition closed_file :: kfile where
  "closed_file = \<lparr>status = FD_NONE, readable = False, writable = False, fd = 0, pos = 0, f_node = None, f_open_count = 0\<rparr>"

definition example_files :: files_struct where
  "example_files = \<lparr>pwd = Some 5, fd_array =
     [closed_file\<lparr>status := FD_OPENED, f_node := Some 5, f_open_count := 1\<rparr>,
      closed_file\<lparr>status := FD_OPENED, fd := 1, pos := 7, f_node := Some 5, f_open_count := 1\<rparr>] @ replicate 70 closed_file, files_count = 1\<rparr>"

definition example_nodes :: vfs where
  "example_nodes = example_vfs\<lparr>nodes := [5 \<mapsto> \<lparr>in_info = Device Stdin, ref_count = 3, open_count = 2\<rparr>]\<rparr>"

lemma example_files_ok: "files_ok example_nodes example_files"
  by (auto simp: files_ok_def example_files_def example_nodes_def entry_ok_def closed_file_def open_held_def ref_held_def FILES_STRUCT_NENTRY_def)

theorem dup_files_destroy_witness:
  "\<exists>to' v'. dup_files \<lparr>pwd = None, fd_array = fd_array_init (replicate 72 closed_file), files_count = 0\<rparr> example_files example_nodes = Some (0, to', v') \<and>
     pwd to' = Some 5 \<and> files_destroy to' v' = Some example_nodes"
  using dup_files_destroy [OF _ _ example_files_ok, of "replicate 72 closed_file" "\<lparr>pwd = None, fd_array = fd_array_init (replicate 72 closed_file), files_count = 0\<rparr>"]
  by (auto simp: files_create_def FILES_STRUCT_NENTRY_def example_files_def)

end
