(* ===== verification/Proc.thy ===== *)
theory Proc
  imports Files Timer Page_Table
begin

text \<open>
  Processes, lab8/kern/process/proc.c: creation, identifiers, family links, memory and files of a process, fork, exit,
  wait, kill and sleep.

  A process is the number of its \<open>proc_struct\<close> in the scheduler's state; \<open>allocated\<close> are the structures that have not been
  freed. Address spaces and file tables are in heaps of their own, since processes share them. The list of processes and
  the hash chains are the lists of their members, newest first. A function that gives up the processor is split: the part
  up to and including \<open>schedule\<close> and a part that continues when the process runs again. Trap frames and saved registers
  (\<open>copy_thread\<close>, \<open>forkret\<close>) are not modelled.
\<close>


section \<open>State\<close>

record kernel =
  sched :: sched_state
  mem :: vm
  mms :: "nat \<Rightarrow> mm_struct option"
  ftabs :: "nat \<Rightarrow> files_struct option"
  kvfs :: vfs
  proc_list :: "nat list"
  proc_hash :: "nat \<Rightarrow> nat list"
  nr_process :: int
  initproc :: nat
  last_pid :: int
  next_safe :: int
  allocated :: "nat set"
  boot_pgdir_va :: nat

abbreviation proc :: "kernel \<Rightarrow> nat \<Rightarrow> proc_struct" where
  "proc k p \<equiv> procs (sched k) p"

abbreviation cur :: "kernel \<Rightarrow> nat" where
  "cur k \<equiv> current (sched k)"

definition set_proc :: "nat \<Rightarrow> (proc_struct \<Rightarrow> proc_struct) \<Rightarrow> kernel \<Rightarrow> kernel" where
  "set_proc p f k = k\<lparr>sched := upd_proc p f (sched k)\<rparr>"

definition MAX_PROCESS :: int where "MAX_PROCESS = 4096"
definition MAX_PID :: int where "MAX_PID = MAX_PROCESS * 2"
definition KSTACKPAGE :: nat where "KSTACKPAGE = 2"
definition CLONE_VM :: "32 word" where "CLONE_VM = 0x100"
definition CLONE_FS :: "32 word" where "CLONE_FS = 0x800"

definition pid_hashfn :: "int \<Rightarrow> nat" where
  "pid_hashfn x = hash32 (nat (x mod 2 ^ 32)) 10"

definition kfree_proc :: "nat \<Rightarrow> kernel \<Rightarrow> kernel" where
  "kfree_proc p k = k\<lparr>allocated := allocated k - {p}\<rparr>"

section \<open>Process structures, links and identifiers\<close>

text \<open>\<open>addr\<close> is \<open>None\<close> when \<open>kmalloc\<close> fails, else the address of the new structure. The exit code is not initialised.\<close>

definition alloc_proc :: "nat option \<Rightarrow> kernel \<Rightarrow> nat option \<times> kernel" where
  "alloc_proc addr k = (case addr of
     None \<Rightarrow> (None, k)
   | Some p \<Rightarrow> (Some p, (set_proc p (\<lambda>q. \<lparr>state = PROC_UNINIT, pid = - 1, runs = 0, kstack = 0, need_resched = False, parent = None,
        p_mm = None, p_pgdir = boot_pgdir_pa (sched k), p_flags = 0, p_name = replicate 15 (CHR 0x00) @ drop 15 (p_name q),
        exit_code = exit_code q, wait_state = 0, cptr = None, yptr = None, optr = None, rq = False, time_slice = 0,
        lab6_stride = 0, lab6_priority = 0, filesp = None\<rparr>)
        (k\<lparr>sched := (sched k)\<lparr>run_links := list_init (RunLink p) (run_links (sched k))\<rparr>\<rparr>))
        \<lparr>allocated := insert p (allocated k)\<rparr>))"

definition set_links :: "nat \<Rightarrow> kernel \<Rightarrow> kernel option" where
  "set_links p k = do {
     let k = k\<lparr>proc_list := p # proc_list k\<rparr>;
     q \<leftarrow> parent (proc k p);
     let old = cptr (proc k q);
     let k = set_proc p (\<lambda>x. x\<lparr>yptr := None, optr := old\<rparr>) k;
     let k = (case old of None \<Rightarrow> k | Some sib \<Rightarrow> set_proc sib (\<lambda>x. x\<lparr>yptr := Some p\<rparr>) k);
     let k = set_proc q (\<lambda>x. x\<lparr>cptr := Some p\<rparr>) k;
     Some (k\<lparr>nr_process := nr_process k + 1\<rparr>) }"

definition remove_links :: "nat \<Rightarrow> kernel \<Rightarrow> kernel option" where
  "remove_links p k = do {
     let k = k\<lparr>proc_list := remove1 p (proc_list k)\<rparr>;
     let k = (case optr (proc k p) of None \<Rightarrow> k | Some sib \<Rightarrow> set_proc sib (\<lambda>x. x\<lparr>yptr := yptr (proc k p)\<rparr>) k);
     k \<leftarrow> (case yptr (proc k p) of
         Some sib \<Rightarrow> Some (set_proc sib (\<lambda>x. x\<lparr>optr := optr (proc k p)\<rparr>) k)
       | None \<Rightarrow> do { q \<leftarrow> parent (proc k p); Some (set_proc q (\<lambda>x. x\<lparr>cptr := optr (proc k p)\<rparr>) k) });
     Some (k\<lparr>nr_process := nr_process k - 1\<rparr>) }"

text \<open>One pass of \<open>get_pid\<close> over the process list: whether to repeat, \<open>last_pid\<close> and \<open>next_safe\<close>.\<close>

fun pid_scan :: "int list \<Rightarrow> int \<Rightarrow> int \<Rightarrow> bool \<times> int \<times> int" where
  "pid_scan [] l n = (False, l, n)"
| "pid_scan (p # ps) l n =
     (if p = l
      then if l + 1 \<ge> n then (True, if l + 1 \<ge> MAX_PID then 1 else l + 1, MAX_PID) else pid_scan ps (l + 1) n
      else if p > l \<and> n > p then pid_scan ps l p
      else pid_scan ps l n)"

partial_function (option) pid_repeat :: "int list \<Rightarrow> int \<Rightarrow> int \<Rightarrow> (int \<times> int) option" where
  "pid_repeat ps l n = (case pid_scan ps l n of (again, l, n) \<Rightarrow> if again then pid_repeat ps l n else Some (l, n))"

definition get_pid :: "kernel \<Rightarrow> (int \<times> kernel) option" where
  "get_pid k =
     (let l = last_pid k + 1; ps = map (\<lambda>p. pid (proc k p)) (proc_list k) in
      if l \<ge> MAX_PID \<or> l \<ge> next_safe k
      then do {
        (l, n) \<leftarrow> pid_repeat ps (if l \<ge> MAX_PID then 1 else l) MAX_PID;
        Some (l, k\<lparr>last_pid := l, next_safe := n\<rparr>) }
      else Some (l, k\<lparr>last_pid := l\<rparr>))"

definition hash_proc :: "nat \<Rightarrow> kernel \<Rightarrow> kernel" where
  "hash_proc p k = (let h = pid_hashfn (pid (proc k p)) in k\<lparr>proc_hash := (proc_hash k)(h := p # proc_hash k h)\<rparr>)"

definition unhash_proc :: "nat \<Rightarrow> kernel \<Rightarrow> kernel" where
  "unhash_proc p k = (let h = pid_hashfn (pid (proc k p)) in k\<lparr>proc_hash := (proc_hash k)(h := remove1 p (proc_hash k h))\<rparr>)"

definition find_proc :: "int \<Rightarrow> kernel \<Rightarrow> nat option" where
  "find_proc n k =
     (if 0 < n \<and> n < MAX_PID then List.find (\<lambda>p. pid (proc k p) = n) (proc_hash k (pid_hashfn n)) else None)"


section \<open>Resources of a process\<close>

text \<open>A kernel stack is the index of its first frame.\<close>

definition setup_kstack :: "nat \<Rightarrow> kernel \<Rightarrow> (int \<times> kernel) option" where
  "setup_kstack p k = do {
     (r, pm) \<leftarrow> default_alloc_pages KSTACKPAGE (pmm (mem k));
     let k = k\<lparr>mem := (mem k)\<lparr>pmm := pm\<rparr>\<rparr>;
     case r of
       None \<Rightarrow> Some (- E_NO_MEM, k)
     | Some page \<Rightarrow> do { kva \<leftarrow> page2kva (mem k) page; Some (0, set_proc p (\<lambda>x. x\<lparr>kstack := kva\<rparr>) k) } }"

definition put_kstack :: "nat \<Rightarrow> kernel \<Rightarrow> kernel option" where
  "put_kstack p k = do {
     pm \<leftarrow> default_free_pages (kstack (proc k p)) KSTACKPAGE (pmm (mem k));
     Some (k\<lparr>mem := (mem k)\<lparr>pmm := pm\<rparr>\<rparr>) }"

definition setup_pgdir :: "nat \<Rightarrow> mm_struct \<Rightarrow> vm \<Rightarrow> (int \<times> mm_struct \<times> vm) option" where
  "setup_pgdir boot mm s = do {
     (r, s) \<leftarrow> alloc_page s;
     case r of
       None \<Rightarrow> Some (- E_NO_MEM, mm, s)
     | Some page \<Rightarrow> do {
         dir \<leftarrow> page2kva s page;
         Some (0, mm\<lparr>pgdir := Some dir\<rparr>, set_frame dir (frames s boot) s) } }"

definition put_pgdir :: "mm_struct \<Rightarrow> vm \<Rightarrow> vm option" where
  "put_pgdir mm s = do { dir \<leftarrow> pgdir mm; free_page dir s }"

text \<open>\<open>good_mm\<close>: one more user of the memory at address \<open>a\<close>.\<close>

definition good_mm :: "nat \<Rightarrow> nat \<Rightarrow> mm_struct \<Rightarrow> kernel \<Rightarrow> (int \<times> kernel) option" where
  "good_mm p a mm k = do {
     dir \<leftarrow> pgdir mm;
     Some (0, set_proc p (\<lambda>x. x\<lparr>p_mm := Some a, p_pgdir := page2pa dir\<rparr>)
       (k\<lparr>mms := (mms k)(a \<mapsto> mm\<lparr>mm_count := mm_count mm + 1\<rparr>)\<rparr>)) }"

text \<open>\<open>ok\<close>, \<open>ks\<close> and \<open>a\<close>: the allocations of \<open>mm_create\<close> and of the areas, and the address of the new memory.\<close>

definition copy_mm :: "bool \<Rightarrow> bool list \<Rightarrow> nat \<Rightarrow> 32 word \<Rightarrow> nat \<Rightarrow> kernel \<Rightarrow> (int \<times> kernel) option" where
  "copy_mm ok ks a flags p k =
     (case p_mm (proc k (cur k)) of
        None \<Rightarrow> Some (0, k)
      | Some old \<Rightarrow> do {
          oldmm \<leftarrow> mms k old;
          if flags AND CLONE_VM \<noteq> 0 then good_mm p old oldmm k
          else case mm_create ok of
              None \<Rightarrow> Some (- E_NO_MEM, k)
            | Some mm \<Rightarrow> do {
                (r, mm, s) \<leftarrow> setup_pgdir (boot_pgdir_va k) mm (mem k);
                if r \<noteq> 0
                then do { mm_destroy mm; Some (- E_NO_MEM, k\<lparr>mem := s\<rparr>) }
                else do {
                  (r, mm, s) \<leftarrow> dup_mmap ks mm oldmm s;
                  if r \<noteq> 0
                  then do {
                    s \<leftarrow> exit_mmap mm s;
                    s \<leftarrow> put_pgdir mm s;
                    mm_destroy mm;
                    Some (r, k\<lparr>mem := s\<rparr>) }
                  else good_mm p a mm (k\<lparr>mem := s\<rparr>) } } })"

definition good_files_struct :: "nat \<Rightarrow> nat \<Rightarrow> files_struct \<Rightarrow> kernel \<Rightarrow> kernel" where
  "good_files_struct p a fs k = set_proc p (\<lambda>x. x\<lparr>filesp := Some a\<rparr>)
     (k\<lparr>ftabs := (ftabs k)(a \<mapsto> fs\<lparr>files_count := files_count fs + 1\<rparr>)\<rparr>)"

definition copy_files :: "bool \<Rightarrow> kfile list \<Rightarrow> nat \<Rightarrow> 32 word \<Rightarrow> nat \<Rightarrow> kernel \<Rightarrow> (int \<times> kernel) option" where
  "copy_files ok junk a flags p k = do {
     old \<leftarrow> filesp (proc k (cur k));
     oldfs \<leftarrow> ftabs k old;
     if flags AND CLONE_FS \<noteq> 0 then Some (0, good_files_struct p old oldfs k)
     else case files_create ok junk of
         None \<Rightarrow> Some (- E_NO_MEM, k)
       | Some fs \<Rightarrow> do {
           (r, fs, v) \<leftarrow> dup_files fs oldfs (kvfs k);
           if r \<noteq> 0 then do { v \<leftarrow> files_destroy fs v; Some (r, k\<lparr>kvfs := v\<rparr>) }
           else Some (0, good_files_struct p a fs (k\<lparr>kvfs := v\<rparr>)) } }"

definition put_files :: "nat \<Rightarrow> kernel \<Rightarrow> kernel option" where
  "put_files p k =
     (case filesp (proc k p) of
        None \<Rightarrow> Some k
      | Some a \<Rightarrow> do {
          fs \<leftarrow> ftabs k a;
          let fs = fs\<lparr>files_count := files_count fs - 1\<rparr>;
          if files_count fs = 0
          then do { v \<leftarrow> files_destroy fs (kvfs k); Some (k\<lparr>kvfs := v, ftabs := (ftabs k)(a := None)\<rparr>) }
          else Some (k\<lparr>ftabs := (ftabs k)(a \<mapsto> fs)\<rparr>) })"

section \<open>fork\<close>

text \<open>The outcomes of the allocations a fork makes.\<close>

record fork_alloc =
  fa_proc :: "nat option"
  fa_mm_ok :: bool
  fa_vmas :: "bool list"
  fa_mm :: nat
  fa_files_ok :: bool
  fa_junk :: "kfile list"
  fa_files :: nat

definition k_wakeup :: "sched_class \<Rightarrow> nat \<Rightarrow> kernel \<Rightarrow> kernel option" where
  "k_wakeup cls p k = do { s \<leftarrow> wakeup_proc cls p (sched k); Some (k\<lparr>sched := s\<rparr>) }"

definition do_fork :: "sched_class \<Rightarrow> fork_alloc \<Rightarrow> 32 word \<Rightarrow> kernel \<Rightarrow> (int \<times> kernel) option" where
  "do_fork cls fa flags k =
     (if nr_process k \<ge> MAX_PROCESS then Some (- E_NO_FREE_PROC, k)
      else case alloc_proc (fa_proc fa) k of
        (None, k) \<Rightarrow> Some (- E_NO_MEM, k)
      | (Some p, k) \<Rightarrow> do {
          let k = set_proc p (\<lambda>x. x\<lparr>parent := Some (cur k)\<rparr>) k;
          kassert (wait_state (proc k (cur k)) = 0);
          (r, k) \<leftarrow> setup_kstack p k;
          if r \<noteq> 0 then Some (- E_NO_MEM, kfree_proc p k)
          else do {
            (r, k) \<leftarrow> copy_mm (fa_mm_ok fa) (fa_vmas fa) (fa_mm fa) flags p k;
            if r \<noteq> 0 then do { k \<leftarrow> put_kstack p k; Some (- E_NO_MEM, kfree_proc p k) }
            else do {
              (n, k) \<leftarrow> get_pid k;
              let k = hash_proc p (set_proc p (\<lambda>x. x\<lparr>pid := n\<rparr>) k);
              k \<leftarrow> set_links p k;
              k \<leftarrow> k_wakeup cls p k;
              (r, k) \<leftarrow> copy_files (fa_files_ok fa) (fa_junk fa) (fa_files fa) flags p k;
              if r \<noteq> 0 then do { k \<leftarrow> put_kstack p k; Some (n, kfree_proc p k) }
              else Some (n, k) } } })"

definition kernel_thread :: "sched_class \<Rightarrow> fork_alloc \<Rightarrow> 32 word \<Rightarrow> kernel \<Rightarrow> (int \<times> kernel) option" where
  "kernel_thread cls fa flags k = do_fork cls fa (flags OR CLONE_VM) k"

section \<open>exit, wait and kill\<close>

definition exit_mm :: "kernel \<Rightarrow> kernel option" where
  "exit_mm k =
     (case p_mm (proc k (cur k)) of
        None \<Rightarrow> Some k
      | Some a \<Rightarrow> do {
          mm \<leftarrow> mms k a;
          let mm = mm\<lparr>mm_count := mm_count mm - 1\<rparr>;
          let k = k\<lparr>sched := (sched k)\<lparr>satp := boot_pgdir_pa (sched k)\<rparr>\<rparr>;
          k \<leftarrow> (if mm_count mm = 0
               then do {
                 s \<leftarrow> exit_mmap mm (mem k);
                 s \<leftarrow> put_pgdir mm s;
                 mm_destroy mm;
                 Some (k\<lparr>mem := s, mms := (mms k)(a := None)\<rparr>) }
               else Some (k\<lparr>mms := (mms k)(a \<mapsto> mm)\<rparr>));
          let k = set_proc (cur k) (\<lambda>x. x\<lparr>p_mm := None\<rparr>) k;
          put_files (cur k) k })"

text \<open>One round of the loop that hands the children of the current process to \<open>initproc\<close>: the pointers, then the wakeup.\<close>

definition adopt :: "nat \<Rightarrow> kernel \<Rightarrow> kernel" where
  "adopt p k =
     (let k = set_proc (cur k) (\<lambda>x. x\<lparr>cptr := optr (proc k p)\<rparr>) k;
          old = cptr (proc k (initproc k));
          k = set_proc p (\<lambda>x. x\<lparr>yptr := None, optr := old\<rparr>) k;
          k = (case old of None \<Rightarrow> k | Some sib \<Rightarrow> set_proc sib (\<lambda>x. x\<lparr>yptr := Some p\<rparr>) k);
          k = set_proc p (\<lambda>x. x\<lparr>parent := Some (initproc k)\<rparr>) k
      in set_proc (initproc k) (\<lambda>x. x\<lparr>cptr := Some p\<rparr>) k)"

definition reparent :: "sched_class \<Rightarrow> nat \<Rightarrow> kernel \<Rightarrow> kernel option" where
  "reparent cls p k =
     (let k = adopt p k in
      if state (proc k p) = PROC_ZOMBIE \<and> wait_state (proc k (initproc k)) = WT_CHILD
      then k_wakeup cls (initproc k) k else Some k)"

partial_function (option) reparent_loop :: "sched_class \<Rightarrow> kernel \<Rightarrow> kernel option" where
  "reparent_loop cls k =
     (case cptr (proc k (cur k)) of
        None \<Rightarrow> Some k
      | Some p \<Rightarrow> Option.bind (reparent cls p k) (reparent_loop cls))"

text \<open>The part of \<open>do_exit\<close> before the final \<open>schedule\<close>.\<close>

definition exit_notify :: "sched_class \<Rightarrow> int \<Rightarrow> kernel \<Rightarrow> kernel option" where
  "exit_notify cls code k = do {
     let k = set_proc (cur k) (\<lambda>x. x\<lparr>state := PROC_ZOMBIE, exit_code := code\<rparr>) k;
     q \<leftarrow> parent (proc k (cur k));
     k \<leftarrow> (if wait_state (proc k q) = WT_CHILD then k_wakeup cls q k else Some k);
     reparent_loop cls k }"

definition do_exit :: "sched_class \<Rightarrow> int \<Rightarrow> kernel \<Rightarrow> kernel option" where
  "do_exit cls code k = do {
     kassert (cur k \<noteq> idleproc (sched k));
     kassert (cur k \<noteq> initproc k);
     k \<leftarrow> exit_mm k;
     k \<leftarrow> exit_notify cls code k;
     let p = cur k;
     s \<leftarrow> schedule cls (sched k);
     kassert (current s \<noteq> p);
     Some (k\<lparr>sched := s\<rparr>) }"


text \<open>The loop over the children: whether there is one, and the first zombie.\<close>

partial_function (option) find_kid :: "(nat \<Rightarrow> proc_struct) \<Rightarrow> nat option \<Rightarrow> bool \<Rightarrow> (bool \<times> nat option) option" where
  "find_kid ps r haskid =
     (case r of
        None \<Rightarrow> Some (haskid, None)
      | Some p \<Rightarrow> if state (ps p) = PROC_ZOMBIE then Some (True, Some p) else find_kid ps (optr (ps p)) True)"

text \<open>The label \<open>found\<close>. The exit code is what the caller's \<open>code_store\<close> receives.\<close>

definition reap :: "nat \<Rightarrow> kernel \<Rightarrow> (int \<times> kernel) option" where
  "reap p k = do {
     kassert (p \<noteq> idleproc (sched k) \<and> p \<noteq> initproc k);
     let code = exit_code (proc k p);
     k \<leftarrow> remove_links p (unhash_proc p k);
     k \<leftarrow> put_kstack p k;
     Some (code, kfree_proc p k) }"

datatype wait_result = Waited int "int option" | Blocked

text \<open>
  \<open>wait_try\<close> is \<open>do_wait\<close> from the label \<open>repeat\<close> to its return or to the call of \<open>schedule\<close> inclusive; \<open>do_wait_resume\<close>
  continues when the process runs again.
\<close>

definition wait_try :: "sched_class \<Rightarrow> int \<Rightarrow> bool \<Rightarrow> kernel \<Rightarrow> (wait_result \<times> kernel) option" where
  "wait_try cls n store k = do {
     (haskid, z) \<leftarrow>
       (if n \<noteq> 0
        then Some (case find_proc n k of
            Some p \<Rightarrow> if parent (proc k p) = Some (cur k)
                      then (True, if state (proc k p) = PROC_ZOMBIE then Some p else None) else (False, None)
          | None \<Rightarrow> (False, None))
        else find_kid (procs (sched k)) (cptr (proc k (cur k))) False);
     case z of
       Some p \<Rightarrow> do { (code, k) \<leftarrow> reap p k; Some (Waited 0 (if store then Some code else None), k) }
     | None \<Rightarrow>
         if haskid
         then do {
           s \<leftarrow> schedule cls (upd_proc (cur k) (\<lambda>x. x\<lparr>state := PROC_SLEEPING, wait_state := WT_CHILD\<rparr>) (sched k));
           Some (Blocked, k\<lparr>sched := s\<rparr>) }
         else Some (Waited (- E_BAD_PROC) None, k) }"

definition do_wait :: "sched_class \<Rightarrow> int \<Rightarrow> nat option \<Rightarrow> kernel \<Rightarrow> (wait_result \<times> kernel) option" where
  "do_wait cls n store k =
     (case store of
        None \<Rightarrow> wait_try cls n False k
      | Some a \<Rightarrow>
          (case p_mm (proc k (cur k)) of
             None \<Rightarrow> if fst (user_mem_check None a 4 True) then wait_try cls n True k else Some (Waited (- E_INVAL) None, k)
           | Some m \<Rightarrow> do {
               mm \<leftarrow> mms k m;
               case user_mem_check (Some mm) a 4 True of (ok, mm') \<Rightarrow> do {
                 let k = k\<lparr>mms := (mms k)(m := mm')\<rparr>;
                 if ok then wait_try cls n True k else Some (Waited (- E_INVAL) None, k) } }))"

definition do_wait_resume :: "sched_class \<Rightarrow> int \<Rightarrow> bool \<Rightarrow> kernel \<Rightarrow> (wait_result \<times> kernel) option" where
  "do_wait_resume cls n store k =
     (if p_flags (proc k (cur k)) AND PF_EXITING \<noteq> 0
      then do { k \<leftarrow> do_exit cls (- E_KILLED) k; Some (Blocked, k) }
      else wait_try cls n store k)"

definition do_kill :: "sched_class \<Rightarrow> int \<Rightarrow> kernel \<Rightarrow> (int \<times> kernel) option" where
  "do_kill cls n k =
     (case find_proc n k of
        None \<Rightarrow> Some (- E_INVAL, k)
      | Some p \<Rightarrow>
          if p_flags (proc k p) AND PF_EXITING = 0
          then do {
            let k = set_proc p (\<lambda>x. x\<lparr>p_flags := p_flags x OR PF_EXITING\<rparr>) k;
            k \<leftarrow> (if wait_state (proc k p) AND WT_INTERRUPTED \<noteq> 0 then k_wakeup cls p k else Some k);
            Some (0, k) }
          else Some (- E_KILLED, k))"

definition do_yield :: "kernel \<Rightarrow> int \<times> kernel" where
  "do_yield k = (0, set_proc (cur k) (\<lambda>x. x\<lparr>need_resched := True\<rparr>) k)"

definition lab6_set_priority :: "32 word \<Rightarrow> kernel \<Rightarrow> kernel" where
  "lab6_set_priority pr k = set_proc (cur k) (\<lambda>x. x\<lparr>lab6_priority := (if pr = 0 then 1 else pr)\<rparr>) k"

text \<open>\<open>do_sleep\<close> up to the call of \<open>schedule\<close> inclusive, with timer \<open>tm\<close> on its stack, and its continuation.\<close>

definition do_sleep :: "sched_class \<Rightarrow> nat \<Rightarrow> nat \<Rightarrow> kernel \<Rightarrow> kernel option" where
  "do_sleep cls tm time k =
     (if time = 0 then Some k
      else do {
        let p = cur k;
        let k = set_proc p (\<lambda>x. x\<lparr>state := PROC_SLEEPING, wait_state := WT_TIMER\<rparr>) k;
        s \<leftarrow> add_timer (timer_init tm (Some p) time) (sched k);
        s \<leftarrow> schedule cls s;
        Some (k\<lparr>sched := s\<rparr>) })"

definition do_sleep_resume :: "nat \<Rightarrow> kernel \<Rightarrow> int \<times> kernel" where
  "do_sleep_resume tm k = (0, k\<lparr>sched := del_timer tm (sched k)\<rparr>)"

section \<open>Start\<close>

text \<open>The code copies 15 bytes whatever the length of the name; the bytes behind its end count as zero here.\<close>

definition set_proc_name :: "nat \<Rightarrow> string \<Rightarrow> kernel \<Rightarrow> kernel" where
  "set_proc_name p name k = set_proc p (\<lambda>x. x\<lparr>p_name := take 15 (name @ replicate 15 (CHR 0x00)) @ [CHR 0x00]\<rparr>) k"

text \<open>\<open>idle\<close>, \<open>ok\<close>, \<open>junk\<close> and \<open>a\<close>: the allocations for \<open>idleproc\<close>; \<open>bootstack\<close> its kernel stack.\<close>

definition proc_init :: "sched_class \<Rightarrow> nat option \<Rightarrow> bool \<Rightarrow> kfile list \<Rightarrow> nat \<Rightarrow> nat \<Rightarrow> fork_alloc \<Rightarrow> kernel \<Rightarrow> kernel option" where
  "proc_init cls idle ok junk a bootstack fa k =
     (case alloc_proc idle (k\<lparr>proc_list := [], proc_hash := (\<lambda>_. [])\<rparr>) of
        (None, _) \<Rightarrow> None
      | (Some p, k) \<Rightarrow> do {
          let k = k\<lparr>sched := (sched k)\<lparr>idleproc := p\<rparr>\<rparr>;
          let k = set_proc p (\<lambda>x. x\<lparr>pid := 0, state := PROC_RUNNABLE, kstack := bootstack, need_resched := True\<rparr>) k;
          fs \<leftarrow> files_create ok junk;
          let k = set_proc_name p ''idle'' (good_files_struct p a fs k);
          let k = k\<lparr>nr_process := nr_process k + 1, sched := (sched k)\<lparr>current := p\<rparr>\<rparr>;
          (n, k) \<leftarrow> kernel_thread cls fa 0 k;
          kassert (n > 0);
          q \<leftarrow> find_proc n k;
          let k = set_proc_name q ''init'' (k\<lparr>initproc := q\<rparr>);
          kassert (pid (proc k (idleproc (sched k))) = 0);
          kassert (pid (proc k (initproc k)) = 1);
          Some k })"


section \<open>Process identifiers are unique\<close>

definition pids :: "kernel \<Rightarrow> int set" where
  "pids k = (\<lambda>p. pid (proc k p)) ` set (proc_list k)"

text \<open>The static variables of \<open>get_pid\<close>: no identifier in use lies strictly between them.\<close>

definition pid_ok :: "int set \<Rightarrow> kernel \<Rightarrow> bool" where
  "pid_ok P k \<longleftrightarrow> 1 \<le> last_pid k \<and> last_pid k \<le> MAX_PID \<and> next_safe k \<le> MAX_PID \<and>
     (\<forall>p\<in>P. \<not> (last_pid k < p \<and> p < next_safe k))"

lemma pid_scan_stop:
  assumes "pid_scan ps l n = (False, l', n')" "l < n"
  shows "l \<le> l' \<and> l' < n' \<and> n' \<le> n \<and> (\<forall>p\<in>set ps. \<not> (l' \<le> p \<and> p < n'))"
  using assms
proof (induction ps l n rule: pid_scan.induct)
  case (2 p ps l n)
  consider "p = l" "l + 1 < n" | "p > l" "n > p" | "p \<noteq> l" "\<not> (p > l \<and> n > p)" using 2(4) by (auto split: if_splits)
  then show ?case
  proof cases
    case 1
    then have r: "l + 1 \<le> l' \<and> l' < n' \<and> n' \<le> n \<and> (\<forall>p\<in>set ps. \<not> (l' \<le> p \<and> p < n'))" using 2(1,4) by auto
    show ?thesis using r 1 by auto
  next
    case 2
    then have r: "l \<le> l' \<and> l' < n' \<and> n' \<le> p \<and> (\<forall>p\<in>set ps. \<not> (l' \<le> p \<and> p < n'))" using "2.IH"(2) "2.prems"(1) by auto
    show ?thesis using r 2 by auto
  next
    case 3
    then have "pid_scan ps l n = (False, l', n')" using "2.prems"(1) by (simp split: if_splits)
    then have r: "l \<le> l' \<and> l' < n' \<and> n' \<le> n \<and> (\<forall>p\<in>set ps. \<not> (l' \<le> p \<and> p < n'))" using "2.IH"(3) 3 "2.prems"(2) by simp
    show ?thesis using r 3 by auto
  qed
qed auto

lemma pid_scan_again:
  assumes "pid_scan ps l n = (True, l', n')" "l < n" "n \<le> MAX_PID"
  shows "n' = MAX_PID \<and> (\<exists>m. l \<le> m \<and> m < MAX_PID \<and> {l..m} \<subseteq> set ps \<and> l' = (if m + 1 \<ge> MAX_PID then 1 else m + 1))"
  using assms
proof (induction ps l n rule: pid_scan.induct)
  case (2 p ps l n)
  consider "p = l" "l + 1 \<ge> n" | "p = l" "l + 1 < n" | "p > l" "n > p" | "p \<noteq> l" "\<not> (p > l \<and> n > p)" by force
  then show ?case
  proof cases
    case 1
    then show ?thesis using "2.prems" by (intro conjI exI [of _ l]) auto
  next
    case 2
    then have s: "pid_scan ps (l + 1) n = (True, l', n')" using "2.prems"(1) by simp
    obtain m where m: "l + 1 \<le> m" "m < MAX_PID" "{l + 1..m} \<subseteq> set ps" "l' = (if m + 1 \<ge> MAX_PID then 1 else m + 1)" "n' = MAX_PID"
      using "2.IH"(1) [OF 2(1) _ s] 2 "2.prems"(3) by auto
    have "{l..m} \<subseteq> insert l {l + 1..m}" by auto
    then have "{l..m} \<subseteq> set (p # ps)" using m(3) 2(1) by auto
    then show ?thesis using m by (intro conjI exI [of _ m]) auto
  next
    case 3
    then have s: "pid_scan ps l p = (True, l', n')" using "2.prems"(1) by simp
    then obtain m where "n' = MAX_PID" "l \<le> m" "m < MAX_PID" "{l..m} \<subseteq> set ps" "l' = (if m + 1 \<ge> MAX_PID then 1 else m + 1)"
      using "2.IH"(2) [OF _ _ s] 3 "2.prems"(3) by auto
    then show ?thesis by (intro conjI exI [of _ m]) auto
  next
    case 4
    then have s: "pid_scan ps l n = (True, l', n')" using "2.prems"(1) by (simp split: if_splits)
    then obtain m where "n' = MAX_PID" "l \<le> m" "m < MAX_PID" "{l..m} \<subseteq> set ps" "l' = (if m + 1 \<ge> MAX_PID then 1 else m + 1)"
      using "2.IH"(3) [OF 4 s] "2.prems"(2,3) by auto
    then show ?thesis by (intro conjI exI [of _ m]) auto
  qed
qed auto

text \<open>While some identifier is free the passes come to an end: none of them moves past it.\<close>

lemma pid_repeat_ok:
  assumes "f \<notin> set ps" "1 \<le> f" "f < MAX_PID" "1 \<le> l" "l < MAX_PID"
  shows "\<exists>l' n'. pid_repeat ps l MAX_PID = Some (l', n') \<and> 1 \<le> l' \<and> l' < n' \<and> n' \<le> MAX_PID \<and> (\<forall>p\<in>set ps. \<not> (l' \<le> p \<and> p < n'))"
  using assms(4,5)
proof (induction "nat (if l \<le> f then f - l else f + MAX_PID - l)" arbitrary: l rule: less_induct)
  case less
  obtain again l' n' where s: "pid_scan ps l MAX_PID = (again, l', n')" by (cases "pid_scan ps l MAX_PID")
  show ?case
  proof (cases again)
    case False
    with s have s: "pid_scan ps l MAX_PID = (False, l', n')" by simp
    note r = pid_scan_stop [OF s less.prems(2)]
    then show ?thesis using s less.prems(1) by (subst pid_repeat.simps) auto
  next
    case True
    with s have s: "pid_scan ps l MAX_PID = (True, l', n')" by simp
    obtain m where m: "n' = MAX_PID" "l \<le> m" "m < MAX_PID" "{l..m} \<subseteq> set ps" "l' = (if m + 1 \<ge> MAX_PID then 1 else m + 1)"
      using pid_scan_again [OF s less.prems(2)] by auto
    have f: "\<not> (l \<le> f \<and> f \<le> m)" using m(4) assms(1) by (auto simp: subset_iff)
    have "nat (if l' \<le> f then f - l' else f + MAX_PID - l') < nat (if l \<le> f then f - l else f + MAX_PID - l)"
      using f m assms(2,3) less.prems by (auto split: if_splits)
    moreover have "1 \<le> l'" "l' < MAX_PID" using m less.prems by (auto simp: MAX_PID_def MAX_PROCESS_def)
    ultimately obtain l'' n'' where "pid_repeat ps l' MAX_PID = Some (l'', n'') \<and> 1 \<le> l'' \<and> l'' < n'' \<and> n'' \<le> MAX_PID \<and> (\<forall>p\<in>set ps. \<not> (l'' \<le> p \<and> p < n''))"
      using less.hyps by blast
    then show ?thesis using s m(1) by (subst pid_repeat.simps) auto
  qed
qed

lemma get_pid_unused:
  assumes ok: "pid_ok (pids k) k" and few: "int (length (proc_list k)) < MAX_PID - 1"
  shows "\<exists>n k'. get_pid k = Some (n, k') \<and> 1 \<le> n \<and> n < MAX_PID \<and> n \<notin> pids k \<and>
    pid_ok (insert n (pids k)) k' \<and> k' = k\<lparr>last_pid := n, next_safe := next_safe k'\<rparr>"
proof -
  let ?ps = "map (\<lambda>p. pid (proc k p)) (proc_list k)" and ?l = "last_pid k + 1"
  have P: "pids k = set ?ps" by (simp add: pids_def)
  have "card (set ?ps) \<le> length (proc_list k)" using card_length [of ?ps] by simp
  moreover have "card {1..<MAX_PID} = nat (MAX_PID - 1)" by simp
  ultimately have "card (set ?ps) < card {1..<MAX_PID}" using few by linarith
  then have "\<not> {1..<MAX_PID} \<subseteq> set ?ps" using card_mono [of "set ?ps" "{1..<MAX_PID}"] by auto
  then obtain f where "f \<in> {1..<MAX_PID}" "f \<notin> set ?ps" by blast
  then have f: "f \<notin> set ?ps" "1 \<le> f" "f < MAX_PID" by simp_all
  show ?thesis
  proof (cases "?l \<ge> MAX_PID \<or> ?l \<ge> next_safe k")
    case True
    define l0 where "l0 = (if ?l \<ge> MAX_PID then 1 else ?l)"
    have "1 \<le> l0" "l0 < MAX_PID" using ok by (auto simp: l0_def pid_ok_def MAX_PID_def MAX_PROCESS_def)
    then obtain l' n' where r: "pid_repeat ?ps l0 MAX_PID = Some (l', n')" "1 \<le> l'" "l' < n'" "n' \<le> MAX_PID" "\<forall>p\<in>set ?ps. \<not> (l' \<le> p \<and> p < n')"
      using pid_repeat_ok [OF f] by blast
    have "get_pid k = Some (l', k\<lparr>last_pid := l', next_safe := n'\<rparr>)"
      using True r(1) by (auto simp: get_pid_def Let_def l0_def)
    moreover have "l' \<notin> pids k" "pid_ok (insert l' (pids k)) (k\<lparr>last_pid := l', next_safe := n'\<rparr>)"
      using r unfolding P pid_ok_def by auto
    ultimately show ?thesis using r by (intro exI [of _ l'] exI [of _ "k\<lparr>last_pid := l', next_safe := n'\<rparr>"]) simp
  next
    case False
    then have "get_pid k = Some (?l, k\<lparr>last_pid := ?l\<rparr>)" by (simp add: get_pid_def Let_def)
    moreover have "?l \<notin> pids k" "pid_ok (insert ?l (pids k)) (k\<lparr>last_pid := ?l\<rparr>)" "1 \<le> ?l" "?l < MAX_PID"
      using ok False by (auto simp: pid_ok_def)
    ultimately show ?thesis by (intro exI [of _ ?l] exI [of _ "k\<lparr>last_pid := ?l\<rparr>"]) simp
  qed
qed

text \<open>C4. \<open>get_pid\<close> ends and returns an identifier between 1 and \<open>MAX_PID\<close> that no process of the list has, as long as fewer than
  \<open>MAX_PID - 1\<close> processes exist, and it leaves its static variables so that this holds again when the new process has been entered.\<close>

theorem get_pid_fresh:
  assumes ok: "pid_ok (pids k) k" and few: "int (length (proc_list k)) < MAX_PID - 1"
  shows "\<exists>n k'. get_pid k = Some (n, k') \<and> 1 \<le> n \<and> n < MAX_PID \<and> n \<notin> pids k \<and>
    pid_ok (insert n (pids k)) k' \<and> k' = k\<lparr>last_pid := n, next_safe := next_safe k'\<rparr>"
  by (rule get_pid_unused [OF assms])

text \<open>Process 4 is \<open>initproc\<close> and waits for its child 1, which runs and has the zombie 5 and the process 6 as children.\<close>

definition example_kernel :: kernel where
  "example_kernel = \<lparr>sched = demo_sched\<lparr>procs := (\<lambda>_. demo_proc)
       (1 := demo_proc\<lparr>pid := 2, parent := Some 4, cptr := Some 5\<rparr>,
        4 := demo_proc\<lparr>pid := 1, state := PROC_SLEEPING, wait_state := WT_CHILD, parent := Some 0, cptr := Some 1\<rparr>,
        5 := demo_proc\<lparr>pid := 3, state := PROC_ZOMBIE, parent := Some 1, optr := Some 6\<rparr>,
        6 := demo_proc\<lparr>pid := 4, parent := Some 1, yptr := Some 5\<rparr>)\<rparr>,
     mem = demo_vm, mms = Map.empty, ftabs = Map.empty, kvfs = example_vfs, proc_list = [5, 6, 1, 4],
     proc_hash = (\<lambda>_. []), nr_process = 5, initproc = 4, last_pid = MAX_PID, next_safe = MAX_PID,
     allocated = {0, 1, 4, 5, 6}, boot_pgdir_va = 0\<rparr>"

theorem get_pid_fresh_witness:
  "\<exists>n k'. get_pid example_kernel = Some (n, k') \<and> n \<notin> {1, 2, 3, 4}"
proof -
  have p: "pids example_kernel = {1, 2, 3, 4}" by (auto simp: pids_def example_kernel_def)
  have "pid_ok (pids example_kernel) example_kernel" unfolding p by (simp add: pid_ok_def example_kernel_def MAX_PID_def MAX_PROCESS_def)
  moreover have "int (length (proc_list example_kernel)) < MAX_PID - 1" by (simp add: example_kernel_def MAX_PID_def MAX_PROCESS_def)
  ultimately show ?thesis using get_pid_fresh [of example_kernel] unfolding p by blast
qed


section \<open>Parents and children\<close>

text \<open>
  \<open>sibs ps q y r xs\<close>: from \<open>r\<close> on, the older-sibling pointers run through \<open>xs\<close>, all children of \<open>q\<close>, and each one's
  younger-sibling pointer leads back to the one before it, the first one's to \<open>y\<close>.
\<close>

fun sibs :: "(nat \<Rightarrow> proc_struct) \<Rightarrow> nat \<Rightarrow> nat option \<Rightarrow> nat option \<Rightarrow> nat list \<Rightarrow> bool" where
  "sibs ps q y r [] \<longleftrightarrow> r = None"
| "sibs ps q y r (p # xs) \<longleftrightarrow> r = Some p \<and> yptr (ps p) = y \<and> parent (ps p) = Some q \<and> sibs ps q (Some p) (optr (ps p)) xs"

definition kids :: "(nat \<Rightarrow> proc_struct) \<Rightarrow> nat \<Rightarrow> nat list \<Rightarrow> bool" where
  "kids ps q xs \<longleftrightarrow> distinct xs \<and> q \<notin> set xs \<and> sibs ps q None (cptr (ps q)) xs"

text \<open>The older-sibling pointers alone.\<close>

fun ochain :: "(nat \<Rightarrow> proc_struct) \<Rightarrow> nat option \<Rightarrow> nat list \<Rightarrow> bool" where
  "ochain ps r [] \<longleftrightarrow> r = None"
| "ochain ps r (p # xs) \<longleftrightarrow> r = Some p \<and> ochain ps (optr (ps p)) xs"

lemma sibs_ochain: "sibs ps q y r xs \<Longrightarrow> ochain ps r xs"
  by (induction xs arbitrary: y r) auto

lemma sibs_cong:
  assumes "\<And>p. p \<in> set xs \<Longrightarrow> yptr (ps' p) = yptr (ps p) \<and> parent (ps' p) = parent (ps p) \<and> optr (ps' p) = optr (ps p)"
  shows "sibs ps' q y r xs = sibs ps q y r xs"
  using assms by (induction xs arbitrary: y r) auto

lemma ochain_cong: "(\<And>p. p \<in> set xs \<Longrightarrow> optr (ps' p) = optr (ps p)) \<Longrightarrow> ochain ps' r xs = ochain ps r xs"
  by (induction xs arbitrary: r) auto

lemma sibs_head: "sibs ps q y r ys \<Longrightarrow> r = (case ys of [] \<Rightarrow> None | p # _ \<Rightarrow> Some p)"
  by (cases ys) auto

text \<open>The pointers that say who is related to whom.\<close>

definition same_family :: "(nat \<Rightarrow> proc_struct) \<Rightarrow> (nat \<Rightarrow> proc_struct) \<Rightarrow> bool" where
  "same_family ps ps' \<longleftrightarrow> (\<forall>p. cptr (ps' p) = cptr (ps p) \<and> yptr (ps' p) = yptr (ps p) \<and> optr (ps' p) = optr (ps p) \<and>
     parent (ps' p) = parent (ps p) \<and> pid (ps' p) = pid (ps p) \<and> exit_code (ps' p) = exit_code (ps p))"

lemma same_family_kids: "same_family ps ps' \<Longrightarrow> kids ps' q xs = kids ps q xs"
  using sibs_cong [of xs ps' ps q] by (simp add: same_family_def kids_def)

lemma same_family_ochain: "same_family ps ps' \<Longrightarrow> ochain ps' r xs = ochain ps r xs"
  using ochain_cong [of xs ps' ps] by (simp add: same_family_def)

lemma RR_wakeup_family:
  assumes "wakeup_proc default_sched_class p s = Some s'"
  shows "same_family (procs s) (procs s')"
  using assms by (auto simp: same_family_def wakeup_proc_def sched_class_enqueue_def default_sched_class_def RR_enqueue_def
    refill_slice_def upd_proc_def kassert_def Let_def split: if_splits)

text \<open>A process that waits for its children can be woken: it sleeps, outside of the run queue.\<close>

definition waiter_ok :: "kernel \<Rightarrow> nat set \<Rightarrow> nat \<Rightarrow> bool" where
  "waiter_ok k Q w \<longleftrightarrow> (wait_state (proc k w) = WT_CHILD \<longrightarrow>
     state (proc k w) = PROC_SLEEPING \<and> w \<notin> Q \<and> w \<noteq> cur k \<and> w \<noteq> idleproc (sched k))"

text \<open>What a wakeup does to the rest of the kernel.\<close>

definition awoken :: "nat \<Rightarrow> kernel \<Rightarrow> kernel \<Rightarrow> bool" where
  "awoken w k k' \<longleftrightarrow> same_family (procs (sched k)) (procs (sched k')) \<and> cur k' = cur k \<and> idleproc (sched k') = idleproc (sched k) \<and>
     initproc k' = initproc k \<and> state (proc k' w) = PROC_RUNNABLE \<and> wait_state (proc k' w) = 0 \<and>
     (\<forall>p. p \<noteq> w \<longrightarrow> state (proc k' p) = state (proc k p) \<and> wait_state (proc k' p) = wait_state (proc k p))"

lemma k_wakeup_ok:
  assumes q: "rr_queue (sched k) Q" "int (card Q) + 1 < 2 ^ 32" and w: "waiter_ok k Q w" "wait_state (proc k w) = WT_CHILD"
  shows "\<exists>k'. k_wakeup default_sched_class w k = Some k' \<and> rr_queue (sched k') (insert w Q) \<and> awoken w k k'"
proof -
  have w': "w \<notin> Q" "state (proc k w) = PROC_SLEEPING" "w \<noteq> cur k" "w \<noteq> idleproc (sched k)" using w by (auto simp: waiter_ok_def)
  have a: "rr_adm (sched k) Q w" using q(2) by (simp add: rr_adm_def)
  obtain s' where s': "wakeup_proc default_sched_class w (sched k) = Some s'" "rr_queue s' (insert w Q)"
      "state (procs s' w) = PROC_RUNNABLE" "wait_state (procs s' w) = 0" "current s' = cur k" "idleproc s' = idleproc (sched k)"
      "\<forall>q. q \<noteq> w \<longrightarrow> state (procs s' q) = state (proc k q) \<and> wait_state (procs s' q) = wait_state (proc k q)"
    using rr.wakeup_ok [OF q(1) w'(1) a _ w'(3,4)] w'(2) by auto
  then show ?thesis using RR_wakeup_family [OF s'(1)] by (intro exI [of _ "k\<lparr>sched := s'\<rparr>"]) (simp add: k_wakeup_def awoken_def)
qed


lemma set_proc_simps [simp]:
  "procs (sched (set_proc p f k)) = (procs (sched k))(p := f (proc k p))"
  "cur (set_proc p f k) = cur k" "idleproc (sched (set_proc p f k)) = idleproc (sched k)" "initproc (set_proc p f k) = initproc k"
  "run_links (sched (set_proc p f k)) = run_links (sched k)" "run_pool (sched (set_proc p f k)) = run_pool (sched k)"
  "proc_num (sched (set_proc p f k)) = proc_num (sched k)"
  by (simp_all add: set_proc_def upd_proc_def)

lemma adopt_fields:
  assumes "cur k \<noteq> initproc k"
  shows "cptr (proc (adopt p k) x) = (if x = initproc k then Some p else if x = cur k then optr (proc k p) else cptr (proc k x))"
    and "optr (proc (adopt p k) x) = (if x = p then cptr (proc k (initproc k)) else optr (proc k x))"
    and "parent (proc (adopt p k) x) = (if x = p then Some (initproc k) else parent (proc k x))"
    and "yptr (proc (adopt p k) x) = (if cptr (proc k (initproc k)) = Some x then Some p else if x = p then None else yptr (proc k x))"
  using assms by (auto simp: adopt_def Let_def split: option.splits)

lemma set_proc_keep:
  "(\<And>y. state (f y) = state y) \<Longrightarrow> state (proc (set_proc p f k) x) = state (proc k x)"
  "(\<And>y. wait_state (f y) = wait_state y) \<Longrightarrow> wait_state (proc (set_proc p f k) x) = wait_state (proc k x)"
  "(\<And>y. exit_code (f y) = exit_code y) \<Longrightarrow> exit_code (proc (set_proc p f k) x) = exit_code (proc k x)"
  "(\<And>y. rq (f y) = rq y) \<Longrightarrow> rq (proc (set_proc p f k) x) = rq (proc k x)"
  "(\<And>y. lab6_stride (f y) = lab6_stride y) \<Longrightarrow> lab6_stride (proc (set_proc p f k) x) = lab6_stride (proc k x)"
  "(\<And>y. lab6_priority (f y) = lab6_priority y) \<Longrightarrow> lab6_priority (proc (set_proc p f k) x) = lab6_priority (proc k x)"
  by simp_all

lemma adopt_other [simp]:
  "state (proc (adopt p k) x) = state (proc k x)" "wait_state (proc (adopt p k) x) = wait_state (proc k x)"
  "exit_code (proc (adopt p k) x) = exit_code (proc k x)" "cur (adopt p k) = cur k" "initproc (adopt p k) = initproc k"
  "idleproc (sched (adopt p k)) = idleproc (sched k)"
  by (simp_all add: adopt_def Let_def set_proc_keep del: set_proc_simps(1) split: option.split)

lemma adopt_queue: "rr_queue (sched k) Q \<Longrightarrow> rr_queue (sched (adopt p k)) Q"
  by (erule rr.queue_cong)
    (simp add: same_queues_def adopt_def Let_def set_proc_keep del: set_proc_simps(1) split: option.split)

lemma adopt_kids:
  assumes ys: "kids (procs (sched k)) (initproc k) ys" and p: "p \<notin> set ys" "p \<noteq> initproc k" "cur k \<noteq> initproc k"
  shows "kids (procs (sched (adopt p k))) (initproc k) (p # ys)"
proof -
  let ?ps = "procs (sched k)" and ?ps' = "procs (sched (adopt p k))" and ?i = "initproc k"
  note f = adopt_fields [OF p(3), of p]
  have s: "distinct ys" "?i \<notin> set ys" "sibs ?ps ?i None (cptr (?ps ?i)) ys" using ys by (auto simp: kids_def)
  have r: "cptr (?ps ?i) = (case ys of [] \<Rightarrow> None | y # _ \<Rightarrow> Some y)" by (rule sibs_head [OF s(3)])
  have "sibs ?ps' ?i (Some p) (cptr (?ps ?i)) ys"
  proof (cases ys)
    case Nil
    then show ?thesis using r by simp
  next
    case (Cons y zs)
    have z: "\<And>x. x \<in> set zs \<Longrightarrow> x \<noteq> y \<and> x \<noteq> p" "y \<noteq> p" using s(1) p(1) Cons by auto
    have "sibs ?ps' ?i (Some y) (optr (?ps y)) zs = sibs ?ps ?i (Some y) (optr (?ps y)) zs"
      by (rule sibs_cong) (use z(1) r Cons in \<open>auto simp: f\<close>)
    then show ?thesis using s(3) r Cons z(2) by (simp add: f)
  qed
  moreover have "yptr (?ps' p) = None" using p(1) r by (auto simp: f split: list.splits)
  ultimately show ?thesis using s p by (simp add: kids_def f)
qed

text \<open>The state of the process that adopts: woken if one of the children is a zombie and it waits for that.\<close>

definition after_adoption :: "kernel \<Rightarrow> kernel \<Rightarrow> nat list \<Rightarrow> bool" where
  "after_adoption k k' xs \<longleftrightarrow> cur k' = cur k \<and> initproc k' = initproc k \<and> idleproc (sched k') = idleproc (sched k) \<and>
     (\<forall>p. exit_code (proc k' p) = exit_code (proc k p)) \<and>
     (\<forall>p. p \<noteq> initproc k \<longrightarrow> state (proc k' p) = state (proc k p) \<and> wait_state (proc k' p) = wait_state (proc k p)) \<and>
     (state (proc k' (initproc k)), wait_state (proc k' (initproc k))) =
       (if wait_state (proc k (initproc k)) = WT_CHILD \<and> (\<exists>p\<in>set xs. state (proc k p) = PROC_ZOMBIE) then (PROC_RUNNABLE, 0)
        else (state (proc k (initproc k)), wait_state (proc k (initproc k))))"

lemma WT_CHILD_nonzero: "WT_CHILD \<noteq> 0"
  by (simp add: WT_CHILD_def WT_INTERRUPTED_def)

lemma after_adoption_step:
  assumes "after_adoption k k1 [p]" "after_adoption k1 k2 xs" "initproc k \<notin> set xs"
  shows "after_adoption k k2 (p # xs)"
proof -
  have "(\<exists>q\<in>set xs. state (proc k1 q) = PROC_ZOMBIE) = (\<exists>q\<in>set xs. state (proc k q) = PROC_ZOMBIE)"
    using assms(1,3) unfolding after_adoption_def by metis
  then show ?thesis using assms WT_CHILD_nonzero unfolding after_adoption_def by (auto split: if_splits)
qed

lemma reparent_ok:
  assumes q: "rr_queue (sched k) Q" "wait_state (proc k (initproc k)) = WT_CHILD \<longrightarrow> int (card Q) + 1 < 2 ^ 32"
    and w: "waiter_ok k Q (initproc k)" and ys: "kids (procs (sched k)) (initproc k) ys" and p: "p \<notin> set ys" "p \<noteq> initproc k" "p \<noteq> cur k"
    and ci: "cur k \<noteq> initproc k" and xs: "ochain (procs (sched k)) (optr (proc k p)) xs" "p \<notin> set xs"
  shows "\<exists>k' Q'. reparent default_sched_class p k = Some k' \<and> rr_queue (sched k') Q' \<and>
    (wait_state (proc k' (initproc k')) = WT_CHILD \<longrightarrow> int (card Q') + 1 < 2 ^ 32) \<and> waiter_ok k' Q' (initproc k') \<and>
    kids (procs (sched k')) (initproc k') (p # ys) \<and> ochain (procs (sched k')) (cptr (proc k' (cur k'))) xs \<and> after_adoption k k' [p]"
proof -
  let ?k = "adopt p k"
  have c: "cptr (proc ?k (cur k)) = optr (proc k p)" using ci by (simp add: adopt_fields)
  have o: "ochain (procs (sched ?k)) (cptr (proc ?k (cur k))) xs"
    unfolding c by (subst ochain_cong [of xs _ "procs (sched k)"]) (use xs in \<open>auto simp: adopt_fields(2) [OF ci]\<close>)
  note kd = adopt_kids [OF ys p(1,2) ci]
  have wk: "waiter_ok ?k Q (initproc k)" using w by (simp add: waiter_ok_def)
  show ?thesis
  proof (cases "state (proc k p) = PROC_ZOMBIE \<and> wait_state (proc k (initproc k)) = WT_CHILD")
    case True
    then obtain k' where k': "k_wakeup default_sched_class (initproc k) ?k = Some k'" "rr_queue (sched k') (insert (initproc k) Q)" "awoken (initproc k) ?k k'"
      using k_wakeup_ok [OF adopt_queue [OF q(1)] _ wk] q(2) by auto
    have sf: "same_family (procs (sched ?k)) (procs (sched k'))" using k'(3) by (simp add: awoken_def)
    have "waiter_ok k' (insert (initproc k) Q) (initproc k')" "wait_state (proc k' (initproc k')) \<noteq> WT_CHILD"
      using k'(3) WT_CHILD_nonzero by (auto simp: awoken_def waiter_ok_def)
    moreover have "after_adoption k k' [p]" using k'(3) True unfolding awoken_def after_adoption_def same_family_def by simp
    moreover have "cptr (proc k' (cur k')) = cptr (proc ?k (cur k))" using k'(3) by (simp add: awoken_def same_family_def)
    ultimately show ?thesis using True k' kd o same_family_kids [OF sf] same_family_ochain [OF sf]
      by (intro exI [of _ k'] exI [of _ "insert (initproc k) Q"]) (simp add: reparent_def Let_def awoken_def)
  next
    case False
    then show ?thesis using q wk kd o adopt_queue [OF q(1)]
      by (intro exI [of _ ?k] exI [of _ Q]) (auto simp: reparent_def Let_def after_adoption_def)
  qed
qed


lemma reparent_loop_ok:
  assumes "rr_queue (sched k) Q" "wait_state (proc k (initproc k)) = WT_CHILD \<longrightarrow> int (card Q) + 1 < 2 ^ 32"
    and "waiter_ok k Q (initproc k)" "kids (procs (sched k)) (initproc k) ys" "cur k \<noteq> initproc k"
    and "ochain (procs (sched k)) (cptr (proc k (cur k))) xs" "distinct xs" "initproc k \<notin> set xs" "cur k \<notin> set xs" "set xs \<inter> set ys = {}"
  shows "\<exists>k'. reparent_loop default_sched_class k = Some k' \<and> kids (procs (sched k')) (initproc k) (rev xs @ ys) \<and>
    cptr (proc k' (cur k)) = None \<and> after_adoption k k' xs"
  using assms
proof (induction xs arbitrary: k Q ys)
  case Nil
  then show ?case by (subst reparent_loop.simps) (simp add: after_adoption_def)
next
  case (Cons p xs)
  have p: "cptr (proc k (cur k)) = Some p" "ochain (procs (sched k)) (optr (proc k p)) xs" using Cons.prems(6) by auto
  obtain k1 Q1 where k1: "reparent default_sched_class p k = Some k1" "rr_queue (sched k1) Q1"
      "wait_state (proc k1 (initproc k1)) = WT_CHILD \<longrightarrow> int (card Q1) + 1 < 2 ^ 32" "waiter_ok k1 Q1 (initproc k1)"
      "kids (procs (sched k1)) (initproc k1) (p # ys)" "ochain (procs (sched k1)) (cptr (proc k1 (cur k1))) xs" "after_adoption k k1 [p]"
    using reparent_ok [OF Cons.prems(1-4) _ _ _ Cons.prems(5) p(2)] Cons.prems(7-10) by auto
  have e: "cur k1 = cur k" "initproc k1 = initproc k" using k1(7) by (auto simp: after_adoption_def)
  have "\<exists>k'. reparent_loop default_sched_class k1 = Some k' \<and> kids (procs (sched k')) (initproc k1) (rev xs @ p # ys) \<and>
      cptr (proc k' (cur k1)) = None \<and> after_adoption k1 k' xs"
    by (rule Cons.IH [OF k1(2-5)]) (use Cons.prems(5,7-10) k1(6) e in auto)
  then obtain k2 where k2: "reparent_loop default_sched_class k1 = Some k2" "kids (procs (sched k2)) (initproc k) (rev xs @ p # ys)"
      "cptr (proc k2 (cur k)) = None" "after_adoption k1 k2 xs" unfolding e by blast
  have "after_adoption k k2 (p # xs)" by (rule after_adoption_step [OF k1(7) k2(4)]) (use Cons.prems(8) in simp)
  then show ?case using p(1) k1(1) k2 by (subst reparent_loop.simps) simp
qed

lemma kids_set_proc:
  assumes "\<And>y. cptr (f y) = cptr y \<and> yptr (f y) = yptr y \<and> optr (f y) = optr y \<and> parent (f y) = parent y \<and> pid (f y) = pid y"
  shows "kids (procs (sched (set_proc p f k))) q xs = kids (procs (sched k)) q xs"
  using sibs_cong [of xs "procs (sched (set_proc p f k))" "procs (sched k)" q] assms by (simp add: kids_def)

text \<open>C11. Exiting hands all children over: the process becomes a zombie with its exit code and without children, \<open>initproc\<close> gets
  them in front of its own, with all sibling and parent pointers consistent, the parent is woken if it waits for a child,
  and \<open>initproc\<close> is woken if it waits and one of the children is already a zombie. The loop ends and nothing panics.\<close>

theorem exit_notify_reparents:
  assumes q: "rr_queue (sched k) Q" "int (card Q) + 2 < 2 ^ 32" and par: "parent (proc k (cur k)) = Some q" "q \<noteq> cur k"
    and w: "waiter_ok k Q q" "waiter_ok k Q (initproc k)" and ci: "cur k \<noteq> initproc k"
    and xs: "kids (procs (sched k)) (cur k) xs" "initproc k \<notin> set xs" "q \<notin> set xs" and ys: "kids (procs (sched k)) (initproc k) ys" "set xs \<inter> set ys = {}"
  shows "\<exists>k'. exit_notify default_sched_class code k = Some k' \<and> state (proc k' (cur k)) = PROC_ZOMBIE \<and> exit_code (proc k' (cur k)) = code \<and>
    cptr (proc k' (cur k)) = None \<and> kids (procs (sched k')) (initproc k) (rev xs @ ys) \<and>
    (wait_state (proc k q) = WT_CHILD \<longrightarrow> state (proc k' q) = PROC_RUNNABLE \<and> wait_state (proc k' q) = 0) \<and>
    (wait_state (proc k (initproc k)) = WT_CHILD \<and> (\<exists>p\<in>set xs. state (proc k p) = PROC_ZOMBIE) \<longrightarrow>
       state (proc k' (initproc k)) = PROC_RUNNABLE)"
proof -
  let ?k = "set_proc (cur k) (\<lambda>x. x\<lparr>state := PROC_ZOMBIE, exit_code := code\<rparr>) k"
  have q1: "rr_queue (sched ?k) Q" by (rule rr.queue_cong [OF q(1)]) (simp add: same_queues_def)
  have w1: "waiter_ok ?k Q q" "waiter_ok ?k Q (initproc k)" using w par(2) ci by (simp_all add: waiter_ok_def)
  have xs1: "kids (procs (sched ?k)) (cur k) xs" and ys1: "kids (procs (sched ?k)) (initproc k) ys"
    using xs(1) ys(1) kids_set_proc [of "\<lambda>x. x\<lparr>state := PROC_ZOMBIE, exit_code := code\<rparr>"] by simp_all
  obtain k1 Q1 where k1: "(if wait_state (proc ?k q) = WT_CHILD then k_wakeup default_sched_class q ?k else Some ?k) = Some k1"
      "rr_queue (sched k1) Q1" "int (card Q1) + 1 < 2 ^ 32" "waiter_ok k1 Q1 (initproc k)" "cur k1 = cur k" "initproc k1 = initproc k"
      "same_family (procs (sched ?k)) (procs (sched k1))"
      "wait_state (proc k q) = WT_CHILD \<longrightarrow> state (proc k1 q) = PROC_RUNNABLE \<and> wait_state (proc k1 q) = 0"
      "\<forall>p. p \<noteq> q \<longrightarrow> state (proc k1 p) = state (proc ?k p) \<and> wait_state (proc k1 p) = wait_state (proc ?k p)"
  proof (cases "wait_state (proc ?k q) = WT_CHILD")
    case True
    have c: "int (card Q) + 1 < 2 ^ 32" using q(2) by linarith
    obtain k1 where k1: "k_wakeup default_sched_class q ?k = Some k1" "rr_queue (sched k1) (insert q Q)" "awoken q ?k k1"
      using k_wakeup_ok [OF q1 c w1(1) True] by blast
    have "int (card (insert q Q)) + 1 < 2 ^ 32" using q(2) card_insert_le_m1 [of "Suc (card Q)" Q q] by linarith
    moreover have "waiter_ok k1 (insert q Q) (initproc k)"
      using w1(2) k1(3) WT_CHILD_nonzero by (cases "q = initproc k") (auto simp: waiter_ok_def awoken_def)
    ultimately show ?thesis using True k1 by (intro that [of k1 "insert q Q"]) (simp_all add: awoken_def)
  next
    case False
    then show ?thesis using q q1 w1 par(2) by (intro that [of ?k Q]) (simp_all add: same_family_def)
  qed
  have xs2: "kids (procs (sched k1)) (cur k) xs" and ys2: "kids (procs (sched k1)) (initproc k) ys"
    using xs1 ys1 same_family_kids [OF k1(7)] by simp_all
  obtain k2 where k2: "reparent_loop default_sched_class k1 = Some k2" "kids (procs (sched k2)) (initproc k) (rev xs @ ys)"
      "cptr (proc k2 (cur k)) = None" "after_adoption k1 k2 xs"
    using reparent_loop_ok [of k1 Q1 ys xs] k1(2-6) xs2 ys2 ci xs(2) ys(2) sibs_ochain [of "procs (sched k1)" "cur k" None "cptr (proc k1 (cur k))" xs]
    by (auto simp: kids_def)
  have n: "exit_notify default_sched_class code k = Some k2" using par k1(1) k2(1) by (simp add: exit_notify_def)
  have st: "state (proc k1 (cur k)) = PROC_ZOMBIE" "exit_code (proc k1 (cur k)) = code"
    using k1(7,9) par(2) by (auto simp: same_family_def)
  have z: "state (proc k1 p) = state (proc k p)" if "p \<in> set xs" for p using that xs k1(9) by (auto simp: kids_def)
  have e: "state (proc k2 (cur k)) = PROC_ZOMBIE" "exit_code (proc k2 (cur k)) = code"
    using k2(4) st ci k1(6) unfolding after_adoption_def by metis+
  have wq: "state (proc k2 q) = PROC_RUNNABLE \<and> wait_state (proc k2 q) = 0" if "wait_state (proc k q) = WT_CHILD"
    using k1(8) that k2(4) k1(6) WT_CHILD_nonzero unfolding after_adoption_def by (cases "q = initproc k") (auto split: if_splits)
  have wi: "state (proc k2 (initproc k)) = PROC_RUNNABLE" if "wait_state (proc k (initproc k)) = WT_CHILD" "\<exists>p\<in>set xs. state (proc k p) = PROC_ZOMBIE"
  proof (cases "q = initproc k")
    case True
    then show ?thesis using wq that(1) by simp
  next
    case False
    then have "wait_state (proc k1 (initproc k)) = WT_CHILD" using k1(9) that(1) ci by auto
    then show ?thesis using k2(4) z that(2) k1(6) unfolding after_adoption_def by auto
  qed
  show ?thesis using n e k2(2,3) wq wi by blast
qed

theorem exit_notify_reparents_witness:
  "\<exists>k'. exit_notify default_sched_class 7 example_kernel = Some k' \<and> kids (procs (sched k')) 4 [6, 5, 1] \<and> exit_code (proc k' 1) = 7"
proof -
  have q: "rr_queue (sched example_kernel) {2, 3}"
  proof (rule rr.queue_cong)
    show "rr_queue demo_sched {2, 3}" unfolding rr_queue_def using demo_sched_inv by (intro exI [of _ "[2, 3]"]) auto
    show "same_queues demo_sched (sched example_kernel)" by (simp add: same_queues_def example_kernel_def demo_sched_def)
  qed
  have w: "waiter_ok example_kernel {2, 3} 4" by (simp add: waiter_ok_def example_kernel_def demo_sched_def)
  have c: "cur example_kernel = 1" "initproc example_kernel = 4" "parent (proc example_kernel 1) = Some 4"
    by (simp_all add: example_kernel_def demo_sched_def)
  have k: "kids (procs (sched example_kernel)) 1 [5, 6]" "kids (procs (sched example_kernel)) 4 [1]"
    by (simp_all add: kids_def example_kernel_def demo_proc_def)
  show ?thesis using exit_notify_reparents [OF q, of 4 "[5, 6]" "[1]" 7] w c k by auto
qed

end
