(* ===== verification/Console.thy ===== *)
theory Console
  imports Sync Disk
begin

text \<open>
  Characters in and out: the circular buffer of the console (kern/driver/console.c), \<open>readline\<close> (kern/libs/readline.c) and the devices
  \<open>stdin\<close> and \<open>stdout\<close> (kern/fs/devs/dev_stdin.c, dev_stdout.c). The values the firmware's \<open>sbi_console_getchar\<close> returns are an input list,
  the bytes sent to \<open>sbi_console_putchar\<close> an output list. A reader of \<open>stdin\<close> waits in the queue \<open>q\<close> of \<open>Sync\<close>; as there, the
  function is split at \<open>schedule\<close>. The locale \<open>byte_queue\<close> is the contract of a bounded queue, which both buffers meet.
\<close>

section \<open>The console buffer (console.c)\<close>

definition CONSBUFSIZE :: nat where "CONSBUFSIZE = 512"

record cons_buf =
  cbuf :: bytes
  rpos :: nat
  wpos :: nat

text \<open>Putting one byte into the buffer: the body of the loop of \<open>cons_intr\<close>.\<close>

definition cons_put :: "8 word \<Rightarrow> cons_buf \<Rightarrow> cons_buf" where
  "cons_put c b =
     (let b = b\<lparr>cbuf := (cbuf b)[wpos b := c], wpos := wpos b + 1\<rparr>
      in if wpos b = CONSBUFSIZE then b\<lparr>wpos := 0\<rparr> else b)"

definition serial_proc_data :: "int \<Rightarrow> int" where
  "serial_proc_data c = (if c < 0 then - 1 else if c = 127 then 8 else c)"

text \<open>\<open>cons_intr\<close> with the values that the calls of \<open>sbi_console_getchar\<close> return; it stops at the first negative one.\<close>

fun cons_intr :: "int list \<Rightarrow> cons_buf \<Rightarrow> cons_buf" where
  "cons_intr [] b = b"
| "cons_intr (c # cs) b =
     (let c = serial_proc_data c
      in if c = - 1 then b
         else cons_intr cs (if c \<noteq> 0 then cons_put (word_of_int c) b else b))"

definition cons_take :: "cons_buf \<Rightarrow> (8 word \<times> cons_buf) option" where
  "cons_take b =
     (if rpos b \<noteq> wpos b
      then let c = cbuf b ! rpos b; b = b\<lparr>rpos := rpos b + 1\<rparr>
           in Some (c, if rpos b = CONSBUFSIZE then b\<lparr>rpos := 0\<rparr> else b)
      else None)"

definition cons_getc :: "int list \<Rightarrow> cons_buf \<Rightarrow> 8 word \<times> cons_buf" where
  "cons_getc cs b =
     (let b = cons_intr cs b in case cons_take b of None \<Rightarrow> (0, b) | Some (c, b) \<Rightarrow> (c, b))"

text \<open>The bytes sent to the serial port.\<close>

definition serial_putc :: "8 word \<Rightarrow> bytes" where
  "serial_putc c = (if c \<noteq> 8 then [c] else [8, 32, 8])"

definition cons_putc :: "8 word \<Rightarrow> bytes" where
  "cons_putc c = serial_putc c"

section \<open>Reading a line (readline.c)\<close>

definition BUFSIZE :: nat where "BUFSIZE = 1024"

text \<open>The input is the sequence of values \<open>cons_getc\<close> returns; \<open>getchar\<close> skips zeros. When it ends, \<open>readline\<close> waits.
  \<open>i\<close> bytes of \<open>buf\<close> are used; \<open>out\<close> is the echo.\<close>

fun readline_loop :: "int list \<Rightarrow> bytes \<Rightarrow> nat \<Rightarrow> bytes \<Rightarrow> (bytes option \<times> nat \<times> int list \<times> bytes) option" where
  "readline_loop [] buf i out = None"
| "readline_loop (c # cs) buf i out =
     (if c = 0 then readline_loop cs buf i out
      else if c < 0 then Some (None, i, cs, out)
      else if c \<ge> 32 \<and> i < BUFSIZE - 1
      then readline_loop cs (buf[i := word_of_int c]) (i + 1) (out @ cons_putc (word_of_int c))
      else if c = 8 \<and> i > 0 then readline_loop cs buf (i - 1) (out @ cons_putc 8)
      else if c = 10 \<or> c = 13 then Some (Some (buf[i := 0]), i, cs, out @ cons_putc (word_of_int c))
      else readline_loop cs buf i out)"

definition readline :: "bytes option \<Rightarrow> int list \<Rightarrow> bytes \<Rightarrow> (bytes option \<times> nat \<times> int list \<times> bytes) option" where
  "readline prompt cs buf =
     readline_loop cs buf 0 (case prompt of None \<Rightarrow> [] | Some p \<Rightarrow> concat (map cons_putc p))"

section \<open>Standard input (dev_stdin.c)\<close>

definition STDIN_BUFSIZE :: nat where "STDIN_BUFSIZE = 4096"

record stdin_dev =
  stdin_buffer :: bytes
  p_rpos :: nat
  p_wpos :: nat

definition stdin_put :: "8 word \<Rightarrow> stdin_dev \<Rightarrow> stdin_dev" where
  "stdin_put c d =
     (let d = d\<lparr>stdin_buffer := (stdin_buffer d)[p_wpos d mod STDIN_BUFSIZE := c]\<rparr>
      in if p_wpos d < p_rpos d + STDIN_BUFSIZE then d\<lparr>p_wpos := p_wpos d + 1\<rparr> else d)"

text \<open>\<open>q\<close> is the device's wait queue.\<close>

definition dev_stdin_write :: "nat \<Rightarrow> 8 word \<Rightarrow> stdin_dev \<Rightarrow> sync_state \<Rightarrow> (stdin_dev \<times> sync_state) option" where
  "dev_stdin_write q c d s =
     (if c \<noteq> 0
      then do {
        let d = stdin_put c d;
        s \<leftarrow> (if \<not> wait_queue_empty q s then wakeup_queue q WT_KBD True s else Some s);
        Some (d, s) }
      else Some (d, s))"

definition stdin_get :: "stdin_dev \<Rightarrow> (8 word \<times> stdin_dev) option" where
  "stdin_get d =
     (if p_rpos d < p_wpos d
      then Some (stdin_buffer d ! (p_rpos d mod STDIN_BUFSIZE), d\<lparr>p_rpos := p_rpos d + 1\<rparr>)
      else None)"

text \<open>The loop up to the point where it returns or has to wait: the bytes it read.\<close>

fun stdin_read_loop :: "nat \<Rightarrow> stdin_dev \<Rightarrow> bytes \<times> stdin_dev" where
  "stdin_read_loop 0 d = ([], d)"
| "stdin_read_loop (Suc n) d =
     (case stdin_get d of
        None \<Rightarrow> ([], d)
      | Some (c, d) \<Rightarrow> apfst (\<lambda>cs. c # cs) (stdin_read_loop n d))"

text \<open>\<open>Finished\<close> with the bytes read, or \<open>Blocked\<close> with those read so far.\<close>

definition dev_stdin_read :: "nat \<Rightarrow> nat \<Rightarrow> stdin_dev \<Rightarrow> sync_state \<Rightarrow> (outcome \<times> bytes \<times> stdin_dev \<times> sync_state) option" where
  "dev_stdin_read q len d s =
     (let (cs, d) = stdin_read_loop len d
      in if length cs = len then Some (Finished, cs, d, s)
         else do {
           s \<leftarrow> wait_current_set q WT_KBD s;
           s \<leftarrow> do_schedule s;
           Some (Blocked, cs, d, s) })"

text \<open>What the reader does when it runs again, having read \<open>got\<close>.\<close>

definition dev_stdin_resume :: "nat \<Rightarrow> bytes \<Rightarrow> nat \<Rightarrow> stdin_dev \<Rightarrow> sync_state \<Rightarrow> (outcome \<times> bytes \<times> stdin_dev \<times> sync_state) option" where
  "dev_stdin_resume q got len d s =
     (let w = current (sch s) in do {
        s \<leftarrow> wait_current_del q w s;
        if wakeup_flags (waits s w) = WT_KBD
        then do {
          (r, cs, d, s) \<leftarrow> dev_stdin_read q (len - length got) d s;
          Some (r, got @ cs, d, s) }
        else Some (Finished, got, d, s) })"

text \<open>The end of \<open>stdin_io\<close>, with the bytes that were read.\<close>

definition stdin_io :: "bool \<Rightarrow> bytes \<Rightarrow> iobuf \<Rightarrow> (int \<times> iobuf) option" where
  "stdin_io wr cs iob =
     (if \<not> wr
      then do {
        buf \<leftarrow> mem_put (io_buf iob) (io_base iob) cs;
        Some (int (length cs), iob\<lparr>io_buf := buf, io_resid := (if cs \<noteq> [] then io_resid iob - length cs else io_resid iob)\<rparr>) }
      else Some (- E_INVAL, iob))"

definition stdin_device_init :: "nat \<Rightarrow> stdin_dev \<Rightarrow> sync_state \<Rightarrow> stdin_dev \<times> sync_state" where
  "stdin_device_init q d s = (d\<lparr>p_rpos := 0, p_wpos := 0\<rparr>, wait_queue_init q s)"

section \<open>Standard output (dev_stdout.c)\<close>

text \<open>The second component is what the console prints.\<close>

definition stdout_io :: "bool \<Rightarrow> iobuf \<Rightarrow> (int \<times> bytes \<times> iobuf) option" where
  "stdout_io wr iob =
     (if wr
      then do {
        data \<leftarrow> mem_get (io_buf iob) (io_base iob) (io_resid iob);
        Some (0, concat (map cons_putc data), iob\<lparr>io_resid := 0\<rparr>) }
      else Some (- E_INVAL, [], iob))"

section \<open>Buffers as queues\<close>

text \<open>The interface of a bounded queue of bytes.\<close>

locale byte_queue =
  fixes ok :: "'s \<Rightarrow> bool" and cont :: "'s \<Rightarrow> bytes" and cap :: nat
    and put :: "8 word \<Rightarrow> 's \<Rightarrow> 's" and get :: "'s \<Rightarrow> (8 word \<times> 's) option"
  assumes put_back: "ok s \<Longrightarrow> length (cont s) < cap \<Longrightarrow> ok (put c s) \<and> cont (put c s) = cont s @ [c]"
    and get_empty: "ok s \<Longrightarrow> cont s = [] \<Longrightarrow> get s = None"
    and get_front: "ok s \<Longrightarrow> cont s = c # cs \<Longrightarrow> \<exists>s'. get s = Some (c, s') \<and> ok s' \<and> cont s' = cs"
begin

lemma put_all:
  assumes "ok s" "length (cont s) + length cs \<le> cap"
  shows "ok (fold put cs s) \<and> cont (fold put cs s) = cont s @ cs"
  using assms
proof (induction cs arbitrary: s)
  case (Cons c cs)
  have "ok (put c s)" "cont (put c s) = cont s @ [c]" using put_back [of s c] Cons.prems by auto
  then show ?case using Cons.IH [of "put c s"] Cons.prems by simp
qed simp

lemma get_cases:
  assumes "ok s"
  shows "get s = None \<and> cont s = [] \<or> (\<exists>c s'. get s = Some (c, s') \<and> ok s' \<and> cont s = c # cont s')"
  using get_empty [OF assms] get_front [OF assms] by (cases "cont s") auto

end

text \<open>The unread bytes.\<close>

definition stdin_ok :: "stdin_dev \<Rightarrow> bool" where
  "stdin_ok d \<longleftrightarrow> length (stdin_buffer d) = 4096 \<and> p_rpos d \<le> p_wpos d \<and> p_wpos d \<le> p_rpos d + 4096"

definition stdin_unread :: "stdin_dev \<Rightarrow> bytes" where
  "stdin_unread d = map (\<lambda>i. stdin_buffer d ! (i mod 4096)) [p_rpos d..<p_wpos d]"

definition cons_ok :: "cons_buf \<Rightarrow> bool" where
  "cons_ok b \<longleftrightarrow> length (cbuf b) = 512 \<and> rpos b < 512 \<and> wpos b < 512"

definition ring_len :: "nat \<Rightarrow> nat \<Rightarrow> nat" where
  "ring_len r w = (if r \<le> w then w - r else w + 512 - r)"

definition cons_unread :: "cons_buf \<Rightarrow> bytes" where
  "cons_unread b = map (\<lambda>i. cbuf b ! ((rpos b + i) mod 512)) [0..<ring_len (rpos b) (wpos b)]"

lemma ring_len_put: "r < 512 \<Longrightarrow> w < 512 \<Longrightarrow> ring_len r w < 511 \<Longrightarrow> ring_len r (if w = 511 then 0 else w + 1) = Suc (ring_len r w)"
  by (auto simp: ring_len_def split: if_splits)

lemma ring_len_get: "r < 512 \<Longrightarrow> w < 512 \<Longrightarrow> r \<noteq> w \<Longrightarrow> ring_len r w = Suc (ring_len (if r = 511 then 0 else r + 1) w)"
  by (auto simp: ring_len_def split: if_splits)

lemma ring_len_end: "r < 512 \<Longrightarrow> w < 512 \<Longrightarrow> (r + ring_len r w) mod 512 = w"
  by (auto simp: ring_len_def)

lemma mod_ring_neq: "i < w \<Longrightarrow> w < i + n \<Longrightarrow> i mod n \<noteq> w mod (n :: nat)"
proof
  assume "i < w" "w < i + n" "i mod n = w mod n"
  then have "n dvd w - i" using mod_eq_dvd_iff_nat [of i w n] by auto
  then show False using \<open>i < w\<close> \<open>w < i + n\<close> by (auto dest: dvd_imp_le)
qed

lemma stdin_put_room:
  assumes "stdin_ok d" "length (stdin_unread d) < 4096"
  shows "stdin_ok (stdin_put c d) \<and> stdin_unread (stdin_put c d) = stdin_unread d @ [c]"
proof -
  have w: "p_wpos d < p_rpos d + 4096" using assms by (auto simp: stdin_unread_def)
  have "(stdin_buffer d)[p_wpos d mod 4096 := c] ! (i mod 4096) = stdin_buffer d ! (i mod 4096)" if "p_rpos d \<le> i" "i < p_wpos d" for i
    using mod_ring_neq [of i "p_wpos d" 4096] that w by simp
  then have "map (\<lambda>i. (stdin_buffer d)[p_wpos d mod 4096 := c] ! (i mod 4096)) [p_rpos d..<p_wpos d] = stdin_unread d"
    by (auto simp: stdin_unread_def)
  then show ?thesis using assms(1) w by (simp add: stdin_put_def stdin_ok_def stdin_unread_def STDIN_BUFSIZE_def Let_def)
qed

text \<open>A full buffer: the new byte takes the place of the oldest unread one.\<close>

lemma stdin_put_full:
  assumes "stdin_ok d" "length (stdin_unread d) = 4096"
  shows "stdin_ok (stdin_put c d) \<and> stdin_unread (stdin_put c d) = c # tl (stdin_unread d)"
proof -
  have w: "p_wpos d = p_rpos d + 4096" using assms by (auto simp: stdin_unread_def stdin_ok_def)
  then have m: "p_wpos d mod 4096 = p_rpos d mod 4096" by simp
  let ?b = "(stdin_buffer d)[p_rpos d mod 4096 := c]"
  have e: "[p_rpos d..<p_wpos d] = p_rpos d # [Suc (p_rpos d)..<p_wpos d]" by (rule upt_conv_Cons) (use w in linarith)
  have "?b ! (i mod 4096) = stdin_buffer d ! (i mod 4096)" if "Suc (p_rpos d) \<le> i" "i < p_wpos d" for i
    using mod_ring_neq [of "p_rpos d" i 4096] that w by simp
  then have u: "map (\<lambda>i. ?b ! (i mod 4096)) [p_rpos d..<p_wpos d] = c # tl (stdin_unread d)"
    using assms(1) unfolding stdin_unread_def e by (simp add: stdin_ok_def)
  have "stdin_put c d = d\<lparr>stdin_buffer := ?b\<rparr>" unfolding stdin_put_def STDIN_BUFSIZE_def m using w by (simp add: Let_def)
  then show ?thesis using assms(1) u by (simp add: stdin_ok_def stdin_unread_def del: upt_Suc)
qed

interpretation stdin_q: byte_queue stdin_ok stdin_unread 4096 stdin_put stdin_get
proof
  show "stdin_get d = None" if "stdin_ok d" "stdin_unread d = []" for d
    using that by (auto simp: stdin_get_def stdin_unread_def)
  show "\<exists>d'. stdin_get d = Some (c, d') \<and> stdin_ok d' \<and> stdin_unread d' = cs" if "stdin_ok d" "stdin_unread d = c # cs" for d c cs
  proof -
    have "p_rpos d < p_wpos d" using that(2) by (cases "p_rpos d < p_wpos d") (auto simp: stdin_unread_def)
    then show ?thesis using that
      by (auto simp: stdin_get_def stdin_unread_def stdin_ok_def STDIN_BUFSIZE_def upt_conv_Cons)
  qed
qed (rule stdin_put_room)

lemma cons_put_unread:
  assumes b: "cons_ok b" and l: "length (cons_unread b) < 511"
  shows "cons_ok (cons_put c b) \<and> cons_unread (cons_put c b) = cons_unread b @ [c]"
proof -
  let ?w = "if wpos b = 511 then 0 else wpos b + 1" and ?n = "ring_len (rpos b) (wpos b)"
  have k: "rpos b < 512" "wpos b < 512" "?n < 511" using b l by (simp_all add: cons_ok_def cons_unread_def)
  have p: "cons_put c b = b\<lparr>cbuf := (cbuf b)[wpos b := c], wpos := ?w\<rparr>"
    using k by (auto simp: cons_put_def CONSBUFSIZE_def Let_def)
  have n': "ring_len (rpos b) ?w = Suc ?n" using ring_len_put k by blast
  have e: "(rpos b + ?n) mod 512 = wpos b" using ring_len_end k by blast
  have "wpos b \<noteq> (rpos b + i) mod 512" if "i < ?n" for i
    using mod_ring_neq [of "rpos b + i" "rpos b + ?n" 512] that e k by auto
  then have "map (\<lambda>i. (cbuf b)[wpos b := c] ! ((rpos b + i) mod 512)) [0..<?n] = cons_unread b"
    by (auto simp: cons_unread_def)
  moreover have "(cbuf b)[wpos b := c] ! ((rpos b + ?n) mod 512) = c" using b e by (simp add: cons_ok_def)
  ultimately have "map (\<lambda>i. (cbuf b)[wpos b := c] ! ((rpos b + i) mod 512)) [0..<Suc ?n] = cons_unread b @ [c]" by simp
  then have "cons_unread (cons_put c b) = cons_unread b @ [c]" unfolding p by (simp add: cons_unread_def n' del: upt_Suc)
  moreover have "cons_ok (cons_put c b)" using b k unfolding p by (auto simp: cons_ok_def)
  ultimately show ?thesis by blast
qed

interpretation cons_q: byte_queue cons_ok cons_unread 511 cons_put cons_take
proof
  show "cons_take b = None" if "cons_ok b" "cons_unread b = []" for b
    using that by (auto simp: cons_unread_def cons_ok_def ring_len_def cons_take_def split: if_splits)
  show "\<exists>b'. cons_take b = Some (c, b') \<and> cons_ok b' \<and> cons_unread b' = cs" if u: "cons_ok b" "cons_unread b = c # cs" for b c cs
  proof -
    let ?r = "if rpos b = 511 then 0 else rpos b + 1"
    have k: "rpos b < 512" "wpos b < 512" using u(1) by (simp_all add: cons_ok_def)
    have ne: "rpos b \<noteq> wpos b" using u(2) by (auto simp: cons_unread_def ring_len_def)
    let ?n = "ring_len ?r (wpos b)"
    have n: "ring_len (rpos b) (wpos b) = Suc ?n" using ring_len_get k ne by blast
    have m: "map f [0..<Suc k] = f 0 # map (\<lambda>i. f (Suc i)) [0..<k]" for f :: "nat \<Rightarrow> 8 word" and k
      by (simp add: upt_conv_Cons map_Suc_upt [symmetric] comp_def del: upt_Suc)
    have c: "c = cbuf b ! rpos b" "cs = map (\<lambda>i. cbuf b ! ((rpos b + Suc i) mod 512)) [0..<?n]"
      using u(2) k(1) unfolding cons_unread_def n m by simp_all
    have t: "cons_take b = Some (c, b\<lparr>rpos := ?r\<rparr>)"
      using ne k c(1) by (auto simp: cons_take_def CONSBUFSIZE_def Let_def)
    have "(rpos b + Suc i) mod 512 = (?r + i) mod 512" for i using k(1) by auto
    then have "cons_unread (b\<lparr>rpos := ?r\<rparr>) = cs" unfolding c(2) by (simp add: cons_unread_def)
    then show ?thesis using t u(1) by (auto simp: cons_ok_def)
  qed
qed (rule cons_put_unread)

section \<open>Behaviour of the devices\<close>

lemma stdin_read_loop_spec:
  assumes "stdin_ok d"
  shows "\<exists>d'. stdin_read_loop n d = (take n (stdin_unread d), d') \<and> stdin_ok d' \<and> stdin_unread d' = drop n (stdin_unread d)"
  using assms
proof (induction n arbitrary: d)
  case (Suc n)
  show ?case
  proof (cases "stdin_unread d")
    case Nil
    then show ?thesis using stdin_q.get_empty [OF Suc.prems] Suc.prems by simp
  next
    case (Cons c cs)
    then obtain d1 where "stdin_get d = Some (c, d1)" "stdin_ok d1" "stdin_unread d1 = cs"
      using stdin_q.get_front [OF Suc.prems] by blast
    then show ?thesis using Suc.IH [of d1] Cons by (auto simp: apfst_def map_prod_def)
  qed
qed simp

text \<open>The bytes of the input that reach the console's buffer.\<close>

fun accepted :: "int list \<Rightarrow> bytes" where
  "accepted [] = []"
| "accepted (c # cs) = (if c < 0 then [] else (if c = 0 then [] else [word_of_int (if c = 127 then 8 else c)]) @ accepted cs)"

lemma cons_intr_fold: "cons_intr cs b = fold cons_put (accepted cs) b"
  by (induction cs arbitrary: b) (auto simp: serial_proc_data_def Let_def)

text \<open>A burst of 512 bytes into an empty console buffer is lost: the positions are equal again.\<close>

lemma cons_put_wpos: "wpos b < 512 \<Longrightarrow> wpos (cons_put c b) = (wpos b + 1) mod 512 \<and> rpos (cons_put c b) = rpos b"
  by (auto simp: cons_put_def CONSBUFSIZE_def Let_def)

lemma cons_puts_wpos: "wpos b < 512 \<Longrightarrow> wpos (fold cons_put cs b) = (wpos b + length cs) mod 512 \<and> rpos (fold cons_put cs b) = rpos b"
proof (induction cs arbitrary: b)
  case (Cons c cs)
  have "wpos (cons_put c b) < 512" using cons_put_wpos [OF Cons.prems, of c] by simp
  then show ?case using Cons.IH [of "cons_put c b"] cons_put_wpos [OF Cons.prems, of c] by (simp add: mod_simps)
qed simp

theorem cons_burst_lost:
  assumes "cons_ok b" "cons_unread b = []" "length (accepted cs) = 512"
  shows "fst (cons_getc cs b) = 0"
proof -
  have "rpos b = wpos b" "wpos b < 512" using assms(1,2) by (auto simp: cons_unread_def ring_len_def cons_ok_def split: if_splits)
  then have "cons_take (cons_intr cs b) = None"
    using cons_puts_wpos [of b "accepted cs"] assms(3) by (simp add: cons_intr_fold cons_take_def)
  then show ?thesis by (simp add: cons_getc_def Let_def)
qed

text \<open>Line editing on lists: \<open>rl\<close> is the line so far, reversed.\<close>

fun edit_line :: "int list \<Rightarrow> bytes \<Rightarrow> bytes option option" where
  "edit_line [] rl = None"
| "edit_line (c # cs) rl =
     (if c = 0 then edit_line cs rl
      else if c < 0 then Some None
      else if c \<ge> 32 \<and> length rl < 1023 then edit_line cs (word_of_int c # rl)
      else if c = 8 \<and> rl \<noteq> [] then edit_line cs (tl rl)
      else if c = 10 \<or> c = 13 then Some (Some (rev rl))
      else edit_line cs rl)"

text \<open>The result of \<open>readline\<close> for such a line.\<close>

fun line_returned :: "bytes option option \<Rightarrow> (bytes option \<times> nat \<times> int list \<times> bytes) option \<Rightarrow> bool" where
  "line_returned None r \<longleftrightarrow> r = None"
| "line_returned (Some None) r \<longleftrightarrow> (\<exists>j cs out. r = Some (None, j, cs, out))"
| "line_returned (Some (Some line)) r \<longleftrightarrow> (\<exists>buf cs out. r = Some (Some buf, length line, cs, out) \<and> length buf = 1024 \<and>
     length line < 1024 \<and> take (length line) buf = line \<and> buf ! length line = 0)"

lemma readline_loop_spec:
  assumes "length buf = 1024" "i < 1024" "take i buf = rev rl"
  shows "line_returned (edit_line cs rl) (readline_loop cs buf i out)"
  using assms
proof (induction cs arbitrary: buf i rl out)
  case (Cons c cs)
  have i: "i = length rl" using Cons.prems(1,2,3) by (metis length_rev length_take min.absorb4)
  consider "c = 0" | "c < 0" | "32 \<le> c" "i < 1023" | "c = 8" "0 < i" | "c = 10 \<or> c = 13"
    | "0 < c" "\<not> (32 \<le> c \<and> i < 1023)" "\<not> (c = 8 \<and> 0 < i)" "\<not> (c = 10 \<or> c = 13)" by linarith
  then show ?case
  proof cases
    case 3
    have "take (i + 1) (buf[i := word_of_int c]) = rev (word_of_int c # rl)"
      using Cons.prems by (simp add: take_Suc_conv_app_nth)
    then show ?thesis using Cons.IH [of "buf[i := word_of_int c]" "i + 1" "word_of_int c # rl"] 3 i Cons.prems by (simp add: BUFSIZE_def)
  next
    case 4
    have "take (i - 1) buf = take (i - 1) (take i buf)" by simp
    also have "\<dots> = rev (tl rl)" unfolding Cons.prems(3) using 4 i by (cases rl) simp_all
    finally show ?thesis using Cons.IH [of buf "i - 1" "tl rl"] 4 i Cons.prems by (cases rl) (auto simp: BUFSIZE_def)
  next
    case 5
    then show ?thesis using i Cons.prems by (auto simp: BUFSIZE_def)
  next
    case 6
    then show ?thesis using i Cons.IH [OF Cons.prems] by (auto simp: BUFSIZE_def)
  qed (use Cons in auto)
qed simp

section \<open>Properties\<close>

text \<open>The buffer of standard input is a queue of 4096 bytes. While there is room, a non-zero byte that arrives is added behind the
  unread ones and a read of \<open>n\<close> bytes takes the first \<open>n\<close> unread bytes, in the order of their arrival; a reader blocks exactly when
  fewer are there. When the buffer is full, the byte that arrives replaces the oldest unread byte, so it is read first.\<close>

theorem stdin_queue:
  assumes "stdin_ok d" "c \<noteq> 0" "wqueues s q = []"
  shows "(length (stdin_unread d) < 4096 \<longrightarrow>
      (\<exists>d'. dev_stdin_write q c d s = Some (d', s) \<and> stdin_ok d' \<and> stdin_unread d' = stdin_unread d @ [c])) \<and>
    (length (stdin_unread d) = 4096 \<longrightarrow>
      (\<exists>d'. dev_stdin_write q c d s = Some (d', s) \<and> stdin_ok d' \<and> stdin_unread d' = c # tl (stdin_unread d))) \<and>
    (n \<le> length (stdin_unread d) \<longrightarrow>
      (\<exists>d'. dev_stdin_read q n d s = Some (Finished, take n (stdin_unread d), d', s) \<and> stdin_ok d' \<and> stdin_unread d' = drop n (stdin_unread d))) \<and>
    (length (stdin_unread d) < n \<longrightarrow> dev_stdin_read q n d s \<noteq> None \<longrightarrow>
      (\<exists>d' s'. dev_stdin_read q n d s = Some (Blocked, stdin_unread d, d', s') \<and> stdin_ok d' \<and> stdin_unread d' = []))"
proof -
  obtain d' where d': "stdin_read_loop n d = (take n (stdin_unread d), d')" "stdin_ok d'" "stdin_unread d' = drop n (stdin_unread d)"
    using stdin_read_loop_spec [OF assms(1)] by blast
  have w: "dev_stdin_write q c d s = Some (stdin_put c d, s)"
    using assms(2,3) by (simp add: dev_stdin_write_def wait_queue_empty_def)
  have r: "dev_stdin_read q n d s = Some (Finished, take n (stdin_unread d), d', s)" if "n \<le> length (stdin_unread d)"
    using that d'(1) by (simp add: dev_stdin_read_def)
  have "\<exists>d' s'. dev_stdin_read q n d s = Some (Blocked, stdin_unread d, d', s') \<and> stdin_ok d' \<and> stdin_unread d' = []"
    if "length (stdin_unread d) < n" "dev_stdin_read q n d s \<noteq> None"
    using that d' by (auto simp: dev_stdin_read_def split: Option.bind_splits)
  then show ?thesis using w r d' stdin_put_room [OF assms(1)] stdin_put_full [OF assms(1)] by auto
qed

theorem stdin_queue_witness:
  "\<exists>d'. dev_stdin_write 0 65 \<lparr>stdin_buffer = replicate 4096 0, p_rpos = 4095, p_wpos = 4095\<rparr> (demo_sync\<lparr>wqueues := (\<lambda>_. [])\<rparr>) =
     Some (d', demo_sync\<lparr>wqueues := (\<lambda>_. [])\<rparr>) \<and> stdin_unread d' = [65]"
  using stdin_queue [of "\<lparr>stdin_buffer = replicate 4096 0, p_rpos = 4095, p_wpos = 4095\<rparr>" 65 "demo_sync\<lparr>wqueues := (\<lambda>_. [])\<rparr>" 0 0]
  by (auto simp: stdin_ok_def stdin_unread_def)

text \<open>C39. \<open>readline\<close> returns the line as edited: the printable bytes up to the first newline or carriage return, each backspace removing
  the byte before it, bytes beyond the 1023rd dropped, with a zero behind them; it never writes outside its buffer of 1024 bytes. On
  an input without a line end it keeps waiting.\<close>

theorem readline_edits:
  assumes "length buf = 1024"
  shows "line_returned (edit_line cs []) (readline prompt cs buf)"
  using readline_loop_spec [of buf 0 "[]"] assms by (simp add: readline_def)

theorem readline_edits_witness:
  "\<exists>buf' cs' out. readline None [0, 97, 98, 8, 99, 10, 100] (replicate 1024 0) = Some (Some buf', 2, cs', out) \<and> take 2 buf' = [97, 99]"
  using readline_edits [of "replicate 1024 0" "[0, 97, 98, 8, 99, 10, 100]" None] by (auto simp: numeral_2_eq_2)

end
