(* ===== verification/Trapframe.thy ===== *)
theory Trapframe
  imports Prelude
begin

text \<open>
  The registers that a trap saves (\<open>kern/trap/trap.h\<close>), and the frame a new process starts with (\<open>copy_thread\<close>).
\<close>

unbundle bit_operations_syntax

section \<open>Saved registers\<close>

record pushregs =
  r_zero :: "64 word"
  r_ra :: "64 word"
  r_sp :: "64 word"
  r_gp :: "64 word"
  r_tp :: "64 word"
  r_t0 :: "64 word"
  r_t1 :: "64 word"
  r_t2 :: "64 word"
  r_s0 :: "64 word"
  r_s1 :: "64 word"
  r_a0 :: "64 word"
  r_a1 :: "64 word"
  r_a2 :: "64 word"
  r_a3 :: "64 word"
  r_a4 :: "64 word"
  r_a5 :: "64 word"
  r_a6 :: "64 word"
  r_a7 :: "64 word"
  r_s2 :: "64 word"
  r_s3 :: "64 word"
  r_s4 :: "64 word"
  r_s5 :: "64 word"
  r_s6 :: "64 word"
  r_s7 :: "64 word"
  r_s8 :: "64 word"
  r_s9 :: "64 word"
  r_s10 :: "64 word"
  r_s11 :: "64 word"
  r_t3 :: "64 word"
  r_t4 :: "64 word"
  r_t5 :: "64 word"
  r_t6 :: "64 word"

record trapframe =
  gpr :: pushregs
  tf_status :: "64 word"
  tf_epc :: "64 word"
  tf_tval :: "64 word"
  tf_cause :: "64 word"

text \<open>The frame after \<open>memset (tf, 0, sizeof (struct trapframe))\<close>.\<close>

definition zero_frame :: trapframe where
  "zero_frame = \<lparr>gpr = \<lparr>r_zero = 0, r_ra = 0, r_sp = 0, r_gp = 0, r_tp = 0, r_t0 = 0, r_t1 = 0, r_t2 = 0, r_s0 = 0, r_s1 = 0, r_a0 = 0, r_a1 = 0,
     r_a2 = 0, r_a3 = 0, r_a4 = 0, r_a5 = 0, r_a6 = 0, r_a7 = 0, r_s2 = 0, r_s3 = 0, r_s4 = 0, r_s5 = 0, r_s6 = 0, r_s7 = 0, r_s8 = 0, r_s9 = 0,
     r_s10 = 0, r_s11 = 0, r_t3 = 0, r_t4 = 0, r_t5 = 0, r_t6 = 0\<rparr>, tf_status = 0, tf_epc = 0, tf_tval = 0, tf_cause = 0\<rparr>"

definition SSTATUS_SPIE :: "64 word" where "SSTATUS_SPIE = 0x20"
definition SSTATUS_SPP :: "64 word" where "SSTATUS_SPP = 0x100"

definition trap_in_kernel :: "trapframe \<Rightarrow> bool" where
  "trap_in_kernel tf \<longleftrightarrow> tf_status tf AND SSTATUS_SPP \<noteq> 0"

definition set_a0 :: "64 word \<Rightarrow> trapframe \<Rightarrow> trapframe" where
  "set_a0 w tf = tf\<lparr>gpr := (gpr tf)\<lparr>r_a0 := w\<rparr>\<rparr>"

text \<open>The frame that \<open>copy_thread\<close> puts on the kernel stack of the new process, at address \<open>a\<close>.\<close>

definition copy_thread :: "64 word \<Rightarrow> 64 word \<Rightarrow> trapframe \<Rightarrow> trapframe" where
  "copy_thread a esp tf =
     (let tf = set_a0 0 tf in tf\<lparr>gpr := (gpr tf)\<lparr>r_sp := (if esp = 0 then a else esp)\<rparr>\<rparr>)"

end
