(* ===== verification/Namefile.thy ===== *)
theory Namefile
  imports Files
begin

text \<open>
  Path names (lab8/kern/fs/sfs/sfs_inode.c \<open>sfs_namefile\<close>, vfs/vfspath.c \<open>vfs_getcwd\<close>): the path of a directory is built from its
  end by climbing through the entries \<open>..\<close> up to the root. The loop ends because every round that goes on uses up space of the
  buffer. The specification \<open>up_path\<close> describes the names on the way to the root on the directories themselves.
\<close>

section \<open>Operations\<close>

text \<open>One round of the loop of \<open>sfs_namefile\<close> at node \<open>n\<close>: either the loop ends with a return code (the reference to the
  current node given back), or it goes on at the parent with the name that the parent has for the node. \<open>eok\<close> and \<open>al\<close>
  are the allocations of the look-up.\<close>

definition name_step :: "bool \<Rightarrow> inode_alloc \<Rightarrow> nat \<Rightarrow> nat \<Rightarrow> vfs \<Rightarrow> (int \<times> vfs + nat \<times> bytes \<times> vfs) option" where
  "name_step eok al n resid v = do {
     (ret, v, parent) \<leftarrow> (case al of (ok1, ok2, addr) \<Rightarrow> sfs_lookup_once eok ok1 ok2 addr n [46, 46] v);
     if ret \<noteq> 0 then do { (_, v) \<leftarrow> inode_ref_dec n v; Some (Inl (ret, v)) }
     else do {
       sin \<leftarrow> get_sin n v;
       let child = ino sin;
       (_, v) \<leftarrow> inode_ref_dec n v;
       if n = parent then do { (_, v) \<leftarrow> inode_ref_dec n v; Some (Inl (0, v)) }
       else do {
         sin \<leftarrow> get_sin parent v;
         kassert (child \<noteq> ino sin \<and> di_type (din sin) = SFS_TYPE_DIR);
         (ret, s, sin, e) \<leftarrow> sfs_dirent_findino_nolock (sfs v) sin child;
         v \<leftarrow> put_sin parent sin (v\<lparr>sfs := s\<rparr>);
         if ret \<noteq> 0 then do { (_, v) \<leftarrow> inode_ref_dec parent v; Some (Inl (ret, v)) }
         else if length (cstr (e_name e)) + 1 > resid
         then do { (_, v) \<leftarrow> inode_ref_dec parent v; Some (Inl (- E_NO_MEM, v)) }
         else Some (Inr (parent, cstr (e_name e), v)) } } }"

lemma name_step_up:
  assumes "name_step eok al n resid v = Some (Inr (parent, name, v'))"
  shows "length name < resid" "0 \<notin> set name"
  using assms
  by (auto simp: name_step_def Let_def kassert_def cstr_def dest: set_takeWhileD split: prod.splits if_splits Option.bind_splits)

text \<open>Round \<open>i\<close> of the loop uses the allocations \<open>eok i\<close> (the entry buffer of the search) and \<open>al i\<close> (an inode).
  \<open>ptr\<close> points into the buffer of the request; each name is put in front of the ones found so far.\<close>

function namefile_loop ::
    "(nat \<Rightarrow> bool) \<Rightarrow> (nat \<Rightarrow> inode_alloc) \<Rightarrow> nat \<Rightarrow> nat \<Rightarrow> bytes \<Rightarrow> nat \<Rightarrow> nat \<Rightarrow> vfs \<Rightarrow> (int \<times> bytes \<times> nat \<times> nat \<times> vfs) option" where
  "namefile_loop eok al i n buf ptr resid v =
     (case name_step (eok i) (al i) n resid v of
        None \<Rightarrow> None
      | Some (Inl (ret, v)) \<Rightarrow> Some (ret, buf, ptr, resid, v)
      | Some (Inr (parent, name, v)) \<Rightarrow>
          let alen = length name + 1; ptr = ptr - alen in
          (case mem_put buf ptr (name @ [47]) of
             None \<Rightarrow> None
           | Some buf \<Rightarrow> namefile_loop eok al (Suc i) parent buf ptr (resid - alen) v))"
  by pat_completeness auto
termination namefile_loop
  by (relation "measure (\<lambda>(eok, al, i, n, buf, ptr, resid, v). resid)") (auto dest: name_step_up)

declare namefile_loop.simps [simp del]

definition sfs_namefile ::
    "bool \<Rightarrow> (nat \<Rightarrow> bool) \<Rightarrow> (nat \<Rightarrow> inode_alloc) \<Rightarrow> nat \<Rightarrow> iobuf \<Rightarrow> vfs \<Rightarrow> (int \<times> iobuf \<times> vfs) option" where
  "sfs_namefile ok eok al n iob v =
     (if io_resid iob \<le> 2 \<or> \<not> ok then Some (- E_NO_MEM, iob, v)
      else do {
        (_, v) \<leftarrow> inode_ref_inc n v;
        (ret, buf, ptr, resid, v) \<leftarrow> namefile_loop eok al 0 n (io_buf iob) (io_base iob + io_resid iob) (io_resid iob - 2) v;
        if ret \<noteq> 0 then Some (ret, iob\<lparr>io_buf := buf\<rparr>, v)
        else do {
          let alen = io_resid iob - resid - 2;
          path \<leftarrow> mem_get buf ptr alen;
          buf \<leftarrow> mem_put buf (io_base iob + 1) path;
          buf \<leftarrow> mem_put buf (io_base iob) [47];
          buf \<leftarrow> mem_put buf (io_base iob + 1 + alen) [0];
          iob \<leftarrow> iobuf_skip (iob\<lparr>io_buf := buf\<rparr>) alen;
          Some (0, iob, v) } })"

definition vop_namefile ::
    "bool \<Rightarrow> (nat \<Rightarrow> bool) \<Rightarrow> (nat \<Rightarrow> inode_alloc) \<Rightarrow> nat \<Rightarrow> iobuf \<Rightarrow> vfs \<Rightarrow> (int \<times> iobuf \<times> vfs) option" where
  "vop_namefile ok eok al n iob v = do {
     nfo \<leftarrow> vop_op n v;
     case nfo of
       Device _ \<Rightarrow> None
     | Sfs sin \<Rightarrow> do { kassert (di_type (din sin) = SFS_TYPE_DIR); sfs_namefile ok eok al n iob v } }"

definition vfs_getcwd ::
    "bool \<Rightarrow> (nat \<Rightarrow> bool) \<Rightarrow> (nat \<Rightarrow> inode_alloc) \<Rightarrow> nat option \<Rightarrow> iobuf \<Rightarrow> fsys \<Rightarrow> (int \<times> iobuf \<times> fsys) option" where
  "vfs_getcwd ok eok al cwd iob f = do {
     (ret, f, n) \<leftarrow> vfs_get_curdir cwd f;
     if ret \<noteq> 0 then Some (ret, iob, f)
     else do {
       kassert (\<not> is_device n f);
       name \<leftarrow> vfs_get_devname f;
       (ret, _, iob, _) \<leftarrow> iobuf_move iob name (length name) True;
       (ret, iob, v) \<leftarrow>
         (if ret \<noteq> 0 then Some (ret, iob, vf f)
          else do {
            (ret, _, iob, _) \<leftarrow> iobuf_move iob [58] 1 True;
            if ret \<noteq> 0 then Some (ret, iob, vf f)
            else vop_namefile ok eok al n iob (vf f) });
       (_, v) \<leftarrow> inode_ref_dec n v;
       Some (ret, iob, f\<lparr>vf := v\<rparr>) } }"

section \<open>The path in the buffer\<close>

text \<open>The names of a path, each followed by a slash.\<close>

definition join :: "bytes list \<Rightarrow> bytes" where
  "join names = concat (map (\<lambda>x. x @ [47]) names)"

lemma join_Nil [simp]: "join [] = []"
  by (simp add: join_def)

lemma join_append [simp]: "join (xs @ ys) = join xs @ join ys"
  by (simp add: join_def)

lemma join_Cons [simp]: "join (x # xs) = x @ 47 # join xs"
  by (simp add: join_def)

text \<open>\<open>same_outside lo hi\<close>: two buffers agree outside the positions from \<open>lo\<close> to \<open>hi\<close>.\<close>

definition same_outside :: "nat \<Rightarrow> nat \<Rightarrow> bytes \<Rightarrow> bytes \<Rightarrow> bool" where
  "same_outside lo hi buf buf' \<longleftrightarrow> length buf' = length buf \<and> take lo buf' = take lo buf \<and> drop hi buf' = drop hi buf"

lemma same_outside_refl [simp]: "same_outside lo hi buf buf"
  by (simp add: same_outside_def)

lemma same_outside_trans: "same_outside lo hi a b \<Longrightarrow> same_outside lo hi b c \<Longrightarrow> same_outside lo hi a c"
  by (simp add: same_outside_def)

lemma blit_outside:
  assumes "lo \<le> off" "off + length ys \<le> hi" "hi \<le> length xs"
  shows "same_outside lo hi xs (blit xs off ys)"
proof -
  have "off \<le> length xs" "off + length ys \<le> length xs" using assms by auto
  then show ?thesis using assms by (simp add: same_outside_def blit_def)
qed

lemma seg_blit_front:
  assumes "off + length ys \<le> length xs"
  shows "seg off (length ys + k) (blit xs off ys) = ys @ seg (off + length ys) k xs"
  using assms by (simp add: seg_def blit_def min_def)

lemma namefile_loop_path:
  assumes "namefile_loop eok al i n buf ptr resid v = Some (ret, buf', ptr', resid', v')"
    and "lo + 2 + resid = ptr" "ptr + k = hi" "hi \<le> length buf" "seg ptr k buf = join names"
  shows "same_outside (lo + 2) hi buf buf' \<and> (ret = 0 \<longrightarrow>
    (\<exists>ns. lo + 2 + resid' = ptr' \<and> ptr' \<le> ptr \<and> seg ptr' (hi - ptr') buf' = join (ns @ names) \<and> (\<forall>x\<in>set ns. 0 \<notin> set x)))"
  using assms
proof (induction resid arbitrary: i n buf ptr v k names rule: less_induct)
  case (less resid)
  note eq = less.prems(1) [unfolded namefile_loop.simps [of eok al i n buf ptr resid v]]
  show ?case
  proof (cases "name_step (eok i) (al i) n resid v")
    case None
    then show ?thesis using eq by simp
  next
    case (Some r)
    show ?thesis
    proof (cases r)
      case (Inl a)
      then have "buf' = buf" "ptr' = ptr" "resid' = resid" using eq Some by (auto split: prod.splits)
      moreover have "hi - ptr = k" using less.prems(3) by simp
      ultimately show ?thesis using less.prems by (auto intro!: exI [of _ "[]"])
    next
      case (Inr a)
      obtain parent name v1 where r: "r = Inr (parent, name, v1)" using Inr by (cases a) auto
      note nm = name_step_up [OF Some [unfolded r]]
      define p where "p = ptr - (length name + 1)"
      have p: "p + length (name @ [47]) = ptr" "lo + 2 \<le> p" using nm(1) less.prems(2) by (auto simp: p_def)
      have fit: "p + length (name @ [47]) \<le> length buf" using p(1) less.prems(3,4) by simp
      let ?b = "blit buf p (name @ [47])"
      have l: "namefile_loop eok al (Suc i) parent ?b p (resid - (length name + 1)) v1 = Some (ret, buf', ptr', resid', v')"
        using eq Some r fit by (simp add: mem_put_def Let_def p_def)
      have out: "same_outside (lo + 2) hi buf ?b" by (rule blit_outside) (use p less.prems(3,4) in auto)
      have sg: "seg p (length (name @ [47]) + k) ?b = join ([name] @ names)"
        using seg_blit_front [OF fit, of k] p(1) less.prems(5) by simp
      have "resid - (length name + 1) < resid" "lo + 2 + (resid - (length name + 1)) = p" "p + (length (name @ [47]) + k) = hi" "hi \<le> length ?b"
        using nm(1) less.prems(2-4) p fit by (auto simp: p_def)
      note ih = less.IH [OF this(1) l this(2-4) sg]
      show ?thesis
      proof (intro conjI impI)
        show "same_outside (lo + 2) hi buf buf'" using same_outside_trans [OF out] ih by blast
        assume "ret = 0"
        then obtain ns where "lo + 2 + resid' = ptr'" "ptr' \<le> p" "seg ptr' (hi - ptr') buf' = join (ns @ [name] @ names)" "\<forall>x\<in>set ns. 0 \<notin> set x"
          using ih by blast
        then show "\<exists>ns. lo + 2 + resid' = ptr' \<and> ptr' \<le> ptr \<and> seg ptr' (hi - ptr') buf' = join (ns @ names) \<and> (\<forall>x\<in>set ns. 0 \<notin> set x)"
          using nm(2) p(1) by (intro exI [of _ "ns @ [name]"]) auto
      qed
    qed
  qed
qed

section \<open>Directories along the way to the root\<close>

text \<open>A directory whose node is cached and held.\<close>

definition dir_node :: "vfs \<Rightarrow> nat \<Rightarrow> sfs_inode \<Rightarrow> bool" where
  "dir_node v n sin \<longleftrightarrow> n \<in> set (inode_list (sfs v)) \<and> (\<exists>i. nodes v n = Some i \<and> ref_count i > 0 \<and> in_info i = Sfs sin) \<and>
     di_type (din sin) = SFS_TYPE_DIR \<and> ino_ok (sfs v) (din sin)"

lemma findino_slots_spec:
  assumes "fs_ok s" "ino_ok s (din sin)" "di_type (din sin) = SFS_TYPE_DIR" "i + n = di_blocks (din sin)"
  shows "\<exists>s'. findino_slots k i n s sin =
      (case List.find (\<lambda>j. e_ino (dirent s (din sin) j) = k) [i..<i + n] of
         Some j \<Rightarrow> Some (0, s', sin, dirent s (din sin) j)
       | None \<Rightarrow> Some (- E_NOENT, s', sin, bytes_entry [])) \<and> read_only s s'"
  using assms
proof (induction n arbitrary: i s)
  case 0
  then show ?case using read_only_refl by auto
next
  case (Suc n)
  have i: "i < di_blocks (din sin)" using Suc.prems(4) by simp
  obtain s1 where s1: "sfs_dirent_read_nolock s sin i = Some (0, s1, sin, dirent s (din sin) i)" "read_only s s1"
    using dirent_read_spec [OF Suc.prems(1,2,3) i] by blast
  note f = read_only_facts [OF s1(2) Suc.prems(2)]
  have up: "[i..<i + Suc n] = i # [Suc i..<Suc i + n]" by (simp add: upt_rec)
  have eq: "List.find (\<lambda>j. e_ino (dirent s1 (din sin) j) = k) [Suc i..<Suc i + n] = List.find (\<lambda>j. e_ino (dirent s (din sin) j) = k) [Suc i..<Suc i + n]"
    by (rule find_cong) (use f(3) Suc.prems(4) in auto)
  have en: "dirent s1 (din sin) j = dirent s (din sin) j" if "List.find (\<lambda>j. e_ino (dirent s (din sin) j) = k) [Suc i..<Suc i + n] = Some j" for j
    using find_SomeD [OF that] f(3) [of j] Suc.prems(4) by auto
  obtain s' where r: "findino_slots k (Suc i) n s1 sin =
      (case List.find (\<lambda>j. e_ino (dirent s1 (din sin) j) = k) [Suc i..<Suc i + n] of
         Some j \<Rightarrow> Some (0, s', sin, dirent s1 (din sin) j)
       | None \<Rightarrow> Some (- E_NOENT, s', sin, bytes_entry []))" "read_only s1 s'"
    using Suc.IH [OF f(5,1) Suc.prems(3), of "Suc i"] Suc.prems(4) by auto
  show ?case
  proof (cases "e_ino (dirent s (din sin) i) = k")
    case True
    then show ?thesis using s1 unfolding up by auto
  next
    case False
    then have "findino_slots k i (Suc n) s sin = findino_slots k (Suc i) n s1 sin" using s1(1) by simp
    then show ?thesis using r read_only_trans [OF s1(2) r(2)] False eq en unfolding up
      by (auto split: option.splits)
  qed
qed

text \<open>The states the loop passes through: those of \<open>v\<close> with more references and a volume that was only read.\<close>

definition walk :: "(nat \<Rightarrow> int) \<Rightarrow> sfs_fs \<Rightarrow> vfs \<Rightarrow> vfs" where
  "walk r s v = bump r (\<lambda>_. 0) (v\<lparr>sfs := s\<rparr>)"

lemma walk_sfs [simp]: "sfs (walk r s v) = s" "(walk r s v)\<lparr>sfs := s'\<rparr> = walk r s' v"
  by (simp_all add: walk_def bump_def)

lemma walk_get_sin:
  assumes "dir_node v n sin"
  shows "get_sin n (walk r s v) = Some sin" "put_sin n sin (walk r s v) = Some (walk r s v)"
proof -
  obtain i where i: "nodes v n = Some i" "in_info i = Sfs sin" using assms by (auto simp: dir_node_def)
  then show "get_sin n (walk r s v) = Some sin" by (simp add: get_sin_def walk_def bump_def count_add_def vop_info_def)
  have "(count_add a b i)\<lparr>in_info := Sfs sin\<rparr> = count_add a b i" for a b using i(2) by (cases i) (simp add: count_add_def)
  then show "put_sin n sin (walk r s v) = Some (walk r s v)"
    using i(1) by (auto simp: put_sin_def walk_def bump_def set_node_def fun_eq_iff)
qed

lemma walk_ref:
  assumes "dir_node v n sin"
  shows "\<exists>k. inode_ref_inc n (walk r s v) = Some (k, walk (r(n := r n + 1)) s v)"
    and "r n > 0 \<Longrightarrow> \<exists>k. inode_ref_dec n (walk r s v) = Some (k, walk (r(n := r n - 1)) s v)"
proof -
  have "ref_held (v\<lparr>sfs := s\<rparr>) n" using assms by (auto simp: dir_node_def ref_held_def)
  then show "\<exists>k. inode_ref_inc n (walk r s v) = Some (k, walk (r(n := r n + 1)) s v)"
    and "r n > 0 \<Longrightarrow> \<exists>k. inode_ref_dec n (walk r s v) = Some (k, walk (r(n := r n - 1)) s v)"
    unfolding walk_def using ref_inc_bump ref_dec_bump by blast+
qed

text \<open>Looking up a name that leads to a directory in the cache takes one reference to it.\<close>

lemma lookup_walk:
  assumes c: "cache_ok v" and s: "read_only (sfs v) s" and n: "dir_node v n sin" and m: "dir_node v m psin"
    and hit: "List.find (dir_hit (sfs v) (din sin) name) [0..<di_blocks (din sin)] = Some j" "e_ino (dirent (sfs v) (din sin) j) = ino psin"
    and name: "length name \<le> SFS_MAX_FNAME_LEN" and r: "r m \<ge> 0"
  shows "\<exists>s'. read_only (sfs v) s' \<and> sfs_lookup_once True ok1 ok2 addr n name (walk r s v) = Some (0, walk (r(m := r m + 1)) s' v, m)"
proof -
  have no: "ino_ok (sfs v) (din sin)" "di_type (din sin) = SFS_TYPE_DIR" using n by (auto simp: dir_node_def)
  note f = read_only_facts [OF s no(1)]
  have eq: "List.find (dir_hit s (din sin) name) [0..<di_blocks (din sin)] = Some j"
    unfolding hit(1) [symmetric] by (rule find_cong) (use f(3) in \<open>auto simp: dir_hit_def\<close>)
  have "j < di_blocks (din sin)" using hit(1) by (auto dest: find_SomeD)
  then have ej: "e_ino (dirent s (din sin) j) = ino psin" using f(3) hit(2) by simp
  obtain s' emp where sr: "search_slots name 0 (di_blocks (din sin)) (di_blocks (din sin)) s sin = Some (0, s', sin, Some (j, ino psin), emp)" "read_only s s'"
    using search_slots_spec [OF f(5,1) no(2), of 0 "di_blocks (din sin)" name "di_blocks (din sin)"] eq ej by auto
  have s': "read_only (sfs v) s'" using read_only_trans [OF s sr(2)] .
  let ?v = "walk r s' v"
  have g: "get_sin x ?v = get_sin x v" for x
    by (cases "nodes v x") (simp_all add: get_sin_def walk_def bump_def count_add_def vop_info_def)
  have c': "cache_ok ?v"
    by (rule cache_ok_cong [OF c]) (use c read_only_links [OF s'] g in \<open>auto simp: cache_ok_def ino_of_def\<close>)
  obtain i where i: "nodes v m = Some i" "ref_count i > 0" "in_info i = Sfs psin" using m by (auto simp: dir_node_def)
  have ml: "m \<in> set (inode_list (sfs ?v))" using m read_only_links [OF s'] by (simp add: dir_node_def)
  have io: "ino_of ?v m = ino psin" using i(1,3) by (simp add: ino_of_def g) (simp add: get_sin_def vop_info_def)
  have i': "nodes ?v m = Some (count_add (r m) 0 i)" using i(1) by (simp add: walk_def bump_def)
  have "take_ref (count_add (r m) 0 i) = count_add (r m + 1) 0 i" using i(2,3) r by (simp add: take_ref_def count_add_def)
  then have "set_node m (take_ref (count_add (r m) 0 i)) ?v = walk (r(m := r m + 1)) s' v"
    using bump_set [of "v\<lparr>sfs := s'\<rparr>" m i "r m + 1" 0 r "\<lambda>_. 0"] i(1) by (simp add: walk_def fun_upd_idem)
  then have "sfs_load_inode ok1 ok2 addr (ino psin) ?v = Some (0, walk (r(m := r m + 1)) s' v, m)"
    using load_cached(1) [OF c' ml i', of ok1 ok2 addr] io by simp
  then show ?thesis using s' sr(1) name walk_get_sin [OF n]
    by (auto simp: sfs_lookup_once_def sfs_dirent_search_nolock_def kassert_def)
qed

text \<open>\<open>up_path v n ns\<close>: climbing through the entries \<open>..\<close> from directory \<open>n\<close> reaches the root (its own parent), and \<open>ns\<close>
  are the names on the way down, each taken from the first entry of the parent that has the inode number of the child.\<close>

definition parent_of :: "vfs \<Rightarrow> sfs_inode \<Rightarrow> sfs_inode \<Rightarrow> bool" where
  "parent_of v sin psin \<longleftrightarrow> (\<exists>j. List.find (dir_hit (sfs v) (din sin) [46, 46]) [0..<di_blocks (din sin)] = Some j \<and>
     e_ino (dirent (sfs v) (din sin) j) = ino psin)"

definition name_in :: "vfs \<Rightarrow> sfs_inode \<Rightarrow> sfs_inode \<Rightarrow> bytes \<Rightarrow> bool" where
  "name_in v psin sin name \<longleftrightarrow> (\<exists>j. List.find (\<lambda>j. e_ino (dirent (sfs v) (din psin) j) = ino sin) [0..<di_blocks (din psin)] = Some j \<and>
     cstr (e_name (dirent (sfs v) (din psin) j)) = name)"

inductive up_path :: "vfs \<Rightarrow> nat \<Rightarrow> bytes list \<Rightarrow> bool" for v where
  root: "dir_node v n sin \<Longrightarrow> parent_of v sin sin \<Longrightarrow> up_path v n []"
| up: "dir_node v n sin \<Longrightarrow> dir_node v m psin \<Longrightarrow> m \<noteq> n \<Longrightarrow> parent_of v sin psin \<Longrightarrow> name_in v psin sin name \<Longrightarrow> up_path v m ns \<Longrightarrow>
    up_path v n (ns @ [name])"

abbreviation one_ref :: "nat \<Rightarrow> nat \<Rightarrow> int" where
  "one_ref n \<equiv> (\<lambda>_. 0)(n := 1)"

lemma name_step_root:
  assumes "cache_ok v" "read_only (sfs v) s" "dir_node v n sin" "parent_of v sin sin"
  shows "\<exists>s'. read_only (sfs v) s' \<and> name_step True al n resid (walk (one_ref n) s v) = Some (Inl (0, walk (\<lambda>_. 0) s' v))"
proof -
  obtain ok1 ok2 addr where al: "al = (ok1, ok2, addr)" by (cases al) auto
  obtain s' where l: "read_only (sfs v) s'" "sfs_lookup_once True ok1 ok2 addr n [46, 46] (walk (one_ref n) s v) = Some (0, walk ((one_ref n)(n := 2)) s' v, n)"
    using lookup_walk [OF assms(1,2,3,3), of "[46, 46]" _ "one_ref n" ok1 ok2 addr] assms(4) by (auto simp: parent_of_def SFS_MAX_FNAME_LEN_def)
  obtain k1 where k1: "inode_ref_dec n (walk ((one_ref n)(n := 2)) s' v) = Some (k1, walk (one_ref n) s' v)"
    using walk_ref(2) [OF assms(3), of "(one_ref n)(n := 2)" s'] by auto
  obtain k2 where k2: "inode_ref_dec n (walk (one_ref n) s' v) = Some (k2, walk (\<lambda>_. 0) s' v)"
    using walk_ref(2) [OF assms(3), of "one_ref n" s'] by (auto simp: fun_upd_idem)
  show ?thesis using l k1 k2 walk_get_sin(1) [OF assms(3)] by (auto simp: name_step_def al Let_def)
qed

lemma name_step_parent:
  assumes c: "cache_ok v" "read_only (sfs v) s" and d: "dir_node v n sin" "dir_node v m psin" "m \<noteq> n"
    and p: "parent_of v sin psin" "name_in v psin sin name"
  shows "\<exists>s'. read_only (sfs v) s' \<and> name_step True al n resid (walk (one_ref n) s v) =
    Some (if length name + 1 > resid then Inl (- E_NO_MEM, walk (\<lambda>_. 0) s' v) else Inr (m, name, walk (one_ref m) s' v))"
proof -
  obtain ok1 ok2 addr where al: "al = (ok1, ok2, addr)" by (cases al) auto
  have e: "((one_ref n)(m := 1))(n := 0) = one_ref m" using d(3) by auto
  obtain s1 where l: "read_only (sfs v) s1" "sfs_lookup_once True ok1 ok2 addr n [46, 46] (walk (one_ref n) s v) = Some (0, walk ((one_ref n)(m := 1)) s1 v, m)"
    using lookup_walk [OF c d(1,2), of "[46, 46]" _ "one_ref n" ok1 ok2 addr] p(1) d(3) by (auto simp: parent_of_def SFS_MAX_FNAME_LEN_def)
  obtain k1 where k1: "inode_ref_dec n (walk ((one_ref n)(m := 1)) s1 v) = Some (k1, walk (one_ref m) s1 v)"
    using walk_ref(2) [OF d(1), of "(one_ref n)(m := 1)" s1] d(3) e by auto
  have po: "ino_ok (sfs v) (din psin)" "di_type (din psin) = SFS_TYPE_DIR" using d(2) by (auto simp: dir_node_def)
  note f = read_only_facts [OF l(1) po(1)]
  obtain j where j: "List.find (\<lambda>j. e_ino (dirent (sfs v) (din psin) j) = ino sin) [0..<di_blocks (din psin)] = Some j"
      "cstr (e_name (dirent (sfs v) (din psin) j)) = name" using p(2) by (auto simp: name_in_def)
  have jb: "j < di_blocks (din psin)" using j(1) by (auto dest: find_SomeD)
  have "List.find (\<lambda>j. e_ino (dirent s1 (din psin) j) = ino sin) [0..<di_blocks (din psin)] = Some j"
    unfolding j(1) [symmetric] by (rule find_cong) (use f(3) in auto)
  then obtain s2 where s2: "sfs_dirent_findino_nolock s1 psin (ino sin) = Some (0, s2, psin, dirent s1 (din psin) j)" "read_only s1 s2"
    using findino_slots_spec [OF f(5,1) po(2), of 0 "di_blocks (din psin)" "ino sin"] by (auto simp: sfs_dirent_findino_nolock_def)
  have s2': "read_only (sfs v) s2" using read_only_trans [OF l(1) s2(2)] .
  obtain k2 where k2: "inode_ref_dec m (walk (one_ref m) s2 v) = Some (k2, walk (\<lambda>_. 0) s2 v)"
    using walk_ref(2) [OF d(2), of "one_ref m" s2] by (auto simp: fun_upd_idem)
  have io: "ino_of v n = ino sin" "ino_of v m = ino psin" using d(1,2) by (auto simp: dir_node_def ino_of_def get_sin_def vop_info_def)
  then have ne: "ino sin \<noteq> ino psin" using c(1) d by (auto simp: cache_ok_def dir_node_def inj_on_def)
  show ?thesis
    using l k1 k2 s2(1) s2' ne po(2) f(3) [OF jb] j(2) d(3) walk_get_sin [OF d(1)] walk_get_sin [OF d(2)]
    by (intro exI [of _ s2]) (auto simp: name_step_def al Let_def kassert_def)
qed

lemma blit_blit_front:
  assumes "length xs \<le> p" "p + length ys \<le> length buf"
  shows "blit (blit buf p ys) (p - length xs) xs = blit buf (p - length xs) (xs @ ys)"
  using assms by (simp add: blit_def min_def)

lemma namefile_loop_walk:
  assumes "up_path v n ns" "cache_ok v" "read_only (sfs v) s" "resid \<le> ptr" "ptr \<le> length buf"
  shows "\<exists>s' buf' ptr' resid'. read_only (sfs v) s' \<and>
    (if length (join ns) \<le> resid
     then namefile_loop (\<lambda>_. True) al i n buf ptr resid (walk (one_ref n) s v) =
       Some (0, blit buf (ptr - length (join ns)) (join ns), ptr - length (join ns), resid - length (join ns), walk (\<lambda>_. 0) s' v)
     else namefile_loop (\<lambda>_. True) al i n buf ptr resid (walk (one_ref n) s v) = Some (- E_NO_MEM, buf', ptr', resid', walk (\<lambda>_. 0) s' v))"
  using assms
proof (induction arbitrary: s i buf ptr resid rule: up_path.induct)
  case (root n sin)
  obtain s' where "read_only (sfs v) s'" "name_step True (al i) n resid (walk (one_ref n) s v) = Some (Inl (0, walk (\<lambda>_. 0) s' v))"
    using name_step_root [OF root.prems(1,2) root.hyps, of "al i" resid] by blast
  then show ?case by (subst namefile_loop.simps) (auto simp: blit_def)
next
  case (up n sin m psin name ns)
  obtain s1 where s1: "read_only (sfs v) s1" "name_step True (al i) n resid (walk (one_ref n) s v) =
      Some (if length name + 1 > resid then Inl (- E_NO_MEM, walk (\<lambda>_. 0) s1 v) else Inr (m, name, walk (one_ref m) s1 v))"
    using name_step_parent [OF up.prems(1,2) up.hyps(1-5), of "al i" resid] by blast
  show ?case
  proof (cases "length name + 1 > resid")
    case True
    then show ?thesis using s1 by (subst namefile_loop.simps) auto
  next
    case False
    define p where "p = ptr - (length name + 1)"
    have p: "p + length (name @ [47]) = ptr" "p + (length name + 1) \<le> length buf" using False up.prems(3,4) by (simp_all add: p_def)
    let ?b = "blit buf p (name @ [47])" and ?r = "resid - (length name + 1)"
    have "?r \<le> p" "p \<le> length ?b" using up.prems(3,4) False p by (auto simp: p_def)
    from up.IH [OF up.prems(1) s1(1) this, of "Suc i"]
    obtain s' buf' ptr' resid' where ih: "read_only (sfs v) s'" "if length (join ns) \<le> ?r
        then namefile_loop (\<lambda>_. True) al (Suc i) m ?b p ?r (walk (one_ref m) s1 v) =
          Some (0, blit ?b (p - length (join ns)) (join ns), p - length (join ns), ?r - length (join ns), walk (\<lambda>_. 0) s' v)
        else namefile_loop (\<lambda>_. True) al (Suc i) m ?b p ?r (walk (one_ref m) s1 v) = Some (- E_NO_MEM, buf', ptr', resid', walk (\<lambda>_. 0) s' v)"
      by blast
    have st: "namefile_loop (\<lambda>_. True) al i n buf ptr resid (walk (one_ref n) s v) = namefile_loop (\<lambda>_. True) al (Suc i) m ?b p ?r (walk (one_ref m) s1 v)"
      using s1(2) False p by (subst namefile_loop.simps) (simp add: mem_put_def Let_def p_def)
    have len: "length (join (ns @ [name])) = length (join ns) + (length name + 1)" by simp
    show ?thesis
    proof (cases "length (join ns) \<le> ?r")
      case True
      then have "length (join ns) \<le> p" using \<open>?r \<le> p\<close> by simp
      then have "blit ?b (p - length (join ns)) (join ns) = blit buf (p - length (join ns)) (join ns @ name @ [47])"
        by (rule blit_blit_front) (use p in simp)
      moreover have "p - length (join ns) = ptr - length (join (ns @ [name]))" "?r - length (join ns) = resid - length (join (ns @ [name]))"
        unfolding len by (simp_all add: p_def)
      moreover have "length (join (ns @ [name])) \<le> resid" unfolding len using True False by simp
      ultimately show ?thesis using ih st True by auto
    next
      case False': False
      then have "\<not> length (join (ns @ [name])) \<le> resid" unfolding len by simp
      then show ?thesis using ih st False' by auto
    qed
  qed
qed

lemma up_path_node: "up_path v n ns \<Longrightarrow> \<exists>sin. dir_node v n sin"
  by (induction rule: up_path.induct) auto

lemma walk_start: "walk (\<lambda>_. 0) (sfs v) v = v"
  by (simp add: walk_def bump_0)

lemma blit_framed:
  assumes "lo + length xs + 2 \<le> length b"
  shows "seg lo (length xs + 2) (blit (blit (blit b (lo + 1) xs) lo [47]) (lo + 1 + length xs) [0]) = 47 # xs @ [0]"
proof -
  have "blit (blit b (lo + 1) xs) lo [47] = take lo b @ 47 # xs @ drop (lo + 1 + length xs) b"
    using assms by (simp add: blit_def)
  moreover have "drop (lo + 1 + length xs) b \<noteq> []" using assms by simp
  then obtain z zs where "drop (lo + 1 + length xs) b = z # zs" by (cases "drop (lo + 1 + length xs) b") auto
  ultimately have "blit (blit (blit b (lo + 1) xs) lo [47]) (lo + 1 + length xs) [0] = take lo b @ (47 # xs @ [0]) @ zs"
    using assms by (simp add: blit_def)
  then show ?thesis using assms by (simp add: seg_def)
qed


text \<open>The witness: the example directory with the entry \<open>..\<close> that refers to itself is the root.\<close>

definition root_fs :: sfs_fs where
  "root_fs = example_fs\<lparr>dev := example_disk\<lparr>img := blit (img example_disk) (4096 * 2) ([1, 0, 0, 0, 46, 46] @ replicate 4090 0)\<rparr>,
     inode_list := [0], hash_list := (\<lambda>h. if h = sin_hashfn 1 then [0] else [])\<rparr>"

definition root_vfs :: vfs where
  "root_vfs = \<lparr>sfs = root_fs, nodes = [0 \<mapsto> \<lparr>in_info = Sfs example_dir, ref_count = 1, open_count = 0\<rparr>]\<rparr>"

lemma root_fs_ok: "fs_ok root_fs"
proof -
  have f: "free root_fs = free example_fs" by (simp add: free_def root_fs_def)
  have "disk_ok (dev root_fs)" using example_disk_ok by (simp add: disk_ok_def root_fs_def example_disk_def)
  then show ?thesis using example_fs_ok unfolding fs_ok_def f by (simp add: root_fs_def vol_ok_def example_disk_def example_fs_def)
qed

lemma root_bmap: "i < 1036 \<Longrightarrow> bmap root_fs (din example_dir) i = (if i = 0 then 2 else 0)"
  by (auto simp: bmap_def example_dir_def example_inode1_def example_inode_def nth_Cons split: nat.splits)

lemma root_dir_ok: "ino_ok root_fs (din example_dir)"
proof -
  have "2 \<in> used root_fs" using example_free by (simp add: used_def free_def root_fs_def example_fs_def)
  then show ?thesis using root_bmap by (auto simp: ino_ok_def example_dir_def example_inode1_def example_inode_def lessThan_Suc)
qed

lemma root_dirent: "dirent root_fs (din example_dir) 0 = \<lparr>e_ino = 1, e_name = 46 # 46 # replicate 254 0\<rparr>"
proof -
  have "blk root_fs 2 = [1, 0, 0, 0, 46, 46] @ replicate 4090 0"
    using blk_write [OF example_disk_ok, of 2 2 "[1, 0, 0, 0, 46, 46] @ replicate 4090 0"]
    by (simp add: blk_def root_fs_def example_disk_def)
  moreover have "(46 # 46 # replicate 254 0)[255 := 0] = (46 # 46 # replicate 254 0 :: bytes)" by (simp add: list_update_same_conv)
  ultimately show ?thesis
    using root_bmap [of 0] by (simp add: dirent_def bytes_entry_def seg_def Let_def SFS_MAX_FNAME_LEN_def)
qed

lemma root_up_path: "up_path root_vfs 0 []"
proof (rule up_path.root)
  show "dir_node root_vfs 0 example_dir"
    using root_dir_ok by (simp add: dir_node_def root_vfs_def example_dir_def) (simp add: root_fs_def)
  have "di_blocks (din example_dir) = 1" "ino example_dir = 1" by (simp_all add: example_dir_def example_inode1_def example_inode_def)
  moreover have "dir_hit root_fs (din example_dir) [46, 46] 0" by (simp add: dir_hit_def root_dirent cstr_def)
  ultimately show "parent_of root_vfs example_dir example_dir"
    using root_dirent by (simp add: parent_of_def root_vfs_def)
qed

lemma root_cache_ok: "cache_ok root_vfs"
  by (auto simp: cache_ok_def root_vfs_def root_fs_def get_sin_def vop_info_def ino_of_def example_dir_def example_inode1_def example_inode_def)


end
