(* ===== verification/Sysfile.thy ===== *)
theory Sysfile
  imports Namefile Vma
begin

text \<open>
  The system calls on files (lab8/kern/fs/sysfile.c): paths and data are copied between user space and kernel buffers, in pieces of
  one page. The state is the address space and the file table of the process with memory as a function from addresses to bytes;
  \<open>kb\<close> is the address of the buffer that \<open>kmalloc\<close> returns, \<open>None\<close> if there is no memory. The lock of the address space only
  delimits the critical sections.
\<close>

section \<open>Kernel buffers in memory\<close>

definition mem_bytes :: "memory \<Rightarrow> nat \<Rightarrow> nat \<Rightarrow> bytes" where
  "mem_bytes m a n = map (\<lambda>i. m (a + i)) [0..<n]"

definition mem_store :: "nat \<Rightarrow> bytes \<Rightarrow> memory \<Rightarrow> memory" where
  "mem_store a bs m = (\<lambda>x. if a \<le> x \<and> x < a + length bs then bs ! (x - a) else m x)"

definition IOBUF_SIZE :: nat where "IOBUF_SIZE = 4096"
definition FS_MAX_FPATH_LEN :: nat where "FS_MAX_FPATH_LEN = 4095"

text \<open>What a system call on files works on: the address space of the process, memory, and its table of files.\<close>

record ucall =
  u_mm :: "mm_struct option"
  u_mem :: memory
  u_files :: files_struct

section \<open>Operations\<close>

text \<open>\<open>kb\<close> is the buffer \<open>kmalloc\<close> returns. The result is the path without its terminating zero.\<close>

definition copy_path :: "nat option \<Rightarrow> nat \<Rightarrow> ucall \<Rightarrow> int \<times> bytes \<times> ucall" where
  "copy_path kb src u =
     (case kb of
        None \<Rightarrow> (- E_NO_MEM, [], u)
      | Some a \<Rightarrow>
          (case copy_string (u_mm u) a src (FS_MAX_FPATH_LEN + 1) (u_mem u) of
             (False, mm, m) \<Rightarrow> (- E_INVAL, [], u\<lparr>u_mm := mm, u_mem := m\<rparr>)
           | (True, mm, m) \<Rightarrow> (0, mem_bytes m a (strnlen_mem m a (FS_MAX_FPATH_LEN + 1)), u\<lparr>u_mm := mm, u_mem := m\<rparr>)))"

definition sysfile_open ::
    "nat option \<Rightarrow> inode_alloc \<Rightarrow> bool \<Rightarrow> inode_alloc \<Rightarrow> inode_alloc \<Rightarrow> nat \<Rightarrow> 32 word \<Rightarrow> ucall \<Rightarrow> fsys \<Rightarrow> (int \<times> ucall \<times> fsys) option" where
  "sysfile_open kb al1 ok al2 al3 path flags u f =
     (case copy_path kb path u of (ret, p, u) \<Rightarrow>
        if ret \<noteq> 0 then Some (ret, u, f)
        else do {
          (ret, fs, f) \<leftarrow> file_open al1 ok al2 al3 p flags (u_files u) f;
          Some (ret, u\<lparr>u_files := fs\<rparr>, f) })"

definition sysfile_close :: "int \<Rightarrow> ucall \<Rightarrow> vfs \<Rightarrow> (int \<times> ucall \<times> vfs) option" where
  "sysfile_close k u v = do { (ret, fs, v) \<leftarrow> file_close k (u_files u) v; Some (ret, u\<lparr>u_files := fs\<rparr>, v) }"

text \<open>One round of the loop of \<open>sysfile_read\<close>: the return code, \<open>alen\<close>, and the new \<open>base\<close>, \<open>len\<close> and \<open>copied\<close>.\<close>

definition read_step ::
    "device_io \<Rightarrow> nat \<Rightarrow> int \<Rightarrow> nat \<Rightarrow> nat \<Rightarrow> nat \<Rightarrow> ucall \<Rightarrow> vfs \<Rightarrow> (int \<times> nat \<times> nat \<times> nat \<times> nat \<times> ucall \<times> vfs) option" where
  "read_step dio kb k base len got u v = do {
     let alen = (if IOBUF_SIZE > len then len else IOBUF_SIZE);
     (ret, alen, buf, fs, v) \<leftarrow> file_read dio k (mem_bytes (u_mem u) kb IOBUF_SIZE) alen (u_files u) v;
     let u = u\<lparr>u_mem := mem_store kb buf (u_mem u), u_files := fs\<rparr>;
     if alen \<noteq> 0
     then (case copy_to_user (u_mm u) base kb alen (u_mem u) of
         (True, mm, m) \<Rightarrow> do {
           kassert (len \<ge> alen);
           Some (ret, alen, base + alen, len - alen, got + alen, u\<lparr>u_mm := mm, u_mem := m\<rparr>, v) }
       | (False, mm, m) \<Rightarrow>
           Some (if ret = 0 then - E_INVAL else ret, alen, base, len, got, u\<lparr>u_mm := mm, u_mem := m\<rparr>, v))
     else Some (ret, alen, base, len, got, u, v) }"

lemma read_step_progress:
  "read_step dio kb k base len got u v = Some (0, alen, base', len', got', u', v') \<Longrightarrow> alen \<noteq> 0 \<Longrightarrow> len' + alen = len"
  by (auto simp: read_step_def Let_def kassert_def E_INVAL_def split: prod.splits bool.splits if_splits Option.bind_splits)

function sysread_loop ::
    "device_io \<Rightarrow> nat \<Rightarrow> int \<Rightarrow> nat \<Rightarrow> nat \<Rightarrow> nat \<Rightarrow> ucall \<Rightarrow> vfs \<Rightarrow> (int \<times> nat \<times> ucall \<times> vfs) option" where
  "sysread_loop dio kb k base len got u v =
     (if len = 0 then Some (0, got, u, v)
      else case read_step dio kb k base len got u v of
          None \<Rightarrow> None
        | Some (ret, alen, base, len, got, u, v) \<Rightarrow>
            if ret \<noteq> 0 \<or> alen = 0 then Some (ret, got, u, v) else sysread_loop dio kb k base len got u v)"
  by pat_completeness auto
termination sysread_loop
  by (relation "measure (\<lambda>(dio, kb, k, base, len, got, u, v). len)") (auto dest: read_step_progress)

declare sysread_loop.simps [simp del]

definition sysfile_read :: "nat option \<Rightarrow> device_io \<Rightarrow> int \<Rightarrow> nat \<Rightarrow> nat \<Rightarrow> ucall \<Rightarrow> vfs \<Rightarrow> (int \<times> ucall \<times> vfs) option" where
  "sysfile_read kb dio k base len u v =
     (if len = 0 then Some (0, u, v)
      else do {
        ok \<leftarrow> file_testfd k True False (u_files u);
        if \<not> ok then Some (- E_INVAL, u, v)
        else case kb of
            None \<Rightarrow> Some (- E_NO_MEM, u, v)
          | Some a \<Rightarrow> do {
              (ret, got, u, v) \<leftarrow> sysread_loop dio a k base len 0 u v;
              Some (if got \<noteq> 0 then int got else ret, u, v) } })"

definition write_step ::
    "device_io \<Rightarrow> nat \<Rightarrow> int \<Rightarrow> nat \<Rightarrow> nat \<Rightarrow> nat \<Rightarrow> ucall \<Rightarrow> vfs \<Rightarrow> (int \<times> nat \<times> nat \<times> nat \<times> nat \<times> ucall \<times> vfs) option" where
  "write_step dio kb k base len got u v =
     (let alen = (if IOBUF_SIZE > len then len else IOBUF_SIZE)
      in case copy_from_user (u_mm u) kb base alen False (u_mem u) of
          (False, mm, m) \<Rightarrow> Some (- E_INVAL, alen, base, len, got, u\<lparr>u_mm := mm, u_mem := m\<rparr>, v)
        | (True, mm, m) \<Rightarrow> do {
            let u = u\<lparr>u_mm := mm, u_mem := m\<rparr>;
            (ret, alen, buf, fs, v) \<leftarrow> file_write dio k (mem_bytes (u_mem u) kb IOBUF_SIZE) alen (u_files u) v;
            let u = u\<lparr>u_mem := mem_store kb buf (u_mem u), u_files := fs\<rparr>;
            if alen \<noteq> 0
            then do { kassert (len \<ge> alen); Some (ret, alen, base + alen, len - alen, got + alen, u, v) }
            else Some (ret, alen, base, len, got, u, v) })"

lemma write_step_progress:
  "write_step dio kb k base len got u v = Some (0, alen, base', len', got', u', v') \<Longrightarrow> alen \<noteq> 0 \<Longrightarrow> len' + alen = len"
  by (auto simp: write_step_def Let_def kassert_def E_INVAL_def split: prod.splits bool.splits if_splits Option.bind_splits)

function syswrite_loop ::
    "device_io \<Rightarrow> nat \<Rightarrow> int \<Rightarrow> nat \<Rightarrow> nat \<Rightarrow> nat \<Rightarrow> ucall \<Rightarrow> vfs \<Rightarrow> (int \<times> nat \<times> ucall \<times> vfs) option" where
  "syswrite_loop dio kb k base len got u v =
     (if len = 0 then Some (0, got, u, v)
      else case write_step dio kb k base len got u v of
          None \<Rightarrow> None
        | Some (ret, alen, base, len, got, u, v) \<Rightarrow>
            if ret \<noteq> 0 \<or> alen = 0 then Some (ret, got, u, v) else syswrite_loop dio kb k base len got u v)"
  by pat_completeness auto
termination syswrite_loop
  by (relation "measure (\<lambda>(dio, kb, k, base, len, got, u, v). len)") (auto dest: write_step_progress)

declare syswrite_loop.simps [simp del]

definition sysfile_write :: "nat option \<Rightarrow> device_io \<Rightarrow> int \<Rightarrow> nat \<Rightarrow> nat \<Rightarrow> ucall \<Rightarrow> vfs \<Rightarrow> (int \<times> ucall \<times> vfs) option" where
  "sysfile_write kb dio k base len u v =
     (if len = 0 then Some (0, u, v)
      else do {
        ok \<leftarrow> file_testfd k False True (u_files u);
        if \<not> ok then Some (- E_INVAL, u, v)
        else case kb of
            None \<Rightarrow> Some (- E_NO_MEM, u, v)
          | Some a \<Rightarrow> do {
              (ret, got, u, v) \<leftarrow> syswrite_loop dio a k base len 0 u v;
              Some (if got \<noteq> 0 then int got else ret, u, v) } })"

definition sysfile_seek :: "int \<Rightarrow> int \<Rightarrow> int \<Rightarrow> ucall \<Rightarrow> vfs \<Rightarrow> (int \<times> ucall \<times> vfs) option" where
  "sysfile_seek k p whence u v = do { (ret, fs, v) \<leftarrow> file_seek k p whence (u_files u) v; Some (ret, u\<lparr>u_files := fs\<rparr>, v) }"

text \<open>\<open>struct stat\<close> in memory: four bytes of padding, which are not initialised, follow the mode.\<close>

definition stat_bytes :: "bytes \<Rightarrow> stat \<Rightarrow> bytes" where
  "stat_bytes pad st = le_bytes 4 (st_mode st) @ pad @ le_bytes 8 (st_nlinks st) @ le_bytes 8 (st_blocks st) @ le_bytes 8 (st_size st)"

text \<open>\<open>a\<close> is the address of the local variable \<open>__local_stat\<close>.\<close>

definition sysfile_fstat :: "nat \<Rightarrow> int \<Rightarrow> nat \<Rightarrow> ucall \<Rightarrow> vfs \<Rightarrow> (int \<times> ucall \<times> vfs) option" where
  "sysfile_fstat a k dst u v = do {
     (ret, st, fs, v) \<leftarrow> file_fstat k (u_files u) v;
     let u = u\<lparr>u_files := fs\<rparr>;
     if ret \<noteq> 0 then Some (ret, u, v)
     else do {
       st \<leftarrow> st;
       let m = mem_store a (stat_bytes (mem_bytes (u_mem u) (a + 4) 4) st) (u_mem u);
       case copy_to_user (u_mm u) dst a 32 m of
         (b, mm, m) \<Rightarrow> Some (if b then ret else - E_INVAL, u\<lparr>u_mm := mm, u_mem := m\<rparr>, v) } }"

definition sysfile_fsync :: "int \<Rightarrow> ucall \<Rightarrow> vfs \<Rightarrow> (int \<times> ucall \<times> vfs) option" where
  "sysfile_fsync k u v = do { (ret, fs, v) \<leftarrow> file_fsync k (u_files u) v; Some (ret, u\<lparr>u_files := fs\<rparr>, v) }"

definition sysfile_chdir :: "nat option \<Rightarrow> inode_alloc \<Rightarrow> bool \<Rightarrow> inode_alloc \<Rightarrow> nat \<Rightarrow> ucall \<Rightarrow> fsys \<Rightarrow> (int \<times> ucall \<times> fsys) option" where
  "sysfile_chdir kb al1 ok al2 path u f =
     (case copy_path kb path u of (ret, p, u) \<Rightarrow>
        if ret \<noteq> 0 then Some (ret, u, f)
        else do {
          (ret, cwd, f) \<leftarrow> vfs_chdir al1 ok al2 p (pwd (u_files u)) f;
          Some (ret, u\<lparr>u_files := (u_files u)\<lparr>pwd := cwd\<rparr>\<rparr>, f) })"

text \<open>The operations of vfsfile.c on names are not implemented.\<close>

definition vfs_unlink :: "bytes \<Rightarrow> int" where "vfs_unlink path = - E_UNIMP"
definition vfs_rename :: "bytes \<Rightarrow> bytes \<Rightarrow> int" where "vfs_rename old_path new_path = - E_UNIMP"
definition vfs_link :: "bytes \<Rightarrow> bytes \<Rightarrow> int" where "vfs_link old_path new_path = - E_UNIMP"
definition vfs_symlink :: "bytes \<Rightarrow> bytes \<Rightarrow> int" where "vfs_symlink old_path new_path = - E_UNIMP"
definition vfs_readlink :: "bytes \<Rightarrow> iobuf \<Rightarrow> int" where "vfs_readlink path iob = - E_UNIMP"
definition vfs_mkdir :: "bytes \<Rightarrow> int" where "vfs_mkdir path = - E_UNIMP"

definition sysfile_link :: "nat option \<Rightarrow> nat option \<Rightarrow> nat \<Rightarrow> nat \<Rightarrow> ucall \<Rightarrow> int \<times> ucall" where
  "sysfile_link kb1 kb2 path1 path2 u =
     (case copy_path kb1 path1 u of (ret, p1, u) \<Rightarrow>
        if ret \<noteq> 0 then (ret, u)
        else case copy_path kb2 path2 u of (ret, p2, u) \<Rightarrow> if ret \<noteq> 0 then (ret, u) else (vfs_link p1 p2, u))"

definition sysfile_rename :: "nat option \<Rightarrow> nat option \<Rightarrow> nat \<Rightarrow> nat \<Rightarrow> ucall \<Rightarrow> int \<times> ucall" where
  "sysfile_rename kb1 kb2 path1 path2 u =
     (case copy_path kb1 path1 u of (ret, p1, u) \<Rightarrow>
        if ret \<noteq> 0 then (ret, u)
        else case copy_path kb2 path2 u of (ret, p2, u) \<Rightarrow> if ret \<noteq> 0 then (ret, u) else (vfs_rename p1 p2, u))"

definition sysfile_unlink :: "nat option \<Rightarrow> nat \<Rightarrow> ucall \<Rightarrow> int \<times> ucall" where
  "sysfile_unlink kb path u = (case copy_path kb path u of (ret, p, u) \<Rightarrow> if ret \<noteq> 0 then (ret, u) else (vfs_unlink p, u))"

definition sysfile_getcwd ::
    "bool \<Rightarrow> (nat \<Rightarrow> bool) \<Rightarrow> (nat \<Rightarrow> inode_alloc) \<Rightarrow> nat \<Rightarrow> nat \<Rightarrow> ucall \<Rightarrow> fsys \<Rightarrow> (int \<times> ucall \<times> fsys) option" where
  "sysfile_getcwd ok eok al buf len u f =
     (if len = 0 then Some (- E_INVAL, u, f)
      else case user_mem_check (u_mm u) buf len True of
          (False, mm) \<Rightarrow> Some (- E_INVAL, u\<lparr>u_mm := mm\<rparr>, f)
        | (True, mm) \<Rightarrow> do {
            (ret, iob, f) \<leftarrow> vfs_getcwd ok eok al (pwd (u_files u)) (iobuf_init (mem_bytes (u_mem u) buf len) 0 len 0) f;
            Some (ret, u\<lparr>u_mm := mm, u_mem := mem_store buf (io_buf iob) (u_mem u)\<rparr>, f) })"

text \<open>\<open>struct dirent\<close> in memory: the offset, then 256 bytes of name. \<open>kb\<close> is the address of the kernel's copy.\<close>

definition sysfile_getdirentry :: "nat option \<Rightarrow> bool \<Rightarrow> int \<Rightarrow> nat \<Rightarrow> ucall \<Rightarrow> vfs \<Rightarrow> (int \<times> ucall \<times> vfs) option" where
  "sysfile_getdirentry kb ok k dst u v =
     (case kb of
        None \<Rightarrow> Some (- E_NO_MEM, u, v)
      | Some a \<Rightarrow>
          (case copy_from_user (u_mm u) a dst 8 True (u_mem u) of
             (False, mm, m) \<Rightarrow> Some (- E_INVAL, u\<lparr>u_mm := mm, u_mem := m\<rparr>, v)
           | (True, mm, m) \<Rightarrow> do {
               (ret, off, name, fs, v) \<leftarrow>
                 file_getdirentry ok k (s64 (int (le_val (mem_bytes m a 8)))) (mem_bytes m (a + 8) 256) (u_files u) v;
               let m = mem_store (a + 8) name (mem_store a (le_bytes 8 (nat (off mod 2 ^ 64))) m);
               let u = u\<lparr>u_mm := mm, u_mem := m, u_files := fs\<rparr>;
               if ret \<noteq> 0 then Some (ret, u, v)
               else case copy_to_user (u_mm u) dst a 264 (u_mem u) of
                   (b, mm, m) \<Rightarrow> Some (if b then 0 else - E_INVAL, u\<lparr>u_mm := mm, u_mem := m\<rparr>, v) }))"

definition sysfile_dup :: "int \<Rightarrow> int \<Rightarrow> ucall \<Rightarrow> vfs \<Rightarrow> (int \<times> ucall \<times> vfs) option" where
  "sysfile_dup fd1 fd2 u v = do { (ret, fs, v) \<leftarrow> file_dup fd1 fd2 (u_files u) v; Some (ret, u\<lparr>u_files := fs\<rparr>, v) }"

definition sysfile_pipe :: "nat \<Rightarrow> int" where "sysfile_pipe fd_store = - E_UNIMP"

definition sysfile_mkfifo :: "nat \<Rightarrow> 32 word \<Rightarrow> int" where "sysfile_mkfifo name open_flags = - E_UNIMP"

section \<open>An open regular file\<close>

text \<open>Descriptor \<open>k\<close> is open on a well-formed regular file with the contents \<open>data\<close>, at position \<open>p\<close>.\<close>

definition fd_open :: "int \<Rightarrow> files_struct \<Rightarrow> kfile \<Rightarrow> nat \<Rightarrow> bool" where
  "fd_open k fs fl n \<longleftrightarrow> testfd k \<and> files_count fs > 0 \<and> nat k < length (fd_array fs) \<and> fd_array fs ! nat k = fl \<and>
     status fl = FD_OPENED \<and> fd fl = k \<and> f_node fl = Some n \<and> f_open_count fl > 0"

definition node_file :: "nat \<Rightarrow> vfs \<Rightarrow> bytes \<Rightarrow> bool" where
  "node_file n v data \<longleftrightarrow> (\<exists>i sin. nodes v n = Some i \<and> inode_check i = Some () \<and> in_info i = Sfs sin \<and>
     di_type (din sin) \<noteq> SFS_TYPE_DIR \<and> fs_ok (sfs v) \<and> file_ok (sfs v) (din sin) \<and> contents (sfs v) (din sin) = data)"

definition opened :: "int \<Rightarrow> files_struct \<Rightarrow> vfs \<Rightarrow> bool \<Rightarrow> bool \<Rightarrow> nat \<Rightarrow> bytes \<Rightarrow> bool" where
  "opened k fs v rd wr p data \<longleftrightarrow> (\<exists>fl n. fd_open k fs fl n \<and> readable fl = rd \<and> writable fl = wr \<and> pos fl = int p \<and> node_file n v data)"

lemma fd_open_lookup:
  assumes "fd_open k fs fl n"
  shows "fd2file k fs = Some (0, nat k)" "get_file (nat k) fs = Some fl"
  using assms by (simp_all add: fd_open_def fd2file_def get_fd_array_def get_file_def kassert_def)

text \<open>Input and output through a descriptor: the counts are restored and the position advances by what was transferred.\<close>

lemma file_io_step:
  assumes fo: "fd_open k fs fl n"
    and io: "(if wr then vop_write dio n (iobuf_init buf 0 len (pos fl)) v else vop_read dio n (iobuf_init buf 0 len (pos fl)) v) =
      Some (ret, iob, v')" "io_len iob = len" "io_resid iob = len - c" "c \<le> len" "len < 2 ^ 63" "0 \<le> pos fl" "pos fl + int c < 2 ^ 63"
  shows "file_io dio wr (nat k) buf len fs v =
    Some (ret, c, io_buf iob, put_file (nat k) (fl\<lparr>pos := pos fl + int c\<rparr>) fs, v')"
proof -
  have l: "nat k < length (fd_array fs)" "f_open_count fl > 0" "status fl = FD_OPENED" "f_node fl = Some n" "get_file (nat k) fs = Some fl"
    using fo fd_open_lookup(2) [OF fo] by (auto simp: fd_open_def)
  have us: "iobuf_used iob = c" using io(2-5) by (simp add: iobuf_used_def u64_def)
  have ps: "s64 (pos fl + int c) = pos fl + int c" by (rule s64_id) (use io(6,7) in auto)
  show ?thesis
    using l io(1) us ps
    by (cases wr) (simp_all add: file_io_def fd_array_acquire_def fd_array_release_def kassert_def Let_def)
qed

lemma vop_io_sfs:
  assumes "nodes v n = Some i" "inode_check i = Some ()" "in_info i = Sfs sin" "di_type (din sin) \<noteq> SFS_TYPE_DIR"
    and "sfs_io_nolock (sfs v) sin buf 0 off len wr = Some (ret, s', sin', buf', c)" "c \<le> len"
  shows "vop_io dio n (iobuf_init buf 0 len off) wr v =
    Some (ret, \<lparr>io_buf = buf', io_base = c, io_offset = off + int c, io_len = len, io_resid = len - c\<rparr>,
      set_node n (i\<lparr>in_info := Sfs sin'\<rparr>) (v\<lparr>sfs := s'\<rparr>))"
  using assms
  by (simp add: vop_io_def vop_op_def sfs_io_def iobuf_init_def iobuf_skip_def kassert_def put_sin_def set_node_def Let_def)

lemma node_file_set:
  assumes "nodes v n = Some i" "inode_check i = Some ()" "di_type (din sin) \<noteq> SFS_TYPE_DIR" "fs_ok s" "file_ok s (din sin)"
  shows "node_file n (set_node n (i\<lparr>in_info := Sfs sin\<rparr>) (v\<lparr>sfs := s\<rparr>)) (contents s (din sin))"
  using assms by (simp add: node_file_def set_node_def inode_check_def)

lemma opened_advance:
  assumes "fd_open k fs fl n" "node_file n v data" "readable fl = rd" "writable fl = wr"
  shows "opened k (put_file (nat k) (fl\<lparr>pos := int q\<rparr>) fs) v rd wr q data"
  using assms unfolding opened_def
  by (intro exI [of _ "fl\<lparr>pos := int q\<rparr>"] exI [of _ n]) (simp add: fd_open_def)

lemma file_size_limit:
  assumes "file_ok s d"
  shows "length (contents s d) \<le> 4096 * 1036"
proof -
  have "di_blocks d \<le> 1036" using assms by (simp add: file_ok_def ino_ok_def)
  then show ?thesis using file_ok_size [OF assms] by simp
qed

lemma file_read_open:
  assumes op: "opened k fs v True wr p data" and len: "0 < len" "len \<le> length buf" "length buf \<le> 4096" and p: "p \<le> length data"
  shows "\<exists>fs' v'. file_read dio k buf len fs v = Some (0, min len (length data - p), blit buf 0 (seg p len data), fs', v') \<and>
    opened k fs' v' True wr (p + min len (length data - p)) data"
proof -
  obtain fl n where fl: "fd_open k fs fl n" "readable fl" "writable fl = wr" "pos fl = int p" "node_file n v data"
    using op by (auto simp: opened_def)
  obtain i sin where i: "nodes v n = Some i" "inode_check i = Some ()" "in_info i = Sfs sin" "di_type (din sin) \<noteq> SFS_TYPE_DIR"
      "fs_ok (sfs v)" "file_ok (sfs v) (din sin)" "contents (sfs v) (din sin) = data"
    using fl(5) by (auto simp: node_file_def)
  let ?c = "min len (length data - p)"
  have dl: "length data \<le> 4096 * 1036" using file_size_limit [OF i(6)] i(7) by simp
  have sz: "di_size (din sin) = length data" using i(7) by auto
  obtain s' where s': "sfs_io_nolock (sfs v) sin buf 0 (int p) len False = Some (0, s', sin, blit buf 0 (seg p len data), ?c)"
      "fs_ok s'" "file_ok s' (din sin)" "contents s' (din sin) = data"
  proof (cases "p < length data")
    case True
    obtain s' where s': "sfs_io_nolock (sfs v) sin buf 0 (int p) len False = Some (0, s', sin, blit buf 0 (seg p len data), ?c)"
        "file_eff (sfs v) (din sin) s' (din sin) (fb (sfs v) (din sin))"
      using sfs_io_read_spec [OF i(5,6,4), of len p 0 buf] True sz len i(7) by auto
    have "fs_ok s'" "ino_ok s' (din sin)" "fb s' (din sin) = fb (sfs v) (din sin)" using s'(2) by (auto simp: file_eff_def)
    then show ?thesis using that [of s'] s'(1) i(6,7) by (simp add: file_ok_def contents_def)
  next
    case False
    then have e: "p = length data" using p by simp
    have "s64 (int p + int len) = int p + int len" by (rule s64_id) (use dl e len in auto)
    then have "sfs_io_nolock (sfs v) sin buf 0 (int p) len False = Some (0, sfs v, sin, buf, 0)"
      using i(4) e len dl sz by (auto simp: sfs_io_nolock_def kassert_def Let_def SFS_MAX_FILE_SIZE_def)
    then show ?thesis using that [of "sfs v"] i e by (simp add: seg_def)
  qed
  let ?v = "set_node n (i\<lparr>in_info := Sfs sin\<rparr>) (v\<lparr>sfs := s'\<rparr>)"
  have v: "vop_read dio n (iobuf_init buf 0 len (pos fl)) v =
      Some (0, \<lparr>io_buf = blit buf 0 (seg p len data), io_base = ?c, io_offset = int p + int ?c, io_len = len, io_resid = len - ?c\<rparr>, ?v)"
    unfolding vop_read_def fl(4) by (rule vop_io_sfs [OF i(1-4) s'(1)]) simp
  have "file_read dio k buf len fs v = Some (0, ?c, blit buf 0 (seg p len data), put_file (nat k) (fl\<lparr>pos := int (p + ?c)\<rparr>) fs, ?v)"
    using file_io_step [OF fl(1), of False dio buf len v 0 _ ?v ?c] v fl(2,4) dl p len fd_open_lookup [OF fl(1)] by (simp add: file_read_def)
  moreover have "opened k (put_file (nat k) (fl\<lparr>pos := int (p + ?c)\<rparr>) fs) ?v True wr (p + ?c) data"
    by (rule opened_advance [OF fl(1)]) (use node_file_set [OF i(1,2,4) s'(2,3)] s'(4) fl(2,3) in simp_all)
  ultimately show ?thesis by blast
qed

lemma file_write_open:
  assumes op: "opened k fs v rd True p data" and len: "0 < len" "len \<le> length buf" "length buf \<le> 4096"
    and p: "p \<le> length data" "p + len \<le> 4096 * 1036"
  shows "\<exists>ret c fs' v'. file_write dio k buf len fs v = Some (ret, c, buf, fs', v') \<and>
    (ret = 0 \<and> c = len \<or> ret = - E_NO_MEM \<and> c < len \<and> card (free (sfs v')) \<le> 1) \<and>
    opened k fs' v' rd True (p + c) (take p data @ take c buf @ drop (p + c) data)"
proof -
  obtain fl n where fl: "fd_open k fs fl n" "writable fl" "readable fl = rd" "pos fl = int p" "node_file n v data"
    using op by (auto simp: opened_def)
  obtain i sin where i: "nodes v n = Some i" "inode_check i = Some ()" "in_info i = Sfs sin" "di_type (din sin) \<noteq> SFS_TYPE_DIR"
      "fs_ok (sfs v)" "file_ok (sfs v) (din sin)" "contents (sfs v) (din sin) = data"
    using fl(5) by (auto simp: node_file_def)
  have sz: "p \<le> di_size (din sin)" using i(7) p(1) by auto
  obtain ret s' sin' c where w: "sfs_io_nolock (sfs v) sin buf 0 (int p) len True = Some (ret, s', sin', buf, c)"
      "fs_ok s'" "file_ok s' (din sin')" "di_type (din sin') = di_type (din sin)"
      "ret = 0 \<and> c = len \<or> ret = - E_NO_MEM \<and> c < len \<and> card (free s') \<le> 1"
      "contents s' (din sin') = take p data @ take c buf @ drop (p + c) data"
    using sfs_io_write_spec [OF i(5,6,4) len(1) sz p(2), of 0 buf] len i(7) by (auto simp: seg_def)
  have c: "c \<le> len" using w(5) by auto
  let ?v = "set_node n (i\<lparr>in_info := Sfs sin'\<rparr>) (v\<lparr>sfs := s'\<rparr>)"
  have v: "vop_write dio n (iobuf_init buf 0 len (pos fl)) v =
      Some (ret, \<lparr>io_buf = buf, io_base = c, io_offset = int p + int c, io_len = len, io_resid = len - c\<rparr>, ?v)"
    unfolding vop_write_def fl(4) by (rule vop_io_sfs [OF i(1-4) w(1) c])
  have "file_write dio k buf len fs v = Some (ret, c, buf, put_file (nat k) (fl\<lparr>pos := int (p + c)\<rparr>) fs, ?v)"
    using file_io_step [OF fl(1), of True dio buf len v ret _ ?v c] v fl(2,4) c p len fd_open_lookup [OF fl(1)] by (simp add: file_write_def)
  moreover have "opened k (put_file (nat k) (fl\<lparr>pos := int (p + c)\<rparr>) fs) ?v rd True (p + c) (take p data @ take c buf @ drop (p + c) data)"
    by (rule opened_advance [OF fl(1)]) (use node_file_set [OF i(1,2) _ w(2,3)] w(4,6) i(4) fl(2,3) in simp_all)
  ultimately show ?thesis using w(5) by (intro exI [of _ ret] exI [of _ c]) (auto simp: set_node_def)
qed

section \<open>Transfers in pieces\<close>

lemma length_mem_bytes [simp]: "length (mem_bytes m a n) = n"
  by (simp add: mem_bytes_def)

lemma mem_bytes_nth [simp]: "i < n \<Longrightarrow> mem_bytes m a n ! i = m (a + i)"
  by (simp add: mem_bytes_def)

lemma mem_bytes_cong: "(\<And>i. i < n \<Longrightarrow> m' (a + i) = m (b + i)) \<Longrightarrow> mem_bytes m' a n = mem_bytes m b n"
  by (simp add: mem_bytes_def)

lemma mem_bytes_add: "mem_bytes m a (n + k) = mem_bytes m a n @ mem_bytes m (a + n) k"
  by (rule nth_equalityI) (auto simp: nth_append)

lemma take_mem_bytes: "n \<le> k \<Longrightarrow> take n (mem_bytes m a k) = mem_bytes m a n"
  by (rule nth_equalityI) auto

lemma mem_bytes_store: "n \<le> length bs \<Longrightarrow> mem_bytes (mem_store a bs m) a n = take n bs"
  by (rule nth_equalityI) (auto simp: mem_store_def)

text \<open>A range that the process may access: every byte lies in an area with the permission, or, for a kernel thread (no address
  space), the range is in the kernel's part of the address space. The kernel's buffer is elsewhere.\<close>

definition user_range :: "mm_struct option \<Rightarrow> bool \<Rightarrow> nat \<Rightarrow> nat \<Rightarrow> bool" where
  "user_range r wr base len \<longleftrightarrow> (case r of
     None \<Rightarrow> KERNBASE \<le> base \<and> base + len \<le> KERNTOP
   | Some mm \<Rightarrow> mm_inv mm \<and> USERBASE \<le> base \<and> base + len \<le> USERTOP \<and> (\<forall>a\<in>{base..<base + len}. user_ok (mmap_list mm) wr a))"

definition clear_of :: "nat \<Rightarrow> nat \<Rightarrow> nat \<Rightarrow> bool" where
  "clear_of kb base len \<longleftrightarrow> base + len \<le> kb \<or> kb + IOBUF_SIZE \<le> base"

lemma clear_of_part: "clear_of kb base len \<Longrightarrow> n + k \<le> len \<Longrightarrow> clear_of kb (base + n) k"
  by (auto simp: clear_of_def)

lemma user_range_check:
  assumes ur: "user_range r wr base len" and n: "0 < n" "n \<le> len"
  shows "\<exists>r'. user_mem_check r base n wr = (True, r') \<and> user_range r' wr base len"
proof (cases r)
  case None
  then have b: "KERNBASE \<le> base" "base + len \<le> KERNTOP" using ur by (simp_all add: user_range_def)
  then have "u64 (base + n) = base + n" using n by (intro u64_id) (simp add: KERNTOP_def KERNBASE_def KMEMSIZE_def)
  then show ?thesis using None b n by (simp add: user_mem_check_def KERN_ACCESS_def user_range_def)
next
  case (Some mm)
  then have mm: "mm_inv mm" "USERBASE \<le> base" "base + len \<le> USERTOP" "\<forall>a\<in>{base..<base + len}. user_ok (mmap_list mm) wr a"
    using ur by (simp_all add: user_range_def)
  have b: "base + n < 2 ^ 64" using mm(3) n by (simp add: USERTOP_def)
  obtain ok r' where c: "user_mem_check r base n wr = (ok, r')" by fastforce
  obtain mm' where m': "r' = Some mm'" "mm_inv mm'" "mmap_list mm' = mmap_list mm"
      "ok \<longleftrightarrow> USER_ACCESS base (base + n) \<and> (\<forall>a\<in>{base..<base + n}. user_ok (mmap_list mm) wr a)"
    using user_mem_check_mm [OF mm(1) b c [unfolded Some]] by blast
  have "USER_ACCESS base (base + n)" using mm(2,3) n by (simp add: USER_ACCESS_def)
  moreover have "\<forall>a\<in>{base..<base + n}. user_ok (mmap_list mm) wr a" using mm(4) n by auto
  ultimately have "ok" using m'(4) by blast
  then show ?thesis using c m' mm by (simp add: user_range_def)
qed

lemma user_range_tail: "user_range r wr base len \<Longrightarrow> n \<le> len \<Longrightarrow> user_range r wr (base + n) (len - n)"
  by (auto simp: user_range_def split: option.splits)

lemma clear_of_tail: "clear_of kb base len \<Longrightarrow> n \<le> len \<Longrightarrow> clear_of kb (base + n) (len - n)"
  by (rule clear_of_part) auto

text \<open>What reading changes of memory: the bytes read, and the kernel's buffer.\<close>

definition read_into :: "nat \<Rightarrow> nat \<Rightarrow> bytes \<Rightarrow> memory \<Rightarrow> memory \<Rightarrow> bool" where
  "read_into kb base xs m m' \<longleftrightarrow> mem_bytes m' base (length xs) = xs \<and>
     (\<forall>a. \<not> (base \<le> a \<and> a < base + length xs) \<longrightarrow> \<not> (kb \<le> a \<and> a < kb + 4096) \<longrightarrow> m' a = m a)"

lemma read_into_trans:
  assumes "read_into kb base xs m m1" "read_into kb (base + length xs) ys m1 m2" "clear_of kb base (length xs)"
  shows "read_into kb base (xs @ ys) m m2"
proof -
  have "mem_bytes m2 base (length xs) = mem_bytes m1 base (length xs)"
    by (rule mem_bytes_cong) (use assms(2,3) in \<open>auto simp: read_into_def clear_of_def IOBUF_SIZE_def\<close>)
  then have "mem_bytes m2 base (length xs) = xs" using assms(1) by (simp add: read_into_def)
  then show ?thesis using assms by (auto simp: read_into_def mem_bytes_add)
qed

lemma read_step_open:
  assumes op: "opened k (u_files u) v True wr p data" "p \<le> length data" and ur: "user_range (u_mm u) True base len" "0 < len"
  defines "c \<equiv> min (min len 4096) (length data - p)"
  shows "\<exists>u' v'. read_step dio kb k base len got u v = Some (0, c, base + c, len - c, got + c, u', v') \<and>
    opened k (u_files u') v' True wr (p + c) data \<and> user_range (u_mm u') True base len \<and>
    read_into kb base (seg p c data) (u_mem u) (u_mem u')"
proof -
  let ?n = "min len 4096" and ?b = "mem_bytes (u_mem u) kb 4096"
  have n: "0 < ?n" "?n \<le> length ?b" "length ?b \<le> 4096" using ur(2) by auto
  obtain fs' v' where r: "file_read dio k ?b ?n (u_files u) v = Some (0, c, blit ?b 0 (seg p ?n data), fs', v')"
      "opened k fs' v' True wr (p + c) data"
    using file_read_open [OF op(1) n op(2)] unfolding c_def by blast
  have al: "(if IOBUF_SIZE > len then len else IOBUF_SIZE) = ?n" by (simp add: IOBUF_SIZE_def)
  have sg: "seg p ?n data = seg p c data" using op(2) by (simp add: seg_def c_def min_def)
  let ?m = "mem_store kb (blit ?b 0 (seg p c data)) (u_mem u)"
  have lc: "length (seg p c data) = c" by (simp add: c_def)
  have lb: "length (blit ?b 0 (seg p c data)) = 4096" using lc by (simp add: c_def)
  show ?thesis
  proof (cases "c = 0")
    case True
    then have "read_into kb base (seg p c data) (u_mem u) ?m" using lb by (auto simp: read_into_def mem_store_def mem_bytes_def)
    moreover have "read_step dio kb k base len got u v = Some (0, c, base + c, len - c, got + c, u\<lparr>u_mem := ?m, u_files := fs'\<rparr>, v')"
      unfolding read_step_def al unfolding IOBUF_SIZE_def using r(1) True sg by (simp add: Let_def)
    ultimately show ?thesis using r(2) ur(1) by (intro exI [of _ "u\<lparr>u_mem := ?m, u_files := fs'\<rparr>"] exI [of _ v']) simp
  next
    case False
    obtain r' where ck: "user_mem_check (u_mm u) base c True = (True, r')" "user_range r' True base len"
    proof -
      have "c \<le> len" "0 < c" using False by (simp_all add: c_def)
      then show thesis using user_range_check [OF ur(1)] that by blast
    qed
    let ?m' = "memcpy_mem base kb c ?m"
    have cp: "copy_to_user (u_mm u) base kb c ?m = (True, r', ?m')" using ck(1) by (simp add: copy_to_user_def)
    have "take c (blit ?b 0 (seg p c data)) = seg p c data" using lc by (simp add: blit_def)
    then have kbuf: "mem_bytes ?m kb c = seg p c data" using mem_bytes_store [of c "blit ?b 0 (seg p c data)" kb] lb by (simp add: c_def)
    have "mem_bytes ?m' base c = mem_bytes ?m kb c" by (rule mem_bytes_cong) (simp add: memcpy_mem_def)
    then have "read_into kb base (seg p c data) (u_mem u) ?m'"
      using kbuf lc lb by (auto simp: read_into_def memcpy_mem_def mem_store_def)
    moreover have "read_step dio kb k base len got u v =
        Some (0, c, base + c, len - c, got + c, u\<lparr>u_mem := ?m', u_files := fs', u_mm := r'\<rparr>, v')"
    proof -
      have "c \<le> len" by (simp add: c_def)
      then show ?thesis unfolding read_step_def al unfolding IOBUF_SIZE_def using r(1) False sg cp by (simp add: Let_def kassert_def)
    qed
    ultimately show ?thesis using r(2) ck(2)
      by (intro exI [of _ "u\<lparr>u_mem := ?m', u_files := fs', u_mm := r'\<rparr>"] exI [of _ v']) simp
  qed
qed

lemma sysread_loop_open:
  assumes "opened k (u_files u) v True wr p data" "p \<le> length data" "user_range (u_mm u) True base len" "clear_of kb base len"
  defines "c \<equiv> min len (length data - p)"
  shows "\<exists>u' v'. sysread_loop dio kb k base len got u v = Some (0, got + c, u', v') \<and>
    opened k (u_files u') v' True wr (p + c) data \<and> user_range (u_mm u') True (base + c) (len - c) \<and>
    read_into kb base (seg p c data) (u_mem u) (u_mem u')"
  using assms(1-4) unfolding c_def
proof (induction len arbitrary: p base got u v rule: less_induct)
  case (less len)
  show ?case
  proof (cases "len = 0")
    case True
    then show ?thesis using less.prems by (subst sysread_loop.simps) (auto simp: read_into_def mem_bytes_def)
  next
    case False
    define c where "c = min (min len 4096) (length data - p)"
    obtain u1 v1 where st: "read_step dio kb k base len got u v = Some (0, c, base + c, len - c, got + c, u1, v1)"
        "opened k (u_files u1) v1 True wr (p + c) data" "user_range (u_mm u1) True base len" "read_into kb base (seg p c data) (u_mem u) (u_mem u1)"
      using read_step_open [OF less.prems(1,2,3), of dio kb got] False unfolding c_def by blast
    show ?thesis
    proof (cases "c = 0")
      case True
      then have "min len (length data - p) = 0" using False by (auto simp: c_def)
      then show ?thesis using st True less.prems(2) False by (subst sysread_loop.simps) auto
    next
      case nz: False
      define d where "d = min (len - c) (length data - (p + c))"
      have c: "c \<le> len" "len - c < len" "p + c \<le> length data" using nz False less.prems(2) by (auto simp: c_def)
      have e: "min len (length data - p) = c + d"
        by (cases "len \<le> 4096"; cases "length data - p \<le> 4096") (auto simp: c_def d_def min_def)
      obtain u2 v2 where l: "sysread_loop dio kb k (base + c) (len - c) (got + c) u1 v1 = Some (0, got + c + d, u2, v2)"
          "opened k (u_files u2) v2 True wr (p + c + d) data" "user_range (u_mm u2) True (base + c + d) (len - c - d)"
          "read_into kb (base + c) (seg (p + c) d data) (u_mem u1) (u_mem u2)"
        using less.IH [OF c(2) st(2) c(3) user_range_tail [OF st(3) c(1)] clear_of_tail [OF less.prems(4) c(1)], of "got + c"] unfolding d_def by blast
      have ls: "length (seg p c data) = c" using c(3) by simp
      have sg: "seg p c data @ seg (p + c) d data = seg p (c + d) data" by (rule seg_append) (use c(3) in \<open>auto simp: d_def\<close>)
      have "clear_of kb base c" using less.prems(4) c(1) by (auto simp: clear_of_def)
      then have "read_into kb base (seg p (c + d) data) (u_mem u) (u_mem u2)"
        using read_into_trans [OF st(4), unfolded ls, OF l(4)] sg by simp
      moreover have "sysread_loop dio kb k base len got u v = Some (0, got + (c + d), u2, v2)"
        using st(1) l(1) nz False by (subst sysread_loop.simps) (simp add: add.assoc)
      moreover have "opened k (u_files u2) v2 True wr (p + (c + d)) data" using l(2) by (simp only: add.assoc)
      moreover have "user_range (u_mm u2) True (base + (c + d)) (len - (c + d))" using l(3) by (simp only: add.assoc diff_diff_left)
      ultimately show ?thesis unfolding e by blast
    qed
  qed
qed

lemma testfd_open:
  assumes "opened k fs v rd wr p data"
  shows "file_testfd k r w fs = Some ((r \<longrightarrow> rd) \<and> (w \<longrightarrow> wr))"
  using assms fd_open_lookup by (fastforce simp: opened_def file_testfd_def)

text \<open>A process with descriptor 3 open on the example file of 100 bytes, at position 30.\<close>

definition example_call :: ucall where
  "example_call = \<lparr>u_mm = Some demo_mm, u_mem = (\<lambda>a. of_nat a), u_files = \<lparr>pwd = None,
     fd_array = (replicate 72 closed_file)[3 := \<lparr>status = FD_OPENED, readable = True, writable = True, fd = 3, pos = 30, f_node = Some 0, f_open_count = 1\<rparr>],
     files_count = 1\<rparr>\<rparr>"

definition example_open_vfs :: vfs where
  "example_open_vfs = \<lparr>sfs = example_fs, nodes = [0 \<mapsto> \<lparr>in_info = Sfs example_inode1, ref_count = 1, open_count = 1\<rparr>]\<rparr>"

lemma example_opened:
  "opened 3 (u_files example_call) example_open_vfs True True 30 (contents example_fs (din example_inode1))"
proof -
  have "fd_open 3 (u_files example_call) (fd_array (u_files example_call) ! 3) 0"
    by (simp add: fd_open_def example_call_def testfd_def FILES_STRUCT_NENTRY_def)
  moreover have "node_file 0 example_open_vfs (contents example_fs (din example_inode1))"
    using example_fs_ok example_file1_ok
    by (simp add: node_file_def example_open_vfs_def inode_check_def kassert_def MAX_INODE_COUNT_def
        example_inode1_def example_inode_def SFS_TYPE_FILE_def SFS_TYPE_DIR_def)
  ultimately show ?thesis unfolding opened_def
    by (intro exI [of _ "fd_array (u_files example_call) ! 3"] exI [of _ 0]) (simp add: example_call_def)
qed

lemma example_range: "user_range (u_mm example_call) wr 0x200100 6000"
  using demo_mm_inv
  by (auto simp: user_range_def example_call_def user_ok_def demo_mm_def covers_def USERBASE_def USERTOP_def VM_STACK_def VM_WRITE_def VM_READ_def)

lemma example_clear: "clear_of USERTOP 0x200100 6000"
  by (simp add: clear_of_def USERTOP_def)

lemma example_length: "length (contents example_fs (din example_inode1)) = 100"
  by (simp add: example_inode1_def example_inode_def)

lemma sysfile_read_open:
  assumes "opened k (u_files u) v True wr p data" "p \<le> length data" "user_range (u_mm u) True base len" "clear_of kb base len"
  defines "c \<equiv> min len (length data - p)"
  shows "\<exists>u' v'. sysfile_read (Some kb) dio k base len u v = Some (int c, u', v') \<and>
    mem_bytes (u_mem u') base c = seg p c data \<and>
    (\<forall>a. \<not> (base \<le> a \<and> a < base + c) \<longrightarrow> \<not> (kb \<le> a \<and> a < kb + IOBUF_SIZE) \<longrightarrow> u_mem u' a = u_mem u a) \<and>
    opened k (u_files u') v' True wr (p + c) data"
proof (cases "len = 0")
  case True
  then show ?thesis using assms(1) by (simp add: sysfile_read_def c_def mem_bytes_def seg_def)
next
  case False
  obtain u' v' where l: "sysread_loop dio kb k base len 0 u v = Some (0, 0 + c, u', v')" "opened k (u_files u') v' True wr (p + c) data"
      "read_into kb base (seg p c data) (u_mem u) (u_mem u')"
    using sysread_loop_open [OF assms(1-4), of dio 0] unfolding c_def by blast
  have "sysfile_read (Some kb) dio k base len u v = Some (int c, u', v')"
    using False l(1) testfd_open [OF assms(1)] by (simp add: sysfile_read_def)
  moreover have "length (seg p c data) = c" by (simp add: c_def)
  ultimately show ?thesis using l(2,3) by (simp add: read_into_def IOBUF_SIZE_def)
qed

text \<open>C13. The system call \<open>read\<close> on a descriptor that is open for reading on a regular file: for a buffer that the process may
  write (user memory, or kernel memory for a kernel thread), it returns the number of bytes from the position to the end of the file or the length asked for, whichever is smaller,
  and exactly these bytes of the contents are in the user's memory, although they pass through a kernel buffer of one page piece by
  piece. Nothing else in memory changes but that kernel buffer, the position has advanced by the result, and the file has
  its contents.\<close>

theorem sysfile_read_correct:
  assumes "opened k (u_files u) v True wr p data" "p \<le> length data" "user_range (u_mm u) True base len" "clear_of kb base len"
  defines "c \<equiv> min len (length data - p)"
  shows "\<exists>u' v'. sysfile_read (Some kb) dio k base len u v = Some (int c, u', v') \<and>
    mem_bytes (u_mem u') base c = seg p c data \<and>
    (\<forall>a. \<not> (base \<le> a \<and> a < base + c) \<longrightarrow> \<not> (kb \<le> a \<and> a < kb + IOBUF_SIZE) \<longrightarrow> u_mem u' a = u_mem u a) \<and>
    opened k (u_files u') v' True wr (p + c) data"
  using sysfile_read_open [OF assms(1-4)] unfolding c_def by blast

theorem sysfile_read_correct_witness:
  "\<exists>u' v'. sysfile_read (Some USERTOP) (\<lambda>_ iob _ v. Some (0, iob, v)) 3 0x200100 6000 example_call example_open_vfs = Some (70, u', v') \<and>
     mem_bytes (u_mem u') 0x200100 70 = seg 30 70 (contents example_fs (din example_inode1))"
  using sysfile_read_correct [OF example_opened _ example_range example_clear, of "\<lambda>_ iob _ v. Some (0, iob, v)"] example_length by auto

text \<open>One round of writing: \<open>c\<close> bytes of the user's memory reach the file.\<close>

lemma write_step_open:
  assumes op: "opened k (u_files u) v rd True p data" "p \<le> length data" "p + len \<le> 4096 * 1036"
    and ur: "user_range (u_mm u) False base len" "0 < len"
  shows "\<exists>ret alen c u' v'. write_step dio kb k base len got u v = Some (ret, alen, base + c, len - c, got + c, u', v') \<and> c \<le> len \<and>
    (ret = 0 \<and> alen = c \<and> 0 < c \<or> ret = - E_NO_MEM \<and> c < len \<and> card (free (sfs v')) \<le> 1) \<and>
    opened k (u_files u') v' rd True (p + c) (take p data @ mem_bytes (u_mem u) base c @ drop (p + c) data) \<and>
    user_range (u_mm u') False base len \<and> (\<forall>a. \<not> (kb \<le> a \<and> a < kb + IOBUF_SIZE) \<longrightarrow> u_mem u' a = u_mem u a)"
proof -
  let ?n = "min len 4096"
  have n: "0 < ?n" "?n \<le> len" "?n \<le> 4096" using ur(2) by auto
  have al: "(if IOBUF_SIZE > len then len else IOBUF_SIZE) = ?n" by (simp add: IOBUF_SIZE_def)
  obtain r' where ck: "user_mem_check (u_mm u) base ?n False = (True, r')" "user_range r' False base len"
    using user_range_check [OF ur(1) n(1,2)] by blast
  let ?m = "memcpy_mem kb base ?n (u_mem u)"
  have cp: "copy_from_user (u_mm u) kb base ?n False (u_mem u) = (True, r', ?m)" using ck(1) by (simp add: copy_from_user_def)
  let ?b = "mem_bytes ?m kb 4096"
  have b: "?n \<le> length ?b" "length ?b \<le> 4096" "p + ?n \<le> 4096 * 1036" using op(3) by auto
  obtain ret c fs' v' where w: "file_write dio k ?b ?n (u_files u) v = Some (ret, c, ?b, fs', v')"
      "ret = 0 \<and> c = ?n \<or> ret = - E_NO_MEM \<and> c < ?n \<and> card (free (sfs v')) \<le> 1"
      "opened k fs' v' rd True (p + c) (take p data @ take c ?b @ drop (p + c) data)"
    using file_write_open [OF op(1) n(1) b(1,2) op(2) b(3)] by blast
  have c: "c \<le> len" "c \<le> ?n" using w(2) by auto
  have "take c ?b = mem_bytes ?m kb c" by (rule take_mem_bytes) (use c in simp)
  also have "\<dots> = mem_bytes (u_mem u) base c"
    by (rule mem_bytes_cong) (use c in \<open>simp add: memcpy_mem_def\<close>)
  finally have tk: "take c ?b = mem_bytes (u_mem u) base c" .
  let ?u = "u\<lparr>u_mm := r', u_mem := mem_store kb ?b ?m, u_files := fs'\<rparr>"
  have "write_step dio kb k base len got u v = Some (ret, c, base + c, len - c, got + c, ?u, v')"
    unfolding write_step_def al unfolding IOBUF_SIZE_def using cp w(1) c by (cases "c = 0") (simp_all add: Let_def kassert_def)
  moreover have "\<forall>a. \<not> (kb \<le> a \<and> a < kb + IOBUF_SIZE) \<longrightarrow> u_mem ?u a = u_mem u a" by (auto simp: mem_store_def memcpy_mem_def IOBUF_SIZE_def)
  moreover have "ret = 0 \<and> c = c \<and> 0 < c \<or> ret = - E_NO_MEM \<and> c < len \<and> card (free (sfs v')) \<le> 1" using w(2) n by auto
  ultimately show ?thesis using w(3) tk ck(2) c(1)
    by (intro exI [of _ ret] exI [of _ c] exI [of _ ?u] exI [of _ v']) auto
qed

lemma mem_bytes_same: "\<forall>a. \<not> (kb \<le> a \<and> a < kb + IOBUF_SIZE) \<longrightarrow> m' a = m a \<Longrightarrow> clear_of kb base n \<Longrightarrow> mem_bytes m' base n = mem_bytes m base n"
  by (rule mem_bytes_cong) (auto simp: clear_of_def)

lemma syswrite_loop_open:
  assumes "opened k (u_files u) v rd True p data" "p \<le> length data" "p + len \<le> 4096 * 1036"
    and "user_range (u_mm u) False base len" "clear_of kb base len"
  shows "\<exists>ret c u' v'. syswrite_loop dio kb k base len got u v = Some (ret, got + c, u', v') \<and>
    (ret = 0 \<and> c = len \<or> ret = - E_NO_MEM \<and> c < len \<and> card (free (sfs v')) \<le> 1) \<and>
    opened k (u_files u') v' rd True (p + c) (take p data @ mem_bytes (u_mem u) base c @ drop (p + c) data) \<and>
    (\<forall>a. \<not> (kb \<le> a \<and> a < kb + IOBUF_SIZE) \<longrightarrow> u_mem u' a = u_mem u a)"
  using assms
proof (induction len arbitrary: p base got u v data rule: less_induct)
  case (less len)
  show ?case
  proof (cases "len = 0")
    case True
    then show ?thesis using less.prems(1) by (subst syswrite_loop.simps) (auto simp: mem_bytes_def)
  next
    case False
    obtain ret alen c u1 v1 where st: "write_step dio kb k base len got u v = Some (ret, alen, base + c, len - c, got + c, u1, v1)" "c \<le> len"
        "ret = 0 \<and> alen = c \<and> 0 < c \<or> ret = - E_NO_MEM \<and> c < len \<and> card (free (sfs v1)) \<le> 1"
        "opened k (u_files u1) v1 rd True (p + c) (take p data @ mem_bytes (u_mem u) base c @ drop (p + c) data)"
        "user_range (u_mm u1) False base len" "\<forall>a. \<not> (kb \<le> a \<and> a < kb + IOBUF_SIZE) \<longrightarrow> u_mem u1 a = u_mem u a"
      using write_step_open [OF less.prems(1-4), of dio kb got] False by blast
    let ?d = "take p data @ mem_bytes (u_mem u) base c @ drop (p + c) data"
    show ?thesis
    proof (cases "ret = 0")
      case nz: False
      then have r: "ret = - E_NO_MEM" "c < len" "card (free (sfs v1)) \<le> 1" using st(3) by auto
      have "syswrite_loop dio kb k base len got u v = Some (ret, got + c, u1, v1)"
        using st(1) nz False by (subst syswrite_loop.simps) simp
      then show ?thesis using r st(4,6) by blast
    next
      case True
      then have c: "alen = c" "0 < c" "len - c < len" using st(2,3) False by (auto simp: E_NO_MEM_def)
      have pl: "p + c \<le> length ?d" "p + c + (len - c) \<le> 4096 * 1036" using less.prems(2,3) st(2) by auto
      obtain r2 c2 u2 v2 where l: "syswrite_loop dio kb k (base + c) (len - c) (got + c) u1 v1 = Some (r2, got + c + c2, u2, v2)"
          "r2 = 0 \<and> c2 = len - c \<or> r2 = - E_NO_MEM \<and> c2 < len - c \<and> card (free (sfs v2)) \<le> 1"
          "opened k (u_files u2) v2 rd True (p + c + c2) (take (p + c) ?d @ mem_bytes (u_mem u1) (base + c) c2 @ drop (p + c + c2) ?d)"
          "\<forall>a. \<not> (kb \<le> a \<and> a < kb + IOBUF_SIZE) \<longrightarrow> u_mem u2 a = u_mem u1 a"
        using less.IH [OF c(3) st(4) pl user_range_tail [OF st(5,2)] clear_of_tail [OF less.prems(5) st(2)], of "got + c"] by blast
      have "clear_of kb (base + c) c2" by (rule clear_of_part [OF less.prems(5)]) (use l(2) st(2) in auto)
      then have m: "mem_bytes (u_mem u1) (base + c) c2 = mem_bytes (u_mem u) (base + c) c2" by (rule mem_bytes_same [OF st(6)])
      have "take (p + c) ?d @ mem_bytes (u_mem u1) (base + c) c2 @ drop (p + c + c2) ?d =
          take p data @ mem_bytes (u_mem u) base (c + c2) @ drop (p + (c + c2)) data"
        using less.prems(2) m by (simp add: mem_bytes_add min_def add.commute [of c2] add.assoc)
      then have "opened k (u_files u2) v2 rd True (p + (c + c2)) (take p data @ mem_bytes (u_mem u) base (c + c2) @ drop (p + (c + c2)) data)"
        using l(3) by (simp only: add.assoc)
      moreover have "syswrite_loop dio kb k base len got u v = Some (r2, got + (c + c2), u2, v2)"
        using st(1) True c l(1) False by (subst syswrite_loop.simps) (simp add: add.assoc)
      moreover have "r2 = 0 \<and> c + c2 = len \<or> r2 = - E_NO_MEM \<and> c + c2 < len \<and> card (free (sfs v2)) \<le> 1" using l(2) st(2) by auto
      moreover have "\<forall>a. \<not> (kb \<le> a \<and> a < kb + IOBUF_SIZE) \<longrightarrow> u_mem u2 a = u_mem u a" using l(4) st(6) by simp
      ultimately show ?thesis by blast
    qed
  qed
qed

text \<open>C14. The system call \<open>write\<close> on a descriptor that is open for writing on a regular file: for a buffer that the process may
  read and an end below the limit of 1036 blocks, the first \<open>c\<close> bytes of the buffer replace those of the file at the
  position (extending it at its end), the position advances by \<open>c\<close> and no memory but the kernel's buffer changes. \<open>c\<close> is the whole length unless at most
  one free block of the disk is left; the result is \<open>c\<close>, or \<open>-E_NO_MEM\<close> when nothing could be written.\<close>

theorem sysfile_write_correct:
  assumes "opened k (u_files u) v rd True p data" "p \<le> length data" "p + len \<le> 4096 * 1036"
    and "user_range (u_mm u) False base len" "clear_of kb base len"
  shows "\<exists>ret c u' v'. sysfile_write (Some kb) dio k base len u v = Some (ret, u', v') \<and> c \<le> len \<and>
    opened k (u_files u') v' rd True (p + c) (take p data @ mem_bytes (u_mem u) base c @ drop (p + c) data) \<and>
    (\<forall>a. \<not> (kb \<le> a \<and> a < kb + IOBUF_SIZE) \<longrightarrow> u_mem u' a = u_mem u a) \<and>
    (ret = int c \<and> (c < len \<longrightarrow> card (free (sfs v')) \<le> 1) \<or> c = 0 \<and> ret = - E_NO_MEM \<and> card (free (sfs v')) \<le> 1)"
proof (cases "len = 0")
  case True
  then show ?thesis using assms(1) by (intro exI [of _ 0] exI [of _ 0]) (auto simp: sysfile_write_def mem_bytes_def)
next
  case False
  obtain ret c u' v' where l: "syswrite_loop dio kb k base len 0 u v = Some (ret, 0 + c, u', v')"
      "ret = 0 \<and> c = len \<or> ret = - E_NO_MEM \<and> c < len \<and> card (free (sfs v')) \<le> 1"
      "opened k (u_files u') v' rd True (p + c) (take p data @ mem_bytes (u_mem u) base c @ drop (p + c) data)"
      "\<forall>a. \<not> (kb \<le> a \<and> a < kb + IOBUF_SIZE) \<longrightarrow> u_mem u' a = u_mem u a"
    using syswrite_loop_open [OF assms, of dio 0] by blast
  have "sysfile_write (Some kb) dio k base len u v = Some (if c \<noteq> 0 then int c else ret, u', v')"
    using False l(1) testfd_open [OF assms(1)] by (simp add: sysfile_write_def)
  moreover have "c \<le> len" using l(2) by auto
  ultimately show ?thesis using l(2-4) False
    by (intro exI [of _ "if c \<noteq> 0 then int c else ret"] exI [of _ c] exI [of _ u'] exI [of _ v']) auto
qed

theorem sysfile_write_correct_witness:
  "\<exists>ret c u' v'. sysfile_write (Some USERTOP) (\<lambda>_ iob _ v. Some (0, iob, v)) 3 0x200100 6000 example_call example_open_vfs = Some (ret, u', v') \<and> c \<le> 6000 \<and>
     opened 3 (u_files u') v' True True (30 + c) (take 30 (contents example_fs (din example_inode1)) @ mem_bytes (u_mem example_call) 0x200100 c @
       drop (30 + c) (contents example_fs (din example_inode1)))"
  using sysfile_write_correct [OF example_opened _ _ example_range example_clear, of "\<lambda>_ iob _ v. Some (0, iob, v)"] example_length by auto

end
