(* ===== verification/Strings.thy ===== *)
theory Strings
  imports Vma Disk "HOL-Library.List_Lexorder"
begin

text \<open>
  The string and memory functions of libs/string.c and the generator of libs/rand.c. A function works on the memory as the code does,
  byte by byte and in the code's order, so that overlapping arguments behave as they do in the code. Loops that run to the end of a
  string are partial: on memory without a terminating zero they do not return. \<open>cstring m s xs\<close> says that \<open>xs\<close> is the string at \<open>s\<close>.
\<close>

section \<open>Operations\<close>

partial_function (option) strlen_loop :: "memory \<Rightarrow> nat \<Rightarrow> nat \<Rightarrow> nat option" where
  "strlen_loop m s cnt = (if m s \<noteq> 0 then strlen_loop m (s + 1) (cnt + 1) else Some cnt)"

definition strlen :: "memory \<Rightarrow> nat \<Rightarrow> nat option" where
  "strlen m s = strlen_loop m s 0"

partial_function (option) strcpy_loop :: "memory \<Rightarrow> nat \<Rightarrow> nat \<Rightarrow> memory option" where
  "strcpy_loop m p src =
     (let m = m(p := m src)
      in if m p \<noteq> 0 then strcpy_loop m (p + 1) (src + 1) else Some m)"

definition strcpy :: "memory \<Rightarrow> nat \<Rightarrow> nat \<Rightarrow> memory option" where
  "strcpy m dst src = strcpy_loop m dst src"

fun strncpy :: "memory \<Rightarrow> nat \<Rightarrow> nat \<Rightarrow> nat \<Rightarrow> memory" where
  "strncpy m p src 0 = m"
| "strncpy m p src (Suc len) =
     (let m = m(p := m src)
      in strncpy m (p + 1) (if m p \<noteq> 0 then src + 1 else src) len)"

definition strcat :: "memory \<Rightarrow> nat \<Rightarrow> nat \<Rightarrow> memory option" where
  "strcat m dst src = do { n \<leftarrow> strlen m dst; strcpy m (dst + n) src }"

definition byte_diff :: "8 word \<Rightarrow> 8 word \<Rightarrow> int" where
  "byte_diff a b = int (unat a) - int (unat b)"

partial_function (option) strcmp :: "memory \<Rightarrow> nat \<Rightarrow> nat \<Rightarrow> int option" where
  "strcmp m s1 s2 =
     (if m s1 \<noteq> 0 \<and> m s1 = m s2 then strcmp m (s1 + 1) (s2 + 1) else Some (byte_diff (m s1) (m s2)))"

fun strncmp :: "memory \<Rightarrow> nat \<Rightarrow> nat \<Rightarrow> nat \<Rightarrow> int" where
  "strncmp m s1 s2 0 = 0"
| "strncmp m s1 s2 (Suc n) =
     (if m s1 \<noteq> 0 \<and> m s1 = m s2 then strncmp m (s1 + 1) (s2 + 1) n else byte_diff (m s1) (m s2))"

partial_function (option) strchr :: "memory \<Rightarrow> nat \<Rightarrow> 8 word \<Rightarrow> nat option option" where
  "strchr m s c = (if m s \<noteq> 0 then if m s = c then Some (Some s) else strchr m (s + 1) c else Some None)"

partial_function (option) strfind :: "memory \<Rightarrow> nat \<Rightarrow> 8 word \<Rightarrow> nat option" where
  "strfind m s c = (if m s \<noteq> 0 then if m s = c then Some s else strfind m (s + 1) c else Some s)"

text \<open>\<open>strtol\<close>: white space, sign, prefix, digits. \<open>val\<close> is a 64-bit \<open>long\<close>.\<close>

partial_function (option) skip_space :: "memory \<Rightarrow> nat \<Rightarrow> nat option" where
  "skip_space m s = (if m s = 32 \<or> m s = 9 then skip_space m (s + 1) else Some s)"

definition char_digit :: "8 word \<Rightarrow> int option" where
  "char_digit c =
     (if 48 \<le> c \<and> c \<le> 57 then Some (int (unat c) - 48)
      else if 97 \<le> c \<and> c \<le> 122 then Some (int (unat c) - 97 + 10)
      else if 65 \<le> c \<and> c \<le> 90 then Some (int (unat c) - 65 + 10)
      else None)"

partial_function (option) strtol_digits :: "memory \<Rightarrow> int \<Rightarrow> nat \<Rightarrow> int \<Rightarrow> (nat \<times> int) option" where
  "strtol_digits m base s val =
     (case char_digit (m s) of
        None \<Rightarrow> Some (s, val)
      | Some dig \<Rightarrow> if dig \<ge> base then Some (s, val) else strtol_digits m base (s + 1) (s64 (val * base + dig)))"

definition strtol :: "memory \<Rightarrow> nat \<Rightarrow> int \<Rightarrow> (int \<times> nat) option" where
  "strtol m s base = do {
     s \<leftarrow> skip_space m s;
     let (neg, s) = (if m s = 43 then (False, s + 1) else if m s = 45 then (True, s + 1) else (False, s));
     let (base, s) =
       (if (base = 0 \<or> base = 16) \<and> m s = 48 \<and> m (s + 1) = 120 then (16, s + 2)
        else if base = 0 \<and> m s = 48 then (8, s + 1)
        else if base = 0 then (10, s)
        else (base, s));
     (s, val) \<leftarrow> strtol_digits m base s 0;
     Some (if neg then s64 (- val) else val, s) }"

fun memset :: "memory \<Rightarrow> nat \<Rightarrow> 8 word \<Rightarrow> nat \<Rightarrow> memory" where
  "memset m p c 0 = m"
| "memset m p c (Suc n) = memset (m(p := c)) (p + 1) c n"

fun copy_up :: "memory \<Rightarrow> nat \<Rightarrow> nat \<Rightarrow> nat \<Rightarrow> memory" where
  "copy_up m d s 0 = m"
| "copy_up m d s (Suc n) = copy_up (m(d := m s)) (d + 1) (s + 1) n"

fun copy_down :: "memory \<Rightarrow> nat \<Rightarrow> nat \<Rightarrow> nat \<Rightarrow> memory" where
  "copy_down m d s 0 = m"
| "copy_down m d s (Suc n) = copy_down (m(d - 1 := m (s - 1))) (d - 1) (s - 1) n"

definition memmove :: "memory \<Rightarrow> nat \<Rightarrow> nat \<Rightarrow> nat \<Rightarrow> memory" where
  "memmove m dst src n =
     (if src < dst \<and> src + n > dst then copy_down m (dst + n) (src + n) n else copy_up m dst src n)"

definition memcpy :: "memory \<Rightarrow> nat \<Rightarrow> nat \<Rightarrow> nat \<Rightarrow> memory" where
  "memcpy m dst src n = copy_up m dst src n"

fun memcmp :: "memory \<Rightarrow> nat \<Rightarrow> nat \<Rightarrow> nat \<Rightarrow> int" where
  "memcmp m s1 s2 0 = 0"
| "memcmp m s1 s2 (Suc n) = (if m s1 \<noteq> m s2 then byte_diff (m s1) (m s2) else memcmp m (s1 + 1) (s2 + 1) n)"

section \<open>Copying\<close>

text \<open>The specification of a copy, \<open>memcpy_mem\<close>, reads every byte before it writes one.\<close>

lemma copy_up_spec:
  "d \<le> s \<or> s + n \<le> d \<Longrightarrow> copy_up m d s n = memcpy_mem d s n m"
proof (induction n arbitrary: m d s)
  case 0
  then show ?case by (auto simp: memcpy_mem_def fun_eq_iff)
next
  case (Suc n)
  have "copy_up m d s (Suc n) = memcpy_mem (Suc d) (Suc s) n (m(d := m s))"
    using Suc.IH [of "Suc d" "Suc s"] Suc.prems by auto
  also have "\<dots> = memcpy_mem d s (Suc n) m"
  proof
    fix a
    show "memcpy_mem (Suc d) (Suc s) n (m(d := m s)) a = memcpy_mem d s (Suc n) m a"
    proof (cases "d < a")
      case True
      then obtain k where "a = Suc (d + k)" using less_imp_Suc_add by blast
      then show ?thesis using Suc.prems by (auto simp: memcpy_mem_def)
    qed (use Suc.prems in \<open>auto simp: memcpy_mem_def\<close>)
  qed
  finally show ?case .
qed

lemma copy_down_spec:
  "s < d \<Longrightarrow> copy_down m (d + n) (s + n) n = memcpy_mem d s n m"
proof (induction n arbitrary: m)
  case 0
  then show ?case by (auto simp: memcpy_mem_def fun_eq_iff)
next
  case (Suc n)
  then have "copy_down m (d + Suc n) (s + Suc n) (Suc n) = memcpy_mem d s n (m(d + n := m (s + n)))" by simp
  also have "\<dots> = memcpy_mem d s (Suc n) m"
  proof
    fix a
    show "memcpy_mem d s n (m(d + n := m (s + n))) a = memcpy_mem d s (Suc n) m a"
      using Suc.prems by (cases "a = d + n") (auto simp: memcpy_mem_def)
  qed
  finally show ?case .
qed

lemma memset_spec: "memset m p c n = (\<lambda>a. if p \<le> a \<and> a < p + n then c else m a)"
  by (induction n arbitrary: m p) (auto simp: fun_eq_iff)

lemma byte_diff_iff [simp]: "byte_diff a b = 0 \<longleftrightarrow> a = b" "byte_diff a b < 0 \<longleftrightarrow> a < b" "0 < byte_diff a b \<longleftrightarrow> b < a"
  by (auto simp: byte_diff_def word_less_def word_uint_eq_iff)

lemma memcmp_spec: "memcmp m a b n = 0 \<longleftrightarrow> (\<forall>i<n. m (a + i) = m (b + i))"
  by (induction n arbitrary: a b) (auto simp: less_Suc_eq_0_disj)

section \<open>Strings in memory\<close>

fun cstring :: "memory \<Rightarrow> nat \<Rightarrow> bytes \<Rightarrow> bool" where
  "cstring m s [] \<longleftrightarrow> m s = 0"
| "cstring m s (x # xs) \<longleftrightarrow> x \<noteq> 0 \<and> m s = x \<and> cstring m (s + 1) xs"

lemma cstring_cong: "(\<And>a. s \<le> a \<Longrightarrow> a \<le> s + length xs \<Longrightarrow> m' a = m a) \<Longrightarrow> cstring m' s xs = cstring m s xs"
proof (induction xs arbitrary: s)
  case (Cons x xs)
  have "cstring m' (s + 1) xs = cstring m (s + 1) xs" by (rule Cons.IH) (use Cons.prems in auto)
  then show ?case using Cons.prems [of s] by simp
qed simp

lemma cstring_upd: "a < s \<or> s + length xs < a \<Longrightarrow> cstring (m(a := c)) s xs = cstring m s xs"
  by (rule cstring_cong) auto

lemma strlen_spec: "cstring m s xs \<Longrightarrow> strlen m s = Some (length xs)"
proof -
  have "cstring m s xs \<Longrightarrow> strlen_loop m s n = Some (n + length xs)" for n
    by (induction xs arbitrary: s n) (simp_all add: strlen_loop.simps)
  then show "cstring m s xs \<Longrightarrow> strlen m s = Some (length xs)" by (simp add: strlen_def)
qed

lemma strnlen_spec: "cstring m s xs \<Longrightarrow> strnlen_mem m s n = min n (length xs)"
proof (induction xs arbitrary: s n)
  case Nil
  then show ?case by (cases n) simp_all
next
  case (Cons x xs)
  then show ?case by (cases n) simp_all
qed

lemma strcpy_spec:
  assumes "cstring m src xs" "dst \<le> src \<or> src + length xs < dst"
  shows "strcpy m dst src = Some (memcpy_mem dst src (length xs + 1) m)"
proof -
  have "strcpy_loop m dst src = Some (copy_up m dst src (length xs + 1))"
    using assms
  proof (induction xs arbitrary: m dst src)
    case Nil
    then show ?case by (simp add: strcpy_loop.simps fun_upd_def)
  next
    case (Cons x xs)
    have c: "m src = x" "x \<noteq> 0" using Cons.prems by simp_all
    have "cstring (m(dst := x)) (src + 1) xs" using Cons.prems by (subst cstring_upd) auto
    then have "strcpy_loop (m(dst := x)) (dst + 1) (src + 1) = Some (copy_up (m(dst := x)) (dst + 1) (src + 1) (length xs + 1))"
      by (rule Cons.IH) (use Cons.prems in auto)
    then show ?case by (subst strcpy_loop.simps) (use c in simp)
  qed
  moreover have "dst \<le> src \<or> src + (length xs + 1) \<le> dst" using assms(2) by auto
  ultimately show ?thesis using copy_up_spec [of dst src "length xs + 1" m] unfolding strcpy_def by simp
qed

lemma cstring_memcpy:
  assumes "cstring m src xs"
  shows "cstring (memcpy_mem dst src (length xs + 1) m) dst xs"
proof -
  have "cstring m (src + k) ys \<Longrightarrow> k + length ys \<le> length xs \<Longrightarrow> cstring (memcpy_mem dst src (length xs + 1) m) (dst + k) ys" for k ys
  proof (induction ys arbitrary: k)
    case (Cons y ys)
    then show ?case using Cons.IH [of "Suc k"] by (simp add: memcpy_mem_def)
  qed (simp add: memcpy_mem_def)
  from this [of 0 xs] show ?thesis using assms by simp
qed

text \<open>\<open>strcat\<close> makes the concatenation and changes nothing else.\<close>

lemma cstring_append:
  assumes "0 \<notin> set xs" "\<And>i. i < length xs \<Longrightarrow> m (s + i) = xs ! i" "cstring m (s + length xs) ys"
  shows "cstring m s (xs @ ys)"
  using assms
proof (induction xs arbitrary: s)
  case (Cons x xs)
  have "cstring m (s + 1) (xs @ ys)"
  proof (rule Cons.IH)
    show "m (s + 1 + i) = xs ! i" if "i < length xs" for i using Cons.prems(2) [of "Suc i"] that by simp
  qed (use Cons.prems in auto)
  then show ?case using Cons.prems(1) Cons.prems(2) [of 0] by auto
qed simp

lemma cstring_nth: "cstring m s xs \<Longrightarrow> i < length xs \<Longrightarrow> m (s + i) = xs ! i"
proof (induction xs arbitrary: s i)
  case (Cons x xs)
  then show ?case using Cons.IH [of "s + 1" "i - 1"] by (cases i) auto
qed simp

lemma cstring_nz: "cstring m s xs \<Longrightarrow> 0 \<notin> set xs"
  by (induction xs arbitrary: s) auto

lemma strcat_spec:
  assumes "cstring m dst xs" "cstring m src ys" "dst + length xs + length ys < src \<or> src + length ys < dst"
  shows "\<exists>m'. strcat m dst src = Some m' \<and> cstring m' dst (xs @ ys) \<and>
    (\<forall>a. a < dst + length xs \<or> dst + length xs + length ys < a \<longrightarrow> m' a = m a)"
proof -
  let ?m = "memcpy_mem (dst + length xs) src (length ys + 1) m"
  have "strcat m dst src = Some ?m"
    using strlen_spec [OF assms(1)] strcpy_spec [OF assms(2), of "dst + length xs"] assms(3) by (auto simp: strcat_def)
  moreover have "cstring ?m dst (xs @ ys)"
  proof (rule cstring_append)
    show "?m (dst + i) = xs ! i" if "i < length xs" for i
      using cstring_nth [OF assms(1) that] that by (simp add: memcpy_mem_def)
  qed (use cstring_nz [OF assms(1)] cstring_memcpy [OF assms(2)] in auto)
  ultimately show ?thesis by (auto simp: memcpy_mem_def)
qed

lemma strcmp_spec:
  assumes "cstring m a xs" "cstring m b ys"
  shows "\<exists>r. strcmp m a b = Some r \<and> (r = 0 \<longleftrightarrow> xs = ys) \<and> (r < 0 \<longleftrightarrow> xs < ys) \<and> (0 < r \<longleftrightarrow> ys < xs)"
  using assms
proof (induction xs arbitrary: a b ys)
  case Nil
  then have "strcmp m a b = Some (byte_diff 0 (m b))" by (subst strcmp.simps) simp
  then show ?case using Nil by (cases ys) (auto simp: word_neq_0_conv)
next
  case (Cons x xs)
  show ?case
  proof (cases ys)
    case Nil
    then have "strcmp m a b = Some (byte_diff x 0)" using Cons.prems by (subst strcmp.simps) simp
    then show ?thesis using Cons.prems Nil by (auto simp: word_neq_0_conv)
  next
    case (Cons y zs)
    show ?thesis
    proof (cases "x = y")
      case True
      then have "strcmp m a b = strcmp m (a + 1) (b + 1)" using Cons.prems Cons by (subst strcmp.simps) simp
      then show ?thesis using Cons.IH [of "a + 1" "b + 1" zs] Cons.prems Cons True by auto
    next
      case False
      then have "strcmp m a b = Some (byte_diff x y)" using Cons.prems Cons by (subst strcmp.simps) simp
      then show ?thesis using Cons False by (auto simp: not_less_iff_gr_or_eq)
    qed
  qed
qed

text \<open>\<open>strncpy\<close> copies at most \<open>n\<close> bytes and pads with zeros.\<close>

lemma strncpy_zeros: "m src = 0 \<Longrightarrow> strncpy m d src n = memset m d 0 n"
proof (induction n arbitrary: m d)
  case (Suc n)
  have "strncpy (m(d := 0)) (d + 1) src n = memset (m(d := 0)) (d + 1) 0 n" by (rule Suc.IH) (use Suc.prems in simp)
  then show ?case using Suc.prems by simp
qed simp

lemma strncpy_spec:
  assumes "cstring m src xs" "d + n \<le> src \<or> src + length xs < d"
  shows "strncpy m d src n = (\<lambda>a. if d \<le> a \<and> a < d + n then if a - d < length xs then xs ! (a - d) else 0 else m a)"
  using assms
proof (induction xs arbitrary: m src d n)
  case Nil
  then show ?case by (auto simp: strncpy_zeros memset_spec)
next
  case (Cons x xs)
  show ?case
  proof (cases n)
    case (Suc k)
    have "cstring (m(d := x)) (src + 1) xs" using Cons.prems Suc by (subst cstring_upd) auto
    then have "strncpy (m(d := x)) (d + 1) (src + 1) k =
        (\<lambda>a. if d + 1 \<le> a \<and> a < d + 1 + k then if a - (d + 1) < length xs then xs ! (a - (d + 1)) else 0 else (m(d := x)) a)"
      by (rule Cons.IH) (use Cons.prems Suc in auto)
    moreover have "strncpy m d src n = strncpy (m(d := x)) (d + 1) (src + 1) k" using Cons.prems Suc by simp
    ultimately show ?thesis using Suc by (auto simp: fun_eq_iff nth_Cons' Suc_diff_Suc)
  qed (auto simp: fun_eq_iff)
qed

lemma strncmp_eq:
  assumes "cstring m a xs" "cstring m b ys"
  shows "strncmp m a b n = 0 \<longleftrightarrow> take n xs = take n ys"
  using assms
proof (induction n arbitrary: a b xs ys)
  case (Suc n)
  then show ?case by (cases xs; cases ys) auto
qed simp

lemma strfind_spec:
  assumes "cstring m s xs"
  shows "strfind m s c = Some (s + length (takeWhile (\<lambda>x. x \<noteq> c) xs))"
  using assms
proof (induction xs arbitrary: s)
  case (Cons x xs)
  then show ?case by (subst strfind.simps) auto
qed (subst strfind.simps, simp)

lemma strchr_spec:
  assumes "cstring m s xs"
  shows "strchr m s c = Some (if c \<in> set xs then Some (s + length (takeWhile (\<lambda>x. x \<noteq> c) xs)) else None)"
  using assms
proof (induction xs arbitrary: s)
  case (Cons x xs)
  then show ?case by (subst strchr.simps) auto
qed (subst strchr.simps, simp)

section \<open>Numbers\<close>

fun holds :: "memory \<Rightarrow> nat \<Rightarrow> bytes \<Rightarrow> bool" where
  "holds m s [] \<longleftrightarrow> True"
| "holds m s (c # cs) \<longleftrightarrow> m s = c \<and> holds m (s + 1) cs"

lemma holds_nth: "holds m s cs \<longleftrightarrow> (\<forall>i<length cs. m (s + i) = cs ! i)"
  by (induction cs arbitrary: s) (auto simp: less_Suc_eq_0_disj)

text \<open>The value of a sequence of digits that extends the value \<open>v\<close>.\<close>

fun digits_val :: "int \<Rightarrow> bytes \<Rightarrow> int \<Rightarrow> int" where
  "digits_val b [] v = v"
| "digits_val b (c # cs) v = digits_val b cs (v * b + the (char_digit c))"

definition digit_of :: "int \<Rightarrow> 8 word \<Rightarrow> bool" where
  "digit_of b c \<longleftrightarrow> (case char_digit c of None \<Rightarrow> False | Some d \<Rightarrow> d < b)"

lemma char_digit_nonneg: "char_digit c = Some d \<Longrightarrow> 0 \<le> d"
  by (auto simp: char_digit_def word_le_def split: if_splits)

lemma digits_val_mono: "0 \<le> v \<Longrightarrow> 1 \<le> b \<Longrightarrow> \<forall>c\<in>set cs. digit_of b c \<Longrightarrow> v \<le> digits_val b cs v"
proof (induction cs arbitrary: v)
  case (Cons c cs)
  then obtain d where d: "char_digit c = Some d" "0 \<le> d" using char_digit_nonneg by (auto simp: digit_of_def split: option.splits)
  have "v * 1 \<le> v * b" using Cons.prems by (intro mult_left_mono) auto
  then have "v \<le> v * b + d" using d by linarith
  moreover have "v * b + d \<le> digits_val b cs (v * b + d)"
    using Cons.IH [of "v * b + d"] Cons.prems calculation by simp
  ultimately show ?case using d by simp
qed simp

lemma strtol_digits_spec:
  assumes "holds m s cs" "\<forall>c\<in>set cs. digit_of b c" "\<not> digit_of b (m (s + length cs))" "0 \<le> v" "1 \<le> b" "digits_val b cs v < 2 ^ 63"
  shows "strtol_digits m b s v = Some (s + length cs, digits_val b cs v)"
  using assms
proof (induction cs arbitrary: s v)
  case Nil
  then show ?case by (subst strtol_digits.simps) (auto simp: digit_of_def split: option.splits)
next
  case (Cons c cs)
  then obtain d where d: "char_digit c = Some d" "0 \<le> d" "d < b" using char_digit_nonneg by (auto simp: digit_of_def split: option.splits)
  have nn: "0 \<le> v * b + d" using Cons.prems d by simp
  have "v * b + d \<le> digits_val b (c # cs) v" using digits_val_mono [OF nn, of b cs] Cons.prems d by simp
  then have s: "s64 (v * b + d) = v * b + d" using nn Cons.prems(6) by (intro s64_id) auto
  have "strtol_digits m b (s + 1) (v * b + d) = Some (s + 1 + length cs, digits_val b cs (v * b + d))"
    by (rule Cons.IH) (use Cons.prems d nn in auto)
  then show ?case by (subst strtol_digits.simps) (use Cons.prems d s in auto)
qed

lemma strtol_number:
  assumes "holds m s ((if neg then [45] else []) @ c # cs)" "\<forall>x\<in>set (c # cs). digit_of b x"
    "\<not> digit_of b (m (s + length ((if neg then [45] else []) @ c # cs)))" "2 \<le> b" "b = 16 \<longrightarrow> cs = [] \<or> c \<noteq> 48" "b = 16 \<longrightarrow> cs = [] \<longrightarrow> m (s + (if neg then 2 else 1)) \<noteq> 120"
    "digits_val b (c # cs) 0 < 2 ^ 63"
  shows "strtol m s b = Some (if neg then - digits_val b (c # cs) 0 else digits_val b (c # cs) 0, s + length ((if neg then [45] else []) @ c # cs))"
proof -
  let ?v = "digits_val b (c # cs) 0" and ?k = "if neg then 1 else 0 :: nat"
  have dig: "char_digit c \<noteq> None" using assms(2) by (auto simp: digit_of_def split: option.splits)
  have c: "c \<noteq> 43" "c \<noteq> 45" "c \<noteq> 32" "c \<noteq> 9" using dig by (auto simp: char_digit_def)
  have h: "holds m (s + ?k) (c # cs)" using assms(1) by (cases neg) auto
  have st: "\<not> digit_of b (m (s + ?k + length (c # cs)))" using assms(3) by (cases neg) auto
  have r: "strtol_digits m b (s + ?k) 0 = Some (s + ?k + length (c # cs), ?v)"
    by (rule strtol_digits_spec [OF h assms(2) st]) (use assms(4,7) in auto)
  have nn: "0 \<le> ?v" using digits_val_mono [of 0 b "c # cs"] assms(2,4) by simp
  have sp: "skip_space m s = Some s" by (subst skip_space.simps) (use assms(1) c in \<open>auto split: if_splits\<close>)
  have np: "\<not> (b = 16 \<and> m (s + ?k) = 48 \<and> m (s + ?k + 1) = 120)"
  proof (cases cs)
    case Nil
    then show ?thesis using assms(6) by (cases neg) auto
  next
    case (Cons e es)
    then show ?thesis using assms(5) h by auto
  qed
  have neg: "s64 (- ?v) = - ?v" using nn assms(7) by (intro s64_range) auto
  show ?thesis
    using sp r h np neg assms(1,4) c by (cases neg) (auto simp: strtol_def)
qed

unbundle bit_operations_syntax

section \<open>Pseudo-random numbers (rand.c)\<close>

text \<open>The argument is the variable \<open>next\<close>.\<close>

definition RAND_MAX :: nat where "RAND_MAX = 2147483647"

definition rand :: "64 word \<Rightarrow> int \<times> 64 word" where
  "rand nx =
     (let nx = (nx * 0x5DEECE66D + 0xB) AND (push_bit 48 1 - 1);
          result = drop_bit 12 nx
      in (int (unat result mod (RAND_MAX + 1)), nx))"

definition srand :: "32 word \<Rightarrow> 64 word" where
  "srand seed = ucast seed"

lemma rand_range: "0 \<le> fst (rand nx)" "fst (rand nx) \<le> int RAND_MAX" "unat (snd (rand nx)) < 2 ^ 48"
proof -
  show "0 \<le> fst (rand nx)" "fst (rand nx) \<le> int RAND_MAX" by (simp_all add: rand_def Let_def RAND_MAX_def)
  have "snd (rand nx) = take_bit 48 (nx * 0x5DEECE66D + 0xB)"
    by (simp add: rand_def Let_def take_bit_eq_mask mask_eq_exp_minus_1)
  then have "unat (snd (rand nx)) = take_bit 48 (unat (nx * 0x5DEECE66D + 0xB))" by (simp add: unsigned_take_bit_eq)
  then show "unat (snd (rand nx)) < 2 ^ 48" by (metis take_bit_nat_less_exp)
qed

section \<open>Properties\<close>

text \<open>C37. \<open>memmove\<close> copies correctly for every position of source and destination, overlapping or not: afterwards the
  destination holds the bytes the source had before, and no other byte changes. \<open>memcpy\<close> does the same unless the destination
  starts inside the source.\<close>

theorem memmove_correct:
  "memmove m dst src n = memcpy_mem dst src n m \<and>
   (dst \<le> src \<or> src + n \<le> dst \<longrightarrow> memcpy m dst src n = memcpy_mem dst src n m)"
  using copy_up_spec [of dst src n m] copy_down_spec [of src dst m n] by (auto simp: memmove_def memcpy_def not_less)

theorem memmove_correct_witness:
  "memcpy (\<lambda>a. word_of_nat a) 12 20 8 = memcpy_mem 12 20 8 (\<lambda>a. word_of_nat a) \<and>
   memmove (\<lambda>a. word_of_nat a) 12 10 8 17 = 15"
  using memmove_correct [of "\<lambda>a. word_of_nat a" 12 20 8] memmove_correct [of "\<lambda>a. word_of_nat a" 12 10 8]
  by (auto simp: memcpy_mem_def)

end
