(* ===== verification/Printfmt.thy ===== *)
theory Printfmt
  imports Strings
begin

text \<open>
  Formatted output, libs/printfmt.c: \<open>vprintfmt\<close> as the sequence of bytes it passes to \<open>putch\<close>, and \<open>vsnprintf\<close>, which stores them in a buffer.
  A format is the list of its bytes before the terminating zero, an argument list the list of its 64-bit slots; a missing argument is
  undefined behaviour, \<open>None\<close>. Widths and precisions are unbounded integers: overflowing an \<open>int\<close> there takes a format with a
  width of more than nine digits or a string of \<open>2 ^ 31\<close> bytes.
\<close>

section \<open>Formatted output\<close>

definition hex_digit :: "nat \<Rightarrow> 8 word" where
  "hex_digit k = (if k < 10 then word_of_nat (48 + k) else word_of_nat (97 + (k - 10)))"

text \<open>The bytes \<open>printnum\<close> passes to \<open>putch\<close>, in order. The base is 8, 10 or 16.\<close>

function printnum :: "nat \<Rightarrow> nat \<Rightarrow> int \<Rightarrow> 8 word \<Rightarrow> bytes" where
  "printnum num base width padc =
     (if num \<ge> base \<and> base \<ge> 2 then printnum (num div base) base (width - 1) padc
      else replicate (nat (width - 1)) padc) @ [hex_digit (num mod base)]"
  by pat_completeness auto
termination printnum
  by (relation "measure (\<lambda>(num, base, width, padc). num)") auto

declare printnum.simps [simp del]

text \<open>The arguments are 64-bit slots; reading past the last one is undefined.\<close>

type_synonym va_list = "64 word list"

definition va_int :: "va_list \<Rightarrow> (int \<times> va_list) option" where
  "va_int ap = (case ap of [] \<Rightarrow> None | w # ap \<Rightarrow> Some (sint (ucast w :: 32 word), ap))"

definition getuint :: "va_list \<Rightarrow> nat \<Rightarrow> (nat \<times> va_list) option" where
  "getuint ap lflag =
     (case ap of [] \<Rightarrow> None
      | w # ap \<Rightarrow> if lflag \<ge> 2 then Some (unat w, ap) else if lflag \<noteq> 0 then Some (unat w, ap) else Some (unat (ucast w :: 32 word), ap))"

definition getint :: "va_list \<Rightarrow> nat \<Rightarrow> (int \<times> va_list) option" where
  "getint ap lflag =
     (case ap of [] \<Rightarrow> None
      | w # ap \<Rightarrow> if lflag \<ge> 2 then Some (sint w, ap) else if lflag \<noteq> 0 then Some (sint w, ap) else Some (sint (ucast w :: 32 word), ap))"

definition str_bytes :: "string \<Rightarrow> bytes" where
  "str_bytes cs = map of_char cs"

definition error_string :: "int \<Rightarrow> bytes option" where
  "error_string e =
     (if e = E_UNSPECIFIED then Some (str_bytes ''unspecified error'')
      else if e = E_BAD_PROC then Some (str_bytes ''bad process'')
      else if e = E_INVAL then Some (str_bytes ''invalid parameter'')
      else if e = E_NO_MEM then Some (str_bytes ''out of memory'')
      else if e = E_NO_FREE_PROC then Some (str_bytes ''out of processes'')
      else if e = E_FAULT then Some (str_bytes ''segmentation fault'')
      else if e = E_INVAL_ELF then Some (str_bytes ''invalid elf file'')
      else if e = E_KILLED then Some (str_bytes ''process is killed'')
      else if e = E_PANIC then Some (str_bytes ''panic failure'')
      else if e = E_NO_DEV then Some (str_bytes ''no such device'')
      else if e = E_NA_DEV then Some (str_bytes ''device not available'')
      else if e = E_BUSY then Some (str_bytes ''device/file is busy'')
      else if e = E_NOENT then Some (str_bytes ''no such file or directory'')
      else if e = E_ISDIR then Some (str_bytes ''is a directory'')
      else if e = E_NOTDIR then Some (str_bytes ''not a directory'')
      else if e = E_XDEV then Some (str_bytes ''cross device link'')
      else if e = E_UNIMP then Some (str_bytes ''unimplemented feature'')
      else if e = E_SEEK then Some (str_bytes ''illegal seek'')
      else if e = E_MAX_OPEN then Some (str_bytes ''too many files are open'')
      else if e = E_EXISTS then Some (str_bytes ''file or directory already exists'')
      else if e = E_NOTEMPTY then Some (str_bytes ''directory is not empty'')
      else None)"

definition MAXERROR :: int where "MAXERROR = 24"

text \<open>The variables of one escape sequence.\<close>

record fmt_st =
  padc :: "8 word"
  width :: int
  precision :: int
  lflag :: nat
  altflag :: bool

definition fmt_init :: fmt_st where
  "fmt_init = \<lparr>padc = 32, width = -1, precision = -1, lflag = 0, altflag = False\<rparr>"

fun read_width :: "int \<Rightarrow> 8 word \<Rightarrow> bytes \<Rightarrow> int \<times> bytes" where
  "read_width prec ch fmt =
     (let prec = prec * 10 + int (unat ch) - 48
      in case fmt of
           [] \<Rightarrow> (prec, [])
         | c # fmt' \<Rightarrow> if c < 48 \<or> c > 57 then (prec, fmt) else read_width prec c fmt')"

declare read_width.simps [simp del]

definition process_precision :: "fmt_st \<Rightarrow> fmt_st" where
  "process_precision st = (if width st < 0 then st\<lparr>width := precision st, precision := -1\<rparr> else st)"

text \<open>A string is read byte by byte: \<open>rd i\<close> is \<open>p[i]\<close>.\<close>

partial_function (option) strnlen_rd :: "(nat \<Rightarrow> 8 word) \<Rightarrow> nat \<Rightarrow> nat \<Rightarrow> nat option" where
  "strnlen_rd rd len cnt = (if cnt < len \<and> rd cnt \<noteq> 0 then strnlen_rd rd len (cnt + 1) else Some cnt)"

partial_function (option) fmt_chars :: "(nat \<Rightarrow> 8 word) \<Rightarrow> bool \<Rightarrow> nat \<Rightarrow> int \<Rightarrow> int \<Rightarrow> (bytes \<times> int) option" where
  "fmt_chars rd alt i prec w =
     (if rd i \<noteq> 0 \<and> (prec < 0 \<or> prec - 1 \<ge> 0)
      then do {
        (out, w) \<leftarrow> fmt_chars rd alt (i + 1) (if prec < 0 then prec else prec - 1) (w - 1);
        Some ((if alt \<and> (rd i < 32 \<or> rd i > 126) then 63 else rd i) # out, w) }
      else Some ([], w))"

definition fmt_string :: "(nat \<Rightarrow> 8 word) \<Rightarrow> fmt_st \<Rightarrow> bytes option" where
  "fmt_string rd st = do {
     (pad, w) \<leftarrow>
       (if width st > 0 \<and> padc st \<noteq> 45
        then do {
          n \<leftarrow> strnlen_rd rd (nat (precision st mod 2 ^ 64)) 0;
          let w = width st - int n;
          Some (replicate (nat w) (padc st), if w > 0 then 0 else w) }
        else Some ([], width st));
     (out, w) \<leftarrow> fmt_chars rd (altflag st) 0 (precision st) w;
     Some (pad @ out @ replicate (nat w) 32) }"

definition str_rd :: "bytes \<Rightarrow> nat \<Rightarrow> 8 word" where
  "str_rd xs i = (if i < length xs then xs ! i else 0)"

text \<open>The result of an escape sequence: its output with the rest of the format and of the arguments, or
  \<open>Unknown\<close>, after which printing goes on behind the percent sign.\<close>

datatype esc = Esc bytes bytes va_list | Unknown

definition fmt_number :: "fmt_st \<Rightarrow> bytes \<Rightarrow> nat \<Rightarrow> nat \<Rightarrow> bytes \<Rightarrow> va_list \<Rightarrow> esc option" where
  "fmt_number st pre num base fmt ap = Some (Esc (pre @ printnum num base (width st) (padc st)) fmt ap)"

text \<open>\<open>pf\<close> is \<open>printfmt\<close>, which the escape for error codes calls.\<close>

definition fmt_error :: "(bytes \<Rightarrow> va_list \<Rightarrow> bytes option) \<Rightarrow> int \<Rightarrow> bytes option" where
  "fmt_error pf err =
     (let err = (if err < 0 then - err else err)
      in case (if err > MAXERROR then None else error_string err) of
           None \<Rightarrow> pf (str_bytes ''error %d'') [word_of_int err]
         | Some p \<Rightarrow> fmt_string (str_rd p) fmt_init)"

definition fmt_conv :: "(bytes \<Rightarrow> va_list \<Rightarrow> bytes option) \<Rightarrow> memory \<Rightarrow> fmt_st \<Rightarrow> 8 word \<Rightarrow> bytes \<Rightarrow> va_list \<Rightarrow> esc option" where
  "fmt_conv pf m st ch fmt ap =
     (if ch = 99 then do { (c, ap) \<leftarrow> va_int ap; Some (Esc [word_of_int c] fmt ap) }
      else if ch = 101 then do { (err, ap) \<leftarrow> va_int ap; out \<leftarrow> fmt_error pf err; Some (Esc out fmt ap) }
      else if ch = 115 then (case ap of
          [] \<Rightarrow> None
        | p # ap \<Rightarrow> do {
            out \<leftarrow> fmt_string (if p = 0 then str_rd (str_bytes ''(null)'') else (\<lambda>i. m (unat p + i))) st;
            Some (Esc out fmt ap) })
      else if ch = 100 then do {
        (num, ap) \<leftarrow> getint ap (lflag st);
        if num < 0 then fmt_number st [45] (nat (- num)) 10 fmt ap else fmt_number st [] (nat num) 10 fmt ap }
      else if ch = 117 then do { (num, ap) \<leftarrow> getuint ap (lflag st); fmt_number st [] num 10 fmt ap }
      else if ch = 111 then do { (num, ap) \<leftarrow> getuint ap (lflag st); fmt_number st [] num 8 fmt ap }
      else if ch = 112 then (case ap of [] \<Rightarrow> None | p # ap \<Rightarrow> fmt_number st [48, 120] (unat p) 16 fmt ap)
      else if ch = 120 then do { (num, ap) \<leftarrow> getuint ap (lflag st); fmt_number st [] num 16 fmt ap }
      else if ch = 37 then Some (Esc [ch] fmt ap)
      else Some Unknown)"

lemma read_width_length: "length (snd (read_width prec ch fmt)) \<le> length fmt"
proof (induction fmt arbitrary: prec ch)
  case (Cons c fmt)
  then show ?case by (subst read_width.simps) (auto simp: Let_def le_SucI)
qed (simp add: read_width.simps)

function (sequential) escape :: "(bytes \<Rightarrow> va_list \<Rightarrow> bytes option) \<Rightarrow> memory \<Rightarrow> fmt_st \<Rightarrow> bytes \<Rightarrow> va_list \<Rightarrow> esc option" where
  "escape pf m st [] ap = Some Unknown"
| "escape pf m st (ch # fmt) ap =
     (if ch = 45 then escape pf m (st\<lparr>padc := 45\<rparr>) fmt ap
      else if ch = 48 then escape pf m (st\<lparr>padc := 48\<rparr>) fmt ap
      else if 49 \<le> ch \<and> ch \<le> 57
      then escape pf m (process_precision (st\<lparr>precision := fst (read_width 0 ch fmt)\<rparr>)) (snd (read_width 0 ch fmt)) ap
      else if ch = 42
      then (case va_int ap of None \<Rightarrow> None | Some (p, ap) \<Rightarrow> escape pf m (process_precision (st\<lparr>precision := p\<rparr>)) fmt ap)
      else if ch = 46 then escape pf m (if width st < 0 then st\<lparr>width := 0\<rparr> else st) fmt ap
      else if ch = 35 then escape pf m (st\<lparr>altflag := True\<rparr>) fmt ap
      else if ch = 108 then escape pf m (st\<lparr>lflag := lflag st + 1\<rparr>) fmt ap
      else fmt_conv pf m st ch fmt ap)"
  by pat_completeness auto
termination escape
  by (relation "measure (\<lambda>(pf, m, st, fmt, ap). length fmt)") (auto intro: le_less_trans [OF read_width_length])

lemma fmt_conv_length: "fmt_conv pf m st ch fmt ap = Some (Esc out fmt' ap') \<Longrightarrow> fmt' = fmt"
  by (auto simp: fmt_conv_def fmt_number_def split: if_splits list.splits Option.bind_splits)

lemma escape_length: "escape pf m st fmt ap = Some (Esc out fmt' ap') \<Longrightarrow> length fmt' \<le> length fmt"
proof (induction pf m st fmt ap rule: escape.induct)
  case (2 pf m st ch fmt ap)
  note IH = "2.IH" and pr = "2.prems"
  show ?case
  proof (cases "49 \<le> ch \<and> ch \<le> 57")
    case True
    then have e: "ch \<noteq> 45" "ch \<noteq> 48" by auto
    then have "length fmt' \<le> length (snd (read_width 0 ch fmt))" using IH(3) pr True by auto
    then show ?thesis using read_width_length [of 0 ch fmt] by simp
  next
    case False
    have "length fmt' \<le> length fmt"
      using False pr IH(1,2,4,5,6,7) by (auto split: if_splits option.splits dest: fmt_conv_length)
    then show ?thesis by simp
  qed
qed simp

function (sequential) vprintfmt_with :: "(bytes \<Rightarrow> va_list \<Rightarrow> bytes option) \<Rightarrow> memory \<Rightarrow> bytes \<Rightarrow> va_list \<Rightarrow> bytes option" where
  "vprintfmt_with pf m [] ap = Some []"
| "vprintfmt_with pf m (ch # fmt) ap =
     (if ch \<noteq> 37 then map_option (\<lambda>out. ch # out) (vprintfmt_with pf m fmt ap)
      else case escape pf m fmt_init fmt ap of
          None \<Rightarrow> None
        | Some Unknown \<Rightarrow> map_option (\<lambda>out. 37 # out) (vprintfmt_with pf m fmt ap)
        | Some (Esc out fmt' ap') \<Rightarrow> map_option (\<lambda>out'. out @ out') (vprintfmt_with pf m fmt' ap'))"
  by pat_completeness auto
termination vprintfmt_with
  by (relation "measure (\<lambda>(pf, m, fmt, ap). length fmt)") (auto dest: escape_length)

text \<open>The formats that the escape for error codes prints have no such escape themselves.\<close>

definition vprintfmt :: "memory \<Rightarrow> bytes \<Rightarrow> va_list \<Rightarrow> bytes option" where
  "vprintfmt m fmt ap = vprintfmt_with (vprintfmt_with (\<lambda>_ _. None) m) m fmt ap"

record sprintbuf =
  sbuf :: nat
  ebuf :: nat
  scnt :: int

definition sprintputch :: "8 word \<Rightarrow> memory \<times> sprintbuf \<Rightarrow> memory \<times> sprintbuf" where
  "sprintputch ch = (\<lambda>(m, b).
     let b = b\<lparr>scnt := scnt b + 1\<rparr>
     in if sbuf b < ebuf b then (m(sbuf b := ch), b\<lparr>sbuf := sbuf b + 1\<rparr>) else (m, b))"

text \<open>The buffer does not overlap the strings that are printed.\<close>

definition vsnprintf :: "memory \<Rightarrow> nat \<Rightarrow> nat \<Rightarrow> bytes \<Rightarrow> va_list \<Rightarrow> (int \<times> memory) option" where
  "vsnprintf m str n fmt ap =
     (let b = \<lparr>sbuf = str, ebuf = u64 (u64 (str + n) + 2 ^ 64 - 1), scnt = 0\<rparr>
      in if str = 0 \<or> sbuf b > ebuf b then Some (- E_INVAL, m)
         else do {
           out \<leftarrow> vprintfmt m fmt ap;
           let (m, b) = fold sprintputch out (m, b);
           Some (scnt b, m(sbuf b := 0)) })"

definition snprintf :: "memory \<Rightarrow> nat \<Rightarrow> nat \<Rightarrow> bytes \<Rightarrow> va_list \<Rightarrow> (int \<times> memory) option" where
  "snprintf m str n fmt ap = vsnprintf m str n fmt ap"

section \<open>Numbers as digits\<close>

abbreviation num_digits :: "nat \<Rightarrow> nat \<Rightarrow> bytes" where
  "num_digits b n \<equiv> printnum n b 0 0"

lemma num_digits_rec: "2 \<le> b \<Longrightarrow> num_digits b n = (if n \<ge> b then num_digits b (n div b) else []) @ [hex_digit (n mod b)]"
proof -
  have w: "w \<le> 0 \<Longrightarrow> w' \<le> 0 \<Longrightarrow> printnum n b w p = printnum n b w' p'" for w w' n p p'
  proof (induction n b w p arbitrary: w' p' rule: printnum.induct)
    case (1 n b w p)
    have "printnum (n div b) b (w - 1) p = printnum (n div b) b (w' - 1) p'" if "n \<ge> b" "2 \<le> b"
      using "1.IH" [of "w' - 1" p'] that "1.prems" by simp
    then show ?case using "1.prems" by (subst (1 2) printnum.simps) auto
  qed
  show "2 \<le> b \<Longrightarrow> ?thesis" by (subst printnum.simps) (auto intro: w)
qed

lemma num_digits_length: "2 \<le> b \<Longrightarrow> n < b ^ k \<Longrightarrow> 0 < k \<Longrightarrow> length (num_digits b n) \<le> k"
proof (induction k arbitrary: n)
  case (Suc k)
  show ?case
  proof (cases "n \<ge> b")
    case True
    then have k: "0 < k" using Suc.prems by (cases k) auto
    have "n div b < b ^ k" using Suc.prems by (simp add: less_mult_imp_div_less mult.commute)
    then show ?thesis using Suc.IH [of "n div b"] Suc.prems(1) k True by (subst num_digits_rec) auto
  next
    case False
    then show ?thesis using Suc.prems(1) by (subst num_digits_rec) auto
  qed
qed simp

lemma printnum_padded:
  "2 \<le> b \<Longrightarrow> printnum n b w p = replicate (nat (w - int (length (num_digits b n)))) p @ num_digits b n"
proof (induction n b w p rule: printnum.induct)
  case (1 n b w p)
  show ?case
  proof (cases "n \<ge> b")
    case True
    have "printnum n b w p = printnum (n div b) b (w - 1) p @ [hex_digit (n mod b)]"
      using True "1.prems" by (subst printnum.simps) simp
    also have "printnum (n div b) b (w - 1) p = replicate (nat (w - 1 - int (length (num_digits b (n div b))))) p @ num_digits b (n div b)"
      using "1.IH" True "1.prems" by simp
    finally show ?thesis using num_digits_rec [OF "1.prems", of n] True by (simp add: algebra_simps)
  next
    case False
    then have "printnum n b w p = replicate (nat (w - 1)) p @ [hex_digit (n mod b)]" by (subst printnum.simps) simp
    then show ?thesis using num_digits_rec [OF "1.prems", of n] False by simp
  qed
qed

lemma char_hex_digit: "k < 16 \<Longrightarrow> char_digit (hex_digit k) = Some (int k)"
proof -
  have "\<forall>k\<in>set [0..<16]. char_digit (hex_digit k) = Some (int k)" by code_simp
  then show "k < 16 \<Longrightarrow> ?thesis" by simp
qed

lemma digits_val_append: "digits_val b (xs @ ys) v = digits_val b ys (digits_val b xs v)"
  by (induction xs arbitrary: v) auto

lemma num_digits_val:
  assumes "2 \<le> b" "b \<le> 16"
  shows "digits_val (int b) (num_digits b n) 0 = int n"
proof (induction n rule: less_induct)
  case (less n)
  have m: "char_digit (hex_digit (n mod b)) = Some (int (n mod b))"
    by (rule char_hex_digit) (use assms in \<open>simp add: order.strict_trans2 [OF mod_less_divisor]\<close>)
  show ?case
  proof (cases "n \<ge> b")
    case True
    then have "digits_val (int b) (num_digits b (n div b)) 0 = int (n div b)" using less assms by simp
    then have "digits_val (int b) (num_digits b n) 0 = int (n div b) * int b + int (n mod b)"
      using num_digits_rec [OF assms(1), of n] True m by (simp add: digits_val_append)
    then show ?thesis by (simp flip: of_nat_mult of_nat_add)
  next
    case False
    then show ?thesis using num_digits_rec [OF assms(1), of n] m by simp
  qed
qed

lemma num_digits_digit:
  assumes "2 \<le> b" "b \<le> 16"
  shows "\<forall>c\<in>set (num_digits b n). digit_of (int b) c"
proof (induction n rule: less_induct)
  case (less n)
  have "n mod b < b" using assms by simp
  moreover have "n mod b < 16" using calculation assms by linarith
  ultimately have "digit_of (int b) (hex_digit (n mod b))" using char_hex_digit [of "n mod b"] assms by (simp add: digit_of_def)
  then show ?case using num_digits_rec [OF assms(1), of n] less [of "n div b"] assms by (auto split: if_splits)
qed

lemma hex_digit_48: "k < 16 \<Longrightarrow> hex_digit k = 48 \<Longrightarrow> k = 0"
  using char_hex_digit [of k] by (auto simp: char_digit_def)

lemma num_digits_head:
  assumes "2 \<le> b" "b \<le> 16"
  shows "\<exists>c cs. num_digits b n = c # cs \<and> (cs = [] \<or> c \<noteq> 48)"
proof (induction n rule: less_induct)
  case (less n)
  show ?case
  proof (cases "n \<ge> b")
    case True
    then have lt: "n div b < n" "0 < n div b" using assms by (simp_all add: div_greater_zero_iff)
    then obtain c cs where c: "num_digits b (n div b) = c # cs" "cs = [] \<or> c \<noteq> 48" using less by blast
    have "c \<noteq> 48"
    proof
      assume "c = 48"
      then have "num_digits b (n div b) = [48]" using c by simp
      then show False using num_digits_val [OF assms, of "n div b"] lt by (simp add: char_digit_def)
    qed
    then show ?thesis using c(1) num_digits_rec [OF assms(1), of n] True by simp
  next
    case False
    then show ?thesis using num_digits_rec [OF assms(1), of n] by simp
  qed
qed

section \<open>Bounded output\<close>

lemma sprintputch_fold:
  assumes "sbuf b \<le> ebuf b"
  shows "fold sprintputch out (m, b) =
    ((\<lambda>a. if sbuf b \<le> a \<and> a < sbuf b + min (ebuf b - sbuf b) (length out) then out ! (a - sbuf b) else m a),
     b\<lparr>sbuf := sbuf b + min (ebuf b - sbuf b) (length out), scnt := scnt b + int (length out)\<rparr>)"
  using assms
proof (induction out arbitrary: m b)
  case (Cons c out)
  show ?case
  proof (cases "sbuf b < ebuf b")
    case True
    let ?b = "b\<lparr>scnt := scnt b + 1, sbuf := sbuf b + 1\<rparr>"
    have "fold sprintputch (c # out) (m, b) = fold sprintputch out (m(sbuf b := c), ?b)"
      using True by (simp add: sprintputch_def Let_def)
    also have "\<dots> = ((\<lambda>a. if sbuf b + 1 \<le> a \<and> a < sbuf b + 1 + min (ebuf b - (sbuf b + 1)) (length out) then out ! (a - (sbuf b + 1)) else (m(sbuf b := c)) a),
        ?b\<lparr>sbuf := sbuf b + 1 + min (ebuf b - (sbuf b + 1)) (length out), scnt := scnt b + 1 + int (length out)\<rparr>)"
      using Cons.IH [of ?b "m(sbuf b := c)"] True by (simp add: fun_upd_def cong: if_cong)
    finally show ?thesis using True by (auto simp: fun_eq_iff nth_Cons' Suc_diff_Suc)
  next
    case False
    then have e: "sbuf b = ebuf b" using Cons.prems by simp
    have "fold sprintputch (c # out) (m, b) = fold sprintputch out (m, b\<lparr>scnt := scnt b + 1\<rparr>)"
      using False by (simp add: sprintputch_def Let_def)
    then show ?thesis using Cons.IH [of "b\<lparr>scnt := scnt b + 1\<rparr>" m] e by (auto simp: fun_eq_iff)
  qed
qed (auto simp: fun_eq_iff)

lemma vsnprintf_spec:
  assumes "vprintfmt m fmt ap = Some out" "0 < n" "0 < str" "str + n < 2 ^ 64"
  shows "vsnprintf m str n fmt ap = Some (int (length out),
     (\<lambda>a. if str \<le> a \<and> a < str + min (n - 1) (length out) then out ! (a - str)
          else if a = str + min (n - 1) (length out) then 0 else m a))"
proof -
  have e: "u64 (u64 (str + n) + 2 ^ 64 - 1) = str + n - 1" using assms u64_sub [of 1 "str + n"] by simp
  let ?b = "\<lparr>sbuf = str, ebuf = str + n - 1, scnt = 0\<rparr>"
  show ?thesis
    unfolding vsnprintf_def e using assms sprintputch_fold [of ?b out m] by (auto simp: Let_def fun_eq_iff)
qed

section \<open>Printing and reading a number\<close>

lemma str_bytes_ld: "str_bytes ''%ld'' = [37, 108, 100]" "str_bytes ''%lx'' = [37, 108, 120]"
  by (simp_all add: str_bytes_def of_char_def)

lemma vprintfmt_ld:
  "vprintfmt m (str_bytes ''%ld'') [w] = Some (if sint w < 0 then 45 # num_digits 10 (nat (- sint w)) else num_digits 10 (nat (sint w)))"
  using printnum_padded [of 10 _ "-1" 32]
  by (simp add: vprintfmt_def str_bytes_ld fmt_conv_def getint_def fmt_number_def fmt_init_def)

lemma vprintfmt_lx: "vprintfmt m (str_bytes ''%lx'') [w] = Some (num_digits 16 (unat w))"
  using printnum_padded [of 16 _ "-1" 32]
  by (simp add: vprintfmt_def str_bytes_ld fmt_conv_def getuint_def fmt_number_def fmt_init_def)

lemma num_digits_63:
  assumes "k < 2 ^ 63"
  shows "length (num_digits 10 k) \<le> 19" "length (num_digits 16 k) \<le> 16"
proof -
  have "k < 10 ^ 19" using assms by (rule less_trans) simp
  then show "length (num_digits 10 k) \<le> 19" by (intro num_digits_length) auto
  have "k < 16 ^ 16" using assms by (rule less_trans) simp
  then show "length (num_digits 16 k) \<le> 16" by (intro num_digits_length) auto
qed

text \<open>The minus flag, which pads on the right for strings, fills the left of a number with minus signs.\<close>

lemma minus_flag_number: "vprintfmt m (str_bytes ''%-5d'') [7] = Some (str_bytes ''----7'')"
  by code_simp

text \<open>A printed number in a buffer that is large enough is read back.\<close>

lemma strtol_printed:
  assumes b: "2 \<le> b" "b \<le> 16" and k: "k < 2 ^ 63" and h: "holds m s ((if neg then [45] else []) @ num_digits b k @ [0])"
  shows "strtol m s (int b) = Some (if neg then - int k else int k, s + length ((if neg then [45] else []) @ num_digits b k))"
proof -
  obtain c cs where c: "num_digits b k = c # cs" "cs = [] \<or> c \<noteq> 48" using num_digits_head [OF b] by blast
  let ?xs = "(if neg then [45] else []) @ num_digits b k"
  have z: "m (s + length ?xs) = 0"
    using h unfolding holds_nth by (auto dest: spec [of _ "length ?xs"] simp: nth_append)
  have hd: "holds m s ?xs" using h unfolding holds_nth by (auto simp: nth_append split: if_splits)
  have nd: "\<not> digit_of (int b) 0" by (simp add: digit_of_def char_digit_def)
  have v: "digits_val (int b) (c # cs) 0 = int k" using num_digits_val [OF b, of k] c(1) by simp
  have "strtol m s (int b) = Some (if neg then - digits_val (int b) (c # cs) 0 else digits_val (int b) (c # cs) 0, s + length ((if neg then [45] else []) @ c # cs))"
  proof (rule strtol_number)
    show "\<not> digit_of (int b) (m (s + length ((if neg then [45] else []) @ c # cs)))" using z nd c(1) by simp
    show "digits_val (int b) (c # cs) 0 < 2 ^ 63" unfolding v using k by simp
    show "int b = 16 \<longrightarrow> cs = [] \<longrightarrow> m (s + (if neg then 2 else 1)) \<noteq> 120" using z c(1) by (auto split: if_splits)
  qed (use hd c num_digits_digit [OF b, of k] b in auto)
  then show ?thesis using v c(1) by simp
qed

lemma snprintf_holds:
  assumes "vprintfmt m fmt ap = Some out" "length out < n" "0 < str" "str + n < 2 ^ 64"
  shows "\<exists>m'. snprintf m str n fmt ap = Some (int (length out), m') \<and> holds m' str (out @ [0])"
proof -
  have "min (n - 1) (length out) = length out" using assms(2) by simp
  then show ?thesis
    using vsnprintf_spec [OF assms(1) _ assms(3,4)] assms(2)
    by (auto simp: snprintf_def holds_nth nth_append)
qed

section \<open>Properties\<close>



text \<open>C35. Printing and reading numbers is a round trip: \<open>snprintf\<close> with the format \<open>%ld\<close> into a buffer of at least 21 bytes,
  followed by \<open>strtol\<close> with base 10, gives back every \<open>long\<close> but the smallest and leaves the end pointer behind the last digit; so
  does \<open>%lx\<close> with base 16 for every non-negative \<open>long\<close>.\<close>

theorem snprintf_strtol_roundtrip:
  assumes "- (2 ^ 63) < i" "i < 2 ^ 63" "0 < str" "21 \<le> n" "str + n < 2 ^ 64"
  shows "(\<exists>k m'. snprintf m str n (str_bytes ''%ld'') [word_of_int i] = Some (int k, m') \<and> strtol m' str 10 = Some (i, str + k)) \<and>
    (0 \<le> i \<longrightarrow> (\<exists>k m'. snprintf m str n (str_bytes ''%lx'') [word_of_int i] = Some (int k, m') \<and> strtol m' str 16 = Some (i, str + k)))"
proof (intro conjI impI)
  have s: "sint (word_of_int i :: 64 word) = i" using assms(1,2) by (simp add: sint_sbintrunc' signed_take_bit_int_eq_self)
  have k: "nat \<bar>i\<bar> < 2 ^ 63" using assms(1,2) by simp
  let ?out = "(if i < 0 then [45] else []) @ num_digits 10 (nat \<bar>i\<bar>)"
  have f: "vprintfmt m (str_bytes ''%ld'') [word_of_int i] = Some ?out" unfolding vprintfmt_ld s by simp
  have "length ?out < n" using num_digits_63(1) [OF k] assms(4) by auto
  then obtain m' where m': "snprintf m str n (str_bytes ''%ld'') [word_of_int i] = Some (int (length ?out), m')" "holds m' str (?out @ [0])"
    using snprintf_holds [OF f _ assms(3,5)] by blast
  have "strtol m' str (int 10) = Some (if i < 0 then - int (nat \<bar>i\<bar>) else int (nat \<bar>i\<bar>), str + length ?out)"
    by (rule strtol_printed) (use k m'(2) in auto)
  then show "\<exists>k m'. snprintf m str n (str_bytes ''%ld'') [word_of_int i] = Some (int k, m') \<and> strtol m' str 10 = Some (i, str + k)"
    using m'(1) by (intro exI [of _ "length ?out"] exI [of _ m']) auto
next
  assume i: "0 \<le> i"
  have u: "unat (word_of_int i :: 64 word) = nat i" using i assms(2) by (simp add: unat_eq_nat_uint uint_word_of_int_eq take_bit_int_eq_self)
  have k: "nat i < 2 ^ 63" using assms(2) by simp
  let ?out = "num_digits 16 (nat i)"
  have f: "vprintfmt m (str_bytes ''%lx'') [word_of_int i] = Some ?out" unfolding vprintfmt_lx u by simp
  have "length ?out < n" using num_digits_63(2) [OF k] assms(4) by auto
  then obtain m' where m': "snprintf m str n (str_bytes ''%lx'') [word_of_int i] = Some (int (length ?out), m')" "holds m' str (?out @ [0])"
    using snprintf_holds [OF f _ assms(3,5)] by blast
  have "strtol m' str (int 16) = Some (if False then - int (nat i) else int (nat i), str + length ((if False then [45] else []) @ ?out))"
    by (rule strtol_printed) (use k m'(2) in auto)
  then show "\<exists>k m'. snprintf m str n (str_bytes ''%lx'') [word_of_int i] = Some (int k, m') \<and> strtol m' str 16 = Some (i, str + k)"
    using m'(1) i by (intro exI [of _ "length ?out"] exI [of _ m']) auto
qed

theorem snprintf_strtol_roundtrip_witness:
  "\<exists>k m'. snprintf (\<lambda>_. 0) 4096 32 (str_bytes ''%ld'') [word_of_int (- 40)] = Some (int k, m') \<and> strtol m' 4096 10 = Some (- 40, 4096 + k)"
  using snprintf_strtol_roundtrip [of "- 40" 4096 32 "\<lambda>_. 0"] by simp

end
