(* ===== verification/Exec.thy ===== *)
theory Exec
  imports Trapframe Proc Sysfile Printfmt
begin

text \<open>
  Starting a program: \<open>execve\<close> and the loader of \<open>kern/process/proc.c\<close> with the ELF structures of \<open>libs/elf.h\<close>. The loader reads the
  program through \<open>sysfile_seek\<close> and \<open>sysfile_read\<close>, so it runs on the files of the process, on the page tables and on the contents of
  page frames at once; \<open>kmem\<close> is the kernel's view of the frames as bytes. The laws of this view and of one such read stand here, the loading of
  segments in \<open>Exec_Load\<close> and the arguments in \<open>Exec_Args\<close>.
\<close>

section \<open>Memory at kernel addresses\<close>

text \<open>The kernel maps all physical memory at a fixed offset: frame \<open>p\<close> is at address \<open>kva p\<close>. Below is the user's part of the
  address space, \<open>um\<close>.\<close>

definition va_pa_offset :: nat where "va_pa_offset = 0xFFFFFFFF40000000"

definition kva :: "nat \<Rightarrow> nat" where
  "kva p = page2pa p + va_pa_offset"

definition kmem :: "memory \<Rightarrow> vm \<Rightarrow> memory" where
  "kmem um s a =
     (if a < kva 0 then um a
      else let x = a - kva 0 in le_bytes 8 (unat (frames s (x div PGSIZE) (x mod PGSIZE div 8))) ! (x mod 8))"

definition kmem_put :: "memory \<Rightarrow> vm \<Rightarrow> vm" where
  "kmem_put m s = s\<lparr>frames := (\<lambda>p i. if i < 512 then word_of_nat (le_val (mem_bytes m (kva p + 8 * i) 8)) else frames s p i)\<rparr>"

section \<open>ELF files\<close>

definition ELF_MAGIC :: nat where "ELF_MAGIC = 0x464C457F"
definition ELF_PT_LOAD :: nat where "ELF_PT_LOAD = 1"
definition ELF_PF_X :: "32 word" where "ELF_PF_X = 1"
definition ELF_PF_W :: "32 word" where "ELF_PF_W = 2"
definition ELF_PF_R :: "32 word" where "ELF_PF_R = 4"
definition EXEC_MAX_ARG_NUM :: nat where "EXEC_MAX_ARG_NUM = 32"
definition EXEC_MAX_ARG_LEN :: nat where "EXEC_MAX_ARG_LEN = 4095"
definition USTACKTOP :: nat where "USTACKTOP = USERTOP"
definition USTACKSIZE :: nat where "USTACKSIZE = 256 * PGSIZE"
definition PROC_NAME_LEN :: nat where "PROC_NAME_LEN = 15"

text \<open>The fields of the two headers that the loader uses, at their places in the 64 and 56 bytes of the structures.\<close>

record elfhdr =
  e_magic :: nat
  e_entry :: nat
  e_phoff :: nat
  e_phnum :: nat

record proghdr =
  p_type :: nat
  ph_flags :: "32 word"
  p_offset :: nat
  p_va :: nat
  p_filesz :: nat
  p_memsz :: nat

definition bytes_elf :: "bytes \<Rightarrow> elfhdr" where
  "bytes_elf bs = \<lparr>e_magic = le_val (seg 0 4 bs), e_entry = le_val (seg 24 8 bs), e_phoff = le_val (seg 32 8 bs), e_phnum = le_val (seg 56 2 bs)\<rparr>"

definition bytes_ph :: "bytes \<Rightarrow> proghdr" where
  "bytes_ph bs = \<lparr>p_type = le_val (seg 0 4 bs), ph_flags = word_of_nat (le_val (seg 4 4 bs)), p_offset = le_val (seg 8 8 bs), p_va = le_val (seg 16 8 bs),
     p_filesz = le_val (seg 32 8 bs), p_memsz = le_val (seg 40 8 bs)\<rparr>"

section \<open>The loader\<close>

text \<open>What the loader takes from its surroundings: the user's part of memory, the buffer that \<open>kmalloc\<close> returns to a read at a file
  offset, the devices, the allocations of the address space and of its areas (of segment \<open>i\<close>, and of the stack), the addresses of the local
  variables \<open>__elf\<close> and \<open>__ph\<close> on the kernel stack, and the register \<open>sstatus\<close>.\<close>

record exec_env =
  x_um :: memory
  x_buf :: "int \<Rightarrow> nat option"
  x_io :: device_io
  x_mm :: "nat option"
  x_vma :: "nat \<Rightarrow> bool"
  x_stack :: bool
  x_elf :: nat
  x_ph :: nat
  x_sstatus :: "64 word"

text \<open>The current process as the system calls on files see it, and its state after such a call.\<close>

definition call_of :: "memory \<Rightarrow> kernel \<Rightarrow> ucall option" where
  "call_of um k = do {
     fa \<leftarrow> filesp (proc k (cur k));
     fs \<leftarrow> ftabs k fa;
     mm \<leftarrow> (case p_mm (proc k (cur k)) of None \<Rightarrow> Some None | Some a \<Rightarrow> map_option Some (mms k a));
     Some \<lparr>u_mm = mm, u_mem = kmem um (mem k), u_files = fs\<rparr> }"

definition put_call :: "ucall \<Rightarrow> vfs \<Rightarrow> kernel \<Rightarrow> kernel" where
  "put_call u v k =
     k\<lparr>mem := kmem_put (u_mem u) (mem k), kvfs := v,
       ftabs := (case filesp (proc k (cur k)) of None \<Rightarrow> ftabs k | Some fa \<Rightarrow> (ftabs k)(fa \<mapsto> u_files u)),
       mms := (case p_mm (proc k (cur k)) of None \<Rightarrow> mms k | Some a \<Rightarrow> (case u_mm u of None \<Rightarrow> mms k | Some mm \<Rightarrow> (mms k)(a \<mapsto> mm)))\<rparr>"

definition load_icode_read :: "exec_env \<Rightarrow> int \<Rightarrow> nat \<Rightarrow> nat \<Rightarrow> int \<Rightarrow> kernel \<Rightarrow> (int \<times> kernel) option" where
  "load_icode_read env fdn buf len off k = do {
     u \<leftarrow> call_of (x_um env) k;
     (ret, u, v) \<leftarrow> sysfile_seek fdn off LSEEK_SET u (kvfs k);
     if ret \<noteq> 0 then Some (ret, put_call u v k)
     else do {
       (ret, u, v) \<leftarrow> sysfile_read (x_buf env off) (x_io env) fdn buf len u v;
       if ret \<noteq> int len then Some (if ret < 0 then ret else - 1, put_call u v k)
       else Some (0, put_call u v k) } }"

definition kmemset :: "memory \<Rightarrow> nat \<Rightarrow> nat \<Rightarrow> kernel \<Rightarrow> kernel" where
  "kmemset um a n k = k\<lparr>mem := kmem_put (mem_store a (replicate n 0) (kmem um (mem k))) (mem k)\<rparr>"

text \<open>The contents of the page at user address \<open>la\<close>, whose kernel address is \<open>pg\<close>, of a segment of \<open>filesz\<close> bytes at \<open>va\<close> that are
  at \<open>offset\<close> of the file.\<close>

definition fill_page :: "exec_env \<Rightarrow> int \<Rightarrow> nat \<Rightarrow> nat \<Rightarrow> nat \<Rightarrow> nat \<Rightarrow> int \<Rightarrow> kernel \<Rightarrow> (int \<times> kernel) option" where
  "fill_page env fdn pg la va filesz offset k =
     (let end_va = u64 (va + filesz); page_end = la + PGSIZE;
          valid_start = (if la > va then la else va);
          valid_end = (if page_end < end_va then page_end else end_va)
      in if valid_start < valid_end
         then do {
           (ret, k) \<leftarrow> load_icode_read env fdn (pg + (valid_start - la)) (valid_end - valid_start) (s64 (offset + int (valid_start - va))) k;
           if ret \<noteq> 0 then Some (ret, k)
           else do {
             let k = (if valid_start > la then kmemset (x_um env) pg (valid_start - la) k else k);
             let k = (if valid_end < page_end then kmemset (x_um env) (pg + (valid_end - la)) (page_end - valid_end) k else k);
             Some (0, k) } }
         else Some (0, kmemset (x_um env) pg PGSIZE k))"

definition load_page :: "exec_env \<Rightarrow> int \<Rightarrow> nat \<Rightarrow> 64 word \<Rightarrow> nat \<Rightarrow> nat \<Rightarrow> nat \<Rightarrow> int \<Rightarrow> kernel \<Rightarrow> (int \<times> kernel) option" where
  "load_page env fdn dir perm la va filesz offset k = do {
     (page, s) \<leftarrow> pgdir_alloc_page dir la perm (mem k);
     let k = k\<lparr>mem := s\<rparr>;
     case page of
       None \<Rightarrow> Some (- E_NO_MEM, k)
     | Some p \<Rightarrow> do { p \<leftarrow> page2kva (mem k) p; fill_page env fdn (kva p) la va filesz offset k } }"

function load_pages :: "exec_env \<Rightarrow> int \<Rightarrow> nat \<Rightarrow> 64 word \<Rightarrow> nat \<Rightarrow> nat \<Rightarrow> nat \<Rightarrow> nat \<Rightarrow> int \<Rightarrow> kernel \<Rightarrow> (int \<times> kernel) option" where
  "load_pages env fdn dir perm la en va filesz offset k =
     (if la < en
      then case load_page env fdn dir perm la va filesz offset k of
          None \<Rightarrow> None
        | Some (ret, k) \<Rightarrow>
            if ret \<noteq> 0 then Some (ret, k) else load_pages env fdn dir perm (la + PGSIZE) en va filesz offset k
      else Some (0, k))"
  by pat_completeness auto
termination load_pages
  by (relation "measure (\<lambda>(env, fdn, dir, perm, la, en, va, filesz, offset, k). en - la)") (auto simp: PGSIZE_def)

declare load_pages.simps [simp del]

definition seg_flags :: "32 word \<Rightarrow> 32 word" where
  "seg_flags fl = (if fl AND ELF_PF_X \<noteq> 0 then VM_EXEC else 0) OR (if fl AND ELF_PF_W \<noteq> 0 then VM_WRITE else 0) OR
     (if fl AND ELF_PF_R \<noteq> 0 then VM_READ else 0)"

definition seg_perm :: "32 word \<Rightarrow> 64 word" where
  "seg_perm vmf = PTE_U OR PTE_V OR (if vmf AND VM_READ \<noteq> 0 then PTE_R else 0) OR (if vmf AND VM_WRITE \<noteq> 0 then PTE_W else 0) OR
     (if vmf AND VM_EXEC \<noteq> 0 then PTE_X else 0)"

definition load_segment :: "exec_env \<Rightarrow> int \<Rightarrow> nat \<Rightarrow> nat \<Rightarrow> mm_struct \<Rightarrow> kernel \<Rightarrow> (int \<times> mm_struct \<times> kernel) option" where
  "load_segment env fdn phoff i mm k = do {
     (ret, k) \<leftarrow> load_icode_read env fdn (x_ph env) 56 (s64 (int phoff + 56 * int i)) k;
     if ret \<noteq> 0 then Some (ret, mm, k)
     else do {
       let ph = bytes_ph (mem_bytes (kmem (x_um env) (mem k)) (x_ph env) 56);
       if p_type ph \<noteq> ELF_PT_LOAD then Some (0, mm, k)
       else if p_filesz ph > p_memsz ph then Some (- E_INVAL_ELF, mm, k)
       else do {
         let vmf = seg_flags (ph_flags ph);
         (ret, mm) \<leftarrow> mm_map (x_vma env i) mm (p_va ph) (p_memsz ph) vmf;
         if ret \<noteq> 0 then Some (ret, mm, k)
         else do {
           dir \<leftarrow> pgdir mm;
           (ret, k) \<leftarrow> load_pages env fdn dir (seg_perm vmf) (ROUNDDOWN (p_va ph) PGSIZE) (ROUNDUP (u64 (p_va ph + p_memsz ph)) PGSIZE)
             (p_va ph) (p_filesz ph) (s64 (int (p_offset ph))) k;
           Some (ret, mm, k) } } } }"

fun load_segments :: "exec_env \<Rightarrow> int \<Rightarrow> nat \<Rightarrow> nat \<Rightarrow> nat \<Rightarrow> mm_struct \<Rightarrow> kernel \<Rightarrow> (int \<times> mm_struct \<times> kernel) option" where
  "load_segments env fdn phoff i 0 mm k = Some (0, mm, k)"
| "load_segments env fdn phoff i (Suc n) mm k = do {
     (ret, mm, k) \<leftarrow> load_segment env fdn phoff i mm k;
     if ret \<noteq> 0 then Some (ret, mm, k) else load_segments env fdn phoff (Suc i) n mm k }"

text \<open>The four pages at the top of the user stack; each allocation is asserted.\<close>

fun stack_pages :: "nat \<Rightarrow> nat \<Rightarrow> nat \<Rightarrow> vm \<Rightarrow> vm option" where
  "stack_pages dir i 0 s = Some s"
| "stack_pages dir i (Suc n) s = do {
     (page, s) \<leftarrow> pgdir_alloc_page dir (USTACKTOP - i * PGSIZE) PTE_USER s;
     kassert (page \<noteq> None);
     stack_pages dir (Suc i) n s }"

text \<open>The arguments on the stack, below \<open>kstacktop\<close>: the strings, then their addresses in user space, the terminating null pointer, and \<open>argc\<close>.\<close>

fun push_args :: "nat \<Rightarrow> nat list \<Rightarrow> nat \<Rightarrow> memory \<Rightarrow> nat \<times> nat list \<times> memory" where
  "push_args ktop [] head m = (head, [], m)"
| "push_args ktop (a # as) head m =
     (let len = strnlen_mem m a (EXEC_MAX_ARG_LEN + 1) + 1;
          head = head - len;
          m = memcpy_mem head a len m
      in case push_args ktop as head m of (h, ps, m) \<Rightarrow> (h, (USTACKTOP - (ktop - head)) # ps, m))"

definition put_args :: "nat list \<Rightarrow> nat \<Rightarrow> memory \<Rightarrow> nat \<times> memory" where
  "put_args kargv ktop m =
     (case push_args ktop kargv ktop m of (head, ps, m) \<Rightarrow>
        let argc = length kargv;
            arr = ROUNDDOWN head 8 - (argc + 1) * 8;
            m = mem_store arr (concat (map (le_bytes 8) ps)) m;
            m = mem_store (arr + 8 * argc) (le_bytes 8 0) m;
            head = arr - 4;
            m = mem_store head (le_bytes 4 argc) m
        in (USTACKTOP - (ktop - head), m))"

text \<open>The failure paths.\<close>

definition bad_pgdir :: "mm_struct \<Rightarrow> kernel \<Rightarrow> kernel option" where
  "bad_pgdir mm k = do { s \<leftarrow> put_pgdir mm (mem k); mm_destroy mm; Some (k\<lparr>mem := s\<rparr>) }"

definition bad_mmap :: "mm_struct \<Rightarrow> kernel \<Rightarrow> kernel option" where
  "bad_mmap mm k = do { s \<leftarrow> exit_mmap mm (mem k); bad_pgdir mm (k\<lparr>mem := s\<rparr>) }"

definition load_icode :: "exec_env \<Rightarrow> int \<Rightarrow> nat list \<Rightarrow> kernel \<Rightarrow> (int \<times> trapframe option \<times> kernel) option" where
  "load_icode env fdn kargv k = do {
     kassert (length kargv \<le> EXEC_MAX_ARG_NUM);
     kassert (p_mm (proc k (cur k)) = None);
     case x_mm env of
       None \<Rightarrow> Some (- E_NO_MEM, None, k)
     | Some a \<Rightarrow> do {
         mm \<leftarrow> mm_create True;
         (ret, mm, s) \<leftarrow> setup_pgdir (boot_pgdir_va k) mm (mem k);
         let k = k\<lparr>mem := s\<rparr>;
         if ret \<noteq> 0 then do { mm_destroy mm; Some (- E_NO_MEM, None, k) }
         else do {
           (ret, k) \<leftarrow> load_icode_read env fdn (x_elf env) 64 0 k;
           let elf = bytes_elf (mem_bytes (kmem (x_um env) (mem k)) (x_elf env) 64);
           if ret \<noteq> 0 then do { k \<leftarrow> bad_pgdir mm k; Some (ret, None, k) }
           else if e_magic elf \<noteq> ELF_MAGIC then do { k \<leftarrow> bad_pgdir mm k; Some (- E_INVAL_ELF, None, k) }
           else do {
             (ret, mm, k) \<leftarrow> load_segments env fdn (e_phoff elf) 0 (e_phnum elf) mm k;
             (ret, mm) \<leftarrow> (if ret \<noteq> 0 then Some (ret, mm)
                else mm_map (x_stack env) mm (USTACKTOP - USTACKSIZE) USTACKSIZE (VM_READ OR VM_WRITE OR VM_STACK));
             if ret \<noteq> 0 then do { k \<leftarrow> bad_mmap mm k; Some (ret, None, k) }
             else do {
               dir \<leftarrow> pgdir mm;
               s \<leftarrow> stack_pages dir 1 4 (mem k);
               (page, s) \<leftarrow> get_page dir (USTACKTOP - PGSIZE) s;
               page \<leftarrow> page;
               p \<leftarrow> page2kva s page;
               let (sp, m) = put_args kargv (kva p + PGSIZE) (kmem (x_um env) s);
               let mm = mm\<lparr>mm_count := mm_count mm + 1\<rparr>;
               let k = set_proc (cur k) (\<lambda>x. x\<lparr>p_mm := Some a, p_pgdir := page2pa dir\<rparr>)
                 (k\<lparr>mem := kmem_put m s, mms := (mms k)(a \<mapsto> mm)\<rparr>);
               let k = k\<lparr>sched := (sched k)\<lparr>satp := p_pgdir (proc k (cur k))\<rparr>\<rparr>;
               let tf = zero_frame\<lparr>gpr := (gpr zero_frame)\<lparr>r_sp := word_of_nat sp\<rparr>, tf_epc := word_of_nat (e_entry elf),
                   tf_status := (x_sstatus env OR SSTATUS_SPIE) AND NOT SSTATUS_SPP\<rparr>;
               Some (0, Some tf, k) } } } } }"

section \<open>execve\<close>

text \<open>\<open>bufs i\<close> is what \<open>kmalloc\<close> returns for argument \<open>i\<close>; the copies made before a failure are freed.\<close>

fun copy_kargv_loop ::
    "(nat \<Rightarrow> nat option) \<Rightarrow> nat \<Rightarrow> nat \<Rightarrow> nat \<Rightarrow> mm_struct option \<Rightarrow> memory \<Rightarrow> int \<times> nat list \<times> mm_struct option \<times> memory" where
  "copy_kargv_loop bufs argv i 0 mm m = (0, [], mm, m)"
| "copy_kargv_loop bufs argv i (Suc n) mm m =
     (case bufs i of
        None \<Rightarrow> (- E_NO_MEM, [], mm, m)
      | Some b \<Rightarrow>
          (case copy_string mm b (le_val (mem_bytes m (argv + 8 * i) 8)) (EXEC_MAX_ARG_LEN + 1) m of
             (False, mm, m) \<Rightarrow> (- E_INVAL, [], mm, m)
           | (True, mm, m) \<Rightarrow>
               (case copy_kargv_loop bufs argv (Suc i) n mm m of (ret, ks, mm, m) \<Rightarrow> (ret, b # ks, mm, m))))"

definition copy_kargv ::
    "(nat \<Rightarrow> nat option) \<Rightarrow> mm_struct option \<Rightarrow> nat \<Rightarrow> nat \<Rightarrow> memory \<Rightarrow> int \<times> nat list \<times> mm_struct option \<times> memory" where
  "copy_kargv bufs mm argc argv m =
     (case user_mem_check mm argv (8 * argc) False of
        (False, mm) \<Rightarrow> (- E_INVAL, [], mm, m)
      | (True, mm) \<Rightarrow> copy_kargv_loop bufs argv 0 argc mm m)"

text \<open>\<open>do_execve\<close> returns a code, or it does not return: then another process runs.\<close>

datatype exec_result = Returned int | Started trapframe | Exited

text \<open>The memory of the old program goes when this was its last user.\<close>

definition exec_drop_mm :: "kernel \<Rightarrow> kernel option" where
  "exec_drop_mm k =
     (case p_mm (proc k (cur k)) of
        None \<Rightarrow> Some k
      | Some a \<Rightarrow> do {
          mm \<leftarrow> mms k a;
          let mm = mm\<lparr>mm_count := mm_count mm - 1\<rparr>;
          let k = k\<lparr>sched := (sched k)\<lparr>satp := boot_pgdir_pa (sched k)\<rparr>\<rparr>;
          k \<leftarrow> (if mm_count mm = 0
               then do {
                 s \<leftarrow> exit_mmap mm (mem k);
                 s \<leftarrow> put_pgdir mm s;
                 mm_destroy mm;
                 Some (k\<lparr>mem := s, mms := (mms k)(a := None)\<rparr>) }
               else Some (k\<lparr>mms := (mms k)(a \<mapsto> mm)\<rparr>));
          Some (set_proc (cur k) (\<lambda>x. x\<lparr>p_mm := None\<rparr>) k) })"

definition bytes_string :: "bytes \<Rightarrow> string" where
  "bytes_string bs = map (\<lambda>b. char_of (unat b)) bs"

text \<open>\<open>na\<close> is the address of \<open>local_name\<close>, \<open>f\<close> the device table and the boot file system, and \<open>kb\<close>, \<open>al1\<close>, \<open>ok\<close>, \<open>al2\<close>, \<open>al3\<close> the allocations of
  \<open>sysfile_open\<close>. \<open>name\<close> is 0 for the null pointer.\<close>

definition do_execve ::
    "sched_class \<Rightarrow> exec_env \<Rightarrow> nat \<Rightarrow> (nat \<Rightarrow> nat option) \<Rightarrow> nat option \<Rightarrow> inode_alloc \<Rightarrow> bool \<Rightarrow> inode_alloc \<Rightarrow> inode_alloc \<Rightarrow> fsys \<Rightarrow>
     nat \<Rightarrow> int \<Rightarrow> nat \<Rightarrow> kernel \<Rightarrow> (exec_result \<times> kernel) option" where
  "do_execve cls env na bufs kb al1 ok al2 al3 f name argc argv k =
     (if \<not> (argc \<ge> 1 \<and> argc \<le> int EXEC_MAX_ARG_NUM) then Some (Returned (- E_INVAL), k)
      else do {
        u \<leftarrow> call_of (x_um env) k;
        let m = mem_store na (replicate (PROC_NAME_LEN + 1) 0) (u_mem u);
        (okn, mm, m) \<leftarrow>
          (if name = 0
           then do {
             (_, m) \<leftarrow> snprintf m na (PROC_NAME_LEN + 1) (str_bytes ''<null> %d'') [word_of_int (pid (proc k (cur k)))];
             Some (True, u_mm u, m) }
           else Some (copy_string (u_mm u) na name (PROC_NAME_LEN + 1) m));
        if \<not> okn then Some (Returned (- E_INVAL), put_call (u\<lparr>u_mm := mm, u_mem := m\<rparr>) (kvfs k) k)
        else case copy_kargv bufs mm (nat argc) argv m of (ret, kargv, mm, m) \<Rightarrow>
          if ret \<noteq> 0 then Some (Returned ret, put_call (u\<lparr>u_mm := mm, u_mem := m\<rparr>) (kvfs k) k)
          else do {
            let local_name = mem_bytes m na (PROC_NAME_LEN + 1);
            let path = le_val (mem_bytes m argv 8);
            (fs, v) \<leftarrow> files_closeall (u_files u) (kvfs k);
            (fdn, u, f) \<leftarrow> sysfile_open kb al1 ok al2 al3 path O_RDONLY \<lparr>u_mm = mm, u_mem = m, u_files = fs\<rparr> (f\<lparr>vf := v\<rparr>);
            let k = put_call u (vf f) k;
            (ret, tf, k) \<leftarrow>
              (if fdn < 0 then Some (fdn, None, k)
               else do { k \<leftarrow> exec_drop_mm k; load_icode env fdn kargv k });
            if ret \<noteq> 0 then do { k \<leftarrow> do_exit cls ret k; Some (Exited, k) }
            else do {
              tf \<leftarrow> tf;
              Some (Started tf, set_proc_name (cur k) (bytes_string local_name) k) } } })"

section \<open>Words and bytes\<close>

lemma kva_eq: "kva p = kva 0 + PGSIZE * p"
  by (simp add: kva_def page2pa_def page2ppn_def PGSIZE_def push_bit_eq_mult)

lemma kva_0: "kva 0 = 0xFFFFFFFFC0000000"
  by (simp add: kva_def page2pa_def page2ppn_def nbase_def va_pa_offset_def push_bit_eq_mult)

lemma kmem_kmem_put:
  assumes "\<forall>a < kva 0. m a = um a"
  shows "kmem um (kmem_put m s) = m"
proof
  fix a
  show "kmem um (kmem_put m s) a = m a"
  proof (cases "a < kva 0")
    case False
    define x where "x = a - kva 0"
    define p where "p = x div 4096"
    define i where "i = x mod 4096 div 8"
    let ?bs = "mem_bytes m (kva p + 8 * i) 8"
    have i: "i < 512" by (simp add: i_def)
    have x: "x = 4096 * p + (8 * i + x mod 8)"
    proof -
      have "x mod 4096 mod 8 = x mod 8" by (rule mod_mod_cancel) simp
      then show ?thesis using mult_div_mod_eq [of 4096 x] mult_div_mod_eq [of 8 "x mod 4096"] by (simp add: p_def i_def)
    qed
    have "kva p + 8 * i + x mod 8 = a" using False x kva_eq [of p] by (simp add: x_def PGSIZE_def)
    moreover have "unat (word_of_nat (le_val ?bs) :: 64 word) = le_val ?bs"
      using le_val_bound [of ?bs] by (simp add: unat_of_nat)
    moreover have "le_bytes 8 (le_val ?bs) = ?bs" using le_bytes_le_val [of ?bs] by simp
    ultimately show ?thesis using False i
      by (simp add: kmem_def kmem_put_def Let_def PGSIZE_def x_def [symmetric] p_def [symmetric] i_def [symmetric])
  qed (use assms in \<open>simp add: kmem_def\<close>)
qed

lemma kmem_put_simps [simp]: "pmm (kmem_put m s) = pmm s" "npage (kmem_put m s) = npage s"
  by (simp_all add: kmem_put_def)

lemma kmem_user: "a < kva 0 \<Longrightarrow> kmem um s a = um a"
  by (simp add: kmem_def)

section \<open>Reading a piece of the program\<close>

text \<open>The current process has no address space and the program file open, at position \<open>p\<close>.\<close>

definition exec_open :: "kernel \<Rightarrow> int \<Rightarrow> bool \<Rightarrow> nat \<Rightarrow> bytes \<Rightarrow> bool" where
  "exec_open k fdn wr p data \<longleftrightarrow> p_mm (proc k (cur k)) = None \<and>
     (\<exists>fa fs. filesp (proc k (cur k)) = Some fa \<and> ftabs k fa = Some fs \<and> opened fdn fs (kvfs k) True wr p data)"

text \<open>Nothing of the kernel changes but files and the contents of memory.\<close>

definition same_kernel :: "kernel \<Rightarrow> kernel \<Rightarrow> bool" where
  "same_kernel k k' \<longleftrightarrow> sched k' = sched k \<and> mms k' = mms k \<and> pmm (mem k') = pmm (mem k) \<and> npage (mem k') = npage (mem k) \<and>
     (\<forall>p i. i \<ge> 512 \<longrightarrow> frames (mem k') p i = frames (mem k) p i)"

lemma file_seek_open:
  assumes op: "opened k fs v rd wr p data" and q: "q \<le> length data"
  shows "\<exists>fs' v'. file_seek k (int q) LSEEK_SET fs v = Some (0, fs', v') \<and> opened k fs' v' rd wr q data"
proof -
  obtain fl n where fl: "fd_open k fs fl n" "readable fl = rd" "writable fl = wr" "node_file n v data"
    using op by (auto simp: opened_def)
  obtain i sin where i: "nodes v n = Some i" "inode_check i = Some ()" "in_info i = Sfs sin" "di_type (din sin) \<noteq> SFS_TYPE_DIR"
      "fs_ok (sfs v)" "file_ok (sfs v) (din sin)" "contents (sfs v) (din sin) = data"
    using fl(4) by (auto simp: node_file_def)
  have dl: "length data \<le> 4096 * 1036" using file_size_limit [OF i(6)] i(7) by simp
  have sz: "di_size (din sin) = length data" using i(7) by auto
  let ?v = "set_node n (i\<lparr>in_info := Sfs sin\<rparr>) (v\<lparr>sfs := sfs v\<rparr>)"
  have t: "vop_tryseek n (int q) v = Some (0, ?v)"
    using i q dl sz by (simp add: vop_tryseek_def vop_op_def sfs_tryseek_def kassert_def put_sin_def SFS_MAX_FILE_SIZE_def set_node_def)
  have l: "nat k < length (fd_array fs)" "f_open_count fl > 0" "status fl = FD_OPENED" "f_node fl = Some n"
    using fl(1) by (auto simp: fd_open_def)
  have "file_seek k (int q) LSEEK_SET fs v = Some (0, put_file (nat k) (fl\<lparr>pos := int q\<rparr>) fs, ?v)"
    using l t fd_open_lookup [OF fl(1)]
    by (simp add: file_seek_def seek_target_def LSEEK_SET_def fd_array_acquire_def fd_array_release_def kassert_def Let_def)
  moreover have "opened k (put_file (nat k) (fl\<lparr>pos := int q\<rparr>) fs) ?v rd wr q data"
    by (rule opened_advance [OF fl(1)]) (use node_file_set [OF i(1,2,4,5,6)] i(7) fl(2,3) in simp_all)
  ultimately show ?thesis by blast
qed

lemma load_icode_read_open:
  assumes k: "exec_open k fdn wr p data" and off: "q + len \<le> length data" "len \<le> 4096"
    and buf: "KERNBASE \<le> buf" "buf + len \<le> KERNTOP" and kb: "x_buf env (int q) = Some kb" "KERNBASE \<le> kb" "clear_of kb buf len"
  shows "\<exists>k'. load_icode_read env fdn buf len (int q) k = Some (0, k') \<and> exec_open k' fdn wr (q + len) data \<and> same_kernel k k' \<and>
    read_into kb buf (seg q len data) (kmem (x_um env) (mem k)) (kmem (x_um env) (mem k'))"
proof -
  obtain fa fs where f: "p_mm (proc k (cur k)) = None" "filesp (proc k (cur k)) = Some fa" "ftabs k fa = Some fs" "opened fdn fs (kvfs k) True wr p data"
    using k by (auto simp: exec_open_def)
  let ?u = "\<lparr>u_mm = None, u_mem = kmem (x_um env) (mem k), u_files = fs\<rparr>"
  have c: "call_of (x_um env) k = Some ?u" using f by (simp add: call_of_def)
  obtain fs1 v1 where s: "file_seek fdn (int q) LSEEK_SET fs (kvfs k) = Some (0, fs1, v1)" "opened fdn fs1 v1 True wr q data"
    using file_seek_open [OF f(4), of q] off by auto
  have ur: "user_range (u_mm (?u\<lparr>u_files := fs1\<rparr>)) True buf len" using buf by (simp add: user_range_def)
  have m: "min len (length data - q) = len" using off by simp
  obtain u' v' where r: "sysread_loop (x_io env) kb fdn buf len 0 (?u\<lparr>u_files := fs1\<rparr>) v1 = Some (0, 0 + len, u', v')"
      "opened fdn (u_files u') v' True wr (q + len) data" "user_range (u_mm u') True (buf + len) (len - len)"
      "read_into kb buf (seg q len data) (u_mem (?u\<lparr>u_files := fs1\<rparr>)) (u_mem u')"
    using sysread_loop_open [of fdn "?u\<lparr>u_files := fs1\<rparr>" v1 wr q data buf len kb "x_io env" 0] s(2) off ur kb(3) unfolding m by auto
  have rd: "sysfile_read (Some kb) (x_io env) fdn buf len (?u\<lparr>u_files := fs1\<rparr>) v1 = Some (int len, u', v')"
    using r(1) testfd_open [OF s(2)] unfolding sysfile_read_def by (cases "len = 0") (auto simp: sysread_loop.simps)
  have sk: "sysfile_seek fdn (int q) LSEEK_SET ?u (kvfs k) = Some (0, ?u\<lparr>u_files := fs1\<rparr>, v1)" using s(1) by (simp add: sysfile_seek_def)
  let ?k = "put_call u' v' k"
  have "load_icode_read env fdn buf len (int q) k = Some (0, ?k)"
    using c sk rd kb(1) by (simp add: load_icode_read_def)
  moreover have "exec_open ?k fdn wr (q + len) data" using f r(2) by (simp add: exec_open_def put_call_def)
  moreover have "same_kernel k ?k" using f by (simp add: same_kernel_def put_call_def kmem_put_def)
  moreover have "kmem (x_um env) (mem ?k) = u_mem u'"
  proof -
    have "u_mem u' a = x_um env a" if "a < kva 0" for a
      using r(4) that buf(1) kb(2) kmem_user [OF that] by (auto simp: read_into_def kva_0 KERNBASE_def)
    then show ?thesis by (simp add: put_call_def kmem_kmem_put)
  qed
  ultimately show ?thesis using r(4) by auto
qed

end
