(* ===== verification/Exec_Args.thy ===== *)
theory Exec_Args
  imports Exec
begin

text \<open>
  The arguments of a program on its first stack page: the layout when they fit, and what happens when they do not.
\<close>

section \<open>Arguments on the stack\<close>

text \<open>The bytes of an argument with its terminating zero, and of all arguments.\<close>

definition arg_size :: "memory \<Rightarrow> nat \<Rightarrow> nat" where
  "arg_size m a = strnlen_mem m a (EXEC_MAX_ARG_LEN + 1) + 1"

definition args_size :: "memory \<Rightarrow> nat list \<Rightarrow> nat" where
  "args_size m as = sum_list (map (arg_size m) as)"

lemma strnlen_mem_cong: "(\<And>i. i < n \<Longrightarrow> m' (a + i) = m (a + i)) \<Longrightarrow> strnlen_mem m' a n = strnlen_mem m a n"
proof (induction m a n rule: strnlen_mem.induct)
  case (2 m a n)
  have "m' (Suc a + i) = m (Suc a + i)" if "i < n" for i using "2.prems" [of "Suc i"] that by simp
  then show ?case using 2 "2.prems" [of 0] by simp
qed simp

text \<open>The buffers with the arguments are not in the memory between \<open>lo\<close> and \<open>hi\<close>.\<close>

definition args_clear :: "nat \<Rightarrow> nat \<Rightarrow> nat list \<Rightarrow> bool" where
  "args_clear lo hi as \<longleftrightarrow> (\<forall>a\<in>set as. {a..<a + (EXEC_MAX_ARG_LEN + 1) + 1} \<inter> {lo..<hi} = {})"

lemma arg_size_cong:
  assumes "args_clear lo hi as" "a \<in> set as" "\<forall>x. \<not> (lo \<le> x \<and> x < hi) \<longrightarrow> m' x = m x"
  shows "arg_size m' a = arg_size m a" "mem_bytes m' a (arg_size m a) = mem_bytes m a (arg_size m a)"
proof -
  have e: "m' (a + i) = m (a + i)" if "i < EXEC_MAX_ARG_LEN + 2" for i
  proof -
    have "{a..<a + (EXEC_MAX_ARG_LEN + 1) + 1} \<inter> {lo..<hi} = {}" using assms(1,2) by (simp add: args_clear_def)
    moreover have "a + i \<in> {a..<a + (EXEC_MAX_ARG_LEN + 1) + 1}" using that by simp
    ultimately have "a + i \<notin> {lo..<hi}" by blast
    then show ?thesis using assms(3) by simp
  qed
  then show "arg_size m' a = arg_size m a" unfolding arg_size_def by (intro arg_cong [where f = "\<lambda>n. n + 1"] strnlen_mem_cong) simp
  show "mem_bytes m' a (arg_size m a) = mem_bytes m a (arg_size m a)"
    using e strnlen_mem_le [of m a "EXEC_MAX_ARG_LEN + 1"] by (intro mem_bytes_cong) (simp add: arg_size_def)
qed

lemma push_args_Cons:
  "push_args ktop (a # as) head m =
     (let q = head - arg_size m a in
      case push_args ktop as q (memcpy_mem q a (arg_size m a) m) of (h, ps, m) \<Rightarrow> (h, (USTACKTOP - (ktop - q)) # ps, m))"
  by (simp only: push_args.simps arg_size_def Let_def)

lemma push_args_spec:
  assumes "args_clear lo hi as" "args_size m as \<le> head - lo" "lo \<le> head" "head \<le> hi" "hi \<le> ktop"
  shows "\<exists>ps m'. push_args ktop as head m = (head - args_size m as, ps, m') \<and> length ps = length as \<and>
    (\<forall>x. \<not> (head - args_size m as \<le> x \<and> x < head) \<longrightarrow> m' x = m x) \<and>
    (\<forall>i < length as. \<exists>q. ps ! i = USTACKTOP - (ktop - q) \<and> head - args_size m as \<le> q \<and> q + arg_size m (as ! i) \<le> head \<and>
       (i + 1 = length as \<longrightarrow> q = head - args_size m as) \<and>
       mem_bytes m' q (arg_size m (as ! i)) = mem_bytes m (as ! i) (arg_size m (as ! i)))"
  using assms(1-4)
proof (induction as arbitrary: head m)
  case Nil
  then show ?case by (simp add: args_size_def)
next
  case (Cons a as)
  define n where "n = arg_size m a"
  define q where "q = head - n"
  define m1 where "m1 = memcpy_mem q a n m"
  have tot: "args_size m (a # as) = n + args_size m as" by (simp add: args_size_def n_def)
  have q: "lo \<le> q" "q + n = head" "q \<le> hi" using Cons.prems(2-4) unfolding tot by (auto simp: q_def)
  have out: "\<forall>x. \<not> (lo \<le> x \<and> x < hi) \<longrightarrow> m1 x = m x" using q Cons.prems(4) by (auto simp: m1_def memcpy_mem_def)
  have cl: "args_clear lo hi as" using Cons.prems(1) by (simp add: args_clear_def)
  have as1: "arg_size m1 b = arg_size m b" "mem_bytes m1 b (arg_size m b) = mem_bytes m b (arg_size m b)" if "b \<in> set as" for b
    using arg_size_cong [OF cl that out] by auto
  have s1: "args_size m1 as = args_size m as" unfolding args_size_def using as1(1) by (intro arg_cong [where f = sum_list] map_cong) auto
  have "args_size m1 as \<le> q - lo" using Cons.prems(2) unfolding s1 tot q_def by simp
  from Cons.IH [OF cl this q(1,3)]
  obtain ps m' where ih: "push_args ktop as q m1 = (q - args_size m as, ps, m')" "length ps = length as"
      "\<forall>x. \<not> (q - args_size m as \<le> x \<and> x < q) \<longrightarrow> m' x = m1 x"
      "\<forall>i < length as. \<exists>q'. ps ! i = USTACKTOP - (ktop - q') \<and> q - args_size m as \<le> q' \<and> q' + arg_size m1 (as ! i) \<le> q \<and>
         (i + 1 = length as \<longrightarrow> q' = q - args_size m as) \<and> mem_bytes m' q' (arg_size m1 (as ! i)) = mem_bytes m1 (as ! i) (arg_size m1 (as ! i))"
    unfolding s1 by auto
  have h: "head - args_size m (a # as) = q - args_size m as" unfolding tot q_def by simp
  have p: "push_args ktop (a # as) head m = (q - args_size m as, (USTACKTOP - (ktop - q)) # ps, m')"
    unfolding push_args_Cons Let_def n_def [symmetric] q_def [symmetric] m1_def [symmetric] using ih(1) by simp
  have first: "mem_bytes m' q n = mem_bytes m a n"
  proof -
    have "mem_bytes m' q n = mem_bytes m1 q n" by (rule mem_bytes_cong) (use ih(3) in simp)
    also have "\<dots> = mem_bytes m a n" by (rule mem_bytes_cong) (simp add: m1_def memcpy_mem_def)
    finally show ?thesis .
  qed
  have e: "\<exists>q'. ((USTACKTOP - (ktop - q)) # ps) ! i = USTACKTOP - (ktop - q') \<and> q - args_size m as \<le> q' \<and> q' + arg_size m ((a # as) ! i) \<le> head \<and>
      (i + 1 = length (a # as) \<longrightarrow> q' = q - args_size m as) \<and>
      mem_bytes m' q' (arg_size m ((a # as) ! i)) = mem_bytes m ((a # as) ! i) (arg_size m ((a # as) ! i))" if "i < length (a # as)" for i
  proof (cases i)
    case 0
    then show ?thesis using first q(2) by (intro exI [of _ q]) (auto simp: n_def [symmetric] args_size_def)
  next
    case (Suc j)
    then have j: "j < length as" "as ! j \<in> set as" using that by auto
    obtain q' where "ps ! j = USTACKTOP - (ktop - q')" "q - args_size m as \<le> q'" "q' + arg_size m1 (as ! j) \<le> q"
        "j + 1 = length as \<longrightarrow> q' = q - args_size m as" "mem_bytes m' q' (arg_size m1 (as ! j)) = mem_bytes m1 (as ! j) (arg_size m1 (as ! j))"
      using ih(4) j(1) by blast
    then show ?thesis using Suc as1 [OF j(2)] q(2) by (intro exI [of _ q']) auto
  qed
  have "m' x = m x" if "\<not> (q - args_size m as \<le> x \<and> x < head)" for x
  proof -
    have "m' x = m1 x" using ih(3) that q(2) by auto
    then show ?thesis using that q(2) by (auto simp: m1_def memcpy_mem_def)
  qed
  then have rest: "\<forall>x. \<not> (q - args_size m as \<le> x \<and> x < head) \<longrightarrow> m' x = m x" by blast
  have "length ((USTACKTOP - (ktop - q)) # ps) = length (a # as)" using ih(2) by simp
  then show ?case unfolding h using p rest e by blast
qed

lemma mem_bytes_store_eq: "mem_bytes (mem_store a bs m) a (length bs) = bs"
  using mem_bytes_store [of "length bs" bs a m] by simp

lemma mem_bytes_store_off:
  assumes "b + n \<le> a \<or> a + length bs \<le> b"
  shows "mem_bytes (mem_store a bs m) b n = mem_bytes m b n"
  by (rule mem_bytes_cong) (use assms in \<open>auto simp: mem_store_def\<close>)

lemma mem_bytes_store_mid:
  assumes "i + n \<le> length bs"
  shows "mem_bytes (mem_store a bs m) (a + i) n = take n (drop i bs)"
  by (rule nth_equalityI) (use assms in \<open>auto simp: mem_store_def\<close>)

lemma concat_words: "i < length ps \<Longrightarrow> take 8 (drop (8 * i) (concat (map (le_bytes 8) ps))) = le_bytes 8 (ps ! i)"
proof (induction ps arbitrary: i)
  case (Cons p ps)
  then show ?case by (cases i) simp_all
qed simp

lemma length_concat_words [simp]: "length (concat (map (le_bytes 8) ps)) = 8 * length ps"
  by (induction ps) auto

text \<open>C16. The arguments of a program, for strings that fit into a page together with their addresses: at the stack pointer stands \<open>argc\<close>, above it the
  null-terminated array of the addresses, in user space, of the strings, and at each of these addresses, inside the top page of the stack, the
  string with its terminating zero. No memory but this page changes.\<close>

theorem put_args_correct:
  assumes fit: "args_size m kargv + 8 * length kargv + 19 \<le> PGSIZE" and cl: "args_clear (ktop - PGSIZE) ktop kargv"
    and top: "PGSIZE \<le> ktop" "length kargv \<le> EXEC_MAX_ARG_NUM"
  shows "\<exists>sp m'. put_args kargv ktop m = (sp, m') \<and> USTACKTOP - PGSIZE \<le> sp \<and> sp < USTACKTOP \<and>
    (let at = (\<lambda>u. ktop - (USTACKTOP - u)); arr = at (sp + 4) in
      le_val (mem_bytes m' (at sp) 4) = length kargv \<and>
      le_val (mem_bytes m' (arr + 8 * length kargv) 8) = 0 \<and>
      (\<forall>i < length kargv. let u = le_val (mem_bytes m' (arr + 8 * i) 8) in
         USTACKTOP - PGSIZE \<le> u \<and> u + arg_size m (kargv ! i) \<le> USTACKTOP \<and>
         mem_bytes m' (at u) (arg_size m (kargv ! i)) = mem_bytes m (kargv ! i) (arg_size m (kargv ! i)))) \<and>
    (\<forall>x. \<not> (ktop - PGSIZE \<le> x \<and> x < ktop) \<longrightarrow> m' x = m x)"
proof -
  let ?n = "length kargv" and ?S = "args_size m kargv" and ?lo = "ktop - PGSIZE"
  have "?S \<le> ktop - ?lo" "?lo \<le> ktop" using fit top by auto
  from push_args_spec [OF cl this order_refl order_refl]
  obtain ps m1 where p: "push_args ktop kargv ktop m = (ktop - ?S, ps, m1)" "length ps = ?n"
      "\<forall>x. \<not> (ktop - ?S \<le> x \<and> x < ktop) \<longrightarrow> m1 x = m x"
      "\<forall>i < ?n. \<exists>q. ps ! i = USTACKTOP - (ktop - q) \<and> ktop - ?S \<le> q \<and> q + arg_size m (kargv ! i) \<le> ktop \<and>
         (i + 1 = ?n \<longrightarrow> q = ktop - ?S) \<and> mem_bytes m1 q (arg_size m (kargv ! i)) = mem_bytes m (kargv ! i) (arg_size m (kargv ! i))"
    by blast
  define h where "h = ktop - ?S"
  define arr where "arr = ROUNDDOWN h 8 - (?n + 1) * 8"
  define m2 where "m2 = mem_store arr (concat (map (le_bytes 8) ps)) m1"
  define m3 where "m3 = mem_store (arr + 8 * ?n) (le_bytes 8 0) m2"
  define m4 where "m4 = mem_store (arr - 4) (le_bytes 4 ?n) m3"
  have rd: "ROUNDDOWN h 8 \<le> h" "h < ROUNDDOWN h 8 + 8"
    using ROUNDDOWN_le [of h 8] mod_less_divisor [of 8 h] mod_le_divisor [of 8 h] by (auto simp: ROUNDDOWN_def)
  have hb: "ktop = h + ?S" "?lo + 8 * ?n + 19 \<le> h" using fit top by (simp_all add: h_def)
  have ab: "?lo + 4 \<le> arr" "arr + 8 * ?n + 8 \<le> h" "arr + (?n + 1) * 8 = ROUNDDOWN h 8" using rd hb by (simp_all add: arr_def)
  have US: "PGSIZE \<le> USTACKTOP" "USTACKTOP < 2 ^ 64" by (simp_all add: USTACKTOP_def USERTOP_def PGSIZE_def)
  let ?sp = "USTACKTOP - (ktop - (arr - 4))"
  have pa: "put_args kargv ktop m = (?sp, m4)"
    by (simp only: put_args_def p(1) prod.case Let_def h_def arr_def m2_def m3_def m4_def)
  have at: "ktop - (USTACKTOP - (USTACKTOP - (ktop - q))) = q" if "?lo \<le> q" "q \<le> ktop" for q
    using that US top by (simp add: le_diff_conv)
  have m4: "mem_bytes m4 b k = mem_bytes m1 b k" if "h \<le> b" for b k
    unfolding m4_def m3_def m2_def using that ab(1,2) p(2) by (simp add: mem_bytes_store_off)
  have sp: "?lo \<le> arr - 4" "arr - 4 \<le> ktop" "arr \<le> ktop" "?sp + 4 = USTACKTOP - (ktop - arr)" using ab hb US top by auto
  have n32: "?n < 256 ^ 4" using top(2) by (simp add: EXEC_MAX_ARG_NUM_def)
  have "mem_bytes m4 (arr - 4) 4 = le_bytes 4 ?n" unfolding m4_def using mem_bytes_store_eq [of "arr - 4" "le_bytes 4 ?n" m3] by simp
  then have argc: "le_val (mem_bytes m4 (arr - 4) 4) = ?n" using n32 by (simp add: le_val_le_bytes)
  have m43: "mem_bytes m4 b k = mem_bytes m3 b k" if "arr \<le> b" for b k
    unfolding m4_def by (rule mem_bytes_store_off) (use that ab(1) in simp)
  have "mem_bytes m4 (arr + 8 * ?n) 8 = le_bytes 8 0"
    using mem_bytes_store_eq [of "arr + 8 * ?n" "le_bytes 8 0" m2] m43 [of "arr + 8 * ?n" 8] by (simp add: m3_def)
  then have null: "le_val (mem_bytes m4 (arr + 8 * ?n) 8) = 0" by (simp add: le_val_le_bytes)
  have arg: "\<exists>q. le_val (mem_bytes m4 (arr + 8 * i) 8) = USTACKTOP - (ktop - q) \<and> h \<le> q \<and> q + arg_size m (kargv ! i) \<le> ktop \<and>
      mem_bytes m4 q (arg_size m (kargv ! i)) = mem_bytes m (kargv ! i) (arg_size m (kargv ! i))" if i: "i < ?n" for i
  proof -
    obtain q where q: "ps ! i = USTACKTOP - (ktop - q)" "h \<le> q" "q + arg_size m (kargv ! i) \<le> ktop"
        "mem_bytes m1 q (arg_size m (kargv ! i)) = mem_bytes m (kargv ! i) (arg_size m (kargv ! i))"
      using p(4) i unfolding h_def by blast
    have "mem_bytes m3 (arr + 8 * i) 8 = mem_bytes m2 (arr + 8 * i) 8" unfolding m3_def by (rule mem_bytes_store_off) (use i in simp)
    moreover have "mem_bytes m2 (arr + 8 * i) 8 = le_bytes 8 (ps ! i)"
      unfolding m2_def using i p(2) by (simp add: mem_bytes_store_mid concat_words)
    ultimately have "le_val (mem_bytes m4 (arr + 8 * i) 8) = ps ! i mod 256 ^ 8" using m43 [of "arr + 8 * i" 8] by (simp add: le_val_le_bytes)
    moreover have "ps ! i < 256 ^ 8" using q(1) US(2) by simp
    ultimately show ?thesis using q m4 [OF q(2)] by (intro exI [of _ q]) simp
  qed
  have strings: "let u = le_val (mem_bytes m4 (arr + 8 * i) 8) in
         USTACKTOP - PGSIZE \<le> u \<and> u + arg_size m (kargv ! i) \<le> USTACKTOP \<and>
         mem_bytes m4 (ktop - (USTACKTOP - u)) (arg_size m (kargv ! i)) = mem_bytes m (kargv ! i) (arg_size m (kargv ! i))" if i: "i < ?n" for i
  proof -
    obtain q where q: "le_val (mem_bytes m4 (arr + 8 * i) 8) = USTACKTOP - (ktop - q)" "h \<le> q" "q + arg_size m (kargv ! i) \<le> ktop"
        "mem_bytes m4 q (arg_size m (kargv ! i)) = mem_bytes m (kargv ! i) (arg_size m (kargv ! i))"
      using arg [OF i] by blast
    have "?lo \<le> q" "q \<le> ktop" using q(2,3) hb(2) by auto
    then show ?thesis using q at [of q] US(1) top(1) unfolding q(1) Let_def by auto
  qed
  have "m4 x = m x" if "\<not> (?lo \<le> x \<and> x < ktop)" for x
  proof -
    have "m1 x = m x" using p(3) that hb by auto
    then show ?thesis using that ab hb p(2) by (auto simp: m4_def m3_def m2_def mem_store_def)
  qed
  then have frame: "\<forall>x. \<not> (?lo \<le> x \<and> x < ktop) \<longrightarrow> m4 x = m x" by blast
  have at1: "ktop - (USTACKTOP - ?sp) = arr - 4" by (rule at [OF sp(1,2)])
  have at2: "ktop - (USTACKTOP - (?sp + 4)) = arr" unfolding sp(4) by (rule at) (use sp(3) ab(1) in auto)
  have sp1: "USTACKTOP - PGSIZE \<le> ?sp" using sp(1) top(1) by simp
  have sp2: "?sp < USTACKTOP" using ab(2) hb(1) US(1) sp(1) ab(1) by (simp add: PGSIZE_def)
  show ?thesis
    by (intro exI [of _ ?sp] exI [of _ m4] conjI pa sp1 sp2 frame; unfold Let_def at1 at2)
      (use argc null strings in \<open>simp_all add: Let_def\<close>)
qed

text \<open>C40. The loader does not check that the arguments fit: \<open>execve\<close> admits 32 strings of 4095 bytes, and when the strings need more than the one
  page that is looked up, the last of them is written below it, into the frame before it in physical memory.\<close>

theorem put_args_overflow:
  assumes big: "PGSIZE < args_size m kargv" "args_size m kargv + 8 * length kargv + 19 \<le> ktop" and cl: "args_clear 0 ktop kargv"
    and ne: "kargv \<noteq> []" "length kargv \<le> EXEC_MAX_ARG_NUM"
  shows "\<exists>sp m' x. put_args kargv ktop m = (sp, m') \<and> x < ktop - PGSIZE \<and> m' x = m (last kargv)"
proof -
  have S: "args_size m kargv \<le> ktop - 0" using big(2) by simp
  obtain ps m1 where p: "push_args ktop kargv ktop m = (ktop - args_size m kargv, ps, m1)" "length ps = length kargv"
      "\<forall>i < length kargv. \<exists>q. ps ! i = USTACKTOP - (ktop - q) \<and> ktop - args_size m kargv \<le> q \<and> q + arg_size m (kargv ! i) \<le> ktop \<and>
         (i + 1 = length kargv \<longrightarrow> q = ktop - args_size m kargv) \<and>
         mem_bytes m1 q (arg_size m (kargv ! i)) = mem_bytes m (kargv ! i) (arg_size m (kargv ! i))"
    using push_args_spec [OF cl S le0 order_refl order_refl] by blast
  define h where "h = ktop - args_size m kargv"
  let ?l = "length kargv - 1"
  have l: "?l < length kargv" "?l + 1 = length kargv" "kargv ! ?l = last kargv" using ne by (simp_all add: last_conv_nth)
  have b: "mem_bytes m1 h (arg_size m (last kargv)) = mem_bytes m (last kargv) (arg_size m (last kargv))"
    using p(3) [rule_format, OF l(1)] l(2,3) unfolding h_def by metis
  have "0 < arg_size m (last kargv)" by (simp add: arg_size_def)
  then have m1: "m1 h = m (last kargv)" using arg_cong [OF b, of "\<lambda>bs. bs ! 0"] by simp
  obtain sp m' where pa: "put_args kargv ktop m = (sp, m')" by fastforce
  have "ROUNDDOWN h 8 \<le> h" by (rule ROUNDDOWN_le)
  moreover have "8 * length kargv + 12 \<le> ROUNDDOWN h 8"
    using big(2) mod_less_divisor [of 8 h] by (simp add: ROUNDDOWN_def h_def)
  ultimately have "m' h = m1 h" using pa p(1,2) unfolding put_args_def h_def [symmetric] Let_def
    by (auto simp: mem_store_def)
  moreover have "h < ktop - PGSIZE" using big by (simp add: h_def)
  ultimately show ?thesis using pa m1 by (intro exI [of _ sp] exI [of _ m'] exI [of _ h]) simp
qed

text \<open>Two arguments, \<open>sh\<close> and \<open>x\<close>, in buffers at \<open>0x9000\<close> and \<open>0xB000\<close>; and two arguments of 3000 bytes.\<close>

definition args_mem :: memory where
  "args_mem a = (if a = 0x9000 then 115 else if a = 0x9001 then 104 else if a = 0xB000 then 120 else 0)"

definition long_args_mem :: memory where
  "long_args_mem a = (if 0x9000 \<le> a \<and> a < 0x9000 + 3000 \<or> 0xB000 \<le> a \<and> a < 0xB000 + 3000 then 97 else 0)"

lemma strnlen_mem_eqI: "k < n \<Longrightarrow> (\<And>i. i < k \<Longrightarrow> m (a + i) \<noteq> 0) \<Longrightarrow> m (a + k) = 0 \<Longrightarrow> strnlen_mem m a n = k"
proof (induction m a n arbitrary: k rule: strnlen_mem.induct)
  case (2 m a n)
  show ?case
  proof (cases k)
    case (Suc j)
    have nz: "m a \<noteq> 0" using "2.prems"(2) [of 0] Suc by simp
    have "m (Suc a + i) \<noteq> 0" if "i < j" for i using "2.prems"(2) [of "Suc i"] Suc that by simp
    then have "strnlen_mem m (Suc a) n = j" using "2.prems"(1,3) Suc nz by (intro "2.IH") simp_all
    then show ?thesis using nz Suc by simp
  qed (use "2.prems" in simp)
qed simp

lemma args_mem_sizes: "arg_size args_mem 0x9000 = 3" "arg_size args_mem 0xB000 = 2"
proof -
  have "strnlen_mem args_mem 0x9000 4096 = 2"
  proof (rule strnlen_mem_eqI)
    fix i :: nat
    assume "i < 2"
    then consider "i = 0" | "i = 1" by linarith
    then show "args_mem (0x9000 + i) \<noteq> 0" by cases (simp_all add: args_mem_def)
  qed (simp_all add: args_mem_def)
  moreover have "strnlen_mem args_mem 0xB000 4096 = 1" by (rule strnlen_mem_eqI) (simp_all add: args_mem_def)
  ultimately show "arg_size args_mem 0x9000 = 3" "arg_size args_mem 0xB000 = 2" by (simp_all add: arg_size_def EXEC_MAX_ARG_LEN_def)
qed

theorem put_args_correct_witness:
  "\<exists>sp m'. put_args [0x9000, 0xB000] 0x8000 args_mem = (sp, m') \<and> USTACKTOP - PGSIZE \<le> sp \<and>
     le_val (mem_bytes m' (0x8000 - (USTACKTOP - sp)) 4) = 2 \<and> m' 0x6fff = args_mem 0x6fff"
  using put_args_correct [of args_mem "[0x9000, 0xB000]" "0x8000"] args_mem_sizes
  by (auto simp: args_size_def args_clear_def EXEC_MAX_ARG_LEN_def EXEC_MAX_ARG_NUM_def PGSIZE_def Let_def)

lemma long_args_mem_sizes: "arg_size long_args_mem 0x9000 = 3001" "arg_size long_args_mem 0xB000 = 3001"
proof -
  have "strnlen_mem long_args_mem 0x9000 4096 = 3000" "strnlen_mem long_args_mem 0xB000 4096 = 3000"
    by (rule strnlen_mem_eqI; simp add: long_args_mem_def)+
  then show "arg_size long_args_mem 0x9000 = 3001" "arg_size long_args_mem 0xB000 = 3001" by (simp_all add: arg_size_def EXEC_MAX_ARG_LEN_def)
qed

theorem put_args_overflow_witness:
  "\<exists>sp m' x. put_args [0x9000, 0xB000] 0x8000 long_args_mem = (sp, m') \<and> x < 0x7000 \<and> m' x = 97"
  using put_args_overflow [of long_args_mem "[0x9000, 0xB000]" "0x8000"] long_args_mem_sizes
  by (auto simp: args_size_def args_clear_def EXEC_MAX_ARG_LEN_def EXEC_MAX_ARG_NUM_def PGSIZE_def long_args_mem_def)

end
