(* ===== verification/Exec_Load.thy ===== *)
theory Exec_Load
  imports Exec
begin

text \<open>
  Loading a segment: the contents of one page, the pages of a segment, and a whole segment, on the kernel's view of the new frames and the
  page table of the new program.
\<close>

section \<open>One page of a segment\<close>

definition buf_area :: "exec_env \<Rightarrow> nat set" where
  "buf_area env = {a. \<exists>off kb. x_buf env off = Some kb \<and> kb \<le> a \<and> a < kb + IOBUF_SIZE}"

definition bufs_ok :: "exec_env \<Rightarrow> bool" where
  "bufs_ok env \<longleftrightarrow> (\<forall>off. \<exists>kb. x_buf env off = Some kb \<and> KERNBASE \<le> kb)"

lemma mem_store_Nil [simp]: "mem_store a [] m = m"
  by (rule ext) (auto simp: mem_store_def)

lemma kmemset_facts:
  assumes "KERNBASE \<le> a"
  shows "kmem um (mem (kmemset um a n k)) = mem_store a (replicate n 0) (kmem um (mem k))"
    and "same_kernel k (kmemset um a n k)" "exec_open (kmemset um a n k) fdn wr p data = exec_open k fdn wr p data"
proof -
  have "mem_store a (replicate n 0) (kmem um (mem k)) x = um x" if "x < kva 0" for x
    using that assms kmem_user [OF that] by (auto simp: mem_store_def kva_0 KERNBASE_def)
  then show "kmem um (mem (kmemset um a n k)) = mem_store a (replicate n 0) (kmem um (mem k))"
    by (simp add: kmemset_def kmem_kmem_put)
qed (simp_all add: kmemset_def same_kernel_def exec_open_def kmem_put_def)

lemma same_kernel_trans: "same_kernel k k1 \<Longrightarrow> same_kernel k1 k2 \<Longrightarrow> same_kernel k k2"
  by (simp add: same_kernel_def)

lemma same_kernel_refl [simp]: "same_kernel k k"
  by (simp add: same_kernel_def)

lemma exec_open_limit:
  assumes "exec_open k fdn wr p data"
  shows "length data \<le> 4096 * 1036"
  using assms file_size_limit by (fastforce simp: exec_open_def opened_def node_file_def)

text \<open>What the byte at user address \<open>a\<close> of a segment is.\<close>

definition seg_byte :: "bytes \<Rightarrow> nat \<Rightarrow> nat \<Rightarrow> nat \<Rightarrow> nat \<Rightarrow> 8 word" where
  "seg_byte data va filesz offset a = (if va \<le> a \<and> a < va + filesz then data ! (offset + (a - va)) else 0)"

lemma fill_page_spec:
  assumes k: "exec_open k fdn wr p data" and sz: "offset + filesz \<le> length data" "va + filesz < 2 ^ 64"
    and pg: "KERNBASE \<le> pg" "pg + PGSIZE \<le> KERNTOP" and bufs: "bufs_ok env" "buf_area env \<inter> {pg..<pg + PGSIZE} = {}"
  shows "\<exists>k' p'. fill_page env fdn pg la va filesz (int offset) k = Some (0, k') \<and> exec_open k' fdn wr p' data \<and> same_kernel k k' \<and>
    (\<forall>j < PGSIZE. kmem (x_um env) (mem k') (pg + j) = seg_byte data va filesz offset (la + j)) \<and>
    (\<forall>a. a \<notin> buf_area env \<longrightarrow> \<not> (pg \<le> a \<and> a < pg + PGSIZE) \<longrightarrow> kmem (x_um env) (mem k') a = kmem (x_um env) (mem k) a)"
proof -
  let ?um = "x_um env"
  define vs where "vs = (if la > va then la else va)"
  define ve where "ve = (if la + PGSIZE < va + filesz then la + PGSIZE else va + filesz)"
  have u: "u64 (va + filesz) = va + filesz" using sz(2) by simp
  show ?thesis
  proof (cases "vs < ve")
    case False
    have "fill_page env fdn pg la va filesz (int offset) k = Some (0, kmemset ?um pg PGSIZE k)"
      using False unfolding fill_page_def u Let_def vs_def [symmetric] ve_def [symmetric] by simp
    moreover have "seg_byte data va filesz offset (la + j) = 0" if "j < PGSIZE" for j
      using that False by (auto simp: seg_byte_def vs_def ve_def split: if_splits)
    ultimately show ?thesis using kmemset_facts [OF pg(1)] k by (auto simp: mem_store_def)
  next
    case True
    define n where "n = ve - vs"
    define off where "off = offset + (vs - va)"
    define b where "b = pg + (vs - la)"
    have "0 < n" using True by (simp add: n_def)
    have n: "n \<le> 4096" "off + n \<le> length data" "vs - la + n \<le> PGSIZE" "la \<le> vs" "va \<le> vs" "ve = vs + n" "ve - la = vs - la + n"
      using True sz(1) by (auto simp: n_def off_def vs_def ve_def PGSIZE_def split: if_splits)
    have b: "KERNBASE \<le> b" "b + n \<le> KERNTOP" "pg \<le> b" "b + n \<le> pg + PGSIZE" using pg n(3) by (simp_all add: b_def)
    have s: "s64 (int offset + int (vs - va)) = int off"
      using exec_open_limit [OF k] n(2) s64_id [of "int off"] by (simp add: off_def)
    obtain kb where kb: "x_buf env (int off) = Some kb" "KERNBASE \<le> kb" using bufs(1) by (auto simp: bufs_ok_def)
    have area: "{kb..<kb + IOBUF_SIZE} \<subseteq> buf_area env" using kb(1) unfolding buf_area_def by fastforce
    have "clear_of kb b n"
    proof (rule ccontr)
      assume "\<not> clear_of kb b n"
      then have "max kb b \<in> {kb..<kb + IOBUF_SIZE} \<inter> {pg..<pg + PGSIZE}"
        using b(3,4) \<open>0 < n\<close> by (auto simp: clear_of_def IOBUF_SIZE_def)
      then show False using bufs(2) area by blast
    qed
    then obtain k1 where k1: "load_icode_read env fdn b n (int off) k = Some (0, k1)" "exec_open k1 fdn wr (off + n) data" "same_kernel k k1"
        "read_into kb b (seg off n data) (kmem ?um (mem k)) (kmem ?um (mem k1))"
      using load_icode_read_open [OF k n(2,1) b(1,2) kb] by blast
    define k2 where "k2 = (if vs > la then kmemset ?um pg (vs - la) k1 else k1)"
    define k3 where "k3 = (if ve < la + PGSIZE then kmemset ?um (pg + (ve - la)) (la + PGSIZE - ve) k2 else k2)"
    have r: "fill_page env fdn pg la va filesz (int offset) k = Some (0, k3)"
      using True k1(1) unfolding fill_page_def u Let_def vs_def [symmetric] ve_def [symmetric] s n_def [symmetric] b_def [symmetric]
      by (simp add: k2_def k3_def)
    have m2: "kmem ?um (mem k2) = mem_store pg (replicate (vs - la) 0) (kmem ?um (mem k1))" "same_kernel k1 k2" "exec_open k2 fdn wr (off + n) data"
      using kmemset_facts [OF pg(1)] k1(2) n(4) by (auto simp: k2_def)
    have "KERNBASE \<le> pg + (ve - la)" using pg(1) by simp
    note km = kmemset_facts [OF this]
    have m3: "kmem ?um (mem k3) = mem_store (b + n) (replicate (la + PGSIZE - ve) 0) (kmem ?um (mem k2))" "same_kernel k2 k3" "exec_open k3 fdn wr (off + n) data"
      using km m2(3) n(7) by (auto simp: k3_def b_def add.assoc)
    have e: "la + PGSIZE - ve = PGSIZE - (vs - la + n)" using n(3,4,6) by simp
    have mem: "kmem ?um (mem k3) a = (if b + n \<le> a \<and> a < pg + PGSIZE \<or> pg \<le> a \<and> a < b then 0 else kmem ?um (mem k1) a)" for a
      using n(3) unfolding m3(1) m2(1) e by (auto simp: mem_store_def b_def)
    have rd: "kmem ?um (mem k1) (b + i) = data ! (off + i)" if "i < n" for i
    proof -
      have "mem_bytes (kmem ?um (mem k1)) b n = seg off n data" using k1(4) n(2) by (simp add: read_into_def)
      then have "mem_bytes (kmem ?um (mem k1)) b n ! i = seg off n data ! i" by simp
      then show ?thesis using that n(2) by (simp add: seg_def)
    qed
    have "kmem ?um (mem k3) (pg + j) = seg_byte data va filesz offset (la + j)" if j: "j < PGSIZE" for j
    proof (cases "vs - la \<le> j \<and> j < vs - la + n")
      case True
      then obtain i where i: "j = vs - la + i" "i < n" by (metis le_Suc_ex nat_add_left_cancel_less)
      have "seg_byte data va filesz offset (la + j) = data ! (off + i)"
        using i n by (auto simp: seg_byte_def off_def ve_def vs_def add.assoc split: if_splits)
      then show ?thesis using rd [OF i(2)] i by (simp add: mem b_def add.assoc)
    next
      case False
      then have "seg_byte data va filesz offset (la + j) = 0"
        using j n by (auto simp: seg_byte_def ve_def vs_def split: if_splits)
      then show ?thesis using False j by (auto simp: mem b_def)
    qed
    moreover have "kmem ?um (mem k3) a = kmem ?um (mem k) a" if "a \<notin> buf_area env" "\<not> (pg \<le> a \<and> a < pg + PGSIZE)" for a
    proof -
      have "\<not> (kb \<le> a \<and> a < kb + 4096)" using that(1) area by (auto simp: IOBUF_SIZE_def)
      moreover have "\<not> (b \<le> a \<and> a < b + n)" using that(2) b(3,4) by auto
      ultimately have "kmem ?um (mem k1) a = kmem ?um (mem k) a" using k1(4) n(2) by (simp add: read_into_def)
      then show ?thesis using that(2) b(3,4) by (auto simp: mem)
    qed
    ultimately show ?thesis using r m3(3) same_kernel_trans [OF k1(3) same_kernel_trans [OF m2(2) m3(2)]] by blast
  qed
qed

section \<open>Mapping a new page\<close>

lemma alloc_page_took:
  assumes inv: "vm_inv s dir bs" and al: "alloc_page s = Some (Some p, s\<lparr>pmm := q\<rparr>)" "p \<in> block_pages bs" "pmm_inv q bs'"
    "block_pages bs' = block_pages bs - {p}" "\<forall>i. page_usable q i = page_usable (pmm s) i"
  shows "vm_inv (s\<lparr>pmm := q\<rparr>) dir bs'" "took dir s bs (s\<lparr>pmm := q\<rparr>) bs'"
proof -
  have "\<forall>t f. tab (frames s) dir t = Some f \<longrightarrow> frames (s\<lparr>pmm := q\<rparr>) f = frames s f" by simp
  then show "vm_inv (s\<lparr>pmm := q\<rparr>) dir bs'" using vm_inv_agree [OF inv, of "s\<lparr>pmm := q\<rparr>" bs'] al by auto
  show "took dir s bs (s\<lparr>pmm := q\<rparr>) bs'" using al by (auto simp: took_def)
qed

text \<open>\<open>pgdir_alloc_page\<close> at an address that is not mapped: a page that was free is mapped there and nowhere else, or there is no memory.\<close>

lemma pgdir_alloc_page_spec:
  assumes inv: "vm_inv s dir bs" and un: "pte_at (frames s) dir la AND PTE_V = 0"
    and ref: "\<forall>i\<in>block_pages bs. page_ref i s = 0 \<and> i + 2 < 2 ^ 32"
  shows "\<exists>r s' bs'. pgdir_alloc_page dir la perm s = Some (r, s') \<and> vm_inv s' dir bs' \<and> npage s' = npage s \<and>
    (case r of
       None \<Rightarrow> \<forall>la'. pte_at (frames s') dir la' = pte_at (frames s) dir la'
     | Some p \<Rightarrow> p \<in> block_pages bs - block_pages bs' \<and> (\<forall>q. tab (frames s') dir q \<noteq> Some p) \<and> took dir s bs s' bs' \<and>
         (\<forall>i\<in>block_pages bs'. page_ref i s' = 0) \<and>
         (\<forall>la'. pte_at (frames s') dir la' = (if vpn la' = vpn la then pte_create (page2ppn p) (PTE_V OR perm) else pte_at (frames s) dir la')))"
proof -
  have pi: "pmm_inv (pmm s) bs" using inv by (simp add: vm_inv_def)
  from alloc_page_spec [OF pi] show ?thesis
  proof (elim disjE conjE exE)
    assume "alloc_page s = Some (None, s)"
    then show ?thesis using inv by (intro exI [of _ None] exI [of _ s] exI [of _ bs]) (simp add: pgdir_alloc_page_def)
  next
    fix p q bs1
    assume al: "alloc_page s = Some (Some p, s\<lparr>pmm := q\<rparr>)" and p: "p \<in> block_pages bs" and q: "pmm_inv q bs1" "block_pages bs1 = block_pages bs - {p}"
      and rf: "\<forall>i. pg_ref (pages q i) = pg_ref (pages (pmm s) i)" and us: "\<forall>i. page_usable q i = page_usable (pmm s) i"
    let ?s1 = "s\<lparr>pmm := q\<rparr>"
    note v1 = alloc_page_took [OF inv al p q us]
    have pf: "p \<notin> block_pages bs1" using q(2) by blast
    have un1: "pte_at (frames ?s1) dir la AND PTE_V = 0" using un by simp
    have rp: "page_ref i ?s1 = page_ref i s" for i using rf by (simp add: page_ref_def)
    obtain r s2 bs2 where g: "page_insert dir p la perm ?s1 = Some (r, s2)" "vm_inv s2 dir bs2" "npage s2 = npage ?s1" "took dir ?s1 bs1 s2 bs2"
        "\<forall>k. k \<noteq> p \<longrightarrow> k \<notin> block_pages bs1 - block_pages bs2 \<longrightarrow> page_ref k s2 = page_ref k ?s1"
        "if r = 0 then (\<forall>la'. pte_at (frames s2) dir la' =
             (if vpn la' = vpn la then pte_create (page2ppn p) (PTE_V OR perm) else pte_at (frames ?s1) dir la')) \<and>
          page_ref p s2 = page_ref p ?s1 + 1
         else r = - E_NO_MEM \<and> bs2 = [] \<and> (\<forall>la'. pte_at (frames s2) dir la' = pte_at (frames ?s1) dir la')"
      using page_insert_fresh [OF v1(1) un1 pf] by blast
    have pt: "tab (frames s2) dir t \<noteq> Some p" for t
    proof
      assume "tab (frames s2) dir t = Some p"
      then have "tab (frames s) dir t = Some p \<or> p \<in> block_pages bs1" using g(4) by (auto simp: took_def)
      then show False using pf vm_inv_fresh [OF inv p] by blast
    qed
    show ?thesis
    proof (cases "r = 0")
      case True
      then have m: "\<forall>la'. pte_at (frames s2) dir la' = (if vpn la' = vpn la then pte_create (page2ppn p) (PTE_V OR perm) else pte_at (frames s) dir la')"
          "page_ref p s2 = 1" using g(6) rp ref p by auto
      have "pgdir_alloc_page dir la perm s = Some (Some p, s2)" using al g(1) True m(2) by (simp add: pgdir_alloc_page_def kassert_def)
      moreover have "took dir s bs s2 bs2" by (rule took_trans [OF v1(2) g(4)])
      moreover have b2: "block_pages bs2 \<subseteq> block_pages bs1" using g(4) by (simp add: took_def)
      moreover have "page_ref i s2 = 0" if "i \<in> block_pages bs2" for i
      proof -
        have i: "i \<in> block_pages bs1" using that b2 by blast
        then have "i \<noteq> p" "i \<in> block_pages bs" using pf q(2) by auto
        then show ?thesis using g(5) that ref rp by auto
      qed
      moreover have "p \<in> block_pages bs - block_pages bs2" using p pf b2 by blast
      ultimately show ?thesis using g(2,3) m(1) pt
        by (intro exI [of _ "Some p"] exI [of _ s2] exI [of _ bs2]) simp
    next
      case False
      then have m: "r = - E_NO_MEM" "bs2 = []" "\<forall>la'. pte_at (frames s2) dir la' = pte_at (frames s) dir la'" using g(6) by auto
      have rng: "{p..<p + 1} = {p}" by auto
      have "page_usable (pmm s2) p" using g(4) us pmm_inv_usable [OF pi p] by (simp add: took_def)
      moreover have "pmm_inv (pmm s2) []" using g(2) m(2) by (simp add: vm_inv_def)
      ultimately obtain q3 bs3 where f: "default_free_pages p 1 (pmm s2) = Some q3" "pmm_inv q3 bs3" "block_pages bs3 = {p}"
        using ff.free_some [of "pmm s2" "[]" 1 p] ref p unfolding rng by (auto simp: higher_free_def)
      have fp: "free_page p s2 = Some (s2\<lparr>pmm := q3\<rparr>)" using f(1) by (simp add: free_page_def)
      have vi: "vm_inv (s2\<lparr>pmm := q3\<rparr>) dir bs3"
      proof -
        have "page2ppn p < npage s2" using inv p g(3) by (auto simp: vm_inv_def)
        then show ?thesis using g(2) f pt by (auto simp: vm_inv_def entry_ok_def)
      qed
      have "pgdir_alloc_page dir la perm s = Some (None, s2\<lparr>pmm := q3\<rparr>)"
        using al g(1) m(1) fp by (simp add: pgdir_alloc_page_def E_NO_MEM_def)
      then show ?thesis using vi g(3) m(3)
        by (intro exI [of _ None] exI [of _ "s2\<lparr>pmm := q3\<rparr>"] exI [of _ bs3]) simp
    qed
  qed
qed

section \<open>The pages of a segment\<close>

definition frame_area :: "nat \<Rightarrow> nat set" where
  "frame_area p = {kva p..<kva p + PGSIZE}"

lemma frame_area_disj: "p \<noteq> q \<Longrightarrow> frame_area p \<inter> frame_area q = {}"
  unfolding frame_area_def kva_eq [of p] kva_eq [of q] PGSIZE_def by (cases "p < q") auto

lemma kmem_frame:
  assumes "j < PGSIZE"
  shows "kmem um s (kva p + j) = le_bytes 8 (unat (frames s p (j div 8))) ! (j mod 8)"
proof -
  have "kva p + j - kva 0 = 4096 * p + j" "\<not> kva p + j < kva 0" using kva_eq [of p] by (simp_all add: PGSIZE_def)
  moreover have "(4096 * p + j) div 4096 = p" "(4096 * p + j) mod 4096 = j" "(4096 * p + j) mod 8 = j mod 8"
    using assms mod_mult_self4 [of 8 "512 * p" j] by (simp_all add: PGSIZE_def)
  ultimately show ?thesis by (simp add: kmem_def Let_def PGSIZE_def)
qed

lemma kmem_same_frame:
  assumes "frames s' p = frames s p" "a \<in> frame_area p"
  shows "kmem um s' a = kmem um s a"
proof -
  obtain j where "a = kva p + j" "j < PGSIZE" using assms(2) by (auto simp: frame_area_def less_diff_conv2 dest: le_Suc_ex)
  then show ?thesis using assms(1) by (simp add: kmem_frame)
qed

lemma frame_of_kmem:
  assumes m: "\<forall>a\<in>frame_area p. kmem um s' a = kmem um s a" and i: "\<forall>i\<ge>512. frames s' p i = frames s p i"
  shows "frames s' p = frames s p"
proof
  fix i
  show "frames s' p i = frames s p i"
  proof (cases "i < 512")
    case True
    have "le_bytes 8 (unat (frames s' p i)) ! j = le_bytes 8 (unat (frames s p i)) ! j" if "j < 8" for j
    proof -
      have d: "8 * i + j < PGSIZE" "(8 * i + j) div 8 = i" "(8 * i + j) mod 8 = j" using True that by (auto simp: PGSIZE_def)
      then have "kva p + (8 * i + j) \<in> frame_area p" by (simp add: frame_area_def)
      then have "kmem um s' (kva p + (8 * i + j)) = kmem um s (kva p + (8 * i + j))" using m by blast
      then show ?thesis unfolding kmem_frame [OF d(1)] d(2,3) .
    qed
    then have "le_bytes 8 (unat (frames s' p i)) = le_bytes 8 (unat (frames s p i))" by (intro nth_equalityI) simp_all
    then have "le_val (le_bytes 8 (unat (frames s' p i))) = le_val (le_bytes 8 (unat (frames s p i)))" by simp
    then have "unat (frames s' p i) = unat (frames s p i)"
      using unsigned_less [where ?'a = nat, of "frames s' p i"] unsigned_less [where ?'a = nat, of "frames s p i"] by (simp add: le_val_le_bytes)
    then show ?thesis by (simp only: unsigned_word_eqI)
  qed (use i in simp)
qed

text \<open>The free frames are unreferenced and mapped by the kernel, and the buffers lie neither in them nor in page tables.\<close>

definition loader_ok :: "exec_env \<Rightarrow> vm \<Rightarrow> nat \<Rightarrow> (nat \<times> nat) list \<Rightarrow> bool" where
  "loader_ok env s dir bs \<longleftrightarrow> vm_inv s dir bs \<and> bufs_ok env \<and>
     (\<forall>p\<in>block_pages bs. page_ref p s = 0 \<and> p + 2 < 2 ^ 32 \<and> KERNBASE \<le> kva p \<and> kva p + PGSIZE \<le> KERNTOP \<and> buf_area env \<inter> frame_area p = {}) \<and>
     (\<forall>q f. tab (frames s) dir q = Some f \<longrightarrow> buf_area env \<inter> frame_area f = {})"

lemma page_number: "vpn a = vpn b \<longleftrightarrow> a div PGSIZE = b div PGSIZE" if "a < 2 ^ 39" "b < 2 ^ 39"
proof
  have e: "x div 4096 = (PDX1 x * 512 + PDX0 x) * 512 + PTX x" if "x < 2 ^ 39" for x
  proof -
    have "x div 2 ^ 30 < 512" using that by (simp add: less_mult_imp_div_less)
    then have p: "PDX1 x = x div 2 ^ 30" by (simp add: PDX1_def drop_bit_eq_div)
    have "x div 2 ^ 21 = x div 2 ^ 30 * 512 + x div 2 ^ 21 mod 512"
      using div_mult_mod_eq [of "x div 2 ^ 21" 512] by (simp add: div_mult2_eq [symmetric])
    moreover have "x div 2 ^ 12 = x div 2 ^ 21 * 512 + x div 2 ^ 12 mod 512"
      using div_mult_mod_eq [of "x div 2 ^ 12" 512] by (simp add: div_mult2_eq [symmetric])
    ultimately show ?thesis using p by (simp add: PDX0_def PTX_def drop_bit_eq_div)
  qed
  show "a div PGSIZE = b div PGSIZE" if "vpn a = vpn b"
    using that e [OF \<open>a < 2 ^ 39\<close>] e [OF \<open>b < 2 ^ 39\<close>] by (simp add: vpn_def PGSIZE_def)
  show "vpn a = vpn b" if h: "a div PGSIZE = b div PGSIZE"
  proof -
    have "x div 2 ^ 21 = x div 4096 div 512" "x div 2 ^ 30 = x div 4096 div 512 div 512" for x :: nat
      by (simp_all add: div_mult2_eq [symmetric])
    then show ?thesis using h by (simp add: vpn_def PDX1_def PDX0_def PTX_def drop_bit_eq_div PGSIZE_def)
  qed
qed

text \<open>One page.\<close>

lemma load_page_spec:
  assumes ok: "loader_ok env (mem k) dir bs" and k: "exec_open k fdn wr p data"
    and un: "pte_at (frames (mem k)) dir la AND PTE_V = 0" and la: "la mod PGSIZE = 0" and perm: "perm AND NOT 0x3FF = 0"
    and sz: "offset + filesz \<le> length data" "va + filesz < 2 ^ 64"
  shows "\<exists>ret k' bs'. load_page env fdn dir perm la va filesz (int offset) k = Some (ret, k') \<and> vm_inv (mem k') dir bs' \<and> npage (mem k') = npage (mem k) \<and>
    (ret = - E_NO_MEM \<and> (\<forall>a. pte_at (frames (mem k')) dir a = pte_at (frames (mem k)) dir a) \<or>
     ret = 0 \<and> loader_ok env (mem k') dir bs' \<and> (\<exists>p'. exec_open k' fdn wr p' data) \<and>
     block_pages bs' \<subseteq> block_pages bs \<and>
     (\<forall>q f. tab (frames (mem k')) dir q = Some f \<longrightarrow> tab (frames (mem k)) dir q = Some f \<or> f \<in> block_pages bs) \<and>
     (\<forall>f. f \<notin> block_pages bs \<longrightarrow> (\<forall>q. tab (frames (mem k)) dir q \<noteq> Some f) \<longrightarrow> buf_area env \<inter> frame_area f = {} \<longrightarrow>
        frames (mem k') f = frames (mem k) f) \<and>
     (\<exists>p. p \<in> block_pages bs - block_pages bs' \<and> (\<forall>q. tab (frames (mem k')) dir q \<noteq> Some p) \<and> page2ppn p < npage (mem k') \<and>
        (\<forall>a. pte_at (frames (mem k')) dir a =
          (if vpn a = vpn la then pte_create (page2ppn p) (PTE_V OR perm) else pte_at (frames (mem k)) dir a)) \<and>
        (\<forall>j < PGSIZE. kmem (x_um env) (mem k') (kva p + j) = seg_byte data va filesz offset (la + j))))"
proof -
  let ?um = "x_um env"
  have inv: "vm_inv (mem k) dir bs" "bufs_ok env" using ok by (simp_all add: loader_ok_def)
  have ref: "\<forall>i\<in>block_pages bs. page_ref i (mem k) = 0 \<and> i + 2 < 2 ^ 32" using ok by (auto simp: loader_ok_def)
  obtain r s bs1 where g: "pgdir_alloc_page dir la perm (mem k) = Some (r, s)" "vm_inv s dir bs1" "npage s = npage (mem k)"
    "case r of
       None \<Rightarrow> \<forall>la'. pte_at (frames s) dir la' = pte_at (frames (mem k)) dir la'
     | Some p \<Rightarrow> p \<in> block_pages bs - block_pages bs1 \<and> (\<forall>q. tab (frames s) dir q \<noteq> Some p) \<and> took dir (mem k) bs s bs1 \<and>
         (\<forall>i\<in>block_pages bs1. page_ref i s = 0) \<and>
         (\<forall>la'. pte_at (frames s) dir la' = (if vpn la' = vpn la then pte_create (page2ppn p) (PTE_V OR perm) else pte_at (frames (mem k)) dir la'))"
    using pgdir_alloc_page_spec [OF inv(1) un ref] by blast
  show ?thesis
  proof (cases r)
    case None
    then show ?thesis using g by (intro exI [of _ "- E_NO_MEM"] exI [of _ "k\<lparr>mem := s\<rparr>"] exI [of _ bs1]) (simp add: load_page_def)
  next
    case (Some pg)
    let ?k = "k\<lparr>mem := s\<rparr>"
    have h: "pg \<in> block_pages bs" "pg \<notin> block_pages bs1" "\<forall>q. tab (frames s) dir q \<noteq> Some pg" "took dir (mem k) bs s bs1"
        "\<forall>i\<in>block_pages bs1. page_ref i s = 0"
        "\<forall>la'. pte_at (frames s) dir la' = (if vpn la' = vpn la then pte_create (page2ppn pg) (PTE_V OR perm) else pte_at (frames (mem k)) dir la')"
      using g(4) Some by auto
    have pn: "page2ppn pg < npage s" using inv(1) h(1) g(3) by (auto simp: vm_inv_def)
    have pr: "KERNBASE \<le> kva pg" "kva pg + PGSIZE \<le> KERNTOP" "buf_area env \<inter> frame_area pg = {}" using ok h(1) by (auto simp: loader_ok_def)
    have "exec_open ?k fdn wr p data" using k by (simp add: exec_open_def)
    from fill_page_spec [OF this sz pr(1,2) inv(2) pr(3) [unfolded frame_area_def], of la]
    obtain k' p' where f: "fill_page env fdn (kva pg) la va filesz (int offset) ?k = Some (0, k')" "exec_open k' fdn wr p' data" "same_kernel ?k k'"
        "\<forall>j < PGSIZE. kmem ?um (mem k') (kva pg + j) = seg_byte data va filesz offset (la + j)"
        "\<forall>a. a \<notin> buf_area env \<longrightarrow> \<not> (kva pg \<le> a \<and> a < kva pg + PGSIZE) \<longrightarrow> kmem ?um (mem k') a = kmem ?um s a"
      by auto
    have lp: "load_page env fdn dir perm la va filesz (int offset) k = Some (0, k')"
      using g(1) Some pn f(1) by (simp add: load_page_def page2kva_def kassert_def ppn_pa)
    have same: "frames (mem k') f = frames s f" if "f \<noteq> pg" "buf_area env \<inter> frame_area f = {}" for f
    proof (rule frame_of_kmem)
      show "\<forall>a\<in>frame_area f. kmem ?um (mem k') a = kmem ?um s a"
      proof
        fix a assume a: "a \<in> frame_area f"
        then have "a \<notin> buf_area env" "a \<notin> frame_area pg" using that(2) frame_area_disj [OF that(1)] by blast+
        then show "kmem ?um (mem k') a = kmem ?um s a" using f(5) by (simp add: frame_area_def)
      qed
      show "\<forall>i\<ge>512. frames (mem k') f i = frames s f i" using f(3) by (simp add: same_kernel_def)
    qed
    have tb: "tab (frames (mem k)) dir q = Some t \<or> t \<in> block_pages bs" if "tab (frames s) dir q = Some t" for q t
      using h(4) that by (auto simp: took_def)
    have tbuf: "buf_area env \<inter> frame_area t = {}" if "tab (frames s) dir q = Some t" for q t
      using tb [OF that] ok by (auto simp: loader_ok_def)
    have "\<forall>q t. tab (frames s) dir q = Some t \<longrightarrow> frames (mem k') t = frames s t"
    proof (intro allI impI)
      fix q t assume t: "tab (frames s) dir q = Some t"
      then have "t \<noteq> pg" using h(3) by auto
      then show "frames (mem k') t = frames s t" using same tbuf [OF t] by simp
    qed
    moreover have pm: "pmm (mem k') = pmm s" "npage (mem k') = npage s" using f(3) by (simp_all add: same_kernel_def)
    moreover have "pmm_inv (pmm s) bs1" using g(2) by (simp add: vm_inv_def)
    ultimately have v: "vm_inv (mem k') dir bs1" "tab (frames (mem k')) dir = tab (frames s) dir"
        "\<forall>a. pte_at (frames (mem k')) dir a = pte_at (frames s) dir a"
      using vm_inv_agree [OF g(2), of "mem k'" bs1] by auto
    have sub: "block_pages bs1 \<subseteq> block_pages bs" using h(4) by (simp add: took_def)
    have pr0: "page_ref i (mem k') = page_ref i s" for i using pm(1) by (simp add: page_ref_def)
    have "loader_ok env (mem k') dir bs1"
      using ok v(1) sub h(5) tbuf unfolding loader_ok_def v(2) pr0 by blast
    moreover have "frames (mem k') f = frames (mem k) f"
      if "f \<notin> block_pages bs" "\<forall>q. tab (frames (mem k)) dir q \<noteq> Some f" "buf_area env \<inter> frame_area f = {}" for f
    proof -
      have "frames s f = frames (mem k) f" using h(4) that by (auto simp: took_def)
      moreover have "f \<noteq> pg" using that(1) h(1) by blast
      ultimately show ?thesis using same that(3) by simp
    qed
    ultimately show ?thesis using lp v f(2,4) h(1,2,3,6) sub pn pm(2) tb g(3)
      by (intro exI [of _ 0] exI [of _ k'] exI [of _ bs1]) auto
  qed
qed

lemma PGSIZE_pos: "0 < PGSIZE"
  by (simp add: PGSIZE_def)

lemma same_page:
  assumes "la mod PGSIZE = 0" "a < 2 ^ 39" "la < 2 ^ 39"
  shows "vpn a = vpn la \<longleftrightarrow> la \<le> a \<and> a < la + PGSIZE"
proof -
  have l: "la = la div PGSIZE * PGSIZE" using assms(1) by (metis add.right_neutral div_mult_mod_eq)
  have "a div PGSIZE = la div PGSIZE \<longleftrightarrow> la div PGSIZE * PGSIZE \<le> a \<and> a < Suc (la div PGSIZE) * PGSIZE"
    by (metis PGSIZE_pos div_nat_eqI dividend_less_times_div mult.commute mult_Suc_right times_div_less_eq_dividend)
  then show ?thesis using page_number [OF assms(2,3)] l by auto
qed

text \<open>What is true of every byte of the segment's pages after loading.\<close>

definition loaded :: "exec_env \<Rightarrow> vm \<Rightarrow> nat \<Rightarrow> 64 word \<Rightarrow> nat \<Rightarrow> 8 word \<Rightarrow> bool" where
  "loaded env s dir perm a b \<longleftrightarrow> (\<exists>p. pte_at (frames s) dir a = pte_create (page2ppn p) (PTE_V OR perm) \<and> page2ppn p < npage s \<and>
     kmem (x_um env) s (kva p + a mod PGSIZE) = b)"

lemma load_pages_spec:
  assumes "loader_ok env (mem k) dir bs" "exec_open k fdn wr p data" "\<forall>a. la \<le> a \<and> a < en \<longrightarrow> pte_at (frames (mem k)) dir a AND PTE_V = 0"
    and "la mod PGSIZE = 0"
    and en: "en mod PGSIZE = 0" "en \<le> 2 ^ 39" and perm: "perm AND NOT 0x3FF = 0" and sz: "offset + filesz \<le> length data" "va + filesz < 2 ^ 64"
  shows "\<exists>ret k' bs'. load_pages env fdn dir perm la en va filesz (int offset) k = Some (ret, k') \<and> vm_inv (mem k') dir bs' \<and> npage (mem k') = npage (mem k) \<and>
    (\<forall>a < 2 ^ 39. \<not> (la \<le> a \<and> a < en) \<longrightarrow> pte_at (frames (mem k')) dir a = pte_at (frames (mem k)) dir a) \<and>
    (ret = - E_NO_MEM \<or>
     ret = 0 \<and> loader_ok env (mem k') dir bs' \<and> (\<exists>p'. exec_open k' fdn wr p' data) \<and>
     (\<forall>f. f \<notin> block_pages bs \<longrightarrow> (\<forall>q. tab (frames (mem k)) dir q \<noteq> Some f) \<longrightarrow> buf_area env \<inter> frame_area f = {} \<longrightarrow>
        frames (mem k') f = frames (mem k) f) \<and>
     (\<forall>a. la \<le> a \<and> a < en \<longrightarrow> loaded env (mem k') dir perm a (seg_byte data va filesz offset a)))"
  using assms(1-4)
proof (induction "en - la" arbitrary: la k bs p rule: less_induct)
  case less
  show ?case
  proof (cases "la < en")
    case False
    then show ?thesis using less.prems by (subst load_pages.simps) (auto simp: loader_ok_def)
  next
    case True
    have up: "la + PGSIZE \<le> en"
    proof -
      have "la div PGSIZE < en div PGSIZE" using True less.prems(4) en(1)
        by (metis add.right_neutral div_le_mono div_mult_mod_eq le_neq_implies_less less_imp_le_nat nat_neq_iff)
      then have "Suc (la div PGSIZE) * PGSIZE \<le> en div PGSIZE * PGSIZE" by (intro mult_le_mono1) simp
      then show ?thesis using less.prems(4) en(1) by (metis add.commute add.right_neutral div_mult_mod_eq mult_Suc)
    qed
    have sp: "vpn a = vpn la \<longleftrightarrow> la \<le> a \<and> a < la + PGSIZE" if "a < 2 ^ 39" for a
      using same_page [OF less.prems(4) that] True en(2) by simp
    have ula: "pte_at (frames (mem k)) dir la AND PTE_V = 0" using less.prems(3) True by simp
    obtain ret k1 bs1 where st: "load_page env fdn dir perm la va filesz (int offset) k = Some (ret, k1)" "vm_inv (mem k1) dir bs1" "npage (mem k1) = npage (mem k)"
      "ret = - E_NO_MEM \<and> (\<forall>a. pte_at (frames (mem k1)) dir a = pte_at (frames (mem k)) dir a) \<or>
       ret = 0 \<and> loader_ok env (mem k1) dir bs1 \<and> (\<exists>p'. exec_open k1 fdn wr p' data) \<and>
       block_pages bs1 \<subseteq> block_pages bs \<and>
       (\<forall>q f. tab (frames (mem k1)) dir q = Some f \<longrightarrow> tab (frames (mem k)) dir q = Some f \<or> f \<in> block_pages bs) \<and>
       (\<forall>f. f \<notin> block_pages bs \<longrightarrow> (\<forall>q. tab (frames (mem k)) dir q \<noteq> Some f) \<longrightarrow> buf_area env \<inter> frame_area f = {} \<longrightarrow>
          frames (mem k1) f = frames (mem k) f) \<and>
       (\<exists>p. p \<in> block_pages bs - block_pages bs1 \<and> (\<forall>q. tab (frames (mem k1)) dir q \<noteq> Some p) \<and> page2ppn p < npage (mem k1) \<and>
          (\<forall>a. pte_at (frames (mem k1)) dir a =
            (if vpn a = vpn la then pte_create (page2ppn p) (PTE_V OR perm) else pte_at (frames (mem k)) dir a)) \<and>
          (\<forall>j < PGSIZE. kmem (x_um env) (mem k1) (kva p + j) = seg_byte data va filesz offset (la + j)))"
      using load_page_spec [OF less.prems(1,2) ula less.prems(4) perm sz] by blast
    show ?thesis
    proof (cases "ret = 0")
      case False
      then have "load_pages env fdn dir perm la en va filesz (int offset) k = Some (ret, k1)"
        using st(1) True by (subst load_pages.simps) simp
      then show ?thesis using st(2,3,4) False by blast
    next
      case z: True
      obtain pg p' where h: "loader_ok env (mem k1) dir bs1" "exec_open k1 fdn wr p' data" "block_pages bs1 \<subseteq> block_pages bs"
          "\<forall>q f. tab (frames (mem k1)) dir q = Some f \<longrightarrow> tab (frames (mem k)) dir q = Some f \<or> f \<in> block_pages bs"
          "\<forall>f. f \<notin> block_pages bs \<longrightarrow> (\<forall>q. tab (frames (mem k)) dir q \<noteq> Some f) \<longrightarrow> buf_area env \<inter> frame_area f = {} \<longrightarrow> frames (mem k1) f = frames (mem k) f"
          "pg \<in> block_pages bs" "pg \<notin> block_pages bs1" "\<forall>q. tab (frames (mem k1)) dir q \<noteq> Some pg" "page2ppn pg < npage (mem k1)"
          "\<forall>a. pte_at (frames (mem k1)) dir a = (if vpn a = vpn la then pte_create (page2ppn pg) (PTE_V OR perm) else pte_at (frames (mem k)) dir a)"
          "\<forall>j < PGSIZE. kmem (x_um env) (mem k1) (kva pg + j) = seg_byte data va filesz offset (la + j)"
        using st(4) z by (auto simp: E_NO_MEM_def)
      have un1: "\<forall>a. la + PGSIZE \<le> a \<and> a < en \<longrightarrow> pte_at (frames (mem k1)) dir a AND PTE_V = 0"
        using h(10) sp less.prems(3) en(2) by auto
      have d: "en - (la + PGSIZE) < en - la" "(la + PGSIZE) mod PGSIZE = 0" using True less.prems(4) PGSIZE_pos by auto
      obtain ret' k' bs' where ih: "load_pages env fdn dir perm (la + PGSIZE) en va filesz (int offset) k1 = Some (ret', k')" "vm_inv (mem k') dir bs'" "npage (mem k') = npage (mem k1)"
          "\<forall>a < 2 ^ 39. \<not> (la + PGSIZE \<le> a \<and> a < en) \<longrightarrow> pte_at (frames (mem k')) dir a = pte_at (frames (mem k1)) dir a"
          "ret' = - E_NO_MEM \<or>
           ret' = 0 \<and> loader_ok env (mem k') dir bs' \<and> (\<exists>p'. exec_open k' fdn wr p' data) \<and>
           (\<forall>f. f \<notin> block_pages bs1 \<longrightarrow> (\<forall>q. tab (frames (mem k1)) dir q \<noteq> Some f) \<longrightarrow> buf_area env \<inter> frame_area f = {} \<longrightarrow>
              frames (mem k') f = frames (mem k1) f) \<and>
           (\<forall>a. la + PGSIZE \<le> a \<and> a < en \<longrightarrow> loaded env (mem k') dir perm a (seg_byte data va filesz offset a))"
        using less.hyps [OF d(1) h(1,2) un1 d(2)] by blast
      have e: "load_pages env fdn dir perm la en va filesz (int offset) k = Some (ret', k')"
        using st(1) True z ih(1) by (subst load_pages.simps) simp
      have out: "pte_at (frames (mem k')) dir a = pte_at (frames (mem k)) dir a" if "a < 2 ^ 39" "\<not> (la \<le> a \<and> a < en)" for a
      proof -
        have "\<not> (la + PGSIZE \<le> a \<and> a < en)" "\<not> (la \<le> a \<and> a < la + PGSIZE)" using that(2) up by auto
        then have "pte_at (frames (mem k')) dir a = pte_at (frames (mem k1)) dir a" "vpn a \<noteq> vpn la" using ih(4) sp [OF that(1)] that(1) by blast+
        then show ?thesis using h(10) by simp
      qed
      have np: "npage (mem k') = npage (mem k)" using ih(3) st(3) by simp
      show ?thesis
      proof (cases "ret' = 0")
        case False
        then show ?thesis using e ih(2,5) out np by blast
      next
        case True
        then have g: "loader_ok env (mem k') dir bs'" "\<exists>p'. exec_open k' fdn wr p' data"
            "\<forall>f. f \<notin> block_pages bs1 \<longrightarrow> (\<forall>q. tab (frames (mem k1)) dir q \<noteq> Some f) \<longrightarrow> buf_area env \<inter> frame_area f = {} \<longrightarrow> frames (mem k') f = frames (mem k1) f"
            "\<forall>a. la + PGSIZE \<le> a \<and> a < en \<longrightarrow> loaded env (mem k') dir perm a (seg_byte data va filesz offset a)"
          using ih(5) by (auto simp: E_NO_MEM_def)
        have bp: "buf_area env \<inter> frame_area pg = {}" using less.prems(1) h(6) by (auto simp: loader_ok_def)
        have fp: "frames (mem k') pg = frames (mem k1) pg" using g(3) h(7,8) bp by blast
        have "loaded env (mem k') dir perm a (seg_byte data va filesz offset a)" if a: "la \<le> a" "a < la + PGSIZE" for a
        proof -
          have al: "a < 2 ^ 39" "\<not> (la + PGSIZE \<le> a \<and> a < en)" using a up en(2) by auto
          have am: "a mod PGSIZE = a - la" using a less.prems(4) 
          proof -
            have "a = la + (a - la)" "a - la < PGSIZE" using a by auto
            then show ?thesis using less.prems(4) mod_add_left_eq [of la PGSIZE "a - la"] by simp
          qed
          have "pte_at (frames (mem k')) dir a = pte_create (page2ppn pg) (PTE_V OR perm)" using ih(4) h(10) sp [OF al(1)] al a by simp
          moreover have "kmem (x_um env) (mem k') (kva pg + (a - la)) = kmem (x_um env) (mem k1) (kva pg + (a - la))"
            by (rule kmem_same_frame [OF fp]) (use a in \<open>auto simp: frame_area_def\<close>)
          moreover have "\<dots> = seg_byte data va filesz offset a" using h(11) [rule_format, of "a - la"] a by (simp add: less_diff_conv2)
          ultimately show ?thesis using h(9) ih(3) am by (auto simp: loaded_def)
        qed
        then have "\<forall>a. la \<le> a \<and> a < en \<longrightarrow> loaded env (mem k') dir perm a (seg_byte data va filesz offset a)" using g(4) by (metis not_le)
        moreover have "frames (mem k') f = frames (mem k) f"
          if "f \<notin> block_pages bs" "\<forall>q. tab (frames (mem k)) dir q \<noteq> Some f" "buf_area env \<inter> frame_area f = {}" for f
        proof -
          have "frames (mem k1) f = frames (mem k) f" using h(5) that by blast
          moreover have "f \<notin> block_pages bs1" "\<forall>q. tab (frames (mem k1)) dir q \<noteq> Some f" using h(3,4) that(1,2) by blast+
          ultimately show ?thesis using g(3) that(3) by simp
        qed
        ultimately show ?thesis using e ih(2) out np True g(1,2)
          by (intro exI [of _ 0] exI [of _ k'] exI [of _ bs']) auto
      qed
    qed
  qed
qed

section \<open>One segment\<close>

lemma seg_perm_low: "seg_perm vmf AND NOT 0x3FF = 0"
  by (auto simp: seg_perm_def PTE_U_def PTE_V_def PTE_R_def PTE_W_def PTE_X_def)

lemma rounded_pages:
  assumes "x \<le> USERTOP"
  shows "ROUNDUP x PGSIZE mod PGSIZE = 0" "ROUNDUP x PGSIZE \<le> 2 ^ 39" "ROUNDDOWN x PGSIZE mod PGSIZE = 0"
proof -
  have m: "(y - y mod PGSIZE) mod PGSIZE = 0" for y by (simp add: minus_mod_eq_mult_div)
  have u: "u64 (x + PGSIZE - 1) = x + PGSIZE - 1" using assms by (intro u64_id) (simp add: USERTOP_def PGSIZE_def)
  show "ROUNDUP x PGSIZE mod PGSIZE = 0" "ROUNDDOWN x PGSIZE mod PGSIZE = 0" using m by (simp_all add: ROUNDUP_def ROUNDDOWN_def)
  show "ROUNDUP x PGSIZE \<le> 2 ^ 39" unfolding ROUNDUP_def u using assms ROUNDDOWN_le [of "x + PGSIZE - 1" PGSIZE] by (simp add: USERTOP_def PGSIZE_def)
qed

text \<open>Kernel memory that holds neither free pages nor page tables.\<close>

definition clear_area :: "vm \<Rightarrow> nat \<Rightarrow> (nat \<times> nat) list \<Rightarrow> nat set \<Rightarrow> bool" where
  "clear_area s dir bs A \<longleftrightarrow> (\<forall>p\<in>block_pages bs. A \<inter> frame_area p = {}) \<and> (\<forall>q f. tab (frames s) dir q = Some f \<longrightarrow> A \<inter> frame_area f = {})"

lemma loader_ok_kept:
  assumes ok: "loader_ok env (mem k) dir bs" and same: "same_kernel k k'" and A: "clear_area (mem k) dir bs A"
    and m: "\<forall>a. a \<notin> A \<longrightarrow> a \<notin> buf_area env \<longrightarrow> kmem um (mem k') a = kmem um (mem k) a"
  shows "loader_ok env (mem k') dir bs" "tab (frames (mem k')) dir = tab (frames (mem k)) dir"
    "pte_at (frames (mem k')) dir a = pte_at (frames (mem k)) dir a"
proof -
  have inv: "vm_inv (mem k) dir bs" using ok by (simp add: loader_ok_def)
  have f: "frames (mem k') t = frames (mem k) t" if t: "tab (frames (mem k)) dir q = Some t" for q t
  proof (rule frame_of_kmem)
    have "A \<inter> frame_area t = {}" "buf_area env \<inter> frame_area t = {}" using A ok t by (auto simp: clear_area_def loader_ok_def)
    then show "\<forall>a\<in>frame_area t. kmem um (mem k') a = kmem um (mem k) a" using m by blast
    show "\<forall>i\<ge>512. frames (mem k') t i = frames (mem k) t i" using same by (simp add: same_kernel_def)
  qed
  have pm: "pmm (mem k') = pmm (mem k)" "npage (mem k') = npage (mem k)" using same by (simp_all add: same_kernel_def)
  have "vm_inv (mem k') dir bs \<and> tab (frames (mem k')) dir = tab (frames (mem k)) dir \<and> (\<forall>la. pte_at (frames (mem k')) dir la = pte_at (frames (mem k)) dir la)"
    by (rule vm_inv_agree [OF inv]) (use f pm inv in \<open>auto simp: vm_inv_def simp del: tab.simps\<close>)
  then show "tab (frames (mem k')) dir = tab (frames (mem k)) dir" "pte_at (frames (mem k')) dir a = pte_at (frames (mem k)) dir a" "loader_ok env (mem k') dir bs"
    using ok pm by (auto simp: loader_ok_def page_ref_def simp del: tab.simps)
qed

text \<open>C15. Loading a segment of a program: the loader reads the program header from the file and, when the header is valid and
  the area could be made, either fails for lack of memory or maps every page of the segment with the permissions of the header, so that
  each byte of the segment's address range reads as the byte of the file it comes from, and every other byte of these pages as zero
  (the rest of the first and last page, and the part of the segment the file does not have). No other address is
  mapped or unmapped. The file is read through \<open>seek\<close> and \<open>read\<close>, a kernel buffer and the kernel's view of the new frames.\<close>

theorem load_segment_correct:
  assumes ok: "loader_ok env (mem k) dir bs" and k: "exec_open k fdn wr p data"
    and at: "KERNBASE \<le> x_ph env" "x_ph env + 56 \<le> KERNTOP" "clear_area (mem k) dir bs {x_ph env..<x_ph env + 56}" "buf_area env \<inter> {x_ph env..<x_ph env + 56} = {}"
    and hd: "phoff + 56 * i + 56 \<le> length data" "ph = bytes_ph (seg (phoff + 56 * i) 56 data)" "p_type ph = ELF_PT_LOAD" "p_filesz ph \<le> p_memsz ph"
      "p_offset ph + p_filesz ph \<le> length data" "p_va ph + p_memsz ph \<le> USERTOP"
    and mm: "mm_map (x_vma env i) mm (p_va ph) (p_memsz ph) (seg_flags (ph_flags ph)) = Some (0, mm')" "pgdir mm' = Some dir"
  defines "st \<equiv> ROUNDDOWN (p_va ph) PGSIZE" and "en \<equiv> ROUNDUP (p_va ph + p_memsz ph) PGSIZE" and "perm \<equiv> seg_perm (seg_flags (ph_flags ph))"
  assumes un: "\<forall>a. st \<le> a \<and> a < en \<longrightarrow> pte_at (frames (mem k)) dir a AND PTE_V = 0"
  shows "\<exists>ret k' bs'. load_segment env fdn phoff i mm k = Some (ret, mm', k') \<and> vm_inv (mem k') dir bs' \<and>
    (\<forall>a < 2 ^ 39. \<not> (st \<le> a \<and> a < en) \<longrightarrow> pte_at (frames (mem k')) dir a = pte_at (frames (mem k)) dir a) \<and>
    (ret = - E_NO_MEM \<or>
     ret = 0 \<and> (\<forall>a. st \<le> a \<and> a < en \<longrightarrow> loaded env (mem k') dir perm a (seg_byte data (p_va ph) (p_filesz ph) (p_offset ph) a)))"
proof -
  let ?off = "phoff + 56 * i" and ?A = "{x_ph env..<x_ph env + 56}"
  have dl: "length data \<le> 4096 * 1036" by (rule exec_open_limit [OF k])
  obtain kb where kb: "x_buf env (int ?off) = Some kb" "KERNBASE \<le> kb" using ok unfolding loader_ok_def bufs_ok_def by blast
  have area: "{kb..<kb + IOBUF_SIZE} \<subseteq> buf_area env" using kb(1) unfolding buf_area_def by fastforce
  have cl: "clear_of kb (x_ph env) 56"
  proof (rule ccontr)
    assume "\<not> clear_of kb (x_ph env) 56"
    then have "max kb (x_ph env) \<in> {kb..<kb + IOBUF_SIZE} \<inter> ?A" by (auto simp: clear_of_def IOBUF_SIZE_def)
    then show False using at(4) area by blast
  qed
  obtain k1 where k1: "load_icode_read env fdn (x_ph env) 56 (int ?off) k = Some (0, k1)" "exec_open k1 fdn wr (?off + 56) data" "same_kernel k k1"
      "read_into kb (x_ph env) (seg ?off 56 data) (kmem (x_um env) (mem k)) (kmem (x_um env) (mem k1))"
    using load_icode_read_open [OF k hd(1) _ at(1,2) kb cl] by auto
  have m: "\<forall>a. a \<notin> ?A \<longrightarrow> a \<notin> buf_area env \<longrightarrow> kmem (x_um env) (mem k1) a = kmem (x_um env) (mem k) a"
    using k1(4) hd(1) area by (auto simp: read_into_def IOBUF_SIZE_def subset_iff)
  note l1 = loader_ok_kept [OF ok k1(3) at(3) m]
  have ph: "bytes_ph (mem_bytes (kmem (x_um env) (mem k1)) (x_ph env) 56) = ph"
    using k1(4) hd(1,2) by (simp add: read_into_def)
  have s: "s64 (int phoff + 56 * int i) = int ?off" "s64 (int (p_offset ph)) = int (p_offset ph)"
    using hd(1,5) dl by (auto intro!: s64_id)
  have x: "u64 (p_va ph + p_memsz ph) = p_va ph + p_memsz ph" using hd(6) by (intro u64_id) (simp add: USERTOP_def)
  have en: "en mod PGSIZE = 0" "en \<le> 2 ^ 39" "st mod PGSIZE = 0"
    using rounded_pages [OF hd(6)] rounded_pages(3) [of "p_va ph"] hd(6) by (simp_all add: en_def st_def)
  have va: "p_va ph + p_filesz ph < 2 ^ 64" using hd(4,6) by (simp add: USERTOP_def)
  have un1: "\<forall>a. st \<le> a \<and> a < en \<longrightarrow> pte_at (frames (mem k1)) dir a AND PTE_V = 0" using un l1(3) by simp
  obtain ret k' bs' where r: "load_pages env fdn dir perm st en (p_va ph) (p_filesz ph) (int (p_offset ph)) k1 = Some (ret, k')" "vm_inv (mem k') dir bs'"
      "\<forall>a < 2 ^ 39. \<not> (st \<le> a \<and> a < en) \<longrightarrow> pte_at (frames (mem k')) dir a = pte_at (frames (mem k1)) dir a"
      "ret = - E_NO_MEM \<or> ret = 0 \<and> (\<forall>a. st \<le> a \<and> a < en \<longrightarrow> loaded env (mem k') dir perm a (seg_byte data (p_va ph) (p_filesz ph) (p_offset ph) a))"
    using load_pages_spec [OF l1(1) k1(2) un1 en(3,1,2) seg_perm_low [of "seg_flags (ph_flags ph)", folded perm_def] hd(5) va] by blast
  have "load_segment env fdn phoff i mm k = Some (ret, mm', k')"
    using k1(1) s mm hd(3,4) r(1) unfolding load_segment_def x [symmetric]
    by (simp add: ph Let_def st_def en_def perm_def x)
  then show ?thesis using r(2-4) l1(3) by (intro exI [of _ ret] exI [of _ k'] exI [of _ bs']) simp
qed

text \<open>A machine with the ten free pages from 600 on, an empty page table in frame 0, and a program of one segment at \<open>0x800010\<close> with four bytes
  in the file and eight in memory.\<close>

definition exec_pmm :: pmm_state where
  "exec_pmm = (let s = the (default_init_memmap 600 10 (default_init reserved_pages)) in s\<lparr>pages := (\<lambda>i. (pages s i)\<lparr>pg_ref := 0\<rparr>)\<rparr>)"

definition exec_vm :: vm where
  "exec_vm = \<lparr>pmm = exec_pmm, frames = (\<lambda>_ _. 0), npage = nbase + 1000\<rparr>"

definition exec_header :: bytes where
  "exec_header = le_bytes 4 1 @ le_bytes 4 6 @ le_bytes 8 56 @ le_bytes 8 0x800010 @ le_bytes 8 0 @ le_bytes 8 4 @ le_bytes 8 8 @ le_bytes 8 0 @ [1, 2, 3, 4]"

definition exec_fs :: sfs_fs where
  "exec_fs = example_fs\<lparr>dev := example_disk\<lparr>img := blit (img example_disk) (4096 * 2) (exec_header @ replicate 4036 0)\<rparr>\<rparr>"

definition exec_kernel :: kernel where
  "exec_kernel = example_kernel\<lparr>sched := demo_sched\<lparr>procs := (\<lambda>_. demo_proc\<lparr>p_mm := None, filesp := Some 0\<rparr>)\<rparr>,
     mem := exec_vm, ftabs := [0 \<mapsto> u_files example_call],
     kvfs := \<lparr>sfs = exec_fs, nodes = [0 \<mapsto> \<lparr>in_info = Sfs example_inode1, ref_count = 1, open_count = 1\<rparr>]\<rparr>\<rparr>"

definition example_exec :: exec_env where
  "example_exec = \<lparr>x_um = (\<lambda>_. 0), x_buf = (\<lambda>_. Some (kva 700)), x_io = (\<lambda>_ iob _ v. Some (0, iob, v)), x_mm = Some 1, x_vma = (\<lambda>_. True),
     x_stack = True, x_elf = kva 801, x_ph = kva 800, x_sstatus = 0\<rparr>"

lemma length_exec_header: "length exec_header = 60"
  by (simp add: exec_header_def)

lemma exec_vm_tab: "tab (frames exec_vm) 0 q = Some f \<longleftrightarrow> q = Root \<and> f = 0"
  by (cases q) (auto simp: exec_vm_def sub_table_def)

lemma exec_vm_inv: "vm_inv exec_vm 0 [(600, 10)]"
proof -
  obtain s where s: "default_init_memmap 600 10 (default_init reserved_pages) = Some s" "pmm_inv s [(600, 10)]"
    using default_init_memmap_blocks [of 10 600 reserved_pages] by (auto simp: reserved_pages_def)
  then have "pmm_inv (pmm exec_vm) [(600, 10)]" by (simp add: exec_vm_def exec_pmm_def Let_def pmm_inv_def)
  moreover note exec_vm_tab
  moreover have "sub_table (frames exec_vm) 0 i = None" for i
    by (simp add: exec_vm_def sub_table_def)
  moreover have "npage exec_vm = nbase + 1000" "frames exec_vm 0 i = 0" for i by (simp_all add: exec_vm_def)
  ultimately show ?thesis by (auto simp: vm_inv_def tabs_inj_def page2ppn_def nbase_def)
qed

lemma exec_fs_ok: "fs_ok exec_fs"
proof -
  have f: "free exec_fs = free example_fs" by (simp add: free_def exec_fs_def)
  have "disk_ok (dev exec_fs)" using example_disk_ok length_exec_header by (simp add: disk_ok_def exec_fs_def example_disk_def)
  then show ?thesis using example_fs_ok unfolding fs_ok_def f by (simp add: exec_fs_def vol_ok_def example_disk_def example_fs_def)
qed

lemma exec_bmap: "i < 1036 \<Longrightarrow> bmap exec_fs (din example_inode1) i = (if i = 0 then 2 else 0)"
  by (auto simp: bmap_def example_inode1_def example_inode_def nth_Cons split: nat.splits)

lemma exec_file_ok: "file_ok exec_fs (din example_inode1)"
proof -
  have "2 \<in> used exec_fs" using example_free by (simp add: used_def free_def exec_fs_def example_fs_def)
  then show ?thesis using exec_bmap
    by (auto simp: file_ok_def ino_ok_def example_inode1_def example_inode_def lessThan_Suc)
qed

lemma exec_contents: "contents exec_fs (din example_inode1) = exec_header @ replicate 40 0"
proof -
  have b: "blk exec_fs 2 = exec_header @ replicate 4036 0"
    using blk_write [OF example_disk_ok, of 2 2 "exec_header @ replicate 4036 0"] length_exec_header
    by (simp add: blk_def exec_fs_def example_disk_def)
  have sz: "di_size (din example_inode1) = 100" "di_blocks (din example_inode1) = 1" by (simp_all add: example_inode1_def)
  show ?thesis unfolding contents_def sz(1)
  proof (rule nth_equalityI)
    fix i assume "i < length (map (fb exec_fs (din example_inode1)) [0..<100])"
    then have i: "i < 100" by simp
    then have "fb exec_fs (din example_inode1) i = (exec_header @ replicate 4036 0) ! i"
      using exec_bmap [of 0] b sz(2) by (simp add: fb_def)
    also have "\<dots> = (exec_header @ replicate 40 0) ! i" using i length_exec_header by (simp add: nth_append)
    finally show "map (fb exec_fs (din example_inode1)) [0..<100] ! i = (exec_header @ replicate 40 0) ! i" using i by simp
  qed (simp add: length_exec_header)
qed

lemma exec_kernel_open: "exec_open exec_kernel 3 True 30 (exec_header @ replicate 40 0)"
proof -
  have "fd_open 3 (u_files example_call) (fd_array (u_files example_call) ! 3) 0"
    by (simp add: fd_open_def example_call_def testfd_def FILES_STRUCT_NENTRY_def)
  moreover have "node_file 0 (kvfs exec_kernel) (exec_header @ replicate 40 0)"
    using exec_fs_ok exec_file_ok exec_contents
    by (simp add: node_file_def exec_kernel_def inode_check_def kassert_def MAX_INODE_COUNT_def
        example_inode1_def example_inode_def SFS_TYPE_FILE_def SFS_TYPE_DIR_def)
  ultimately have "opened 3 (u_files example_call) (kvfs exec_kernel) True True 30 (exec_header @ replicate 40 0)" unfolding opened_def
    by (intro exI [of _ "fd_array (u_files example_call) ! 3"] exI [of _ 0]) (simp add: example_call_def)
  then show ?thesis by (simp add: exec_open_def exec_kernel_def)
qed

lemma exec_buf_area: "buf_area example_exec = {kva 700..<kva 700 + 4096}"
  by (auto simp: buf_area_def example_exec_def IOBUF_SIZE_def)

lemma kva_areas: "n \<le> 4096 \<Longrightarrow> p \<noteq> q \<Longrightarrow> {kva p..<kva p + n} \<inter> frame_area q = {}"
  using frame_area_disj [of p q] by (auto simp: frame_area_def PGSIZE_def)

lemma exec_loader_ok: "loader_ok example_exec (mem exec_kernel) 0 [(600, 10)]"
proof -
  have r: "page_ref p exec_vm = 0" for p by (simp add: exec_vm_def exec_pmm_def page_ref_def Let_def)
  note t = exec_vm_tab
  have k: "KERNBASE \<le> kva p" "kva p + PGSIZE \<le> KERNTOP" if "600 \<le> p" "p < 1000" for p
    unfolding kva_eq [of p] kva_0 using that by (simp_all add: KERNBASE_def KERNTOP_def KMEMSIZE_def PGSIZE_def)
  have "bufs_ok example_exec" using k(1) [of 700] by (simp add: bufs_ok_def example_exec_def)
  moreover have "block_pages [(600, 10)] = {600..<610}" by (auto simp: block_pages_def)
  ultimately show ?thesis using exec_vm_inv k kva_areas
    by (auto simp: loader_ok_def exec_kernel_def r t exec_buf_area)
qed

theorem load_segment_correct_witness:
  "\<exists>ret mm' k'. load_segment example_exec 3 0 0 \<lparr>mmap_list = [], mmap_cache = None, pgdir = Some 0, map_count = 0, mm_count = 0\<rparr> exec_kernel = Some (ret, mm', k') \<and>
     (ret = - E_NO_MEM \<or>
      ret = 0 \<and> loaded example_exec (mem k') 0 (seg_perm (VM_WRITE OR VM_READ)) 0x800012 3 \<and> loaded example_exec (mem k') 0 (seg_perm (VM_WRITE OR VM_READ)) 0x800014 0)"
proof -
  let ?data = "exec_header @ replicate 40 0" and ?mm = "\<lparr>mmap_list = [], mmap_cache = None, pgdir = Some 0, map_count = 0, mm_count = 0\<rparr>"
  define ph where "ph = bytes_ph (seg (0 + 56 * 0) 56 ?data)"
  have ph: "p_type ph = 1" "ph_flags ph = 6" "p_offset ph = 56" "p_va ph = 0x800010" "p_filesz ph = 4" "p_memsz ph = 8"
    unfolding ph_def by (simp_all add: bytes_ph_def exec_header_def seg_def le_val_le_bytes)
  have fl: "seg_flags (ph_flags ph) = VM_WRITE OR VM_READ"
    by (simp add: ph seg_flags_def ELF_PF_X_def ELF_PF_W_def ELF_PF_R_def)
  have p: "ROUNDDOWN (p_va ph) PGSIZE = 0x800000" "ROUNDUP (p_va ph + p_memsz ph) PGSIZE = 0x801000" "ROUNDDOWN 0x800010 PGSIZE = 0x800000"
      "ROUNDUP 0x800018 PGSIZE = 0x801000"
    by (simp_all add: ph ROUNDDOWN_def ROUNDUP_def PGSIZE_def u64_def)
  have "\<exists>mm'. mm_map True ?mm 0x800010 8 (VM_WRITE OR VM_READ) = Some (0, mm') \<and> pgdir mm' = Some 0"
    using p(3,4) by (simp add: mm_map_def USER_ACCESS_def USERBASE_def USERTOP_def vma_create_def find_vma_def insert_vma_struct_def Let_def)
  then obtain mm' where mm: "mm_map (x_vma example_exec 0) ?mm (p_va ph) (p_memsz ph) (seg_flags (ph_flags ph)) = Some (0, mm')" "pgdir mm' = Some 0"
    unfolding fl unfolding ph by (auto simp: example_exec_def)
  have at: "KERNBASE \<le> x_ph example_exec" "x_ph example_exec + 56 \<le> KERNTOP"
    using kva_eq [of 800] kva_0 by (simp_all add: example_exec_def KERNBASE_def KERNTOP_def KMEMSIZE_def PGSIZE_def)
  have cl: "clear_area (mem exec_kernel) 0 [(600, 10)] {x_ph example_exec..<x_ph example_exec + 56}"
  proof -
    have "{kva 800..<kva 800 + 56} \<inter> frame_area q = {}" if "q \<noteq> 800" for q using kva_areas that by simp
    then show ?thesis by (auto simp: clear_area_def exec_kernel_def exec_vm_tab example_exec_def block_pages_def)
  qed
  have cb: "buf_area example_exec \<inter> {x_ph example_exec..<x_ph example_exec + 56} = {}"
  proof -
    have "x_ph example_exec = kva 800" by (simp add: example_exec_def)
    then show ?thesis unfolding exec_buf_area using kva_eq [of 800] kva_eq [of 700] by (auto simp: PGSIZE_def)
  qed
  have un: "pte_at (frames (mem exec_kernel)) 0 a AND PTE_V = 0" for a
    by (simp add: exec_kernel_def exec_vm_def pte_at_def sub_table_def)
  have sz: "0 + 56 * 0 + 56 \<le> length ?data" "p_offset ph + p_filesz ph \<le> length ?data" "p_va ph + p_memsz ph \<le> USERTOP" "p_filesz ph \<le> p_memsz ph" "p_type ph = ELF_PT_LOAD"
    using length_exec_header by (simp_all add: ph USERTOP_def ELF_PT_LOAD_def)
  have b: "seg_byte ?data 0x800010 4 56 0x800012 = 3" "seg_byte ?data 0x800010 4 56 0x800014 = 0"
    by (simp_all add: seg_byte_def exec_header_def nth_append)
  obtain ret k' where "load_segment example_exec 3 0 0 ?mm exec_kernel = Some (ret, mm', k')"
      "ret = - E_NO_MEM \<or> ret = 0 \<and> (\<forall>a. 0x800000 \<le> a \<and> a < 0x801000 \<longrightarrow>
         loaded example_exec (mem k') 0 (seg_perm (VM_WRITE OR VM_READ)) a (seg_byte ?data 0x800010 4 56 a))"
    using load_segment_correct [OF exec_loader_ok exec_kernel_open at cl cb sz(1) ph_def sz(5,4,2,3) mm, unfolded p(1,2) fl, unfolded ph] un by blast
  moreover have "loaded example_exec m 0 pm 0x800012 3 \<and> loaded example_exec m 0 pm 0x800014 0"
    if "\<forall>a. 0x800000 \<le> a \<and> a < 0x801000 \<longrightarrow> loaded example_exec m 0 pm a (seg_byte ?data 0x800010 4 56 a)" for m pm
    using that [rule_format, of "0x800012"] that [rule_format, of "0x800014"] unfolding b by simp
  ultimately show ?thesis by blast
qed

end
