(* ===== verification/Fork.thy ===== *)
theory Fork
  imports Proc
begin

text \<open>
  A fork as a whole: from the free process structure to the runnable child with its identifier, links, kernel stack and file table.
\<close>

section \<open>A successful fork\<close>

lemma refill_procs:
  "\<exists>t. procs (upd_proc p (\<lambda>q. q\<lparr>rq := True\<rparr>) (refill_slice p x)) = (procs x)(p := (procs x p)\<lparr>time_slice := t, rq := True\<rparr>)"
proof (cases "time_slice (procs x p) = 0 \<or> time_slice (procs x p) > max_time_slice x")
  case True
  then show ?thesis by (intro exI [of _ "max_time_slice x"]) (simp add: refill_slice_def)
next
  case False
  have "(procs x p)\<lparr>time_slice := time_slice (procs x p), rq := True\<rparr> = (procs x p)\<lparr>rq := True\<rparr>" by (cases "procs x p") simp
  then show ?thesis using False by (intro exI [of _ "time_slice (procs x p)"]) (simp add: refill_slice_def)
qed

lemma RR_enqueue_new:
  assumes inv: "rr_inv s ps" and p: "p \<notin> set ps" and len: "length ps + 1 < 2 ^ 32"
  shows "\<exists>s' t. RR_enqueue p s = Some s' \<and> rr_inv s' (ps @ [p]) \<and> procs s' = (procs s)(p := (procs s p)\<lparr>time_slice := t, rq := True\<rparr>) \<and>
    current s' = current s \<and> idleproc s' = idleproc s \<and> timer_list s' = timer_list s"
proof -
  obtain s' where s': "RR_enqueue p s = Some s'" "rr_inv s' (ps @ [p])" "sched_frame s s'" using RR_enqueue_spec [OF assms] by blast
  let ?x = "s\<lparr>run_links := list_add_before RunList (RunLink p) (run_links s)\<rparr>"
  have "procs s' = procs (upd_proc p (\<lambda>q. q\<lparr>rq := True\<rparr>) (refill_slice p ?x))"
    using s'(1) by (auto simp: RR_enqueue_def Let_def bind_kassert_eq_Some)
  moreover obtain t where "procs (upd_proc p (\<lambda>q. q\<lparr>rq := True\<rparr>) (refill_slice p ?x)) = (procs ?x)(p := (procs ?x p)\<lparr>time_slice := t, rq := True\<rparr>)"
    using refill_procs by blast
  moreover have "procs ?x = procs s" by simp
  moreover have "current s' = current s" "idleproc s' = idleproc s" "timer_list s' = timer_list s" using s'(3) by (simp_all add: sched_frame_def)
  ultimately show ?thesis using s'(1,2) by metis
qed

text \<open>Initialising the link of a process outside the queue, and its structure.\<close>

lemma rr_inv_new_proc:
  assumes inv: "rr_inv s ps" and p: "p \<notin> set ps"
    and s': "run_links s' = list_init (RunLink p) (run_links s)" "\<forall>q\<in>set ps. rq (procs s' q) = rq (procs s q)" "proc_num s' = proc_num s"
  shows "rr_inv s' ps"
proof -
  have i: "l_next (list_init (RunLink p) h) = (l_next h)(RunLink p := RunLink p)" "l_prev (list_init (RunLink p) h) = (l_prev h)(RunLink p := RunLink p)" for h
    by (simp_all add: list_init_def set_prev_def set_next_def)
  have "dlist (run_links s') RunList (map RunLink ps)" unfolding s'(1)
    by (rule dlist_frame [of "run_links s"]) (use inv p in \<open>auto simp: rr_inv_def i\<close>)
  moreover have "list_empty (RunLink q) (run_links s')" if "q \<notin> set ps" for q
    using inv that unfolding s'(1) by (simp add: rr_inv_def list_empty_def i)
  ultimately show ?thesis using inv s' by (simp add: rr_inv_def)
qed

text \<open>A kernel in which the current process can fork a thread: it may share its memory, its file table is well-formed, there are fewer processes than
  the limit and pages for a kernel stack, and \<open>c\<close> is the address of a new process structure.\<close>

definition can_fork :: "kernel \<Rightarrow> nat list \<Rightarrow> (nat \<times> nat) list \<Rightarrow> 32 word \<Rightarrow> nat \<Rightarrow> bool" where
  "can_fork k ps bs flags c \<longleftrightarrow>
     rr_inv (sched k) ps \<and> length ps + 1 < 2 ^ 32 \<and>
     c \<notin> set ps \<and> c \<noteq> cur k \<and> c \<noteq> idleproc (sched k) \<and> c \<notin> set (proc_list k) \<and> cptr (proc k (cur k)) \<noteq> Some c \<and>
     nr_process k < MAX_PROCESS \<and> pid_ok (pids k) k \<and> int (length (proc_list k)) < MAX_PID - 1 \<and> wait_state (proc k (cur k)) = 0 \<and>
     pmm_inv (pmm (mem k)) bs \<and> (\<exists>b\<in>set bs. KSTACKPAGE \<le> snd b) \<and> (\<forall>i\<in>block_pages bs. page2ppn i < npage (mem k)) \<and>
     (case p_mm (proc k (cur k)) of None \<Rightarrow> True
      | Some a \<Rightarrow> flags AND CLONE_VM \<noteq> 0 \<and> (\<exists>mm dir. mms k a = Some mm \<and> pgdir mm = Some dir)) \<and>
     flags AND CLONE_FS = 0 \<and> (\<exists>fa fs. filesp (proc k (cur k)) = Some fa \<and> ftabs k fa = Some fs \<and> files_ok (kvfs k) fs)"

lemma setup_kstack_some:
  assumes "pmm_inv (pmm (mem k)) bs" "\<exists>b\<in>set bs. KSTACKPAGE \<le> snd b" "\<forall>i\<in>block_pages bs. page2ppn i < npage (mem k)"
  shows "\<exists>b pm. setup_kstack p k = Some (0, set_proc p (\<lambda>x. x\<lparr>kstack := b\<rparr>) (k\<lparr>mem := (mem k)\<lparr>pmm := pm\<rparr>\<rparr>))"
proof -
  have "0 < KSTACKPAGE" by (simp add: KSTACKPAGE_def)
  then obtain b pm bs' where h: "default_alloc_pages KSTACKPAGE (pmm (mem k)) = Some (Some b, pm)" "{b..<b + KSTACKPAGE} \<subseteq> block_pages bs"
    using ff.alloc_some [OF assms(1) _ assms(2)] by blast
  then have "b \<in> block_pages bs" using \<open>0 < KSTACKPAGE\<close> by auto
  then have "page2ppn b < npage (mem k)" using assms(3) by blast
  then show ?thesis using h(1) by (intro exI [of _ b] exI [of _ pm]) (simp add: setup_kstack_def page2kva_def kassert_def ppn_pa)
qed

text \<open>The parts of \<open>do_fork\<close> for the new process \<open>c\<close>, each with what the next one needs.\<close>

lemma copy_mm_shared:
  assumes "case p_mm (proc k (cur k)) of None \<Rightarrow> True | Some a \<Rightarrow> flags AND CLONE_VM \<noteq> 0 \<and> (\<exists>mm dir. mms k a = Some mm \<and> pgdir mm = Some dir)"
  shows "\<exists>f ms. copy_mm ok ks a flags c k = Some (0, set_proc c f (k\<lparr>mms := ms\<rparr>)) \<and>
    (\<forall>x. p_mm (f x) = (case p_mm (proc k (cur k)) of None \<Rightarrow> p_mm x | Some a \<Rightarrow> Some a) \<and> state (f x) = state x \<and> parent (f x) = parent x \<and> pid (f x) = pid x \<and>
       rq (f x) = rq x \<and> wait_state (f x) = wait_state x \<and> kstack (f x) = kstack x \<and> optr (f x) = optr x \<and> cptr (f x) = cptr x \<and> filesp (f x) = filesp x)"
proof (cases "p_mm (proc k (cur k))")
  case None
  then show ?thesis by (intro exI [of _ "\<lambda>x. x"] exI [of _ "mms k"]) (simp add: copy_mm_def set_proc_def upd_proc_def)
next
  case (Some b)
  then obtain mm dir where "flags AND CLONE_VM \<noteq> 0" "mms k b = Some mm" "pgdir mm = Some dir" using assms by auto
  then show ?thesis using Some
    by (intro exI [of _ "\<lambda>x. x\<lparr>p_mm := Some b, p_pgdir := page2pa dir\<rparr>"] exI [of _ "(mms k)(b \<mapsto> mm\<lparr>mm_count := mm_count mm + 1\<rparr>)"])
      (simp add: copy_mm_def good_mm_def)
qed

lemma copy_files_some:
  assumes "flags AND CLONE_FS = 0" "filesp (proc k (cur k)) = Some fa" "ftabs k fa = Some fs" "files_ok (kvfs k) fs" "length junk = FILES_STRUCT_NENTRY"
  shows "\<exists>fs' v. copy_files True junk a flags c k = Some (0, good_files_struct c a fs' (k\<lparr>kvfs := v\<rparr>)) \<and> pwd fs' = pwd fs \<and>
    fd_array fs' = map2 Files.mirror (fd_array_init junk) (fd_array fs)"
proof -
  let ?to = "\<lparr>pwd = None, fd_array = fd_array_init junk, files_count = 0\<rparr>"
  have c: "files_create True junk = Some ?to" by (simp add: files_create_def)
  then obtain to' v' where "dup_files ?to fs (kvfs k) = Some (0, to', v')" "pwd to' = pwd fs" "fd_array to' = map2 Files.mirror (fd_array ?to) (fd_array fs)"
    using dup_files_bump [OF c assms(5,4)] by blast
  then show ?thesis using assms(1-3) c by (intro exI [of _ to'] exI [of _ v']) (simp add: copy_files_def)
qed

lemma find_hash_new: "0 < n \<Longrightarrow> n < MAX_PID \<Longrightarrow> pid (proc k c) = n \<Longrightarrow> proc_hash k (pid_hashfn n) = c # ys \<Longrightarrow> find_proc n k = Some c"
  by (simp add: find_proc_def)

text \<open>What is true of the kernel after a fork.\<close>

definition forked :: "kernel \<Rightarrow> nat list \<Rightarrow> nat \<Rightarrow> int \<Rightarrow> nat \<Rightarrow> kernel \<Rightarrow> bool" where
  "forked k ps c n fa k' \<longleftrightarrow>
     1 \<le> n \<and> n < MAX_PID \<and> n \<notin> pids k \<and> find_proc n k' = Some c \<and>
     state (proc k' c) = PROC_RUNNABLE \<and> parent (proc k' c) = Some (cur k) \<and> p_mm (proc k' c) = p_mm (proc k (cur k)) \<and>
     rr_inv (sched k') (ps @ [c]) \<and> cur k' = cur k \<and>
     cptr (proc k' (cur k)) = Some c \<and> optr (proc k' c) = cptr (proc k (cur k)) \<and> proc_list k' = c # proc_list k \<and> nr_process k' = nr_process k + 1 \<and>
     (\<exists>fs fs' f. filesp (proc k (cur k)) = Some f \<and> ftabs k f = Some fs \<and> filesp (proc k' c) = Some fa \<and> ftabs k' fa = Some fs' \<and> pwd fs' = pwd fs) \<and>
     (\<forall>q. q \<noteq> c \<longrightarrow> q \<noteq> cur k \<longrightarrow> Some q \<noteq> cptr (proc k (cur k)) \<longrightarrow> proc k' q = proc k q)"

lemma do_fork_spec:
  assumes can: "can_fork k ps bs flags c" and al: "fa_proc fal = Some c" "fa_files_ok fal" "length (fa_junk fal) = FILES_STRUCT_NENTRY"
  shows "\<exists>n k'. do_fork default_sched_class fal flags k = Some (n, k') \<and> forked k ps c n (fa_files fal) k'"
proof -
  let ?p = "cur k"
  have rr: "rr_inv (sched k) ps" "length ps + 1 < 2 ^ 32" and c: "c \<notin> set ps" "c \<noteq> ?p" "c \<noteq> idleproc (sched k)" "c \<notin> set (proc_list k)" "cptr (proc k ?p) \<noteq> Some c"
    and lim: "nr_process k < MAX_PROCESS" "pid_ok (pids k) k" "int (length (proc_list k)) < MAX_PID - 1" "wait_state (proc k ?p) = 0"
    and mem: "pmm_inv (pmm (mem k)) bs" "\<exists>b\<in>set bs. KSTACKPAGE \<le> snd b" "\<forall>i\<in>block_pages bs. page2ppn i < npage (mem k)"
    and mm: "case p_mm (proc k ?p) of None \<Rightarrow> True | Some a \<Rightarrow> flags AND CLONE_VM \<noteq> 0 \<and> (\<exists>mm dir. mms k a = Some mm \<and> pgdir mm = Some dir)"
    using can by (simp_all add: can_fork_def)
  obtain f0 fs where fl: "flags AND CLONE_FS = 0" "filesp (proc k ?p) = Some f0" "ftabs k f0 = Some fs" "files_ok (kvfs k) fs" using can by (auto simp: can_fork_def)
  obtain k0 where k0: "alloc_proc (Some c) k = (Some c, k0)" by (simp add: alloc_proc_def)
  define k1 where "k1 = set_proc c (\<lambda>x. x\<lparr>parent := Some (cur k0)\<rparr>) k0"
  have a0: "cur k0 = ?p" "mem k0 = mem k" "mms k0 = mms k" "ftabs k0 = ftabs k" "kvfs k0 = kvfs k" "proc_list k0 = proc_list k" "proc_hash k0 = proc_hash k"
      "nr_process k0 = nr_process k" "last_pid k0 = last_pid k" "next_safe k0 = next_safe k" "idleproc (sched k0) = idleproc (sched k)"
      "run_links (sched k0) = list_init (RunLink c) (run_links (sched k))" "proc_num (sched k0) = proc_num (sched k)"
      "\<And>q. q \<noteq> c \<Longrightarrow> proc k0 q = proc k q" "state (proc k0 c) = PROC_UNINIT" "p_mm (proc k0 c) = None" "wait_state (proc k0 c) = 0"
    using k0 by (auto simp: alloc_proc_def set_proc_def upd_proc_def)
  have a1: "cur k1 = ?p" "mem k1 = mem k" "mms k1 = mms k" "ftabs k1 = ftabs k" "kvfs k1 = kvfs k" "proc_list k1 = proc_list k" "proc_hash k1 = proc_hash k"
      "nr_process k1 = nr_process k" "last_pid k1 = last_pid k" "next_safe k1 = next_safe k" "idleproc (sched k1) = idleproc (sched k)"
      "run_links (sched k1) = list_init (RunLink c) (run_links (sched k))" "proc_num (sched k1) = proc_num (sched k)"
      "\<And>q. q \<noteq> c \<Longrightarrow> proc k1 q = proc k q" "state (proc k1 c) = PROC_UNINIT" "p_mm (proc k1 c) = None" "parent (proc k1 c) = Some ?p"
    using a0 by (simp_all add: k1_def set_proc_def upd_proc_def)
  obtain b pm where s: "setup_kstack c k1 = Some (0, set_proc c (\<lambda>x. x\<lparr>kstack := b\<rparr>) (k1\<lparr>mem := (mem k1)\<lparr>pmm := pm\<rparr>\<rparr>))"
    using setup_kstack_some [of k1 bs c] mem unfolding a1 by blast
  define k2 where "k2 = set_proc c (\<lambda>x. x\<lparr>kstack := b\<rparr>) (k1\<lparr>mem := (mem k1)\<lparr>pmm := pm\<rparr>\<rparr>)"
  have a2: "cur k2 = ?p" "mms k2 = mms k" "ftabs k2 = ftabs k" "kvfs k2 = kvfs k" "proc_list k2 = proc_list k" "proc_hash k2 = proc_hash k"
      "nr_process k2 = nr_process k" "last_pid k2 = last_pid k" "next_safe k2 = next_safe k" "idleproc (sched k2) = idleproc (sched k)"
      "run_links (sched k2) = list_init (RunLink c) (run_links (sched k))" "proc_num (sched k2) = proc_num (sched k)"
      "\<And>q. q \<noteq> c \<Longrightarrow> proc k2 q = proc k q" "state (proc k2 c) = PROC_UNINIT" "p_mm (proc k2 c) = None" "parent (proc k2 c) = Some ?p"
    using a1 by (simp_all add: k2_def set_proc_def upd_proc_def)
  have mm2: "case p_mm (proc k2 (cur k2)) of None \<Rightarrow> True | Some a \<Rightarrow> flags AND CLONE_VM \<noteq> 0 \<and> (\<exists>mm dir. mms k2 a = Some mm \<and> pgdir mm = Some dir)"
    using mm c(2) a2 by (simp split: option.splits)
  obtain f ms where cm: "copy_mm (fa_mm_ok fal) (fa_vmas fal) (fa_mm fal) flags c k2 = Some (0, set_proc c f (k2\<lparr>mms := ms\<rparr>))"
      "\<forall>x. p_mm (f x) = (case p_mm (proc k2 (cur k2)) of None \<Rightarrow> p_mm x | Some a \<Rightarrow> Some a) \<and> state (f x) = state x \<and> parent (f x) = parent x \<and> pid (f x) = pid x \<and>
       rq (f x) = rq x \<and> wait_state (f x) = wait_state x \<and> kstack (f x) = kstack x \<and> optr (f x) = optr x \<and> cptr (f x) = cptr x \<and> filesp (f x) = filesp x"
    using copy_mm_shared [OF mm2] by blast
  define k3 where "k3 = set_proc c f (k2\<lparr>mms := ms\<rparr>)"
  have pm3: "p_mm (proc k3 c) = p_mm (proc k ?p)" using cm(2) a2 c(2) by (auto simp: k3_def set_proc_def upd_proc_def split: option.split)
  have a3: "cur k3 = ?p" "ftabs k3 = ftabs k" "kvfs k3 = kvfs k" "proc_list k3 = proc_list k" "proc_hash k3 = proc_hash k"
      "nr_process k3 = nr_process k" "last_pid k3 = last_pid k" "next_safe k3 = next_safe k" "idleproc (sched k3) = idleproc (sched k)"
      "run_links (sched k3) = list_init (RunLink c) (run_links (sched k))" "proc_num (sched k3) = proc_num (sched k)"
      "\<And>q. q \<noteq> c \<Longrightarrow> proc k3 q = proc k q" "state (proc k3 c) = PROC_UNINIT" "parent (proc k3 c) = Some ?p"
    using a2 cm(2) by (simp_all add: k3_def set_proc_def upd_proc_def)
  have pp: "pids k3 = pids k" unfolding pids_def a3(4) using c(4) by (intro image_cong) (auto intro!: arg_cong [where f = pid] a3(12))
  have "pid_ok (pids k3) k3" using lim(2) unfolding pp by (simp add: pid_ok_def a3(7,8))
  then obtain n k4 where g: "get_pid k3 = Some (n, k4)" "1 \<le> n" "n < MAX_PID" "n \<notin> pids k" "k4 = k3\<lparr>last_pid := n, next_safe := next_safe k4\<rparr>"
    using get_pid_unused [of k3] lim(3) unfolding pp a3(4) by blast
  define k5 where "k5 = hash_proc c (set_proc c (\<lambda>x. x\<lparr>pid := n\<rparr>) k4)"
  have k4: "sched k4 = sched k3" "ftabs k4 = ftabs k3" "kvfs k4 = kvfs k3" "proc_list k4 = proc_list k3" "proc_hash k4 = proc_hash k3" "nr_process k4 = nr_process k3"
    by (subst g(5), simp)+
  have a5: "cur k5 = ?p" "ftabs k5 = ftabs k" "kvfs k5 = kvfs k" "proc_list k5 = proc_list k" "proc_hash k5 (pid_hashfn n) = c # proc_hash k (pid_hashfn n)"
      "nr_process k5 = nr_process k" "idleproc (sched k5) = idleproc (sched k)"
      "run_links (sched k5) = list_init (RunLink c) (run_links (sched k))" "proc_num (sched k5) = proc_num (sched k)"
      "\<And>q. q \<noteq> c \<Longrightarrow> proc k5 q = proc k q" "state (proc k5 c) = PROC_UNINIT" "parent (proc k5 c) = Some ?p" "pid (proc k5 c) = n" "p_mm (proc k5 c) = p_mm (proc k ?p)"
    using a3 pm3 by (simp_all add: k5_def hash_proc_def set_proc_def upd_proc_def k4 Let_def)
  define k6 where "k6 = the (set_links c k5)"
  have l: "set_links c k5 = Some k6" using a5(12) by (simp add: k6_def set_links_def set_proc_def upd_proc_def Let_def)
  have a6: "cur k6 = ?p" "ftabs k6 = ftabs k" "kvfs k6 = kvfs k" "proc_list k6 = c # proc_list k" "proc_hash k6 (pid_hashfn n) = c # proc_hash k (pid_hashfn n)"
      "nr_process k6 = nr_process k + 1" "idleproc (sched k6) = idleproc (sched k)"
      "run_links (sched k6) = list_init (RunLink c) (run_links (sched k))" "proc_num (sched k6) = proc_num (sched k)"
      "state (proc k6 c) = PROC_UNINIT" "parent (proc k6 c) = Some ?p" "pid (proc k6 c) = n" "p_mm (proc k6 c) = p_mm (proc k ?p)"
      "cptr (proc k6 ?p) = Some c" "optr (proc k6 c) = cptr (proc k ?p)" "filesp (proc k6 ?p) = filesp (proc k ?p)"
    using a5 c(2,5) unfolding k6_def by (auto simp: set_links_def set_proc_def upd_proc_def Let_def split: option.split)
  have o6: "proc k6 q = proc k q" if "q \<noteq> c" "q \<noteq> ?p" "Some q \<noteq> cptr (proc k ?p)" for q
    using that a5 c(2) unfolding k6_def by (auto simp: set_links_def set_proc_def upd_proc_def Let_def split: option.split)
  have r6: "rq (proc k6 q) = rq (proc k q)" if "q \<noteq> c" for q
    using that a5 c(2) unfolding k6_def by (auto simp: set_links_def set_proc_def upd_proc_def Let_def split: option.split)
  let ?s = "upd_proc c (\<lambda>q. q\<lparr>state := PROC_RUNNABLE, wait_state := 0\<rparr>) (sched k6)"
  have rq: "\<forall>q\<in>set ps. rq (procs ?s q) = rq (proc k q)" using c(1) r6 by (auto simp: upd_proc_def)
  have "rr_inv ?s ps" by (rule rr_inv_new_proc [OF rr(1) c(1) _ rq]) (simp_all add: upd_proc_def a6)
  then obtain s7 t where e: "RR_enqueue c ?s = Some s7" "rr_inv s7 (ps @ [c])" "procs s7 = (procs ?s)(c := (procs ?s c)\<lparr>time_slice := t, rq := True\<rparr>)"
      "current s7 = current ?s" "idleproc s7 = idleproc ?s"
    using RR_enqueue_new [OF _ c(1) rr(2)] by blast
  let ?k7 = "k6\<lparr>sched := s7\<rparr>"
  have w: "k_wakeup default_sched_class c k6 = Some ?k7"
    using e(1) a6(1,7,10) c(2,3) by (simp add: k_wakeup_def wakeup_proc_def kassert_def Let_def sched_class_enqueue_def default_sched_class_def upd_proc_def)
  have a7: "cur ?k7 = ?p" "state (proc ?k7 c) = PROC_RUNNABLE" "parent (proc ?k7 c) = Some ?p" "pid (proc ?k7 c) = n" "p_mm (proc ?k7 c) = p_mm (proc k ?p)"
      "cptr (proc ?k7 ?p) = Some c" "optr (proc ?k7 c) = cptr (proc k ?p)" "filesp (proc ?k7 ?p) = Some f0"
      "\<And>q. q \<noteq> c \<Longrightarrow> proc ?k7 q = proc k6 q"
    using a6 c(2) e(3,4) fl(2) by (simp_all add: upd_proc_def)
  obtain fs' v where cf: "copy_files True (fa_junk fal) (fa_files fal) flags c ?k7 = Some (0, good_files_struct c (fa_files fal) fs' (?k7\<lparr>kvfs := v\<rparr>))" "pwd fs' = pwd fs"
    using copy_files_some [of flags ?k7 f0 fs "fa_junk fal" "fa_files fal" c] fl al(3) a6(2,3) a7(1,8) by auto
  define k8 where "k8 = good_files_struct c (fa_files fal) fs' (?k7\<lparr>kvfs := v\<rparr>)"
  have a8: "cur k8 = ?p" "state (proc k8 c) = PROC_RUNNABLE" "parent (proc k8 c) = Some ?p" "pid (proc k8 c) = n" "p_mm (proc k8 c) = p_mm (proc k ?p)"
      "cptr (proc k8 ?p) = Some c" "optr (proc k8 c) = cptr (proc k ?p)" "\<And>q. q \<noteq> c \<Longrightarrow> proc k8 q = proc k6 q"
      "proc_list k8 = c # proc_list k" "nr_process k8 = nr_process k + 1" "proc_hash k8 (pid_hashfn n) = c # proc_hash k (pid_hashfn n)"
      "filesp (proc k8 c) = Some (fa_files fal)" "ftabs k8 (fa_files fal) = Some (fs'\<lparr>files_count := files_count fs' + 1\<rparr>)"
    using a7 a6(4,5,6) c(2) by (simp_all add: k8_def good_files_struct_def set_proc_def upd_proc_def)
  have "same_queues s7 (sched k8)" by (simp add: same_queues_def k8_def good_files_struct_def)
  then have "rr_inv (sched k8) (ps @ [c])" using rr_inv_cong [OF e(2)] by blast
  note rr8 = this
  have fp: "find_proc n k8 = Some c" by (rule find_hash_new [OF _ g(3) a8(4,11)]) (use g(2) in simp)
  have k1: "set_proc c (\<lambda>x. x\<lparr>parent := Some ?p\<rparr>) k0 = k1" using a0(1) by (simp add: k1_def)
  have df: "do_fork default_sched_class fal flags k = Some (n, k8)"
    using lim(1,4) k0 al(1,2) a0(1) a0(14) [of ?p] c(2) s cm(1) g(1) l w cf(1)
    by (simp add: do_fork_def k1 k2_def [symmetric] k3_def [symmetric] k5_def [symmetric] k8_def [symmetric] kassert_def Let_def)
  have "proc k8 q = proc k q" if "q \<noteq> c" "q \<noteq> ?p" "Some q \<noteq> cptr (proc k ?p)" for q using o6 [OF that] a8(8) that(1) by simp
  then show ?thesis using df rr8 fp a8 g(2-4) fl(2,3) cf(2) unfolding forked_def
    by (intro exI [of _ n] exI [of _ k8]) simp
qed


text \<open>A thread with processes 2 and 3 in the run queue.\<close>

definition thread_kernel :: kernel where
  "thread_kernel = example_kernel\<lparr>sched := demo_sched\<lparr>procs := (\<lambda>_. demo_proc\<lparr>pid := 1, filesp := Some 0\<rparr>)\<rparr>, proc_list := [1],
     ftabs := [0 \<mapsto> example_files], kvfs := example_nodes\<rparr>"

definition thread_alloc :: fork_alloc where
  "thread_alloc = \<lparr>fa_proc = Some 7, fa_mm_ok = True, fa_vmas = [], fa_mm = 70, fa_files_ok = True, fa_junk = replicate 72 closed_file, fa_files = 71\<rparr>"

lemma thread_can_fork: "can_fork thread_kernel [2, 3] [(1, 9)] 0 7"
proof -
  have p: "pids thread_kernel = {1}" by (auto simp: pids_def thread_kernel_def)
  have rr: "rr_inv (sched thread_kernel) [2, 3]"
    using demo_sched_inv by (simp add: rr_inv_def thread_kernel_def demo_sched_def demo_proc_def)
  have v: "pmm_inv (pmm (mem thread_kernel)) [(1, 9)]" "\<forall>i\<in>block_pages [(1, 9)]. page2ppn i < npage (mem thread_kernel)"
    using demo_vm_inv by (simp_all add: vm_inv_def thread_kernel_def example_kernel_def)
  have f: "filesp (proc thread_kernel (cur thread_kernel)) = Some 0" "ftabs thread_kernel 0 = Some example_files" "kvfs thread_kernel = example_nodes"
    "p_mm (proc thread_kernel (cur thread_kernel)) = None" "cptr (proc thread_kernel (cur thread_kernel)) = None" "wait_state (proc thread_kernel (cur thread_kernel)) = 0"
    "cur thread_kernel = 1" "idleproc (sched thread_kernel) = 0" "proc_list thread_kernel = [1]" "nr_process thread_kernel = 5"
    by (simp_all add: thread_kernel_def example_kernel_def demo_sched_def demo_proc_def)
  have "pid_ok (pids thread_kernel) thread_kernel" unfolding p by (simp add: pid_ok_def thread_kernel_def example_kernel_def MAX_PID_def MAX_PROCESS_def)
  then show ?thesis using rr v f example_files_ok by (simp add: can_fork_def MAX_PID_def MAX_PROCESS_def KSTACKPAGE_def)
qed


end
