(* ===== verification/Trap.thy ===== *)
theory Trap
  imports Exec Fork Console
begin

text \<open>
  System calls and traps (\<open>kern/syscall/syscall.c\<close>, \<open>kern/trap/trap.c\<close>). The state \<open>machine\<close> joins the kernel with its devices and with the
  memory and the saved registers of each process; a trap takes the frame of the interrupted code and ends with the frame from which the processor
  goes on, or with another process running. The memory of a program is kept per address space as the program sees it; it is copied at a fork
  and read through the page table after \<open>exec\<close>.
\<close>

section \<open>The machine\<close>

text \<open>
  The kernel with its devices: wait queues and semaphores, the number of clock ticks, the console's input buffer, the standard input with its
  wait queue, what went to the screen, the device table and boot file system, the memory of each address space as its programs see it, and for
  each process the frame that \<open>current->tf\<close> points to while it is in the kernel.
\<close>

record machine =
  krn :: kernel
  syn :: sync_state
  ticks :: nat
  cin :: cons_buf
  kbd :: stdin_dev
  kbd_queue :: nat
  scr :: bytes
  vdevs :: "vfs_dev_t list"
  bootfs :: "nat option"
  umem :: "nat \<Rightarrow> memory"
  frame :: "nat \<Rightarrow> trapframe"

definition user_mem :: "machine \<Rightarrow> memory" where
  "user_mem m = (case p_mm (proc (krn m) (cur (krn m))) of None \<Rightarrow> (\<lambda>_. 0) | Some a \<Rightarrow> umem m a)"

definition put_user_mem :: "memory \<Rightarrow> machine \<Rightarrow> machine" where
  "put_user_mem um m =
     (case p_mm (proc (krn m) (cur (krn m))) of
        None \<Rightarrow> m
      | Some a \<Rightarrow> m\<lparr>umem := (umem m)(a := (\<lambda>x. if x < kva 0 then um x else umem m a x))\<rparr>)"

text \<open>What the environment decides during a system call: the outcomes of allocations, the devices, the addresses of local variables of the
  kernel, and the address of the forked process's frame.\<close>

record sys_env =
  v_fork :: fork_alloc
  v_frame :: "64 word"
  v_exec :: exec_env
  v_bufs :: "nat \<Rightarrow> nat option"
  v_name :: nat
  v_timer :: nat
  v_kb :: "nat option"
  v_al1 :: inode_alloc
  v_al2 :: inode_alloc
  v_al3 :: inode_alloc
  v_ok :: bool
  v_eok :: "nat \<Rightarrow> bool"
  v_alloc :: "nat \<Rightarrow> inode_alloc"
  v_stat :: nat
  v_io :: device_io

text \<open>A system call returns a code or gives up the processor: waiting for a child, sleeping, or for good.\<close>

datatype parked = Waiting int nat | Sleeping nat | Gone

datatype sys_result = Ret int | Park parked

text \<open>\<open>(int)\<close> of a register.\<close>

definition reg_int :: "64 word \<Rightarrow> int" where
  "reg_int w = sint (ucast w :: 32 word)"

definition reg_u32 :: "64 word \<Rightarrow> 32 word" where
  "reg_u32 w = ucast w"

section \<open>The system calls (syscall.c)\<close>

type_synonym handler = "sched_class \<Rightarrow> sys_env \<Rightarrow> 64 word list \<Rightarrow> machine \<Rightarrow> (sys_result \<times> machine) option"

definition sys_exit :: handler where
  "sys_exit cls env arg m = do { k \<leftarrow> do_exit cls (reg_int (arg ! 0)) (krn m); Some (Park Gone, m\<lparr>krn := k\<rparr>) }"

text \<open>The child starts with a copy of the frame and of the memory.\<close>

definition sys_fork :: handler where
  "sys_fork cls env arg m = do {
     let tf = frame m (cur (krn m));
     (ret, k) \<leftarrow> do_fork cls (v_fork env) 0 (krn m);
     case fa_proc (v_fork env) of
       Some p \<Rightarrow>
         if ret > 0
         then Some (Ret ret, m\<lparr>krn := k, frame := (frame m)(p := copy_thread (v_frame env) (r_sp (gpr tf)) tf),
                      umem := (umem m)(fa_mm (v_fork env) := user_mem m)\<rparr>)
         else Some (Ret ret, m\<lparr>krn := k\<rparr>)
     | None \<Rightarrow> Some (Ret ret, m\<lparr>krn := k\<rparr>) }"

text \<open>The exit code goes to the caller's memory, if it asked for it.\<close>

definition waited :: "int \<Rightarrow> nat \<Rightarrow> wait_result \<Rightarrow> machine \<Rightarrow> sys_result \<times> machine" where
  "waited n store r m =
     (case r of
        Waited ret code \<Rightarrow>
          (Ret ret, case code of None \<Rightarrow> m | Some c \<Rightarrow> put_user_mem (mem_store store (le_bytes 4 (nat (c mod 2 ^ 32))) (user_mem m)) m)
      | wait_result.Blocked \<Rightarrow> (Park (Waiting n store), m))"

definition sys_wait :: handler where
  "sys_wait cls env arg m = do {
     let n = reg_int (arg ! 0); let store = unat (arg ! 1);
     (r, k) \<leftarrow> do_wait cls n (if store = 0 then None else Some store) (krn m);
     Some (waited n store r (m\<lparr>krn := k\<rparr>)) }"

text \<open>The memory of a program that has just been loaded, through its page table.\<close>

definition loaded_mem :: "vm \<Rightarrow> nat \<Rightarrow> memory" where
  "loaded_mem s dir a = (case pte2page s (pte_at (frames s) dir a) of None \<Rightarrow> 0 | Some p \<Rightarrow> kmem (\<lambda>_. 0) s (kva p + a mod PGSIZE))"

definition sys_exec :: handler where
  "sys_exec cls env arg m = do {
     let c = cur (krn m); let x = (v_exec env)\<lparr>x_um := user_mem m\<rparr>;
     (r, k) \<leftarrow> do_execve cls x (v_name env) (v_bufs env) (v_kb env) (v_al1 env) (v_ok env) (v_al2 env) (v_al3 env)
       \<lparr>vf = kvfs (krn m), vdev_list = vdevs m, bootfs_node = bootfs m\<rparr> (unat (arg ! 0)) (reg_int (arg ! 1)) (unat (arg ! 2)) (krn m);
     case r of
       Returned ret \<Rightarrow> Some (Ret ret, m\<lparr>krn := k\<rparr>)
     | Exited \<Rightarrow> Some (Park Gone, m\<lparr>krn := k\<rparr>)
     | Started tf \<Rightarrow> do {
         a \<leftarrow> x_mm x;
         mm \<leftarrow> mms k a;
         dir \<leftarrow> pgdir mm;
         Some (Ret 0, m\<lparr>krn := k, frame := (frame m)(c := tf), umem := (umem m)(a := loaded_mem (mem k) dir)\<rparr>) } }"

definition sys_yield :: handler where
  "sys_yield cls env arg m = (case do_yield (krn m) of (ret, k) \<Rightarrow> Some (Ret ret, m\<lparr>krn := k\<rparr>))"

definition sys_kill :: handler where
  "sys_kill cls env arg m = do { (ret, k) \<leftarrow> do_kill cls (reg_int (arg ! 0)) (krn m); Some (Ret ret, m\<lparr>krn := k\<rparr>) }"

definition sys_getpid :: handler where
  "sys_getpid cls env arg m = Some (Ret (pid (proc (krn m) (cur (krn m)))), m)"

text \<open>A backspace is recognised before the character is cut to a byte.\<close>

definition sys_putc :: handler where
  "sys_putc cls env arg m =
     Some (Ret 0, m\<lparr>scr := scr m @ (if reg_int (arg ! 0) = 8 then cons_putc 8 else [ucast (arg ! 0)])\<rparr>)"

definition sys_pgdir :: handler where
  "sys_pgdir cls env arg m = Some (Ret 0, m)"

definition sys_gettime :: handler where
  "sys_gettime cls env arg m = Some (Ret (sint (word_of_nat (ticks m) * 10 :: 32 word)), m)"

definition sys_lab6_set_priority :: handler where
  "sys_lab6_set_priority cls env arg m = Some (Ret 0, m\<lparr>krn := lab6_set_priority (reg_u32 (arg ! 0)) (krn m)\<rparr>)"

definition sys_sleep :: handler where
  "sys_sleep cls env arg m = do {
     let time = unat (reg_u32 (arg ! 0));
     k \<leftarrow> do_sleep cls (v_timer env) time (krn m);
     Some (if time = 0 then Ret 0 else Park (Sleeping (v_timer env)), m\<lparr>krn := k\<rparr>) }"

text \<open>The system calls on files run on the files, the memory and the address space of the current process.\<close>

definition on_files :: "(ucall \<Rightarrow> fsys \<Rightarrow> (int \<times> ucall \<times> fsys) option) \<Rightarrow> machine \<Rightarrow> (sys_result \<times> machine) option" where
  "on_files f m = do {
     u \<leftarrow> call_of (user_mem m) (krn m);
     (ret, u, fy) \<leftarrow> f u \<lparr>vf = kvfs (krn m), vdev_list = vdevs m, bootfs_node = bootfs m\<rparr>;
     Some (Ret ret, put_user_mem (u_mem u) (m\<lparr>krn := put_call u (vf fy) (krn m), vdevs := vdev_list fy, bootfs := bootfs_node fy\<rparr>)) }"

definition on_vfs :: "(ucall \<Rightarrow> vfs \<Rightarrow> (int \<times> ucall \<times> vfs) option) \<Rightarrow> machine \<Rightarrow> (sys_result \<times> machine) option" where
  "on_vfs f = on_files (\<lambda>u fy. do { (ret, u, v) \<leftarrow> f u (vf fy); Some (ret, u, fy\<lparr>vf := v\<rparr>) })"

definition sys_open :: handler where
  "sys_open cls env arg =
     on_files (sysfile_open (v_kb env) (v_al1 env) (v_ok env) (v_al2 env) (v_al3 env) (unat (arg ! 0)) (reg_u32 (arg ! 1)))"

definition sys_close :: handler where
  "sys_close cls env arg = on_vfs (sysfile_close (reg_int (arg ! 0)))"

definition sys_read :: handler where
  "sys_read cls env arg = on_vfs (sysfile_read (v_kb env) (v_io env) (reg_int (arg ! 0)) (unat (arg ! 1)) (unat (arg ! 2)))"

definition sys_write :: handler where
  "sys_write cls env arg = on_vfs (sysfile_write (v_kb env) (v_io env) (reg_int (arg ! 0)) (unat (arg ! 1)) (unat (arg ! 2)))"

definition sys_seek :: handler where
  "sys_seek cls env arg = on_vfs (sysfile_seek (reg_int (arg ! 0)) (sint (arg ! 1)) (reg_int (arg ! 2)))"

definition sys_fstat :: handler where
  "sys_fstat cls env arg = on_vfs (sysfile_fstat (v_stat env) (reg_int (arg ! 0)) (unat (arg ! 1)))"

definition sys_fsync :: handler where
  "sys_fsync cls env arg = on_vfs (sysfile_fsync (reg_int (arg ! 0)))"

definition sys_getcwd :: handler where
  "sys_getcwd cls env arg = on_files (sysfile_getcwd (v_ok env) (v_eok env) (v_alloc env) (unat (arg ! 0)) (unat (arg ! 1)))"

definition sys_getdirentry :: handler where
  "sys_getdirentry cls env arg = on_vfs (sysfile_getdirentry (v_kb env) (v_ok env) (reg_int (arg ! 0)) (unat (arg ! 1)))"

definition sys_dup :: handler where
  "sys_dup cls env arg = on_vfs (sysfile_dup (reg_int (arg ! 0)) (reg_int (arg ! 1)))"

text \<open>The table \<open>syscalls\<close>, by the numbers of unistd.h.\<close>

definition syscalls :: "(int \<times> handler) list" where
  "syscalls =
     [(1, sys_exit), (2, sys_fork), (3, sys_wait), (4, sys_exec), (10, sys_yield), (12, sys_kill), (18, sys_getpid), (30, sys_putc), (31, sys_pgdir),
      (17, sys_gettime), (255, sys_lab6_set_priority), (11, sys_sleep), (100, sys_open), (101, sys_close), (102, sys_read), (103, sys_write),
      (104, sys_seek), (110, sys_fstat), (111, sys_fsync), (121, sys_getcwd), (128, sys_getdirentry), (130, sys_dup)]"

text \<open>A number outside the table, or of an empty place in it, is a panic. The result goes to the frame that was current at the call.\<close>

definition syscall :: "sched_class \<Rightarrow> sys_env \<Rightarrow> machine \<Rightarrow> (parked option \<times> machine) option" where
  "syscall cls env m = do {
     let p = cur (krn m); let r = gpr (frame m p);
     h \<leftarrow> map_of syscalls (reg_int (r_a0 r));
     (res, m) \<leftarrow> h cls env [r_a1 r, r_a2 r, r_a3 r, r_a4 r, r_a5 r] m;
     case res of
       Ret ret \<Rightarrow> Some (None, m\<lparr>frame := (frame m)(p := set_a0 (word_of_int ret) (frame m p))\<rparr>)
     | Park c \<Rightarrow> Some (Some c, m) }"

section \<open>Traps (trap.c)\<close>

definition IRQ_S_TIMER :: nat where "IRQ_S_TIMER = 5"
definition CAUSE_FETCH_ACCESS :: nat where "CAUSE_FETCH_ACCESS = 1"
definition CAUSE_LOAD_ACCESS :: nat where "CAUSE_LOAD_ACCESS = 5"
definition CAUSE_MISALIGNED_STORE :: nat where "CAUSE_MISALIGNED_STORE = 6"
definition CAUSE_STORE_ACCESS :: nat where "CAUSE_STORE_ACCESS = 7"
definition CAUSE_USER_ECALL :: nat where "CAUSE_USER_ECALL = 8"
definition CAUSE_SUPERVISOR_ECALL :: nat where "CAUSE_SUPERVISOR_ECALL = 9"
definition CAUSE_FETCH_PAGE_FAULT :: nat where "CAUSE_FETCH_PAGE_FAULT = 12"
definition CAUSE_LOAD_PAGE_FAULT :: nat where "CAUSE_LOAD_PAGE_FAULT = 13"
definition CAUSE_STORE_PAGE_FAULT :: nat where "CAUSE_STORE_PAGE_FAULT = 15"

text \<open>All interrupts but the timer's only print a message. \<open>cs\<close> is what the firmware's \<open>console_getchar\<close> returns.\<close>

definition interrupt_handler :: "sched_class \<Rightarrow> int list \<Rightarrow> trapframe \<Rightarrow> machine \<Rightarrow> machine option" where
  "interrupt_handler cls cs tf m =
     (if unat (tf_cause tf) mod 2 ^ 63 = IRQ_S_TIMER
      then do {
        let m = m\<lparr>ticks := u64 (ticks m + 1)\<rparr>;
        s \<leftarrow> run_timer_list cls (sched (krn m));
        let (c, b) = cons_getc cs (cin m);
        (d, sy) \<leftarrow> dev_stdin_write (kbd_queue m) c (kbd m) ((syn m)\<lparr>sch := s\<rparr>);
        Some (m\<lparr>krn := (krn m)\<lparr>sched := sch sy\<rparr>, syn := sy, cin := b, kbd := d\<rparr>) }
      else Some m)"

text \<open>All exceptions but system calls and one panic only print a message.\<close>

definition exception_handler :: "sched_class \<Rightarrow> sys_env \<Rightarrow> trapframe \<Rightarrow> machine \<Rightarrow> (parked option \<times> machine) option" where
  "exception_handler cls env tf m =
     (let c = unat (tf_cause tf); p = cur (krn m) in
      if c = CAUSE_MISALIGNED_STORE then None
      else if c = CAUSE_USER_ECALL \<or> c = CAUSE_SUPERVISOR_ECALL
      then syscall cls env (m\<lparr>frame := (frame m)(p := (frame m p)\<lparr>tf_epc := tf_epc (frame m p) + 4\<rparr>)\<rparr>)
      else Some (None, m))"

definition trap_dispatch :: "sched_class \<Rightarrow> sys_env \<Rightarrow> int list \<Rightarrow> trapframe \<Rightarrow> machine \<Rightarrow> (parked option \<times> machine) option" where
  "trap_dispatch cls env cs tf m =
     (if sint (tf_cause tf) < 0 then do { m \<leftarrow> interrupt_handler cls cs tf m; Some (None, m) }
      else exception_handler cls env tf m)"

text \<open>
  A trap ends with the frame from which the processor goes on with the interrupted code, or another process runs: after a call
  that waits, or, with the frame for later, after the final \<open>schedule\<close>. A frame of user mode is always at the top of the kernel stack, so
  restoring \<open>current->tf\<close> matters for a trap in the kernel only.
\<close>

datatype trap_result = Resume trapframe | Switch "parked option" trapframe

text \<open>The end of a trap of process \<open>p\<close> that came from user mode.\<close>

definition trap_return :: "sched_class \<Rightarrow> trapframe \<Rightarrow> machine \<Rightarrow> (trap_result \<times> machine) option" where
  "trap_return cls tf m =
     (let k = krn m; p = cur k in
      if p_flags (proc k p) AND PF_EXITING \<noteq> 0
      then do { k \<leftarrow> do_exit cls (- E_KILLED) k; Some (Switch (Some Gone) tf, m\<lparr>krn := k\<rparr>) }
      else if need_resched (proc k p)
      then do {
        s \<leftarrow> schedule cls (sched k);
        Some (if current s = p then Resume tf else Switch None tf, m\<lparr>krn := k\<lparr>sched := s\<rparr>\<rparr>) }
      else Some (Resume tf, m))"

definition trap :: "sched_class \<Rightarrow> sys_env \<Rightarrow> int list \<Rightarrow> trapframe \<Rightarrow> machine \<Rightarrow> (trap_result \<times> machine) option" where
  "trap cls env cs tf m = do {
     let p = cur (krn m); let otf = frame m p;
     (r, m) \<leftarrow> trap_dispatch cls env cs tf (m\<lparr>frame := (frame m)(p := tf)\<rparr>);
     let tf' = frame m p;
     case r of
       Some c \<Rightarrow> Some (Switch (Some c) tf', m)
     | None \<Rightarrow>
         if trap_in_kernel tf then Some (Resume tf', m\<lparr>frame := (frame m)(p := otf)\<rparr>)
         else trap_return cls tf' m }"

text \<open>A call that waited goes on when its process runs again: its result goes to the frame, and the trap ends.\<close>

definition park_resume :: "sched_class \<Rightarrow> parked \<Rightarrow> machine \<Rightarrow> (sys_result \<times> machine) option" where
  "park_resume cls c m =
     (case c of
        Waiting n store \<Rightarrow> do {
          let ex = p_flags (proc (krn m) (cur (krn m))) AND PF_EXITING \<noteq> 0;
          (r, k) \<leftarrow> do_wait_resume cls n (store \<noteq> 0) (krn m);
          Some (if ex then (Park Gone, m\<lparr>krn := k\<rparr>) else waited n store r (m\<lparr>krn := k\<rparr>)) }
      | Sleeping tm \<Rightarrow> (case do_sleep_resume tm (krn m) of (ret, k) \<Rightarrow> Some (Ret ret, m\<lparr>krn := k\<rparr>))
      | Gone \<Rightarrow> None)"

definition trap_resume :: "sched_class \<Rightarrow> parked option \<Rightarrow> trapframe \<Rightarrow> machine \<Rightarrow> (trap_result \<times> machine) option" where
  "trap_resume cls c tf m =
     (case c of
        None \<Rightarrow> Some (Resume tf, m)
      | Some c \<Rightarrow> do {
          let p = cur (krn m);
          (r, m) \<leftarrow> park_resume cls c m;
          case r of
            Park c' \<Rightarrow> Some (Switch (Some c') tf, m)
          | Ret ret \<Rightarrow> do {
              let tf' = set_a0 (word_of_int ret) tf; let m = m\<lparr>frame := (frame m)(p := tf')\<rparr>;
              if trap_in_kernel tf then Some (Resume tf', m) else trap_return cls tf' m } })"

section \<open>Frames\<close>

lemma put_user_mem_simps [simp]:
  "krn (put_user_mem um m) = krn m" "frame (put_user_mem um m) = frame m" "ticks (put_user_mem um m) = ticks m" "scr (put_user_mem um m) = scr m"
  by (simp_all add: put_user_mem_def split: option.split)

lemma on_files_frame: "on_files f m = Some (r, m') \<Longrightarrow> frame m' = frame m"
  by (auto simp: on_files_def Option.bind_eq_Some_conv)

lemma waited_frame: "waited n store r m = (res, m') \<Longrightarrow> frame m' = frame m"
  by (auto simp: waited_def split: wait_result.splits option.splits)

text \<open>No system call but \<open>exec\<close> touches the caller's frame, and none but \<open>fork\<close> and \<open>exec\<close> any frame.\<close>

lemma handler_frame:
  assumes "map_of syscalls n = Some h" "h cls env arg m = Some (r, m')" "n \<noteq> 4" "fa_proc (v_fork env) \<noteq> Some p"
  shows "frame m' p = frame m p"
proof -
  have files: "on_files f m = Some (r, m') \<Longrightarrow> frame m' p = frame m p" for f using on_files_frame by simp
  have w: "waited i st x m1 = (r, m') \<Longrightarrow> frame m1 = frame m \<Longrightarrow> frame m' p = frame m p" for i st x m1 using waited_frame by metis
  from assms(1,3) have "h \<in> {sys_exit, sys_fork, sys_wait, sys_yield, sys_kill, sys_getpid, sys_putc, sys_pgdir, sys_gettime, sys_lab6_set_priority, sys_sleep,
      sys_open, sys_close, sys_read, sys_write, sys_seek, sys_fstat, sys_fsync, sys_getcwd, sys_getdirentry, sys_dup}"
    by (auto simp: syscalls_def split: if_splits)
  then show ?thesis using assms(2,4)
    by (elim insertE)
      (auto simp: sys_exit_def sys_fork_def sys_wait_def sys_yield_def sys_kill_def sys_getpid_def sys_putc_def sys_pgdir_def sys_gettime_def
        sys_lab6_set_priority_def sys_sleep_def sys_open_def sys_close_def sys_read_def sys_write_def sys_seek_def sys_fstat_def sys_fsync_def
        sys_getcwd_def sys_getdirentry_def sys_dup_def on_vfs_def Option.bind_eq_Some_conv Let_def split: option.splits if_splits prod.splits
        dest!: files w)
qed

section \<open>System calls through the trap\<close>

definition ecall :: "trapframe \<Rightarrow> bool" where
  "ecall tf \<longleftrightarrow> unat (tf_cause tf) = CAUSE_USER_ECALL \<and> \<not> trap_in_kernel tf"

definition call_args :: "trapframe \<Rightarrow> 64 word list" where
  "call_args tf = (let r = gpr tf in [r_a1 r, r_a2 r, r_a3 r, r_a4 r, r_a5 r])"

text \<open>The frame behind the call instruction.\<close>

definition after_call :: "trapframe \<Rightarrow> trapframe" where
  "after_call tf = tf\<lparr>tf_epc := tf_epc tf + 4\<rparr>"

definition entered :: "trapframe \<Rightarrow> machine \<Rightarrow> machine" where
  "entered tf m = m\<lparr>frame := (frame m)(cur (krn m) := after_call tf)\<rparr>"

lemma ecall_dispatch:
  assumes "ecall tf"
  shows "trap_dispatch cls env cs tf (m\<lparr>frame := (frame m)(cur (krn m) := tf)\<rparr>) = syscall cls env (entered tf m)"
proof -
  have u: "unat (tf_cause tf) = 8" using assms by (simp add: ecall_def CAUSE_USER_ECALL_def)
  then have "tf_cause tf = 8" by (intro unsigned_word_eqI [where ?'a = nat]) simp
  then have "\<not> sint (tf_cause tf) < 0" by simp
  then show ?thesis using u
    by (simp add: trap_dispatch_def exception_handler_def CAUSE_USER_ECALL_def CAUSE_MISALIGNED_STORE_def entered_def after_call_def Let_def)
qed

lemma trap_ecall:
  assumes "ecall tf" "map_of syscalls (reg_int (r_a0 (gpr tf))) = Some h" "h cls env (call_args tf) (entered tf m) = Some (Ret ret, m')"
    and "reg_int (r_a0 (gpr tf)) \<noteq> 4" "fa_proc (v_fork env) \<noteq> Some (cur (krn m))"
  shows "trap cls env cs tf m =
    trap_return cls (set_a0 (word_of_int ret) (after_call tf)) (m'\<lparr>frame := (frame m')(cur (krn m) := set_a0 (word_of_int ret) (after_call tf))\<rparr>)"
proof -
  let ?p = "cur (krn m)"
  have g: "gpr (after_call tf) = gpr tf" by (simp add: after_call_def)
  have e: "frame (entered tf m) ?p = after_call tf" "krn (entered tf m) = krn m" by (simp_all add: entered_def)
  have f: "frame m' ?p = after_call tf" using handler_frame [OF assms(2,3,4,5)] e by simp
  have "syscall cls env (entered tf m) = Some (None, m'\<lparr>frame := (frame m')(?p := set_a0 (word_of_int ret) (after_call tf))\<rparr>)"
    using assms(2,3) f by (simp add: syscall_def e g call_args_def Let_def)
  moreover have "\<not> trap_in_kernel tf" using assms(1) by (simp add: ecall_def)
  ultimately show ?thesis by (simp add: trap_def ecall_dispatch [OF assms(1)] Let_def)
qed

lemma trap_return_resume:
  assumes "p_flags (proc (krn m) (cur (krn m))) AND PF_EXITING = 0" "\<not> need_resched (proc (krn m) (cur (krn m)))"
  shows "trap_return cls tf m = Some (Resume tf, m)"
  using assms by (simp add: trap_return_def Let_def)

lemma set_a0_simps [simp]:
  "tf_epc (set_a0 w tf) = tf_epc tf" "tf_status (set_a0 w tf) = tf_status tf" "tf_cause (set_a0 w tf) = tf_cause tf" "r_a0 (gpr (set_a0 w tf)) = w"
  "r_sp (gpr (set_a0 w tf)) = r_sp (gpr tf)" "set_a0 w (set_a0 v tf) = set_a0 w tf"
  by (simp_all add: set_a0_def)

text \<open>The results of a trap and of its continuations: between them other processes run, so a continuation starts in any machine.\<close>

inductive call_outcome :: "sched_class \<Rightarrow> sys_env \<Rightarrow> int list \<Rightarrow> trapframe \<Rightarrow> machine \<Rightarrow> trap_result \<Rightarrow> bool"
  for cls env cs tf m where
  enter: "trap cls env cs tf m = Some (r, m') \<Longrightarrow> call_outcome cls env cs tf m r"
| continue: "call_outcome cls env cs tf m (Switch (Some c) tf1) \<Longrightarrow> trap_resume cls (Some c) tf1 m1 = Some (r, m') \<Longrightarrow> call_outcome cls env cs tf m r"

text \<open>A result that is fine for the frame \<open>t\<close> at the call: the program goes on behind it with a result in \<open>a0\<close>, or waits with the frame unchanged, or is dead.\<close>

definition kept :: "trapframe \<Rightarrow> trap_result \<Rightarrow> bool" where
  "kept t r = (case r of
     Resume tf' \<Rightarrow> (\<exists>w. tf' = set_a0 w t)
   | Switch None tf' \<Rightarrow> (\<exists>w. tf' = set_a0 w t)
   | Switch (Some c) tf' \<Rightarrow> c = Gone \<or> tf' = t)"

lemma trap_return_kept: "trap_return cls (set_a0 w t) m = Some (r, m') \<Longrightarrow> kept t r"
  by (auto simp: trap_return_def kept_def Let_def Option.bind_eq_Some_conv split: if_splits)

lemma trap_kept:
  assumes "ecall tf" "reg_int (r_a0 (gpr tf)) \<noteq> 4" "fa_proc (v_fork env) \<noteq> Some (cur (krn m))" "trap cls env cs tf m = Some (r, m')"
  shows "kept (after_call tf) r"
proof -
  let ?p = "cur (krn m)"
  have g: "gpr (after_call tf) = gpr tf" by (simp add: after_call_def)
  have e: "frame (entered tf m) ?p = after_call tf" "krn (entered tf m) = krn m" by (simp_all add: entered_def)
  obtain pk m1 where s: "syscall cls env (entered tf m) = Some (pk, m1)"
    using assms(4) by (auto simp: trap_def Let_def ecall_dispatch [OF assms(1)] Option.bind_eq_Some_conv)
  obtain h res m2 where h: "map_of syscalls (reg_int (r_a0 (gpr tf))) = Some h" "h cls env (call_args tf) (entered tf m) = Some (res, m2)"
    using s by (auto simp: syscall_def e g call_args_def Let_def Option.bind_eq_Some_conv)
  show ?thesis
  proof (cases res)
    case (Ret ret)
    then show ?thesis using trap_ecall [OF assms(1) h(1) h(2) [unfolded Ret] assms(2,3)] assms(4) trap_return_kept by metis
  next
    case (Park c)
    have f: "frame m2 ?p = after_call tf" using handler_frame [OF h assms(2,3)] e by simp
    have "syscall cls env (entered tf m) = Some (Some c, m2)" using h Park by (simp add: syscall_def e g call_args_def Let_def)
    then have "trap cls env cs tf m = Some (Switch (Some c) (after_call tf), m2)"
      using f by (simp add: trap_def Let_def ecall_dispatch [OF assms(1)])
    then show ?thesis using assms(4) by (auto simp: kept_def)
  qed
qed

lemma trap_resume_kept:
  assumes "\<not> trap_in_kernel t" "trap_resume cls (Some c) t m = Some (r, m')"
  shows "kept t r"
proof -
  obtain res m1 where p: "park_resume cls c m = Some (res, m1)" using assms(2) by (auto simp: trap_resume_def Option.bind_eq_Some_conv Let_def)
  show ?thesis
  proof (cases res)
    case (Ret ret)
    then show ?thesis using assms p trap_return_kept by (auto simp: trap_resume_def Let_def)
  next
    case (Park c')
    then have "r = Switch (Some c') t" using assms(2) p by (simp add: trap_resume_def Let_def)
    then show ?thesis by (simp add: kept_def)
  qed
qed

lemma park_gone: "trap_resume cls (Some Gone) t m = None"
  by (simp add: trap_resume_def park_resume_def)

text \<open>C17. A system call changes no register of the program but \<open>a0\<close>: whether the call returns at once or gives up the processor and goes on
  later, however often it waits, the frame with which the program continues is the one of its \<open>ecall\<close> with the program counter behind the
  instruction and a result in \<open>a0\<close>; and while the call waits the frame is kept. (The call \<open>exec\<close>, number 4, replaces the program.)\<close>

theorem ecall_keeps_registers:
  assumes "call_outcome cls env cs tf m r" "ecall tf" "reg_int (r_a0 (gpr tf)) \<noteq> 4" "fa_proc (v_fork env) \<noteq> Some (cur (krn m))"
  shows "case r of
      Resume tf' \<Rightarrow> \<exists>w. tf' = set_a0 w (tf\<lparr>tf_epc := tf_epc tf + 4\<rparr>)
    | Switch None tf' \<Rightarrow> \<exists>w. tf' = set_a0 w (tf\<lparr>tf_epc := tf_epc tf + 4\<rparr>)
    | Switch (Some c) tf' \<Rightarrow> c = Gone \<or> tf' = tf\<lparr>tf_epc := tf_epc tf + 4\<rparr>"
proof -
  have "kept (after_call tf) r"
    using assms(1)
  proof (induction rule: call_outcome.induct)
    case (enter r m')
    then show ?case using trap_kept assms(2-4) by blast
  next
    case (continue c tf1 m1 r m')
    have "\<not> trap_in_kernel (after_call tf)" using assms(2) by (simp add: ecall_def after_call_def trap_in_kernel_def)
    then show ?case using continue trap_resume_kept park_gone by (fastforce simp: kept_def)
  qed
  then show ?thesis by (simp add: kept_def after_call_def)
qed

text \<open>A process on the example kernel that asks for its identifier.\<close>

definition ecall_frame :: "64 word \<Rightarrow> 64 word \<Rightarrow> 64 word \<Rightarrow> 64 word \<Rightarrow> trapframe" where
  "ecall_frame n a b c = zero_frame\<lparr>gpr := (gpr zero_frame)\<lparr>r_a0 := n, r_a1 := a, r_a2 := b, r_a3 := c, r_sp := 0x7fffff00\<rparr>, tf_epc := 0x800020, tf_cause := 8\<rparr>"

lemma ecall_frame_ok [simp]: "ecall (ecall_frame n a b c)"
  by (simp add: ecall_def ecall_frame_def zero_frame_def CAUSE_USER_ECALL_def trap_in_kernel_def)

lemma ecall_frame_regs [simp]:
  "r_a0 (gpr (ecall_frame n a b c)) = n" "r_a1 (gpr (ecall_frame n a b c)) = a" "r_a2 (gpr (ecall_frame n a b c)) = b" "r_a3 (gpr (ecall_frame n a b c)) = c"
  "r_sp (gpr (ecall_frame n a b c)) = 0x7fffff00"
  by (simp_all add: ecall_frame_def)

definition example_machine :: machine where
  "example_machine = \<lparr>krn = example_kernel, syn = \<lparr>sch = demo_sched, wqueues = (\<lambda>_. []), waits = (\<lambda>_. \<lparr>w_proc = None, wakeup_flags = 0, w_queue = None, w_linked = False\<rparr>), sem_value = (\<lambda>_. 1)\<rparr>, ticks = 0,
     cin = \<lparr>cbuf = replicate 512 0, rpos = 0, wpos = 0\<rparr>, kbd = \<lparr>stdin_buffer = replicate 4096 0, p_rpos = 0, p_wpos = 0\<rparr>, kbd_queue = 0, scr = [],
     vdevs = [], bootfs = None, umem = (\<lambda>_ _. 0), frame = (\<lambda>_. zero_frame)\<rparr>"

definition example_env :: sys_env where
  "example_env = \<lparr>v_fork = thread_alloc,
     v_frame = 0xFFFFFFFFC0300000, v_exec = \<lparr>x_um = (\<lambda>_. 0), x_buf = (\<lambda>_. Some (kva 700)), x_io = (\<lambda>_ iob _ v. Some (0, iob, v)), x_mm = Some 70, x_vma = (\<lambda>_. True), x_stack = True,
       x_elf = kva 801, x_ph = kva 800, x_sstatus = 0\<rparr>, v_bufs = (\<lambda>_. None), v_name = 0, v_timer = 0, v_kb = Some (kva 700),
     v_al1 = (True, True, 5), v_al2 = (True, True, 6), v_al3 = (True, True, 7), v_ok = True, v_eok = (\<lambda>_. True), v_alloc = (\<lambda>_. (True, True, 8)), v_stat = 0,
     v_io = (\<lambda>_ iob _ v. Some (0, iob, v))\<rparr>"

theorem ecall_keeps_registers_witness:
  "\<exists>r w. call_outcome default_sched_class example_env [] (ecall_frame 18 0 0 0) example_machine r \<and>
     r = Resume (set_a0 w ((ecall_frame 18 0 0 0)\<lparr>tf_epc := 0x800024\<rparr>))"
proof -
  let ?tf = "ecall_frame 18 0 0 0"
  have n: "reg_int (r_a0 (gpr ?tf)) = 18" by (simp add: reg_int_def)
  have h: "map_of syscalls 18 = Some sys_getpid" by (simp add: syscalls_def)
  have c: "sys_getpid default_sched_class example_env (call_args ?tf) (entered ?tf example_machine) = Some (Ret 2, entered ?tf example_machine)"
    by (simp add: sys_getpid_def entered_def example_machine_def example_kernel_def demo_sched_def)
  have p: "fa_proc (v_fork example_env) \<noteq> Some (cur (krn example_machine))"
    by (simp add: example_env_def thread_alloc_def example_machine_def example_kernel_def demo_sched_def)
  have "\<exists>t m'. trap default_sched_class example_env [] ?tf example_machine = Some (Resume t, m')"
    using trap_ecall [OF ecall_frame_ok h [folded n] c _ p] n
    by (simp add: trap_return_def entered_def example_machine_def example_kernel_def demo_sched_def demo_proc_def)
  then obtain t where t: "call_outcome default_sched_class example_env [] ?tf example_machine (Resume t)" using enter by blast
  moreover have "tf_epc ?tf = 0x800020" by (simp add: ecall_frame_def)
  ultimately show ?thesis using ecall_keeps_registers [OF t ecall_frame_ok _ p] n by auto
qed

section \<open>Reading through the trap\<close>

lemma kmem_kernel: "kmem um s a = kmem um' s a" if "\<not> a < kva 0"
  using that by (simp add: kmem_def)

text \<open>C9. From the program to the disk and back: the instruction \<open>ecall\<close> with the number of \<open>read\<close>, a descriptor that is open for reading on a
  regular file, and a buffer the program may write, goes through the trap, the system call table, the copying in pieces of a page, the open file and
  the file system, and the program continues behind the instruction with the number of bytes in \<open>a0\<close>, exactly these bytes of the file at its
  buffer, nothing else of its memory changed, and the position of the file advanced.\<close>

theorem ecall_read:
  assumes tf: "ecall tf" "reg_int (r_a0 (gpr tf)) = 102"
  defines "fdn \<equiv> reg_int (r_a1 (gpr tf))" and "base \<equiv> unat (r_a2 (gpr tf))" and "len \<equiv> unat (r_a3 (gpr tf))"
  assumes pr: "p_mm (proc (krn m) (cur (krn m))) = Some a" "mms (krn m) a = Some mm" "filesp (proc (krn m) (cur (krn m))) = Some fa" "ftabs (krn m) fa = Some fs"
    and rs: "p_flags (proc (krn m) (cur (krn m))) AND PF_EXITING = 0" "\<not> need_resched (proc (krn m) (cur (krn m)))" "fa_proc (v_fork env) \<noteq> Some (cur (krn m))"
    and op: "opened fdn fs (kvfs (krn m)) True wr p data" "p \<le> length data"
    and buf: "user_range (Some mm) True base len" "v_kb env = Some kb" "KERNBASE \<le> kb"
  defines "c \<equiv> min len (length data - p)"
  shows "\<exists>m'. trap cls env cs tf m = Some (Resume (set_a0 (word_of_nat c) (tf\<lparr>tf_epc := tf_epc tf + 4\<rparr>)), m') \<and>
    mem_bytes (user_mem m') base c = seg p c data \<and>
    (\<forall>x < USERTOP. \<not> (base \<le> x \<and> x < base + c) \<longrightarrow> user_mem m' x = user_mem m x) \<and>
    (\<exists>fs'. ftabs (krn m') fa = Some fs' \<and> opened fdn fs' (kvfs (krn m')) True wr (p + c) data) \<and> sched (krn m') = sched (krn m)"
proof -
  let ?k = "krn m" and ?p = "cur (krn m)" and ?um = "user_mem m"
  let ?u = "\<lparr>u_mm = Some mm, u_mem = kmem ?um (mem ?k), u_files = fs\<rparr>"
  have um: "user_mem (entered tf m) = ?um" by (simp add: entered_def user_mem_def split: option.split)
  have call: "call_of ?um ?k = Some ?u" using pr by (simp add: call_of_def)
  have ut: "base + len \<le> USERTOP" using buf(1) by (simp add: user_range_def)
  then have cl: "clear_of kb base len" using buf(3) by (simp add: clear_of_def USERTOP_def KERNBASE_def)
  obtain u' v' where r: "sysfile_read (Some kb) (v_io env) fdn base len ?u (kvfs ?k) = Some (int c, u', v')"
      "mem_bytes (u_mem u') base c = seg p c data"
      "\<forall>x. \<not> (base \<le> x \<and> x < base + c) \<longrightarrow> \<not> (kb \<le> x \<and> x < kb + IOBUF_SIZE) \<longrightarrow> u_mem u' x = kmem ?um (mem ?k) x"
      "opened fdn (u_files u') v' True wr (p + c) data"
    using sysfile_read_open [of fdn ?u "kvfs ?k" wr p data base len kb "v_io env"] op buf(1) cl unfolding c_def by auto
  define m' where "m' = put_user_mem (u_mem u') ((entered tf m)\<lparr>krn := put_call u' v' ?k, vdevs := vdevs m, bootfs := bootfs m\<rparr>)"
  have h: "map_of syscalls (reg_int (r_a0 (gpr tf))) = Some sys_read" unfolding tf(2) by (simp add: syscalls_def)
  have e: "krn (entered tf m) = ?k" "vdevs (entered tf m) = vdevs m" "bootfs (entered tf m) = bootfs m" by (simp_all add: entered_def)
  have "sys_read cls env (call_args tf) (entered tf m) = Some (Ret (int c), m')"
    using r(1) by (simp add: sys_read_def on_vfs_def on_files_def um e call call_args_def Let_def fdn_def base_def len_def buf(2) m'_def)
  from trap_ecall [OF tf(1) h this _ rs(3), of cs]
  have t: "trap cls env cs tf m = trap_return cls (set_a0 (word_of_nat c) (after_call tf)) (m'\<lparr>frame := (frame m')(?p := set_a0 (word_of_nat c) (after_call tf))\<rparr>)"
    using tf(2) by simp
  let ?m = "m'\<lparr>frame := (frame m')(?p := set_a0 (word_of_nat c) (after_call tf))\<rparr>"
  have k': "krn ?m = put_call u' v' ?k" by (simp add: m'_def)
  have sc: "sched (krn ?m) = sched ?k" unfolding k' by (simp add: put_call_def)
  have resumed: "trap cls env cs tf m = Some (Resume (set_a0 (word_of_nat c) (after_call tf)), ?m)"
    unfolding t by (rule trap_return_resume) (use rs sc in simp_all)
  have mu: "user_mem ?m x = u_mem u' x" if "x < USERTOP" for x
  proof -
    have "p_mm (proc (put_call u' v' ?k) (cur (put_call u' v' ?k))) = Some a" using pr(1) by (simp add: put_call_def)
    then show ?thesis using that by (simp add: user_mem_def m'_def put_user_mem_def kva_0 USERTOP_def)
  qed
  have "c \<le> len" by (simp add: c_def)
  then have "mem_bytes (user_mem ?m) base c = mem_bytes (u_mem u') base c" using ut mu by (intro mem_bytes_cong) simp
  moreover have rest: "user_mem ?m x = ?um x" if "x < USERTOP" "\<not> (base \<le> x \<and> x < base + c)" for x
    using mu [OF that(1)] r(3) that buf(3) kmem_user [of x ?um "mem ?k"] by (simp add: kva_0 USERTOP_def KERNBASE_def)
  moreover have "\<exists>fs'. ftabs (krn ?m) fa = Some fs' \<and> opened fdn fs' (kvfs (krn ?m)) True wr (p + c) data"
    unfolding k' using r(4) pr(3) by (simp add: put_call_def)
  moreover have "\<forall>x < USERTOP. \<not> (base \<le> x \<and> x < base + c) \<longrightarrow> user_mem ?m x = ?um x" using rest by blast
  moreover note sc resumed [unfolded after_call_def]
  ultimately show ?thesis using r(2) unfolding after_call_def by (intro exI [of _ "m'\<lparr>frame := (frame m')(?p := set_a0 (word_of_nat c) (tf\<lparr>tf_epc := tf_epc tf + 4\<rparr>))\<rparr>"]) simp
qed

definition reading_machine :: machine where
  "reading_machine = example_machine\<lparr>krn := example_kernel\<lparr>sched := demo_sched\<lparr>procs := (\<lambda>_. demo_proc\<lparr>p_mm := Some 70, filesp := Some 0\<rparr>)\<rparr>,
     mms := [70 \<mapsto> demo_mm], ftabs := [0 \<mapsto> u_files example_call], kvfs := example_open_vfs\<rparr>\<rparr>"

theorem ecall_read_witness:
  "\<exists>m'. trap default_sched_class example_env [] (ecall_frame 102 3 0x200100 6000) reading_machine =
      Some (Resume (set_a0 70 ((ecall_frame 102 3 0x200100 6000)\<lparr>tf_epc := 0x800024\<rparr>)), m') \<and>
     mem_bytes (user_mem m') 0x200100 70 = seg 30 70 (contents example_fs (din example_inode1))"
proof -
  let ?tf = "ecall_frame 102 3 0x200100 6000"
  have n: "reg_int (r_a0 (gpr ?tf)) = 102" "reg_int (r_a1 (gpr ?tf)) = 3" by (simp_all add: reg_int_def)
  have k: "krn reading_machine = example_kernel\<lparr>sched := demo_sched\<lparr>procs := (\<lambda>_. demo_proc\<lparr>p_mm := Some 70, filesp := Some 0\<rparr>)\<rparr>,
     mms := [70 \<mapsto> demo_mm], ftabs := [0 \<mapsto> u_files example_call], kvfs := example_open_vfs\<rparr>"
    by (simp add: reading_machine_def)
  have a: "p_mm (proc (krn reading_machine) (cur (krn reading_machine))) = Some 70" "mms (krn reading_machine) 70 = Some demo_mm"
      "filesp (proc (krn reading_machine) (cur (krn reading_machine))) = Some 0" "ftabs (krn reading_machine) 0 = Some (u_files example_call)"
      "p_flags (proc (krn reading_machine) (cur (krn reading_machine))) AND PF_EXITING = 0" "\<not> need_resched (proc (krn reading_machine) (cur (krn reading_machine)))"
      "fa_proc (v_fork example_env) \<noteq> Some (cur (krn reading_machine))"
    by (simp_all add: k demo_sched_def demo_proc_def example_env_def thread_alloc_def)
  have o: "opened (reg_int (r_a1 (gpr ?tf))) (u_files example_call) (kvfs (krn reading_machine)) True True 30 (contents example_fs (din example_inode1))"
    unfolding n k using example_opened by simp
  have r: "user_range (Some demo_mm) True (unat (r_a2 (gpr ?tf))) (unat (r_a3 (gpr ?tf)))" using example_range [of True] by (simp add: example_call_def)
  have kb: "v_kb example_env = Some (kva 700)" "KERNBASE \<le> kva 700" using kva_eq [of 700] kva_0 by (simp_all add: example_env_def KERNBASE_def PGSIZE_def)
  have e: "tf_epc ?tf + 4 = 0x800024" by (simp add: ecall_frame_def)
  show ?thesis
    using ecall_read [OF ecall_frame_ok n(1) a(1-7) o _ r kb, of default_sched_class "[]"] example_length unfolding e by auto
qed

section \<open>Fork through the trap\<close>


section \<open>What stops a program or the kernel\<close>

text \<open>A program can stop the kernel: a system call with a number that is not in the table is a panic.\<close>

theorem undefined_ecall_panics:
  assumes "ecall tf" "reg_int (r_a0 (gpr tf)) \<notin> fst ` set syscalls"
  shows "trap cls env cs tf m = None"
proof -
  have "map_of syscalls (reg_int (r_a0 (gpr tf))) = None" using assms(2) by (simp add: map_of_eq_None_iff)
  then have "syscall cls env (entered tf m) = None" by (simp add: syscall_def entered_def after_call_def Let_def)
  then show ?thesis by (simp add: trap_def ecall_dispatch [OF assms(1)] Let_def)
qed

theorem undefined_ecall_panics_witness: "trap default_sched_class example_env [] (ecall_frame 5 0 0 0) example_machine = None"
  by (rule undefined_ecall_panics) (simp_all add: reg_int_def syscalls_def)

text \<open>Faults: the access and page faults of instructions, loads and stores.\<close>

definition fault :: "trapframe \<Rightarrow> bool" where
  "fault tf \<longleftrightarrow> unat (tf_cause tf) \<in> {CAUSE_FETCH_ACCESS, CAUSE_LOAD_ACCESS, CAUSE_STORE_ACCESS, CAUSE_FETCH_PAGE_FAULT, CAUSE_LOAD_PAGE_FAULT, CAUSE_STORE_PAGE_FAULT}
     \<and> \<not> trap_in_kernel tf"

text \<open>A program that touches memory it does not have is not stopped: the handler only prints a message, the processor repeats the instruction in an
  unchanged machine, and so the same fault comes again and again, as long as the process is not killed by another one and its time slice lasts.\<close>

theorem fault_repeats:
  assumes "fault tf" "p_flags (proc (krn m) (cur (krn m))) AND PF_EXITING = 0" "\<not> need_resched (proc (krn m) (cur (krn m)))"
  shows "trap cls env cs tf m = Some (Resume tf, m\<lparr>frame := (frame m)(cur (krn m) := tf)\<rparr>) \<and>
    trap cls env cs tf (m\<lparr>frame := (frame m)(cur (krn m) := tf)\<rparr>) = Some (Resume tf, m\<lparr>frame := (frame m)(cur (krn m) := tf)\<rparr>)"
proof -
  have c: "unat (tf_cause tf) \<in> {1, 5, 7, 12, 13, 15}"
    using assms(1) by (simp add: fault_def CAUSE_FETCH_ACCESS_def CAUSE_LOAD_ACCESS_def CAUSE_STORE_ACCESS_def CAUSE_FETCH_PAGE_FAULT_def CAUSE_LOAD_PAGE_FAULT_def CAUSE_STORE_PAGE_FAULT_def)
  have w: "sint (tf_cause tf) = sint (word_of_nat i :: 64 word)" if "unat (tf_cause tf) = i" for i unfolding that [symmetric] by simp
  have "\<not> sint (tf_cause tf) < 0" using c w [of 1] w [of 5] w [of 7] w [of 12] w [of 13] w [of 15] by auto
  then have d: "trap_dispatch cls env cs tf x = Some (None, x)" for x
    using c by (auto simp: trap_dispatch_def exception_handler_def Let_def CAUSE_MISALIGNED_STORE_def CAUSE_USER_ECALL_def CAUSE_SUPERVISOR_ECALL_def)
  have "trap cls env cs tf x = Some (Resume tf, x\<lparr>frame := (frame x)(cur (krn x) := tf)\<rparr>)" if "krn x = krn m" for x
    using assms that by (simp add: trap_def d Let_def fault_def trap_return_resume)
  then show ?thesis by simp
qed

theorem fault_repeats_witness:
  "trap default_sched_class example_env [] (zero_frame\<lparr>tf_cause := 13\<rparr>) reading_machine =
     Some (Resume (zero_frame\<lparr>tf_cause := 13\<rparr>), reading_machine\<lparr>frame := (frame reading_machine)(1 := zero_frame\<lparr>tf_cause := 13\<rparr>)\<rparr>)"
  using fault_repeats [of "zero_frame\<lparr>tf_cause := 13\<rparr>" reading_machine default_sched_class example_env "[]"]
  by (simp add: fault_def zero_frame_def trap_in_kernel_def reading_machine_def demo_sched_def demo_proc_def CAUSE_LOAD_PAGE_FAULT_def)

definition forking_machine :: machine where
  "forking_machine = example_machine\<lparr>krn := thread_kernel\<rparr>"


section \<open>The timer\<close>

definition timer_irq :: "trapframe \<Rightarrow> bool" where
  "timer_irq tf \<longleftrightarrow> tf_cause tf = 0x8000000000000005 \<and> \<not> trap_in_kernel tf"

text \<open>A run of traps from programs: whether all of them resumed the interrupted code, and the machine behind the last one.\<close>

fun trap_run :: "sched_class \<Rightarrow> sys_env \<Rightarrow> trapframe list \<Rightarrow> machine \<Rightarrow> (bool \<times> machine) option" where
  "trap_run cls env [] m = Some (True, m)"
| "trap_run cls env (tf # tfs) m =
     (case trap cls env [] tf m of
        None \<Rightarrow> None
      | Some (Resume tf', m) \<Rightarrow> if tf' = tf then trap_run cls env tfs m else None
      | Some (Switch c tf', m) \<Rightarrow> Some (False, m))"

text \<open>A process runs alone on the processor, no timer is pending and no key was pressed.\<close>

definition quiet :: "nat list \<Rightarrow> machine \<Rightarrow> bool" where
  "quiet ps m \<longleftrightarrow> (let s = sched (krn m); p = current s in
     rr_inv s ps \<and> timer_list s = [] \<and> p \<notin> set ps \<and> p \<noteq> idleproc s \<and> length ps + 1 < 2 ^ 32 \<and> state (procs s p) = PROC_RUNNABLE \<and>
     p_flags (procs s p) AND PF_EXITING = 0 \<and> rpos (cin m) = wpos (cin m))"

lemma tick_facts:
  assumes "timer_list s = []" "current s \<noteq> idleproc s" "\<not> need_resched (procs s (current s))" "time_slice (procs s (current s)) = int (Suc n)"
  shows "\<exists>s1. run_timer_list default_sched_class s = Some s1 \<and> same_queues s s1 \<and> current s1 = current s \<and> idleproc s1 = idleproc s \<and> timer_list s1 = [] \<and>
    time_slice (procs s1 (current s)) = int n \<and> need_resched (procs s1 (current s)) = (n = 0) \<and> p_flags (procs s1 (current s)) = p_flags (procs s (current s)) \<and>
    (\<forall>q. state (procs s1 q) = state (procs s q)) \<and> (\<forall>q. q \<noteq> current s \<longrightarrow> procs s1 q = procs s q)"
proof -
  define s0 where "s0 = upd_proc (current s) (\<lambda>q. q\<lparr>time_slice := time_slice q - 1\<rparr>) s"
  define s1 where "s1 = (if n = 0 then upd_proc (current s) (\<lambda>q. q\<lparr>need_resched := True\<rparr>) s0 else s0)"
  have "run_timer_list default_sched_class s = Some s1"
    using assms by (simp add: run_timer_list_def sched_class_proc_tick_def default_sched_class_def RR_proc_tick_def s1_def s0_def Let_def)
  moreover have "same_queues s s1" by (simp add: same_queues_def s1_def s0_def)
  ultimately show ?thesis using assms by (intro exI [of _ s1]) (simp add: s1_def s0_def)
qed

lemma timer_trap:
  assumes "quiet ps m" "timer_irq tf" "\<not> need_resched (proc (krn m) (cur (krn m)))" "time_slice (proc (krn m) (cur (krn m))) = int (Suc n)"
  shows "\<exists>m1. trap default_sched_class env [] tf m = trap_return default_sched_class tf m1 \<and> ticks m1 = u64 (ticks m + 1) \<and> quiet ps m1 \<and>
    cur (krn m1) = cur (krn m) \<and> time_slice (proc (krn m1) (cur (krn m))) = int n \<and> need_resched (proc (krn m1) (cur (krn m))) = (n = 0)"
proof -
  let ?s = "sched (krn m)" and ?p = "cur (krn m)"
  have q: "timer_list ?s = []" "?p \<noteq> idleproc ?s" "rpos (cin m) = wpos (cin m)" "rr_inv ?s ps"
    using assms(1) by (simp_all add: quiet_def Let_def)
  obtain s1 where s1: "run_timer_list default_sched_class ?s = Some s1" "same_queues ?s s1" "current s1 = ?p" "idleproc s1 = idleproc ?s" "timer_list s1 = []"
      "time_slice (procs s1 ?p) = int n" "need_resched (procs s1 ?p) = (n = 0)" "p_flags (procs s1 ?p) = p_flags (procs ?s ?p)"
      "\<forall>q. state (procs s1 q) = state (procs ?s q)"
    using tick_facts [OF q(1,2) assms(3,4)] by blast
  have c: "sint (tf_cause tf) < 0" "unat (tf_cause tf) mod 2 ^ 63 = IRQ_S_TIMER" "\<not> trap_in_kernel tf"
    using assms(2) by (simp_all add: timer_irq_def IRQ_S_TIMER_def)
  let ?m1 = "m\<lparr>frame := (frame m)(?p := tf), ticks := u64 (ticks m + 1), krn := (krn m)\<lparr>sched := s1\<rparr>, syn := (syn m)\<lparr>sch := s1\<rparr>\<rparr>"
  have g: "cons_getc [] (cin m) = (0, cin m)" using q(3) by (simp add: cons_getc_def cons_take_def)
  have "trap_dispatch default_sched_class env [] tf (m\<lparr>frame := (frame m)(?p := tf)\<rparr>) = Some (None, ?m1)"
    using c(1,2) s1(1) by (simp add: trap_dispatch_def interrupt_handler_def g dev_stdin_write_def Let_def)
  then have "trap default_sched_class env [] tf m = trap_return default_sched_class tf ?m1" using c(3) by (simp add: trap_def Let_def)
  moreover have "quiet ps ?m1" using assms(1) s1 rr_inv_cong [OF q(4) s1(2)] by (simp add: quiet_def Let_def)
  ultimately show ?thesis using s1 by (intro exI [of _ ?m1]) simp
qed

text \<open>The end of the last tick of a slice.\<close>

lemma trap_return_schedules:
  assumes "quiet ps m" "need_resched (proc (krn m) (cur (krn m)))" "ps \<noteq> []"
  shows "\<exists>m2. trap_return default_sched_class tf m = Some (Switch None tf, m2) \<and> cur (krn m2) = hd ps \<and>
    rr_inv (sched (krn m2)) (tl ps @ [cur (krn m)]) \<and> ticks m2 = ticks m"
proof -
  let ?s = "sched (krn m)"
  have q: "rr_inv ?s ps" "current ?s \<notin> set ps" "current ?s \<noteq> idleproc ?s" "state (procs ?s (current ?s)) = PROC_RUNNABLE" "length ps + 1 < 2 ^ 32"
      "p_flags (procs ?s (current ?s)) AND PF_EXITING = 0"
    using assms(1) by (simp_all add: quiet_def Let_def)
  obtain s' where s': "schedule default_sched_class ?s = Some s'" "current s' # tl (ps @ [current ?s]) = ps @ [current ?s]" "rr_inv s' (tl (ps @ [current ?s]))"
    using RR_schedule_step [OF q(1-5)] by blast
  have "current s' = hd ps" using s'(2) assms(3) by (cases ps) auto
  moreover have "hd ps \<noteq> current ?s" using q(2) assms(3) by (cases ps) auto
  ultimately show ?thesis using s' q(6) assms(2,3)
    by (intro exI [of _ "m\<lparr>krn := (krn m)\<lparr>sched := s'\<rparr>\<rparr>"]) (simp add: trap_return_def Let_def)
qed

text \<open>C19. Preemption: a program that runs with \<open>n + 1\<close> clock ticks left in its time slice, whatever it does in between, goes on after each of the next \<open>n\<close> timer
  interrupts, and at the one after these it has to give the processor to the process that has waited longest, and enters the run queue behind all others.\<close>

theorem timer_preempts:
  assumes "quiet ps m" "ps \<noteq> []" "\<forall>tf\<in>set tfs. timer_irq tf" "length tfs = Suc n" "time_slice (proc (krn m) (cur (krn m))) = int (Suc n)"
    and "\<not> need_resched (proc (krn m) (cur (krn m)))"
  shows "\<exists>m1 m2. trap_run default_sched_class env (butlast tfs) m = Some (True, m1) \<and> cur (krn m1) = cur (krn m) \<and>
    trap_run default_sched_class env tfs m = Some (False, m2) \<and> cur (krn m2) = hd ps \<and> rr_inv (sched (krn m2)) (tl ps @ [cur (krn m)]) \<and>
    ticks m2 = u64 (ticks m + Suc n)"
  using assms
proof (induction n arbitrary: m tfs)
  case 0
  then obtain tf where tf: "tfs = [tf]" "timer_irq tf" by (cases tfs) auto
  obtain m1 where t: "trap default_sched_class env [] tf m = trap_return default_sched_class tf m1" "ticks m1 = u64 (ticks m + 1)" "quiet ps m1"
      "cur (krn m1) = cur (krn m)" "need_resched (proc (krn m1) (cur (krn m)))"
    using timer_trap [OF "0.prems"(1) tf(2) "0.prems"(6,5)] by auto
  obtain m2 where "trap_return default_sched_class tf m1 = Some (Switch None tf, m2)" "cur (krn m2) = hd ps"
      "rr_inv (sched (krn m2)) (tl ps @ [cur (krn m1)])" "ticks m2 = ticks m1"
    using trap_return_schedules [OF t(3) _ "0.prems"(2)] t(4,5) by auto
  then show ?case using t(1,2,4) tf(1) by (intro exI [of _ m] exI [of _ m2]) simp
next
  case (Suc n)
  then obtain tf ts where tf: "tfs = tf # ts" "timer_irq tf" "\<forall>tf\<in>set ts. timer_irq tf" "length ts = Suc n" by (cases tfs) auto
  obtain m1 where t: "trap default_sched_class env [] tf m = trap_return default_sched_class tf m1" "ticks m1 = u64 (ticks m + 1)" "quiet ps m1"
      "cur (krn m1) = cur (krn m)" "time_slice (proc (krn m1) (cur (krn m))) = int (Suc n)" "\<not> need_resched (proc (krn m1) (cur (krn m)))"
    using timer_trap [OF Suc.prems(1) tf(2) Suc.prems(6,5)] by auto
  have "p_flags (proc (krn m1) (cur (krn m1))) AND PF_EXITING = 0" using t(3) by (simp add: quiet_def Let_def)
  then have r: "trap default_sched_class env [] tf m = Some (Resume tf, m1)" using t(1,4,6) trap_return_resume by simp
  obtain m' m2 where ih: "trap_run default_sched_class env (butlast ts) m1 = Some (True, m')" "cur (krn m') = cur (krn m1)"
      "trap_run default_sched_class env ts m1 = Some (False, m2)" "cur (krn m2) = hd ps" "rr_inv (sched (krn m2)) (tl ps @ [cur (krn m1)])"
      "ticks m2 = u64 (ticks m1 + Suc n)"
    using Suc.IH [OF t(3) Suc.prems(2) tf(3,4)] t(4,5,6) by auto
  have "u64 (u64 (ticks m + 1) + Suc n) = u64 (ticks m + Suc (Suc n))" unfolding u64_def by (simp only: mod_add_left_eq add.assoc plus_1_eq_Suc)
  moreover have "ts \<noteq> []" using tf(4) by auto
  ultimately show ?case using r ih t(2,4) tf(1) by (intro exI [of _ m'] exI [of _ m2]) simp
qed

theorem timer_preempts_witness:
  "\<exists>m1 m2. trap_run default_sched_class example_env (replicate 4 (zero_frame\<lparr>tf_cause := 0x8000000000000005\<rparr>)) reading_machine = Some (True, m1) \<and>
     cur (krn m1) = 1 \<and>
     trap_run default_sched_class example_env (replicate 5 (zero_frame\<lparr>tf_cause := 0x8000000000000005\<rparr>)) reading_machine = Some (False, m2) \<and>
     cur (krn m2) = 2 \<and> rr_inv (sched (krn m2)) [3, 1] \<and> ticks m2 = 5"
proof -
  let ?tfs = "replicate 5 (zero_frame\<lparr>tf_cause := 0x8000000000000005\<rparr>)"
  have "rr_inv (sched (krn reading_machine)) [2, 3]"
    using demo_sched_inv by (simp add: rr_inv_def reading_machine_def demo_sched_def demo_proc_def)
  then have q: "quiet [2, 3] reading_machine"
    by (simp add: quiet_def Let_def reading_machine_def example_machine_def demo_sched_def demo_proc_def)
  have i: "\<forall>tf\<in>set ?tfs. timer_irq tf" by (simp add: timer_irq_def zero_frame_def trap_in_kernel_def)
  have "butlast ?tfs = replicate 4 (zero_frame\<lparr>tf_cause := 0x8000000000000005\<rparr>)" by (simp add: butlast_conv_take)
  moreover have m: "time_slice (proc (krn reading_machine) (cur (krn reading_machine))) = int (Suc 4)"
      "\<not> need_resched (proc (krn reading_machine) (cur (krn reading_machine)))" "cur (krn reading_machine) = 1" "ticks reading_machine = 0"
    by (simp_all add: reading_machine_def example_machine_def demo_sched_def demo_proc_def)
  ultimately show ?thesis using timer_preempts [OF q _ i _ m(1,2), of example_env] m(3,4) by (simp add: u64_def)
qed

end
