(* ===== verification/Spec2Isabelle.thy ===== *)
theory Spec2Isabelle
  imports Prelude Link_List Page_Alloc Buddy Slob Vma Page_Table Cow Skew_Heap Sched Stride Timer Sync Bitmap Disk Sfs_Io Sfs_File Sfs_Map Sfs_Rw Sfs_Spec Sfs_Dir Sfs_Fs Vfs Files Proc Console Exec Exec_Args Exec_Load Fork Namefile Printfmt Strings Sysfile Trap Trapframe
begin

text \<open>
  This library models the ucore teaching kernel of this repository and proves its core correct. The labs lab2 to lab8 are
  successive versions of one RISC-V kernel; lab8 holds the final one, and unless a definition says otherwise it translates
  lab8. Parts that only an earlier lab has (best fit and the buddy system of lab2, copy-on-write of lab5) are translated from there.

  \<^bold>\<open>How the program is put together.\<close> The page allocator hands out runs of page frames. The kernel allocator, page tables
  and kernel stacks take frames from it. An address space is a list of areas with a page table. Processes own an address space, a
  kernel stack and a table of open files; the scheduler picks one of them, and wait queues, semaphores and timers put them to
  sleep and wake them. The file system is layered: a disk of sectors, blocks on it, the SFS volume with its free map, inodes and
  directories, a cache of inodes with reference counts, the VFS with its operation tables and paths, and open files on top.

  \<^bold>\<open>How it is modelled.\<close> A structure is a record, an enumeration a datatype, a function of the source one definition with the same name.
  State is passed explicitly. A panic, a failed assertion and undefined behaviour are the value \<open>None\<close>, a C return code is an
  \<open>int\<close>; so a theorem that says \<open>f s = Some \<dots>\<close> also says that \<open>f\<close> returns. Machine words are words where bits matter
  and naturals or integers with an explicit wrap-around (\<open>u32\<close>, \<open>u64\<close>, \<open>s64\<close>) where they are counters or offsets. The outcome of a
  \<open>kmalloc\<close> and the address it returns are arguments. A function that gives up the processor is split at its call of
  \<open>schedule\<close>. Interrupt masking and the semaphores inside the file system make the operations atomic and are not repeated.

  \<^bold>\<open>The theories.\<close>
  \<^item> \<open>Prelude\<close>: error codes, assertions, rounding, the option monad's lemmas.
  \<^item> \<open>Strings\<close>, \<open>Printfmt\<close> (libs/string.c, rand.c, printfmt.c): string and memory functions on a byte-addressed memory, formatted output; what
    \<open>snprintf\<close> prints \<open>strtol\<close> reads back.
  \<^item> \<open>Console\<close> (kern/driver/console.c, kern/libs/readline.c, dev_stdin.c, dev_stdout.c): the circular input buffers, blocking reads, line
    editing; locale \<open>byte_queue\<close>.
  \<^item> \<open>Link_List\<close> (libs/list.h): doubly linked rings in a pointer store; locale \<open>ring_queue\<close>.
  \<^item> \<open>Page_Alloc\<close> (kern/mm/default_pmm.c, lab2 best_fit_pmm.c): first fit and best fit. \<open>pmm_inv\<close> ties the ring of free
    blocks, the page flags and the counter together; the locale \<open>page_allocator\<close>, interpreted for both policies, gives disjointness of
    allocations and the round trip of allocation and release.
  \<^item> \<open>Buddy\<close> (lab2 buddy_pmm.c): the buddy system, with an invariant on aligned, disjoint, maximal blocks.
  \<^item> \<open>Slob\<close> (kern/mm/kmalloc.c): the kernel allocator, a circular address-ordered list of free units.
  \<^item> \<open>Vma\<close> (kern/mm/vmm.c): areas of an address space, access checks, copying strings from user memory.
  \<^item> \<open>Page_Table\<close> (kern/mm/pmm.c): Sv39 page tables, mapping, unmapping, copying and freeing ranges.
  \<^item> \<open>Cow\<close> (lab5 pmm.c, trap.c): copy-on-write fork and the store fault that ends sharing.
  \<^item> \<open>Skew_Heap\<close>, \<open>Sched\<close>, \<open>Stride\<close>, \<open>Timer\<close> (libs/skew_heap.h, kern/schedule): the scheduler with its policies round robin and stride;
    the locale \<open>sched_policy\<close> is the function table \<open>sched_class\<close> with its contract and is interpreted for both.
  \<^item> \<open>Sync\<close> (kern/sync): wait queues, semaphores, monitors; a step relation of processes that use a semaphore as a lock.
  \<^item> \<open>Bitmap\<close>, \<open>Disk\<close>, \<open>Sfs_Io\<close> (kern/fs/sfs/bitmap.c, iobuf.c, ramdisk.c, ide.c, dev_disk0.c, sfs_io.c): from sectors to numbered blocks; locale \<open>block_store\<close>.
  \<^item> \<open>Sfs_File\<close>, \<open>Sfs_Map\<close>, \<open>Sfs_Rw\<close>, \<open>Sfs_Spec\<close> (sfs_inode.c): the block map of a file, reading, writing, truncation; the abstract
    specification is a byte list, \<open>contents\<close>, and the operations refine its operations.
  \<^item> \<open>Sfs_Dir\<close>, \<open>Sfs_Fs\<close> (sfs_inode.c, sfs_fs.c, vfs/inode.c): directories, the inode cache, mounting and synchronising a volume.
  \<^item> \<open>Vfs\<close>, \<open>Files\<close> (kern/fs/vfs, file.c, fs.c): operation tables, paths, devices, descriptors and file tables.
  \<^item> \<open>Namefile\<close>, \<open>Sysfile\<close> (sfs_namefile, vfspath.c, sysfile.c): the path of the working directory, and the system calls on files, which
    move data between user memory and files in pieces of a page.
  \<^item> \<open>Proc\<close>, \<open>Fork\<close> (kern/process/proc.c): identifiers, family links, fork, exit, wait, kill, sleep; a successful fork as a whole.
  \<^item> \<open>Exec\<close>, \<open>Exec_Load\<close>, \<open>Exec_Args\<close> (proc.c, libs/elf.h): \<open>execve\<close> and the program loader, which join files, page tables and the contents of
    page frames; every byte of a loaded segment is the byte of the file or zero, and the arguments are where the program looks for them.
  \<^item> \<open>Trapframe\<close>, \<open>Trap\<close> (kern/trap, kern/syscall): saved registers, the table of system calls, traps from their entry to the frame with which
    the processor goes on; a system call from the program's \<open>ecall\<close> to the disk and back, and preemption by the timer.

  \<^bold>\<open>Bounds and loops.\<close> Loops over a list or a counter are structural recursions. Loops that follow pointers and may run forever in
  a corrupted state are \<open>partial_function (option)\<close>; each theorem about them shows that they return. A volume has at most
  \<open>2 ^ 20\<close> blocks (above that a 32-bit product in sfs_io.c wraps around), a file at most 1036 blocks, the run queue fewer
  than \<open>2 ^ 32\<close> processes, a stride fewer than \<open>2 ^ 31\<close> steps: these are the limits of the code's own arithmetic.

  \<^bold>\<open>Not modelled.\<close> Boot code, assembly and context switches; the assembly that saves and restores registers; the clock's hardware,
  the device tree and other drivers; the monitor and debugging output; user programs and their
  library; the host tools (mksfs.c, sign.c, vector.c); the self tests (check_\<open>*\<close>); the earlier labs' copies of what lab8 has.
\<close>

end
